(* ===== verification/Prelude.thy ===== *)
theory Prelude
  imports Main "HOL-Library.Word" "HOL-Library.Multiset" "HOL-Library.Signed_Division"
begin

text \<open>
  Shared vocabulary of the development: the integer types and constants of
  \<open>src/Core/Dimensions.h\<close>, the indices \<open>PL/TR\<close> and \<open>PRE/POST\<close> of the static net
  arrays, truncating remainder, and the generic lemmas on lists, folds and words that the
  component theories use.

  Array indices (\<open>arrayindex_t\<close>, an unsigned 32 bit integer) are natural numbers: they number
  places, transitions and array cells, and the arrays have fewer than \<open>2 ^ 32\<close> cells.  Token
  counts and multiplicities keep their width, because the code adds and subtracts them.
\<close>

section \<open>Types and constants of Core/Dimensions.h\<close>

type_synonym arrayindex_t = nat
type_synonym mult_t = "16 word"
type_synonym capacity_t = "32 word"
type_synonym vectordata_t = "32 word"
type_synonym hash_t = int
type_synonym cardbit_t = nat

datatype node_t = PL | TR

datatype direction_t = PRE | POST

definition SIZEOF_MARKINGTABLE :: int where
  "SIZEOF_MARKINGTABLE = 1048576"

fun other_node :: "node_t \<Rightarrow> node_t" where
  "other_node PL = TR"
| "other_node TR = PL"

fun other_direction :: "direction_t \<Rightarrow> direction_t" where
  "other_direction PRE = POST"
| "other_direction POST = PRE"

section \<open>Collections of facts\<close>

named_theorems frame_simps \<open>fields an operation leaves alone\<close>

named_theorems sem_simps \<open>values of the abstract semantics\<close>

section \<open>Truncating remainder and normalisation of hash values\<close>

text \<open>
  \<open>hash_t\<close> is a signed 64 bit integer and the C operator \<open>%\<close> truncates towards zero
  (\<open>smod\<close>).  All hash values that occur stay far below \<open>2 ^ 63\<close>, see the bound lemmas of the
  components, so they are kept as mathematical integers.
\<close>

lemma smod_mod_cong: "(a smod n) mod n = a mod (n::int)"
  by (metis minus_sdiv_mult_eq_smod mod_diff_right_eq mod_mult_self2_is_0 diff_zero)

lemma smod_bounds:
  fixes a n :: int
  assumes "0 < n"
  shows "- n < a smod n \<and> a smod n < n"
  using assms smod_int_range [of n a] by (auto simp: abs_if)

section \<open>Lists and folds\<close>

lemma length_fold_pres:
  assumes "\<And>x ys. length (f x ys) = length ys"
  shows "length (fold f xs ys) = length ys"
  by (induction xs arbitrary: ys) (auto simp: assms)

lemma fold_invariant_list:
  assumes "\<And>x s. x \<in> set xs \<Longrightarrow> P s \<Longrightarrow> P (f x s)" and "P s"
  shows "P (fold f xs s)"
  using assms by (induction xs arbitrary: s) auto

definition swap_at :: "'a list \<Rightarrow> nat \<Rightarrow> nat \<Rightarrow> 'a list" where
  "swap_at xs i j = xs[i := xs ! j, j := xs ! i]"

lemma length_swap_at [simp]: "length (swap_at xs i j) = length xs"
  by (simp add: swap_at_def)

lemma mset_swap_at [simp]:
  "i < length xs \<Longrightarrow> j < length xs \<Longrightarrow> mset (swap_at xs i j) = mset xs"
  by (simp add: swap_at_def mset_swap)

lemma set_swap_at [simp]:
  "i < length xs \<Longrightarrow> j < length xs \<Longrightarrow> set (swap_at xs i j) = set xs"
  by (metis mset_swap_at set_mset_mset)

lemma distinct_swap_at [simp]:
  "i < length xs \<Longrightarrow> j < length xs \<Longrightarrow> distinct (swap_at xs i j) = distinct xs"
  by (simp add: swap_at_def)

lemma nth_swap_at:
  "i < length xs \<Longrightarrow> j < length xs \<Longrightarrow> k < length xs \<Longrightarrow>
   swap_at xs i j ! k = (if k = j then xs ! i else if k = i then xs ! j else xs ! k)"
  by (auto simp: swap_at_def nth_list_update)

definition count_true :: "bool list \<Rightarrow> nat" where
  "count_true bs = length (filter id bs)"

lemma count_true_update_True:
  "t < length bs \<Longrightarrow> \<not> bs ! t \<Longrightarrow> count_true (bs[t := True]) = Suc (count_true bs)"
  unfolding count_true_def
  by (induction bs arbitrary: t) (auto simp: nth_Cons split: nat.splits)

lemma count_true_update_False:
  "t < length bs \<Longrightarrow> bs ! t \<Longrightarrow> count_true bs = Suc (count_true (bs[t := False]))"
  unfolding count_true_def
  by (induction bs arbitrary: t) (auto simp: nth_Cons split: nat.splits)

lemma count_true_replicate [simp]: "count_true (replicate n True) = n"
  by (induction n) (auto simp: count_true_def)

lemma count_true_pos: "count_true bs = 0 \<longleftrightarrow> (\<forall>i < length bs. \<not> bs ! i)"
  by (auto simp: count_true_def filter_empty_conv in_set_conv_nth)

section \<open>Words\<close>

lemma unat_mult_capacity [simp]: "unat (ucast (w :: mult_t) :: capacity_t) = unat w"
proof -
  have "unat w < 2 ^ 16" using unsigned_less [of w, where 'a = nat] by simp
  then show ?thesis by (simp add: unsigned_ucast_eq take_bit_nat_eq_self_iff)
qed

lemma unat_sub_le: "unat (b :: 'a::len word) \<le> unat a \<Longrightarrow> unat (a - b) = unat a - unat b"
  by (simp add: unat_sub word_le_nat_alt)

lemma unat_add_lt:
  "unat (a :: 'a::len word) + unat b < 2 ^ LENGTH('a) \<Longrightarrow> unat (a + b) = unat a + unat b"
  by (simp add: unat_add_lem [THEN iffD1])

text \<open>Reading an updated list, whatever the index.\<close>

lemma nth_update_if: "xs[i := y] ! j = (if i = j \<and> i < length xs then y else xs ! j)"
  by (cases "i < length xs") (auto simp: nth_list_update list_update_beyond)

text \<open>A loop whose body may fail.\<close>

primrec fold_option :: "('a \<Rightarrow> 's \<Rightarrow> 's option) \<Rightarrow> 'a list \<Rightarrow> 's \<Rightarrow> 's option" where
  "fold_option f [] s = Some s"
| "fold_option f (x # xs) s = Option.bind (f x s) (fold_option f xs)"

text \<open>An invariant of such a loop, indexed by the elements already done.\<close>

lemma fold_option_inv:
  assumes "I [] s" "\<And>ds x s. I ds s \<Longrightarrow> x \<in> set xs \<Longrightarrow> \<exists>s'. f x s = Some s' \<and> I (ds @ [x]) s'"
  shows "\<exists>s'. fold_option f xs s = Some s' \<and> I xs s'"
proof -
  have "\<exists>s'. fold_option f ys s = Some s' \<and> I (ds @ ys) s'" if "I ds s" "set ys \<subseteq> set xs" for ds ys s
    using that
  proof (induction ys arbitrary: ds s)
    case (Cons y ys)
    obtain s1 where s1: "f y s = Some s1" "I (ds @ [y]) s1" using assms(2) Cons.prems by fastforce
    then show ?case using Cons.IH [OF s1(2)] Cons.prems(2) by simp
  qed simp
  from this [of "[]" s xs] assms(1) show ?thesis by simp
qed

end
