(* ===== verification/PetriNet.thy ===== *)
theory PetriNet
  imports Prelude
begin

text \<open>
  The static net data of \<open>src/Net/Net.h\<close> and the Petri net semantics the code implements:
  weights of arcs, markings as functions from places to token counts, enabledness and firing.
\<close>

section \<open>struct Net\<close>

text \<open>
  \<open>Net::Arc[type][dir][n]\<close> and \<open>Net::Mult[type][dir][n]\<close> are two arrays of the same length
  \<open>Net::CardArcs[type][dir][n]\<close> that the code always reads and permutes together.  They are one
  list of pairs here.
\<close>

record net =
  Card :: "node_t \<Rightarrow> arrayindex_t"
  Arcs :: "node_t \<Rightarrow> direction_t \<Rightarrow> (arrayindex_t \<times> mult_t) list list"

definition CardArcs :: "net \<Rightarrow> node_t \<Rightarrow> direction_t \<Rightarrow> arrayindex_t \<Rightarrow> arrayindex_t" where
  "CardArcs N ty d n = length (Arcs N ty d ! n)"

definition Arc :: "net \<Rightarrow> node_t \<Rightarrow> direction_t \<Rightarrow> arrayindex_t \<Rightarrow> arrayindex_t list" where
  "Arc N ty d n = map fst (Arcs N ty d ! n)"

lemma length_Arc [simp]: "length (Arc N ty d n) = CardArcs N ty d n"
  by (simp add: Arc_def CardArcs_def)

section \<open>Debug checks of the net\<close>

definition DEBUG__checkConsistency :: "net \<Rightarrow> bool" where
  "DEBUG__checkConsistency N \<longleftrightarrow>
     list_all (\<lambda>ty. list_all (\<lambda>d. list_all (\<lambda>n. list_all (\<lambda>nn.
         n \<in> set (Arc N (other_node ty) (other_direction d) nn)) (Arc N ty d n))
       [0..<Card N ty]) [PRE, POST]) [PL, TR]"

definition DEBUG__checkArcOrdering :: "net \<Rightarrow> bool" where
  "DEBUG__checkArcOrdering N \<longleftrightarrow>
     list_all (\<lambda>ty. list_all (\<lambda>n. list_all (\<lambda>d. list_all (\<lambda>p.
         Arc N ty d n ! 0 < Arc N ty d n ! p)
       [1..<CardArcs N ty d n]) [PRE, POST]) [0..<Card N ty]) [TR, PL]"

section \<open>Well-formed nets\<close>

definition wf_net :: "net \<Rightarrow> bool" where
  "wf_net N \<longleftrightarrow>
     (\<forall>ty d. length (Arcs N ty d) = Card N ty) \<and>
     (\<forall>ty d n. n < Card N ty \<longrightarrow> distinct (Arc N ty d n)) \<and>
     (\<forall>ty d n m w. n < Card N ty \<longrightarrow> (m, w) \<in> set (Arcs N ty d ! n) \<longrightarrow>
        m < Card N (other_node ty) \<and> w \<noteq> 0 \<and>
        (n, w) \<in> set (Arcs N (other_node ty) (other_direction d) ! m))"

lemma wf_net_distinct: "wf_net N \<Longrightarrow> n < Card N ty \<Longrightarrow> distinct (Arc N ty d n)"
  by (simp add: wf_net_def)

lemma wf_net_arc:
  assumes "wf_net N" "n < Card N ty" "(m, w) \<in> set (Arcs N ty d ! n)"
  shows "m < Card N (other_node ty)" "w \<noteq> 0"
    "(n, w) \<in> set (Arcs N (other_node ty) (other_direction d) ! m)"
  using assms unfolding wf_net_def by blast+

lemma wf_net_Arc_less:
  assumes "wf_net N" "n < Card N ty" "m \<in> set (Arc N ty d n)"
  shows "m < Card N (other_node ty)"
  using assms wf_net_arc(1) by (fastforce simp: Arc_def)

lemma wf_net_Arc_dual:
  assumes "wf_net N" "n < Card N ty" "m \<in> set (Arc N ty d n)"
  shows "n \<in> set (Arc N (other_node ty) (other_direction d) m)"
proof -
  from assms(3) obtain w where "(m, w) \<in> set (Arcs N ty d ! n)" by (auto simp: Arc_def)
  from wf_net_arc(3) [OF assms(1,2) this] show ?thesis by (force simp: Arc_def)
qed

lemma other_node_invol [simp]: "other_node (other_node ty) = ty"
  by (cases ty) auto

lemma other_direction_invol [simp]: "other_direction (other_direction d) = d"
  by (cases d) auto

section \<open>Abstract semantics: weights, markings, firing\<close>

type_synonym marking = "arrayindex_t \<Rightarrow> nat"

definition weight_in :: "('k \<times> mult_t) list \<Rightarrow> 'k \<Rightarrow> nat" where
  "weight_in as p = (case map_of as p of None \<Rightarrow> 0 | Some w \<Rightarrow> unat w)"

definition weight :: "net \<Rightarrow> direction_t \<Rightarrow> arrayindex_t \<Rightarrow> marking" where
  "weight N d t = weight_in (Arcs N TR d ! t)"

lemma weight_in_Nil [simp]: "weight_in [] p = 0"
  by (simp add: weight_in_def)

lemma weight_in_Cons [simp]:
  "weight_in ((q, w) # as) p = (if p = q then unat w else weight_in as p)"
  by (simp add: weight_in_def)

lemma weight_in_notin: "p \<notin> fst ` set as \<Longrightarrow> weight_in as p = 0"
  by (induction as) auto

lemma weight_in_mem:
  "distinct (map fst as) \<Longrightarrow> (p, w) \<in> set as \<Longrightarrow> weight_in as p = unat w"
  by (simp add: weight_in_def map_of_eq_Some_iff)

lemma weight_in_pos: "0 < weight_in as p \<Longrightarrow> p \<in> fst ` set as"
  using weight_in_notin by fastforce

lemma weight_in_bound: "weight_in as p < 65536"
  using unsigned_less [where 'b = 16 and 'a = nat] by (auto simp: weight_in_def split: option.splits)

lemma weight_pos_Arc: "0 < weight N d t p \<Longrightarrow> p \<in> set (Arc N TR d t)"
  unfolding weight_def using weight_in_pos by (force simp: Arc_def)

lemma weight_Arc_pos:
  assumes "wf_net N" "t < Card N TR" "p \<in> set (Arc N TR d t)"
  shows "0 < weight N d t p"
proof -
  from assms(3) obtain w where w: "(p, w) \<in> set (Arcs N TR d ! t)" by (auto simp: Arc_def)
  have "weight_in (Arcs N TR d ! t) p = unat w"
    using wf_net_distinct [OF assms(1,2), of d] w by (simp add: Arc_def weight_in_mem)
  then show ?thesis
    using wf_net_arc(2) [OF assms(1,2) w] by (simp add: weight_def unat_gt_0)
qed

definition enabled_at :: "net \<Rightarrow> marking \<Rightarrow> arrayindex_t \<Rightarrow> bool" where
  "enabled_at N M t \<longleftrightarrow> (\<forall>p. weight N PRE t p \<le> M p)"

definition fire_at :: "net \<Rightarrow> arrayindex_t \<Rightarrow> marking \<Rightarrow> marking" where
  "fire_at N t M = (\<lambda>p. M p - weight N PRE t p + weight N POST t p)"

text \<open>Steps and reachable markings of the net.\<close>

inductive net_step :: "net \<Rightarrow> marking \<Rightarrow> marking \<Rightarrow> bool" for N where
  fire_step: "t < Card N TR \<Longrightarrow> enabled_at N M t \<Longrightarrow> net_step N M (fire_at N t M)"

inductive net_reach :: "net \<Rightarrow> marking \<Rightarrow> marking \<Rightarrow> bool" for N M where
  reach_refl: "net_reach N M M"
| reach_step: "net_reach N M M' \<Longrightarrow> net_step N M' M'' \<Longrightarrow> net_reach N M M''"

inductive_cases net_stepE: "net_step N M M'"

lemma net_reach_trans: "net_reach N B C \<Longrightarrow> net_reach N A B \<Longrightarrow> net_reach N A C"
  by (induction rule: net_reach.induct) (auto intro: reach_step)

end
