(* ===== verification/Firing.thy ===== *)
theory Firing
  imports PetriNet
begin

text \<open>
  \<open>src/Net/NetState.h\<close>, \<open>src/Net/Transition.h\<close> and \<open>src/Net/Transition.cc\<close>: the state object that
  every exploration carries around, the enabledness check, firing and backfiring of a transition,
  and the incremental maintenance of the enabledness flags.  The theorems say that firing refines
  the token game of theory \<open>PetriNet\<close>, that backfiring undoes it exactly (also when 32 bit token
  counts wrap around), and that the incremental updates leave the flags and their counter exactly
  right.
\<close>

section \<open>State\<close>

record netstate =
  Current :: "capacity_t list"
  HashCurrent :: hash_t
  Enabled :: "bool list"
  CardEnabled :: arrayindex_t

text \<open>
  Precomputed data of \<open>struct Transition\<close>; \<open>DeltaT\<close> and \<open>MultDeltaT\<close> are parallel arrays and are
  kept as one list of pairs, as the arcs are.
\<close>

record transition_data =
  DeltaHash :: "hash_t list"
  DeltaT :: "direction_t \<Rightarrow> (arrayindex_t \<times> mult_t) list list"
  Conflicting :: "arrayindex_t list list"
  BackConflicting :: "arrayindex_t list list"

definition marking_of :: "capacity_t list \<Rightarrow> marking" where
  "marking_of m = (\<lambda>p. if p < length m then unat (m ! p) else 0)"

section \<open>Operations of Transition.cc\<close>

fun has_tokens :: "capacity_t list \<Rightarrow> (arrayindex_t \<times> mult_t) list \<Rightarrow> bool" where
  "has_tokens m [] = True"
| "has_tokens m ((p, w) # as) = (if m ! p < ucast w then False else has_tokens m as)"

definition checkEnabled :: "net \<Rightarrow> arrayindex_t \<Rightarrow> netstate \<Rightarrow> netstate" where
  "checkEnabled N t ns =
     (if \<not> has_tokens (Current ns) (Arcs N TR PRE ! t)
      then (if Enabled ns ! t
            then ns\<lparr>Enabled := (Enabled ns)[t := False], CardEnabled := CardEnabled ns - 1\<rparr>
            else ns)
      else (if \<not> Enabled ns ! t
            then ns\<lparr>Enabled := (Enabled ns)[t := True], CardEnabled := CardEnabled ns + 1\<rparr>
            else ns))"

definition take_tokens :: "(arrayindex_t \<times> mult_t) list \<Rightarrow> capacity_t list \<Rightarrow> capacity_t list" where
  "take_tokens ds m = fold (\<lambda>(p, w) m. m[p := m ! p - ucast w]) ds m"

definition put_tokens :: "(arrayindex_t \<times> mult_t) list \<Rightarrow> capacity_t list \<Rightarrow> capacity_t list" where
  "put_tokens ds m = fold (\<lambda>(p, w) m. m[p := m ! p + ucast w]) ds m"

function lift_hash :: "hash_t \<Rightarrow> hash_t" where
  "lift_hash h = (if h < 0 then lift_hash (h + SIZEOF_MARKINGTABLE) else h)"
  by pat_completeness auto
termination
  by (relation "measure (\<lambda>h. nat (- h))") (auto simp: SIZEOF_MARKINGTABLE_def)

declare lift_hash.simps [simp del]

definition fire :: "transition_data \<Rightarrow> arrayindex_t \<Rightarrow> netstate \<Rightarrow> netstate" where
  "fire T t ns =
     ns\<lparr>Current := put_tokens (DeltaT T POST ! t) (take_tokens (DeltaT T PRE ! t) (Current ns)),
        HashCurrent := lift_hash ((HashCurrent ns + DeltaHash T ! t) smod SIZEOF_MARKINGTABLE)\<rparr>"

definition backfire :: "transition_data \<Rightarrow> arrayindex_t \<Rightarrow> netstate \<Rightarrow> netstate" where
  "backfire T t ns =
     ns\<lparr>Current := take_tokens (DeltaT T POST ! t) (put_tokens (DeltaT T PRE ! t) (Current ns)),
        HashCurrent := lift_hash ((HashCurrent ns - DeltaHash T ! t) smod SIZEOF_MARKINGTABLE)\<rparr>"

definition isCycle :: "transition_data \<Rightarrow> arrayindex_t \<Rightarrow> bool" where
  "isCycle T t \<longleftrightarrow> length (DeltaT T PRE ! t) = 0 \<and> length (DeltaT T POST ! t) = 0"

definition recheck_enabled :: "net \<Rightarrow> arrayindex_t list \<Rightarrow> netstate \<Rightarrow> netstate" where
  "recheck_enabled N tts ns =
     fold (\<lambda>tt ns. if Enabled ns ! tt then checkEnabled N tt ns else ns) tts ns"

definition recheck_disabled :: "net \<Rightarrow> arrayindex_t list \<Rightarrow> netstate \<Rightarrow> netstate" where
  "recheck_disabled N tts ns =
     fold (\<lambda>tt ns. if \<not> Enabled ns ! tt then checkEnabled N tt ns else ns) tts ns"

definition updateEnabled :: "net \<Rightarrow> transition_data \<Rightarrow> arrayindex_t \<Rightarrow> netstate \<Rightarrow> netstate" where
  "updateEnabled N T t ns =
     recheck_disabled N (BackConflicting T ! t) (recheck_enabled N (Conflicting T ! t) ns)"

definition revertEnabled :: "net \<Rightarrow> transition_data \<Rightarrow> arrayindex_t \<Rightarrow> netstate \<Rightarrow> netstate" where
  "revertEnabled N T t ns =
     recheck_disabled N (Conflicting T ! t) (recheck_enabled N (BackConflicting T ! t) ns)"

text \<open>Step 7 of \<open>Net::preprocess\<close>: all flags start as true and every transition is checked once.\<close>

definition initial_enabled :: "net \<Rightarrow> netstate \<Rightarrow> netstate" where
  "initial_enabled N ns =
     fold (checkEnabled N) [0..<Card N TR]
       (ns\<lparr>Enabled := replicate (Card N TR) True, CardEnabled := Card N TR\<rparr>)"

definition DEBUG__testEnabled :: "net \<Rightarrow> netstate \<Rightarrow> arrayindex_t \<Rightarrow> bool" where
  "DEBUG__testEnabled N ns t =
     (if Enabled ns ! t
      then list_all (\<lambda>(p, w). \<not> Current ns ! p < ucast w) (Arcs N TR PRE ! t)
      else (let (p, w) = Arcs N TR PRE ! t ! 0 in \<not> Current ns ! p \<ge> ucast w))"

section \<open>The token vector under take and put\<close>

text \<open>Total amount an arc list moves on a place, in 32 bit arithmetic.\<close>

definition toks :: "(arrayindex_t \<times> mult_t) list \<Rightarrow> arrayindex_t \<Rightarrow> capacity_t" where
  "toks ds q = sum_list (map (\<lambda>(p, w). if p = q then ucast w else 0) ds)"

lemma length_take_tokens [simp]: "length (take_tokens ds m) = length m"
  unfolding take_tokens_def by (rule length_fold_pres) auto

lemma length_put_tokens [simp]: "length (put_tokens ds m) = length m"
  unfolding put_tokens_def by (rule length_fold_pres) auto

lemma take_tokens_nth: "q < length m \<Longrightarrow> take_tokens ds m ! q = m ! q - toks ds q"
  unfolding take_tokens_def toks_def
  by (induction ds arbitrary: m) (auto simp: nth_list_update)

lemma put_tokens_nth: "q < length m \<Longrightarrow> put_tokens ds m ! q = m ! q + toks ds q"
  unfolding put_tokens_def toks_def
  by (induction ds arbitrary: m) (auto simp: nth_list_update)

lemma toks_weight_in: "distinct (map fst ds) \<Longrightarrow> unat (toks ds q) = weight_in ds q"
proof (induction ds)
  case Nil
  then show ?case by (simp add: toks_def)
next
  case (Cons d ds)
  obtain p w where d: "d = (p, w)" by (cases d)
  show ?case
  proof (cases "p = q")
    case True
    then have "weight_in ds q = 0" using Cons.prems d by (auto intro: weight_in_notin)
    then have "toks ds q = 0" using Cons by (simp add: unat_eq_0 [symmetric] d)
    then show ?thesis using d True by (simp add: toks_def)
  next
    case False
    then show ?thesis using Cons d by (simp add: toks_def)
  qed
qed

lemma has_tokens_iff: "has_tokens m as \<longleftrightarrow> (\<forall>(p, w) \<in> set as. unat w \<le> unat (m ! p))"
  by (induction as) (auto simp: word_less_nat_alt split: if_splits)

lemma has_tokens_enabled_at:
  assumes "wf_net N" "t < Card N TR" "length m = Card N PL"
  shows "has_tokens m (Arcs N TR PRE ! t) \<longleftrightarrow> enabled_at N (marking_of m) t"
proof -
  have d: "distinct (map fst (Arcs N TR PRE ! t))"
    using wf_net_distinct [OF assms(1,2)] by (simp add: Arc_def)
  have key: "weight N PRE t p \<le> marking_of m p \<longleftrightarrow>
      (\<forall>w. (p, w) \<in> set (Arcs N TR PRE ! t) \<longrightarrow> unat w \<le> unat (m ! p))" for p
  proof (cases "p \<in> fst ` set (Arcs N TR PRE ! t)")
    case True
    then obtain w where w: "(p, w) \<in> set (Arcs N TR PRE ! t)" by auto
    have "p < Card N PL" using wf_net_arc(1) [OF assms(1,2) w] by simp
    moreover have "weight N PRE t p = unat w"
      using weight_in_mem [OF d w] by (simp add: weight_def)
    moreover have "(\<forall>w'. (p, w') \<in> set (Arcs N TR PRE ! t) \<longrightarrow> unat w' \<le> k) \<longleftrightarrow> unat w \<le> k" for k
      using w eq_key_imp_eq_value [OF d w] by blast
    ultimately show ?thesis using assms(3) by (simp add: marking_of_def)
  next
    case False
    then show ?thesis by (force simp: weight_def weight_in_notin)
  qed
  show ?thesis unfolding has_tokens_iff enabled_at_def key by blast
qed

section \<open>Hash values\<close>

lemma lift_hash_smod: "lift_hash (h smod SIZEOF_MARKINGTABLE) = h mod SIZEOF_MARKINGTABLE"
proof -
  let ?S = SIZEOF_MARKINGTABLE and ?r = "h smod SIZEOF_MARKINGTABLE"
  have S: "0 < ?S" by (simp add: SIZEOF_MARKINGTABLE_def)
  have b: "- ?S < ?r" "?r < ?S" using smod_bounds [OF S, of h] by auto
  have m: "?r mod ?S = h mod ?S" by (rule smod_mod_cong)
  show ?thesis
  proof (cases "?r < 0")
    case True
    then have "lift_hash ?r = ?r + ?S" using b by (simp add: lift_hash.simps)
    also have "\<dots> = (?r + ?S) mod ?S" using b True by (simp only: mod_pos_pos_trivial)
    finally show ?thesis using m by simp
  next
    case False
    then show ?thesis using b m by (simp add: lift_hash.simps)
  qed
qed

lemma fire_HashCurrent [sem_simps]:
  "HashCurrent (fire T t ns) = (HashCurrent ns + DeltaHash T ! t) mod SIZEOF_MARKINGTABLE"
  by (simp add: fire_def lift_hash_smod)

lemma backfire_HashCurrent [sem_simps]:
  "HashCurrent (backfire T t ns) = (HashCurrent ns - DeltaHash T ! t) mod SIZEOF_MARKINGTABLE"
  by (simp add: backfire_def lift_hash_smod)

lemma fire_frame [frame_simps]:
  "Enabled (fire T t ns) = Enabled ns" "CardEnabled (fire T t ns) = CardEnabled ns"
  "length (Current (fire T t ns)) = length (Current ns)"
  "Enabled (backfire T t ns) = Enabled ns" "CardEnabled (backfire T t ns) = CardEnabled ns"
  "length (Current (backfire T t ns)) = length (Current ns)"
  by (simp_all add: fire_def backfire_def)

lemma fire_Current:
  "q < length (Current ns) \<Longrightarrow>
   Current (fire T t ns) ! q = Current ns ! q - toks (DeltaT T PRE ! t) q + toks (DeltaT T POST ! t) q"
  by (simp add: fire_def take_tokens_nth put_tokens_nth)

lemma backfire_Current:
  "q < length (Current ns) \<Longrightarrow>
   Current (backfire T t ns) ! q = Current ns ! q + toks (DeltaT T PRE ! t) q - toks (DeltaT T POST ! t) q"
  by (simp add: backfire_def take_tokens_nth put_tokens_nth)

lemma backfire_fire_aux:
  assumes "0 \<le> HashCurrent ns" "HashCurrent ns < SIZEOF_MARKINGTABLE"
  shows "backfire T t (fire T t ns) = ns"
proof (rule netstate.equality)
  have "Current (backfire T t (fire T t ns)) ! q = Current ns ! q" if "q < length (Current ns)" for q
    using that by (simp add: backfire_Current fire_Current frame_simps)
  then show "Current (backfire T t (fire T t ns)) = Current ns"
    by (intro nth_equalityI) (simp_all add: frame_simps)
  show "HashCurrent (backfire T t (fire T t ns)) = HashCurrent ns"
    using assms by (simp add: sem_simps mod_diff_left_eq)
qed (simp_all add: frame_simps)

section \<open>Enabledness flags\<close>

text \<open>
  The flags are exact: one flag per transition, true iff the code's own test succeeds, and the
  counter is the number of true flags.
\<close>

definition flag_ok :: "net \<Rightarrow> netstate \<Rightarrow> arrayindex_t \<Rightarrow> bool" where
  "flag_ok N ns t \<longleftrightarrow> Enabled ns ! t = has_tokens (Current ns) (Arcs N TR PRE ! t)"

definition count_ok :: "net \<Rightarrow> netstate \<Rightarrow> bool" where
  "count_ok N ns \<longleftrightarrow>
     length (Enabled ns) = Card N TR \<and> length (Current ns) = Card N PL \<and>
     CardEnabled ns = count_true (Enabled ns)"

definition enabled_ok :: "net \<Rightarrow> netstate \<Rightarrow> bool" where
  "enabled_ok N ns \<longleftrightarrow> count_ok N ns \<and> (\<forall>t < Card N TR. flag_ok N ns t)"

lemma checkEnabled_Current [frame_simps]: "Current (checkEnabled N t ns) = Current ns"
  by (simp add: checkEnabled_def)

lemma checkEnabled_Hash [frame_simps]: "HashCurrent (checkEnabled N t ns) = HashCurrent ns"
  by (simp add: checkEnabled_def)

lemma checkEnabled_other:
  "tt \<noteq> t \<Longrightarrow> Enabled (checkEnabled N t ns) ! tt = Enabled ns ! tt"
  by (simp add: checkEnabled_def)

lemma checkEnabled_self:
  "t < length (Enabled ns) \<Longrightarrow>
   Enabled (checkEnabled N t ns) ! t = has_tokens (Current ns) (Arcs N TR PRE ! t)"
  by (simp add: checkEnabled_def)

lemma checkEnabled_count_ok:
  assumes "count_ok N ns" "t < Card N TR"
  shows "count_ok N (checkEnabled N t ns)"
  using assms count_true_update_True [of t "Enabled ns"] count_true_update_False [of t "Enabled ns"]
  by (auto simp: count_ok_def checkEnabled_def)

lemma checkEnabled_flag_ok:
  assumes "count_ok N ns" "t < Card N TR" "tt = t \<or> flag_ok N ns tt"
  shows "flag_ok N (checkEnabled N t ns) tt"
  using assms checkEnabled_self [of t ns N] checkEnabled_other [of tt t N ns]
  by (cases "tt = t") (auto simp: flag_ok_def count_ok_def checkEnabled_Current)

text \<open>Both recheck loops at once: \<open>g\<close> is the guard on the old flag.\<close>

definition recheck :: "(bool \<Rightarrow> bool) \<Rightarrow> net \<Rightarrow> arrayindex_t list \<Rightarrow> netstate \<Rightarrow> netstate" where
  "recheck g N tts ns = fold (\<lambda>tt ns. if g (Enabled ns ! tt) then checkEnabled N tt ns else ns) tts ns"

lemma recheck_enabled_eq: "recheck_enabled N tts ns = recheck (\<lambda>b. b) N tts ns"
  by (simp add: recheck_enabled_def recheck_def)

lemma recheck_disabled_eq: "recheck_disabled N tts ns = recheck Not N tts ns"
  by (simp add: recheck_disabled_def recheck_def)

lemma recheck_Nil [simp]: "recheck g N [] ns = ns"
  by (simp add: recheck_def)

lemma recheck_Cons [simp]:
  "recheck g N (t # tts) ns = recheck g N tts (if g (Enabled ns ! t) then checkEnabled N t ns else ns)"
  by (simp add: recheck_def)

lemma recheck_frame [frame_simps]:
  "Current (recheck g N tts ns) = Current ns"
  "HashCurrent (recheck g N tts ns) = HashCurrent ns"
  by (induction tts arbitrary: ns) (auto simp: frame_simps)

lemma recheck_frame_enabled [frame_simps]:
  "Current (recheck_enabled N tts ns) = Current ns"
  "HashCurrent (recheck_enabled N tts ns) = HashCurrent ns"
  "Current (recheck_disabled N tts ns) = Current ns"
  "HashCurrent (recheck_disabled N tts ns) = HashCurrent ns"
  by (simp_all add: recheck_enabled_eq recheck_disabled_eq recheck_frame)

lemma recheck_count_ok:
  "count_ok N ns \<Longrightarrow> \<forall>t \<in> set tts. t < Card N TR \<Longrightarrow> count_ok N (recheck g N tts ns)"
  by (induction tts arbitrary: ns) (auto simp: checkEnabled_count_ok)

text \<open>A flag is right afterwards if it was right, or if it was listed and passed the guard.\<close>

lemma recheck_flag_ok_pres:
  "count_ok N ns \<Longrightarrow> \<forall>t \<in> set tts. t < Card N TR \<Longrightarrow> flag_ok N ns t \<Longrightarrow> flag_ok N (recheck g N tts ns) t"
  by (induction tts arbitrary: ns) (auto simp: checkEnabled_count_ok checkEnabled_flag_ok)

lemma recheck_flag_ok:
  "count_ok N ns \<Longrightarrow> \<forall>t \<in> set tts. t < Card N TR \<Longrightarrow> t \<in> set tts \<Longrightarrow> g (Enabled ns ! t) \<Longrightarrow>
   flag_ok N (recheck g N tts ns) t"
proof (induction tts arbitrary: ns)
  case Nil
  then show ?case by simp
next
  case (Cons u tts)
  let ?ns' = "if g (Enabled ns ! u) then checkEnabled N u ns else ns"
  have c: "count_ok N ?ns'" using Cons.prems by (simp add: checkEnabled_count_ok)
  show ?case
  proof (cases "u = t")
    case True
    then have "flag_ok N ?ns' t" using Cons.prems by (simp add: checkEnabled_flag_ok)
    then show ?thesis using c Cons.prems(2) by (simp add: recheck_flag_ok_pres)
  next
    case False
    then have "g (Enabled ?ns' ! t)" using Cons.prems(4) by (simp add: checkEnabled_other)
    then show ?thesis using c False Cons.prems Cons.IH [of ?ns'] by auto
  qed
qed

lemma recheck_skip:
  "(t \<notin> set tts) \<or> \<not> g (Enabled ns ! t) \<Longrightarrow> Enabled (recheck g N tts ns) ! t = Enabled ns ! t"
proof (induction tts arbitrary: ns)
  case (Cons u tts)
  then show ?case by (cases "u = t") (auto simp: checkEnabled_other)
qed simp

text \<open>
  Two passes, the first over transitions that may have lost tokens, the second over transitions
  that may have gained some, restore exactness when every other transition is unaffected.
\<close>

lemma two_pass_enabled_ok:
  assumes cnt: "count_ok N ns"
    and rng: "\<forall>t \<in> set as. t < Card N TR" "\<forall>t \<in> set bs. t < Card N TR"
    and lose: "\<And>t. t < Card N TR \<Longrightarrow> Enabled ns ! t \<Longrightarrow> t \<notin> set as \<Longrightarrow> flag_ok N ns t"
    and gain: "\<And>t. t < Card N TR \<Longrightarrow> \<not> Enabled ns ! t \<Longrightarrow> t \<notin> set bs \<Longrightarrow> flag_ok N ns t"
  shows "enabled_ok N (recheck_disabled N bs (recheck_enabled N as ns))"
proof -
  let ?n1 = "recheck (\<lambda>b. b) N as ns"
  have c1: "count_ok N ?n1" using cnt rng(1) by (rule recheck_count_ok)
  have c2: "count_ok N (recheck Not N bs ?n1)" using c1 rng(2) by (rule recheck_count_ok)
  have "flag_ok N (recheck Not N bs ?n1) t" if t: "t < Card N TR" for t
  proof (cases "flag_ok N ?n1 t")
    case True
    then show ?thesis using c1 rng(2) by (simp add: recheck_flag_ok_pres)
  next
    case False
    then have nf: "\<not> flag_ok N ns t" using cnt rng(1) recheck_flag_ok_pres by blast
    have "\<not> Enabled ns ! t"
      using False nf lose [OF t] recheck_flag_ok [OF cnt rng(1), of t "\<lambda>b. b"] by blast
    then have "\<not> Enabled ?n1 ! t" "t \<in> set bs" using nf gain [OF t] by (auto simp: recheck_skip)
    then show ?thesis using c1 rng(2) by (simp add: recheck_flag_ok)
  qed
  then show ?thesis using c2 by (simp add: enabled_ok_def recheck_enabled_eq recheck_disabled_eq)
qed

section \<open>What the preprocessing promises\<close>

text \<open>
  \<open>deltas_ok\<close>: the delta lists hold the positive part of the difference between arc weights (theory
  \<open>Preprocess\<close> proves it for the code that builds them).  \<open>conflicts_ok\<close>: the conflict lists are the
  post transitions of the pre places resp. of the post places.
\<close>

definition deltas_ok :: "net \<Rightarrow> transition_data \<Rightarrow> bool" where
  "deltas_ok N T \<longleftrightarrow>
     (\<forall>t < Card N TR. \<forall>d.
        distinct (map fst (DeltaT T d ! t)) \<and>
        (\<forall>p. weight_in (DeltaT T d ! t) p = weight N d t p - weight N (other_direction d) t p))"

definition conflicts_ok :: "net \<Rightarrow> transition_data \<Rightarrow> bool" where
  "conflicts_ok N T \<longleftrightarrow>
     (\<forall>t < Card N TR.
        set (Conflicting T ! t) = (\<Union>p \<in> set (Arc N TR PRE t). set (Arc N PL POST p)) \<and>
        set (BackConflicting T ! t) = (\<Union>p \<in> set (Arc N TR POST t). set (Arc N PL POST p)))"

lemma deltas_ok_toks:
  assumes "deltas_ok N T" "t < Card N TR"
  shows "unat (toks (DeltaT T d ! t) p) = weight N d t p - weight N (other_direction d) t p"
  using assms by (simp add: deltas_ok_def toks_weight_in)

text \<open>No place overflows its 32 bits when \<open>t\<close> fires (resp. is fired backwards).\<close>

definition fits :: "net \<Rightarrow> netstate \<Rightarrow> arrayindex_t \<Rightarrow> bool" where
  "fits N ns t \<longleftrightarrow> (\<forall>p < Card N PL. unat (Current ns ! p) + weight N POST t p < 2 ^ 32 + weight N PRE t p)"

lemma marking_of_fire:
  assumes d: "deltas_ok N T" and t: "t < Card N TR" and c: "count_ok N ns"
    and e: "enabled_at N (marking_of (Current ns)) t" and f: "fits N ns t"
    and wf: "wf_net N"
  shows "marking_of (Current (fire T t ns)) = fire_at N t (marking_of (Current ns))"
proof
  fix p
  let ?a = "toks (DeltaT T PRE ! t) p" and ?b = "toks (DeltaT T POST ! t) p"
  show "marking_of (Current (fire T t ns)) p = fire_at N t (marking_of (Current ns)) p"
  proof (cases "p < Card N PL")
    case True
    let ?m = "Current ns ! p"
    have len: "p < length (Current ns)" using True c by (simp add: count_ok_def)
    have le: "weight N PRE t p \<le> unat ?m"
      using e len by (auto simp: enabled_at_def marking_of_def dest: spec [where x = p])
    have a: "unat ?a = weight N PRE t p - weight N POST t p"
      and b: "unat ?b = weight N POST t p - weight N PRE t p"
      using deltas_ok_toks [OF d t] by simp_all
    have s: "unat (?m - ?a) = unat ?m - unat ?a" using a le by (simp add: unat_sub_le)
    have "unat (?m - ?a + ?b) = unat ?m - unat ?a + unat ?b"
      using f True a b le s by (subst unat_add_lt) (auto simp: fits_def)
    then show ?thesis
      using len a b le by (simp add: marking_of_def fire_at_def fire_Current frame_simps)
  next
    case False
    have "p \<notin> set (Arc N TR d t)" for d using False wf_net_Arc_less [OF wf t] by fastforce
    then have "weight N d t p = 0" for d using weight_pos_Arc gr_zeroI by metis
    then show ?thesis using False c by (simp add: marking_of_def fire_at_def frame_simps count_ok_def)
  qed
qed

lemma conflicts_ok_range:
  assumes "conflicts_ok N T" "wf_net N" "t < Card N TR"
  shows "\<forall>u \<in> set (Conflicting T ! t). u < Card N TR"
    "\<forall>u \<in> set (BackConflicting T ! t). u < Card N TR"
proof -
  have "u < Card N TR" if "p \<in> set (Arc N TR d t)" "u \<in> set (Arc N PL POST p)" for d p u
    using wf_net_Arc_less [OF assms(2,3) that(1)] wf_net_Arc_less [OF assms(2) _ that(2)] by simp
  then show "\<forall>u \<in> set (Conflicting T ! t). u < Card N TR"
    "\<forall>u \<in> set (BackConflicting T ! t). u < Card N TR"
    using assms(1,3) unfolding conflicts_ok_def by blast+
qed

text \<open>A transition outside the conflict list of \<open>t\<close> has no pre place among the places of \<open>t\<close>.\<close>

lemma not_conflicting:
  assumes "conflicts_ok N T" "wf_net N" "t < Card N TR" "u < Card N TR"
    and "p \<in> set (Arc N TR PRE u)"
  shows "u \<notin> set (Conflicting T ! t) \<Longrightarrow> weight N PRE t p = 0"
    "u \<notin> set (BackConflicting T ! t) \<Longrightarrow> weight N POST t p = 0"
proof -
  have u: "u \<in> set (Arc N PL POST p)" using wf_net_Arc_dual [OF assms(2,4,5)] by simp
  have "p \<notin> set (Arc N TR PRE t)" if "u \<notin> set (Conflicting T ! t)"
    using that u assms(1,3) unfolding conflicts_ok_def by blast
  then show "u \<notin> set (Conflicting T ! t) \<Longrightarrow> weight N PRE t p = 0"
    using weight_pos_Arc [of N PRE t p] by blast
  have "p \<notin> set (Arc N TR POST t)" if "u \<notin> set (BackConflicting T ! t)"
    using that u assms(1,3) unfolding conflicts_ok_def by blast
  then show "u \<notin> set (BackConflicting T ! t) \<Longrightarrow> weight N POST t p = 0"
    using weight_pos_Arc [of N POST t p] by blast
qed

lemma has_tokens_mono:
  assumes "has_tokens m (Arcs N TR PRE ! u)"
    and "\<And>p. p \<in> set (Arc N TR PRE u) \<Longrightarrow> unat (m ! p) \<le> unat (m' ! p)"
  shows "has_tokens m' (Arcs N TR PRE ! u)"
proof -
  have "unat w \<le> unat (m' ! p)" if "(p, w) \<in> set (Arcs N TR PRE ! u)" for p w
  proof -
    have "unat w \<le> unat (m ! p)" using assms(1) that by (auto simp: has_tokens_iff)
    moreover have "p \<in> set (Arc N TR PRE u)" using that by (force simp: Arc_def)
    ultimately show ?thesis using assms(2) le_trans by blast
  qed
  then show ?thesis by (auto simp: has_tokens_iff)
qed

text \<open>Relation of the token counts before and after a firing, place by place.\<close>

definition fired :: "net \<Rightarrow> arrayindex_t \<Rightarrow> capacity_t list \<Rightarrow> capacity_t list \<Rightarrow> bool" where
  "fired N t m m' \<longleftrightarrow>
     (\<forall>p < Card N PL. unat (m' ! p) + weight N PRE t p = unat (m ! p) + weight N POST t p)"

lemma fire_fired:
  assumes "deltas_ok N T" "wf_net N" "t < Card N TR" "count_ok N ns"
    and "enabled_at N (marking_of (Current ns)) t" "fits N ns t"
  shows "fired N t (Current ns) (Current (fire T t ns))"
proof -
  have "unat (Current (fire T t ns) ! p) + weight N PRE t p = unat (Current ns ! p) + weight N POST t p"
    if p: "p < Card N PL" for p
  proof -
    have len: "p < length (Current ns)" using p assms(4) by (simp add: count_ok_def)
    have "weight N PRE t p \<le> unat (Current ns ! p)"
      using assms(5) len by (auto simp: enabled_at_def marking_of_def dest: spec [where x = p])
    then show ?thesis
      using fun_cong [OF marking_of_fire [OF assms(1,3-6,2)], of p] len
      by (simp add: marking_of_def fire_at_def frame_simps)
  qed
  then show ?thesis by (simp add: fired_def)
qed

lemma has_tokens_forward:
  assumes C: "conflicts_ok N T" "wf_net N" "t < Card N TR" "u < Card N TR" and F: "fired N t m m'"
  shows "u \<notin> set (Conflicting T ! t) \<Longrightarrow> has_tokens m (Arcs N TR PRE ! u) \<Longrightarrow> has_tokens m' (Arcs N TR PRE ! u)"
    "u \<notin> set (BackConflicting T ! t) \<Longrightarrow> has_tokens m' (Arcs N TR PRE ! u) \<Longrightarrow> has_tokens m (Arcs N TR PRE ! u)"
proof -
  have p: "p < Card N PL" if "p \<in> set (Arc N TR PRE u)" for p
    using wf_net_Arc_less [OF C(2,4) that] by simp
  have "unat (m ! p) \<le> unat (m' ! p)" if "u \<notin> set (Conflicting T ! t)" "p \<in> set (Arc N TR PRE u)" for p
    using F p [OF that(2)] not_conflicting(1) [OF C that(2,1)] by (force simp: fired_def)
  then show "u \<notin> set (Conflicting T ! t) \<Longrightarrow> has_tokens m (Arcs N TR PRE ! u) \<Longrightarrow> has_tokens m' (Arcs N TR PRE ! u)"
    using has_tokens_mono by blast
  have "unat (m' ! p) \<le> unat (m ! p)" if "u \<notin> set (BackConflicting T ! t)" "p \<in> set (Arc N TR PRE u)" for p
    using F p [OF that(2)] not_conflicting(2) [OF C that(2,1)] by (force simp: fired_def)
  then show "u \<notin> set (BackConflicting T ! t) \<Longrightarrow> has_tokens m' (Arcs N TR PRE ! u) \<Longrightarrow> has_tokens m (Arcs N TR PRE ! u)"
    using has_tokens_mono by blast
qed

lemma enabled_ok_flag: "enabled_ok N ns \<Longrightarrow> t < Card N TR \<Longrightarrow> Enabled ns ! t \<longleftrightarrow> has_tokens (Current ns) (Arcs N TR PRE ! t)"
  by (simp add: enabled_ok_def flag_ok_def)

lemma enabled_ok_iff:
  assumes "enabled_ok N ns" "wf_net N" "t < Card N TR"
  shows "Enabled ns ! t \<longleftrightarrow> enabled_at N (marking_of (Current ns)) t"
  using assms has_tokens_enabled_at [OF assms(2,3), of "Current ns"]
  by (simp add: enabled_ok_flag) (simp add: enabled_ok_def count_ok_def)

text \<open>Flags that are right for marking \<open>m\<close> become right for \<open>m'\<close> after the update loops.\<close>

lemma updateEnabled_enabled_ok:
  assumes C: "conflicts_ok N T" "wf_net N" "t < Card N TR"
    and ok: "enabled_ok N ns" and F: "fired N t (Current ns) (Current ns')"
    and E: "Enabled ns' = Enabled ns" "CardEnabled ns' = CardEnabled ns" "length (Current ns') = Card N PL"
  shows "enabled_ok N (updateEnabled N T t ns')"
  unfolding updateEnabled_def
proof (rule two_pass_enabled_ok)
  show "count_ok N ns'" using ok E by (simp add: enabled_ok_def count_ok_def)
  note fwd = has_tokens_forward [OF C _ F]
  show "flag_ok N ns' u" if "u < Card N TR" "Enabled ns' ! u" "u \<notin> set (Conflicting T ! t)" for u
    using that fwd(1) [OF that(1,3)] enabled_ok_flag [OF ok that(1)] E by (simp add: flag_ok_def)
  show "flag_ok N ns' u" if "u < Card N TR" "\<not> Enabled ns' ! u" "u \<notin> set (BackConflicting T ! t)" for u
    using that fwd(2) [OF that(1,3)] enabled_ok_flag [OF ok that(1)] E by (auto simp: flag_ok_def)
qed (use conflicts_ok_range [OF C] in auto)

lemma revertEnabled_enabled_ok:
  assumes C: "conflicts_ok N T" "wf_net N" "t < Card N TR"
    and ok: "enabled_ok N ns" and F: "fired N t (Current ns') (Current ns)"
    and E: "Enabled ns' = Enabled ns" "CardEnabled ns' = CardEnabled ns" "length (Current ns') = Card N PL"
  shows "enabled_ok N (revertEnabled N T t ns')"
  unfolding revertEnabled_def
proof (rule two_pass_enabled_ok)
  show "count_ok N ns'" using ok E by (simp add: enabled_ok_def count_ok_def)
  note fwd = has_tokens_forward [OF C _ F]
  show "flag_ok N ns' u" if "u < Card N TR" "Enabled ns' ! u" "u \<notin> set (BackConflicting T ! t)" for u
    using that fwd(2) [OF that(1,3)] enabled_ok_flag [OF ok that(1)] E by (simp add: flag_ok_def)
  show "flag_ok N ns' u" if "u < Card N TR" "\<not> Enabled ns' ! u" "u \<notin> set (Conflicting T ! t)" for u
    using that fwd(1) [OF that(1,3)] enabled_ok_flag [OF ok that(1)] E by (auto simp: flag_ok_def)
qed (use conflicts_ok_range [OF C] in auto)

lemma enabled_ok_unique:
  assumes "enabled_ok N ns" "enabled_ok N ns'" "Current ns = Current ns'"
  shows "Enabled ns = Enabled ns'" "CardEnabled ns = CardEnabled ns'"
proof -
  show "Enabled ns = Enabled ns'"
    using assms by (intro nth_equalityI) (auto simp: enabled_ok_def count_ok_def flag_ok_def)
  then show "CardEnabled ns = CardEnabled ns'"
    using assms by (auto simp: enabled_ok_def count_ok_def)
qed

lemma delta_pre_covered:
  assumes "wf_net N" "deltas_ok N T" "t < Card N TR" "count_ok N ns"
    and e: "enabled_at N (marking_of (Current ns)) t" and m: "(p, w) \<in> set (DeltaT T PRE ! t)"
  shows "unat w \<le> unat (Current ns ! p)"
proof (cases "w = 0")
  case False
  have "unat w = weight N PRE t p - weight N POST t p"
    using assms(2,3) weight_in_mem [OF _ m] by (simp add: deltas_ok_def)
  moreover have "p < Card N PL"
  proof -
    have "0 < weight N PRE t p" using calculation False by (simp add: unat_eq_0 [symmetric])
    then show ?thesis using wf_net_Arc_less [OF assms(1,3) weight_pos_Arc] by simp
  qed
  ultimately show ?thesis
    using e assms(4) by (auto simp: enabled_at_def marking_of_def count_ok_def dest: spec [where x = p])
qed simp

lemma backtrack_restores:
  assumes "wf_net N" "deltas_ok N T" "conflicts_ok N T" "t < Card N TR"
    and ok: "enabled_ok N ns" and "Enabled ns ! t" "fits N ns t"
    and h: "0 \<le> HashCurrent ns" "HashCurrent ns < SIZEOF_MARKINGTABLE"
  shows "revertEnabled N T t (backfire T t (updateEnabled N T t (fire T t ns))) = ns"
proof -
  let ?u = "updateEnabled N T t (fire T t ns)"
  let ?b = "backfire T t ?u"
  have c: "count_ok N ns" using ok by (simp add: enabled_ok_def)
  have e: "enabled_at N (marking_of (Current ns)) t" using assms enabled_ok_iff by blast
  have F: "fired N t (Current ns) (Current (fire T t ns))"
    by (rule fire_fired [OF assms(2,1,4) c e assms(7)])
  have u: "enabled_ok N ?u"
    by (rule updateEnabled_enabled_ok [OF assms(3,1,4) ok F]) (use c in \<open>simp_all add: frame_simps count_ok_def\<close>)
  have same: "Current ?u = Current (fire T t ns)" "HashCurrent ?u = HashCurrent (fire T t ns)"
    by (simp_all add: updateEnabled_def frame_simps)
  have "Current ?b = Current (backfire T t (fire T t ns))"
    "HashCurrent ?b = HashCurrent (backfire T t (fire T t ns))"
    by (simp_all add: backfire_def same)
  then have b: "Current ?b = Current ns" "HashCurrent ?b = HashCurrent ns"
    by (simp_all add: backfire_fire_aux [OF h])
  have "fired N t (Current ?b) (Current ?u)" using F same b by simp
  then have r: "enabled_ok N (revertEnabled N T t ?b)"
    by (rule revertEnabled_enabled_ok [OF assms(3,1,4) u]) (use b c in \<open>simp_all add: frame_simps count_ok_def\<close>)
  have cur: "Current (revertEnabled N T t ?b) = Current ns" "HashCurrent (revertEnabled N T t ?b) = HashCurrent ns"
    using b by (simp_all add: revertEnabled_def frame_simps)
  show ?thesis using enabled_ok_unique [OF r ok cur(1)] cur by (intro netstate.equality) simp_all
qed

lemma checkEnabled_fold_flags:
  "count_ok N ns \<Longrightarrow> \<forall>t \<in> set tts. t < Card N TR \<Longrightarrow>
   count_ok N (fold (checkEnabled N) tts ns) \<and> Current (fold (checkEnabled N) tts ns) = Current ns \<and>
   (\<forall>t. t \<in> set tts \<or> flag_ok N ns t \<longrightarrow> flag_ok N (fold (checkEnabled N) tts ns) t)"
  by (induction tts arbitrary: ns)
     (auto simp: checkEnabled_count_ok checkEnabled_flag_ok checkEnabled_Current)

lemma initial_enabled_Hash [frame_simps]: "HashCurrent (initial_enabled N ns) = HashCurrent ns"
proof -
  have "HashCurrent (fold (checkEnabled N) tts ns) = HashCurrent ns" for tts ns
    by (induction tts arbitrary: ns) (auto simp: frame_simps)
  then show ?thesis by (simp add: initial_enabled_def)
qed

lemma initial_enabled_exact:
  assumes "length (Current ns) = Card N PL"
  shows "enabled_ok N (initial_enabled N ns) \<and> Current (initial_enabled N ns) = Current ns"
proof -
  let ?ns = "ns\<lparr>Enabled := replicate (Card N TR) True, CardEnabled := Card N TR\<rparr>"
  have "count_ok N ?ns" using assms by (simp add: count_ok_def)
  then show ?thesis
    using checkEnabled_fold_flags [of N ?ns "[0..<Card N TR]"]
    by (auto simp: enabled_ok_def initial_enabled_def)
qed

end
