(* ===== verification/SampleNet.thy ===== *)
theory SampleNet
  imports Firing
begin

text \<open>
  A concrete net on which the witnesses of the development evaluate: two places and two
  transitions in a ring, \<open>t0\<close> moves the token from \<open>p0\<close> to \<open>p1\<close> and \<open>t1\<close> moves it back.
\<close>

fun ring_arcs :: "node_t \<Rightarrow> direction_t \<Rightarrow> (arrayindex_t \<times> mult_t) list list" where
  "ring_arcs PL PRE = [[(1, 1)], [(0, 1)]]"
| "ring_arcs PL POST = [[(0, 1)], [(1, 1)]]"
| "ring_arcs TR PRE = [[(0, 1)], [(1, 1)]]"
| "ring_arcs TR POST = [[(1, 1)], [(0, 1)]]"

definition ring_net :: net where
  "ring_net = \<lparr>Card = (\<lambda>_. 2), Arcs = ring_arcs\<rparr>"

fun ring_deltas :: "direction_t \<Rightarrow> (arrayindex_t \<times> mult_t) list list" where
  "ring_deltas PRE = [[(0, 1)], [(1, 1)]]"
| "ring_deltas POST = [[(1, 1)], [(0, 1)]]"

definition ring_trans :: transition_data where
  "ring_trans = \<lparr>DeltaHash = [5, - 5], DeltaT = ring_deltas,
     Conflicting = [[0], [1]], BackConflicting = [[1], [0]]\<rparr>"

definition ring_state :: netstate where
  "ring_state = \<lparr>Current = [1, 0], HashCurrent = 1, Enabled = [True, False], CardEnabled = 1\<rparr>"

lemma less_two: "(n::nat) < 2 \<longleftrightarrow> n = 0 \<or> n = 1"
  by auto

lemma ring_Card [simp]: "Card ring_net ty = 2"
  by (simp add: ring_net_def)

lemma ring_Arcs [simp]: "Arcs ring_net = ring_arcs"
  by (simp add: ring_net_def)

lemma ring_wf: "wf_net ring_net"
proof -
  have "length (ring_arcs ty d) = 2" for ty d by (cases ty; cases d) auto
  moreover have "distinct (Arc ring_net ty d n)" if "n < 2" for ty d n
    using that by (cases ty; cases d) (auto simp: Arc_def less_two)
  moreover have "m < 2 \<and> w \<noteq> 0 \<and> (n, w) \<in> set (ring_arcs (other_node ty) (other_direction d) ! m)"
    if "n < 2" "(m, w) \<in> set (ring_arcs ty d ! n)" for ty d n m w
    using that by (cases ty; cases d) (auto simp: less_two)
  ultimately show ?thesis by (auto simp: wf_net_def)
qed

lemma ring_weight: "n < 2 \<Longrightarrow> weight ring_net PRE n p = (if p = n then 1 else 0)"
  "n < 2 \<Longrightarrow> weight ring_net POST n p = (if p = 1 - n then 1 else 0)"
  by (auto simp: weight_def less_two)

lemma ring_deltas_ok: "deltas_ok ring_net ring_trans"
proof -
  have "distinct (map fst (ring_deltas d ! t)) \<and> weight_in (ring_deltas d ! t) p =
      weight ring_net d t p - weight ring_net (other_direction d) t p" if "t < 2" for t d p
    using that by (cases d) (auto simp: less_two ring_weight)
  then show ?thesis by (auto simp: deltas_ok_def ring_trans_def)
qed

lemma ring_conflicts_ok: "conflicts_ok ring_net ring_trans"
  by (auto simp: conflicts_ok_def ring_trans_def Arc_def less_two)

lemma ring_enabled_ok: "enabled_ok ring_net ring_state"
  by (auto simp: enabled_ok_def count_ok_def flag_ok_def ring_state_def less_two count_true_def)

lemma ring_fits: "fits ring_net ring_state 0"
  by (auto simp: fits_def ring_state_def less_two ring_weight)

end
