(* ===== verification/FiringProps.thy ===== *)
theory FiringProps
  imports SampleNet
begin

text \<open>
  The properties of \<open>src/Net/Transition.cc\<close>: the token game, exactness of the enabledness flags
  after firing, after backtracking and after the initial scan, and exact undo.
\<close>

text \<open>C16: firing an enabled transition performs exactly one step of the token game on the marking
  (read as natural numbers), and no assertion of \<open>Transition::fire\<close> on the token counts fails.\<close>

theorem fire_refines_token_game:
  assumes "wf_net N" "deltas_ok N T" "t < Card N TR" "enabled_ok N ns" "Enabled ns ! t" "fits N ns t"
  shows "net_step N (marking_of (Current ns)) (marking_of (Current (fire T t ns))) \<and>
    marking_of (Current (fire T t ns)) = fire_at N t (marking_of (Current ns)) \<and>
    (\<forall>(p, w) \<in> set (DeltaT T PRE ! t). ucast w \<le> Current ns ! p)"
proof -
  have e: "enabled_at N (marking_of (Current ns)) t" using assms enabled_ok_iff by blast
  have c: "count_ok N ns" using assms(4) by (simp add: enabled_ok_def)
  have m: "marking_of (Current (fire T t ns)) = fire_at N t (marking_of (Current ns))"
    using marking_of_fire [OF assms(2,3) c e assms(6,1)] .
  have "unat w \<le> unat (Current ns ! p)" if "(p, w) \<in> set (DeltaT T PRE ! t)" for p w
    using delta_pre_covered [OF assms(1-3) c e that] .
  then show ?thesis using m net_step.intros [OF assms(3) e] by (auto simp: word_le_nat_alt)
qed

theorem fire_refines_token_game_witness:
  "net_step ring_net (marking_of (Current ring_state)) (marking_of (Current (fire ring_trans 0 ring_state)))"
  by (rule fire_refines_token_game [OF ring_wf ring_deltas_ok _ ring_enabled_ok _ ring_fits, THEN conjunct1])
     (simp_all add: ring_state_def)

text \<open>C17: after \<open>Transition::fire\<close> and \<open>Transition::updateEnabled\<close>, which looks at the conflicting
  transitions only, every enabledness flag and the counter \<open>CardEnabled\<close> are exact again.\<close>

theorem fire_updateEnabled_exact:
  assumes "wf_net N" "deltas_ok N T" "conflicts_ok N T" "t < Card N TR"
    and "enabled_ok N ns" "Enabled ns ! t" "fits N ns t"
  shows "enabled_ok N (updateEnabled N T t (fire T t ns))"
proof (rule updateEnabled_enabled_ok [OF assms(3,1,4,5)])
  have c: "count_ok N ns" using assms(5) by (simp add: enabled_ok_def)
  have e: "enabled_at N (marking_of (Current ns)) t" using assms enabled_ok_iff by blast
  show "fired N t (Current ns) (Current (fire T t ns))"
    by (rule fire_fired [OF assms(2,1,4) c e assms(7)])
  show "length (Current (fire T t ns)) = Card N PL" using c by (simp add: frame_simps count_ok_def)
qed (simp_all add: frame_simps)

theorem fire_updateEnabled_exact_witness:
  "enabled_ok ring_net (updateEnabled ring_net ring_trans 0 (fire ring_trans 0 ring_state))"
  by (rule fire_updateEnabled_exact [OF ring_wf ring_deltas_ok ring_conflicts_ok _ ring_enabled_ok _ ring_fits])
     (simp_all add: ring_state_def)

text \<open>C18: backtracking over one transition (\<open>backfire\<close> then \<open>revertEnabled\<close>) restores the whole
  state object: marking, hash value, enabledness flags and counter.\<close>

theorem backtrack_restores_state:
  assumes "wf_net N" "deltas_ok N T" "conflicts_ok N T" "t < Card N TR"
    and "enabled_ok N ns" "Enabled ns ! t" "fits N ns t"
    and "0 \<le> HashCurrent ns" "HashCurrent ns < SIZEOF_MARKINGTABLE"
  shows "revertEnabled N T t (backfire T t (updateEnabled N T t (fire T t ns))) = ns"
  using backtrack_restores [OF assms] .

theorem backtrack_restores_state_witness:
  "revertEnabled ring_net ring_trans 0 (backfire ring_trans 0
     (updateEnabled ring_net ring_trans 0 (fire ring_trans 0 ring_state))) = ring_state"
  by (rule backtrack_restores_state [OF ring_wf ring_deltas_ok ring_conflicts_ok _ ring_enabled_ok _ ring_fits])
     (simp_all add: ring_state_def SIZEOF_MARKINGTABLE_def)

text \<open>\<open>backfire\<close> undoes \<open>fire\<close> on the marking and the hash value for every transition and every
  token vector, wrap-around of the 32 bit token counts and repeated places in the delta lists
  included, as long as the hash value was normalised.\<close>

theorem backfire_undoes_fire:
  assumes "0 \<le> HashCurrent ns" "HashCurrent ns < SIZEOF_MARKINGTABLE"
  shows "backfire T t (fire T t ns) = ns"
  by (rule backfire_fire_aux [OF assms])

theorem backfire_undoes_fire_witness:
  "backfire ring_trans 1 (fire ring_trans 1 ring_state) = ring_state"
  by (rule backfire_undoes_fire) (simp_all add: ring_state_def SIZEOF_MARKINGTABLE_def)

text \<open>The initial enabledness scan of \<open>Net::preprocess\<close> makes all flags and the counter exact,
  whatever they were before.\<close>

theorem initial_scan_exact:
  assumes "length (Current ns) = Card N PL"
  shows "enabled_ok N (initial_enabled N ns) \<and> Current (initial_enabled N ns) = Current ns"
  using initial_enabled_exact [OF assms] .

theorem initial_scan_exact_witness: "enabled_ok ring_net (initial_enabled ring_net ring_state)"
  using initial_scan_exact [of ring_state ring_net] by (simp add: ring_state_def)

end
