(* ===== verification/ArcSort.thy ===== *)
theory ArcSort
  imports PetriNet
begin

text \<open>
  The in-place three-way quicksorts of \<open>src/Net/Net.cc\<close>.  Eight functions of that file
  (\<open>sortArcs\<close>, \<open>clusterSortArcs\<close>, \<open>backClusterSortArcs\<close>, \<open>clusterSortTransitions\<close>,
  \<open>unionfindsort\<close>, \<open>clustersort\<close>, \<open>backclustersort\<close>, \<open>sortlength\<close>) repeat one loop with a blue,
  a white and a red index, and differ only in how they classify an element against the pivot.
  The loop is one function here, the classification its argument; the contract of a classification
  is the locale \<open>three_way\<close>, in which the sorting theorem is proved once.
\<close>

datatype cmp_t = CMP_LT | CMP_EQ | CMP_GT

section \<open>The partition loop and the recursive sort\<close>

text \<open>
  \<open>blue\<close> points to the first element not known to be smaller than the pivot, \<open>white\<close> to the first
  unclassified one, \<open>red\<close> behind the last unclassified one.
\<close>

function partition3 :: "('a \<Rightarrow> cmp_t) \<Rightarrow> 'a list \<Rightarrow> nat \<Rightarrow> nat \<Rightarrow> nat \<Rightarrow> 'a list \<times> nat \<times> nat" where
  "partition3 cls xs blue white red =
     (if white < red then
        (case cls (xs ! white) of
           CMP_LT \<Rightarrow> partition3 cls (swap_at xs blue white) (blue + 1) (white + 1) red
         | CMP_EQ \<Rightarrow> partition3 cls xs blue (white + 1) red
         | CMP_GT \<Rightarrow> partition3 cls (swap_at xs white (red - 1)) blue white (red - 1))
      else (xs, blue, red))"
  by pat_completeness auto
termination
  by (relation "measure (\<lambda>(cls, xs, blue, white, red). red - white)") auto

declare partition3.simps [simp del]

lemma partition3_done: "\<not> white < red \<Longrightarrow> partition3 cls xs blue white red = (xs, blue, red)"
  by (simp add: partition3.simps)

lemma partition3_LT:
  "white < red \<Longrightarrow> cls (xs ! white) = CMP_LT \<Longrightarrow>
   partition3 cls xs blue white red = partition3 cls (swap_at xs blue white) (blue + 1) (white + 1) red"
  by (subst partition3.simps) simp

lemma partition3_EQ:
  "white < red \<Longrightarrow> cls (xs ! white) = CMP_EQ \<Longrightarrow>
   partition3 cls xs blue white red = partition3 cls xs blue (white + 1) red"
  by (subst partition3.simps) simp

lemma partition3_GT:
  "white < red \<Longrightarrow> cls (xs ! white) = CMP_GT \<Longrightarrow>
   partition3 cls xs blue white red = partition3 cls (swap_at xs white (red - 1)) blue white (red - 1)"
  by (subst partition3.simps) simp

lemmas partition3_steps = partition3_done partition3_LT partition3_EQ partition3_GT

lemma partition3_indices:
  "partition3 cls xs blue white red = (xs', b, r) \<Longrightarrow> blue < white \<Longrightarrow> white \<le> red \<Longrightarrow>
   blue \<le> b \<and> b < r \<and> white \<le> r \<and> r \<le> red"
proof (induction cls xs blue white red rule: partition3.induct)
  case (1 cls xs blue white red)
  show ?case
  proof (cases "white < red")
    case True
    note step = 1(1-3) [OF True] and pre = "1.prems"
    show ?thesis
    proof (cases "cls (xs ! white)")
      case CMP_LT
      then show ?thesis using step(1) pre True by (simp add: partition3_LT)
    next
      case CMP_EQ
      then show ?thesis using step(2) pre True by (simp add: partition3_EQ)
    next
      case CMP_GT
      then have "blue \<le> b \<and> b < r \<and> white \<le> r \<and> r \<le> red - 1"
        using step(3) pre True by (simp add: partition3_GT)
      then show ?thesis by auto
    qed
  next
    case False
    then show ?thesis using 1 by (simp add: partition3_done)
  qed
qed

function qsort3 :: "('a \<Rightarrow> 'a \<Rightarrow> cmp_t) \<Rightarrow> 'a list \<Rightarrow> nat \<Rightarrow> nat \<Rightarrow> 'a list" where
  "qsort3 cmp xs fr to =
     (if to - fr < 2 then xs
      else (case partition3 (\<lambda>x. cmp x (xs ! fr)) xs fr (fr + 1) to of
              (xs', blue, red) \<Rightarrow> qsort3 cmp (qsort3 cmp xs' fr blue) red to))"
  by pat_completeness auto
termination
  by (relation "measure (\<lambda>(cmp, xs, fr, to). to - fr)")
     (auto dest!: partition3_indices [OF sym] partition3_indices)

declare qsort3.simps [simp del]

section \<open>Permutation inside a section of the array\<close>

definition same_outside :: "nat \<Rightarrow> nat \<Rightarrow> 'a list \<Rightarrow> 'a list \<Rightarrow> bool" where
  "same_outside fr to xs ys \<longleftrightarrow>
     length ys = length xs \<and> mset ys = mset xs \<and>
     (\<forall>k < length xs. k < fr \<or> to \<le> k \<longrightarrow> ys ! k = xs ! k)"

lemma same_outside_refl [simp]: "same_outside fr to xs xs"
  by (simp add: same_outside_def)

lemma same_outside_trans:
  "same_outside fr to xs ys \<Longrightarrow> same_outside fr to ys zs \<Longrightarrow> same_outside fr to xs zs"
  by (simp add: same_outside_def)

lemma same_outside_mono:
  "same_outside fr' to' xs ys \<Longrightarrow> fr \<le> fr' \<Longrightarrow> to' \<le> to \<Longrightarrow> same_outside fr to xs ys"
  by (auto simp: same_outside_def)

lemma same_outside_swap:
  "fr \<le> i \<Longrightarrow> i < to \<Longrightarrow> fr \<le> j \<Longrightarrow> j < to \<Longrightarrow> to \<le> length xs \<Longrightarrow> same_outside fr to xs (swap_at xs i j)"
  by (auto simp: same_outside_def nth_swap_at)

lemma set_section:
  assumes "same_outside fr to xs ys" "to \<le> length xs" "fr \<le> to"
  shows "(\<lambda>k. ys ! k) ` {fr..<to} = (\<lambda>k. xs ! k) ` {fr..<to}"
proof -
  have split: "mset zs = mset (take fr zs) + mset (take (to - fr) (drop fr zs)) + mset (drop to zs)"
    if "length zs = length xs" for zs :: "'a list"
  proof -
    have "zs = take fr zs @ take (to - fr) (drop fr zs) @ drop to zs"
      using assms(3) by (metis append_take_drop_id drop_drop le_add_diff_inverse2 add.commute)
    then show ?thesis by (metis mset_append add.assoc)
  qed
  have l: "length ys = length xs" using assms(1) by (simp add: same_outside_def)
  have "take fr ys = take fr xs" "drop to ys = drop to xs"
    using assms by (auto simp: same_outside_def intro!: nth_equalityI)
  then have "mset (take (to - fr) (drop fr ys)) = mset (take (to - fr) (drop fr xs))"
    using split [OF refl] split [OF l] assms(1) by (simp add: same_outside_def)
  then have "set (take (to - fr) (drop fr ys)) = set (take (to - fr) (drop fr xs))"
    by (rule mset_eq_setD)
  moreover have "set (take (to - fr) (drop fr zs)) = (\<lambda>k. zs ! k) ` {fr..<to}"
    if "length zs = length xs" for zs :: "'a list"
  proof -
    have "set (take (to - fr) (drop fr zs)) = (\<lambda>k. take (to - fr) (drop fr zs) ! k) ` {..<to - fr}"
      using that assms by (force simp: set_conv_nth)
    also have "\<dots> = (\<lambda>k. zs ! (fr + k)) ` {..<to - fr}" using that assms by auto
    also have "\<dots> = (\<lambda>k. zs ! k) ` {fr..<to}"
    proof -
      have "{fr..<to} = (+) fr ` {..<to - fr}"
        using assms(3) by (simp add: lessThan_atLeast0 image_add_atLeastLessThan)
      then show ?thesis by (simp add: image_image)
    qed
    finally show ?thesis .
  qed
  ultimately show ?thesis using l by simp
qed

lemma section_all:
  assumes "same_outside fr to xs ys" "to \<le> length xs" "fr \<le> to" "\<forall>k \<in> {fr..<to}. P (xs ! k)"
  shows "\<forall>k \<in> {fr..<to}. P (ys ! k)"
proof -
  have "\<forall>x \<in> (\<lambda>k. xs ! k) ` {fr..<to}. P x" using assms(4) by auto
  then have "\<forall>x \<in> (\<lambda>k. ys ! k) ` {fr..<to}. P x" by (simp only: set_section [OF assms(1-3)])
  then show ?thesis by auto
qed

section \<open>Correctness of the sort for every classification that respects an order\<close>

locale three_way =
  fixes cmp :: "'a \<Rightarrow> 'a \<Rightarrow> cmp_t" and le :: "'a \<Rightarrow> 'a \<Rightarrow> bool"
  assumes le_refl: "le x x"
    and le_trans: "le x y \<Longrightarrow> le y z \<Longrightarrow> le x z"
    and cmp_lt: "cmp x p = CMP_LT \<Longrightarrow> le x p"
    and cmp_eq: "cmp x p = CMP_EQ \<Longrightarrow> le x p \<and> le p x"
    and cmp_gt: "cmp x p = CMP_GT \<Longrightarrow> le p x"
begin

text \<open>The three colours of the array during the partition.\<close>

definition coloured :: "'a \<Rightarrow> 'a list \<Rightarrow> nat \<Rightarrow> nat \<Rightarrow> nat \<Rightarrow> nat \<Rightarrow> nat \<Rightarrow> bool" where
  "coloured p xs fr blue white red to \<longleftrightarrow>
     (\<forall>k \<in> {fr..<blue}. le (xs ! k) p) \<and>
     (\<forall>k \<in> {blue..<white}. le (xs ! k) p \<and> le p (xs ! k)) \<and>
     (\<forall>k \<in> {red..<to}. le p (xs ! k))"

lemma coloured_lt:
  assumes "coloured p xs fr blue white red to" "cmp (xs ! white) p = CMP_LT"
    and "fr \<le> blue" "blue < white" "white < red" "red \<le> to" "to \<le> length xs"
  shows "coloured p (swap_at xs blue white) fr (blue + 1) (white + 1) red to"
  using assms cmp_lt [OF assms(2)] unfolding coloured_def
  by (auto simp: nth_swap_at less_Suc_eq)

lemma coloured_eq:
  assumes "coloured p xs fr blue white red to" "cmp (xs ! white) p = CMP_EQ"
  shows "coloured p xs fr blue (white + 1) red to"
  using assms cmp_eq [OF assms(2)] unfolding coloured_def by (auto simp: less_Suc_eq)

lemma coloured_gt:
  assumes "coloured p xs fr blue white red to" "cmp (xs ! white) p = CMP_GT"
    and "fr \<le> blue" "blue < white" "white < red" "red \<le> to" "to \<le> length xs"
  shows "coloured p (swap_at xs white (red - 1)) fr blue white (red - 1) to"
proof -
  have "le p (swap_at xs white (red - 1) ! k)" if "k \<in> {red - 1..<to}" for k
    using that assms cmp_gt [OF assms(2)] unfolding coloured_def
    by (cases "k = red - 1") (auto simp: nth_swap_at)
  then show ?thesis
    using assms unfolding coloured_def by (auto simp: nth_swap_at)
qed

lemma partition3_correct:
  "partition3 (\<lambda>x. cmp x p) xs blue white red = (xs', b, r) \<Longrightarrow>
   coloured p xs fr blue white red to \<Longrightarrow>
   fr \<le> blue \<Longrightarrow> blue < white \<Longrightarrow> white \<le> red \<Longrightarrow> red \<le> to \<Longrightarrow> to \<le> length xs \<Longrightarrow>
   coloured p xs' fr b r r to \<and> same_outside fr to xs xs'"
proof (induction "\<lambda>x. cmp x p" xs blue white red rule: partition3.induct)
  case (1 xs blue white red)
  show ?case
  proof (cases "white < red")
    case False
    then show ?thesis using 1 by (simp add: partition3_steps)
  next
    case True
    show ?thesis
    proof (cases "cmp (xs ! white) p")
      case CMP_LT
      have s: "same_outside fr to xs (swap_at xs blue white)"
        using "1.prems" True by (intro same_outside_swap) auto
      have c: "coloured p (swap_at xs blue white) fr (blue + 1) (white + 1) red to"
        using "1.prems" True CMP_LT by (intro coloured_lt) auto
      have "coloured p xs' fr b r r to \<and> same_outside fr to (swap_at xs blue white) xs'"
        using "1.hyps"(1) [OF True CMP_LT _ c] "1.prems" True CMP_LT by (simp add: partition3_steps)
      then show ?thesis using s same_outside_trans by blast
    next
      case CMP_EQ
      then show ?thesis
        using "1.hyps"(2) [OF True CMP_EQ _ coloured_eq] "1.prems" True by (simp add: partition3_steps)
    next
      case CMP_GT
      have s: "same_outside fr to xs (swap_at xs white (red - 1))"
        using "1.prems" True by (intro same_outside_swap) auto
      have c: "coloured p (swap_at xs white (red - 1)) fr blue white (red - 1) to"
        using "1.prems" True CMP_GT by (intro coloured_gt) auto
      have "coloured p xs' fr b r r to \<and> same_outside fr to (swap_at xs white (red - 1)) xs'"
        using "1.hyps"(3) [OF True CMP_GT _ c] "1.prems" True CMP_GT by (simp add: partition3_steps)
      then show ?thesis using s same_outside_trans by blast
    qed
  qed
qed

definition sorted_section :: "nat \<Rightarrow> nat \<Rightarrow> 'a list \<Rightarrow> bool" where
  "sorted_section fr to xs \<longleftrightarrow> (\<forall>i j. fr \<le> i \<longrightarrow> i < j \<longrightarrow> j < to \<longrightarrow> le (xs ! i) (xs ! j))"

text \<open>Gluing two sorted sections and the pivot section between them.\<close>

lemma sorted_section_glue:
  assumes lt: "sorted_section fr b xs" and gt: "sorted_section r to xs"
    and c: "coloured p xs fr b r r to"
  shows "sorted_section fr to xs"
  unfolding sorted_section_def
proof (intro allI impI)
  fix i j
  assume ij: "fr \<le> i" "i < j" "j < to"
  have lo: "le (xs ! i) p" if "i < r" using c that ij by (auto simp: coloured_def not_less)
  have hi: "le p (xs ! j)" if "b \<le> j" using c that ij by (cases "j < r") (auto simp: coloured_def)
  show "le (xs ! i) (xs ! j)"
  proof (cases "i < r \<and> b \<le> j")
    case True
    then show ?thesis using lo hi le_trans by blast
  next
    case False
    then have "j < b \<or> r \<le> i" using ij by auto
    then show ?thesis using lt gt ij by (auto simp: sorted_section_def)
  qed
qed

lemma qsort3_correct:
  "to \<le> length xs \<Longrightarrow> same_outside fr to xs (qsort3 cmp xs fr to) \<and> sorted_section fr to (qsort3 cmp xs fr to)"
proof (induction "to - fr" arbitrary: xs fr to rule: less_induct)
  case less
  show ?case
  proof (cases "to - fr < 2")
    case True
    then show ?thesis by (auto simp: qsort3.simps [of cmp xs fr to] sorted_section_def)
  next
    case False
    let ?p = "xs ! fr"
    obtain xs' b r where part: "partition3 (\<lambda>x. cmp x ?p) xs fr (fr + 1) to = (xs', b, r)"
      by (metis prod_cases3)
    have idx: "fr \<le> b" "b < r" "fr + 1 \<le> r" "r \<le> to"
      using partition3_indices [OF part] False by auto
    have "coloured ?p xs fr fr (fr + 1) to to" by (auto simp: coloured_def le_refl less_Suc_eq)
    then have c: "coloured ?p xs' fr b r r to" and s: "same_outside fr to xs xs'"
      using partition3_correct [OF part] False less.prems by auto
    let ?ys = "qsort3 cmp xs' fr b"
    let ?zs = "qsort3 cmp ?ys r to"
    have lx: "length xs' = length xs" using s by (simp add: same_outside_def)
    have y: "same_outside fr b xs' ?ys" "sorted_section fr b ?ys"
      using less.hyps [of b fr xs'] idx less.prems lx by auto
    have ly: "length ?ys = length xs" using y(1) lx by (simp add: same_outside_def)
    have z: "same_outside r to ?ys ?zs" "sorted_section r to ?zs"
      using less.hyps [of to r ?ys] idx less.prems ly by auto
    have keep: "?zs ! k = ?ys ! k" if "k < r" for k
      using z(1) that idx less.prems ly by (simp add: same_outside_def)
    have keep': "?ys ! k = xs' ! k" if "b \<le> k" "k < to" for k
      using y(1) that less.prems lx by (simp add: same_outside_def)
    have "\<forall>k \<in> {fr..<b}. le (?ys ! k) ?p"
      using section_all [OF y(1), of "\<lambda>x. le x ?p"] c idx less.prems lx by (auto simp: coloured_def)
    moreover have "\<forall>k \<in> {r..<to}. le ?p (?zs ! k)"
      using section_all [OF z(1), of "\<lambda>x. le ?p x"] c idx less.prems ly keep' by (auto simp: coloured_def)
    ultimately have cz: "coloured ?p ?zs fr b r r to"
      using c idx keep keep' by (auto simp: coloured_def)
    have "sorted_section fr b ?zs" using y(2) keep idx by (auto simp: sorted_section_def)
    then have "sorted_section fr to ?zs" using z(2) cz by (rule sorted_section_glue)
    moreover have "same_outside fr to xs ?zs"
    proof -
      have "same_outside fr to xs' ?ys" using y(1) by (rule same_outside_mono) (use idx in auto)
      moreover have "same_outside fr to ?ys ?zs" using z(1) by (rule same_outside_mono) (use idx in auto)
      ultimately show ?thesis using s same_outside_trans by blast
    qed
    moreover have "qsort3 cmp xs fr to = ?zs"
      using False part by (simp add: qsort3.simps [of cmp xs fr to])
    ultimately show ?thesis by simp
  qed
qed

end

section \<open>The sort functions of Net.cc\<close>

text \<open>
  \<open>sortArcs\<close> and \<open>clusterSortArcs\<close> have no branch for equal keys: what is not smaller goes to
  the right (an assertion says that keys are distinct).
\<close>

definition arc_cmp :: "arrayindex_t \<times> mult_t \<Rightarrow> arrayindex_t \<times> mult_t \<Rightarrow> cmp_t" where
  "arc_cmp x pivot = (if fst x < fst pivot then CMP_LT else CMP_GT)"

definition sortArcs :: "(arrayindex_t \<times> mult_t) list \<Rightarrow> nat \<Rightarrow> nat \<Rightarrow> (arrayindex_t \<times> mult_t) list" where
  "sortArcs arcs fr to = qsort3 arc_cmp arcs fr to"

definition sortAllArcs :: "net \<Rightarrow> net" where
  "sortAllArcs N = N\<lparr>Arcs := (\<lambda>ty d.
     map (\<lambda>n. sortArcs (Arcs N ty d ! n) 0 (CardArcs N ty d n)) [0..<Card N ty])\<rparr>"

definition cluster_cmp :: "net \<Rightarrow> arrayindex_t \<times> mult_t \<Rightarrow> arrayindex_t \<times> mult_t \<Rightarrow> cmp_t" where
  "cluster_cmp N x pivot =
     (let xcard = CardArcs N PL POST (fst x); pivotcard = CardArcs N PL POST (fst pivot) in
      if xcard > pivotcard \<or> (xcard = pivotcard \<and> fst x < fst pivot) then CMP_LT else CMP_GT)"

definition clusterSortArcs ::
  "net \<Rightarrow> (arrayindex_t \<times> mult_t) list \<Rightarrow> nat \<Rightarrow> nat \<Rightarrow> (arrayindex_t \<times> mult_t) list" where
  "clusterSortArcs N arcs fr to = qsort3 (cluster_cmp N) arcs fr to"

definition back_cluster_cmp :: "net \<Rightarrow> arrayindex_t \<times> mult_t \<Rightarrow> arrayindex_t \<times> mult_t \<Rightarrow> cmp_t" where
  "back_cluster_cmp N x pivot =
     (let xcard = CardArcs N PL PRE (fst x); pivotcard = CardArcs N PL PRE (fst pivot) in
      if xcard > pivotcard \<or> (xcard = pivotcard \<and> fst x < fst pivot) then CMP_LT else CMP_GT)"

text \<open>The recursive calls of \<open>backClusterSortArcs\<close> go to \<open>clusterSortArcs\<close>, as in the source.\<close>

definition backClusterSortArcs ::
  "net \<Rightarrow> (arrayindex_t \<times> mult_t) list \<Rightarrow> nat \<Rightarrow> nat \<Rightarrow> (arrayindex_t \<times> mult_t) list" where
  "backClusterSortArcs N arcs fr to =
     (if to - fr < 2 then arcs
      else (case partition3 (\<lambda>x. back_cluster_cmp N x (arcs ! fr)) arcs fr (fr + 1) to of
              (arcs', blue, red) \<Rightarrow> clusterSortArcs N (clusterSortArcs N arcs' fr blue) red to))"

text \<open>
  \<open>getInDegree\<close> adds up the indices of the pre places in 32 bit arithmetic; the caller compares the
  results as unsigned numbers.
\<close>

definition getInDegree :: "net \<Rightarrow> arrayindex_t \<Rightarrow> 32 word" where
  "getInDegree N t = fold (\<lambda>i r. r + of_nat (Arc N TR PRE t ! i)) [0..<CardArcs N TR PRE t] 0"

definition key_cmp :: "('a \<Rightarrow> 'k::linorder) \<Rightarrow> 'a \<Rightarrow> 'a \<Rightarrow> cmp_t" where
  "key_cmp key x pivot =
     (if key x < key pivot then CMP_LT else if key x = key pivot then CMP_EQ else CMP_GT)"

definition key_cmp_desc :: "('a \<Rightarrow> 'k::linorder) \<Rightarrow> 'a \<Rightarrow> 'a \<Rightarrow> cmp_t" where
  "key_cmp_desc key x pivot =
     (if key x > key pivot then CMP_LT else if key x = key pivot then CMP_EQ else CMP_GT)"

definition clusterSortTransitions :: "net \<Rightarrow> arrayindex_t list \<Rightarrow> nat \<Rightarrow> nat \<Rightarrow> arrayindex_t list" where
  "clusterSortTransitions N a fr to = qsort3 (key_cmp (getInDegree N)) a fr to"

definition unionfindsort :: "(arrayindex_t \<times> int) list \<Rightarrow> nat \<Rightarrow> (arrayindex_t \<times> int) list" where
  "unionfindsort cluf n = qsort3 (key_cmp_desc snd) cluf 0 n"

definition clustersort :: "net \<Rightarrow> arrayindex_t list \<Rightarrow> nat \<Rightarrow> nat \<Rightarrow> nat \<Rightarrow> arrayindex_t list" where
  "clustersort N cl fr to p = qsort3 (key_cmp (\<lambda>t. Arc N TR PRE t ! p)) cl fr to"

definition backclustersort :: "net \<Rightarrow> arrayindex_t list \<Rightarrow> nat \<Rightarrow> nat \<Rightarrow> nat \<Rightarrow> arrayindex_t list" where
  "backclustersort N cl fr to p = qsort3 (key_cmp (\<lambda>t. Arc N TR POST t ! p)) cl fr to"

definition sortlength :: "(arrayindex_t \<Rightarrow> nat) \<Rightarrow> arrayindex_t list \<Rightarrow> nat \<Rightarrow> arrayindex_t list" where
  "sortlength CardConflicting a n = qsort3 (key_cmp_desc CardConflicting) a 0 n"

section \<open>Each classification respects an order\<close>

interpretation arcs_by_id: three_way arc_cmp "\<lambda>x y. fst x \<le> fst y"
  by unfold_locales (auto simp: arc_cmp_def split: if_splits)

definition cluster_le :: "(arrayindex_t \<Rightarrow> nat) \<Rightarrow> arrayindex_t \<times> mult_t \<Rightarrow> arrayindex_t \<times> mult_t \<Rightarrow> bool" where
  "cluster_le crd x y \<longleftrightarrow> crd (fst y) < crd (fst x) \<or> (crd (fst x) = crd (fst y) \<and> fst x \<le> fst y)"

interpretation arcs_by_cluster: three_way "cluster_cmp N" "cluster_le (CardArcs N PL POST)" for N
  by unfold_locales (auto simp: cluster_cmp_def cluster_le_def Let_def split: if_splits)

interpretation by_key: three_way "key_cmp key" "\<lambda>x y. key x \<le> key y" for key :: "'a \<Rightarrow> 'k::linorder"
  by unfold_locales (auto simp: key_cmp_def split: if_splits)

interpretation by_key_desc: three_way "key_cmp_desc key" "\<lambda>x y. key y \<le> key x" for key :: "'a \<Rightarrow> 'k::linorder"
  by unfold_locales (auto simp: key_cmp_desc_def split: if_splits)

section \<open>Sorting arc lists keeps the net\<close>

lemma sortArcs_section:
  "to \<le> length as \<Longrightarrow> same_outside fr to as (sortArcs as fr to) \<and>
   arcs_by_id.sorted_section fr to (sortArcs as fr to)"
  unfolding sortArcs_def by (rule arcs_by_id.qsort3_correct)

lemma sortArcs_all:
  shows "mset (sortArcs as 0 (length as)) = mset as" "length (sortArcs as 0 (length as)) = length as"
    "sorted (map fst (sortArcs as 0 (length as)))"
proof -
  let ?s = "sortArcs as 0 (length as)"
  have *: "same_outside 0 (length as) as ?s" "arcs_by_id.sorted_section 0 (length as) ?s"
    using sortArcs_section by auto
  show l: "length ?s = length as" and "mset ?s = mset as" using *(1) by (auto simp: same_outside_def)
  show "sorted (map fst ?s)"
    using *(2) l unfolding arcs_by_id.sorted_section_def by (auto simp: sorted_iff_nth_mono_less)
qed

lemma sortArcs_set: "set (sortArcs as 0 (length as)) = set as"
  using sortArcs_all(1) by (metis set_mset_mset)

lemma sortArcs_distinct: "distinct (map fst (sortArcs as 0 (length as))) = distinct (map fst as)"
  by (metis sortArcs_all(1) mset_map mset_eq_imp_distinct_iff)

lemma sortArcs_weight_in:
  assumes "distinct (map fst as)"
  shows "weight_in (sortArcs as 0 (length as)) = weight_in as"
proof
  fix p
  have d: "distinct (map fst (sortArcs as 0 (length as)))" using assms by (simp add: sortArcs_distinct)
  show "weight_in (sortArcs as 0 (length as)) p = weight_in as p"
    by (cases "p \<in> fst ` set as")
       (auto simp: weight_in_mem [OF assms] weight_in_mem [OF d] sortArcs_set weight_in_notin)
qed

lemma Arcs_sortAllArcs:
  "n < Card N ty \<Longrightarrow> Arcs (sortAllArcs N) ty d ! n = sortArcs (Arcs N ty d ! n) 0 (length (Arcs N ty d ! n))"
  by (simp add: sortAllArcs_def CardArcs_def)

lemma Card_sortAllArcs [simp]: "Card (sortAllArcs N) = Card N"
  by (simp add: sortAllArcs_def)

text \<open>Permuting arc lists (each arc with its multiplicity) keeps a net.\<close>

definition arcs_permuted :: "net \<Rightarrow> net \<Rightarrow> bool" where
  "arcs_permuted N N' \<longleftrightarrow>
     Card N' = Card N \<and> (\<forall>ty d. length (Arcs N' ty d) = Card N ty) \<and>
     (\<forall>ty d n. n < Card N ty \<longrightarrow> mset (Arcs N' ty d ! n) = mset (Arcs N ty d ! n))"

lemma arcs_permuted_wf:
  assumes "arcs_permuted N N'" "wf_net N"
  shows "wf_net N'"
proof -
  have c: "Card N' = Card N" and l: "\<And>ty d. length (Arcs N' ty d) = Card N ty"
    and m: "\<And>n ty d. n < Card N ty \<Longrightarrow> mset (Arcs N' ty d ! n) = mset (Arcs N ty d ! n)"
    using assms(1) by (auto simp: arcs_permuted_def)
  have st: "set (Arcs N' ty d ! n) = set (Arcs N ty d ! n)" if "n < Card N ty" for ty d n
    using m [OF that] by (rule mset_eq_setD)
  have di: "distinct (Arc N' ty d n)" if "n < Card N ty" for ty d n
  proof -
    have "mset (Arc N' ty d n) = mset (Arc N ty d n)" using m [OF that, of d] by (simp add: Arc_def)
    then show ?thesis using wf_net_distinct [OF assms(2) that, of d] mset_eq_imp_distinct_iff by blast
  qed
  have "m < Card N (other_node ty) \<and> w \<noteq> 0 \<and> (n, w) \<in> set (Arcs N' (other_node ty) (other_direction d) ! m)"
    if "n < Card N ty" "(m, w) \<in> set (Arcs N' ty d ! n)" for ty d n m w
    using wf_net_arc [OF assms(2) that(1)] that st by auto
  then show ?thesis using c l di by (simp add: wf_net_def)
qed

lemma arcs_permuted_weight:
  assumes "arcs_permuted N N'" "wf_net N" "t < Card N TR"
  shows "weight N' d t = weight N d t"
proof -
  have m: "mset (Arcs N' TR d ! t) = mset (Arcs N TR d ! t)" using assms by (simp add: arcs_permuted_def)
  have d: "distinct (map fst (Arcs N TR d ! t))" using wf_net_distinct [OF assms(2,3)] by (simp add: Arc_def)
  have "distinct (map fst (Arcs N' TR d ! t))"
    using m d by (metis mset_map mset_eq_imp_distinct_iff)
  then have "map_of (Arcs N' TR d ! t) = map_of (Arcs N TR d ! t)"
    using m d by (intro map_of_eqI) (auto dest!: mset_eq_setD simp: map_of_eq_Some_iff)
  then show ?thesis by (auto simp: weight_def weight_in_def)
qed

lemma sortAllArcs_permuted: "wf_net N \<Longrightarrow> arcs_permuted N (sortAllArcs N)"
  by (simp add: arcs_permuted_def Arcs_sortAllArcs sortArcs_all) (simp add: sortAllArcs_def)

lemma sortAllArcs_wf: "wf_net N \<Longrightarrow> wf_net (sortAllArcs N)"
  using arcs_permuted_wf [OF sortAllArcs_permuted] by blast

lemma sortAllArcs_sorted: "n < Card N ty \<Longrightarrow> sorted (Arc (sortAllArcs N) ty d n)"
  by (simp add: Arc_def Arcs_sortAllArcs sortArcs_all)

lemma sortAllArcs_weight: "wf_net N \<Longrightarrow> t < Card N TR \<Longrightarrow> weight (sortAllArcs N) d t = weight N d t"
  using arcs_permuted_weight [OF sortAllArcs_permuted] by blast

lemma sorted_distinct_less:
  "sorted xs \<Longrightarrow> distinct xs \<Longrightarrow> i < j \<Longrightarrow> j < length xs \<Longrightarrow> xs ! i < (xs ! j :: nat)"
  by (metis le_neq_implies_less less_trans nat_neq_iff nth_eq_iff_index_eq sorted_iff_nth_mono_less)

lemma sortAllArcs_checked:
  assumes "wf_net N"
  shows "DEBUG__checkArcOrdering (sortAllArcs N)"
proof -
  have "Arc (sortAllArcs N) ty d n ! 0 < Arc (sortAllArcs N) ty d n ! p"
    if "n < Card N ty" "1 \<le> p" "p < CardArcs (sortAllArcs N) ty d n" for ty d n p
    using that sortAllArcs_sorted [OF that(1)] wf_net_distinct [OF sortAllArcs_wf [OF assms]]
    by (intro sorted_distinct_less) auto
  then show ?thesis by (auto simp: DEBUG__checkArcOrdering_def list_all_iff)
qed

end
