(* ===== verification/SortProps.thy ===== *)
theory SortProps
  imports ArcSort SampleNet
begin

text \<open>
  The properties of the sort functions of \<open>src/Net/Net.cc\<close>.
\<close>

text \<open>C24: \<open>Net::sortAllArcs\<close> turns every arc list of a well-formed net into a strictly increasing
  permutation of itself, multiplicities moving with their arcs, so that the net stays well-formed
  and every transition keeps its weights.\<close>

theorem sortAllArcs_correct:
  assumes "wf_net N"
  shows "wf_net (sortAllArcs N) \<and>
    (\<forall>ty d n. n < Card N ty \<longrightarrow> sorted_wrt (<) (Arc (sortAllArcs N) ty d n) \<and>
       mset (Arcs (sortAllArcs N) ty d ! n) = mset (Arcs N ty d ! n)) \<and>
    (\<forall>d t. t < Card N TR \<longrightarrow> weight (sortAllArcs N) d t = weight N d t)"
proof -
  have "sorted_wrt (<) (Arc (sortAllArcs N) ty d n)" if "n < Card N ty" for ty d n
    using sortAllArcs_sorted [OF that] wf_net_distinct [OF sortAllArcs_wf [OF assms]] that
    by (simp add: strict_sorted_iff)
  moreover have "mset (Arcs (sortAllArcs N) ty d ! n) = mset (Arcs N ty d ! n)" if "n < Card N ty" for ty d n
    using that by (simp add: Arcs_sortAllArcs sortArcs_all)
  ultimately show ?thesis using sortAllArcs_wf [OF assms] sortAllArcs_weight [OF assms] by blast
qed

theorem sortAllArcs_correct_witness: "wf_net (sortAllArcs ring_net)"
  using sortAllArcs_correct [OF ring_wf] by blast

text \<open>\<open>Net::DEBUG__checkArcOrdering\<close> does not establish what its name says: it compares every
  entry with the first one only, so a consistent net whose arc list is out of order passes.\<close>

definition unordered_net :: net where
  "unordered_net = \<lparr>Card = case_node_t 3 1, Arcs = (\<lambda>ty d.
     case_node_t (case_direction_t [[], [], []] [[(0, 1)], [(0, 1)], [(0, 1)]] d)
       (case_direction_t [[(0, 1), (2, 1), (1, 1)]] [[]] d) ty)\<rparr>"

theorem checkArcOrdering_incomplete:
  "DEBUG__checkArcOrdering unordered_net \<and> DEBUG__checkConsistency unordered_net \<and>
   \<not> sorted (Arc unordered_net TR PRE 0)"
  by (simp add: DEBUG__checkArcOrdering_def DEBUG__checkConsistency_def unordered_net_def Arc_def
      CardArcs_def upt_rec numeral_3_eq_3)

text \<open>C25: the sorts behind the stubborn-set priorities return a permutation ordered by decreasing
  key (\<open>unionfindsort\<close>: second components, \<open>sortlength\<close>: conflict set sizes), or by increasing
  pre place (\<open>clustersort\<close>) on the given section, the rest of the array being left alone.\<close>

theorem cluster_sorts_correct:
  "(mset (unionfindsort cluf (length cluf)) = mset cluf \<and>
    sorted_wrt (\<lambda>x y. snd y \<le> snd x) (unionfindsort cluf (length cluf))) \<and>
   (mset (sortlength crd a (length a)) = mset a \<and>
    sorted_wrt (\<lambda>x y. crd y \<le> crd x) (sortlength crd a (length a))) \<and>
   (to \<le> length cl \<longrightarrow> same_outside fr to cl (clustersort N cl fr to p) \<and>
    (\<forall>i j. fr \<le> i \<longrightarrow> i < j \<longrightarrow> j < to \<longrightarrow>
       Arc N TR PRE (clustersort N cl fr to p ! i) ! p \<le> Arc N TR PRE (clustersort N cl fr to p ! j) ! p))"
proof (intro conjI impI)
  note u = by_key_desc.qsort3_correct [of "length cluf" cluf 0 snd, folded unionfindsort_def]
  show "mset (unionfindsort cluf (length cluf)) = mset cluf"
    "sorted_wrt (\<lambda>x y. snd y \<le> snd x) (unionfindsort cluf (length cluf))"
    using u by (auto simp: same_outside_def by_key_desc.sorted_section_def sorted_wrt_iff_nth_less)
  note l = by_key_desc.qsort3_correct [of "length a" a 0 crd, folded sortlength_def]
  show "mset (sortlength crd a (length a)) = mset a"
    "sorted_wrt (\<lambda>x y. crd y \<le> crd x) (sortlength crd a (length a))"
    using l by (auto simp: same_outside_def by_key_desc.sorted_section_def sorted_wrt_iff_nth_less)
  assume "to \<le> length cl"
  note c = by_key.qsort3_correct [OF this, of fr "\<lambda>t. Arc N TR PRE t ! p", folded clustersort_def]
  show "same_outside fr to cl (clustersort N cl fr to p)"
    "\<forall>i j. fr \<le> i \<longrightarrow> i < j \<longrightarrow> j < to \<longrightarrow>
       Arc N TR PRE (clustersort N cl fr to p ! i) ! p \<le> Arc N TR PRE (clustersort N cl fr to p ! j) ! p"
    using c by (simp_all add: by_key.sorted_section_def)
qed

theorem cluster_sorts_correct_witness:
  "same_outside 0 2 [1, 0] (clustersort ring_net [1, 0] 0 2 0)"
  using cluster_sorts_correct [of "[]" id "[]" 2 "[1, 0]" 0 ring_net 0] by simp

end
