(* ===== verification/Preprocess.thy ===== *)
theory Preprocess
  imports Firing ArcSort
begin

text \<open>
  Steps 1 to 3 of \<open>Net::preprocess\<close> (\<open>src/Net/Net.cc\<close>) and \<open>Place::Capacity2Bits\<close>: bits per place,
  hash values of markings, and \<open>preprocess_organizeDeltas\<close>, which computes for every transition
  what firing it changes.  The theorems say that the results meet the assumptions under which
  theory \<open>Firing\<close> proves firing correct, and that the hash value maintained incrementally is the
  hash value of the current marking.
\<close>

section \<open>Place::Capacity2Bits\<close>

function capacity_loop :: "capacity_t \<Rightarrow> cardbit_t \<Rightarrow> cardbit_t" where
  "capacity_loop cap k = (if cap = 0 then k else capacity_loop (drop_bit 1 cap) (k + 1))"
  by pat_completeness auto
termination
  by (relation "measure (\<lambda>(cap, k). unat cap)")
     (auto simp: drop_bit_Suc unat_div unsigned_drop_bit_eq drop_bit_eq_div unat_gt_0 intro!: div_less_dividend)

declare capacity_loop.simps [simp del]

definition Capacity2Bits :: "capacity_t \<Rightarrow> cardbit_t" where
  "Capacity2Bits cap = capacity_loop cap 0"

lemma unat_drop_bit_1: "unat (drop_bit 1 (cap :: capacity_t)) = unat cap div 2"
  by (simp add: drop_bit_eq_div unat_div)

lemma capacity_loop_bounds:
  "k \<le> capacity_loop cap k \<and> unat cap < 2 ^ (capacity_loop cap k - k) \<and>
   (0 < unat cap \<longrightarrow> k < capacity_loop cap k \<and> 2 ^ (capacity_loop cap k - k - 1) \<le> unat cap)"
proof (induction cap k rule: capacity_loop.induct)
  case (1 cap k)
  show ?case
  proof (cases "cap = 0")
    case True
    then show ?thesis by (simp add: capacity_loop.simps [of 0])
  next
    case False
    define r where "r = capacity_loop (drop_bit 1 cap) (k + 1)"
    have r: "capacity_loop cap k = r" using False by (simp add: capacity_loop.simps [of cap] r_def)
    have ih: "k + 1 \<le> r" "unat cap div 2 < 2 ^ (r - (k + 1))"
      "0 < unat cap div 2 \<Longrightarrow> k + 1 < r \<and> 2 ^ (r - (k + 1) - 1) \<le> unat cap div 2"
      using 1 [OF False, folded r_def] by (simp_all only: unat_drop_bit_1)
    obtain d where d: "r = k + 1 + d" using ih(1) le_Suc_ex by blast
    have "unat cap < 2 ^ (r - k)" using ih(2) by (simp add: d)
    moreover have "2 ^ (r - k - 1) \<le> unat cap"
    proof (cases "0 < unat cap div 2")
      case True
      then obtain d' where "d = Suc d'" using ih(3) d by (cases d) auto
      then show ?thesis using ih(3) [OF True] d by simp
    next
      case False
      then have "d = 0 \<or> unat cap = 1" using \<open>cap \<noteq> 0\<close> by (auto simp: unat_eq_0 [symmetric])
      moreover have "0 < unat cap" using \<open>cap \<noteq> 0\<close> by (simp add: unat_gt_0)
      moreover have "d = 0" if "unat cap = 1"
      proof -
        have "unat (drop_bit 1 cap) = 0" unfolding unat_drop_bit_1 that by simp
        then have "drop_bit 1 cap = 0" by (simp only: unat_eq_0)
        then show ?thesis using d by (simp add: r_def capacity_loop.simps [of 0])
      qed
      ultimately show ?thesis using d by auto
    qed
    ultimately show ?thesis using r ih(1) by simp
  qed
qed

section \<open>Hash values of markings\<close>

text \<open>\<open>Place::Hash\<close> holds results of \<open>rand\<close> and is a parameter \<open>H\<close>.\<close>

definition HashInitial :: "net \<Rightarrow> hash_t list \<Rightarrow> capacity_t list \<Rightarrow> hash_t" where
  "HashInitial N H m =
     fold (\<lambda>p h. (h + H ! p * uint (m ! p)) smod SIZEOF_MARKINGTABLE) [0..<Card N PL] 0"

definition marking_hash :: "hash_t list \<Rightarrow> nat \<Rightarrow> marking \<Rightarrow> hash_t" where
  "marking_hash H n M = (\<Sum>p<n. H ! p * int (M p)) mod SIZEOF_MARKINGTABLE"

definition hashes_ok :: "net \<Rightarrow> hash_t list \<Rightarrow> bool" where
  "hashes_ok N H \<longleftrightarrow> length H = Card N PL \<and> (\<forall>h \<in> set H. 0 \<le> h \<and> h < 2 ^ 31)"

lemma smod_nonneg: "0 \<le> a \<Longrightarrow> 0 < n \<Longrightarrow> a smod n = a mod (n::int)"
  by (simp add: signed_modulo_int_def sgn_if)

lemma HashInitial_fold:
  assumes "hashes_ok N H" "length m = Card N PL" "n \<le> Card N PL"
  shows "fold (\<lambda>p h. (h + H ! p * uint (m ! p)) smod SIZEOF_MARKINGTABLE) [0..<n] 0 =
    marking_hash H n (marking_of m)"
  using assms(3)
proof (induction n)
  case 0
  then show ?case by (simp add: marking_hash_def)
next
  case (Suc n)
  have h: "0 \<le> H ! n" using assms Suc.prems by (auto simp: hashes_ok_def)
  have S: "0 < SIZEOF_MARKINGTABLE" by (simp add: SIZEOF_MARKINGTABLE_def)
  have m: "int (marking_of m n) = uint (m ! n)" using assms Suc.prems by (simp add: marking_of_def)
  have "0 \<le> marking_hash H n (marking_of m)" using S by (simp add: marking_hash_def)
  then have "(marking_hash H n (marking_of m) + H ! n * uint (m ! n)) smod SIZEOF_MARKINGTABLE =
      (marking_hash H n (marking_of m) + H ! n * uint (m ! n)) mod SIZEOF_MARKINGTABLE"
    using h S by (intro smod_nonneg) auto
  also have "\<dots> = marking_hash H (Suc n) (marking_of m)"
    using m by (simp add: marking_hash_def mod_add_left_eq)
  finally show ?case using Suc by simp
qed

lemma HashInitial_eq:
  "hashes_ok N H \<Longrightarrow> length m = Card N PL \<Longrightarrow> HashInitial N H m = marking_hash H (Card N PL) (marking_of m)"
  by (simp add: HashInitial_def HashInitial_fold)

text \<open>No product or sum leaves the 64 bits of \<open>hash_t\<close>.\<close>

lemma hash_term_bound:
  assumes "0 \<le> h" "h < 2 ^ 31" "\<bar>a\<bar> < SIZEOF_MARKINGTABLE"
  shows "\<bar>a + h * uint (w :: capacity_t)\<bar> < 2 ^ 63"
proof -
  have w: "0 \<le> uint w" "uint w \<le> 2 ^ 32 - 1" using uint_lt2p [of w] by auto
  have "h * uint w \<le> (2 ^ 31 - 1) * (2 ^ 32 - 1)" using assms w by (intro mult_mono) auto
  moreover have "0 \<le> h * uint w" using assms w by simp
  ultimately show ?thesis using assms(3) by (simp add: SIZEOF_MARKINGTABLE_def)
qed

section \<open>Net::preprocess\_organizeDeltas\<close>

text \<open>The parallel iteration through the sorted pre and post arcs and the two clean-up loops.\<close>

fun merge_deltas ::
  "(arrayindex_t \<times> mult_t) list \<Rightarrow> (arrayindex_t \<times> mult_t) list \<Rightarrow>
   (arrayindex_t \<times> mult_t) list \<times> (arrayindex_t \<times> mult_t) list" where
  "merge_deltas ((p, v) # as) ((q, w) # bs) =
     (if p = q then
        (let (delta_pre, delta_post) = merge_deltas as bs
         in if v = w then (delta_pre, delta_post)
            else if v < w then (delta_pre, (q, w - v) # delta_post)
            else ((p, v - w) # delta_pre, delta_post))
      else if p < q then
        (let (delta_pre, delta_post) = merge_deltas as ((q, w) # bs) in ((p, v) # delta_pre, delta_post))
      else
        (let (delta_pre, delta_post) = merge_deltas ((p, v) # as) bs in (delta_pre, (q, w) # delta_post)))"
| "merge_deltas as [] = (as, [])"
| "merge_deltas [] bs = ([], bs)"

definition sort_transition_arcs :: "net \<Rightarrow> net" where
  "sort_transition_arcs N = N\<lparr>Arcs := (\<lambda>ty d.
     if ty = TR then map (\<lambda>as. sortArcs as 0 (length as)) (Arcs N TR d) else Arcs N ty d)\<rparr>"

text \<open>Step 7b: \<open>Transition::DeltaHash\<close> starts as 0.\<close>

definition delta_hash ::
  "hash_t list \<Rightarrow> (arrayindex_t \<times> mult_t) list \<Rightarrow> (arrayindex_t \<times> mult_t) list \<Rightarrow> hash_t" where
  "delta_hash H delta_pre delta_post =
     fold (\<lambda>(p, w) h. (h + uint w * H ! p) smod SIZEOF_MARKINGTABLE) delta_post
       (fold (\<lambda>(p, w) h. (h - uint w * H ! p) smod SIZEOF_MARKINGTABLE) delta_pre 0)"

definition preprocess_organizeDeltas :: "hash_t list \<Rightarrow> net \<Rightarrow> net \<times> transition_data" where
  "preprocess_organizeDeltas H N =
     (let N1 = sort_transition_arcs N;
          ds = map (\<lambda>(as, bs). merge_deltas as bs) (zip (Arcs N1 TR PRE) (Arcs N1 TR POST))
      in (N1, \<lparr>DeltaHash = map (\<lambda>(x, y). delta_hash H x y) ds,
               DeltaT = (\<lambda>d. case d of PRE \<Rightarrow> map fst ds | POST \<Rightarrow> map snd ds),
               Conflicting = [], BackConflicting = []\<rparr>))"

section \<open>Correctness of the merge\<close>

lemma merge_deltas_keys:
  "fst ` set (fst (merge_deltas as bs)) \<subseteq> fst ` set as \<and> fst ` set (snd (merge_deltas as bs)) \<subseteq> fst ` set bs"
proof (induction as bs rule: merge_deltas.induct)
  case (1 p v as q w bs)
  then show ?case by (auto split: prod.splits simp: Let_def) (force simp: image_iff)+
qed auto

lemma merge_deltas_notin:
  "x \<notin> fst ` set as \<Longrightarrow> x \<notin> fst ` set (fst (merge_deltas as bs))"
  "x \<notin> fst ` set bs \<Longrightarrow> x \<notin> fst ` set (snd (merge_deltas as bs))"
  using merge_deltas_keys by blast+

lemma merge_deltas_distinct:
  "distinct (map fst as) \<Longrightarrow> distinct (map fst bs) \<Longrightarrow>
   distinct (map fst (fst (merge_deltas as bs))) \<and> distinct (map fst (snd (merge_deltas as bs)))"
proof (induction as bs rule: merge_deltas.induct)
  case (1 p v as q w bs)
  consider "p = q" | "p < q" | "q < p" by linarith
  then show ?case
  proof cases
    case 1
    have "p \<notin> fst ` set (fst (merge_deltas as bs))" "q \<notin> fst ` set (snd (merge_deltas as bs))"
      using "1.prems" by (intro merge_deltas_notin; simp)+
    then show ?thesis using "1.IH"(1) [OF 1] "1.prems" 1 by (simp add: split_beta Let_def)
  next
    case 2
    have "p \<notin> fst ` set (fst (merge_deltas as ((q, w) # bs)))"
      using "1.prems" by (intro merge_deltas_notin) simp
    then show ?thesis using "1.IH"(2) "1.prems" 2 by (simp add: split_beta Let_def)
  next
    case 3
    have "q \<notin> fst ` set (snd (merge_deltas ((p, v) # as) bs))"
      using "1.prems" by (intro merge_deltas_notin) simp
    then show ?thesis using "1.IH"(3) "1.prems" 3 by (simp add: split_beta Let_def)
  qed
qed auto

lemma unat_sub_less: "v < w \<Longrightarrow> unat (w - v) = unat w - unat (v :: mult_t)"
  by (simp add: unat_sub_le word_less_nat_alt less_imp_le)

lemma merge_deltas_weight:
  "sorted (map fst as) \<Longrightarrow> sorted (map fst bs) \<Longrightarrow> distinct (map fst as) \<Longrightarrow> distinct (map fst bs) \<Longrightarrow>
   weight_in (fst (merge_deltas as bs)) x = weight_in as x - weight_in bs x \<and>
   weight_in (snd (merge_deltas as bs)) x = weight_in bs x - weight_in as x"
proof (induction as bs rule: merge_deltas.induct)
  case (1 p v as q w bs)
  obtain a b where m: "merge_deltas as bs = (a, b)" by fastforce
  obtain a1 b1 where m1: "merge_deltas as ((q, w) # bs) = (a1, b1)" by fastforce
  obtain a2 b2 where m2: "merge_deltas ((p, v) # as) bs = (a2, b2)" by fastforce
  have np: "weight_in as p = 0" "weight_in bs q = 0" using "1.prems" by (auto intro!: weight_in_notin)
  consider "p = q" | "p < q" | "q < p" by linarith
  then show ?case
  proof cases
    case 1
    have ih: "weight_in a x = weight_in as x - weight_in bs x" "weight_in b x = weight_in bs x - weight_in as x"
      using "1.IH"(1) [OF 1] "1.prems" m by simp_all
    consider "v = w" | "v < w" | "w < v" by (metis linorder_neqE)
    then show ?thesis
    proof cases
      case eq: 1
      then show ?thesis using 1 m ih np by simp
    next
      case lt: 2
      then have "unat v < unat w" by (simp add: word_less_nat_alt)
      then show ?thesis using 1 m ih np lt unat_sub_less [OF lt] by auto
    next
      case gt: 3
      then have "unat w < unat v" by (simp add: word_less_nat_alt)
      then show ?thesis using 1 m ih np gt unat_sub_less [OF gt] by (auto simp: not_less_iff_gr_or_eq)
    qed
  next
    case 2
    have "p \<notin> fst ` set ((q, w) # bs)" using "1.prems" 2 by auto
    then have "weight_in ((q, w) # bs) p = 0" by (rule weight_in_notin)
    moreover have "weight_in b1 p = 0"
      using merge_deltas_keys [of as "(q, w) # bs"] \<open>p \<notin> _\<close> m1 by (intro weight_in_notin) auto
    ultimately show ?thesis using "1.IH"(2) "1.prems" 2 m1 np by auto
  next
    case 3
    have "q \<notin> fst ` set ((p, v) # as)" using "1.prems" 3 by auto
    then have "weight_in ((p, v) # as) q = 0" by (rule weight_in_notin)
    moreover have "weight_in a2 q = 0"
      using merge_deltas_keys [of "(p, v) # as" bs] \<open>q \<notin> _\<close> m2 by (intro weight_in_notin) auto
    ultimately show ?thesis using "1.IH"(3) "1.prems" 3 m2 np by auto
  qed
qed auto

section \<open>The precomputed data meet the assumptions of firing\<close>

lemma sort_transition_arcs_permuted: "wf_net N \<Longrightarrow> arcs_permuted N (sort_transition_arcs N)"
  by (auto simp: arcs_permuted_def sort_transition_arcs_def wf_net_def sortArcs_all)

lemma Arcs_sort_transition_arcs:
  "length (Arcs N TR d) = Card N TR \<Longrightarrow> t < Card N TR \<Longrightarrow>
   Arcs (sort_transition_arcs N) TR d ! t = sortArcs (Arcs N TR d ! t) 0 (length (Arcs N TR d ! t))"
  by (simp add: sort_transition_arcs_def)

lemma organizeDeltas_fst: "fst (preprocess_organizeDeltas H N) = sort_transition_arcs N"
  by (simp add: preprocess_organizeDeltas_def Let_def)

lemma organizeDeltas_DeltaT:
  assumes "wf_net N" "t < Card N TR"
  shows "DeltaT (snd (preprocess_organizeDeltas H N)) PRE ! t =
      fst (merge_deltas (Arcs (sort_transition_arcs N) TR PRE ! t) (Arcs (sort_transition_arcs N) TR POST ! t))"
    "DeltaT (snd (preprocess_organizeDeltas H N)) POST ! t =
      snd (merge_deltas (Arcs (sort_transition_arcs N) TR PRE ! t) (Arcs (sort_transition_arcs N) TR POST ! t))"
    "DeltaHash (snd (preprocess_organizeDeltas H N)) ! t =
      delta_hash H (DeltaT (snd (preprocess_organizeDeltas H N)) PRE ! t)
        (DeltaT (snd (preprocess_organizeDeltas H N)) POST ! t)"
  using assms
  by (auto simp: preprocess_organizeDeltas_def Let_def sort_transition_arcs_def wf_net_def split_beta)

lemma organizeDeltas_deltas_ok:
  assumes "wf_net N"
  shows "deltas_ok N (snd (preprocess_organizeDeltas H N))"
proof -
  let ?N = "sort_transition_arcs N" and ?T = "snd (preprocess_organizeDeltas H N)"
  have "distinct (map fst (DeltaT ?T d ! t)) \<and>
      weight_in (DeltaT ?T d ! t) p = weight N d t p - weight N (other_direction d) t p"
    if t: "t < Card N TR" for t d p
  proof -
    have len: "length (Arcs N TR d) = Card N TR" for d using assms by (simp add: wf_net_def)
    let ?as = "Arcs ?N TR PRE ! t" and ?bs = "Arcs ?N TR POST ! t"
    have dist: "distinct (map fst (Arcs N TR d ! t))" for d
      using wf_net_distinct [OF assms t] by (simp add: Arc_def)
    have *: "sorted (map fst (Arcs ?N TR d ! t))" "distinct (map fst (Arcs ?N TR d ! t))"
      "weight_in (Arcs ?N TR d ! t) = weight N d t" for d
      using dist by (simp_all add: Arcs_sort_transition_arcs [OF len t] sortArcs_all sortArcs_distinct
          sortArcs_weight_in weight_def)
    show ?thesis
      using merge_deltas_weight [OF *(1) *(1) *(2) *(2), of PRE POST p]
        merge_deltas_distinct [OF *(2) *(2), of PRE POST]
      by (cases d) (simp_all add: organizeDeltas_DeltaT [OF assms t] *(3))
  qed
  then show ?thesis by (simp add: deltas_ok_def)
qed

section \<open>DeltaHash\<close>

text \<open>\<open>DeltaHash[t]\<close> is congruent to the difference of the hash values \<open>t\<close> causes.\<close>

definition deltahash_ok :: "hash_t list \<Rightarrow> net \<Rightarrow> transition_data \<Rightarrow> bool" where
  "deltahash_ok H N T \<longleftrightarrow>
     (\<forall>t < Card N TR. DeltaHash T ! t mod SIZEOF_MARKINGTABLE =
        (\<Sum>p<Card N PL. H ! p * (int (weight N POST t p) - int (weight N PRE t p))) mod SIZEOF_MARKINGTABLE)"

lemma fold_smod_mod:
  "fold (\<lambda>(p, w) h. (h + f p w) smod n) ds a mod n = (a + (\<Sum>(p, w)\<leftarrow>ds. f p w)) mod (n::int)"
proof (induction ds arbitrary: a)
  case (Cons d ds)
  obtain p w where d: "d = (p, w)" by fastforce
  have "((a + f p w) smod n + (\<Sum>(p, w)\<leftarrow>ds. f p w)) mod n = ((a + f p w) + (\<Sum>(p, w)\<leftarrow>ds. f p w)) mod n"
    by (rule mod_add_cong) (simp_all add: smod_mod_cong)
  then show ?case using Cons by (simp add: d add.assoc)
qed simp

lemma sum_list_weight_in:
  "distinct (map fst ds) \<Longrightarrow> fst ` set ds \<subseteq> {..<n} \<Longrightarrow>
   (\<Sum>(p, w)\<leftarrow>ds. uint (w :: mult_t) * H ! p) = (\<Sum>p<n. H ! p * int (weight_in ds p))"
proof (induction ds)
  case (Cons d ds)
  obtain q w where d: "d = (q, w)" by fastforce
  have q: "q < n" "q \<notin> fst ` set ds" using Cons.prems d by auto
  have "H ! p * int (weight_in (d # ds) p) = (if p = q then H ! q * uint w else 0) + H ! p * int (weight_in ds p)" for p
    using weight_in_notin [OF q(2)] by (simp add: d)
  then have "(\<Sum>p<n. H ! p * int (weight_in (d # ds) p)) =
      (\<Sum>p<n. (if p = q then H ! q * uint w else 0) + H ! p * int (weight_in ds p))"
    by simp
  also have "\<dots> = H ! q * uint w + (\<Sum>p<n. H ! p * int (weight_in ds p))"
    using q by (simp add: sum.distrib)
  finally show ?case using Cons d by (simp add: mult.commute)
qed simp

lemma delta_hash_mod:
  "delta_hash H dpre dpost mod SIZEOF_MARKINGTABLE =
   ((\<Sum>(p, w)\<leftarrow>dpost. uint w * H ! p) - (\<Sum>(p, w)\<leftarrow>dpre. uint w * H ! p)) mod SIZEOF_MARKINGTABLE"
proof -
  let ?S = SIZEOF_MARKINGTABLE
  have neg: "(\<Sum>(p, w)\<leftarrow>ds. - (uint w * H ! p)) = - (\<Sum>(p, w)\<leftarrow>ds. uint (w :: mult_t) * H ! p)" for ds
    by (induction ds) auto
  have "fold (\<lambda>(p, w) h. (h - uint w * H ! p) smod ?S) dpre 0 mod ?S =
      (- (\<Sum>(p, w)\<leftarrow>dpre. uint w * H ! p)) mod ?S"
    using fold_smod_mod [of "\<lambda>p w. - (uint w * H ! p)" ?S dpre 0] by (simp add: neg)
  then have "(fold (\<lambda>(p, w) h. (h - uint w * H ! p) smod ?S) dpre 0 + (\<Sum>(p, w)\<leftarrow>dpost. uint w * H ! p)) mod ?S =
      (- (\<Sum>(p, w)\<leftarrow>dpre. uint w * H ! p) + (\<Sum>(p, w)\<leftarrow>dpost. uint w * H ! p)) mod ?S"
    by (rule mod_add_cong) simp
  then show ?thesis
    unfolding delta_hash_def
    using fold_smod_mod [of "\<lambda>p w. uint w * H ! p" ?S dpost] by simp
qed

lemma deltas_ok_keys:
  assumes "wf_net N" "t < Card N TR"
  shows "fst ` set (DeltaT (snd (preprocess_organizeDeltas H N)) d ! t) \<subseteq> {..<Card N PL}"
proof -
  have len: "length (Arcs N TR d) = Card N TR" for d using assms by (simp add: wf_net_def)
  have "fst ` set (Arcs (sort_transition_arcs N) TR d ! t) \<subseteq> {..<Card N PL}" for d
    using wf_net_Arc_less [OF assms, of _ d]
    by (auto simp: Arcs_sort_transition_arcs [OF len assms(2)] sortArcs_set Arc_def)
  then show ?thesis
    using merge_deltas_keys [of "Arcs (sort_transition_arcs N) TR PRE ! t" "Arcs (sort_transition_arcs N) TR POST ! t"]
    by (cases d) (simp_all only: organizeDeltas_DeltaT [OF assms], blast+)
qed

lemma organizeDeltas_deltahash_ok:
  assumes "wf_net N"
  shows "deltahash_ok H N (snd (preprocess_organizeDeltas H N))"
  unfolding deltahash_ok_def
proof (intro allI impI)
  fix t
  assume t: "t < Card N TR"
  let ?T = "snd (preprocess_organizeDeltas H N)"
  have d: "distinct (map fst (DeltaT ?T d ! t))"
    "weight_in (DeltaT ?T d ! t) p = weight N d t p - weight N (other_direction d) t p" for d p
    using organizeDeltas_deltas_ok [OF assms] t by (simp_all add: deltas_ok_def)
  have "(\<Sum>(p, w)\<leftarrow>DeltaT ?T POST ! t. uint w * H ! p) - (\<Sum>(p, w)\<leftarrow>DeltaT ?T PRE ! t. uint w * H ! p) =
      (\<Sum>p<Card N PL. H ! p * int (weight_in (DeltaT ?T POST ! t) p) - H ! p * int (weight_in (DeltaT ?T PRE ! t) p))"
    using sum_list_weight_in [OF d(1) deltas_ok_keys [OF assms t]] by (simp add: sum_subtractf)
  also have "\<dots> = (\<Sum>p<Card N PL. H ! p * (int (weight N POST t p) - int (weight N PRE t p)))"
    by (intro sum.cong refl) (simp add: d(2) right_diff_distrib [symmetric] of_nat_diff_if)
  finally show "DeltaHash ?T ! t mod SIZEOF_MARKINGTABLE =
      (\<Sum>p<Card N PL. H ! p * (int (weight N POST t p) - int (weight N PRE t p))) mod SIZEOF_MARKINGTABLE"
    by (simp add: organizeDeltas_DeltaT(3) [OF assms t] delta_hash_mod)
qed

text \<open>The hash value of the successor marking, computed incrementally and from scratch.\<close>

lemma marking_hash_fire:
  assumes "deltahash_ok H N T" "t < Card N TR" "enabled_at N M t"
  shows "marking_hash H (Card N PL) (fire_at N t M) =
    (marking_hash H (Card N PL) M + DeltaHash T ! t) mod SIZEOF_MARKINGTABLE"
proof -
  let ?S = SIZEOF_MARKINGTABLE and ?n = "Card N PL"
  let ?d = "\<Sum>p<?n. H ! p * (int (weight N POST t p) - int (weight N PRE t p))"
  have "int (fire_at N t M p) = int (M p) + (int (weight N POST t p) - int (weight N PRE t p))" for p
    using assms(3) [unfolded enabled_at_def, rule_format, of p] by (simp add: fire_at_def of_nat_diff)
  then have "(\<Sum>p<?n. H ! p * int (fire_at N t M p)) = (\<Sum>p<?n. H ! p * int (M p)) + ?d"
    by (simp add: distrib_left sum.distrib)
  then have "marking_hash H ?n (fire_at N t M) = ((\<Sum>p<?n. H ! p * int (M p)) + ?d) mod ?S"
    by (simp add: marking_hash_def)
  also have "\<dots> = (marking_hash H ?n M + DeltaHash T ! t) mod ?S"
    by (rule mod_add_cong) (use assms in \<open>simp_all add: marking_hash_def deltahash_ok_def\<close>)
  finally show ?thesis .
qed

end
