(* ===== verification/SearchStack.thy ===== *)
theory SearchStack
  imports Prelude
begin

text \<open>
  \<open>src/Exploration/SearchStack.h\<close>: a stack of chunks of \<open>SIZEOF_STACKCHUNK\<close> cells each.  The chunks
  hang in a linked list with the current one first; a cell of a fresh chunk is zeroed memory
  (\<open>None\<close>), and \<open>pop\<close> leaves the contents of the popped cell behind.  The interface every search
  relies on is the locale \<open>stack_interface\<close>, with lists as the abstraction.
\<close>

definition SIZEOF_STACKCHUNK :: nat where
  "SIZEOF_STACKCHUNK = 4096"

lemma SIZEOF_STACKCHUNK_pos [simp]: "0 < SIZEOF_STACKCHUNK"
  by (simp add: SIZEOF_STACKCHUNK_def)

record 'a search_stack =
  StackPointer :: nat
  chunks :: "'a option list list"

definition empty_stack :: "'a search_stack" where
  "empty_stack = \<lparr>StackPointer = 0, chunks = []\<rparr>"

definition new_chunk :: "'a option list" where
  "new_chunk = replicate SIZEOF_STACKCHUNK None"

text \<open>\<open>push\<close> returns the address of the new top cell, into which every caller constructs its entry at
  once; the two steps are one here.\<close>

definition push :: "'a \<Rightarrow> 'a search_stack \<Rightarrow> 'a search_stack" where
  "push e s =
     (let cs = (if StackPointer s mod SIZEOF_STACKCHUNK = 0 then new_chunk # chunks s else chunks s)
      in s\<lparr>chunks := (case cs of [] \<Rightarrow> [] | c # rest \<Rightarrow> c[StackPointer s mod SIZEOF_STACKCHUNK := Some e] # rest),
           StackPointer := StackPointer s + 1\<rparr>)"

definition pop :: "'a search_stack \<Rightarrow> 'a search_stack" where
  "pop s =
     (let sp = StackPointer s - 1
      in s\<lparr>StackPointer := sp,
           chunks := (if sp mod SIZEOF_STACKCHUNK = 0 then tl (chunks s) else chunks s)\<rparr>)"

definition top :: "'a search_stack \<Rightarrow> 'a option" where
  "top s = (case chunks s of [] \<Rightarrow> None | c # _ \<Rightarrow> c ! ((StackPointer s - 1) mod SIZEOF_STACKCHUNK))"

definition swap_stack :: "'a search_stack \<Rightarrow> 'a search_stack \<Rightarrow> 'a search_stack \<times> 'a search_stack" where
  "swap_stack s t =
     (\<lparr>StackPointer = StackPointer t, chunks = chunks t\<rparr>, \<lparr>StackPointer = StackPointer s, chunks = chunks s\<rparr>)"

text \<open>The copy constructors of \<open>Chunk\<close> and \<open>SearchStack\<close>; \<open>f\<close> is the copy constructor of the entries.\<close>

definition copy_chunk :: "('a \<Rightarrow> 'a) \<Rightarrow> 'a option list \<Rightarrow> nat \<Rightarrow> 'a option list" where
  "copy_chunk f c numElements =
     fold (\<lambda>i new. new[i := map_option f (c ! i)]) [0..<numElements] new_chunk"

definition copy_stack :: "('a \<Rightarrow> 'a) \<Rightarrow> 'a search_stack \<Rightarrow> 'a search_stack" where
  "copy_stack f s =
     \<lparr>StackPointer = StackPointer s,
      chunks = (case chunks s of [] \<Rightarrow> []
        | c # rest \<Rightarrow> copy_chunk f c ((StackPointer s - 1) mod SIZEOF_STACKCHUNK + 1) #
            map (\<lambda>c. copy_chunk f c SIZEOF_STACKCHUNK) rest)\<rparr>"

definition assign_stack :: "('a \<Rightarrow> 'a) \<Rightarrow> 'a search_stack \<Rightarrow> 'a search_stack \<Rightarrow> 'a search_stack" where
  "assign_stack f s t = fst (swap_stack s (copy_stack f t))"

section \<open>The list a stack represents\<close>

text \<open>Cell \<open>i\<close> counts from the bottom of the stack.\<close>

definition cell :: "'a search_stack \<Rightarrow> nat \<Rightarrow> 'a option" where
  "cell s i = rev (chunks s) ! (i div SIZEOF_STACKCHUNK) ! (i mod SIZEOF_STACKCHUNK)"

definition num_chunks :: "nat \<Rightarrow> nat" where
  "num_chunks n = (n + SIZEOF_STACKCHUNK - 1) div SIZEOF_STACKCHUNK"

definition shape_ok :: "'a search_stack \<Rightarrow> bool" where
  "shape_ok s \<longleftrightarrow>
     length (chunks s) = num_chunks (StackPointer s) \<and>
     (\<forall>c \<in> set (chunks s). length c = SIZEOF_STACKCHUNK)"

definition represents :: "'a search_stack \<Rightarrow> 'a list \<Rightarrow> bool" where
  "represents s xs \<longleftrightarrow>
     shape_ok s \<and> StackPointer s = length xs \<and> (\<forall>i < length xs. cell s i = Some (rev xs ! i))"

lemma num_chunks_0 [simp]: "num_chunks 0 = 0"
  by (simp add: num_chunks_def SIZEOF_STACKCHUNK_def)

lemma num_chunks_Suc: "num_chunks (Suc n) = n div SIZEOF_STACKCHUNK + 1"
  using div_add_self2 [of SIZEOF_STACKCHUNK n] by (simp add: num_chunks_def less_imp_neq [symmetric])

lemma num_chunks_pos: "0 < n \<Longrightarrow> num_chunks n = (n - 1) div SIZEOF_STACKCHUNK + 1"
  by (cases n) (simp_all add: num_chunks_Suc)

lemma num_chunks_cases:
  "num_chunks n = (if n mod SIZEOF_STACKCHUNK = 0 then n div SIZEOF_STACKCHUNK else n div SIZEOF_STACKCHUNK + 1)"
proof (cases n)
  case (Suc m)
  then show ?thesis by (simp add: num_chunks_Suc div_Suc)
qed simp

lemma represents_empty: "represents empty_stack []"
  by (simp add: represents_def empty_stack_def shape_ok_def SIZEOF_STACKCHUNK_def)

lemma represents_push:
  assumes "represents s xs"
  shows "represents (push e s) (e # xs)"
proof -
  let ?C = SIZEOF_STACKCHUNK and ?n = "length xs"
  define cs where "cs = (if ?n mod ?C = 0 then new_chunk # chunks s else chunks s)"
  have sp: "StackPointer s = ?n" and sh: "shape_ok s" and cells: "\<And>i. i < ?n \<Longrightarrow> cell s i = Some (rev xs ! i)"
    using assms by (auto simp: represents_def)
  have len: "length cs = ?n div ?C + 1"
    using sh sp num_chunks_cases [of ?n] by (simp add: cs_def shape_ok_def)
  then obtain c rest where c: "cs = c # rest" by (cases cs) auto
  have lc: "length c = ?C" "\<forall>d \<in> set rest. length d = ?C"
    using sh c by (auto simp: cs_def shape_ok_def new_chunk_def split: if_splits)
  have push: "push e s = s\<lparr>chunks := c[?n mod ?C := Some e] # rest, StackPointer := ?n + 1\<rparr>"
    using c unfolding cs_def push_def Let_def sp by simp
  have lr: "length rest = ?n div ?C" using len c by simp
  have low: "rev cs ! (i div ?C) = rev (chunks s) ! (i div ?C)" if "i < ?n" for i
  proof (cases "?n mod ?C = 0")
    case True
    then have "i div ?C < ?n div ?C" using that by (metis SIZEOF_STACKCHUNK_pos less_mult_imp_div_less mult_div_mod_eq add.right_neutral mult.commute)
    then show ?thesis using True lr c by (simp add: cs_def nth_append)
  qed (simp add: cs_def)
  have "cell (push e s) i = Some (rev (e # xs) ! i)" if i: "i < Suc ?n" for i
  proof (cases "i = ?n")
    case True
    then show ?thesis using lc lr by (simp add: cell_def push nth_append)
  next
    case False
    then have i': "i < ?n" using i by simp
    have "cell (push e s) i = rev cs ! (i div ?C) ! (i mod ?C)"
    proof (cases "i div ?C = ?n div ?C")
      case True
      then have "i mod ?C \<noteq> ?n mod ?C" using i' by (metis div_mult_mod_eq less_irrefl)
      then show ?thesis using True c lr by (simp add: cell_def push nth_append)
    next
      case False
      then have "i div ?C < ?n div ?C" using i' by (metis div_le_mono le_neq_implies_less less_imp_le)
      then show ?thesis using c lr by (simp add: cell_def push nth_append)
    qed
    then show ?thesis using low [OF i'] cells [OF i'] i' by (simp add: cell_def nth_append)
  qed
  then show ?thesis
    using lc lr by (auto simp: represents_def push shape_ok_def num_chunks_Suc)
qed

lemma represents_top:
  assumes "represents s (x # xs)"
  shows "top s = Some x"
proof -
  let ?C = SIZEOF_STACKCHUNK and ?n = "length xs"
  have sp: "StackPointer s = Suc ?n" and sh: "shape_ok s" and c: "cell s ?n = Some x"
    using assms by (auto simp: represents_def nth_append)
  have len: "length (chunks s) = ?n div ?C + 1"
    using sh sp by (simp add: shape_ok_def num_chunks_Suc)
  then obtain d rest where d: "chunks s = d # rest" "length rest = ?n div ?C" by (cases "chunks s") auto
  show ?thesis using c d sp by (simp add: top_def cell_def nth_append)
qed

lemma represents_pop:
  assumes "represents s (x # xs)"
  shows "represents (pop s) xs"
proof -
  let ?C = SIZEOF_STACKCHUNK and ?n = "length xs"
  have sp: "StackPointer s = Suc ?n" and sh: "shape_ok s"
    and cells: "\<And>i. i < Suc ?n \<Longrightarrow> cell s i = Some (rev (x # xs) ! i)"
    using assms by (auto simp: represents_def)
  have len: "length (chunks s) = ?n div ?C + 1"
    using sh sp by (simp add: shape_ok_def num_chunks_Suc)
  then obtain d rest where d: "chunks s = d # rest" "length rest = ?n div ?C" by (cases "chunks s") auto
  have "cell (pop s) i = cell s i" if i: "i < ?n" for i
  proof (cases "?n mod ?C = 0")
    case True
    then have "i div ?C < ?n div ?C" using i by (metis SIZEOF_STACKCHUNK_pos less_mult_imp_div_less mult_div_mod_eq add.right_neutral mult.commute)
    then show ?thesis using True d sp by (simp add: cell_def pop_def nth_append)
  qed (simp add: cell_def pop_def sp)
  then have "cell (pop s) i = Some (rev xs ! i)" if "i < ?n" for i
    using that cells [of i] by (simp add: nth_append)
  moreover have "shape_ok (pop s)"
    using sh d sp num_chunks_cases [of ?n] by (auto simp: shape_ok_def pop_def Let_def)
  ultimately show ?thesis using sp by (simp add: represents_def pop_def Let_def)
qed

lemma represents_StackPointer: "represents s xs \<Longrightarrow> StackPointer s = length xs"
  by (simp add: represents_def)

section \<open>Copies\<close>

lemma copy_chunk_fold:
  "length new = SIZEOF_STACKCHUNK \<Longrightarrow> length c = SIZEOF_STACKCHUNK \<Longrightarrow> n \<le> SIZEOF_STACKCHUNK \<Longrightarrow>
   length (fold (\<lambda>i new. new[i := map_option f (c ! i)]) [0..<n] new) = SIZEOF_STACKCHUNK \<and>
   (\<forall>i < n. fold (\<lambda>i new. new[i := map_option f (c ! i)]) [0..<n] new ! i = map_option f (c ! i))"
  by (induction n) (auto simp: nth_list_update less_Suc_eq)

lemma copy_chunk_props:
  assumes "length c = SIZEOF_STACKCHUNK" "n \<le> SIZEOF_STACKCHUNK"
  shows "length (copy_chunk f c n) = SIZEOF_STACKCHUNK"
    "i < n \<Longrightarrow> copy_chunk f c n ! i = map_option f (c ! i)"
  using copy_chunk_fold [of new_chunk c n f] assms by (auto simp: copy_chunk_def new_chunk_def)

lemma represents_copy:
  assumes "represents s xs"
  shows "represents (copy_stack f s) (map f xs)"
proof (cases "chunks s")
  case Nil
  then have "xs = []"
    using assms by (cases xs) (auto simp: represents_def shape_ok_def num_chunks_Suc)
  then show ?thesis using assms Nil by (simp add: represents_def copy_stack_def shape_ok_def)
next
  case (Cons c rest)
  let ?C = SIZEOF_STACKCHUNK and ?n = "length xs"
  have sp: "StackPointer s = ?n" and sh: "shape_ok s" and cells: "\<And>i. i < ?n \<Longrightarrow> cell s i = Some (rev xs ! i)"
    using assms by (auto simp: represents_def)
  have pos: "0 < ?n"
  proof (rule ccontr)
    assume "\<not> 0 < ?n"
    then have "length (chunks s) = 0" using sh sp by (simp add: shape_ok_def)
    then show False using Cons by simp
  qed
  have lr: "length rest = (?n - 1) div ?C"
    using sh sp Cons num_chunks_pos [OF pos] by (simp add: shape_ok_def)
  have lc: "length c = ?C" "\<And>d. d \<in> set rest \<Longrightarrow> length d = ?C" using sh Cons by (auto simp: shape_ok_def)
  let ?k = "(?n - 1) mod ?C + 1"
  have k: "?k \<le> ?C" by (simp add: Suc_leI)
  have chunks: "chunks (copy_stack f s) = copy_chunk f c ?k # map (\<lambda>c. copy_chunk f c ?C) rest"
    by (simp add: copy_stack_def Cons sp)
  have "cell (copy_stack f s) i = map_option f (cell s i)" if i: "i < ?n" for i
  proof (cases "i div ?C = (?n - 1) div ?C")
    case True
    have "i mod ?C \<le> (?n - 1) mod ?C" using i True
      by (metis One_nat_def Suc_pred add_le_cancel_left div_mult_mod_eq less_Suc_eq_le pos)
    then have "copy_chunk f c ?k ! (i mod ?C) = map_option f (c ! (i mod ?C))"
      by (intro copy_chunk_props(2) [OF lc(1) k]) simp
    then show ?thesis using True by (simp add: cell_def chunks Cons nth_append lr)
  next
    case False
    then have l: "i div ?C < (?n - 1) div ?C"
      using i pos by (metis One_nat_def Suc_pred div_le_mono le_neq_implies_less less_Suc_eq_le)
    then have "rev rest ! (i div ?C) \<in> set rest" using lr by (metis length_rev nth_mem set_rev)
    then have "copy_chunk f (rev rest ! (i div ?C)) ?C ! (i mod ?C) = map_option f (rev rest ! (i div ?C) ! (i mod ?C))"
      by (intro copy_chunk_props(2) lc(2)) auto
    then show ?thesis using l by (simp add: cell_def chunks Cons nth_append lr rev_map)
  qed
  moreover have "shape_ok (copy_stack f s)"
    using sh Cons copy_chunk_props(1) [OF lc(1) k] copy_chunk_props(1) [OF lc(2) order_refl]
    by (auto simp: shape_ok_def chunks sp) (simp_all add: copy_stack_def sp)
  ultimately show ?thesis
    using cells by (simp add: represents_def copy_stack_def sp rev_map)
qed

section \<open>The interface of the searches\<close>

locale stack_interface =
  fixes rep :: "'s \<Rightarrow> 'a list \<Rightarrow> bool"
    and emp :: 's and psh :: "'a \<Rightarrow> 's \<Rightarrow> 's" and pp :: "'s \<Rightarrow> 's"
    and tp :: "'s \<Rightarrow> 'a option" and depth :: "'s \<Rightarrow> nat"
  assumes rep_empty: "rep emp []"
    and rep_push: "rep s xs \<Longrightarrow> rep (psh e s) (e # xs)"
    and rep_pop: "rep s (x # xs) \<Longrightarrow> rep (pp s) xs"
    and rep_top: "rep s (x # xs) \<Longrightarrow> tp s = Some x"
    and rep_depth: "rep s xs \<Longrightarrow> depth s = length xs"
begin

lemma depth_zero: "rep s xs \<Longrightarrow> depth s = 0 \<longleftrightarrow> xs = []"
  by (simp add: rep_depth)

lemma push_then_top: "rep s xs \<Longrightarrow> tp (psh e s) = Some e"
  using rep_top [OF rep_push] .

lemma push_then_pop: "rep s xs \<Longrightarrow> rep (pp (psh e s)) xs"
  using rep_pop [OF rep_push] .

lemma rep_fold_push: "rep (fold psh es emp) (rev es)"
proof -
  have "rep s xs \<Longrightarrow> rep (fold psh es s) (rev es @ xs)" for s xs
    by (induction es arbitrary: s xs) (auto dest: rep_push)
  from this [OF rep_empty] show ?thesis by simp
qed

end

interpretation chunked: stack_interface represents empty_stack push pop top StackPointer
  by unfold_locales (fact represents_empty represents_push represents_pop represents_top represents_StackPointer)+

end
