(* ===== verification/Exploration.thy ===== *)
theory Exploration
  imports Firing SearchStack
begin

text \<open>
  \<open>src/Exploration/DFSExploration.cc\<close> with \<open>SimpleProperty.h\<close>, \<open>Firelist.cc\<close> and
  \<open>src/Witness/Path.cc\<close>: the depth first search every reachability and deadlock task runs, and the
  memoryless search \<open>find_path\<close>.  The virtual methods of the property, the store and the fire list
  are a record of functions; their contracts are the locales of theory \<open>Search_Contracts\<close>.
\<close>

section \<open>The objects a search works on\<close>

text \<open>\<open>class SimpleStackEntry\<close>: a fire list and the index of the transition fired last.\<close>

record stack_entry =
  entry_fl :: "arrayindex_t list"
  entry_current :: arrayindex_t

definition copy_entry :: "stack_entry \<Rightarrow> stack_entry" where
  "copy_entry src = \<lparr>entry_fl = take (entry_current src + 1) (entry_fl src), entry_current = entry_current src\<rparr>"

text \<open>The virtual functions: \<open>SimpleProperty\<close>, \<open>Store<void>\<close> and \<open>Firelist\<close> with private data of the
  types \<open>'p\<close>, \<open>'s\<close> and \<open>'f\<close>.  A fire list may read the property object (a stubborn set method holds a
  pointer to it).\<close>

record ('p, 's, 'f) search_ops =
  initProperty :: "netstate \<Rightarrow> 'p \<Rightarrow> bool \<times> 'p"
  checkProperty :: "netstate \<Rightarrow> arrayindex_t \<Rightarrow> 'p \<Rightarrow> bool \<times> 'p"
  updateProperty :: "netstate \<Rightarrow> arrayindex_t \<Rightarrow> 'p \<Rightarrow> bool \<times> 'p"
  searchAndInsert :: "netstate \<Rightarrow> 's \<Rightarrow> bool \<times> 's"
  getFirelist :: "netstate \<Rightarrow> 'p \<Rightarrow> 'f \<Rightarrow> arrayindex_t list \<times> 'f"

record ('p, 's, 'f) search_state =
  cur_ns :: netstate
  prop_data :: 'p
  prop_value :: bool
  prop_stack :: "stack_entry search_stack"
  store_data :: 's
  fl_data :: 'f
  currentFirelist :: "arrayindex_t list"
  currentEntry :: arrayindex_t

section \<open>Firelist::getFirelist\<close>

text \<open>The base class lists all enabled transitions in increasing order and returns \<open>CardEnabled\<close>.\<close>

definition base_firelist :: "net \<Rightarrow> netstate \<Rightarrow> arrayindex_t list" where
  "base_firelist N ns = filter (\<lambda>t. Enabled ns ! t) [0..<Card N TR]"

section \<open>DFSExploration::depth_first\<close>

text \<open>One iteration of the loop.  \<open>Some (Some b, s)\<close> is \<open>return b\<close>, \<open>Some (None, s)\<close> goes round again,
  and \<open>None\<close> is the access to a zeroed stack cell.\<close>

definition df_forward ::
  "net \<Rightarrow> transition_data \<Rightarrow> ('p, 's, 'f) search_ops \<Rightarrow> ('p, 's, 'f) search_state \<Rightarrow>
   bool option \<times> ('p, 's, 'f) search_state" where
  "df_forward N T ops s =
     (let e = currentEntry s - 1;
          t = currentFirelist s ! e;
          ns1 = fire T t (cur_ns s);
          (found, st) = searchAndInsert ops ns1 (store_data s);
          s1 = s\<lparr>store_data := st, currentEntry := e\<rparr>
      in if found then (None, s1\<lparr>cur_ns := backfire T t ns1\<rparr>)
         else
           let ns2 = updateEnabled N T t ns1;
               (v, p) = checkProperty ops ns2 t (prop_data s);
               s2 = s1\<lparr>cur_ns := ns2, prop_data := p, prop_value := v,
                       prop_stack := push \<lparr>entry_fl = currentFirelist s, entry_current = e\<rparr> (prop_stack s)\<rparr>
           in if v then (Some True, s2)
              else
                let (fl, fd) = getFirelist ops ns2 p (fl_data s)
                in (None, s2\<lparr>currentFirelist := fl, currentEntry := length fl, fl_data := fd\<rparr>))"

definition df_backward ::
  "net \<Rightarrow> transition_data \<Rightarrow> ('p, 's, 'f) search_ops \<Rightarrow> ('p, 's, 'f) search_state \<Rightarrow> stack_entry \<Rightarrow>
   ('p, 's, 'f) search_state" where
  "df_backward N T ops s e =
     (let t = entry_fl e ! entry_current e;
          ns1 = revertEnabled N T t (backfire T t (cur_ns s));
          (v, p) = updateProperty ops ns1 t (prop_data s)
      in s\<lparr>currentEntry := entry_current e, currentFirelist := entry_fl e,
           prop_stack := pop (prop_stack s), cur_ns := ns1, prop_data := p, prop_value := v\<rparr>)"

definition df_step ::
  "net \<Rightarrow> transition_data \<Rightarrow> ('p, 's, 'f) search_ops \<Rightarrow> ('p, 's, 'f) search_state \<Rightarrow>
   (bool option \<times> ('p, 's, 'f) search_state) option" where
  "df_step N T ops s =
     (if 0 < currentEntry s then Some (df_forward N T ops s)
      else if StackPointer (prop_stack s) = 0 then Some (Some False, s)
      else (case top (prop_stack s) of None \<Rightarrow> None
              | Some e \<Rightarrow> Some (None, df_backward N T ops s e)))"

partial_function (option) df_loop ::
  "net \<Rightarrow> transition_data \<Rightarrow> ('p, 's, 'f) search_ops \<Rightarrow> ('p, 's, 'f) search_state \<Rightarrow>
   (bool \<times> ('p, 's, 'f) search_state) option" where
  "df_loop N T ops s =
     (case df_step N T ops s of
        None \<Rightarrow> None
      | Some r \<Rightarrow> (case fst r of Some b \<Rightarrow> Some (b, snd r) | None \<Rightarrow> df_loop N T ops (snd r)))"

definition depth_first ::
  "net \<Rightarrow> transition_data \<Rightarrow> ('p, 's, 'f) search_ops \<Rightarrow> 'p \<Rightarrow> netstate \<Rightarrow> 's \<Rightarrow> 'f \<Rightarrow>
   (bool \<times> ('p, 's, 'f) search_state) option" where
  "depth_first N T ops p ns st f =
     (let (v, p1) = initProperty ops ns p;
          s0 = \<lparr>cur_ns = ns, prop_data = p1, prop_value = v, prop_stack = empty_stack,
                store_data = st, fl_data = f, currentFirelist = [], currentEntry = 0\<rparr>
      in if v then Some (True, s0)
         else
           let (_, st1) = searchAndInsert ops ns st;
               (fl, fd) = getFirelist ops ns p1 f
           in df_loop N T ops (s0\<lparr>store_data := st1, fl_data := fd,
                currentFirelist := fl, currentEntry := length fl\<rparr>))"

section \<open>SimpleProperty::path\<close>

definition addTransition :: "arrayindex_t \<Rightarrow> bool \<Rightarrow> arrayindex_t list \<Rightarrow> arrayindex_t list" where
  "addTransition t add_to_front ts = (if add_to_front then t # ts else ts @ [t])"

function path_loop :: "stack_entry search_stack \<Rightarrow> arrayindex_t list \<Rightarrow> arrayindex_t list option" where
  "path_loop s ts =
     (if StackPointer s = 0 then Some ts
      else (case top s of None \<Rightarrow> None
              | Some e \<Rightarrow> path_loop (pop s) (addTransition (entry_fl e ! entry_current e) True ts)))"
  by pat_completeness auto
termination
  by (relation "measure (\<lambda>(s, ts). StackPointer s)") (auto simp: pop_def Let_def)

declare path_loop.simps [simp del]

definition property_path :: "stack_entry search_stack \<Rightarrow> arrayindex_t list option" where
  "property_path s = path_loop s []"

section \<open>DFSExploration::find_path\<close>

text \<open>The start of an attempt: copy the initial marking and rescan the enabledness of all transitions.
  \<open>m0\<close> and \<open>h0\<close> are \<open>Marking::Initial\<close> and \<open>Marking::HashInitial\<close>.\<close>

definition restart :: "net \<Rightarrow> capacity_t list \<Rightarrow> hash_t \<Rightarrow> netstate \<Rightarrow> netstate" where
  "restart N m0 h0 ns = initial_enabled N (ns\<lparr>Current := m0, HashCurrent := h0\<rparr>)"

text \<open>The search state here: net state, property, fire list, the state of the chooser (its random
  numbers or hash counters) and the store, which is only told about the visited states.\<close>

type_synonym ('p, 's, 'f, 'c) walk_state = "netstate \<times> 'p \<times> 'f \<times> 'c \<times> 's"

text \<open>The inner loop; \<open>fuel\<close> is \<open>maxdepth - depth\<close> and \<open>witness\<close> the transitions fired so far.\<close>

fun walk ::
  "net \<Rightarrow> transition_data \<Rightarrow> ('p, 's, 'f) search_ops \<Rightarrow>
   (netstate \<Rightarrow> arrayindex_t list \<Rightarrow> 'c \<Rightarrow> arrayindex_t \<times> 'c) \<Rightarrow>
   nat \<Rightarrow> arrayindex_t list \<Rightarrow> ('p, 's, 'f, 'c) walk_state \<Rightarrow>
   arrayindex_t list option \<times> ('p, 's, 'f, 'c) walk_state" where
  "walk N T ops pick 0 witness st = (None, st)"
| "walk N T ops pick (Suc fuel) witness (ns, p, f, c, s) =
     (let s1 = snd (searchAndInsert ops ns s);
          (fl, f1) = getFirelist ops ns p f
      in if length fl = 0 then (None, (ns, p, f1, c, s1))
         else
           let (chosen, c1) = pick ns fl c;
               ns1 = updateEnabled N T chosen (fire T chosen ns);
               (v, p1) = checkProperty ops ns1 chosen p
           in if v then (Some (addTransition chosen False witness), (ns1, p1, f1, c1, s1))
              else walk N T ops pick fuel (addTransition chosen False witness) (ns1, p1, f1, c1, s1))"

definition attempt ::
  "net \<Rightarrow> transition_data \<Rightarrow> ('p, 's, 'f) search_ops \<Rightarrow>
   (netstate \<Rightarrow> arrayindex_t list \<Rightarrow> 'c \<Rightarrow> arrayindex_t \<times> 'c) \<Rightarrow> capacity_t list \<Rightarrow> hash_t \<Rightarrow>
   nat \<Rightarrow> ('p, 's, 'f, 'c) walk_state \<Rightarrow> arrayindex_t list option \<times> ('p, 's, 'f, 'c) walk_state" where
  "attempt N T ops pick m0 h0 maxdepth st =
     (let (ns, p, f, c, s) = st;
          ns0 = restart N m0 h0 ns;
          (v, p1) = initProperty ops ns0 p
      in if v then (Some [], (ns0, p1, f, c, s))
         else walk N T ops pick maxdepth [] (ns0, p1, f, c, s))"

text \<open>The outer loop: \<open>attempts = 0\<close> means no bound.\<close>

partial_function (option) find_path_loop ::
  "net \<Rightarrow> transition_data \<Rightarrow> ('p, 's, 'f) search_ops \<Rightarrow>
   (netstate \<Rightarrow> arrayindex_t list \<Rightarrow> 'c \<Rightarrow> arrayindex_t \<times> 'c) \<Rightarrow> capacity_t list \<Rightarrow> hash_t \<Rightarrow>
   nat \<Rightarrow> nat \<Rightarrow> nat \<Rightarrow> ('p, 's, 'f, 'c) walk_state \<Rightarrow> (arrayindex_t list option \<times> ('p, 's, 'f, 'c) walk_state) option" where
  "find_path_loop N T ops pick m0 h0 attempts maxdepth currentattempt st =
     (if attempts = 0 \<or> currentattempt < attempts
      then (let r = attempt N T ops pick m0 h0 maxdepth st
            in case fst r of Some w \<Rightarrow> Some r
               | None \<Rightarrow> find_path_loop N T ops pick m0 h0 attempts maxdepth (currentattempt + 1) (snd r))
      else Some (None, st))"

definition find_path ::
  "net \<Rightarrow> transition_data \<Rightarrow> ('p, 's, 'f) search_ops \<Rightarrow>
   (netstate \<Rightarrow> arrayindex_t list \<Rightarrow> 'c \<Rightarrow> arrayindex_t \<times> 'c) \<Rightarrow> capacity_t list \<Rightarrow> hash_t \<Rightarrow>
   nat \<Rightarrow> nat \<Rightarrow> ('p, 's, 'f, 'c) walk_state \<Rightarrow> (arrayindex_t list option \<times> ('p, 's, 'f, 'c) walk_state) option" where
  "find_path N T ops pick m0 h0 attempts maxdepth st =
     find_path_loop N T ops pick m0 h0 attempts maxdepth 0 st"

section \<open>DeadlockExploration\<close>

definition deadlock_init :: "netstate \<Rightarrow> unit \<Rightarrow> bool \<times> unit" where
  "deadlock_init ns p = (CardEnabled ns = 0, p)"

definition deadlock_check :: "netstate \<Rightarrow> arrayindex_t \<Rightarrow> unit \<Rightarrow> bool \<times> unit" where
  "deadlock_check ns t p = (CardEnabled ns = 0, p)"

definition deadlock_update :: "netstate \<Rightarrow> arrayindex_t \<Rightarrow> unit \<Rightarrow> bool \<times> unit" where
  "deadlock_update ns t p = (False, p)"

end
