(* ===== verification/Search_Contracts.thy ===== *)
theory Search_Contracts
  imports Preprocess Exploration
begin

text \<open>
  The contracts between a search and the objects it calls, as locales: \<open>net_setting\<close> (a well-formed
  preprocessed net whose reachable markings fit the token counters), \<open>store_contract\<close>,
  \<open>property_contract\<close> and \<open>firelist_contract\<close>, and their combination \<open>search_contract\<close>, in which
  \<open>depth_first\<close> is proved totally correct.
\<close>

section \<open>Nets on which a search runs\<close>

definition fire_vec :: "transition_data \<Rightarrow> arrayindex_t \<Rightarrow> capacity_t list \<Rightarrow> capacity_t list" where
  "fire_vec T t m = put_tokens (DeltaT T POST ! t) (take_tokens (DeltaT T PRE ! t) m)"

lemma Current_fire: "Current (fire T t ns) = fire_vec T t (Current ns)"
  by (simp add: fire_def fire_vec_def)

lemma updateEnabled_frame [frame_simps]:
  "Current (updateEnabled N T t ns) = Current ns" "HashCurrent (updateEnabled N T t ns) = HashCurrent ns"
  "Current (revertEnabled N T t ns) = Current ns" "HashCurrent (revertEnabled N T t ns) = HashCurrent ns"
  by (simp_all add: updateEnabled_def revertEnabled_def frame_simps)

definition succ_state :: "net \<Rightarrow> transition_data \<Rightarrow> arrayindex_t \<Rightarrow> netstate \<Rightarrow> netstate" where
  "succ_state N T t ns = updateEnabled N T t (fire T t ns)"

lemma Current_succ_state: "Current (succ_state N T t ns) = fire_vec T t (Current ns)"
  by (simp add: succ_state_def frame_simps Current_fire)

text \<open>Firing sequences of the token game.\<close>

fun firing_sequence :: "net \<Rightarrow> marking \<Rightarrow> arrayindex_t list \<Rightarrow> marking \<Rightarrow> bool" where
  "firing_sequence N M [] M' \<longleftrightarrow> M = M'"
| "firing_sequence N M (t # ts) M' \<longleftrightarrow>
     t < Card N TR \<and> enabled_at N M t \<and> firing_sequence N (fire_at N t M) ts M'"

lemma firing_sequence_append:
  "firing_sequence N M (ts @ us) M'' \<longleftrightarrow> (\<exists>M'. firing_sequence N M ts M' \<and> firing_sequence N M' us M'')"
  by (induction ts arbitrary: M) auto

lemma firing_sequence_reach: "firing_sequence N M ts M' \<Longrightarrow> net_reach N M M'"
  by (induction ts arbitrary: M)
     (auto intro: reach_refl dest: net_reach_trans [OF _ reach_step [OF reach_refl fire_step]])

lemma reach_firing_sequence: "net_reach N M M' \<Longrightarrow> \<exists>w. firing_sequence N M w M'"
proof (induction rule: net_reach.induct)
  case reach_refl
  show ?case by (rule exI [of _ "[]"]) simp
next
  case (reach_step M' M'')
  then obtain w t where "firing_sequence N M w M'" "t < Card N TR" "enabled_at N M' t" "M'' = fire_at N t M'"
    by (auto elim: net_stepE)
  then have "firing_sequence N M (w @ [t]) M''" by (auto simp: firing_sequence_append)
  then show ?case ..
qed

text \<open>Token vectors of reachable markings; net states as a search shows them to the store (reachable,
  with the right hash value); net states as a search keeps them (with exact enabledness flags too).\<close>

definition reachable_vec :: "net \<Rightarrow> marking \<Rightarrow> capacity_t list \<Rightarrow> bool" where
  "reachable_vec N M0 m \<longleftrightarrow> length m = Card N PL \<and> net_reach N M0 (marking_of m)"

definition hashed_state :: "net \<Rightarrow> hash_t list \<Rightarrow> marking \<Rightarrow> netstate \<Rightarrow> bool" where
  "hashed_state N H M0 ns \<longleftrightarrow> reachable_vec N M0 (Current ns) \<and>
     HashCurrent ns = marking_hash H (Card N PL) (marking_of (Current ns))"

definition good_state :: "net \<Rightarrow> hash_t list \<Rightarrow> marking \<Rightarrow> netstate \<Rightarrow> bool" where
  "good_state N H M0 ns \<longleftrightarrow> enabled_ok N ns \<and> hashed_state N H M0 ns"

definition initial_state :: "net \<Rightarrow> hash_t list \<Rightarrow> netstate \<Rightarrow> bool" where
  "initial_state N H ns \<longleftrightarrow> good_state N H (marking_of (Current ns)) ns"

locale net_setting =
  fixes N :: net and T :: transition_data and H :: "hash_t list" and M0 :: marking
  assumes wf: "wf_net N" and deltas: "deltas_ok N T" and conflicts: "conflicts_ok N T"
    and hashes: "deltahash_ok H N T"
    and bounded: "net_reach N M0 M \<Longrightarrow> p < Card N PL \<Longrightarrow> M p < 2 ^ 32"
begin

abbreviation reach_vec :: "capacity_t list \<Rightarrow> bool" where
  "reach_vec \<equiv> reachable_vec N M0"

abbreviation hashed :: "netstate \<Rightarrow> bool" where
  "hashed \<equiv> hashed_state N H M0"

abbreviation good :: "netstate \<Rightarrow> bool" where
  "good \<equiv> good_state N H M0"

lemma good_parts:
  assumes "good ns"
  shows "enabled_ok N ns" "count_ok N ns" "reach_vec (Current ns)" "0 \<le> HashCurrent ns"
    "HashCurrent ns < SIZEOF_MARKINGTABLE"
  using assms by (auto simp: good_state_def hashed_state_def enabled_ok_def marking_hash_def SIZEOF_MARKINGTABLE_def)

lemma good_enabled: "good ns \<Longrightarrow> t < Card N TR \<Longrightarrow> Enabled ns ! t \<longleftrightarrow> enabled_at N (marking_of (Current ns)) t"
  using enabled_ok_iff [OF good_parts(1) wf] .

lemma good_fits:
  assumes "good ns" "t < Card N TR" "Enabled ns ! t"
  shows "fits N ns t"
  unfolding fits_def
proof (intro allI impI)
  fix p
  assume p: "p < Card N PL"
  let ?M = "marking_of (Current ns)"
  have e: "enabled_at N ?M t" using assms good_enabled by blast
  have "net_reach N M0 ?M" using assms by (simp add: good_state_def hashed_state_def reachable_vec_def)
  then have "net_reach N M0 (fire_at N t ?M)" using e assms(2) by (auto intro: reach_step fire_step)
  then have "fire_at N t ?M p < 2 ^ 32" using p by (rule bounded)
  moreover have "?M p = unat (Current ns ! p)" using assms p by (simp add: good_state_def hashed_state_def reachable_vec_def marking_of_def)
  moreover have "weight N PRE t p \<le> ?M p" using e by (simp add: enabled_at_def)
  ultimately show "unat (Current ns ! p) + weight N POST t p < 2 ^ 32 + weight N PRE t p"
    by (simp add: fire_at_def)
qed

lemma marking_succ:
  assumes "good ns" "t < Card N TR" "Enabled ns ! t"
  shows "marking_of (fire_vec T t (Current ns)) = fire_at N t (marking_of (Current ns))"
  using marking_of_fire [OF deltas assms(2) good_parts(2) [OF assms(1)] _ good_fits [OF assms] wf] assms good_enabled
  by (simp add: Current_fire)

lemma good_succ:
  assumes "good ns" "t < Card N TR" "Enabled ns ! t"
  shows "good (succ_state N T t ns)"
proof -
  let ?M = "marking_of (Current ns)"
  have e: "enabled_at N ?M t" using assms good_enabled by blast
  have F: "fired N t (Current ns) (Current (fire T t ns))"
    by (rule fire_fired [OF deltas wf assms(2) good_parts(2) [OF assms(1)] e good_fits [OF assms]])
  have len: "length (Current (fire T t ns)) = Card N PL"
    using assms by (simp add: frame_simps good_state_def hashed_state_def reachable_vec_def)
  have "enabled_ok N (succ_state N T t ns)" unfolding succ_state_def
    by (rule updateEnabled_enabled_ok [OF conflicts wf assms(2) good_parts(1) [OF assms(1)] F _ _ len])
       (simp_all add: frame_simps)
  moreover have "net_reach N M0 (fire_at N t ?M)"
    using assms e by (auto simp: good_state_def hashed_state_def reachable_vec_def intro: reach_step fire_step)
  moreover have "HashCurrent (succ_state N T t ns) = marking_hash H (Card N PL) (fire_at N t ?M)"
    using marking_hash_fire [OF hashes assms(2) e] assms(1)
    by (simp add: succ_state_def frame_simps sem_simps good_state_def hashed_state_def)
  ultimately show ?thesis
    using marking_succ [OF assms] len
    by (simp add: good_state_def hashed_state_def reachable_vec_def Current_succ_state Current_fire)
qed

lemma hashed_fire:
  assumes "good ns" "t < Card N TR" "Enabled ns ! t"
  shows "hashed (fire T t ns)"
  using good_succ [OF assms] by (simp add: good_state_def hashed_state_def succ_state_def frame_simps)

lemma good_back:
  assumes "good ns" "t < Card N TR" "Enabled ns ! t"
  shows "revertEnabled N T t (backfire T t (succ_state N T t ns)) = ns"
  unfolding succ_state_def
  using backtrack_restores [OF wf deltas conflicts assms(2) good_parts(1) [OF assms(1)] assms(3)
      good_fits [OF assms] good_parts(4,5) [OF assms(1)]] .

lemma good_unfire: "good ns \<Longrightarrow> backfire T t (fire T t ns) = ns"
  by (rule backfire_fire_aux) (simp_all add: good_parts)

lemma good_unique: "good ns \<Longrightarrow> good ns' \<Longrightarrow> Current ns = Current ns' \<Longrightarrow> ns = ns'"
  using enabled_ok_unique [of N ns ns'] by (intro netstate.equality) (auto simp: good_state_def hashed_state_def)

text \<open>Every reachable token vector belongs to a good net state.\<close>

lemma good_exists:
  assumes "reach_vec m"
  shows "\<exists>ns. good ns \<and> Current ns = m"
proof -
  let ?ns = "initial_enabled N \<lparr>Current = m, HashCurrent = marking_hash H (Card N PL) (marking_of m),
    Enabled = [], CardEnabled = 0\<rparr>"
  have "enabled_ok N ?ns" "Current ?ns = m"
    using initial_enabled_exact [of "\<lparr>Current = m, HashCurrent = marking_hash H (Card N PL) (marking_of m),
      Enabled = [], CardEnabled = 0\<rparr>" N] assms by (simp_all add: reachable_vec_def)
  then have "good ?ns \<and> Current ?ns = m" using assms by (simp add: good_state_def hashed_state_def initial_enabled_Hash)
  then show ?thesis by blast
qed

lemma marking_fire_vec:
  assumes "reach_vec m" "t < Card N TR" "enabled_at N (marking_of m) t"
  shows "marking_of (fire_vec T t m) = fire_at N t (marking_of m)"
  using good_exists [OF assms(1)] marking_succ good_enabled assms(2,3) by blast

text \<open>Every reachable marking is the marking of some token vector.\<close>

lemma reach_vec_exists:
  assumes "reach_vec m0" "marking_of m0 = M0" "net_reach N M0 M"
  shows "\<exists>m. reach_vec m \<and> marking_of m = M"
  using assms(3)
proof (cases rule: net_reach.cases)
  case reach_refl
  then show ?thesis using assms by blast
next
  case (reach_step M')
  let ?m = "map (\<lambda>p. of_nat (M p)) [0..<Card N PL] :: capacity_t list"
  obtain t where t: "t < Card N TR" "M = fire_at N t M'" using reach_step(2) by (auto elim: net_stepE)
  have out: "X p = 0" if "net_reach N M0 X" "\<not> p < Card N PL" for X p
    using that(1)
  proof (induction rule: net_reach.induct)
    case reach_refl
    then show ?case using assms that by (auto simp: reachable_vec_def marking_of_def)
  next
    case (reach_step X Y)
    then obtain u where u: "u < Card N TR" "Y = fire_at N u X" by (auto elim: net_stepE)
    have "weight N POST u p = 0"
      using weight_pos_Arc wf_net_Arc_less [OF wf u(1)] that(2) by fastforce
    then show ?case using u reach_step by (simp add: fire_at_def)
  qed
  have "marking_of ?m p = M p" for p
  proof (cases "p < Card N PL")
    case True
    then show ?thesis using bounded [OF assms(3) True] by (simp add: marking_of_def unsigned_of_nat take_bit_nat_eq_self_iff)
  next
    case False
    then show ?thesis using out [OF assms(3) False] by (simp add: marking_of_def)
  qed
  then have "marking_of ?m = M" by blast
  then show ?thesis using assms(3) by (intro exI [of _ ?m]) (simp add: reachable_vec_def)
qed

end

lemma marking_of_inj: "marking_of m = marking_of m' \<Longrightarrow> length m = length m' \<Longrightarrow> m = m'"
  by (intro nth_equalityI) (auto simp: marking_of_def fun_eq_iff word_unat_eq_iff split: if_splits)

text \<open>The assumptions under which a search runs on a preprocessed net, from \<open>ns\<close>.\<close>

definition search_ready :: "net \<Rightarrow> transition_data \<Rightarrow> hash_t list \<Rightarrow> netstate \<Rightarrow> bool" where
  "search_ready N T H ns \<longleftrightarrow>
     wf_net N \<and> deltas_ok N T \<and> conflicts_ok N T \<and> deltahash_ok H N T \<and> initial_state N H ns \<and>
     (\<forall>M p. net_reach N (marking_of (Current ns)) M \<and> p < Card N PL \<longrightarrow> M p < 2 ^ 32)"

lemma search_ready_setting:
  assumes "search_ready N T H ns"
  shows "net_setting N T H (marking_of (Current ns))" "good_state N H (marking_of (Current ns)) ns"
  using assms by (auto simp: search_ready_def initial_state_def intro!: net_setting.intro)

section \<open>Contracts\<close>

text \<open>A store decides membership of the current marking in the set of stored markings and adds it,
  for every net state in its domain \<open>dom_ns\<close>.\<close>

locale store_contract =
  fixes sai :: "netstate \<Rightarrow> 's \<Rightarrow> bool \<times> 's"
    and sinv :: "'s \<Rightarrow> bool" and stored :: "'s \<Rightarrow> capacity_t list set" and dom_ns :: "netstate \<Rightarrow> bool"
  assumes sai_correct:
    "dom_ns ns \<Longrightarrow> sinv s \<Longrightarrow> sai ns s = (b, s') \<Longrightarrow>
     sinv s' \<and> (b \<longleftrightarrow> Current ns \<in> stored s) \<and> stored s' = insert (Current ns) (stored s)"

text \<open>A property object \<open>p\<close> is in step with a net state when \<open>pinv ns p\<close>; the three methods return
  the truth value of \<open>phi\<close> and keep it in step along firing and backtracking.\<close>

locale property_contract =
  fixes N :: net and T :: transition_data
    and init :: "netstate \<Rightarrow> 'p \<Rightarrow> bool \<times> 'p"
    and chk :: "netstate \<Rightarrow> arrayindex_t \<Rightarrow> 'p \<Rightarrow> bool \<times> 'p"
    and upd :: "netstate \<Rightarrow> arrayindex_t \<Rightarrow> 'p \<Rightarrow> bool \<times> 'p"
    and good_ns :: "netstate \<Rightarrow> bool" and pstart :: "'p \<Rightarrow> bool"
    and pinv :: "netstate \<Rightarrow> 'p \<Rightarrow> bool" and phi :: "capacity_t list \<Rightarrow> bool"
  assumes init_correct:
    "good_ns ns \<Longrightarrow> pstart p \<Longrightarrow> init ns p = (v, p') \<Longrightarrow> v = phi (Current ns) \<and> pinv ns p'"
    and chk_correct:
    "good_ns ns \<Longrightarrow> pinv ns p \<Longrightarrow> t < Card N TR \<Longrightarrow> Enabled ns ! t \<Longrightarrow> ns' = succ_state N T t ns \<Longrightarrow>
     good_ns ns' \<Longrightarrow> chk ns' t p = (v, p') \<Longrightarrow> v = phi (Current ns') \<and> pinv ns' p'"
    and upd_correct:
    "good_ns ns \<Longrightarrow> t < Card N TR \<Longrightarrow> Enabled ns ! t \<Longrightarrow> ns' = succ_state N T t ns \<Longrightarrow> good_ns ns' \<Longrightarrow>
     pinv ns' p \<Longrightarrow> upd ns t p = (v, p') \<Longrightarrow> pinv ns p'"
    and pinv_start: "pinv ns p \<Longrightarrow> pstart p"

text \<open>A chooser returns a member of the fire list.\<close>

locale chooser_contract =
  fixes pick :: "netstate \<Rightarrow> arrayindex_t list \<Rightarrow> 'c \<Rightarrow> arrayindex_t \<times> 'c"
  assumes pick_mem: "l \<noteq> [] \<Longrightarrow> pick ns l c = (t, c') \<Longrightarrow> t \<in> set l"

text \<open>A fire list is asked for in states that do not satisfy the property \<open>phi\<close>.  It holds enabled
  transitions only; \<open>flok m F\<close> tells what else is known of the set \<open>F\<close> of its members at the token
  vector \<open>m\<close>.\<close>

locale firelist_contract =
  fixes N :: net and get :: "netstate \<Rightarrow> 'p \<Rightarrow> 'f \<Rightarrow> arrayindex_t list \<times> 'f"
    and good_ns :: "netstate \<Rightarrow> bool" and pinv :: "netstate \<Rightarrow> 'p \<Rightarrow> bool" and phi :: "capacity_t list \<Rightarrow> bool"
    and finv :: "'f \<Rightarrow> bool" and flok :: "capacity_t list \<Rightarrow> arrayindex_t set \<Rightarrow> bool"
  assumes get_correct:
    "good_ns ns \<Longrightarrow> pinv ns p \<Longrightarrow> \<not> phi (Current ns) \<Longrightarrow> finv f \<Longrightarrow> get ns p f = (l, f') \<Longrightarrow>
     finv f' \<and> flok (Current ns) (set l) \<and> (\<forall>t \<in> set l. t < Card N TR \<and> Enabled ns ! t)"

text \<open>A fire list preserves a property of markings when from every state it can be asked for, each
  path to a marking with the property has a shorter companion that starts with a member of the list.\<close>

definition preserving ::
  "net \<Rightarrow> marking \<Rightarrow> (capacity_t list \<Rightarrow> bool) \<Rightarrow> (capacity_t list \<Rightarrow> arrayindex_t set \<Rightarrow> bool) \<Rightarrow> (marking \<Rightarrow> bool) \<Rightarrow> bool" where
  "preserving N M0 phi flok Phi \<longleftrightarrow>
     (\<forall>m F w M'. reachable_vec N M0 m \<and> \<not> phi m \<and> flok m F \<and> firing_sequence N (marking_of m) w M' \<and> Phi M' \<longrightarrow>
        (\<exists>t \<in> F. \<exists>v M''. t < Card N TR \<and> enabled_at N (marking_of m) t \<and> length v < length w \<and>
           firing_sequence N (fire_at N t (marking_of m)) v M'' \<and> Phi M''))"

end
