(* ===== verification/DFS_Correct.thy ===== *)
theory DFS_Correct
  imports Search_Contracts
begin

text \<open>
  Total correctness of \<open>DFSExploration::depth_first\<close> over the contracts of theory
  \<open>Search_Contracts\<close>.  The proof keeps, besides the program's own stack, the net states the stack
  stands for; backtracking restores them exactly.
\<close>

type_synonym frame = "netstate \<times> stack_entry"

definition entry_trans :: "stack_entry \<Rightarrow> arrayindex_t" where
  "entry_trans e = entry_fl e ! entry_current e"

definition stack_load :: "frame list \<Rightarrow> nat" where
  "stack_load fs = (\<Sum>f\<leftarrow>fs. entry_current (snd f) + 1)"

lemma stack_load_simps [simp]:
  "stack_load [] = 0" "stack_load (f # fs) = entry_current (snd f) + 1 + stack_load fs"
  by (simp_all add: stack_load_def)

lemma path_loop_represents:
  "represents s es \<Longrightarrow> path_loop s ts = Some (rev (map entry_trans es) @ ts)"
proof (induction es arbitrary: s ts)
  case Nil
  then show ?case by (simp add: path_loop.simps [of s] represents_def)
next
  case (Cons e es)
  then have "path_loop s ts = path_loop (pop s) (entry_trans e # ts)"
    by (simp add: path_loop.simps [of s] chunked.rep_top [OF Cons.prems] represents_StackPointer
        addTransition_def entry_trans_def)
  then show ?case using Cons.IH [OF chunked.rep_pop [OF Cons.prems]] by simp
qed

lemma property_path_represents: "represents s es \<Longrightarrow> property_path s = Some (rev (map entry_trans es))"
  by (simp add: property_path_def path_loop_represents)

text \<open>What both searches need: a net, a property object and a fire list.\<close>

locale walk_contract =
  net_setting N T H M0 +
  property_contract N T "initProperty ops" "checkProperty ops" "updateProperty ops"
    "good_state N H M0" pstart pinv phi +
  firelist_contract N "getFirelist ops" "good_state N H M0" pinv phi finv flok
  for N :: net and T :: transition_data and H :: "hash_t list" and M0 :: marking
    and ops :: "('p, 's, 'f) search_ops"
    and pstart :: "'p \<Rightarrow> bool" and pinv :: "netstate \<Rightarrow> 'p \<Rightarrow> bool" and phi :: "capacity_t list \<Rightarrow> bool"
    and finv :: "'f \<Rightarrow> bool" and flok :: "capacity_t list \<Rightarrow> arrayindex_t set \<Rightarrow> bool"
begin

section \<open>find\_path\<close>

text \<open>Every path \<open>find_path\<close> reports is a firing sequence to a marking with the property.\<close>

definition path_ok :: "capacity_t list \<Rightarrow> ('p, 's, 'f, 'c) walk_state \<Rightarrow> arrayindex_t list \<Rightarrow> bool" where
  "path_ok m0 st w \<longleftrightarrow>
     firing_sequence N (marking_of m0) w (marking_of (Current (fst st))) \<and>
     reach_vec (Current (fst st)) \<and> phi (Current (fst st))"

lemma walk_sound:
  assumes pick: "chooser_contract pick"
  shows "good ns \<Longrightarrow> pinv ns p \<Longrightarrow> \<not> phi (Current ns) \<Longrightarrow> finv f \<Longrightarrow>
    firing_sequence N (marking_of m0) w (marking_of (Current ns)) \<Longrightarrow>
    walk N T ops pick fuel w (ns, p, f, c, s) = (r, st) \<Longrightarrow>
    (case r of Some u \<Rightarrow> path_ok m0 st u | None \<Rightarrow> pstart (fst (snd st)) \<and> finv (fst (snd (snd st))))"
proof (induction fuel arbitrary: ns p f c w s)
  case 0
  then show ?case using pinv_start by auto
next
  case (Suc fuel)
  obtain fl f1 where get: "getFirelist ops ns p f = (fl, f1)" by fastforce
  have fl: "finv f1" "\<forall>t \<in> set fl. t < Card N TR \<and> Enabled ns ! t"
    using get_correct [OF Suc.prems(1-4) get] by auto
  show ?case
  proof (cases "fl = []")
    case True
    then show ?thesis using Suc.prems get fl pinv_start by auto
  next
    case False
    obtain t c1 where ch: "pick ns fl c = (t, c1)" by fastforce
    have "t \<in> set fl" by (rule chooser_contract.pick_mem [OF pick False ch])
    then have t: "t < Card N TR" "Enabled ns ! t" using fl by auto
    let ?ns = "succ_state N T t ns"
    have g: "good ?ns" by (rule good_succ [OF Suc.prems(1) t])
    obtain v p1 where chk: "checkProperty ops ?ns t p = (v, p1)" by fastforce
    have v: "v = phi (Current ?ns)" "pinv ?ns p1"
      using chk_correct [OF Suc.prems(1,2) t refl g chk] by auto
    have seq: "firing_sequence N (marking_of m0) (w @ [t]) (marking_of (Current ?ns))"
      using Suc.prems(5) t good_enabled [OF Suc.prems(1) t(1)] marking_succ [OF Suc.prems(1) t]
      by (auto simp: firing_sequence_append Current_succ_state)
    have w: "walk N T ops pick (Suc fuel) w (ns, p, f, c, s) =
        (if v then (Some (w @ [t]), (?ns, p1, f1, c1, snd (searchAndInsert ops ns s))) else walk N T ops pick fuel (w @ [t]) (?ns, p1, f1, c1, snd (searchAndInsert ops ns s)))"
      using get ch chk False by (simp add: succ_state_def Let_def addTransition_def)
    show ?thesis
    proof (cases v)
      case True
      then show ?thesis using Suc.prems(6) w seq v good_parts(3) [OF g] by (auto simp: path_ok_def)
    next
      case False
      then show ?thesis using Suc.IH [OF g v(2) _ fl(1) seq] Suc.prems(6) v w by simp
    qed
  qed
qed

lemma attempt_sound:
  assumes pick: "chooser_contract pick" and m0: "reach_vec m0" "h0 = marking_hash H (Card N PL) (marking_of m0)"
    and st: "pstart (fst (snd st))" "finv (fst (snd (snd st)))"
    and r: "attempt N T ops pick m0 h0 maxdepth st = (r, st')"
  shows "case r of Some u \<Rightarrow> path_ok m0 st' u | None \<Rightarrow> pstart (fst (snd st')) \<and> finv (fst (snd (snd st')))"
proof -
  obtain ns p f c s where st_eq: "st = (ns, p, f, c, s)" by (cases st)
  let ?ns = "restart N m0 h0 ns"
  have e: "enabled_ok N ?ns" "Current ?ns = m0" "HashCurrent ?ns = h0"
    using initial_enabled_exact [of "ns\<lparr>Current := m0, HashCurrent := h0\<rparr>" N] m0(1)
    by (simp_all add: restart_def reachable_vec_def initial_enabled_Hash)
  have g: "good ?ns" using e m0 by (simp add: good_state_def hashed_state_def)
  obtain v p1 where init: "initProperty ops ?ns p = (v, p1)" by fastforce
  have v: "v = phi m0" "pinv ?ns p1" using init_correct [OF g _ init] st st_eq e by auto
  show ?thesis
  proof (cases v)
    case True
    then show ?thesis using r st_eq init v e m0(1) by (auto simp: attempt_def path_ok_def)
  next
    case False
    then have "walk N T ops pick maxdepth [] (?ns, p1, f, c, s) = (r, st')" using r st_eq init by (simp add: attempt_def)
    then show ?thesis
      using walk_sound [OF pick g v(2) _, of f m0 "[]" maxdepth c s r st'] st st_eq e v(1) False by simp
  qed
qed

lemma find_path_loop_total:
  assumes pick: "chooser_contract pick" and m0: "reach_vec m0" "h0 = marking_hash H (Card N PL) (marking_of m0)"
  shows "pstart (fst (snd st)) \<Longrightarrow> finv (fst (snd (snd st))) \<Longrightarrow> 0 < attempts \<Longrightarrow>
    \<exists>r st'. find_path_loop N T ops pick m0 h0 attempts maxdepth k st = Some (r, st') \<and>
      (\<forall>w. r = Some w \<longrightarrow> path_ok m0 st' w)"
proof (induction "attempts - k" arbitrary: k st)
  case 0
  then show ?case by (subst find_path_loop.simps) auto
next
  case (Suc n)
  obtain r st1 where a: "attempt N T ops pick m0 h0 maxdepth st = (r, st1)" by (meson surj_pair)
  note s = attempt_sound [OF pick m0 Suc.prems(1,2) a]
  have loop: "find_path_loop N T ops pick m0 h0 attempts maxdepth k st =
      (case r of Some w \<Rightarrow> Some (r, st1) | None \<Rightarrow> find_path_loop N T ops pick m0 h0 attempts maxdepth (k + 1) st1)"
    using Suc.hyps(2) a by (subst find_path_loop.simps) (auto simp: Let_def split: option.splits)
  show ?case
  proof (cases r)
    case None
    then show ?thesis using Suc.hyps(1) [of "k + 1" st1] Suc.hyps(2) Suc.prems(3) s loop by simp
  next
    case (Some w)
    then show ?thesis using s loop by simp
  qed
qed

text \<open>Without a bound on the attempts the loop need not end, but what it returns is still a path.\<close>

lemma find_path_loop_sound:
  assumes pick: "chooser_contract pick" and m0: "reach_vec m0" "h0 = marking_hash H (Card N PL) (marking_of m0)"
    and run: "find_path_loop N T ops pick m0 h0 attempts maxdepth k st = Some (r, st')"
    and st: "pstart (fst (snd st))" "finv (fst (snd (snd st)))"
  shows "\<forall>w. r = Some w \<longrightarrow> path_ok m0 st' w"
proof -
  let ?ok = "\<lambda>N' T' ops' pick' m' h' maxdepth' st y. N' = N \<longrightarrow> T' = T \<longrightarrow> ops' = ops \<longrightarrow> pick' = pick \<longrightarrow> m' = m0 \<longrightarrow>
    h' = h0 \<longrightarrow> maxdepth' = maxdepth \<longrightarrow> pstart (fst (snd st)) \<longrightarrow> finv (fst (snd (snd st))) \<longrightarrow>
    (\<forall>w. fst y = Some w \<longrightarrow> path_ok m0 (snd y) w)"
  have "?ok N T ops pick m0 h0 maxdepth st (r, st')"
  proof (rule find_path_loop.raw_induct
      [where P = "\<lambda>N' T' ops' pick' m' h' attempts' maxdepth' k st y. ?ok N' T' ops' pick' m' h' maxdepth' st y", OF _ run],
      goal_cases)
    case (1 loop N' T' ops' pick' m' h' attempts' maxdepth' k st y)
    show ?case
    proof (intro impI)
      assume eqs: "N' = N" "T' = T" "ops' = ops" "pick' = pick" "m' = m0" "h' = h0" "maxdepth' = maxdepth"
        and st: "pstart (fst (snd st))" "finv (fst (snd (snd st)))"
      obtain r1 st1 where a: "attempt N T ops pick m0 h0 maxdepth st = (r1, st1)" by (meson surj_pair)
      note s = attempt_sound [OF pick m0 st a]
      show "\<forall>w. fst y = Some w \<longrightarrow> path_ok m0 (snd y) w"
      proof (cases "attempts' = 0 \<or> k < attempts'")
        case False
        then show ?thesis using 1(2) by auto
      next
        case True
        show ?thesis
        proof (cases r1)
          case (Some w)
          then show ?thesis using 1(2) True a eqs s by (auto simp: Let_def)
        next
          case None
          then have "loop N' T' ops' pick' m' h' attempts' maxdepth' (k + 1) st1 = Some y"
            using 1(2) True a eqs by (simp add: Let_def)
          from 1(1) [OF this] show ?thesis using eqs s None by simp
        qed
      qed
    qed
  qed
  then show ?thesis using st by simp
qed

lemma find_path_correct:
  assumes pick: "chooser_contract pick" and m0: "reach_vec m0" "h0 = marking_hash H (Card N PL) (marking_of m0)"
    and "pstart p" "finv f" "0 < attempts"
    and Phi: "\<And>m. reach_vec m \<Longrightarrow> phi m \<longleftrightarrow> Phi (marking_of m)"
  shows "\<exists>r st. find_path N T ops pick m0 h0 attempts maxdepth (ns, p, f, c, s) = Some (r, st) \<and>
    (\<forall>w. r = Some w \<longrightarrow> firing_sequence N (marking_of m0) w (marking_of (Current (fst st))) \<and>
       Phi (marking_of (Current (fst st))))"
  using find_path_loop_total [OF pick m0, of "(ns, p, f, c, s)" attempts maxdepth 0] assms(4-6) Phi
  unfolding find_path_def path_ok_def by fastforce

end

section \<open>depth\_first\<close>

text \<open>The depth first search needs a store as well.\<close>

locale search_contract =
  walk_contract N T H M0 ops pstart pinv phi finv flok +
  store_contract "searchAndInsert ops" sinv stored "hashed_state N H M0"
  for N :: net and T :: transition_data and H :: "hash_t list" and M0 :: marking
    and ops :: "('p, 's, 'f) search_ops"
    and pstart :: "'p \<Rightarrow> bool" and pinv :: "netstate \<Rightarrow> 'p \<Rightarrow> bool" and phi :: "capacity_t list \<Rightarrow> bool"
    and finv :: "'f \<Rightarrow> bool" and flok :: "capacity_t list \<Rightarrow> arrayindex_t set \<Rightarrow> bool"
    and sinv :: "'s \<Rightarrow> bool" and stored :: "'s \<Rightarrow> capacity_t list set"
begin

definition list_ok :: "netstate \<Rightarrow> arrayindex_t list \<Rightarrow> bool" where
  "list_ok ns l \<longleftrightarrow> flok (Current ns) (set l) \<and> (\<forall>t \<in> set l. t < Card N TR \<and> Enabled ns ! t)"

fun chain :: "netstate \<Rightarrow> frame list \<Rightarrow> netstate \<Rightarrow> bool" where
  "chain ns0 [] ns \<longleftrightarrow> ns = ns0"
| "chain ns0 ((ms, e) # fs) ns \<longleftrightarrow>
     good ms \<and> entry_current e < length (entry_fl e) \<and> list_ok ms (entry_fl e) \<and>
     ns = succ_state N T (entry_trans e) ms \<and> chain ns0 fs ms"

definition done_from :: "capacity_t list set \<Rightarrow> capacity_t list \<Rightarrow> arrayindex_t list \<Rightarrow> nat \<Rightarrow> bool" where
  "done_from S m l k \<longleftrightarrow> (\<forall>j. k \<le> j \<longrightarrow> j < length l \<longrightarrow> fire_vec T (l ! j) m \<in> S)"

definition frames_done :: "capacity_t list set \<Rightarrow> frame list \<Rightarrow> bool" where
  "frames_done S fs \<longleftrightarrow> (\<forall>(ms, e) \<in> set fs. Current ms \<in> S \<and> done_from S (Current ms) (entry_fl e) (entry_current e))"

definition closed_except :: "capacity_t list set \<Rightarrow> capacity_t list set \<Rightarrow> bool" where
  "closed_except G S \<longleftrightarrow> (\<forall>m \<in> S - G. \<exists>F. flok m F \<and> (\<forall>t \<in> F. fire_vec T t m \<in> S))"

definition store_fine :: "netstate \<Rightarrow> capacity_t list set \<Rightarrow> bool" where
  "store_fine ns0 S \<longleftrightarrow> Current ns0 \<in> S \<and> (\<forall>m \<in> S. reach_vec m \<and> \<not> phi m)"

definition gray :: "netstate \<Rightarrow> frame list \<Rightarrow> capacity_t list set" where
  "gray ns fs = insert (Current ns) ((Current \<circ> fst) ` set fs)"

text \<open>The loop invariant, as a conjunction of independent parts.\<close>

definition objects_ok :: "('p, 's, 'f) search_state \<Rightarrow> bool" where
  "objects_ok s \<longleftrightarrow> good (cur_ns s) \<and> sinv (store_data s) \<and> pinv (cur_ns s) (prop_data s) \<and> finv (fl_data s)"

definition df_inv :: "netstate \<Rightarrow> frame list \<Rightarrow> ('p, 's, 'f) search_state \<Rightarrow> bool" where
  "df_inv ns0 fs s \<longleftrightarrow>
     represents (prop_stack s) (map snd fs) \<and> chain ns0 fs (cur_ns s) \<and> objects_ok s \<and>
     currentEntry s \<le> length (currentFirelist s) \<and> list_ok (cur_ns s) (currentFirelist s) \<and>
     done_from (stored (store_data s)) (Current (cur_ns s)) (currentFirelist s) (currentEntry s) \<and>
     Current (cur_ns s) \<in> stored (store_data s) \<and>
     frames_done (stored (store_data s)) fs \<and> store_fine ns0 (stored (store_data s)) \<and>
     closed_except (gray (cur_ns s) fs) (stored (store_data s))"

lemma done_from_mono: "done_from S m l k \<Longrightarrow> S \<subseteq> S' \<Longrightarrow> done_from S' m l k"
  by (auto simp: done_from_def)

lemma frames_done_mono: "frames_done S fs \<Longrightarrow> S \<subseteq> S' \<Longrightarrow> frames_done S' fs"
  unfolding frames_done_def using done_from_mono by blast

lemma done_from_pred:
  "done_from S m l (Suc e) \<Longrightarrow> fire_vec T (l ! e) m \<in> S \<Longrightarrow> done_from S m l e"
  unfolding done_from_def by (metis Suc_leI le_neq_implies_less)

lemma done_from_length [simp]: "done_from S m l (length l)"
  by (simp add: done_from_def)

lemma list_ok_nth: "list_ok ns l \<Longrightarrow> k < length l \<Longrightarrow> l ! k < Card N TR \<and> Enabled ns ! (l ! k)"
  using nth_mem [of k l] by (auto simp: list_ok_def simp del: nth_mem)

lemma closed_except_insert:
  assumes "closed_except G S"
  shows "closed_except (insert m G) (insert m S)"
  using assms unfolding closed_except_def by blast

text \<open>A state whose whole fire list is done needs no exception any more.\<close>

lemma closed_except_done:
  assumes "list_ok ns l" "done_from S (Current ns) l 0" "closed_except (insert (Current ns) G) S"
  shows "closed_except G S"
proof -
  have "fire_vec T t (Current ns) \<in> S" if t: "t \<in> set l" for t
    using assms(2) t by (auto simp: done_from_def in_set_conv_nth)
  moreover have "flok (Current ns) (set l)" using assms(1) by (simp add: list_ok_def)
  ultimately show ?thesis using assms(3) unfolding closed_except_def by blast
qed

lemma df_inv_done:
  assumes "df_inv ns0 fs s" "currentEntry s = 0"
  shows "closed_except ((Current \<circ> fst) ` set fs) (stored (store_data s))"
proof (rule closed_except_done)
  show "list_ok (cur_ns s) (currentFirelist s)" using assms(1) unfolding df_inv_def by blast
  show "done_from (stored (store_data s)) (Current (cur_ns s)) (currentFirelist s) 0"
    using assms unfolding df_inv_def by simp
  show "closed_except (insert (Current (cur_ns s)) ((Current \<circ> fst) ` set fs)) (stored (store_data s))"
    using assms(1) unfolding df_inv_def gray_def by blast
qed

lemma chain_path:
  "chain ns0 fs ns \<Longrightarrow> good ns0 \<Longrightarrow>
   firing_sequence N (marking_of (Current ns0)) (rev (map (entry_trans \<circ> snd) fs)) (marking_of (Current ns))"
proof (induction fs arbitrary: ns)
  case (Cons f fs)
  obtain ms e where f: "f = (ms, e)" by (cases f)
  have c: "good ms" "entry_current e < length (entry_fl e)" "list_ok ms (entry_fl e)"
    "ns = succ_state N T (entry_trans e) ms" "chain ns0 fs ms" using Cons.prems(1) f by auto
  have t: "entry_trans e < Card N TR" "Enabled ms ! entry_trans e"
    using list_ok_nth [OF c(3,2)] by (simp_all add: entry_trans_def)
  have "marking_of (Current ns) = fire_at N (entry_trans e) (marking_of (Current ms))"
    using marking_succ [OF c(1) t] c(4) by (simp add: Current_succ_state)
  then show ?case
    using Cons.IH [OF c(5) Cons.prems(2)] t good_enabled [OF c(1) t(1)] f
    by (auto simp: firing_sequence_append)
qed simp

section \<open>One iteration\<close>

lemma forward_fires:
  assumes inv: "df_inv ns0 fs s" and pos: "0 < currentEntry s"
  shows "currentFirelist s ! (currentEntry s - 1) < Card N TR"
    "Enabled (cur_ns s) ! (currentFirelist s ! (currentEntry s - 1))"
  using list_ok_nth [of "cur_ns s" "currentFirelist s" "currentEntry s - 1"] inv pos
  by (auto simp: df_inv_def)

text \<open>The successor is already stored: only the index moves.\<close>

lemma forward_found:
  assumes inv: "df_inv ns0 fs s" and pos: "0 < currentEntry s"
    and t: "t = currentFirelist s ! (currentEntry s - 1)"
    and sai: "searchAndInsert ops (fire T t (cur_ns s)) (store_data s) = (True, st)"
  shows "df_step N T ops s = Some (None, s\<lparr>store_data := st, currentEntry := currentEntry s - 1\<rparr>)"
    "df_inv ns0 fs (s\<lparr>store_data := st, currentEntry := currentEntry s - 1\<rparr>)"
    "stored st = stored (store_data s)"
proof -
  have g: "good (cur_ns s)" and si: "sinv (store_data s)" using inv by (auto simp: df_inv_def objects_ok_def)
  have en: "t < Card N TR" "Enabled (cur_ns s) ! t" using forward_fires [OF inv pos] t by auto
  have st: "sinv st" "fire_vec T t (Current (cur_ns s)) \<in> stored (store_data s)"
    "stored st = insert (fire_vec T t (Current (cur_ns s))) (stored (store_data s))"
    using sai_correct [OF hashed_fire [OF g en] si sai] by (simp_all add: Current_fire)
  then show same: "stored st = stored (store_data s)" by auto
  show "df_step N T ops s = Some (None, s\<lparr>store_data := st, currentEntry := currentEntry s - 1\<rparr>)"
    unfolding df_step_def df_forward_def Let_def t [symmetric]
    using pos sai good_unfire [OF g, of t] by simp
  have "done_from (stored (store_data s)) (Current (cur_ns s)) (currentFirelist s) (currentEntry s - 1)"
    by (rule done_from_pred) (use inv pos st(2) t in \<open>simp_all add: df_inv_def\<close>)
  then show "df_inv ns0 fs (s\<lparr>store_data := st, currentEntry := currentEntry s - 1\<rparr>)"
    using inv st(1) same by (auto simp: df_inv_def objects_ok_def)
qed

text \<open>The successor is new: it is checked, and if it does not satisfy the property it becomes the
  current state, with the old one on the stack.\<close>

definition pushed :: "('p, 's, 'f) search_state \<Rightarrow> stack_entry" where
  "pushed s = \<lparr>entry_fl = currentFirelist s, entry_current = currentEntry s - 1\<rparr>"

lemma forward_new:
  assumes inv: "df_inv ns0 fs s" and pos: "0 < currentEntry s"
    and t: "t = currentFirelist s ! (currentEntry s - 1)"
    and sai: "searchAndInsert ops (fire T t (cur_ns s)) (store_data s) = (False, st)"
  shows "\<exists>r s'. df_step N T ops s = Some (r, s') \<and>
    represents (prop_stack s') (map snd ((cur_ns s, pushed s) # fs)) \<and>
    chain ns0 ((cur_ns s, pushed s) # fs) (cur_ns s') \<and>
    stored (store_data s') = insert (Current (cur_ns s')) (stored (store_data s)) \<and>
    Current (cur_ns s') \<notin> stored (store_data s) \<and> reach_vec (Current (cur_ns s')) \<and>
    (r = Some True \<and> phi (Current (cur_ns s')) \<or>
     r = None \<and> df_inv ns0 ((cur_ns s, pushed s) # fs) s')"
proof -
  let ?ns = "cur_ns s" and ?ns2 = "succ_state N T t (cur_ns s)" and ?S = "stored (store_data s)"
  let ?fs = "(?ns, pushed s) # fs" and ?m = "fire_vec T t (Current (cur_ns s))"
  have g: "good ?ns" and si: "sinv (store_data s)" and pi: "pinv ?ns (prop_data s)" and fi: "finv (fl_data s)"
    using inv by (auto simp: df_inv_def objects_ok_def)
  have en: "t < Card N TR" "Enabled ?ns ! t" using forward_fires [OF inv pos] t by auto
  have st: "sinv st" "?m \<notin> ?S" "stored st = insert ?m ?S"
    using sai_correct [OF hashed_fire [OF g en] si sai] by (simp_all add: Current_fire)
  have g2: "good ?ns2" by (rule good_succ [OF g en])
  have cur2: "Current ?ns2 = ?m" by (rule Current_succ_state)
  obtain v p where chk: "checkProperty ops ?ns2 t (prop_data s) = (v, p)" by fastforce
  have v: "v = phi ?m" "pinv ?ns2 p" using chk_correct [OF g pi en refl g2 chk] cur2 by auto
  have tr: "entry_trans (pushed s) = t" by (simp add: entry_trans_def pushed_def t)
  have rep: "represents (push (pushed s) (prop_stack s)) (map snd ?fs)"
    using inv chunked.rep_push [of "prop_stack s" "map snd fs"] by (simp add: df_inv_def)
  have chain: "chain ns0 ?fs ?ns2"
    using inv pos g tr by (auto simp: df_inv_def pushed_def)
  show ?thesis
  proof (cases v)
    case True
    let ?s' = "s\<lparr>store_data := st, currentEntry := currentEntry s - 1, cur_ns := ?ns2, prop_data := p,
      prop_value := v, prop_stack := push (pushed s) (prop_stack s)\<rparr>"
    have "df_step N T ops s = Some (Some True, ?s')"
      unfolding df_step_def df_forward_def Let_def t [symmetric] succ_state_def [symmetric] pushed_def [symmetric]
      using pos sai chk True
      by simp
    then show ?thesis using rep chain st True v cur2 good_parts(3) [OF g2]
      by (intro exI [of _ "Some True"] exI [of _ ?s']) simp
  next
    case False
    obtain fl fd where get: "getFirelist ops ?ns2 p (fl_data s) = (fl, fd)" by fastforce
    let ?s' = "s\<lparr>store_data := st, currentEntry := length fl, cur_ns := ?ns2, prop_data := p, fl_data := fd,
      prop_value := v, prop_stack := push (pushed s) (prop_stack s), currentFirelist := fl\<rparr>"
    have step: "df_step N T ops s = Some (None, ?s')"
      unfolding df_step_def df_forward_def Let_def t [symmetric] succ_state_def [symmetric] pushed_def [symmetric]
      using pos sai chk False get
      by simp
    have fl: "finv fd" "list_ok ?ns2 fl" using get_correct [OF g2 v(2) _ fi get] v(1) False cur2 by (auto simp: list_ok_def)
    have "done_from (insert ?m ?S) (Current ?ns) (currentFirelist s) (currentEntry s - 1)"
      by (rule done_from_pred)
        (use inv pos t in \<open>auto simp: df_inv_def intro: done_from_mono\<close>)
    moreover have "frames_done (insert ?m ?S) fs"
      using inv by (auto simp: df_inv_def intro: frames_done_mono)
    ultimately have fd: "frames_done (insert ?m ?S) ?fs"
      using inv by (simp add: frames_done_def pushed_def df_inv_def)
    have "closed_except (insert ?m (gray ?ns fs)) (insert ?m ?S)"
      using inv by (intro closed_except_insert) (simp add: df_inv_def)
    then have cl: "closed_except (gray ?ns2 ?fs) (insert ?m ?S)"
      by (simp add: gray_def cur2)
    have sf: "store_fine ns0 (insert ?m ?S)"
      using inv False v(1) good_parts(3) [OF g2] cur2 by (simp add: df_inv_def store_fine_def)
    have "df_inv ns0 ?fs ?s'"
      using rep chain st fl v g2 cur2 fd cl sf by (simp add: df_inv_def objects_ok_def)
    then show ?thesis using step rep chain st cur2 good_parts(3) [OF g2]
      by (intro exI [of _ "None"] exI [of _ ?s']) simp
  qed
qed

text \<open>Backtracking.\<close>

lemma backward:
  assumes inv: "df_inv ns0 ((ms, e) # fs) s" and z: "currentEntry s = 0"
  shows "\<exists>s'. df_step N T ops s = Some (None, s') \<and> df_inv ns0 fs s' \<and>
    store_data s' = store_data s \<and> currentEntry s' = entry_current e"
proof -
  let ?S = "stored (store_data s)" and ?ns = "cur_ns s"
  have rep: "represents (prop_stack s) (e # map snd fs)"
    and ch: "good ms" "entry_current e < length (entry_fl e)" "list_ok ms (entry_fl e)"
      "?ns = succ_state N T (entry_trans e) ms" "chain ns0 fs ms"
    and ob: "good ?ns" "sinv (store_data s)" "pinv ?ns (prop_data s)" "finv (fl_data s)"
    using inv by (auto simp: df_inv_def objects_ok_def)
  have t: "entry_trans e < Card N TR" "Enabled ms ! entry_trans e"
    using list_ok_nth [OF ch(3,2)] by (simp_all add: entry_trans_def)
  have restored: "revertEnabled N T (entry_trans e) (backfire T (entry_trans e) ?ns) = ms"
    using good_back [OF ch(1) t] ch(4) by simp
  obtain v p where upd: "updateProperty ops ms (entry_trans e) (prop_data s) = (v, p)" by fastforce
  have p: "pinv ms p" using upd_correct [OF ch(1) t ch(4) ob(1) ob(3) upd] .
  let ?s' = "s\<lparr>currentEntry := entry_current e, currentFirelist := entry_fl e,
    prop_stack := pop (prop_stack s), cur_ns := ms, prop_data := p, prop_value := v\<rparr>"
  have step: "df_step N T ops s = Some (None, ?s')"
    using z chunked.rep_top [OF rep] represents_StackPointer [OF rep] restored upd
    by (simp add: df_step_def df_backward_def Let_def entry_trans_def)
  have cl: "closed_except (gray ms fs) ?S"
    using df_inv_done [OF inv z] by (simp add: gray_def)
  have "df_inv ns0 fs ?s'"
    using inv chunked.rep_pop [OF rep] ch ob p cl
    by (simp add: df_inv_def objects_ok_def frames_done_def)
  then show ?thesis using step by (intro exI [of _ ?s']) simp
qed

section \<open>The loop\<close>

lemma finite_reach: "finite {m. reach_vec m}"
proof (rule finite_subset)
  show "{m. reach_vec m} \<subseteq> {m. set m \<subseteq> UNIV \<and> length m = Card N PL}" by (auto simp: reachable_vec_def)
  show "finite {m :: capacity_t list. set m \<subseteq> UNIV \<and> length m = Card N PL}"
    by (rule finite_lists_length_eq) simp
qed

definition outcome :: "netstate \<Rightarrow> bool \<Rightarrow> ('p, 's, 'f) search_state \<Rightarrow> bool" where
  "outcome ns0 b s \<longleftrightarrow>
     (if b then (\<exists>fs. represents (prop_stack s) (map snd fs) \<and> chain ns0 fs (cur_ns s)) \<and> phi (Current (cur_ns s))
      else store_fine ns0 (stored (store_data s)) \<and> closed_except {} (stored (store_data s)))"

definition open_states :: "('p, 's, 'f) search_state \<Rightarrow> nat" where
  "open_states s = card ({m. reach_vec m} - stored (store_data s))"

lemma df_loop_total:
  assumes "df_inv ns0 fs s"
  shows "\<exists>b s'. df_loop N T ops s = Some (b, s') \<and> outcome ns0 b s'"
  using assms
proof (induction "(open_states s, currentEntry s + stack_load fs)" arbitrary: s fs rule: wf_induct_rule [OF wf_lex_prod [OF wf_less_than wf_less_than]])
  case (1 s fs)
  note IH = 1(1)
  have go: "\<exists>b s'. df_loop N T ops s = Some (b, s') \<and> outcome ns0 b s'"
    if "df_step N T ops s = Some (None, s1)" "df_inv ns0 fs1 s1"
      "open_states s1 < open_states s \<or> open_states s1 = open_states s \<and>
        currentEntry s1 + stack_load fs1 < currentEntry s + stack_load fs" for s1 fs1
    using IH [OF _ that(2)] that(1,3) by (subst df_loop.simps) auto
  show ?case
  proof (cases "0 < currentEntry s")
    case True
    let ?t = "currentFirelist s ! (currentEntry s - 1)"
    obtain b st where sai: "searchAndInsert ops (fire T ?t (cur_ns s)) (store_data s) = (b, st)" by fastforce
    show ?thesis
    proof (cases b)
      case b: True
      note f = forward_found [OF 1(2) True refl sai [unfolded b [THEN eqTrueI]]]
      show ?thesis by (rule go [OF f(1,2)]) (use True f(3) in \<open>auto simp: open_states_def\<close>)
    next
      case b: False
      obtain r s' where n: "df_step N T ops s = Some (r, s')"
        "represents (prop_stack s') (map snd ((cur_ns s, pushed s) # fs))"
        "chain ns0 ((cur_ns s, pushed s) # fs) (cur_ns s')"
        "stored (store_data s') = insert (Current (cur_ns s')) (stored (store_data s))"
        "Current (cur_ns s') \<notin> stored (store_data s)" "reach_vec (Current (cur_ns s'))"
        "r = Some True \<and> phi (Current (cur_ns s')) \<or> r = None \<and> df_inv ns0 ((cur_ns s, pushed s) # fs) s'"
        using forward_new [OF 1(2) True refl] sai b by auto
      show ?thesis
      proof (cases r)
        case None
        have "open_states s' < open_states s" unfolding open_states_def
          by (rule psubset_card_mono) (use finite_reach n(4-6) in auto)
        then show ?thesis using go n(1,7) None by auto
      next
        case (Some x)
        then have "df_loop N T ops s = Some (True, s')" using n(1,7) by (subst df_loop.simps) auto
        moreover have "outcome ns0 True s'"
          unfolding outcome_def using n(2,3,7) Some by (simp del: chain.simps list.map) blast
        ultimately show ?thesis by blast
      qed
    qed
  next
    case False
    show ?thesis
    proof (cases fs)
      case Nil
      have "StackPointer (prop_stack s) = 0" using 1(2) Nil represents_StackPointer [of "prop_stack s" "[]"] by (simp add: df_inv_def)
      then have "df_loop N T ops s = Some (False, s)"
        using False by (subst df_loop.simps) (simp add: df_step_def)
      moreover have "outcome ns0 False s"
      proof -
        have "closed_except {} (stored (store_data s))"
          using df_inv_done [OF 1(2)] Nil False by simp
        then show ?thesis using 1(2) by (simp add: outcome_def df_inv_def)
      qed
      ultimately show ?thesis by blast
    next
      case (Cons f fs')
      obtain ms e where f: "f = (ms, e)" by (cases f)
      obtain s' where b: "df_step N T ops s = Some (None, s')" "df_inv ns0 fs' s'"
        "store_data s' = store_data s" "currentEntry s' = entry_current e"
        using backward [of ns0 ms e fs' s] 1(2) Cons f False by auto
      show ?thesis
        by (rule go [OF b(1,2)]) (use b(3,4) Cons f in \<open>auto simp: open_states_def\<close>)
    qed
  qed
qed

text \<open>\<open>depth_first\<close> returns; on true, the stack holds a path to a marking that satisfies the
  property; on false, the stored markings form a set that contains the initial marking, is closed
  under the fire lists and has no marking that satisfies the property.\<close>

lemma depth_first_total:
  assumes "good ns" "pstart p" "sinv st" "stored st = {}" "finv f"
  shows "\<exists>b s. depth_first N T ops p ns st f = Some (b, s) \<and> outcome ns b s"
proof -
  note g = assms(1)
  obtain v p1 where init: "initProperty ops ns p = (v, p1)" by fastforce
  have v: "v = phi (Current ns)" "pinv ns p1" using init_correct [OF g assms(2) init] by auto
  show ?thesis
  proof (cases v)
    case True
    have "outcome ns True \<lparr>cur_ns = ns, prop_data = p1, prop_value = v, prop_stack = empty_stack,
        store_data = st, fl_data = f, currentFirelist = [], currentEntry = 0\<rparr>"
      unfolding outcome_def using True v represents_empty by (simp, intro exI [of _ "[]"], simp)
    then show ?thesis using init True by (auto simp: depth_first_def)
  next
    case False
    obtain b st1 where sai: "searchAndInsert ops ns st = (b, st1)" by fastforce
    obtain fl fd where get: "getFirelist ops ns p1 f = (fl, fd)" by fastforce
    have h: "hashed ns" using g by (simp add: good_state_def)
    have st1: "sinv st1" "stored st1 = {Current ns}" using sai_correct [OF h assms(3) sai] assms(4) by auto
    have fl: "finv fd" "list_ok ns fl" using get_correct [OF g v(2) _ assms(5) get] v(1) False by (auto simp: list_ok_def)
    let ?s = "\<lparr>cur_ns = ns, prop_data = p1, prop_value = v, prop_stack = empty_stack,
      store_data = st1, fl_data = fd, currentFirelist = fl, currentEntry = length fl\<rparr>"
    have "df_inv ns [] ?s"
      using g st1 fl v False represents_empty good_parts(3) [OF g]
      by (simp add: df_inv_def objects_ok_def frames_done_def store_fine_def closed_except_def gray_def)
    then show ?thesis
      using df_loop_total init False sai get by (simp add: depth_first_def)
  qed
qed

lemma outcome_true:
  assumes "outcome ns True s" "good ns"
  shows "\<exists>ts. property_path (prop_stack s) = Some ts \<and>
    firing_sequence N (marking_of (Current ns)) ts (marking_of (Current (cur_ns s))) \<and> phi (Current (cur_ns s))"
proof -
  obtain fs where fs: "represents (prop_stack s) (map snd fs)" "chain ns fs (cur_ns s)" "phi (Current (cur_ns s))"
    using assms(1) by (auto simp: outcome_def)
  show ?thesis
    using property_path_represents [OF fs(1)] chain_path [OF fs(2) assms(2)] fs(3) by (simp add: map_map)
qed

text \<open>With a fire list that preserves the property, false means that no reachable marking satisfies it.\<close>

lemma outcome_false:
  assumes "outcome ns False s" "marking_of (Current ns) = M0"
    and pres: "preserving N M0 phi flok Phi" and Phi: "\<And>m. reach_vec m \<Longrightarrow> phi m \<longleftrightarrow> Phi (marking_of m)"
    and path: "firing_sequence N M0 w M'"
  shows "\<not> Phi M'"
proof -
  let ?S = "stored (store_data s)"
  have S: "Current ns \<in> ?S" "\<And>m. m \<in> ?S \<Longrightarrow> reach_vec m \<and> \<not> phi m"
    "\<And>m. m \<in> ?S \<Longrightarrow> \<exists>F. flok m F \<and> (\<forall>t \<in> F. fire_vec T t m \<in> ?S)"
    using assms(1) by (auto simp: outcome_def store_fine_def closed_except_def)
  have "\<not> Phi M'" if "m \<in> ?S" "firing_sequence N (marking_of m) w M'" for m
    using that
  proof (induction w arbitrary: m M' rule: length_induct)
    case (1 w)
    obtain F where F: "flok m F" "\<And>t. t \<in> F \<Longrightarrow> fire_vec T t m \<in> ?S" using S(3) [OF 1(2)] by blast
    have r: "reach_vec m" "\<not> phi m" using S(2) [OF 1(2)] by auto
    show ?case
    proof
      assume "Phi M'"
      then obtain t v M'' where t: "t \<in> F" "t < Card N TR" "enabled_at N (marking_of m) t" "length v < length w"
        "firing_sequence N (fire_at N t (marking_of m)) v M''" "Phi M''"
        using pres r F(1) 1(3) unfolding preserving_def by blast
      then show False
        using 1(1) [rule_format, OF t(4) F(2) [OF t(1)]] marking_fire_vec [OF r(1) t(2,3)] by simp
    qed
  qed
  then show ?thesis using S(1) assms(2) path by blast
qed

text \<open>The search decides reachability of the property when the fire list preserves it.\<close>

lemma depth_first_decides:
  assumes g: "good ns" "marking_of (Current ns) = M0"
    and "pstart p" "sinv st" "stored st = {}" "finv f"
    and pres: "preserving N M0 phi flok Phi"
    and Phi: "\<And>m. reach_vec m \<Longrightarrow> phi m \<longleftrightarrow> Phi (marking_of m)"
  shows "\<exists>b s. depth_first N T ops p ns st f = Some (b, s) \<and>
    (b \<longleftrightarrow> (\<exists>M. net_reach N M0 M \<and> Phi M)) \<and>
    (b \<longrightarrow> (\<exists>ts. property_path (prop_stack s) = Some ts \<and>
       firing_sequence N M0 ts (marking_of (Current (cur_ns s))) \<and> Phi (marking_of (Current (cur_ns s)))))"
proof -
  obtain b s where r: "depth_first N T ops p ns st f = Some (b, s)" "outcome ns b s"
    using depth_first_total [OF g(1) assms(3-6)] by blast
  show ?thesis
  proof (cases b)
    case True
    obtain ts where ts: "property_path (prop_stack s) = Some ts"
      "firing_sequence N M0 ts (marking_of (Current (cur_ns s)))" "phi (Current (cur_ns s))"
      using outcome_true [of ns s] r(2) True g by auto
    have reach: "net_reach N M0 (marking_of (Current (cur_ns s)))" by (rule firing_sequence_reach [OF ts(2)])
    obtain fs where "chain ns fs (cur_ns s)" using r(2) True by (auto simp: outcome_def)
    then have "length (Current (cur_ns s)) = Card N PL"
    proof (cases fs)
      case Nil
      then show ?thesis using \<open>chain ns fs (cur_ns s)\<close> good_parts(3) [OF g(1)] by (simp add: reachable_vec_def)
    next
      case (Cons f fs')
      obtain ms e where f: "f = (ms, e)" by (cases f)
      have c: "good ms" "entry_current e < length (entry_fl e)" "list_ok ms (entry_fl e)"
        "cur_ns s = succ_state N T (entry_trans e) ms" using \<open>chain ns fs (cur_ns s)\<close> Cons f by auto
      have "good (cur_ns s)"
        using good_succ [OF c(1)] list_ok_nth [OF c(3,2)] c(4) by (simp add: entry_trans_def)
      then show ?thesis using good_parts(3) by (simp add: reachable_vec_def)
    qed
    then have "Phi (marking_of (Current (cur_ns s)))" using Phi ts(3) reach by (simp add: reachable_vec_def)
    then show ?thesis using r(1) True ts reach by blast
  next
    case False
    have "\<not> Phi M" if M: "net_reach N M0 M" for M
    proof -
      obtain w where "firing_sequence N M0 w M" using reach_firing_sequence [OF M] by blast
      then show ?thesis using outcome_false [OF _ g(2) pres Phi] r(2) False by simp
    qed
    then show ?thesis using r(1) False by blast
  qed
qed

end

end
