(* ===== verification/Stores.thy ===== *)
theory Stores
  imports Search_Contracts "HOL-Library.List_Lexorder"
begin

text \<open>
  \<open>src/Stores\<close>: the copying encoders, the vector store \<open>VSTLStore\<close>, the bucket wrapper
  \<open>HashingWrapperStore\<close> and \<open>PluginStore\<close>, which puts an encoder and a vector store together.  They
  are shown to meet the store contract of the searches.  The last section models the locking
  protocol of \<open>VSTLStore\<close> for several threads.
\<close>

section \<open>Encoders that copy\<close>

definition VECTOR_WIDTH :: nat where
  "VECTOR_WIDTH = 32"

text \<open>An encoder returns the input vector and its length in bits.  \<open>SIZEOF_CAPACITY_T\<close> equals
  \<open>SIZEOF_VECTORDATA_T\<close>, so both encoders hand out the marking itself.\<close>

definition FullCopyEncoder_encodeNetState :: "net \<Rightarrow> netstate \<Rightarrow> vectordata_t list \<times> nat" where
  "FullCopyEncoder_encodeNetState N ns = (Current ns, Card N PL * VECTOR_WIDTH)"

definition FullCopyEncoder_decodeNetState :: "net \<Rightarrow> vectordata_t list \<Rightarrow> netstate \<Rightarrow> netstate" where
  "FullCopyEncoder_decodeNetState N d ns = ns\<lparr>Current := take (Card N PL) d @ drop (Card N PL) (Current ns)\<rparr>"

definition CopyEncoder_encodeNetState :: "nat \<Rightarrow> netstate \<Rightarrow> vectordata_t list \<times> nat" where
  "CopyEncoder_encodeNetState CardSignificant ns = (Current ns, CardSignificant * VECTOR_WIDTH)"

section \<open>VSTLStore\<close>

definition vector_length :: "nat \<Rightarrow> nat" where
  "vector_length bitlen = (bitlen + (VECTOR_WIDTH - 1)) div VECTOR_WIDTH"

text \<open>The count of the two shifts that clear the unused bits of the last word, in the unsigned 32 bit
  arithmetic of \<open>bitlen -= vectorLength * VECTOR_WIDTH\<close> and \<open>VECTOR_WIDTH - bitlen\<close>.\<close>

definition remaining_bits :: "nat \<Rightarrow> 32 word" where
  "remaining_bits bitlen = of_nat bitlen - of_nat (vector_length bitlen) * of_nat VECTOR_WIDTH"

definition shift_count :: "nat \<Rightarrow> nat" where
  "shift_count bitlen = unat (of_nat VECTOR_WIDTH - remaining_bits bitlen)"

text \<open>A shift of a 32 bit word by 32 or more is undefined in C++; the x86 instructions the compilers
  emit use the count modulo 32, which is what the model does.\<close>

definition clear_unused :: "nat \<Rightarrow> vectordata_t \<Rightarrow> vectordata_t" where
  "clear_unused bitlen v = push_bit (shift_count bitlen mod 32) (drop_bit (shift_count bitlen mod 32) v)"

definition VSTL_input :: "vectordata_t list \<Rightarrow> nat \<Rightarrow> vectordata_t list" where
  "VSTL_input input bitlen =
     (let ci = take (vector_length bitlen) input
      in if remaining_bits bitlen = 0 then ci
         else ci[vector_length bitlen - 1 := clear_unused bitlen (ci ! (vector_length bitlen - 1))])"

text \<open>Single threaded mode; the \<open>std::set\<close> is a set.\<close>

definition VSTL_searchAndInsert ::
  "vectordata_t list \<Rightarrow> nat \<Rightarrow> bool \<Rightarrow> vectordata_t list set \<Rightarrow> bool \<times> vectordata_t list set" where
  "VSTL_searchAndInsert input bitlen noinsert st =
     (let ci = VSTL_input input bitlen
      in if noinsert then (ci \<in> st, st) else (ci \<in> st, insert ci st))"

definition VSTL_popVector :: "vectordata_t list set \<Rightarrow> vectordata_t list option \<times> vectordata_t list set" where
  "VSTL_popVector st = (if st = {} then (None, st) else (Some (Min st), st - {Min st}))"

definition VSTL_empty :: "vectordata_t list set \<Rightarrow> bool" where
  "VSTL_empty st \<longleftrightarrow> st = {}"

section \<open>HashingWrapperStore\<close>

definition Hashing_searchAndInsert ::
  "(vectordata_t list \<Rightarrow> nat \<Rightarrow> bool \<Rightarrow> 'b \<Rightarrow> bool \<times> 'b) \<Rightarrow>
   vectordata_t list \<Rightarrow> nat \<Rightarrow> hash_t \<Rightarrow> bool \<Rightarrow> 'b list \<Rightarrow> bool \<times> 'b list" where
  "Hashing_searchAndInsert inner input bitlen hash noinsert buckets =
     (let (b, s) = inner input bitlen noinsert (buckets ! nat hash) in (b, buckets[nat hash := s]))"

text \<open>\<open>popVector\<close> goes round the buckets from the current one; \<open>fuel\<close> is the number of buckets not
  tried yet.\<close>

fun Hashing_pop_loop ::
  "('b \<Rightarrow> vectordata_t list option \<times> 'b) \<Rightarrow> nat \<Rightarrow> nat \<Rightarrow> 'b list \<Rightarrow> vectordata_t list option \<times> nat \<times> 'b list" where
  "Hashing_pop_loop inner 0 cur buckets = (None, cur, buckets)"
| "Hashing_pop_loop inner (Suc fuel) cur buckets =
     (case inner (buckets ! cur) of
        (Some v, s) \<Rightarrow> (Some v, cur, buckets[cur := s])
      | (None, s) \<Rightarrow> Hashing_pop_loop inner fuel ((cur + 1) mod length buckets) (buckets[cur := s]))"

definition Hashing_popVector ::
  "('b \<Rightarrow> vectordata_t list option \<times> 'b) \<Rightarrow> nat \<Rightarrow> 'b list \<Rightarrow> vectordata_t list option \<times> nat \<times> 'b list" where
  "Hashing_popVector inner cur buckets = Hashing_pop_loop inner (length buckets) cur buckets"

definition Hashing_empty :: "('b \<Rightarrow> bool) \<Rightarrow> 'b list \<Rightarrow> bool" where
  "Hashing_empty inner buckets \<longleftrightarrow> list_all inner buckets"

section \<open>PluginStore\<close>

text \<open>The store object counts its calls and the markings it added.  \<open>noinsert\<close> is ignored.\<close>

record 'v plugin_store =
  vectorStore :: 'v
  calls :: nat
  markings :: nat

definition PluginStore_searchAndInsert ::
  "(netstate \<Rightarrow> vectordata_t list \<times> nat) \<Rightarrow>
   (vectordata_t list \<Rightarrow> nat \<Rightarrow> hash_t \<Rightarrow> bool \<Rightarrow> 'v \<Rightarrow> bool \<times> 'v) \<Rightarrow>
   netstate \<Rightarrow> 'v plugin_store \<Rightarrow> bool \<times> 'v plugin_store" where
  "PluginStore_searchAndInsert encode search ns s =
     (let (input, bitlen) = encode ns;
          (ret, v) = search input bitlen (HashCurrent ns) False (vectorStore s)
      in (ret, s\<lparr>calls := calls s + 1, vectorStore := v,
                markings := (if ret then markings s else markings s + 1)\<rparr>))"

definition PluginStore_popState ::
  "('v \<Rightarrow> vectordata_t list option \<times> 'v) \<Rightarrow> (vectordata_t list \<Rightarrow> netstate \<Rightarrow> netstate) \<Rightarrow>
   netstate \<Rightarrow> 'v plugin_store \<Rightarrow> bool \<times> netstate \<times> 'v plugin_store" where
  "PluginStore_popState pop_vec decode ns s =
     (case pop_vec (vectorStore s) of
        (Some v, st) \<Rightarrow> (True, decode v ns, s\<lparr>vectorStore := st\<rparr>)
      | (None, st) \<Rightarrow> (False, ns, s\<lparr>vectorStore := st\<rparr>))"

definition empty_plugin :: "'v \<Rightarrow> 'v plugin_store" where
  "empty_plugin v = \<lparr>vectorStore = v, calls = 0, markings = 0\<rparr>"

section \<open>EmptyStore and CompareStore\<close>

definition EmptyStore_searchAndInsert :: "netstate \<Rightarrow> nat \<Rightarrow> bool \<times> nat" where
  "EmptyStore_searchAndInsert ns call_count = (False, call_count + 1)"

text \<open>\<open>None\<close> is the failed assertion.\<close>

definition CompareStore_searchAndInsert ::
  "(netstate \<Rightarrow> 'a \<Rightarrow> bool \<times> 'a) \<Rightarrow> (netstate \<Rightarrow> 'b \<Rightarrow> bool \<times> 'b) \<Rightarrow>
   netstate \<Rightarrow> 'a \<times> 'b \<Rightarrow> (bool \<times> 'a \<times> 'b) option" where
  "CompareStore_searchAndInsert correct test ns st =
     (let (r1, s1) = correct ns (fst st); (r2, s2) = test ns (snd st)
      in if r1 = r2 then Some (r1, s1, s2) else None)"

section \<open>The unused bits\<close>

lemma vector_length_mult [simp]: "vector_length (n * VECTOR_WIDTH) = n"
  by (simp add: vector_length_def VECTOR_WIDTH_def)

lemma remaining_bits_mult [simp]: "remaining_bits (n * VECTOR_WIDTH) = 0"
  by (simp add: remaining_bits_def)

lemma VSTL_input_full [simp]: "length v = n \<Longrightarrow> VSTL_input v (n * VECTOR_WIDTH) = v"
  by (simp add: VSTL_input_def)

text \<open>\<open>u\<close> is the number of unused bits.\<close>

lemma unused_bits:
  assumes "bitlen mod 32 \<noteq> 0"
  shows "\<exists>u. 0 < u \<and> u < 32 \<and> bitlen + u = vector_length bitlen * 32 \<and> shift_count bitlen = 32 + u"
proof -
  obtain q r where qr: "bitlen = 32 * q + r" "r < 32" "r \<noteq> 0"
    using that [of "bitlen div 32" "bitlen mod 32"] assms by simp
  let ?u = "32 - r"
  have u: "0 < ?u" "?u < 32" using qr by auto
  have "bitlen + 31 = (r - 1) + (q + 1) * 32" using qr by simp
  also have "\<dots> div 32 = (r - 1) div 32 + (q + 1)" by simp
  also have "(r - 1) div 32 = 0" using qr by simp
  finally have vl: "vector_length bitlen = q + 1" by (simp add: vector_length_def VECTOR_WIDTH_def)
  have eq: "bitlen + ?u = vector_length bitlen * 32" using vl u by (simp add: qr(1))
  have "(of_nat VECTOR_WIDTH - remaining_bits bitlen :: 32 word) =
      of_nat 32 + (of_nat (vector_length bitlen * 32) - of_nat bitlen)"
    by (simp add: remaining_bits_def VECTOR_WIDTH_def)
  also have "\<dots> = of_nat (32 + ?u)" by (subst eq [symmetric]) simp
  finally have "shift_count bitlen = unat (of_nat (32 + ?u) :: 32 word)" by (simp only: shift_count_def)
  also have "\<dots> = 32 + ?u"
    using u by (subst unsigned_of_nat) (simp add: take_bit_nat_eq_self)
  finally have "shift_count bitlen = 32 + ?u" .
  then show ?thesis using u eq by blast
qed

section \<open>Store contract: full copies in a set\<close>

definition vstl_store :: "net \<Rightarrow> netstate \<Rightarrow> vectordata_t list set plugin_store \<Rightarrow>
    bool \<times> vectordata_t list set plugin_store" where
  "vstl_store N = PluginStore_searchAndInsert (FullCopyEncoder_encodeNetState N)
     (\<lambda>input bitlen hash. VSTL_searchAndInsert input bitlen)"

definition hashed_store :: "net \<Rightarrow> netstate \<Rightarrow> vectordata_t list set list plugin_store \<Rightarrow>
    bool \<times> vectordata_t list set list plugin_store" where
  "hashed_store N = PluginStore_searchAndInsert (FullCopyEncoder_encodeNetState N)
     (Hashing_searchAndInsert VSTL_searchAndInsert)"

lemma vstl_store_eq:
  assumes "length (Current ns) = Card N PL"
  shows "vstl_store N ns s = (Current ns \<in> vectorStore s,
    s\<lparr>calls := calls s + 1, vectorStore := insert (Current ns) (vectorStore s),
      markings := (if Current ns \<in> vectorStore s then markings s else markings s + 1)\<rparr>)"
  using assms
  by (simp add: vstl_store_def PluginStore_searchAndInsert_def FullCopyEncoder_encodeNetState_def
      VSTL_searchAndInsert_def)

interpretation full_vstl: store_contract "vstl_store N" "\<lambda>_. True" vectorStore "\<lambda>ns. length (Current ns) = Card N PL"
  for N :: net
  by unfold_locales (auto simp: vstl_store_eq)

text \<open>With buckets the hash value has to be determined by the marking.\<close>

definition buckets_ok :: "(capacity_t list \<Rightarrow> hash_t) \<Rightarrow> vectordata_t list set list plugin_store \<Rightarrow> bool" where
  "buckets_ok h s \<longleftrightarrow>
     length (vectorStore s) = nat SIZEOF_MARKINGTABLE \<and>
     (\<forall>i < length (vectorStore s). \<forall>m \<in> vectorStore s ! i. nat (h m) = i)"

definition bucket_contents :: "vectordata_t list set list plugin_store \<Rightarrow> vectordata_t list set" where
  "bucket_contents s = (\<Union>b \<in> set (vectorStore s). b)"

definition hash_dom :: "net \<Rightarrow> (capacity_t list \<Rightarrow> hash_t) \<Rightarrow> netstate \<Rightarrow> bool" where
  "hash_dom N h ns \<longleftrightarrow> length (Current ns) = Card N PL \<and> HashCurrent ns = h (Current ns) \<and>
     0 \<le> HashCurrent ns \<and> HashCurrent ns < SIZEOF_MARKINGTABLE"

lemma buckets_mem:
  assumes "buckets_ok h s" "nat (h m) < length (vectorStore s)"
  shows "m \<in> bucket_contents s \<longleftrightarrow> m \<in> vectorStore s ! nat (h m)"
proof
  assume "m \<in> bucket_contents s"
  then obtain b where b: "b \<in> set (vectorStore s)" "m \<in> b" by (auto simp: bucket_contents_def)
  then obtain i where i: "i < length (vectorStore s)" "vectorStore s ! i = b" by (auto simp: in_set_conv_nth)
  have "nat (h m) = i" using assms(1) i b(2) unfolding buckets_ok_def by auto
  then show "m \<in> vectorStore s ! nat (h m)" using i b by simp
next
  assume "m \<in> vectorStore s ! nat (h m)"
  then show "m \<in> bucket_contents s" using nth_mem [OF assms(2)] unfolding bucket_contents_def by blast
qed

lemma VSTL_searchAndInsert_full:
  "length v = n \<Longrightarrow> VSTL_searchAndInsert v (n * VECTOR_WIDTH) False st = (v \<in> st, insert v st)"
  by (simp add: VSTL_searchAndInsert_def)

lemma hashed_store_eq:
  assumes "length (Current ns) = Card N PL"
  shows "hashed_store N ns s =
    (let i = nat (HashCurrent ns); b = vectorStore s ! i in (Current ns \<in> b,
      s\<lparr>calls := calls s + 1, vectorStore := (vectorStore s)[i := insert (Current ns) b],
        markings := (if Current ns \<in> b then markings s else markings s + 1)\<rparr>))"
  unfolding hashed_store_def PluginStore_searchAndInsert_def FullCopyEncoder_encodeNetState_def
    Hashing_searchAndInsert_def Let_def case_prod_conv VSTL_searchAndInsert_full [OF assms] ..

lemma hashed_store_correct:
  assumes d: "hash_dom N h ns" and ok: "buckets_ok h s" and r: "hashed_store N ns s = (b, s')"
  shows "buckets_ok h s' \<and> (b \<longleftrightarrow> Current ns \<in> bucket_contents s) \<and>
    bucket_contents s' = insert (Current ns) (bucket_contents s)"
proof -
  let ?i = "nat (h (Current ns))" and ?bs = "vectorStore s"
  have i: "?i < length ?bs" using d ok by (auto simp: hash_dom_def buckets_ok_def)
  have b: "b = (Current ns \<in> ?bs ! ?i)" "vectorStore s' = ?bs[?i := insert (Current ns) (?bs ! ?i)]"
    using r hashed_store_eq [of ns N s] d by (auto simp: hash_dom_def Let_def)
  have "buckets_ok h s'" using ok i by (auto simp: buckets_ok_def b(2) nth_list_update)
  moreover have "bucket_contents s' = insert (Current ns) (bucket_contents s)"
  proof
    show "bucket_contents s' \<subseteq> insert (Current ns) (bucket_contents s)"
      using i by (auto simp: bucket_contents_def b(2) dest!: set_update_subset_insert [THEN subsetD])
    show "insert (Current ns) (bucket_contents s) \<subseteq> bucket_contents s'"
    proof
      fix m
      assume "m \<in> insert (Current ns) (bucket_contents s)"
      then obtain k where "k < length ?bs" "m \<in> vectorStore s' ! k"
        using i by (auto simp: bucket_contents_def b(2) in_set_conv_nth nth_list_update split: if_splits)
      then show "m \<in> bucket_contents s'" unfolding bucket_contents_def b(2)
        by (metis UN_I length_list_update nth_mem)
    qed
  qed
  ultimately show ?thesis using b(1) buckets_mem [OF ok i] by simp
qed

interpretation hashed_vstl: store_contract "hashed_store N" "buckets_ok h" bucket_contents "hash_dom N h"
  for N :: net and h :: "capacity_t list \<Rightarrow> hash_t"
  using hashed_store_correct by unfold_locales blast

section \<open>VSTLStore with several threads\<close>

text \<open>
  In multi threaded mode a call first looks the vector up under the read lock and, when it is not
  there, inserts it under the write lock; between the two any other thread may run.  The result
  is whether the vector was there at the second look.
\<close>

datatype vstl_thread =
    Lookup "vectordata_t list"
  | Insert "vectordata_t list"
  | Finished "vectordata_t list" bool

inductive vstl_step ::
  "vectordata_t list set \<times> vstl_thread list \<Rightarrow> vectordata_t list set \<times> vstl_thread list \<Rightarrow> bool" where
  lookup_found: "i < length ths \<Longrightarrow> ths ! i = Lookup v \<Longrightarrow> v \<in> st \<Longrightarrow>
     vstl_step (st, ths) (st, ths[i := Finished v True])"
| lookup_new: "i < length ths \<Longrightarrow> ths ! i = Lookup v \<Longrightarrow> v \<notin> st \<Longrightarrow>
     vstl_step (st, ths) (st, ths[i := Insert v])"
| insert: "i < length ths \<Longrightarrow> ths ! i = Insert v \<Longrightarrow>
     vstl_step (st, ths) (insert v st, ths[i := Finished v (v \<in> st)])"

inductive vstl_steps ::
  "vectordata_t list set \<times> vstl_thread list \<Rightarrow> vectordata_t list set \<times> vstl_thread list \<Rightarrow> bool" for c where
  vstl_refl: "vstl_steps c c"
| vstl_more: "vstl_steps c d \<Longrightarrow> vstl_step d e \<Longrightarrow> vstl_steps c e"

inductive_cases vstl_stepE: "vstl_step (st, ths) d"

definition winners :: "vectordata_t list \<Rightarrow> vstl_thread list \<Rightarrow> nat" where
  "winners v ths = length (filter (\<lambda>th. th = Finished v False) ths)"

definition vstl_inv :: "vectordata_t list set \<Rightarrow> vectordata_t list set \<times> vstl_thread list \<Rightarrow> bool" where
  "vstl_inv S0 c \<longleftrightarrow>
     (\<forall>v. winners v (snd c) = (if v \<in> fst c \<and> v \<notin> S0 then 1 else 0)) \<and> S0 \<subseteq> fst c \<and>
     (\<forall>v b. Finished v b \<in> set (snd c) \<longrightarrow> v \<in> fst c)"

lemma winners_update:
  assumes "i < length ths" "ths ! i \<noteq> Finished v False"
  shows "winners v (ths[i := th]) = winners v ths + (if th = Finished v False then 1 else 0)"
  using assms unfolding winners_def
  by (induction ths arbitrary: i) (auto simp: nth_Cons split: nat.splits)

lemma vstl_inv_step: "vstl_step c d \<Longrightarrow> vstl_inv S0 c \<Longrightarrow> vstl_inv S0 d"
  by (induction rule: vstl_step.induct)
     (auto simp: vstl_inv_def winners_update dest!: set_update_subset_insert [THEN subsetD] split: if_splits)

lemma vstl_inv_steps:
  assumes "vstl_steps (S0, map Lookup vs) d"
  shows "vstl_inv S0 d"
  using assms
proof (induction rule: vstl_steps.induct)
  case vstl_refl
  have "winners v (map Lookup vs) = 0" for v by (induction vs) (auto simp: winners_def)
  then show ?case by (auto simp: vstl_inv_def)
next
  case (vstl_more d e)
  then show ?case using vstl_inv_step by blast
qed

fun thread_vector :: "vstl_thread \<Rightarrow> vectordata_t list" where
  "thread_vector (Lookup v) = v"
| "thread_vector (Insert v) = v"
| "thread_vector (Finished v b) = v"

definition all_finished :: "vstl_thread list \<Rightarrow> bool" where
  "all_finished ths \<longleftrightarrow> (\<forall>th \<in> set ths. \<exists>v b. th = Finished v b)"

lemma vstl_vectors_step:
  "vstl_step c d \<Longrightarrow> map thread_vector (snd d) = map thread_vector (snd c) \<and>
     fst d \<subseteq> fst c \<union> set (map thread_vector (snd c))"
proof (induction rule: vstl_step.induct)
  case (insert i ths v st)
  have "v \<in> thread_vector ` set ths" using nth_mem [OF insert(1)] insert(2) by force
  then show ?case using insert by (auto simp: map_update list_update_same_conv)
qed (auto simp: map_update list_update_same_conv)

lemma vstl_vectors:
  "vstl_steps (S0, map Lookup vs) d \<Longrightarrow> map thread_vector (snd d) = vs \<and> fst d \<subseteq> S0 \<union> set vs"
proof (induction rule: vstl_steps.induct)
  case vstl_refl
  show ?case by (simp add: comp_def)
next
  case (vstl_more d e)
  then show ?case using vstl_vectors_step [OF vstl_more(2)] by auto
qed

lemma vstl_all_finished:
  assumes "vstl_steps (S0, map Lookup vs) (S, ths)" "all_finished ths"
  shows "S = S0 \<union> set vs" "v \<in> set vs \<Longrightarrow> winners v ths = (if v \<in> S0 then 0 else 1)"
proof -
  have i: "vstl_inv S0 (S, ths)" by (rule vstl_inv_steps [OF assms(1)])
  have v: "map thread_vector ths = vs" "S \<subseteq> S0 \<union> set vs" using vstl_vectors [OF assms(1)] by auto
  have "u \<in> S" if u: "u \<in> set vs" for u
  proof -
    have "u \<in> thread_vector ` set ths" using u by (simp add: v(1) [symmetric])
    then obtain th where "th \<in> set ths" "thread_vector th = u" by auto
    then obtain b where "Finished u b \<in> set ths" using assms(2) by (auto simp: all_finished_def)
    then show ?thesis using i by (auto simp: vstl_inv_def)
  qed
  then show S: "S = S0 \<union> set vs" using v(2) i by (auto simp: vstl_inv_def)
  show "winners v ths = (if v \<in> S0 then 0 else 1)" if "v \<in> set vs"
    using i S that by (simp add: vstl_inv_def)
qed

end
