(* ===== verification/DeadlockSearch.thy ===== *)
theory DeadlockSearch
  imports DFS_Correct Stores SampleNet
begin

text \<open>
  The deadlock search as the code composes it (\<open>DeadlockExploration\<close>, the base class fire list, a
  \<open>PluginStore\<close> of full copies in a \<open>VSTLStore\<close>, with or without buckets), and its correctness:
  \<open>depth_first\<close> decides whether a deadlock is reachable.
\<close>

section \<open>The property object and the fire list meet their contracts\<close>

definition dead_vec :: "net \<Rightarrow> capacity_t list \<Rightarrow> bool" where
  "dead_vec N m \<longleftrightarrow> (\<forall>t < Card N TR. \<not> has_tokens m (Arcs N TR PRE ! t))"

lemma enabled_ok_count: "enabled_ok N ns \<Longrightarrow> CardEnabled ns = 0 \<longleftrightarrow> dead_vec N (Current ns)"
  using count_true_pos [of "Enabled ns"]
  by (auto simp: enabled_ok_def count_ok_def flag_ok_def dead_vec_def)

lemma base_firelist_set: "set (base_firelist N ns) = {t. t < Card N TR \<and> Enabled ns ! t}"
  by (auto simp: base_firelist_def)

text \<open>The length of the list is the counter the code returns.\<close>

lemma base_firelist_length:
  assumes "count_ok N ns"
  shows "length (base_firelist N ns) = CardEnabled ns"
proof -
  have "length (filter (\<lambda>t. bs ! t) [0..<length bs]) = count_true bs" for bs
  proof (induction bs rule: rev_induct)
    case (snoc b bs)
    have "filter (\<lambda>t. (bs @ [b]) ! t) [0..<length bs] = filter (\<lambda>t. bs ! t) [0..<length bs]"
      by (intro filter_cong) (auto simp: nth_append)
    then show ?case using snoc by (simp add: count_true_def)
  qed (simp add: count_true_def)
  from this [of "Enabled ns"] show ?thesis using assms by (simp add: base_firelist_def count_ok_def)
qed

definition base_get :: "net \<Rightarrow> netstate \<Rightarrow> 'p \<Rightarrow> unit \<Rightarrow> arrayindex_t list \<times> unit" where
  "base_get N ns p f = (base_firelist N ns, f)"

definition all_enabled :: "net \<Rightarrow> capacity_t list \<Rightarrow> arrayindex_t set \<Rightarrow> bool" where
  "all_enabled N m F \<longleftrightarrow> F = {t. t < Card N TR \<and> has_tokens m (Arcs N TR PRE ! t)}"

interpretation dead: property_contract N T deadlock_init deadlock_check deadlock_update
    "good_state N H M0" "\<lambda>_. True" "\<lambda>_ _. True" "dead_vec N" for N T H M0
  by unfold_locales (auto simp: deadlock_init_def deadlock_check_def good_state_def enabled_ok_count)

interpretation base_fl: firelist_contract N "base_get N" "good_state N H M0" pinv phi "\<lambda>_. True" "all_enabled N"
  for N H M0 pinv phi
  by unfold_locales (auto simp: base_get_def base_firelist_set all_enabled_def good_state_def enabled_ok_flag)

lemma hashed_state_dom:
  "hashed_state N H M0 ns \<Longrightarrow> hash_dom N (\<lambda>m. marking_hash H (Card N PL) (marking_of m)) ns"
  by (simp add: hashed_state_def hash_dom_def reachable_vec_def marking_hash_def SIZEOF_MARKINGTABLE_def)

interpretation hashed_reach: store_contract "hashed_store N"
    "buckets_ok (\<lambda>m. marking_hash H (Card N PL) (marking_of m))" bucket_contents "hashed_state N H M0"
  for N H M0
  using hashed_store_correct [OF hashed_state_dom] by unfold_locales blast

interpretation vstl_reach: store_contract "vstl_store N" "\<lambda>_. True" vectorStore "hashed_state N H M0"
  for N H M0
  by unfold_locales (auto simp: vstl_store_eq hashed_state_def reachable_vec_def)

section \<open>The composed searches\<close>

definition deadlock_ops ::
  "(netstate \<Rightarrow> 's \<Rightarrow> bool \<times> 's) \<Rightarrow> net \<Rightarrow> (unit, 's, unit) search_ops" where
  "deadlock_ops store N =
     \<lparr>initProperty = deadlock_init, checkProperty = deadlock_check, updateProperty = deadlock_update,
      searchAndInsert = store, getFirelist = base_get N\<rparr>"

lemma deadlock_ops_simps [simp]:
  "initProperty (deadlock_ops store N) = deadlock_init" "checkProperty (deadlock_ops store N) = deadlock_check"
  "updateProperty (deadlock_ops store N) = deadlock_update" "searchAndInsert (deadlock_ops store N) = store"
  "getFirelist (deadlock_ops store N) = base_get N"
  by (simp_all add: deadlock_ops_def)

sublocale net_setting \<subseteq> dl_walk: walk_contract N T H M0 "deadlock_ops store N"
    "\<lambda>_. True" "\<lambda>_ _. True" "dead_vec N" "\<lambda>_. True" "all_enabled N" for store
  by (rule walk_contract.intro [OF net_setting_axioms]; unfold deadlock_ops_simps) unfold_locales

sublocale net_setting \<subseteq> dl_set: search_contract N T H M0 "deadlock_ops (vstl_store N) N"
    "\<lambda>_. True" "\<lambda>_ _. True" "dead_vec N" "\<lambda>_. True" "all_enabled N" "\<lambda>_. True" vectorStore
  by (rule search_contract.intro [OF dl_walk.walk_contract_axioms]; unfold deadlock_ops_simps) unfold_locales

sublocale net_setting \<subseteq> dl_hash: search_contract N T H M0 "deadlock_ops (hashed_store N) N"
    "\<lambda>_. True" "\<lambda>_ _. True" "dead_vec N" "\<lambda>_. True" "all_enabled N"
    "buckets_ok (\<lambda>m. marking_hash H (Card N PL) (marking_of m))" bucket_contents
  by (rule search_contract.intro [OF dl_walk.walk_contract_axioms]; unfold deadlock_ops_simps) unfold_locales

section \<open>The instances decide and find deadlocks\<close>

definition dead_at :: "net \<Rightarrow> marking \<Rightarrow> bool" where
  "dead_at N M \<longleftrightarrow> (\<forall>t < Card N TR. \<not> enabled_at N M t)"

context net_setting
begin

lemma dead_vec_at: "reach_vec m \<Longrightarrow> dead_vec N m \<longleftrightarrow> dead_at N (marking_of m)"
  using has_tokens_enabled_at [OF wf, of _ m] by (auto simp: dead_vec_def dead_at_def reachable_vec_def)

lemma all_enabled_preserving:
  assumes "\<And>m. reach_vec m \<Longrightarrow> phi m \<longleftrightarrow> Phi (marking_of m)"
  shows "preserving N M0 phi (all_enabled N) Phi"
  unfolding preserving_def
proof (intro allI impI, elim conjE)
  fix m F w M'
  assume m: "reach_vec m" "\<not> phi m" "all_enabled N m F" "firing_sequence N (marking_of m) w M'" "Phi M'"
  show "\<exists>t \<in> F. \<exists>v M''. t < Card N TR \<and> enabled_at N (marking_of m) t \<and> length v < length w \<and>
     firing_sequence N (fire_at N t (marking_of m)) v M'' \<and> Phi M''"
  proof (cases w)
    case Nil
    then show ?thesis using m assms by simp
  next
    case (Cons t v)
    then show ?thesis
      using m has_tokens_enabled_at [OF wf, of t m]
      by (intro bexI [of _ t] exI [of _ v]) (auto simp: all_enabled_def reachable_vec_def)
  qed
qed

lemmas set_decides = dl_set.depth_first_decides [OF _ _ _ _ _ _ all_enabled_preserving [of "dead_vec N" "dead_at N", OF dead_vec_at] dead_vec_at]
  and buckets_decide = dl_hash.depth_first_decides [OF _ _ _ _ _ _ all_enabled_preserving [of "dead_vec N" "dead_at N", OF dead_vec_at] dead_vec_at]
  and walk_find_path = dl_walk.find_path_correct [OF _ _ _ _ _ _ dead_vec_at]

end

end
