(* ===== verification/Choosers.thy ===== *)
theory Choosers
  imports Search_Contracts
begin

text \<open>
  \<open>src/Exploration/ChooseTransitionRandomly.cc\<close> and \<open>ChooseTransitionHashDriven.cc\<close>, the choosers of
  \<open>find_path\<close>.  The results of \<open>rand\<close> are a stream \<open>rnd\<close> read at a position; the floating point
  comparison of a random number with \<open>1 / (1 + table[h])\<close> is a parameter \<open>accept\<close>.
\<close>

definition choose_randomly ::
  "(nat \<Rightarrow> nat) \<Rightarrow> netstate \<Rightarrow> arrayindex_t list \<Rightarrow> nat \<Rightarrow> arrayindex_t \<times> nat" where
  "choose_randomly rnd ns fl pos = (fl ! (rnd pos mod length fl), pos + 1)"

definition bucket_of :: "hash_t \<Rightarrow> hash_t \<Rightarrow> nat" where
  "bucket_of h d =
     (let k = (h + d) smod SIZEOF_MARKINGTABLE in nat (if k < 0 then k + SIZEOF_MARKINGTABLE else k))"

text \<open>Phase one; \<open>i\<close> counts down.  The second component is the position in the random stream.\<close>

fun choose_phase_one ::
  "(nat \<Rightarrow> 32 word \<Rightarrow> bool) \<Rightarrow> (nat \<Rightarrow> nat) \<Rightarrow> transition_data \<Rightarrow> netstate \<Rightarrow> arrayindex_t list \<Rightarrow>
   32 word list \<Rightarrow> nat \<Rightarrow> nat \<Rightarrow> arrayindex_t option \<times> nat" where
  "choose_phase_one accept rnd T ns fl table 0 pos = (None, pos)"
| "choose_phase_one accept rnd T ns fl table (Suc i) pos =
     (if accept (rnd pos) (table ! bucket_of (HashCurrent ns) (DeltaHash T ! (fl ! i)))
      then (Some (fl ! i), pos + 1)
      else choose_phase_one accept rnd T ns fl table i (pos + 1))"

text \<open>\<open>hash_global\<close> is \<open>Marking::HashCurrent\<close>, the hash value the bookkeeping at the end uses.\<close>

definition choose_hash_driven ::
  "(nat \<Rightarrow> 32 word \<Rightarrow> bool) \<Rightarrow> (nat \<Rightarrow> nat) \<Rightarrow> transition_data \<Rightarrow> hash_t \<Rightarrow> netstate \<Rightarrow> arrayindex_t list \<Rightarrow>
   nat \<times> 32 word list \<Rightarrow> arrayindex_t \<times> nat \<times> 32 word list" where
  "choose_hash_driven accept rnd T hash_global ns fl st =
     (let (pos, table) = st;
          (phase1, pos1) = choose_phase_one accept rnd T ns fl table (length fl) pos;
          (chosen, pos2) = (case phase1 of Some t \<Rightarrow> (t, pos1)
                              | None \<Rightarrow> (fl ! (rnd pos1 mod length fl), pos1 + 1));
          h = bucket_of hash_global (DeltaHash T ! chosen)
      in (chosen, pos2, table[h := table ! h + 1]))"

lemma choose_phase_one_mem:
  "choose_phase_one accept rnd T ns fl table i pos = (Some t, pos') \<Longrightarrow> i \<le> length fl \<Longrightarrow> t \<in> set fl"
  by (induction i arbitrary: pos) (auto split: if_splits)

interpretation randomly: chooser_contract "choose_randomly rnd" for rnd
  by unfold_locales (auto simp: choose_randomly_def)

interpretation hash_driven: chooser_contract "choose_hash_driven accept rnd T hash_global"
  for accept rnd T hash_global
proof unfold_locales
  fix l :: "arrayindex_t list" and ns c t c'
  assume ne: "l \<noteq> []" and ch: "choose_hash_driven accept rnd T hash_global ns l c = (t, c')"
  obtain pos table where c: "c = (pos, table)" by fastforce
  obtain ph pos1 where ph: "choose_phase_one accept rnd T ns l table (length l) pos = (ph, pos1)" by fastforce
  show "t \<in> set l"
  proof (cases ph)
    case None
    then show ?thesis using ch ne c ph by (auto simp: choose_hash_driven_def Let_def)
  next
    case (Some u)
    then show ?thesis using ch c ph choose_phase_one_mem [of accept rnd T ns l table "length l" pos u pos1]
      by (auto simp: choose_hash_driven_def Let_def)
  qed
qed

end
