(* ===== verification/SearchProps.thy ===== *)
theory SearchProps
  imports DeadlockSearch Choosers
begin

text \<open>
  The properties of the searches, the stores and the search stack.
\<close>

text \<open>The ring net with its two reachable markings.\<close>

definition ring_hashes :: "hash_t list" where
  "ring_hashes = [1, 6]"

lemma ring_fire: "t < 2 \<Longrightarrow> enabled_at ring_net M t \<Longrightarrow> M 0 + M 1 = 1 \<Longrightarrow>
    fire_at ring_net t M 0 + fire_at ring_net t M 1 = 1"
  by (auto simp: less_two fire_at_def ring_weight enabled_at_def dest: spec [where x = 0] spec [where x = 1])

lemma ring_reach: "net_reach ring_net (marking_of [1, 0]) M \<Longrightarrow> M 0 + M 1 = 1"
proof (induction rule: net_reach.induct)
  case reach_refl
  then show ?case by (simp add: marking_of_def)
next
  case (reach_step M M')
  then show ?case using ring_fire by (auto elim!: net_stepE)
qed

lemma ring_ready: "search_ready ring_net ring_trans ring_hashes ring_state"
proof -
  have h: "deltahash_ok ring_hashes ring_net ring_trans"
    by (auto simp: deltahash_ok_def less_two ring_hashes_def ring_weight ring_trans_def lessThan_nat_numeral
        numeral_2_eq_2 lessThan_Suc)
  have "initial_state ring_net ring_hashes ring_state"
    using ring_enabled_ok
    by (simp add: initial_state_def good_state_def hashed_state_def reachable_vec_def net_reach.reach_refl
        ring_state_def marking_hash_def ring_hashes_def marking_of_def numeral_2_eq_2 lessThan_Suc SIZEOF_MARKINGTABLE_def)
  moreover have "M p < 2 ^ 32" if "net_reach ring_net (marking_of (Current ring_state)) M" "p < 2" for M p
    using ring_reach [of M] that by (auto simp: ring_state_def less_two)
  ultimately show ?thesis
    using ring_wf ring_deltas_ok ring_conflicts_ok h by (simp add: search_ready_def)
qed

text \<open>C2: the deadlock search with a set of full copies terminates and decides whether a deadlock is
  reachable; on true, the path it reports leads from the initial marking to a deadlock.\<close>

theorem depth_first_decides_deadlock:
  assumes "search_ready N T H ns"
  shows "\<exists>b s. depth_first N T (deadlock_ops (vstl_store N) N) () ns (empty_plugin {}) () = Some (b, s) \<and>
    (b \<longleftrightarrow> (\<exists>M. net_reach N (marking_of (Current ns)) M \<and> dead_at N M)) \<and>
    (b \<longrightarrow> (\<exists>ts. property_path (prop_stack s) = Some ts \<and>
       firing_sequence N (marking_of (Current ns)) ts (marking_of (Current (cur_ns s))) \<and>
       dead_at N (marking_of (Current (cur_ns s)))))"
  using net_setting.set_decides [OF search_ready_setting [OF assms] refl]
  by (simp add: empty_plugin_def)

theorem depth_first_decides_deadlock_witness:
  "\<exists>b s. depth_first ring_net ring_trans (deadlock_ops (vstl_store ring_net) ring_net) () ring_state
     (empty_plugin {}) () = Some (b, s)"
  using depth_first_decides_deadlock [OF ring_ready] by blast

text \<open>The same for the store with \<open>SIZEOF_MARKINGTABLE\<close> buckets, addressed by the hash value that
  firing and backfiring maintain.\<close>

theorem depth_first_buckets_decides_deadlock:
  assumes "search_ready N T H ns"
  shows "\<exists>b s. depth_first N T (deadlock_ops (hashed_store N) N) () ns
      (empty_plugin (replicate (nat SIZEOF_MARKINGTABLE) {})) () = Some (b, s) \<and>
    (b \<longleftrightarrow> (\<exists>M. net_reach N (marking_of (Current ns)) M \<and> dead_at N M)) \<and>
    (b \<longrightarrow> (\<exists>ts. property_path (prop_stack s) = Some ts \<and>
       firing_sequence N (marking_of (Current ns)) ts (marking_of (Current (cur_ns s))) \<and>
       dead_at N (marking_of (Current (cur_ns s)))))"
  by (rule net_setting.buckets_decide [OF search_ready_setting [OF assms] refl])
    (simp_all add: empty_plugin_def buckets_ok_def bucket_contents_def)

theorem depth_first_buckets_decides_deadlock_witness:
  "\<exists>b s. depth_first ring_net ring_trans (deadlock_ops (hashed_store ring_net) ring_net) () ring_state
     (empty_plugin (replicate (nat SIZEOF_MARKINGTABLE) {})) () = Some (b, s)"
  using depth_first_buckets_decides_deadlock [OF ring_ready] by blast



text \<open>C26: the chunked search stack refines a list: push, top and pop act on the first element, also
  across chunk borders, and the copy constructor copies every entry with the entries' own copy
  constructor.\<close>

theorem search_stack_refines_list:
  assumes "represents s xs"
  shows "represents (push e s) (e # xs) \<and> top (push e s) = Some e \<and> represents (pop (push e s)) xs \<and>
    represents (copy_stack f s) (map f xs) \<and> StackPointer s = length xs"
  by (intro conjI chunked.rep_push [OF assms] chunked.push_then_top [OF assms] chunked.push_then_pop [OF assms]
      represents_copy [OF assms] chunked.rep_depth [OF assms])

theorem search_stack_refines_list_witness:
  "top (push (5::nat) (fold push [0..<4096] empty_stack)) = Some 5"
  by (rule search_stack_refines_list [OF chunked.rep_fold_push, THEN conjunct2, THEN conjunct1])

text \<open>C27: however the look-ups and insertions of concurrent \<open>VSTLStore::searchAndInsert\<close> calls
  interleave, when all calls have returned the store holds exactly the old and the new vectors, and
  for every new vector exactly one of the calls with that vector reported it as new.\<close>

theorem vstl_concurrent_exactly_one_new:
  assumes "vstl_steps (S0, map Lookup vs) (S, ths)" "all_finished ths"
  shows "S = S0 \<union> set vs \<and> (\<forall>v \<in> set vs. winners v ths = (if v \<in> S0 then 0 else 1))"
  using vstl_all_finished [OF assms] by blast

lemma vstl_two_threads:
  "vstl_steps ({}, map Lookup [[7], [7]]) ({[7]}, [Finished [7] False, Finished [7] True])"
proof -
  let ?c0 = "({}, [Lookup [7], Lookup [7]]) :: vectordata_t list set \<times> vstl_thread list"
  have 1: "vstl_step ?c0 ({}, [Insert [7], Lookup [7]])"
    using vstl_step.lookup_new [of 0 "[Lookup [7], Lookup [7]]" "[7]" "{}"] by simp
  have 2: "vstl_step ({}, [Insert [7], Lookup [7]]) ({}, [Insert [7], Insert [7]])"
    using vstl_step.lookup_new [of 1 "[Insert [7], Lookup [7]]" "[7]" "{}"] by simp
  have 3: "vstl_step ({}, [Insert [7], Insert [7]]) ({[7]}, [Finished [7] False, Insert [7]])"
    using vstl_step.insert [of 0 "[Insert [7], Insert [7]]" "[7]" "{}"] by simp
  have 4: "vstl_step ({[7]}, [Finished [7] False, Insert [7]]) ({[7]}, [Finished [7] False, Finished [7] True])"
    using vstl_step.insert [of 1 "[Finished [7] False, Insert [7]]" "[7]" "{[7]}"] by simp
  have "vstl_steps ?c0 ({[7]}, [Finished [7] False, Finished [7] True])"
    using vstl_refl [THEN vstl_more, OF 1, THEN vstl_more, OF 2, THEN vstl_more, OF 3, THEN vstl_more, OF 4] .
  then show ?thesis by simp
qed

theorem vstl_concurrent_exactly_one_new_witness:
  "winners [7] [Finished [7] False, Finished [7] True] = 1"
proof -
  have "all_finished [Finished [7] False, Finished [7] True]" by (auto simp: all_finished_def)
  from vstl_concurrent_exactly_one_new [OF vstl_two_threads this] show ?thesis by simp
qed

text \<open>Whenever \<open>VSTLStore::searchAndInsert\<close> has unused bits to clear, the count of its two shifts is
  at least the width of the word (undefined in C++); with counts taken modulo 32 the shifts clear
  exactly the unused low bits.\<close>

theorem vstl_shift_out_of_range:
  assumes "bitlen mod 32 \<noteq> 0"
  shows "32 < shift_count bitlen \<and>
    (\<exists>u < 32. bitlen + u = 32 * vector_length bitlen \<and>
       clear_unused bitlen v = push_bit u (drop_bit u v))"
proof -
  obtain u where u: "0 < u" "u < 32" "bitlen + u = vector_length bitlen * 32" "shift_count bitlen = 32 + u"
    using unused_bits [OF assms] by blast
  then have "clear_unused bitlen v = push_bit u (drop_bit u v)" by (simp add: clear_unused_def)
  then show ?thesis using u by auto
qed

theorem vstl_shift_out_of_range_witness: "32 < shift_count 40"
  using vstl_shift_out_of_range [of 40] by simp

end
