(* ===== verification/Conflicts.thy ===== *)
theory Conflicts
  imports Preprocess
begin

text \<open>
  \<open>Net::preprocess_organizeConflictingTransitions\<close> of \<open>src/Net/Net.cc\<close>: the conflict sets of all
  transitions are computed together by a backtracking search over places.  A stack position holds
  the union of the post sets of the places chosen below it and the transitions that have all these
  places in their pre set and are not finished; equal sets share one array, found by a cache.  The
  pass for the forward and the pass for the backward sets differ in three arc lists only, which are
  parameters here: the places of a transition (\<open>pls\<close>), the transitions a place contributes (\<open>add\<close>)
  and the transitions that move up with a place (\<open>mv\<close>).
\<close>

section \<open>Sorted array operations\<close>

text \<open>\<open>std::set_union\<close> on two sorted ranges.\<close>

fun set_union :: "arrayindex_t list \<Rightarrow> arrayindex_t list \<Rightarrow> arrayindex_t list" where
  "set_union [] ys = ys"
| "set_union xs [] = xs"
| "set_union (x # xs) (y # ys) =
     (if x < y then x # set_union xs (y # ys)
      else if y < x then y # set_union (x # xs) ys
      else x # set_union xs ys)"

text \<open>
  \<open>Net::set_moveall\<close>; \<open>k\<close> is \<open>lb - first1\<close>.  The result is the pair of the retained and the moved
  elements.
\<close>

fun set_moveall_loop :: "arrayindex_t list \<Rightarrow> nat \<Rightarrow> arrayindex_t list \<Rightarrow> arrayindex_t list \<times> arrayindex_t list" where
  "set_moveall_loop xs k [] = (xs, [])"
| "set_moveall_loop xs k (y # ys) =
     (if xs = [] then (xs, [])
      else
        let lb = k + length (takeWhile (\<lambda>x. x < y) (drop k xs))
        in if lb = length xs then (xs, [])
           else if xs ! lb = y
             then (let (retained, moved) = set_moveall_loop (drop (lb + 1) xs) 0 ys
                   in (take lb xs @ retained, y # moved))
             else set_moveall_loop xs lb ys)"

definition set_moveall :: "arrayindex_t list \<Rightarrow> arrayindex_t list \<Rightarrow> arrayindex_t list \<times> arrayindex_t list" where
  "set_moveall xs ys = set_moveall_loop xs 0 ys"

section \<open>The search\<close>

record conf_frame =
  cf_set :: "arrayindex_t list"
  cf_trans :: "arrayindex_t list"
  cf_index :: nat
  cf_place :: arrayindex_t

record conf_state =
  conf_stack :: "conf_frame list"
  place_done :: "bool list"
  conf_result :: "arrayindex_t list list"
  conf_original :: "bool list"
  conflictcache :: "arrayindex_t list list"

type_synonym arc_fun = "arrayindex_t \<Rightarrow> arrayindex_t list"

text \<open>The body of the loop over the places of the active transition.\<close>

definition visit_place :: "arc_fun \<Rightarrow> arc_fun \<Rightarrow> arrayindex_t \<Rightarrow> conf_state \<Rightarrow> conf_state" where
  "visit_place add mv p s =
     (if place_done s ! p then s
      else (case conf_stack s of
              [] \<Rightarrow> s
            | f # fs \<Rightarrow>
                let (retained, moved) = set_moveall (cf_trans f) (mv p)
                in s\<lparr>conf_stack :=
                       \<lparr>cf_set = set_union (cf_set f) (add p), cf_trans = moved, cf_index = 0, cf_place = 0\<rparr> #
                       f\<lparr>cf_trans := retained, cf_place := p\<rparr> # fs,
                     place_done := (place_done s)[p := True]\<rparr>))"

text \<open>Store the finished conflict set of the active transition, sharing an equal earlier one.\<close>

definition store_conflict :: "arrayindex_t \<Rightarrow> conf_state \<Rightarrow> conf_state" where
  "store_conflict t s =
     (let v = cf_set (hd (conf_stack s)) in
      if v \<in> set (conflictcache s)
      then s\<lparr>conf_result := (conf_result s)[t := v], conf_original := (conf_original s)[t := False]\<rparr>
      else s\<lparr>conf_result := (conf_result s)[t := v], conf_original := (conf_original s)[t := True],
             conflictcache := conflictcache s @ [v]\<rparr>)"

definition next_transition :: "conf_state \<Rightarrow> conf_state" where
  "next_transition s =
     (case conf_stack s of [] \<Rightarrow> s | f # fs \<Rightarrow> s\<lparr>conf_stack := f\<lparr>cf_index := cf_index f + 1\<rparr> # fs\<rparr>)"

text \<open>One iteration of the outer loop; \<open>None\<close> is \<open>break\<close>.\<close>

definition conf_step :: "arc_fun \<Rightarrow> arc_fun \<Rightarrow> arc_fun \<Rightarrow> conf_state \<Rightarrow> conf_state option" where
  "conf_step pls add mv s =
     (case conf_stack s of
        [] \<Rightarrow> None
      | f # fs \<Rightarrow>
          if cf_index f \<ge> length (cf_trans f)
          then (case fs of
                  [] \<Rightarrow> None
                | g # _ \<Rightarrow> Some (s\<lparr>conf_stack := fs, place_done := (place_done s)[cf_place g := False]\<rparr>))
          else
            let active = cf_trans f ! cf_index f
            in Some (next_transition (store_conflict active (fold (visit_place add mv) (pls active) s))))"

partial_function (option) conf_loop :: "arc_fun \<Rightarrow> arc_fun \<Rightarrow> arc_fun \<Rightarrow> conf_state \<Rightarrow> conf_state option" where
  "conf_loop pls add mv s =
     (case conf_step pls add mv s of None \<Rightarrow> Some s | Some s' \<Rightarrow> conf_loop pls add mv s')"

definition conf_init :: "nat \<Rightarrow> nat \<Rightarrow> arrayindex_t list list \<Rightarrow> conf_state" where
  "conf_init cardTR cardPL cache =
     \<lparr>conf_stack = [\<lparr>cf_set = [], cf_trans = [0..<cardTR], cf_index = 0, cf_place = 0\<rparr>],
      place_done = replicate cardPL False, conf_result = replicate cardTR [],
      conf_original = replicate cardTR False, conflictcache = cache\<rparr>"

text \<open>Both passes; the second one starts with the cache of the first.\<close>

definition preprocess_organizeConflictingTransitions ::
  "net \<Rightarrow> transition_data \<Rightarrow> transition_data option" where
  "preprocess_organizeConflictingTransitions N T =
     (case conf_loop (Arc N TR PRE) (Arc N PL POST) (Arc N PL POST) (conf_init (Card N TR) (Card N PL) []) of
        None \<Rightarrow> None
      | Some s \<Rightarrow>
          (case conf_loop (Arc N TR POST) (Arc N PL POST) (Arc N PL PRE)
                  (conf_init (Card N TR) (Card N PL) (conflictcache s)) of
             None \<Rightarrow> None
           | Some s' \<Rightarrow> Some (T\<lparr>Conflicting := conf_result s, BackConflicting := conf_result s'\<rparr>)))"

section \<open>Correctness of the array operations\<close>

lemma set_union_set: "set (set_union xs ys) = set xs \<union> set ys"
  by (induction xs ys rule: set_union.induct) auto

lemma set_union_sorted:
  "sorted_wrt (<) xs \<Longrightarrow> sorted_wrt (<) ys \<Longrightarrow> sorted_wrt (<) (set_union xs ys)"
  by (induction xs ys rule: set_union.induct) (auto simp: set_union_set)

lemma filter_mem_gt:
  "\<forall>x \<in> set xs. y < x \<Longrightarrow> filter (\<lambda>x. x \<in> insert y A) xs = filter (\<lambda>x. x \<in> (A :: nat set)) xs"
  by (intro filter_cong) auto

lemma set_moveall_loop_correct:
  "sorted_wrt (<) xs \<Longrightarrow> sorted_wrt (<) ys \<Longrightarrow> k \<le> length xs \<Longrightarrow>
   (\<forall>x \<in> set (take k xs). \<forall>y \<in> set ys. x < y) \<Longrightarrow>
   set_moveall_loop xs k ys = (filter (\<lambda>x. x \<notin> set ys) xs, filter (\<lambda>x. x \<in> set ys) xs)"
proof (induction ys arbitrary: xs k)
  case (Cons y ys)
  define lb where "lb = k + length (takeWhile (\<lambda>x. x < y) (drop k xs))"
  have lb: "lb \<le> length xs"
    using length_takeWhile_le [of "\<lambda>x. x < y" "drop k xs"] Cons.prems(3) by (simp add: lb_def)
  have tw: "takeWhile (\<lambda>x. x < y) (drop k xs) = take (length (takeWhile (\<lambda>x. x < y) (drop k xs))) (drop k xs)"
    by (rule takeWhile_eq_take)
  have "take lb xs = take k xs @ takeWhile (\<lambda>x. x < y) (drop k xs)"
    unfolding lb_def take_add using tw by simp
  then have low: "\<forall>x \<in> set (take lb xs). x < y"
    using Cons.prems(4) by (auto dest: set_takeWhileD)
  have ge: "y \<le> xs ! lb" if "lb < length xs"
  proof -
    have "length (takeWhile (\<lambda>x. x < y) (drop k xs)) < length (drop k xs)" using that by (simp add: lb_def)
    from nth_length_takeWhile [OF this] show ?thesis using Cons.prems(3) by (simp add: lb_def add.commute)
  qed
  have gt_ys: "\<forall>z \<in> set ys. y < z" using Cons.prems(2) by auto
  show ?case
  proof (cases "lb = length xs")
    case True
    then have "\<forall>x \<in> set xs. x \<notin> set (y # ys)" using low gt_ys by (fastforce dest: order_less_trans)
    then show ?thesis using True
      by (auto simp: Let_def lb_def [symmetric] intro!: filter_True [symmetric] filter_False [symmetric])
  next
    case False
    then have l: "lb < length xs" using lb by simp
    have split: "xs = take lb xs @ xs ! lb # drop (lb + 1) xs" using l by (simp add: id_take_nth_drop)
    have s: "sorted_wrt (<) (take lb xs)" "\<forall>x \<in> set (drop (lb + 1) xs). xs ! lb < x" "sorted_wrt (<) (drop (lb + 1) xs)"
      using Cons.prems(1) unfolding sorted_wrt_append [of _ "take lb xs" "xs ! lb # drop (lb + 1) xs", folded split]
      by simp_all
    have low': "filter (\<lambda>x. x \<notin> set (y # ys)) (take lb xs) = take lb xs"
      "filter (\<lambda>x. x \<in> set (y # ys)) (take lb xs) = []"
      using low gt_ys by (fastforce dest: order_less_trans intro!: filter_True filter_False)+
    show ?thesis
    proof (cases "xs ! lb = y")
      case True
      have ih: "set_moveall_loop (drop (lb + 1) xs) 0 ys =
          (filter (\<lambda>x. x \<notin> set ys) (drop (lb + 1) xs), filter (\<lambda>x. x \<in> set ys) (drop (lb + 1) xs))"
        using Cons.IH [of "drop (lb + 1) xs" 0] s Cons.prems(2) by simp
      have "\<forall>x \<in> set (drop (lb + 1) xs). y < x" using s(2) True by simp
      then have hi: "filter (\<lambda>x. x \<notin> set (y # ys)) (drop (lb + 1) xs) = filter (\<lambda>x. x \<notin> set ys) (drop (lb + 1) xs)"
        "filter (\<lambda>x. x \<in> set (y # ys)) (drop (lb + 1) xs) = filter (\<lambda>x. x \<in> set ys) (drop (lb + 1) xs)"
        by (auto intro!: filter_cong)
      have f: "filter Q xs = filter Q (take lb xs) @ filter Q [xs ! lb] @ filter Q (drop (lb + 1) xs)" for Q
        by (subst split) simp
      show ?thesis
        using l True ih by (simp only: f low' hi set_moveall_loop.simps lb_def [symmetric] Let_def) auto
    next
      case False
      have "set_moveall_loop xs lb ys = (filter (\<lambda>x. x \<notin> set ys) xs, filter (\<lambda>x. x \<in> set ys) xs)"
        using Cons.IH [of xs lb] Cons.prems(1,2) lb low gt_ys by (fastforce dest: order_less_trans)
      moreover have "y \<notin> set xs"
      proof -
        have "y < xs ! lb" using ge [OF l] False by simp
        then have "y \<notin> set (drop (lb + 1) xs)" using s(2) by auto
        moreover have "y \<notin> set (take lb xs)" using low by auto
        ultimately show ?thesis using False by (subst split) auto
      qed
      ultimately show ?thesis using l False by (auto simp: Let_def lb_def [symmetric] intro!: filter_cong)
    qed
  qed
qed simp

lemma set_moveall_correct:
  "sorted_wrt (<) xs \<Longrightarrow> sorted_wrt (<) ys \<Longrightarrow>
   set_moveall xs ys = (filter (\<lambda>x. x \<notin> set ys) xs, filter (\<lambda>x. x \<in> set ys) xs)"
  by (simp add: set_moveall_def set_moveall_loop_correct)

section \<open>The invariant of the search\<close>

text \<open>\<open>pls\<close> is the inverse of \<open>mv\<close>, and all lists are strictly sorted.\<close>

locale conflict_pass =
  fixes pls add mv :: arc_fun and n m :: nat
  assumes pls_range: "t < n \<Longrightarrow> p \<in> set (pls t) \<Longrightarrow> p < m"
    and mv_iff: "p < m \<Longrightarrow> t < n \<Longrightarrow> t \<in> set (mv p) \<longleftrightarrow> p \<in> set (pls t)"
    and mv_sorted: "p < m \<Longrightarrow> sorted_wrt (<) (mv p)"
    and add_sorted: "p < m \<Longrightarrow> sorted_wrt (<) (add p)"
begin

definition conflict_set :: "arrayindex_t \<Rightarrow> arrayindex_t set" where
  "conflict_set t = (\<Union>p \<in> set (pls t). set (add p))"

definition correct_list :: "arrayindex_t \<Rightarrow> arrayindex_t list \<Rightarrow> bool" where
  "correct_list t l \<longleftrightarrow> sorted_wrt (<) l \<and> set l = conflict_set t"

text \<open>A position whose chosen places below are \<open>P\<close>.\<close>

definition frame_ok :: "arrayindex_t set \<Rightarrow> conf_frame \<Rightarrow> bool" where
  "frame_ok P f \<longleftrightarrow>
     sorted_wrt (<) (cf_set f) \<and> set (cf_set f) = (\<Union>p \<in> P. set (add p)) \<and>
     sorted_wrt (<) (cf_trans f) \<and> cf_index f \<le> length (cf_trans f) \<and>
     (\<forall>t \<in> set (cf_trans f). t < n \<and> P \<subseteq> set (pls t)) \<and>
     (\<forall>t \<in> set (take (cf_index f) (cf_trans f)). set (pls t) \<subseteq> P)"

fun stack_ok :: "conf_frame list \<Rightarrow> bool" where
  "stack_ok [] \<longleftrightarrow> True"
| "stack_ok (f # fs) \<longleftrightarrow> frame_ok (set (map cf_place fs)) f \<and> stack_ok fs"

definition rest_of :: "conf_frame \<Rightarrow> arrayindex_t list" where
  "rest_of f = drop (cf_index f) (cf_trans f)"

definition pending :: "conf_frame list \<Rightarrow> arrayindex_t list" where
  "pending fs = concat (map rest_of fs)"

lemma pending_simps [simp]: "pending [] = []" "pending (f # fs) = rest_of f @ pending fs"
  by (simp_all add: pending_def)

definition stack_inv :: "conf_state \<Rightarrow> bool" where
  "stack_inv s \<longleftrightarrow>
     conf_stack s \<noteq> [] \<and> stack_ok (conf_stack s) \<and> length (place_done s) = m \<and>
     (\<forall>p < m. place_done s ! p \<longleftrightarrow> p \<in> set (map cf_place (tl (conf_stack s)))) \<and>
     distinct (map cf_place (tl (conf_stack s))) \<and> (\<forall>p \<in> set (map cf_place (tl (conf_stack s))). p < m) \<and>
     distinct (pending (conf_stack s))"

definition result_inv :: "arrayindex_t set \<Rightarrow> conf_state \<Rightarrow> bool" where
  "result_inv A s \<longleftrightarrow> length (conf_result s) = n \<and> (\<forall>t < n. t \<notin> A \<longrightarrow> correct_list t (conf_result s ! t))"

lemma visit_place_result: "conf_result (visit_place add mv p s) = conf_result s"
  by (simp add: visit_place_def Let_def split: list.splits prod.splits)

lemma visit_done: "place_done s ! p \<Longrightarrow> visit_place add mv p s = s"
  by (simp add: visit_place_def)

text \<open>One place: the active transition stays first in line, and nobody gets lost.\<close>

lemma visit_place_inv:
  assumes inv: "stack_inv s" and st: "conf_stack s = f # fs" and act: "cf_index f < length (cf_trans f)"
    and t: "t = cf_trans f ! cf_index f" and p: "p \<in> set (pls t)"
  shows "stack_inv (visit_place add mv p s) \<and>
    (\<exists>f' fs'. conf_stack (visit_place add mv p s) = f' # fs' \<and> cf_index f' < length (cf_trans f') \<and>
       t = cf_trans f' ! cf_index f' \<and> set (map cf_place fs') = insert p (set (map cf_place fs)) \<and>
       mset (pending (f' # fs')) = mset (pending (f # fs)))"
proof -
  have fok: "frame_ok (set (map cf_place fs)) f" and sok: "stack_ok fs" using inv st by (auto simp: stack_inv_def)
  have tn: "t < n" using fok act t by (simp add: frame_ok_def)
  have pm: "p < m" by (rule pls_range [OF tn p])
  show ?thesis
  proof (cases "place_done s ! p")
    case True
    then have "p \<in> set (map cf_place fs)" using inv st pm by (simp add: stack_inv_def)
    then show ?thesis using inv st act t visit_done [OF True] by auto
  next
    case False
    let ?P = "set (map cf_place fs)" and ?tr = "cf_trans f" and ?i = "cf_index f" and ?M = "set (mv p)"
    let ?g = "f\<lparr>cf_trans := filter (\<lambda>x. x \<notin> ?M) ?tr, cf_place := p\<rparr>"
    let ?h = "\<lparr>cf_set = set_union (cf_set f) (add p), cf_trans = filter (\<lambda>x. x \<in> ?M) ?tr, cf_index = 0, cf_place = 0\<rparr>"
    have pP: "p \<notin> ?P" using inv st False pm by (auto simp: stack_inv_def)
    have tr: "sorted_wrt (<) ?tr" "\<forall>u \<in> set ?tr. u < n \<and> ?P \<subseteq> set (pls u)"
      "\<forall>u \<in> set (take ?i ?tr). set (pls u) \<subseteq> ?P" using fok by (auto simp: frame_ok_def)
    have v: "visit_place add mv p s = s\<lparr>conf_stack := ?h # ?g # fs, place_done := (place_done s)[p := True]\<rparr>"
      using False st by (simp add: visit_place_def set_moveall_correct [OF tr(1) mv_sorted [OF pm]])
    have keep: "u \<notin> ?M" if "u \<in> set (take ?i ?tr)" for u
    proof -
      have "u < n" using tr(2) set_take_subset that by fastforce
      then show ?thesis using mv_iff [OF pm] tr(3) that pP by blast
    qed
    have split: "?tr = take ?i ?tr @ t # drop (Suc ?i) ?tr" using act t by (simp add: id_take_nth_drop)
    have tM: "t \<in> ?M" using mv_iff [OF pm tn] p by simp
    have ft: "filter (\<lambda>x. x \<notin> ?M) (take ?i ?tr) = take ?i ?tr" "filter (\<lambda>x. x \<in> ?M) (take ?i ?tr) = []"
      using keep by (auto intro!: filter_True filter_False)
    have g_tr: "filter (\<lambda>x. x \<notin> ?M) ?tr = take ?i ?tr @ filter (\<lambda>x. x \<notin> ?M) (drop (Suc ?i) ?tr)"
      by (subst split) (simp add: ft tM)
    have h_tr: "filter (\<lambda>x. x \<in> ?M) ?tr = t # filter (\<lambda>x. x \<in> ?M) (drop (Suc ?i) ?tr)"
      by (subst split) (simp add: ft tM)
    have li: "length (take ?i ?tr) = ?i" using act by simp
    have tg: "take ?i (filter (\<lambda>x. x \<notin> ?M) ?tr) = take ?i ?tr" unfolding g_tr using act by simp
    have lg: "?i \<le> length (filter (\<lambda>x. x \<notin> ?M) ?tr)" by (simp only: g_tr length_append li le_add1)
    have gok: "frame_ok ?P ?g"
      using fok tg lg by (auto simp: frame_ok_def sorted_wrt_filter)
    have hok: "frame_ok (insert p ?P) ?h"
      using fok pm mv_iff [OF pm] add_sorted [OF pm]
      by (auto simp: frame_ok_def set_union_set set_union_sorted sorted_wrt_filter)
    have pend: "mset (pending (?h # ?g # fs)) = mset (pending (f # fs))"
    proof -
      have "rest_of f = t # drop (Suc ?i) ?tr" using act t by (simp add: rest_of_def Cons_nth_drop_Suc)
      moreover have "rest_of ?g = filter (\<lambda>x. x \<notin> ?M) (drop (Suc ?i) ?tr)"
        using li by (simp add: rest_of_def g_tr)
      moreover have "rest_of ?h = t # filter (\<lambda>x. x \<in> ?M) (drop (Suc ?i) ?tr)"
        by (simp add: rest_of_def h_tr)
      moreover have "mset (filter (\<lambda>x. x \<in> ?M) xs) + mset (filter (\<lambda>x. x \<notin> ?M) xs) = mset xs" for xs
        by (induction xs) auto
      ultimately show ?thesis by simp
    qed
    have d: "distinct (pending (?h # ?g # fs))"
      using inv st mset_eq_imp_distinct_iff [OF pend] by (simp add: stack_inv_def)
    have "stack_inv (visit_place add mv p s)"
      using inv st gok hok sok d pP pm unfolding v by (auto simp: stack_inv_def nth_list_update)
    then show ?thesis
      using pend h_tr unfolding v
      by (intro conjI exI [of _ ?h] exI [of _ "?g # fs"]) auto
  qed
qed

lemma visit_places_inv:
  "stack_inv s \<Longrightarrow> conf_stack s = f # fs \<Longrightarrow> cf_index f < length (cf_trans f) \<Longrightarrow>
   t = cf_trans f ! cf_index f \<Longrightarrow> set ps \<subseteq> set (pls t) \<Longrightarrow>
   stack_inv (fold (visit_place add mv) ps s) \<and>
   (\<exists>f' fs'. conf_stack (fold (visit_place add mv) ps s) = f' # fs' \<and> cf_index f' < length (cf_trans f') \<and>
      t = cf_trans f' ! cf_index f' \<and> set (map cf_place fs') = set ps \<union> set (map cf_place fs) \<and>
      mset (pending (f' # fs')) = mset (pending (f # fs))) \<and>
   conf_result (fold (visit_place add mv) ps s) = conf_result s"
proof (induction ps arbitrary: s f fs)
  case Nil
  then show ?case by auto
next
  case (Cons p ps)
  let ?s = "visit_place add mv p s"
  obtain f1 fs1 where 1: "stack_inv ?s" "conf_stack ?s = f1 # fs1" "cf_index f1 < length (cf_trans f1)"
    "t = cf_trans f1 ! cf_index f1" "set (map cf_place fs1) = insert p (set (map cf_place fs))"
    "mset (pending (f1 # fs1)) = mset (pending (f # fs))"
    using visit_place_inv [OF Cons.prems(1-4), of p] Cons.prems(5) by auto
  have "set ps \<subseteq> set (pls t)" using Cons.prems(5) by simp
  from Cons.IH [OF 1(1-4) this] show ?case
    using 1(5,6) by (auto simp: visit_place_result)
qed

section \<open>One iteration and the loop\<close>

lemma conf_step_process:
  assumes inv: "stack_inv s" and st: "conf_stack s = f # fs" and act: "cf_index f < length (cf_trans f)"
    and res: "result_inv (set (pending (conf_stack s))) s"
  shows "\<exists>s'. conf_step pls add mv s = Some s' \<and> stack_inv s' \<and> result_inv (set (pending (conf_stack s'))) s' \<and>
    length (pending (conf_stack s')) < length (pending (conf_stack s))"
proof -
  let ?t = "cf_trans f ! cf_index f"
  let ?s1 = "fold (visit_place add mv) (pls ?t) s"
  obtain f1 fs1 where 1: "stack_inv ?s1" "conf_stack ?s1 = f1 # fs1" "cf_index f1 < length (cf_trans f1)"
    "?t = cf_trans f1 ! cf_index f1" "set (map cf_place fs1) = set (pls ?t) \<union> set (map cf_place fs)"
    "mset (pending (f1 # fs1)) = mset (pending (f # fs))" "conf_result ?s1 = conf_result s"
    using visit_places_inv [OF inv st act refl subset_refl] by auto
  let ?P = "set (map cf_place fs1)" and ?f2 = "f1\<lparr>cf_index := cf_index f1 + 1\<rparr>"
  have fok: "frame_ok ?P f1" using 1(1,2) by (simp add: stack_inv_def)
  have tn: "?t < n" "?P \<subseteq> set (pls ?t)" using fok 1(3,4) by (auto simp: frame_ok_def)
  then have P: "?P = set (pls ?t)" using 1(5) by auto
  define s2 where "s2 = store_conflict ?t ?s1"
  have s2: "conf_stack s2 = f1 # fs1" "place_done s2 = place_done ?s1"
    "conf_result s2 = (conf_result s)[?t := cf_set f1]"
    using 1(2,7) by (simp_all add: s2_def store_conflict_def Let_def)
  let ?s' = "s2\<lparr>conf_stack := ?f2 # fs1\<rparr>"
  have step: "conf_step pls add mv s = Some ?s'"
    using st act s2(1) by (simp add: conf_step_def Let_def s2_def [symmetric] next_transition_def)
  have take: "take (Suc (cf_index f1)) (cf_trans f1) = take (cf_index f1) (cf_trans f1) @ [?t]"
    using 1(3,4) by (simp add: take_Suc_conv_app_nth)
  have fokt: "frame_ok (set (pls ?t)) f1" using fok by (simp only: P)
  have "frame_ok (set (pls ?t)) ?f2"
    using fokt 1(3) unfolding frame_ok_def by (simp add: take Suc_leI)
  then have fok2: "frame_ok ?P ?f2" by (simp only: P)
  have rest: "rest_of f1 = ?t # rest_of ?f2" using 1(3,4) by (simp add: rest_of_def Cons_nth_drop_Suc)
  have d: "distinct (?t # rest_of ?f2 @ pending fs1)" using 1(1,2) rest by (simp add: stack_inv_def)
  have inv': "stack_inv ?s'"
    using 1(1,2) s2 fok2 d by (simp add: stack_inv_def)
  have cor: "correct_list ?t (cf_set f1)"
    using fokt by (simp add: correct_list_def frame_ok_def conflict_set_def)
  have pset: "set (pending (conf_stack s)) = insert ?t (set (pending (?f2 # fs1)))"
  proof -
    have "set (pending (f # fs)) = set (pending (f1 # fs1))" using 1(6) by (metis mset_eq_setD)
    then show ?thesis using rest st by simp
  qed
  have "correct_list u ((conf_result s)[?t := cf_set f1] ! u)" if "u < n" "u \<notin> set (pending (?f2 # fs1))" for u
  proof (cases "u = ?t")
    case True
    then show ?thesis using cor tn res by (simp add: result_inv_def)
  next
    case False
    then show ?thesis using res that pset by (simp add: result_inv_def)
  qed
  then have res': "result_inv (set (pending (conf_stack ?s'))) ?s'"
    using res s2(3) by (simp add: result_inv_def)
  have "length (pending (f1 # fs1)) = length (pending (f # fs))" using 1(6) by (metis size_mset)
  then have "length (pending (conf_stack ?s')) < length (pending (conf_stack s))"
    using rest st by simp
  then show ?thesis using step inv' res' by blast
qed

lemma conf_step_pop:
  assumes inv: "stack_inv s" and st: "conf_stack s = f # g # fs" and fin: "\<not> cf_index f < length (cf_trans f)"
  shows "\<exists>s'. conf_step pls add mv s = Some s' \<and> stack_inv s' \<and> pending (conf_stack s') = pending (conf_stack s) \<and>
    conf_result s' = conf_result s \<and> length (conf_stack s') < length (conf_stack s)"
proof -
  let ?s' = "s\<lparr>conf_stack := g # fs, place_done := (place_done s)[cf_place g := False]\<rparr>"
  have step: "conf_step pls add mv s = Some ?s'" using st fin by (simp add: conf_step_def)
  have "rest_of f = []" using fin by (simp add: rest_of_def)
  then have pend: "pending (conf_stack ?s') = pending (conf_stack s)" using st by simp
  have "stack_inv ?s'"
    using inv st pend unfolding stack_inv_def by (auto simp: nth_list_update)
  then show ?thesis using step pend st by (intro exI [of _ ?s']) simp
qed

lemma conf_loop_total:
  assumes "stack_inv s" "result_inv (set (pending (conf_stack s))) s"
  shows "\<exists>s'. conf_loop pls add mv s = Some s' \<and> result_inv {} s'"
  using assms
proof (induction "(length (pending (conf_stack s)), length (conf_stack s))" arbitrary: s
    rule: wf_induct_rule [OF wf_lex_prod [OF wf_less_than wf_less_than]])
  case (1 s)
  note IH = 1(1)
  obtain f fs where st: "conf_stack s = f # fs" using 1(2) by (cases "conf_stack s") (auto simp: stack_inv_def)
  have go: "\<exists>s'. conf_loop pls add mv s = Some s' \<and> result_inv {} s'"
    if "conf_step pls add mv s = Some s1" "stack_inv s1" "result_inv (set (pending (conf_stack s1))) s1"
      "length (pending (conf_stack s1)) < length (pending (conf_stack s)) \<or>
       length (pending (conf_stack s1)) = length (pending (conf_stack s)) \<and>
       length (conf_stack s1) < length (conf_stack s)" for s1
    using IH [OF _ that(2,3)] that(1,4) by (subst conf_loop.simps) auto
  show ?case
  proof (cases "cf_index f < length (cf_trans f)")
    case True
    then show ?thesis using conf_step_process [OF 1(2) st True 1(3)] go by blast
  next
    case False
    show ?thesis
    proof (cases fs)
      case Nil
      then have "conf_loop pls add mv s = Some s" using st False by (subst conf_loop.simps) (simp add: conf_step_def)
      moreover have "set (pending (conf_stack s)) = {}" using st Nil False by (simp add: rest_of_def)
      ultimately show ?thesis using 1(3) by simp
    next
      case (Cons g gs)
      then obtain s' where s': "conf_step pls add mv s = Some s'" "stack_inv s'"
        "pending (conf_stack s') = pending (conf_stack s)" "conf_result s' = conf_result s"
        "length (conf_stack s') < length (conf_stack s)"
        using conf_step_pop [OF 1(2) _ False] st by blast
      have "result_inv (set (pending (conf_stack s'))) s'" using 1(3) s'(3,4) by (simp add: result_inv_def)
      then show ?thesis using go [OF s'(1,2)] s'(3,5) by simp
    qed
  qed
qed

lemma conf_pass_correct:
  "\<exists>s. conf_loop pls add mv (conf_init n m c) = Some s \<and> length (conf_result s) = n \<and>
     (\<forall>t < n. sorted_wrt (<) (conf_result s ! t) \<and> set (conf_result s ! t) = (\<Union>p \<in> set (pls t). set (add p)))"
proof -
  have "stack_inv (conf_init n m c)"
    by (simp add: stack_inv_def conf_init_def frame_ok_def rest_of_def)
  moreover have "result_inv (set (pending (conf_stack (conf_init n m c)))) (conf_init n m c)"
    by (simp add: result_inv_def conf_init_def rest_of_def)
  ultimately obtain s where "conf_loop pls add mv (conf_init n m c) = Some s" "result_inv {} s"
    using conf_loop_total by blast
  then show ?thesis by (auto simp: result_inv_def correct_list_def conflict_set_def)
qed

end

section \<open>Both passes on a net\<close>

text \<open>The transition lists of all places are sorted; the place lists of the transitions need not be
  (\<open>setSignificantPlaces\<close> has permuted the places by then).\<close>

locale place_sorted_net =
  fixes N :: net
  assumes net_wf: "wf_net N"
    and place_arcs_sorted: "p < Card N PL \<Longrightarrow> sorted (Arc N PL d p)"
begin

lemma place_arcs_strict: "p < Card N PL \<Longrightarrow> sorted_wrt (<) (Arc N PL d p)"
  using place_arcs_sorted wf_net_distinct [OF net_wf] by (simp add: strict_sorted_iff)

lemma place_arcs_dual:
  "p < Card N PL \<Longrightarrow> t < Card N TR \<Longrightarrow>
   t \<in> set (Arc N PL (other_direction d) p) \<longleftrightarrow> p \<in> set (Arc N TR d t)"
  using wf_net_Arc_dual [OF net_wf, of p PL t "other_direction d"] wf_net_Arc_dual [OF net_wf, of t TR p d]
  by auto

end

sublocale place_sorted_net \<subseteq> forward: conflict_pass "Arc N TR PRE" "Arc N PL POST" "Arc N PL POST" "Card N TR" "Card N PL"
  using wf_net_Arc_less [OF net_wf, of _ TR] place_arcs_dual [of _ _ PRE] place_arcs_strict
  by unfold_locales simp_all

sublocale place_sorted_net \<subseteq> backward: conflict_pass "Arc N TR POST" "Arc N PL POST" "Arc N PL PRE" "Card N TR" "Card N PL"
  using wf_net_Arc_less [OF net_wf, of _ TR] place_arcs_dual [of _ _ POST] place_arcs_strict
  by unfold_locales simp_all

context place_sorted_net
begin

lemma organizeConflicting_correct:
  "\<exists>T'. preprocess_organizeConflictingTransitions N T = Some T' \<and> DeltaT T' = DeltaT T \<and> DeltaHash T' = DeltaHash T \<and>
     length (Conflicting T') = Card N TR \<and> length (BackConflicting T') = Card N TR \<and>
     (\<forall>t < Card N TR. sorted_wrt (<) (Conflicting T' ! t) \<and> sorted_wrt (<) (BackConflicting T' ! t)) \<and>
     conflicts_ok N T'"
proof -
  obtain s where s: "conf_loop (Arc N TR PRE) (Arc N PL POST) (Arc N PL POST) (conf_init (Card N TR) (Card N PL) []) = Some s"
    "length (conf_result s) = Card N TR"
    "\<forall>t < Card N TR. sorted_wrt (<) (conf_result s ! t) \<and>
       set (conf_result s ! t) = (\<Union>p \<in> set (Arc N TR PRE t). set (Arc N PL POST p))"
    using forward.conf_pass_correct by blast
  obtain s' where s': "conf_loop (Arc N TR POST) (Arc N PL POST) (Arc N PL PRE)
      (conf_init (Card N TR) (Card N PL) (conflictcache s)) = Some s'"
    "length (conf_result s') = Card N TR"
    "\<forall>t < Card N TR. sorted_wrt (<) (conf_result s' ! t) \<and>
       set (conf_result s' ! t) = (\<Union>p \<in> set (Arc N TR POST t). set (Arc N PL POST p))"
    using backward.conf_pass_correct by blast
  show ?thesis
    using s s' by (simp add: preprocess_organizeConflictingTransitions_def conflicts_ok_def)
qed

end

end
