(* ===== verification/Frontend.thy ===== *)
theory Frontend
  imports PetriNet
begin

text \<open>
  From parsed arc lists to the net: \<open>ArcList\<close> (\<open>src/Frontend/SymbolTable/ArcList.cc\<close>) with the
  merging of duplicate places in the grammar, \<open>TransitionSymbol\<close>, and \<open>ParserPTNet::symboltable2net\<close>
  (\<open>src/Frontend/Parser/ParserPTNet.cc\<close>), which fills the arcs of transitions and places at the same
  time.  Here places are given by their index; in the grammar they are given by their symbol.
\<close>

section \<open>Arc lists\<close>

text \<open>\<open>addMultiplicity\<close> adds in 16 bits.\<close>

fun addMultiplicity :: "'k \<Rightarrow> mult_t \<Rightarrow> ('k \<times> mult_t) list \<Rightarrow> ('k \<times> mult_t) list" where
  "addMultiplicity p i [] = []"
| "addMultiplicity p i ((q, w) # al) = (if q = p then (q, w + i) # al else (q, w) # addMultiplicity p i al)"

text \<open>The grammar rule \<open>arclist: arc COMMA arclist\<close>.\<close>

definition arclist_cons :: "'k \<times> mult_t \<Rightarrow> ('k \<times> mult_t) list \<Rightarrow> ('k \<times> mult_t) list" where
  "arclist_cons a al = (if fst a \<in> fst ` set al then addMultiplicity (fst a) (snd a) al else a # al)"

definition arclist :: "('k \<times> mult_t) list \<Rightarrow> ('k \<times> mult_t) list" where
  "arclist as = foldr arclist_cons as []"

record transition_symbol =
  ts_pre :: "(arrayindex_t \<times> mult_t) list"
  ts_post :: "(arrayindex_t \<times> mult_t) list"

text \<open>The counters that the constructor of \<open>TransitionSymbol\<close> maintains at the places
  (\<open>notifyPost\<close> for a pre place, \<open>notifyPre\<close> for a post place); they size the arc arrays.\<close>

definition place_card :: "direction_t \<Rightarrow> transition_symbol list \<Rightarrow> arrayindex_t \<Rightarrow> nat" where
  "place_card d tss p =
     (\<Sum>ts\<leftarrow>tss. length (filter (\<lambda>a. fst a = p) (case d of POST \<Rightarrow> ts_pre ts | PRE \<Rightarrow> ts_post ts)))"

section \<open>ParserPTNet::symboltable2net\<close>

text \<open>Append the arcs of transition \<open>i\<close> to the lists of their places.\<close>

definition append_arcs ::
  "arrayindex_t \<Rightarrow> (arrayindex_t \<times> mult_t) list \<Rightarrow> (arrayindex_t \<times> mult_t) list list \<Rightarrow> (arrayindex_t \<times> mult_t) list list" where
  "append_arcs i as A = fold (\<lambda>(k, w) A. A[k := A ! k @ [(i, w)]]) as A"

definition place_arcs ::
  "(transition_symbol \<Rightarrow> (arrayindex_t \<times> mult_t) list) \<Rightarrow> arrayindex_t \<Rightarrow> transition_symbol list \<Rightarrow>
   (arrayindex_t \<times> mult_t) list list" where
  "place_arcs sel cardPL tss =
     fold (\<lambda>(i, ts) A. append_arcs i (sel ts) A) (enumerate 0 tss) (replicate cardPL [])"

definition symboltable2net :: "arrayindex_t \<Rightarrow> transition_symbol list \<Rightarrow> net" where
  "symboltable2net cardPL tss =
     \<lparr>Card = (\<lambda>ty. case ty of PL \<Rightarrow> cardPL | TR \<Rightarrow> length tss),
      Arcs = (\<lambda>ty d. case ty of
         TR \<Rightarrow> map (case d of PRE \<Rightarrow> ts_pre | POST \<Rightarrow> ts_post) tss
       | PL \<Rightarrow> place_arcs (case d of PRE \<Rightarrow> ts_post | POST \<Rightarrow> ts_pre) cardPL tss)\<rparr>"

section \<open>Merging keeps arc lists free of duplicates\<close>

lemma addMultiplicity_keys [simp]: "map fst (addMultiplicity p i al) = map fst al"
  by (induction p i al rule: addMultiplicity.induct) auto

lemma arclist_distinct: "distinct (map fst (arclist (as :: ('k \<times> mult_t) list)))"
proof -
  have "distinct (map fst (arclist_cons a al))" if "distinct (map fst al)" for a and al :: "('k \<times> mult_t) list"
    using that by (auto simp: arclist_cons_def)
  then show ?thesis by (induction as) (simp_all add: arclist_def)
qed

lemma addMultiplicity_weight:
  "p \<in> fst ` set al \<Longrightarrow> distinct (map fst al) \<Longrightarrow>
   weight_in (addMultiplicity p i al) q = (if q = p then unat (of_nat (weight_in al p) + i) else weight_in al q)"
  by (induction p i al rule: addMultiplicity.induct) (auto, force+)

text \<open>The merged list has, for every place, the sum of the multiplicities in 16 bit arithmetic.\<close>

lemma arclist_weight: "weight_in (arclist as) q = unat (\<Sum>(p, w)\<leftarrow>as. if p = q then w else 0)"
proof (induction as arbitrary: q)
  case Nil
  then show ?case by (simp add: arclist_def)
next
  case (Cons a as)
  obtain p w where a: "a = (p, w)" by fastforce
  have c: "arclist (a # as) = arclist_cons a (arclist as)" by (simp add: arclist_def)
  show ?case
  proof (cases "p \<in> fst ` set (arclist as)")
    case True
    then show ?thesis
      using addMultiplicity_weight [OF True arclist_distinct, of w q] Cons
      by (auto simp: c [unfolded a] a arclist_cons_def add.commute)
  next
    case False
    then have "weight_in (arclist as) p = 0" by (rule weight_in_notin)
    then have "(\<Sum>(r, w)\<leftarrow>as. if r = p then w else 0) = 0"
      using Cons [of p] by (simp only: unat_eq_0)
    then show ?thesis using False Cons by (auto simp: c [unfolded a] a arclist_cons_def)
  qed
qed

section \<open>The net that symboltable2net builds\<close>

definition symbols_ok :: "arrayindex_t \<Rightarrow> transition_symbol list \<Rightarrow> bool" where
  "symbols_ok cardPL tss \<longleftrightarrow>
     (\<forall>ts \<in> set tss. \<forall>as \<in> {ts_pre ts, ts_post ts}.
        distinct (map fst as) \<and> (\<forall>(p, w) \<in> set as. p < cardPL \<and> w \<noteq> 0))"

lemma length_append_arcs [simp]: "length (append_arcs i as A) = length A"
  unfolding append_arcs_def by (rule length_fold_pres) auto

lemma append_arcs_nth:
  "k < length A \<Longrightarrow> append_arcs i as A ! k = A ! k @ map (\<lambda>a. (i, snd a)) (filter (\<lambda>a. fst a = k) as)"
  unfolding append_arcs_def by (induction as arbitrary: A) (auto simp: nth_list_update)

lemma place_arcs_fold:
  "k < length A \<Longrightarrow>
   fold (\<lambda>(i, ts) A. append_arcs i (sel ts) A) its A ! k =
   A ! k @ concat (map (\<lambda>(i, ts). map (\<lambda>a. (i, snd a)) (filter (\<lambda>a. fst a = k) (sel ts))) its)"
  by (induction its arbitrary: A) (auto simp: append_arcs_nth)

lemma length_place_arcs [simp]: "length (place_arcs sel n tss) = n"
proof -
  have "length (fold (\<lambda>(i, ts) A. append_arcs i (sel ts) A) its A) = length A" for its A
    by (rule length_fold_pres) auto
  then show ?thesis by (simp add: place_arcs_def)
qed

lemma place_arcs_nth:
  "k < n \<Longrightarrow> place_arcs sel n tss ! k =
   concat (map (\<lambda>(i, ts). map (\<lambda>a. (i, snd a)) (filter (\<lambda>a. fst a = k) (sel ts))) (enumerate 0 tss))"
  by (simp add: place_arcs_def place_arcs_fold)

lemma place_arcs_mem:
  assumes "k < n"
  shows "(i, w) \<in> set (place_arcs sel n tss ! k) \<longleftrightarrow> i < length tss \<and> (k, w) \<in> set (sel (tss ! i))"
  by (force simp: place_arcs_nth [OF assms] in_set_enumerate_eq)

lemma filter_key_short:
  "distinct (map fst as) \<Longrightarrow> length (filter (\<lambda>a. fst a = k) as) \<le> 1"
proof (induction as)
  case (Cons a as)
  show ?case
  proof (cases "fst a = k")
    case True
    then have "filter (\<lambda>b. fst b = k) as = []" using Cons.prems by (auto simp: filter_empty_conv image_iff)
    then show ?thesis by simp
  qed (use Cons in simp)
qed simp

lemma place_arcs_sorted:
  assumes d: "\<forall>ts \<in> set tss. distinct (map fst (sel ts))" and k: "k < n"
  shows "sorted_wrt (<) (map fst (place_arcs sel n tss ! k))"
proof -
  have "sorted_wrt (<) (map fst (concat (map (\<lambda>(i, ts). map (\<lambda>a. (i, snd a)) (filter (\<lambda>a. fst a = k) (sel ts)))
      (enumerate m us)))) \<and>
    (\<forall>i \<in> fst ` set (concat (map (\<lambda>(i, ts). map (\<lambda>a. (i, snd a)) (filter (\<lambda>a. fst a = k) (sel ts))) (enumerate m us))).
       m \<le> i)"
    if "\<forall>ts \<in> set us. distinct (map fst (sel ts))" for m us
    using that
  proof (induction us arbitrary: m)
    case (Cons u us)
    have s: "length (filter (\<lambda>a. fst a = k) (sel u)) \<le> 1" using Cons.prems by (intro filter_key_short) simp
    then have "sorted_wrt (<) (map fst (map (\<lambda>a. (m, snd a)) (filter (\<lambda>a. fst a = k) (sel u))))"
      by (cases "filter (\<lambda>a. fst a = k) (sel u)") auto
    then show ?case using Cons.IH [of "Suc m"] Cons.prems by (fastforce simp: sorted_wrt_append Suc_le_eq)
  qed simp
  then show ?thesis using d by (simp add: place_arcs_nth [OF k])
qed

lemma symboltable2net_simps [simp]:
  "Card (symboltable2net n tss) PL = n" "Card (symboltable2net n tss) TR = length tss"
  "Arcs (symboltable2net n tss) TR PRE = map ts_pre tss" "Arcs (symboltable2net n tss) TR POST = map ts_post tss"
  "Arcs (symboltable2net n tss) PL PRE = place_arcs ts_post n tss"
  "Arcs (symboltable2net n tss) PL POST = place_arcs ts_pre n tss"
  by (simp_all add: symboltable2net_def)

lemma symbols_okD:
  assumes "symbols_ok n tss" "ts \<in> set tss"
  shows "distinct (map fst (ts_pre ts))" "distinct (map fst (ts_post ts))"
    "(p, w) \<in> set (ts_pre ts) \<Longrightarrow> p < n \<and> w \<noteq> 0" "(p, w) \<in> set (ts_post ts) \<Longrightarrow> p < n \<and> w \<noteq> 0"
  using assms unfolding symbols_ok_def by fastforce+

lemma symboltable2net_sorted:
  assumes "symbols_ok n tss" "p < n"
  shows "sorted_wrt (<) (Arc (symboltable2net n tss) PL d p)"
  using place_arcs_sorted [OF _ assms(2), of tss ts_pre] place_arcs_sorted [OF _ assms(2), of tss ts_post]
    symbols_okD(1,2) [OF assms(1)]
  by (cases d) (auto simp: Arc_def)

lemma symboltable2net_wf:
  assumes "symbols_ok n tss"
  shows "wf_net (symboltable2net n tss)"
  unfolding wf_net_def
proof (intro conjI allI impI)
  let ?N = "symboltable2net n tss"
  note ok = symbols_okD [OF assms]
  show "length (Arcs ?N ty d) = Card ?N ty" for ty d by (cases ty; cases d) simp_all
  show "distinct (Arc ?N ty d x)" if "x < Card ?N ty" for ty d x
  proof (cases ty)
    case PL
    then show ?thesis using symboltable2net_sorted [OF assms, of x d] that by (simp add: strict_sorted_iff)
  next
    case TR
    then show ?thesis using that ok(1,2) by (cases d) (simp_all add: Arc_def)
  qed
  fix ty d x y w
  assume x: "x < Card ?N ty" and a: "(y, w) \<in> set (Arcs ?N ty d ! x)"
  have *: "y < Card ?N (other_node ty) \<and> w \<noteq> 0 \<and> (x, w) \<in> set (Arcs ?N (other_node ty) (other_direction d) ! y)"
  proof (cases ty)
    case PL
    then show ?thesis using x a ok(3,4) [OF nth_mem] by (cases d) (fastforce simp: place_arcs_mem)+
  next
    case TR
    then have "y < n \<and> w \<noteq> 0" using x a ok(3,4) nth_mem by (cases d) fastforce+
    then show ?thesis using TR x a by (cases d) (auto simp: place_arcs_mem)
  qed
  then show "y < Card ?N (other_node ty)" "w \<noteq> 0" "(x, w) \<in> set (Arcs ?N (other_node ty) (other_direction d) ! y)"
    by blast+
qed

end
