(* ===== verification/PreprocessNet.thy ===== *)
theory PreprocessNet
  imports Conflicts Frontend SearchProps
begin

text \<open>
  \<open>Net::preprocess\<close> as a whole, for the full copy encoder (no reordering of places) and without the
  progress measure of the sweep line method, and its composition with the front end: every net
  built from duplicate free arc lists comes out in the state the searches assume.
\<close>

section \<open>Net::preprocess\<close>

text \<open>\<open>H\<close> are the random place hashes, \<open>m0\<close> is \<open>Marking::Initial\<close>.  The first place arcs are sorted
  by construction; \<open>sortAllArcs\<close> sorts the rest.\<close>

definition preprocess :: "hash_t list \<Rightarrow> capacity_t list \<Rightarrow> net \<Rightarrow> (net \<times> transition_data \<times> netstate) option" where
  "preprocess H m0 N =
     (let h0 = HashInitial N H m0;
          (N1, T1) = preprocess_organizeDeltas H N
      in case preprocess_organizeConflictingTransitions N1 T1 of
           None \<Rightarrow> None
         | Some T2 \<Rightarrow>
             let N2 = sortAllArcs N1;
                 ns = initial_enabled N2 \<lparr>Current = m0, HashCurrent = h0, Enabled = [], CardEnabled = 0\<rparr>
             in Some (N2, T2, ns))"

section \<open>Permuting arc lists changes nothing else\<close>

lemma arcs_permuted_Card: "arcs_permuted N N' \<Longrightarrow> Card N' = Card N"
  by (simp add: arcs_permuted_def)

lemma arcs_permuted_trans: "arcs_permuted N N' \<Longrightarrow> arcs_permuted N' N'' \<Longrightarrow> arcs_permuted N N''"
  by (simp add: arcs_permuted_def)

lemma arcs_permuted_Arc:
  assumes "arcs_permuted N N'" "n < Card N ty"
  shows "set (Arc N' ty d n) = set (Arc N ty d n)"
proof -
  have "mset (Arcs N' ty d ! n) = mset (Arcs N ty d ! n)" using assms by (simp add: arcs_permuted_def)
  then have "set (Arcs N' ty d ! n) = set (Arcs N ty d ! n)" by (rule mset_eq_setD)
  then show ?thesis by (simp add: Arc_def)
qed

lemma arcs_permuted_step:
  assumes "arcs_permuted N N'" "wf_net N"
  shows "net_step N' M M' \<longleftrightarrow> net_step N M M'"
proof -
  have "enabled_at N' M t = enabled_at N M t" "fire_at N' t M = fire_at N t M" if "t < Card N TR" for t
    using arcs_permuted_weight [OF assms that] by (simp_all add: enabled_at_def fire_at_def)
  then show ?thesis using arcs_permuted_Card [OF assms(1)] by (auto elim!: net_stepE intro: fire_step) (metis fire_step)+
qed

lemma arcs_permuted_reach:
  assumes "arcs_permuted N N'" "wf_net N"
  shows "net_reach N' M M' \<longleftrightarrow> net_reach N M M'"
proof
  show "net_reach N' M M' \<Longrightarrow> net_reach N M M'"
    by (induction rule: net_reach.induct) (auto intro: reach_refl reach_step simp: arcs_permuted_step [OF assms])
  show "net_reach N M M' \<Longrightarrow> net_reach N' M M'"
    by (induction rule: net_reach.induct)
       (auto intro: reach_refl reach_step simp: arcs_permuted_step [OF assms, symmetric])
qed

lemma arcs_permuted_deltas:
  assumes "arcs_permuted N N'" "wf_net N"
  shows "deltas_ok N T \<Longrightarrow> deltas_ok N' T" "deltahash_ok H N T \<Longrightarrow> deltahash_ok H N' T"
  using arcs_permuted_weight [OF assms] arcs_permuted_Card [OF assms(1)]
  by (simp_all add: deltas_ok_def deltahash_ok_def)

lemma arcs_permuted_conflicts:
  assumes "arcs_permuted N N'" "wf_net N" "conflicts_ok N T"
  shows "conflicts_ok N' T"
  unfolding conflicts_ok_def
proof (intro allI impI)
  fix t
  assume t: "t < Card N' TR"
  have c: "Card N' = Card N" by (rule arcs_permuted_Card [OF assms(1)])
  have eq: "(\<Union>p \<in> set (Arc N' TR d t). set (Arc N' PL POST p)) = (\<Union>p \<in> set (Arc N TR d t). set (Arc N PL POST p))" for d
  proof (rule SUP_cong)
    show "set (Arc N' TR d t) = set (Arc N TR d t)" using arcs_permuted_Arc [OF assms(1)] t c by simp
    show "set (Arc N' PL POST p) = set (Arc N PL POST p)" if "p \<in> set (Arc N TR d t)" for p
      using arcs_permuted_Arc [OF assms(1)] wf_net_Arc_less [OF assms(2) _ that] t c by simp
  qed
  show "set (Conflicting T ! t) = (\<Union>p \<in> set (Arc N' TR PRE t). set (Arc N' PL POST p)) \<and>
      set (BackConflicting T ! t) = (\<Union>p \<in> set (Arc N' TR POST t). set (Arc N' PL POST p))"
    using assms(3) t c by (simp add: eq conflicts_ok_def)
qed

lemma sort_transition_arcs_place: "Arc (sort_transition_arcs N) PL d p = Arc N PL d p"
  by (simp add: Arc_def sort_transition_arcs_def)

section \<open>A preprocessed net is ready for the searches\<close>

definition bounded_net :: "net \<Rightarrow> marking \<Rightarrow> bool" where
  "bounded_net N M0 \<longleftrightarrow> (\<forall>M p. net_reach N M0 M \<and> p < Card N PL \<longrightarrow> M p < 2 ^ 32)"

lemma preprocess_ready:
  assumes wf: "wf_net N" and srt: "\<And>d p. p < Card N PL \<Longrightarrow> sorted (Arc N PL d p)"
    and H: "hashes_ok N H" and m0: "length m0 = Card N PL" and b: "bounded_net N (marking_of m0)"
  shows "\<exists>N' T ns. preprocess H m0 N = Some (N', T, ns) \<and> search_ready N' T H ns \<and>
    arcs_permuted N N' \<and> Current ns = m0"
proof -
  obtain N1 T1 where 1: "preprocess_organizeDeltas H N = (N1, T1)" by fastforce
  have N1: "N1 = sort_transition_arcs N" using organizeDeltas_fst [of H N] 1 by simp
  have p1: "arcs_permuted N N1" using sort_transition_arcs_permuted [OF wf] N1 by simp
  have wf1: "wf_net N1" by (rule arcs_permuted_wf [OF p1 wf])
  have ps: "place_sorted_net N1"
    using wf1 srt arcs_permuted_Card [OF p1] by unfold_locales (simp_all add: N1 sort_transition_arcs_place)
  obtain T2 where 2: "preprocess_organizeConflictingTransitions N1 T1 = Some T2" "DeltaT T2 = DeltaT T1"
    "DeltaHash T2 = DeltaHash T1" "conflicts_ok N1 T2"
    using place_sorted_net.organizeConflicting_correct [OF ps] by blast
  have d: "deltas_ok N T1" "deltahash_ok H N T1"
    using organizeDeltas_deltas_ok [OF wf, of H] organizeDeltas_deltahash_ok [OF wf, of H] 1 by simp_all
  then have d2: "deltas_ok N T2" "deltahash_ok H N T2" using 2 by (simp_all add: deltas_ok_def deltahash_ok_def)
  define N2 where "N2 = sortAllArcs N1"
  have p12: "arcs_permuted N1 N2" using sortAllArcs_permuted [OF wf1] by (simp add: N2_def)
  have p2: "arcs_permuted N N2" by (rule arcs_permuted_trans [OF p1 p12])
  let ?n0 = "\<lparr>Current = m0, HashCurrent = HashInitial N H m0, Enabled = [], CardEnabled = 0\<rparr>"
  let ?ns = "initial_enabled N2 ?n0"
  have c: "Card N2 = Card N" by (rule arcs_permuted_Card [OF p2])
  have e: "enabled_ok N2 ?ns" "Current ?ns = m0" using initial_enabled_exact [of ?n0 N2] m0 c by simp_all
  have h: "HashCurrent ?ns = marking_hash H (Card N PL) (marking_of m0)"
    by (simp add: initial_enabled_Hash HashInitial_eq [OF H m0])
  have init: "initial_state N2 H ?ns"
    using e h m0 c by (simp add: initial_state_def good_state_def hashed_state_def reachable_vec_def net_reach.reach_refl)
  have "search_ready N2 T2 H ?ns"
    using arcs_permuted_wf [OF p2 wf] arcs_permuted_deltas [OF p2 wf] d2 arcs_permuted_conflicts [OF p12 wf1 2(4)]
      init e(2) b c arcs_permuted_reach [OF p2 wf]
    by (simp add: search_ready_def bounded_net_def)
  moreover have "preprocess H m0 N = Some (N2, T2, ?ns)"
    using 1 2(1) by (simp add: preprocess_def N2_def Let_def)
  ultimately show ?thesis using p2 e(2) by blast
qed

section \<open>Properties\<close>

text \<open>C19: \<open>preprocess_organizeDeltas\<close> computes exactly the token changes of every transition, and a
  \<open>DeltaHash\<close> with which the hash value maintained by firing is the hash value of the marking.\<close>

theorem organizeDeltas_exact:
  assumes "wf_net N" "T = snd (preprocess_organizeDeltas H N)"
  shows "deltas_ok N T \<and>
    (\<forall>t M. t < Card N TR \<and> enabled_at N M t \<longrightarrow>
       marking_hash H (Card N PL) (fire_at N t M) =
       (marking_hash H (Card N PL) M + DeltaHash T ! t) mod SIZEOF_MARKINGTABLE)"
  using organizeDeltas_deltas_ok [OF assms(1)] marking_hash_fire [OF organizeDeltas_deltahash_ok [OF assms(1)]]
  by (simp add: assms(2))

theorem organizeDeltas_exact_witness:
  "deltas_ok ring_net (snd (preprocess_organizeDeltas ring_hashes ring_net))"
  using organizeDeltas_exact [OF ring_wf refl] by blast

text \<open>C13: the backtracking computation of the conflict sets terminates, and yields for every
  transition the sorted list of all transitions that share a pre place with it (resp. have one of
  its post places as pre place).\<close>

theorem organizeConflicting_exact:
  assumes "wf_net N" "\<forall>p < Card N PL. \<forall>d. sorted (Arc N PL d p)"
  shows "\<exists>T'. preprocess_organizeConflictingTransitions N T = Some T' \<and> conflicts_ok N T' \<and>
    (\<forall>t < Card N TR. sorted_wrt (<) (Conflicting T' ! t) \<and> sorted_wrt (<) (BackConflicting T' ! t))"
proof -
  have "place_sorted_net N" using assms by unfold_locales auto
  from place_sorted_net.organizeConflicting_correct [OF this, of T] show ?thesis by blast
qed

lemma ring_place_sorted: "\<forall>p < Card ring_net PL. \<forall>d. sorted (Arc ring_net PL d p)"
proof (intro allI impI)
  fix p d
  assume "p < Card ring_net PL"
  then show "sorted (Arc ring_net PL d p)" by (cases d) (auto simp: less_two Arc_def)
qed

theorem organizeConflicting_exact_witness:
  "\<exists>T'. preprocess_organizeConflictingTransitions ring_net ring_trans = Some T'"
  using organizeConflicting_exact [OF ring_wf ring_place_sorted] by blast

text \<open>C12: the net that \<open>symboltable2net\<close> builds from duplicate free arc lists is well-formed, its
  place arcs are sorted, and \<open>preprocess\<close> brings it into the state all searches assume.\<close>

theorem frontend_preprocess_ready:
  assumes "symbols_ok n tss" "N = symboltable2net n tss" "hashes_ok N H" "length m0 = n"
    and "bounded_net N (marking_of m0)"
  shows "wf_net N \<and>
    (\<exists>N' T ns. preprocess H m0 N = Some (N', T, ns) \<and> search_ready N' T H ns \<and> arcs_permuted N N' \<and> Current ns = m0)"
proof -
  have wf: "wf_net N" using symboltable2net_wf [OF assms(1)] assms(2) by simp
  have "sorted (Arc N PL d p)" if "p < Card N PL" for d p
    using symboltable2net_sorted [OF assms(1), of p d] that assms(2) by (simp add: strict_sorted_iff)
  then show ?thesis using preprocess_ready [OF wf _ assms(3)] assms wf by simp
qed

definition ring_symbols :: "transition_symbol list" where
  "ring_symbols = [\<lparr>ts_pre = [(0, 1)], ts_post = [(1, 1)]\<rparr>, \<lparr>ts_pre = [(1, 1)], ts_post = [(0, 1)]\<rparr>]"

lemma ring_from_symbols: "symboltable2net 2 ring_symbols = ring_net"
proof -
  have "Card (symboltable2net 2 ring_symbols) ty = Card ring_net ty" for ty
    by (cases ty) (simp_all add: ring_symbols_def)
  moreover have "Arcs (symboltable2net 2 ring_symbols) ty d = Arcs ring_net ty d" for ty d
    by (cases ty; cases d)
      (simp_all add: ring_symbols_def place_arcs_def append_arcs_def numeral_2_eq_2)
  ultimately show ?thesis by (intro net.equality ext) simp_all
qed

lemma ring_frontend:
  "symbols_ok 2 ring_symbols" "hashes_ok ring_net ring_hashes" "bounded_net ring_net (marking_of [1, 0])"
proof -
  show "symbols_ok 2 ring_symbols" by (simp add: symbols_ok_def ring_symbols_def)
  show "hashes_ok ring_net ring_hashes" by (simp add: hashes_ok_def ring_hashes_def)
  have "M p < 2 ^ 32" if "net_reach ring_net (marking_of [1, 0]) M" "p < 2" for M p
    using ring_reach [OF that(1)] that(2) by (auto simp: less_two)
  then show "bounded_net ring_net (marking_of [1, 0])" by (simp add: bounded_net_def)
qed

theorem frontend_preprocess_ready_witness:
  "\<exists>N' T ns. preprocess ring_hashes [1, 0] (symboltable2net 2 ring_symbols) = Some (N', T, ns) \<and>
     search_ready N' T ring_hashes ns"
  using frontend_preprocess_ready [OF ring_frontend(1) refl, of ring_hashes "[1, 0]"] ring_frontend(2,3)
  by (simp add: ring_from_symbols) blast

text \<open>Merging duplicate places of an arc list yields a duplicate free list whose weights are the
  sums of the multiplicities in 16 bit arithmetic.\<close>

theorem arclist_merges:
  "distinct (map fst (arclist as)) \<and> (\<forall>q. weight_in (arclist as) q = unat (\<Sum>(p, w)\<leftarrow>as. if p = q then w else 0))"
  by (simp add: arclist_distinct arclist_weight)

text \<open>\<open>Capacity2Bits\<close> returns the number of binary digits.\<close>

theorem Capacity2Bits_exact:
  "unat cap < 2 ^ Capacity2Bits cap \<and> (cap \<noteq> 0 \<longrightarrow> 2 ^ (Capacity2Bits cap - 1) \<le> unat cap)"
  using capacity_loop_bounds [of 0 cap] by (auto simp: Capacity2Bits_def unat_gt_0)

theorem Capacity2Bits_exact_witness: "2 ^ (Capacity2Bits 5 - 1) \<le> unat (5 :: capacity_t)"
  using Capacity2Bits_exact [of 5] by simp

end
