(* ===== verification/StatePredicate.thy ===== *)
theory StatePredicate
  imports Firing "HOL-Library.Monad_Syntax"
begin

text \<open>
  The state predicates of \<open>src/Formula/StatePredicate\<close>: a formula is a tree of objects that is
  updated in place, from the leaves towards the root.  The objects live in a heap (a list indexed by
  addresses), because the update of a leaf follows the parent pointers and reorders the arrays of the
  ancestors.  Here: the objects, the methods of all classes, and the invariants of the heap.
\<close>

section \<open>Objects\<close>

text \<open>
  The class of an object with its constant data.  \<open>Atomic\<close> holds \<open>posPlaces\<close>/\<open>posMult\<close> and
  \<open>negPlaces\<close>/\<open>negMult\<close> as lists of pairs and the threshold, a signed 32 bit integer.
\<close>

datatype sp_kind =
    Atomic "(arrayindex_t \<times> capacity_t) list" "(arrayindex_t \<times> capacity_t) list" "32 word"
  | Deadlock bool
  | Fireable arrayindex_t bool
  | TruePredicate
  | FalsePredicate
  | Conjunction
  | Disjunction

type_synonym addr = nat

record sp_node =
  kind :: sp_kind
  sp_value :: bool
  parent :: "addr option"
  position :: arrayindex_t
  sp_sum :: "32 word"
  up :: "arrayindex_t list"
  sub :: "addr list"
  cardSat :: arrayindex_t

type_synonym sp_heap = "sp_node list"

definition is_inner :: "sp_node \<Rightarrow> bool" where
  "is_inner n \<longleftrightarrow> kind n = Conjunction \<or> kind n = Disjunction"

fun is_atomic :: "sp_kind \<Rightarrow> bool" where
  "is_atomic (Atomic _ _ _) = True"
| "is_atomic _ = False"

fun is_deadlock :: "sp_kind \<Rightarrow> bool" where
  "is_deadlock (Deadlock _) = True"
| "is_deadlock _ = False"

fun is_fireable :: "sp_kind \<Rightarrow> bool" where
  "is_fireable (Fireable _ _) = True"
| "is_fireable _ = False"

definition set_value :: "bool \<Rightarrow> addr \<Rightarrow> sp_heap \<Rightarrow> sp_heap" where
  "set_value b a h = h[a := (h ! a)\<lparr>sp_value := b\<rparr>]"

definition set_position :: "arrayindex_t \<Rightarrow> addr \<Rightarrow> sp_heap \<Rightarrow> sp_heap" where
  "set_position i a h = h[a := (h ! a)\<lparr>position := i\<rparr>]"

text \<open>\<open>addSub\<close> of both inner classes: put \<open>f\<close> into cell \<open>i\<close> of \<open>a\<close>.\<close>

definition addSub :: "addr \<Rightarrow> arrayindex_t \<Rightarrow> addr \<Rightarrow> sp_heap \<Rightarrow> sp_heap" where
  "addSub a i f h =
     (let h1 = h[a := (h ! a)\<lparr>sub := (sub (h ! a))[i := f]\<rparr>]
      in h1[f := (h1 ! f)\<lparr>position := i, parent := Some a\<rparr>])"

section \<open>updateTF and updateFT\<close>

text \<open>Exchange the cells \<open>i\<close> and \<open>cardSat\<close> of \<open>sub\<close> and record the new positions.\<close>

definition swap_sub :: "addr \<Rightarrow> arrayindex_t \<Rightarrow> sp_heap \<Rightarrow> sp_heap" where
  "swap_sub a i h =
     (let c = cardSat (h ! a);
          s = swap_at (sub (h ! a)) i c;
          h1 = h[a := (h ! a)\<lparr>sub := s\<rparr>]
      in set_position c (s ! c) (set_position i (s ! i) h1))"

definition add_sat :: "(arrayindex_t \<Rightarrow> arrayindex_t) \<Rightarrow> addr \<Rightarrow> sp_heap \<Rightarrow> sp_heap" where
  "add_sat f a h = h[a := (h ! a)\<lparr>cardSat := f (cardSat (h ! a))\<rparr>]"

text \<open>
  The methods call the same method of the parent, a virtual function: \<open>notify p i h\<close> stands for
  \<open>parent->updateTF(position)\<close> resp. \<open>parent->updateFT(position)\<close>.  \<open>updateTF\<close> informs the parent
  before it moves the member, \<open>updateFT\<close> afterwards.
\<close>

definition conjunction_updateTF ::
  "(addr \<Rightarrow> arrayindex_t \<Rightarrow> sp_heap \<Rightarrow> sp_heap option) \<Rightarrow> addr \<Rightarrow> arrayindex_t \<Rightarrow> sp_heap \<Rightarrow> sp_heap option" where
  "conjunction_updateTF notify a i h =
     (let h1 = add_sat (\<lambda>c. c - 1) a h
      in if cardSat (h ! a) = length (sub (h ! a))
         then (let h2 = set_value False a h1
               in case parent (h2 ! a) of
                    None \<Rightarrow> Some (swap_sub a i h2)
                  | Some p \<Rightarrow> do { h3 \<leftarrow> notify p (position (h2 ! a)) h2; Some (swap_sub a i h3) })
         else Some (swap_sub a i h1))"

definition disjunction_updateTF ::
  "(addr \<Rightarrow> arrayindex_t \<Rightarrow> sp_heap \<Rightarrow> sp_heap option) \<Rightarrow> addr \<Rightarrow> arrayindex_t \<Rightarrow> sp_heap \<Rightarrow> sp_heap option" where
  "disjunction_updateTF notify a i h =
     (let h1 = add_sat (\<lambda>c. c - 1) a h
      in if cardSat (h ! a) = 1
         then (let h2 = set_value False a h1
               in case parent (h2 ! a) of
                    None \<Rightarrow> Some (swap_sub a i h2)
                  | Some p \<Rightarrow> do { h3 \<leftarrow> notify p (position (h2 ! a)) h2; Some (swap_sub a i h3) })
         else Some (swap_sub a i h1))"

definition conjunction_updateFT ::
  "(addr \<Rightarrow> arrayindex_t \<Rightarrow> sp_heap \<Rightarrow> sp_heap option) \<Rightarrow> addr \<Rightarrow> arrayindex_t \<Rightarrow> sp_heap \<Rightarrow> sp_heap option" where
  "conjunction_updateFT notify a i h =
     (let h1 = add_sat Suc a (swap_sub a i h)
      in if cardSat (h1 ! a) = length (sub (h1 ! a))
         then (let h2 = set_value True a h1
               in case parent (h2 ! a) of None \<Rightarrow> Some h2 | Some p \<Rightarrow> notify p (position (h2 ! a)) h2)
         else Some h1)"

definition disjunction_updateFT ::
  "(addr \<Rightarrow> arrayindex_t \<Rightarrow> sp_heap \<Rightarrow> sp_heap option) \<Rightarrow> addr \<Rightarrow> arrayindex_t \<Rightarrow> sp_heap \<Rightarrow> sp_heap option" where
  "disjunction_updateFT notify a i h =
     (let h1 = add_sat Suc a (swap_sub a i h)
      in if cardSat (h1 ! a) = 1
         then (let h2 = set_value True a h1
               in case parent (h2 ! a) of None \<Rightarrow> Some h2 | Some p \<Rightarrow> notify p (position (h2 ! a)) h2)
         else Some h1)"

text \<open>The virtual functions; the methods of the other classes are empty.\<close>

lemma mono_conjunction_updateTF [partial_function_mono]:
  assumes "\<And>p j h. mono_option (\<lambda>f. g f p j h)"
  shows "mono_option (\<lambda>f. conjunction_updateTF (g f) a i h)"
  unfolding conjunction_updateTF_def Let_def
  by (cases "parent (set_value False a (add_sat (\<lambda>c. c - 1) a h) ! a)"; simp only: option.case; intro partial_function_mono assms)

lemma mono_disjunction_updateTF [partial_function_mono]:
  assumes "\<And>p j h. mono_option (\<lambda>f. g f p j h)"
  shows "mono_option (\<lambda>f. disjunction_updateTF (g f) a i h)"
  unfolding disjunction_updateTF_def Let_def
  by (cases "parent (set_value False a (add_sat (\<lambda>c. c - 1) a h) ! a)"; simp only: option.case; intro partial_function_mono assms)

lemma mono_conjunction_updateFT [partial_function_mono]:
  assumes "\<And>p j h. mono_option (\<lambda>f. g f p j h)"
  shows "mono_option (\<lambda>f. conjunction_updateFT (g f) a i h)"
  unfolding conjunction_updateFT_def Let_def
  by (cases "parent (set_value True a (add_sat Suc a (swap_sub a i h)) ! a)"; simp only: option.case; intro partial_function_mono assms)

lemma mono_disjunction_updateFT [partial_function_mono]:
  assumes "\<And>p j h. mono_option (\<lambda>f. g f p j h)"
  shows "mono_option (\<lambda>f. disjunction_updateFT (g f) a i h)"
  unfolding disjunction_updateFT_def Let_def
  by (cases "parent (set_value True a (add_sat Suc a (swap_sub a i h)) ! a)"; simp only: option.case; intro partial_function_mono assms)

partial_function (option) updateTF :: "sp_heap \<Rightarrow> addr \<Rightarrow> arrayindex_t \<Rightarrow> sp_heap option" where
  "updateTF h a i =
     (case kind (h ! a) of
        Conjunction \<Rightarrow> conjunction_updateTF (\<lambda>p j h. updateTF h p j) a i h
      | Disjunction \<Rightarrow> disjunction_updateTF (\<lambda>p j h. updateTF h p j) a i h
      | _ \<Rightarrow> Some h)"

partial_function (option) updateFT :: "sp_heap \<Rightarrow> addr \<Rightarrow> arrayindex_t \<Rightarrow> sp_heap option" where
  "updateFT h a i =
     (case kind (h ! a) of
        Conjunction \<Rightarrow> conjunction_updateFT (\<lambda>p j h. updateFT h p j) a i h
      | Disjunction \<Rightarrow> disjunction_updateFT (\<lambda>p j h. updateFT h p j) a i h
      | _ \<Rightarrow> Some h)"

text \<open>The value of \<open>cardSat\<close> at which an object is just true: a conjunction turns when its last unsatisfied
  member does, a disjunction when its first satisfied member does.\<close>

definition threshold_sat :: "sp_node \<Rightarrow> arrayindex_t" where
  "threshold_sat n = (if kind n = Conjunction then length (sub n) else 1)"

lemma nth_set_value: "a < length h \<Longrightarrow> set_value b a h ! x = (if x = a then (h ! x)\<lparr>sp_value := b\<rparr> else h ! x)"
  by (simp add: set_value_def)

lemma nth_add_sat: "a < length h \<Longrightarrow> add_sat f a h ! x = (if x = a then (h ! x)\<lparr>cardSat := f (cardSat (h ! x))\<rparr> else h ! x)"
  by (simp add: add_sat_def)

lemma length_add_sat [simp]: "length (add_sat f a h) = length h"
  by (simp add: add_sat_def)

text \<open>Both inner classes at once.\<close>

lemma updateTF_eq:
  assumes "a < length h" "is_inner (h ! a)"
  shows "updateTF h a i =
     (let h1 = add_sat (\<lambda>c. c - 1) a h
      in if cardSat (h ! a) = threshold_sat (h ! a)
         then (let h2 = set_value False a h1
               in case parent (h ! a) of
                    None \<Rightarrow> Some (swap_sub a i h2)
                  | Some p \<Rightarrow> do { h3 \<leftarrow> updateTF h2 p (position (h ! a)); Some (swap_sub a i h3) })
         else Some (swap_sub a i h1))"
  using assms
  by (subst updateTF.simps)
     (auto simp: is_inner_def threshold_sat_def conjunction_updateTF_def disjunction_updateTF_def Let_def
        nth_set_value nth_add_sat split: option.splits)

lemma updateFT_eq:
  assumes "is_inner (h ! a)" "kind (swap_sub a i h ! a) = kind (h ! a)" "a < length (swap_sub a i h)"
  shows "updateFT h a i =
     (let h1 = add_sat Suc a (swap_sub a i h)
      in if cardSat (h1 ! a) = threshold_sat (h1 ! a)
         then (let h2 = set_value True a h1
               in case parent (h2 ! a) of None \<Rightarrow> Some h2 | Some p \<Rightarrow> updateFT h2 p (position (h2 ! a)))
         else Some h1)"
  using assms
  by (subst updateFT.simps)
     (auto simp: is_inner_def threshold_sat_def conjunction_updateFT_def disjunction_updateFT_def Let_def
        nth_add_sat split: option.splits)

section \<open>Leaves\<close>

text \<open>The formal sum; \<open>int\<close> and \<open>unsigned\<close> arithmetic of 32 bits is arithmetic of 32 bit words.\<close>

definition atomic_sum ::
  "(arrayindex_t \<times> capacity_t) list \<Rightarrow> (arrayindex_t \<times> capacity_t) list \<Rightarrow> capacity_t list \<Rightarrow> 32 word" where
  "atomic_sum pos neg m =
     fold (\<lambda>(p, k) s. s - m ! p * k) neg (fold (\<lambda>(p, k) s. s + m ! p * k) pos 0)"

definition leaf_value :: "netstate \<Rightarrow> sp_node \<Rightarrow> bool" where
  "leaf_value ns n =
     (case kind n of
        Atomic pos neg thr \<Rightarrow> atomic_sum pos neg (Current ns) <=s thr
      | Deadlock sign \<Rightarrow> (if sign then CardEnabled ns = 0 else CardEnabled ns \<noteq> 0)
      | Fireable t sign \<Rightarrow> (if sign then Enabled ns ! t else \<not> Enabled ns ! t)
      | TruePredicate \<Rightarrow> True
      | _ \<Rightarrow> False)"

text \<open>\<open>evaluate\<close> of the leaf classes.\<close>

definition atomic_evaluate :: "netstate \<Rightarrow> addr \<Rightarrow> sp_heap \<Rightarrow> sp_heap" where
  "atomic_evaluate ns a h =
     (case kind (h ! a) of
        Atomic pos neg thr \<Rightarrow>
          (let s = atomic_sum pos neg (Current ns) in h[a := (h ! a)\<lparr>sp_sum := s, sp_value := s <=s thr\<rparr>])
      | _ \<Rightarrow> h)"

definition fireable_evaluate :: "netstate \<Rightarrow> arrayindex_t \<Rightarrow> bool \<Rightarrow> bool" where
  "fireable_evaluate ns t sign = (if sign then Enabled ns ! t else \<not> Enabled ns ! t)"

definition deadlock_evaluate :: "netstate \<Rightarrow> bool \<Rightarrow> bool" where
  "deadlock_evaluate ns sign = (if sign then CardEnabled ns = 0 else CardEnabled ns \<noteq> 0)"

definition evaluate_leaf :: "netstate \<Rightarrow> addr \<Rightarrow> sp_heap \<Rightarrow> sp_heap" where
  "evaluate_leaf ns a h =
     (case kind (h ! a) of
        Atomic pos neg thr \<Rightarrow> atomic_evaluate ns a h
      | Fireable t sign \<Rightarrow> set_value (fireable_evaluate ns t sign) a h
      | Deadlock sign \<Rightarrow> set_value (deadlock_evaluate ns sign) a h
      | _ \<Rightarrow> h)"

text \<open>The constant classes get their value in the constructor, and their \<open>evaluate\<close> is empty.\<close>

definition constants_ok :: "sp_heap \<Rightarrow> bool" where
  "constants_ok h \<longleftrightarrow> (\<forall>a < length h.
     (kind (h ! a) = TruePredicate \<longrightarrow> sp_value (h ! a)) \<and> (kind (h ! a) = FalsePredicate \<longrightarrow> \<not> sp_value (h ! a)))"

text \<open>\<open>value = b\<close>, telling the parent.\<close>

definition turn :: "bool \<Rightarrow> addr \<Rightarrow> sp_heap \<Rightarrow> sp_heap option" where
  "turn b a h =
     (let h1 = set_value b a h
      in case parent (h ! a) of
           None \<Rightarrow> Some h1
         | Some p \<Rightarrow> (if b then updateFT h1 p (position (h ! a)) else updateTF h1 p (position (h ! a))))"

text \<open>\<open>AtomicStatePredicate::update\<close>\<close>

definition atomic_update :: "addr \<times> 32 word \<Rightarrow> sp_heap \<Rightarrow> sp_heap option" where
  "atomic_update d h =
     (case d of (a, delta) \<Rightarrow>
        (case kind (h ! a) of
           Atomic pos neg thr \<Rightarrow>
             (let s = sp_sum (h ! a) + delta; h1 = h[a := (h ! a)\<lparr>sp_sum := s\<rparr>]
              in if s <=s thr \<and> \<not> sp_value (h ! a) then turn True a h1
                 else if \<not> s <=s thr \<and> sp_value (h ! a) then turn False a h1
                 else Some h1)
         | _ \<Rightarrow> None))"

text \<open>\<open>FireablePredicate::update\<close>\<close>

definition fireable_update :: "netstate \<Rightarrow> addr \<Rightarrow> sp_heap \<Rightarrow> sp_heap option" where
  "fireable_update ns a h =
     (case kind (h ! a) of
        Fireable t sign \<Rightarrow>
          (let newvalue = fireable_evaluate ns t sign
           in case parent (h ! a) of
                None \<Rightarrow> Some (set_value newvalue a h)
              | Some p \<Rightarrow>
                  if newvalue \<and> \<not> sp_value (h ! a) then updateFT (set_value newvalue a h) p (position (h ! a))
                  else if \<not> newvalue \<and> sp_value (h ! a) then updateTF (set_value newvalue a h) p (position (h ! a))
                  else Some (set_value newvalue a h))
      | _ \<Rightarrow> None)"

text \<open>\<open>DeadlockPredicate::update\<close> stores a value that turns false after it has told the parent.\<close>

definition deadlock_pred_update :: "netstate \<Rightarrow> addr \<Rightarrow> sp_heap \<Rightarrow> sp_heap option" where
  "deadlock_pred_update ns a h =
     (case kind (h ! a) of
        Deadlock sign \<Rightarrow>
          (let newvalue = deadlock_evaluate ns sign
           in case parent (h ! a) of
                None \<Rightarrow> Some (set_value newvalue a h)
              | Some p \<Rightarrow>
                  if newvalue \<and> \<not> sp_value (h ! a) then updateFT (set_value newvalue a h) p (position (h ! a))
                  else if \<not> newvalue \<and> sp_value (h ! a)
                  then do { h1 \<leftarrow> updateTF h p (position (h ! a)); Some (set_value newvalue a h1) }
                  else Some (set_value newvalue a h))
      | _ \<Rightarrow> None)"

text \<open>Both at once, see \<open>deadlock_update_eq\<close> in theory \<open>PredicateInv\<close>.\<close>

definition enabling_update :: "netstate \<Rightarrow> addr \<Rightarrow> sp_heap \<Rightarrow> sp_heap option" where
  "enabling_update ns a h =
     (let newvalue = leaf_value ns (h ! a)
      in if newvalue \<and> \<not> sp_value (h ! a) then turn True a h
         else if \<not> newvalue \<and> sp_value (h ! a) then turn False a h
         else Some h)"

section \<open>evaluate\<close>

function skip_sat :: "(addr \<Rightarrow> bool) \<Rightarrow> addr list \<Rightarrow> nat \<Rightarrow> nat" where
  "skip_sat v s l = (if l < length s \<and> v (s ! l) then skip_sat v s (l + 1) else l)"
  by pat_completeness auto
termination
  by (relation "measure (\<lambda>(v, s, l). length s - l)") auto

declare skip_sat.simps [simp del]

fun skip_unsat :: "(addr \<Rightarrow> bool) \<Rightarrow> addr list \<Rightarrow> nat \<Rightarrow> nat" where
  "skip_unsat v s 0 = 0"
| "skip_unsat v s (Suc r) = (if \<not> v (s ! r) then skip_unsat v s r else Suc r)"

lemma skip_unsat_le: "skip_unsat v s r \<le> r"
  by (induction r) auto

text \<open>Sort the satisfied members to the left; the result is the array and its number of satisfied
  members.\<close>

function sat_partition :: "(addr \<Rightarrow> bool) \<Rightarrow> addr list \<Rightarrow> nat \<Rightarrow> nat \<Rightarrow> addr list \<times> nat" where
  "sat_partition v s left right =
     (let l = skip_sat v s left; r = skip_unsat v s right
      in if r \<le> l then (s, l) else sat_partition v (swap_at s l (r - 1)) (l + 1) (r - 1))"
  by pat_completeness auto
termination
proof (relation "measure (\<lambda>(v, s, left, right). right)", goal_cases)
  case (2 v s left right l r)
  then show ?case using skip_unsat_le [of v s right] by auto
qed simp

declare sat_partition.simps [simp del]

definition update_positions :: "addr list \<Rightarrow> sp_heap \<Rightarrow> sp_heap" where
  "update_positions s h = fold (\<lambda>i h. set_position i (s ! i) h) [0..<length s] h"

text \<open>\<open>evaluate\<close> of the two inner classes, after the loop over the members.\<close>

definition conjunction_evaluate :: "addr \<Rightarrow> sp_heap \<Rightarrow> sp_heap" where
  "conjunction_evaluate a h =
     (let n = h ! a;
          (s, c) = sat_partition (\<lambda>x. sp_value (h ! x)) (sub n) 0 (length (sub n))
      in update_positions s (h[a := n\<lparr>sub := s, cardSat := c, sp_value := (c = length (sub n))\<rparr>]))"

definition disjunction_evaluate :: "addr \<Rightarrow> sp_heap \<Rightarrow> sp_heap" where
  "disjunction_evaluate a h =
     (let n = h ! a;
          (s, c) = sat_partition (\<lambda>x. sp_value (h ! x)) (sub n) 0 (length (sub n))
      in update_positions s (h[a := n\<lparr>sub := s, cardSat := c, sp_value := (0 < c)\<rparr>]))"

definition evaluate_inner :: "addr \<Rightarrow> sp_heap \<Rightarrow> sp_heap" where
  "evaluate_inner a h = (if kind (h ! a) = Conjunction then conjunction_evaluate a h else disjunction_evaluate a h)"

text \<open>The loop of \<open>evaluate\<close> over the members, from member \<open>i\<close> on.\<close>

partial_function (option) evaluate_from :: "netstate \<Rightarrow> sp_heap \<Rightarrow> addr \<Rightarrow> nat \<Rightarrow> sp_heap option" where
  "evaluate_from ns h a i =
     (if \<not> is_inner (h ! a) then Some (evaluate_leaf ns a h)
      else if i < length (sub (h ! a))
      then do { h1 \<leftarrow> evaluate_from ns h (sub (h ! a) ! i) 0; evaluate_from ns h1 a (i + 1) }
      else Some (evaluate_inner a h))"

definition evaluate :: "netstate \<Rightarrow> addr \<Rightarrow> sp_heap \<Rightarrow> sp_heap option" where
  "evaluate ns a h = evaluate_from ns h a 0"

section \<open>Counting and collecting subformulas\<close>

text \<open>\<open>countAtomic\<close>, \<open>countDeadlock\<close>, \<open>countFireable\<close> and the three collectors have the same loop;
  \<open>sel\<close> tells the leaves that answer for themselves.\<close>

partial_function (option) collect_from ::
  "(sp_kind \<Rightarrow> bool) \<Rightarrow> sp_heap \<Rightarrow> addr \<Rightarrow> nat \<Rightarrow> addr list option" where
  "collect_from sel h a i =
     (if \<not> is_inner (h ! a) then Some (if sel (kind (h ! a)) then [a] else [])
      else if i < length (sub (h ! a))
      then do { xs \<leftarrow> collect_from sel h (sub (h ! a) ! i) 0; ys \<leftarrow> collect_from sel h a (i + 1); Some (xs @ ys) }
      else Some [])"

partial_function (option) count_from ::
  "(sp_kind \<Rightarrow> bool) \<Rightarrow> sp_heap \<Rightarrow> addr \<Rightarrow> nat \<Rightarrow> arrayindex_t option" where
  "count_from sel h a i =
     (if \<not> is_inner (h ! a) then Some (if sel (kind (h ! a)) then 1 else 0)
      else if i < length (sub (h ! a))
      then do { c \<leftarrow> count_from sel h (sub (h ! a) ! i) 0; d \<leftarrow> count_from sel h a (i + 1); Some (c + d) }
      else Some 0)"

definition collectAtomic :: "sp_heap \<Rightarrow> addr \<Rightarrow> addr list option" where
  "collectAtomic h a = collect_from is_atomic h a 0"

definition collectDeadlock :: "sp_heap \<Rightarrow> addr \<Rightarrow> addr list option" where
  "collectDeadlock h a = collect_from is_deadlock h a 0"

definition collectFireable :: "sp_heap \<Rightarrow> addr \<Rightarrow> addr list option" where
  "collectFireable h a = collect_from is_fireable h a 0"

definition countAtomic :: "sp_heap \<Rightarrow> addr \<Rightarrow> arrayindex_t option" where
  "countAtomic h a = count_from is_atomic h a 0"

definition countDeadlock :: "sp_heap \<Rightarrow> addr \<Rightarrow> arrayindex_t option" where
  "countDeadlock h a = count_from is_deadlock h a 0"

definition countFireable :: "sp_heap \<Rightarrow> addr \<Rightarrow> arrayindex_t option" where
  "countFireable h a = count_from is_fireable h a 0"

section \<open>DEBUG\_\_consistency\<close>

text \<open>\<open>Some False\<close> stands for a failing assertion.\<close>

definition debug_leaf :: "netstate \<Rightarrow> sp_node \<Rightarrow> bool" where
  "debug_leaf ns n =
     (case kind n of
        Atomic pos neg thr \<Rightarrow>
          atomic_sum pos neg (Current ns) = sp_sum n \<and>
          (if sp_value n then sp_sum n <=s thr else \<not> sp_sum n <=s thr)
      | _ \<Rightarrow> True)"

definition debug_member :: "sp_heap \<Rightarrow> addr \<Rightarrow> nat \<Rightarrow> bool" where
  "debug_member h a i =
     (let n = h ! a; c = sub n ! i
      in position (h ! c) = i \<and> parent (h ! c) = Some a \<and> c \<noteq> a \<and>
         list_all (\<lambda>j. j = i \<or> sub n ! j \<noteq> c) [0..<length (sub n)] \<and>
         (if i < cardSat n then sp_value (h ! c) else \<not> sp_value (h ! c)))"

definition conjunction_debug :: "sp_node \<Rightarrow> bool" where
  "conjunction_debug n =
     ((cardSat n < length (sub n) \<longrightarrow> \<not> sp_value n) \<and> (cardSat n = length (sub n) \<longrightarrow> sp_value n) \<and>
      cardSat n \<le> length (sub n))"

definition disjunction_debug :: "sp_node \<Rightarrow> bool" where
  "disjunction_debug n = (cardSat n \<le> length (sub n) \<and> (if cardSat n \<noteq> 0 then sp_value n else \<not> sp_value n))"

definition debug_inner :: "sp_node \<Rightarrow> bool" where
  "debug_inner n = (if kind n = Conjunction then conjunction_debug n else disjunction_debug n)"

partial_function (option) debug_from :: "netstate \<Rightarrow> sp_heap \<Rightarrow> addr \<Rightarrow> nat \<Rightarrow> bool option" where
  "debug_from ns h a i =
     (if \<not> is_inner (h ! a) then Some (debug_leaf ns (h ! a))
      else if i < length (sub (h ! a))
      then do {
             b \<leftarrow> debug_from ns h (sub (h ! a) ! i) 0;
             if b \<and> debug_member h a i then debug_from ns h a (i + 1) else Some False
           }
      else Some (debug_inner (h ! a)))"

definition DEBUG__consistency :: "netstate \<Rightarrow> addr \<Rightarrow> sp_heap \<Rightarrow> bool option" where
  "DEBUG__consistency ns a h = debug_from ns h a 0"

section \<open>negate\<close>

text \<open>\<open>negate\<close> of the leaf classes: an atom turns \<open>sum <= k\<close> into \<open>- sum <= - k - 1\<close> by exchanging its
  two lists.\<close>

fun negate_leaf :: "sp_kind \<Rightarrow> sp_kind" where
  "negate_leaf (Atomic pos neg thr) = Atomic neg pos (- thr - 1)"
| "negate_leaf (Deadlock sign) = Deadlock (\<not> sign)"
| "negate_leaf (Fireable t sign) = Fireable t (\<not> sign)"
| "negate_leaf TruePredicate = FalsePredicate"
| "negate_leaf FalsePredicate = TruePredicate"
| "negate_leaf k = k"

section \<open>getUpSet\<close>

text \<open>
  The stack, the array \<open>onstack\<close> and the flag \<open>*needEnabled\<close>.
\<close>

type_synonym up_state = "arrayindex_t list \<times> bool list \<times> bool"

definition push_new :: "arrayindex_t list \<Rightarrow> arrayindex_t list \<times> bool list \<Rightarrow> arrayindex_t list \<times> bool list" where
  "push_new ts st = fold (\<lambda>t (stk, on). if \<not> on ! t then (stk @ [t], on[t := True]) else (stk, on)) ts st"

definition atomic_getUpSet :: "arrayindex_t list \<Rightarrow> up_state \<Rightarrow> up_state" where
  "atomic_getUpSet ups st =
     (case st of (stk, on, need) \<Rightarrow> (let (stk', on') = push_new ups (stk, on) in (stk', on', False)))"

definition deadlock_getUpSet :: "bool \<Rightarrow> up_state \<Rightarrow> up_state" where
  "deadlock_getUpSet sign st = (case st of (stk, on, need) \<Rightarrow> (if sign then (stk, on, True) else st))"

definition fireable_getUpSet :: "transition_data \<Rightarrow> arrayindex_t \<Rightarrow> bool \<Rightarrow> up_state \<Rightarrow> up_state" where
  "fireable_getUpSet T t sign st =
     (case st of (stk, on, need) \<Rightarrow>
        (if sign
         then (if on ! t then (stk, on, False) else (stk @ [t], on[t := True], False))
         else (let (stk', on') = push_new (Conflicting T ! t) (stk, on) in (stk', on', False))))"

definition leaf_up_set :: "transition_data \<Rightarrow> sp_node \<Rightarrow> up_state \<Rightarrow> up_state" where
  "leaf_up_set T n st =
     (case kind n of
        Atomic pos neg thr \<Rightarrow> atomic_getUpSet (up n) st
      | Deadlock sign \<Rightarrow> deadlock_getUpSet sign st
      | Fireable t sign \<Rightarrow> fireable_getUpSet T t sign st
      | _ \<Rightarrow> (fst st, fst (snd st), False))"

text \<open>
  A conjunction asks its first unsatisfied member (there is one: the assertion), a disjunction asks all
  of them.  \<open>junk a i\<close> is what the uninitialised local \<open>needEn\<close> of a disjunction holds in round \<open>i\<close>.
\<close>

partial_function (option) getUpSet_from ::
  "transition_data \<Rightarrow> (addr \<Rightarrow> nat \<Rightarrow> bool) \<Rightarrow> sp_heap \<Rightarrow> addr \<Rightarrow> nat \<Rightarrow> up_state \<Rightarrow> up_state option" where
  "getUpSet_from T junk h a i st =
     (if kind (h ! a) = Conjunction
      then (if cardSat (h ! a) < length (sub (h ! a))
            then getUpSet_from T junk h (sub (h ! a) ! cardSat (h ! a)) 0 st else None)
      else if kind (h ! a) = Disjunction
      then (if i < length (sub (h ! a))
            then do {
                   r \<leftarrow> getUpSet_from T junk h (sub (h ! a) ! i) 0 (fst st, fst (snd st), junk a i);
                   getUpSet_from T junk h a (i + 1) (fst r, fst (snd r), snd (snd st) \<or> snd (snd r))
                 }
            else Some st)
      else Some (leaf_up_set T (h ! a) st))"

definition getUpSet ::
  "transition_data \<Rightarrow> (addr \<Rightarrow> nat \<Rightarrow> bool) \<Rightarrow> sp_heap \<Rightarrow> addr \<Rightarrow> up_state \<Rightarrow> up_state option" where
  "getUpSet T junk h a st = getUpSet_from T junk h a 0 st"

end
