(* ===== verification/PredicateInv.thy ===== *)
theory PredicateInv
  imports StatePredicate
begin

text \<open>
  The invariants of a heap of state predicates (links between parents and members, the sorting of
  members into satisfied and unsatisfied ones) and their preservation by \<open>updateTF\<close> and \<open>updateFT\<close>.
\<close>

section \<open>Invariants\<close>

definition links_ok :: "sp_heap \<Rightarrow> bool" where
  "links_ok h \<longleftrightarrow>
     (\<forall>a < length h. is_inner (h ! a) \<longrightarrow> (\<forall>i < length (sub (h ! a)).
        sub (h ! a) ! i < length h \<and> parent (h ! (sub (h ! a) ! i)) = Some a \<and>
        position (h ! (sub (h ! a) ! i)) = i)) \<and>
     (\<forall>a < length h. \<forall>p. parent (h ! a) = Some p \<longrightarrow>
        p < length h \<and> is_inner (h ! p) \<and> position (h ! a) < length (sub (h ! p)) \<and>
        sub (h ! p) ! position (h ! a) = a)"

definition ranked :: "(addr \<Rightarrow> nat) \<Rightarrow> sp_heap \<Rightarrow> bool" where
  "ranked rk h \<longleftrightarrow> (\<forall>a < length h. \<forall>p. parent (h ! a) = Some p \<longrightarrow> rk p < rk a)"

definition truth_of :: "sp_node \<Rightarrow> bool" where
  "truth_of n \<longleftrightarrow> (if kind n = Conjunction then cardSat n = length (sub n) else 0 < cardSat n)"

definition node_ok :: "sp_heap \<Rightarrow> addr \<Rightarrow> bool" where
  "node_ok h a \<longleftrightarrow>
     cardSat (h ! a) \<le> length (sub (h ! a)) \<and>
     (\<forall>i < length (sub (h ! a)). sp_value (h ! (sub (h ! a) ! i)) \<longleftrightarrow> i < cardSat (h ! a)) \<and>
     (sp_value (h ! a) \<longleftrightarrow> truth_of (h ! a))"

text \<open>What no update changes.\<close>

definition same_tree :: "sp_heap \<Rightarrow> sp_heap \<Rightarrow> bool" where
  "same_tree h h' \<longleftrightarrow> length h' = length h \<and>
     (\<forall>a < length h. kind (h' ! a) = kind (h ! a) \<and> parent (h' ! a) = parent (h ! a) \<and>
        up (h' ! a) = up (h ! a) \<and> mset (sub (h' ! a)) = mset (sub (h ! a)))"

definition same_leaves :: "sp_heap \<Rightarrow> sp_heap \<Rightarrow> bool" where
  "same_leaves h h' \<longleftrightarrow>
     (\<forall>a < length h. sp_sum (h' ! a) = sp_sum (h ! a) \<and>
        (\<not> is_inner (h ! a) \<longrightarrow> sp_value (h' ! a) = sp_value (h ! a)))"

lemma same_treeD:
  assumes "same_tree h h'"
  shows "length h' = length h" "a < length h \<Longrightarrow> kind (h' ! a) = kind (h ! a)"
    "a < length h \<Longrightarrow> parent (h' ! a) = parent (h ! a)" "a < length h \<Longrightarrow> up (h' ! a) = up (h ! a)"
    "a < length h \<Longrightarrow> mset (sub (h' ! a)) = mset (sub (h ! a))"
  using assms by (auto simp: same_tree_def)

lemma same_tree_sub:
  assumes "same_tree h h'" "a < length h"
  shows "length (sub (h' ! a)) = length (sub (h ! a))" "set (sub (h' ! a)) = set (sub (h ! a))"
  using same_treeD(5) [OF assms] by (auto dest: mset_eq_length mset_eq_setD)

lemma same_tree_inner: "same_tree h h' \<Longrightarrow> a < length h \<Longrightarrow> is_inner (h' ! a) = is_inner (h ! a)"
  by (simp add: is_inner_def same_treeD)

lemma same_tree_refl [simp]: "same_tree h h" and same_leaves_refl [simp]: "same_leaves h h"
  by (simp_all add: same_tree_def same_leaves_def)

lemma same_tree_trans: "same_tree h1 h2 \<Longrightarrow> same_tree h2 h3 \<Longrightarrow> same_tree h1 h3"
  by (simp add: same_tree_def)

lemma same_tree_sym: "same_tree h1 h2 \<Longrightarrow> same_tree h2 h1"
  by (simp add: same_tree_def)

lemma same_leaves_trans:
  "same_leaves h1 h2 \<Longrightarrow> same_tree h1 h2 \<Longrightarrow> same_leaves h2 h3 \<Longrightarrow> same_leaves h1 h3"
  by (simp add: same_leaves_def same_tree_def is_inner_def)

lemma ranked_same_tree: "same_tree h h' \<Longrightarrow> ranked rk h \<Longrightarrow> ranked rk h'"
  by (simp add: ranked_def same_tree_def)

lemma links_ok_sub:
  assumes "links_ok h" "a < length h" "is_inner (h ! a)" "i < length (sub (h ! a))"
  shows "sub (h ! a) ! i < length h" "parent (h ! (sub (h ! a) ! i)) = Some a"
    "position (h ! (sub (h ! a) ! i)) = i"
  using assms by (auto simp: links_ok_def)

lemma links_ok_parent:
  assumes "links_ok h" "a < length h" "parent (h ! a) = Some p"
  shows "p < length h" "is_inner (h ! p)" "position (h ! a) < length (sub (h ! p))"
    "sub (h ! p) ! position (h ! a) = a"
  using assms unfolding links_ok_def by blast+

lemma links_ok_distinct: "links_ok h \<Longrightarrow> a < length h \<Longrightarrow> is_inner (h ! a) \<Longrightarrow> distinct (sub (h ! a))"
  by (metis distinct_conv_nth links_ok_sub(3))

lemma ranked_neq: "ranked rk h \<Longrightarrow> a < length h \<Longrightarrow> parent (h ! a) = Some p \<Longrightarrow> p \<noteq> a \<and> rk p < rk a"
  by (auto simp: ranked_def)

section \<open>Single assignments\<close>

lemma length_assignments [simp]:
  "length (set_value b a h) = length h" "length (set_position i a h) = length h"
  "length (swap_sub a i h) = length h"
  by (simp_all add: set_value_def set_position_def swap_sub_def Let_def)

lemma nth_set_position:
  "a < length h \<Longrightarrow> set_position i a h ! x = (if x = a then (h ! x)\<lparr>position := i\<rparr> else h ! x)"
  by (simp add: set_position_def)

lemma is_inner_fields [simp]:
  "is_inner (n\<lparr>sp_value := b\<rparr>) = is_inner n" "is_inner (n\<lparr>cardSat := c\<rparr>) = is_inner n"
  "is_inner (n\<lparr>position := i\<rparr>) = is_inner n" "is_inner (n\<lparr>sub := s\<rparr>) = is_inner n"
  "is_inner (n\<lparr>sp_sum := w\<rparr>) = is_inner n"
  by (simp_all add: is_inner_def)

lemma nth_swap_sub:
  assumes "links_ok h" "a < length h" "is_inner (h ! a)" "i < length (sub (h ! a))"
    "cardSat (h ! a) < length (sub (h ! a))" "x < length h"
  shows "swap_sub a i h ! x =
    (h ! x)\<lparr>sub := (if x = a then swap_at (sub (h ! a)) i (cardSat (h ! a)) else sub (h ! x)),
      position := (if x = sub (h ! a) ! i then cardSat (h ! a) else if x = sub (h ! a) ! cardSat (h ! a) then i
                   else position (h ! x))\<rparr>"
proof -
  have "sub (h ! a) ! j < length h" if "j < length (sub (h ! a))" for j using links_ok_sub [OF assms(1-3) that] by simp
  then show ?thesis using assms by (auto simp: swap_sub_def Let_def nth_set_position nth_swap_at)
qed

lemma links_ok_swap_sub:
  assumes "links_ok h" "ranked rk h" "a < length h" "is_inner (h ! a)" "i < length (sub (h ! a))"
    "cardSat (h ! a) < length (sub (h ! a))"
  shows "links_ok (swap_sub a i h)"
proof -
  let ?s = "sub (h ! a)" and ?c = "cardSat (h ! a)"
  note nth = nth_swap_sub [OF assms(1,3-6)]
  have d: "distinct ?s" using links_ok_distinct assms by blast
  have mem: "x \<in> {?s ! i, ?s ! ?c} \<Longrightarrow> parent (h ! x) = Some a" for x
    using links_ok_sub(2) [OF assms(1,3,4)] assms(5,6) by auto
  have pos: "position (swap_sub a i h ! x) = position (h ! x)" if "x < length h" "parent (h ! x) \<noteq> Some a" for x
    using mem [of x] that by (auto simp: nth)
  show ?thesis
    unfolding links_ok_def length_assignments
  proof (intro conjI allI impI)
    fix b j
    assume b: "b < length h" "is_inner (swap_sub a i h ! b)" "j < length (sub (swap_sub a i h ! b))"
    let ?y = "sub (swap_sub a i h ! b) ! j"
    have inb: "is_inner (h ! b)" and lj: "j < length (sub (h ! b))" using b by (auto simp: nth split: if_splits)
    have "?y < length h \<and> parent (swap_sub a i h ! ?y) = Some b \<and> position (swap_sub a i h ! ?y) = j"
    proof (cases "b = a")
      case True
      then have y: "?y = swap_at ?s i ?c ! j" using b by (simp add: nth)
      have j: "j < length ?s" using lj True by simp
      have yo: "?y = ?s ! (if j = ?c then i else if j = i then ?c else j)"
        using y j assms(5,6) by (simp add: nth_swap_at)
      have yl: "?y < length h" "parent (h ! ?y) = Some a"
        using yo links_ok_sub [OF assms(1,3,4)] assms(5,6) j by auto
      have "position (swap_sub a i h ! ?y) = j"
        using yo yl j assms(5,6) d links_ok_sub(3) [OF assms(1,3,4) j]
        by (auto simp: nth nth_eq_iff_index_eq split: if_splits)
      then show ?thesis using yl True by (simp add: nth)
    next
      case False
      then have y: "?y = sub (h ! b) ! j" using b by (simp add: nth)
      show ?thesis using links_ok_sub [OF assms(1) b(1) inb lj] False pos [of ?y] y by (auto simp: nth)
    qed
    then show "?y < length h" "parent (swap_sub a i h ! ?y) = Some b" "position (swap_sub a i h ! ?y) = j"
      by simp_all
  next
    fix x p
    assume x: "x < length h" "parent (swap_sub a i h ! x) = Some p"
    then have par: "parent (h ! x) = Some p" by (simp add: nth)
    note P = links_ok_parent [OF assms(1) x(1) par]
    let ?h = "swap_sub a i h"
    show "p < length h" "is_inner (?h ! p)" using P by (auto simp: nth)
    have "position (?h ! x) < length (sub (?h ! p)) \<and> sub (?h ! p) ! position (?h ! x) = x"
    proof (cases "p = a")
      case True
      then show ?thesis
        using P x d assms(5,6) by (auto simp: nth nth_swap_at nth_eq_iff_index_eq)
    next
      case False
      then show ?thesis using P pos [OF x(1)] par by (simp add: nth)
    qed
    then show "position (?h ! x) < length (sub (?h ! p))" "sub (?h ! p) ! position (?h ! x) = x" by simp_all
  qed
qed

text \<open>Assignments to values and counters leave the links alone.\<close>

definition same_links :: "sp_heap \<Rightarrow> sp_heap \<Rightarrow> bool" where
  "same_links h h' \<longleftrightarrow> length h' = length h \<and>
     (\<forall>x < length h. kind (h' ! x) = kind (h ! x) \<and> sub (h' ! x) = sub (h ! x) \<and>
        parent (h' ! x) = parent (h ! x) \<and> position (h' ! x) = position (h ! x))"

lemma links_ok_same:
  assumes "same_links h h'" "links_ok h"
  shows "links_ok h'"
proof -
  have S: "length h' = length h" "\<And>x. x < length h \<Longrightarrow> kind (h' ! x) = kind (h ! x) \<and> sub (h' ! x) = sub (h ! x) \<and>
      parent (h' ! x) = parent (h ! x) \<and> position (h' ! x) = position (h ! x)"
    using assms(1) by (simp_all add: same_links_def)
  have I: "is_inner (h' ! x) = is_inner (h ! x)" if "x < length h" for x using S that by (simp add: is_inner_def)
  show ?thesis unfolding links_ok_def S(1)
  proof (intro conjI allI impI)
    fix a i
    assume a: "a < length h" "is_inner (h' ! a)" "i < length (sub (h' ! a))"
    then have a': "is_inner (h ! a)" "i < length (sub (h ! a))" using S I by simp_all
    note L = links_ok_sub [OF assms(2) a(1) a']
    show "sub (h' ! a) ! i < length h" "parent (h' ! (sub (h' ! a) ! i)) = Some a"
      "position (h' ! (sub (h' ! a) ! i)) = i" using L a(1) S(2) by simp_all
  next
    fix a p
    assume a: "a < length h" "parent (h' ! a) = Some p"
    then have "parent (h ! a) = Some p" using S by simp
    note P = links_ok_parent [OF assms(2) a(1) this]
    show "p < length h" "is_inner (h' ! p)" "position (h' ! a) < length (sub (h' ! p))"
      "sub (h' ! p) ! position (h' ! a) = a" using P a(1) S I by simp_all
  qed
qed

lemma same_links_set_value [simp]: "a < length h \<Longrightarrow> same_links h (set_value b a h)"
  and same_links_add_sat [simp]: "a < length h \<Longrightarrow> same_links h (add_sat f a h)"
  by (simp_all add: same_links_def nth_set_value nth_add_sat)

lemma same_tree_set_value [simp]: "a < length h \<Longrightarrow> same_tree h (set_value b a h)"
  and same_tree_add_sat [simp]: "a < length h \<Longrightarrow> same_tree h (add_sat f a h)"
  by (simp_all add: same_tree_def nth_set_value nth_add_sat)

lemma same_tree_swap_sub:
  assumes "links_ok h" "a < length h" "is_inner (h ! a)" "i < length (sub (h ! a))"
    "cardSat (h ! a) < length (sub (h ! a))"
  shows "same_tree h (swap_sub a i h)" "same_leaves h (swap_sub a i h)"
  using assms by (auto simp: same_tree_def same_leaves_def nth_swap_sub [OF assms])

text \<open>A node depends on its own fields and on the values of its members.\<close>

lemma node_ok_cong:
  assumes "links_ok h" "b < length h" "is_inner (h ! b)" "node_ok h b"
    and "kind (h' ! b) = kind (h ! b)" "sub (h' ! b) = sub (h ! b)" "cardSat (h' ! b) = cardSat (h ! b)"
      "sp_value (h' ! b) = sp_value (h ! b)"
    and "\<And>x. x < length h \<Longrightarrow> parent (h ! x) = Some b \<Longrightarrow> sp_value (h' ! x) = sp_value (h ! x)"
  shows "node_ok h' b"
  using assms links_ok_sub [OF assms(1-3)] by (simp add: node_ok_def truth_of_def)

text \<open>Member \<open>i\<close> of \<open>a\<close> has just changed its value.\<close>

definition turned_true :: "sp_heap \<Rightarrow> addr \<Rightarrow> arrayindex_t \<Rightarrow> bool" where
  "turned_true h a i \<longleftrightarrow> cardSat (h ! a) \<le> i \<and> i < length (sub (h ! a)) \<and>
     (\<forall>j < length (sub (h ! a)). sp_value (h ! (sub (h ! a) ! j)) \<longleftrightarrow> j < cardSat (h ! a) \<or> j = i) \<and>
     (sp_value (h ! a) \<longleftrightarrow> truth_of (h ! a))"

definition turned_false :: "sp_heap \<Rightarrow> addr \<Rightarrow> arrayindex_t \<Rightarrow> bool" where
  "turned_false h a i \<longleftrightarrow> i < cardSat (h ! a) \<and> cardSat (h ! a) \<le> length (sub (h ! a)) \<and>
     (\<forall>j < length (sub (h ! a)). sp_value (h ! (sub (h ! a) ! j)) \<longleftrightarrow> j < cardSat (h ! a) \<and> j \<noteq> i) \<and>
     (sp_value (h ! a) \<longleftrightarrow> truth_of (h ! a))"

text \<open>Turning a correct member breaks its parent in exactly this way.\<close>

lemma turned_parent:
  assumes "links_ok h" "ranked rk h" "a < length h" "parent (h ! a) = Some p" "node_ok h p"
  shows "\<not> sp_value (h ! a) \<Longrightarrow> turned_true (set_value True a h) p (position (h ! a))"
    and "sp_value (h ! a) \<Longrightarrow> turned_false (set_value False a h) p (position (h ! a))"
proof -
  note P = links_ok_parent [OF assms(1,3,4)]
  have ne: "p \<noteq> a" using ranked_neq [OF assms(2-4)] by simp
  have d: "distinct (sub (h ! p))" using links_ok_distinct [OF assms(1) P(1,2)] .
  have eq: "sub (h ! p) ! j = a \<longleftrightarrow> j = position (h ! a)" if "j < length (sub (h ! p))" for j
    using that P(3,4) d by (metis nth_eq_iff_index_eq)
  have v: "sp_value (h ! (sub (h ! p) ! j)) \<longleftrightarrow> j < cardSat (h ! p)" if "j < length (sub (h ! p))" for j
    using assms(5) that by (simp add: node_ok_def)
  have va: "sp_value (h ! a) \<longleftrightarrow> position (h ! a) < cardSat (h ! p)" using v [OF P(3)] P(4) by simp
  have fin: "cardSat (h ! p) \<le> length (sub (h ! p))" "sp_value (h ! p) = truth_of (h ! p)"
    using assms(5) by (auto simp: node_ok_def)
  show "\<not> sp_value (h ! a) \<Longrightarrow> turned_true (set_value True a h) p (position (h ! a))"
    using ne P(3) eq v va fin assms(3) by (auto simp: turned_true_def nth_set_value)
  show "sp_value (h ! a) \<Longrightarrow> turned_false (set_value False a h) p (position (h ! a))"
    using ne P(3) eq v va fin assms(3) by (auto simp: turned_false_def nth_set_value)
qed

section \<open>updateFT\<close>

text \<open>The member moves behind the satisfied ones, and the counter includes it.\<close>

lemma move_true:
  assumes "links_ok h" "ranked rk h" "a < length h" "is_inner (h ! a)" "turned_true h a i"
  defines "h1 \<equiv> add_sat Suc a (swap_sub a i h)"
  shows "length h1 = length h" "links_ok h1" "same_tree h h1" "same_leaves h h1"
    "\<And>x. x < length h \<Longrightarrow> sp_value (h1 ! x) = sp_value (h ! x)"
    "\<And>x. x < length h \<Longrightarrow> cardSat (h1 ! x) = (if x = a then Suc (cardSat (h ! a)) else cardSat (h ! x))"
    "\<And>x. x < length h \<Longrightarrow> x \<noteq> a \<Longrightarrow> sub (h1 ! x) = sub (h ! x)"
    "\<And>j. j < length (sub (h ! a)) \<Longrightarrow> sp_value (h1 ! (sub (h1 ! a) ! j)) \<longleftrightarrow> j \<le> cardSat (h ! a)"
    "Suc (cardSat (h ! a)) \<le> length (sub (h ! a))"
    "sp_value (h ! a) = truth_of (h ! a)"
proof -
  have c: "cardSat (h ! a) \<le> i" "i < length (sub (h ! a))" "cardSat (h ! a) < length (sub (h ! a))"
    using assms(5) by (auto simp: turned_true_def)
  note nth = nth_swap_sub [OF assms(1,3,4) c(2,3)]
  have nth1: "h1 ! x = (h ! x)\<lparr>sub := (if x = a then swap_at (sub (h ! a)) i (cardSat (h ! a)) else sub (h ! x)),
      position := (if x = sub (h ! a) ! i then cardSat (h ! a) else if x = sub (h ! a) ! cardSat (h ! a) then i
                   else position (h ! x)),
      cardSat := (if x = a then Suc (cardSat (h ! a)) else cardSat (h ! x))\<rparr>" if "x < length h" for x
    using that assms(3) by (simp add: h1_def nth_add_sat nth)
  show len: "length h1 = length h" by (simp add: h1_def)
  show "links_ok h1" unfolding h1_def
    by (rule links_ok_same [OF same_links_add_sat links_ok_swap_sub [OF assms(1-4) c(2,3)]]) (use assms(3) in simp)
  show "same_tree h h1" "same_leaves h h1"
    using assms(3) c len by (auto simp: same_tree_def same_leaves_def nth1)
  show "\<And>x. x < length h \<Longrightarrow> sp_value (h1 ! x) = sp_value (h ! x)"
    "\<And>x. x < length h \<Longrightarrow> cardSat (h1 ! x) = (if x = a then Suc (cardSat (h ! a)) else cardSat (h ! x))"
    "\<And>x. x < length h \<Longrightarrow> x \<noteq> a \<Longrightarrow> sub (h1 ! x) = sub (h ! x)"
    by (simp_all add: nth1)
  show "Suc (cardSat (h ! a)) \<le> length (sub (h ! a))" using c by simp
  show "sp_value (h ! a) = truth_of (h ! a)" using assms(5) by (simp add: turned_true_def)
  fix j
  assume j: "j < length (sub (h ! a))"
  have "sub (h1 ! a) ! j = sub (h ! a) ! (if j = cardSat (h ! a) then i else if j = i then cardSat (h ! a) else j)"
    using nth1 [OF assms(3)] j c by (simp add: nth_swap_at)
  then show "sp_value (h1 ! (sub (h1 ! a) ! j)) \<longleftrightarrow> j \<le> cardSat (h ! a)"
    using assms(5) j c nth1 links_ok_sub(1) [OF assms(1,3,4)] by (auto simp: turned_true_def)
qed

lemma updateFT_correct:
  assumes "links_ok h" "ranked rk h" "a < length h" "is_inner (h ! a)" "turned_true h a i"
    and "\<forall>b < length h. is_inner (h ! b) \<and> b \<noteq> a \<longrightarrow> node_ok h b"
  shows "\<exists>h'. updateFT h a i = Some h' \<and> links_ok h' \<and> same_tree h h' \<and> same_leaves h h' \<and>
    (\<forall>b < length h. is_inner (h ! b) \<longrightarrow> node_ok h' b)"
  using assms
proof (induction "rk a" arbitrary: a i h rule: less_induct)
  case less
  let ?h1 = "add_sat Suc a (swap_sub a i h)" and ?h2 = "set_value True a (add_sat Suc a (swap_sub a i h))"
  note M = move_true [OF less.prems(1-5)]
  note al = less.prems(3)
  have a1: "a < length ?h1" using al M(1) by simp
  have kin: "kind (?h1 ! a) = kind (h ! a)" "length (sub (?h1 ! a)) = length (sub (h ! a))"
    using same_treeD(2) [OF M(3) al] same_tree_sub [OF M(3) al] by simp_all
  have al1: "a < length (swap_sub a i h)" using al by simp
  have "kind (swap_sub a i h ! a) = kind (h ! a)" using kin(1) al by (simp add: nth_add_sat)
  note eqFT = updateFT_eq [OF less.prems(4) this al1]
  have others: "node_ok ?h1 b" if "b < length h" "is_inner (h ! b)" "b \<noteq> a" for b
    using that less.prems(6) M(5,6,7) same_treeD(2) [OF M(3)] node_ok_cong [OF less.prems(1), of b ?h1] by simp
  have mem: "cardSat (?h1 ! a) = Suc (cardSat (h ! a))" using M(6) al by simp
  show ?case
  proof (cases "cardSat (?h1 ! a) = threshold_sat (?h1 ! a)")
    case False
    have "node_ok ?h1 a"
      using M(8-10) mem kin False less.prems(4) M(5) [OF al]
      by (auto simp: node_ok_def truth_of_def threshold_sat_def is_inner_def less_Suc_eq_le split: if_splits)
    then have "\<forall>b < length h. is_inner (h ! b) \<longrightarrow> node_ok ?h1 b" using others by blast
    moreover have "updateFT h a i = Some ?h1"
      using less.prems(4) False by (subst eqFT) (simp add: Let_def)
    ultimately show ?thesis using M by blast
  next
    case True
    have va: "\<not> sp_value (?h1 ! a)"
      using M(9,10) M(5) [OF al] mem kin True less.prems(4)
      by (auto simp: truth_of_def threshold_sat_def is_inner_def split: if_splits)
    have self: "sub (?h1 ! a) ! j \<noteq> a" if "j < length (sub (h ! a))" for j
      using links_ok_sub(2) [OF M(2) a1, of j] ranked_neq [OF ranked_same_tree [OF M(3) less.prems(2)] a1]
        that kin less.prems(4) same_tree_inner [OF M(3) al] by auto
    have tree2: "same_tree h ?h2" "same_leaves h ?h2" "links_ok ?h2"
      using M(4) same_tree_trans [OF M(3) same_tree_set_value [OF a1]]
        links_ok_same [OF same_links_set_value [OF a1] M(2)] less.prems(4) a1
      by (auto simp: same_leaves_def nth_set_value)
    have "truth_of (?h1 ! a)"
      using mem kin True by (auto simp: truth_of_def threshold_sat_def split: if_splits)
    then have ok2a: "node_ok ?h2 a"
      using M(8,9) mem kin a1 self by (auto simp: node_ok_def truth_of_def nth_set_value less_Suc_eq_le split: if_splits)
    have ok2: "node_ok ?h2 b" if b: "b < length h" "is_inner (h ! b)" "b \<noteq> a" "parent (h ! a) \<noteq> Some b" for b
    proof (rule node_ok_cong [OF M(2), of b])
      fix x
      assume "x < length ?h1" "parent (?h1 ! x) = Some b"
      then have "x \<noteq> a" using b same_treeD(3) [OF M(3) al] by auto
      then show "sp_value (?h2 ! x) = sp_value (?h1 ! x)" using a1 by (simp add: nth_set_value)
    qed (use b others a1 M(1) same_tree_inner [OF M(3)] in \<open>auto simp: nth_set_value\<close>)
    show ?thesis
    proof (cases "parent (h ! a)")
      case None
      have "updateFT h a i = Some ?h2"
        using less.prems(4) True None a1 same_treeD(3) [OF tree2(1) al] by (subst eqFT) (simp add: Let_def)
      moreover have "\<forall>b < length h. is_inner (h ! b) \<longrightarrow> node_ok ?h2 b" using ok2 ok2a None by (metis option.distinct(1))
      ultimately show ?thesis using tree2 by blast
    next
      case (Some p)
      have par1: "parent (?h1 ! a) = Some p" "parent (?h2 ! a) = Some p"
        using Some same_treeD(3) [OF M(3) al] same_treeD(3) [OF tree2(1) al] by simp_all
      have rk1: "ranked rk ?h1" "ranked rk ?h2" using ranked_same_tree less.prems(2) M(3) tree2(1) by blast+
      note P = links_ok_parent [OF less.prems(1) al Some]
      have ne: "p \<noteq> a" "rk p < rk a" using ranked_neq [OF less.prems(2) al Some] by simp_all
      have "turned_true ?h2 p (position (?h1 ! a))"
        using turned_parent(1) [OF M(2) rk1(1) a1 par1(1)] others P(1,2) ne(1) va by blast
      moreover have "position (?h2 ! a) = position (?h1 ! a)" using a1 by (simp add: nth_set_value)
      ultimately have tt: "turned_true ?h2 p (position (?h2 ! a))" by simp
      have oth: "\<forall>b < length ?h2. is_inner (?h2 ! b) \<and> b \<noteq> p \<longrightarrow> node_ok ?h2 b"
        using ok2 ok2a Some same_tree_inner [OF tree2(1)] M(1) by (metis length_assignments(1) option.inject)
      have "p < length ?h2" "is_inner (?h2 ! p)" using P same_tree_inner [OF tree2(1)] M(1) by simp_all
      from less.hyps [OF ne(2) tree2(3) rk1(2) this tt oth]
      obtain h' where h': "updateFT ?h2 p (position (?h2 ! a)) = Some h'" "links_ok h'" "same_tree ?h2 h'"
        "same_leaves ?h2 h'" "\<forall>b < length ?h2. is_inner (?h2 ! b) \<longrightarrow> node_ok h' b" by blast
      have "updateFT h a i = Some h'"
        using less.prems(4) True par1 h'(1) by (subst eqFT) (simp add: Let_def)
      moreover have "same_tree h h'" "same_leaves h h'"
        using same_tree_trans [OF tree2(1) h'(3)] same_leaves_trans [OF tree2(2,1) h'(4)] by simp_all
      moreover have "\<forall>b < length h. is_inner (h ! b) \<longrightarrow> node_ok h' b"
        using h'(5) same_tree_inner [OF tree2(1)] M(1) by simp
      ultimately show ?thesis using h'(2) by blast
    qed
  qed
qed

section \<open>updateTF\<close>

text \<open>The last step: the member, now unsatisfied, trades places with the last satisfied one.\<close>

lemma move_false:
  assumes "links_ok h" "ranked rk h" "a < length h" "is_inner (h ! a)"
    and "i \<le> cardSat (h ! a)" "cardSat (h ! a) < length (sub (h ! a))"
    and "\<And>j. j < length (sub (h ! a)) \<Longrightarrow> sp_value (h ! (sub (h ! a) ! j)) \<longleftrightarrow> j \<le> cardSat (h ! a) \<and> j \<noteq> i"
    and "sp_value (h ! a) \<longleftrightarrow> truth_of (h ! a)"
  defines "h1 \<equiv> swap_sub a i h"
  shows "links_ok h1" "same_tree h h1" "same_leaves h h1" "node_ok h1 a"
    "\<And>b. b < length h \<Longrightarrow> is_inner (h ! b) \<Longrightarrow> b \<noteq> a \<Longrightarrow> node_ok h b \<Longrightarrow> node_ok h1 b"
    "\<And>x. x < length h \<Longrightarrow> sp_value (h1 ! x) = sp_value (h ! x) \<and> cardSat (h1 ! x) = cardSat (h ! x)"
    "\<And>x. x < length h \<Longrightarrow> x \<noteq> a \<Longrightarrow> sub (h1 ! x) = sub (h ! x)"
proof -
  have i: "i < length (sub (h ! a))" using assms(5,6) by simp
  note nth = nth_swap_sub [OF assms(1,3,4) i assms(6)]
  show "links_ok h1" unfolding h1_def by (rule links_ok_swap_sub [OF assms(1-4) i assms(6)])
  show "same_tree h h1" "same_leaves h h1"
    unfolding h1_def using same_tree_swap_sub [OF assms(1,3,4) i assms(6)] by simp_all
  show val: "\<And>x. x < length h \<Longrightarrow> sp_value (h1 ! x) = sp_value (h ! x) \<and> cardSat (h1 ! x) = cardSat (h ! x)"
    and sb: "\<And>x. x < length h \<Longrightarrow> x \<noteq> a \<Longrightarrow> sub (h1 ! x) = sub (h ! x)"
    by (simp_all add: h1_def nth)
  show "node_ok h1 b" if "b < length h" "is_inner (h ! b)" "b \<noteq> a" "node_ok h b" for b
    using that val sb node_ok_cong [OF assms(1) that(1,2,4), of h1] by (simp add: h1_def nth)
  have "sp_value (h1 ! (sub (h1 ! a) ! j)) \<longleftrightarrow> j < cardSat (h ! a)" if j: "j < length (sub (h ! a))" for j
  proof -
    have "sub (h1 ! a) ! j = sub (h ! a) ! (if j = cardSat (h ! a) then i else if j = i then cardSat (h ! a) else j)"
      using nth [OF assms(3)] j i assms(6) by (simp add: h1_def nth_swap_at)
    then show ?thesis using assms(5,6,7) j i val links_ok_sub(1) [OF assms(1,3,4)] by auto
  qed
  then show "node_ok h1 a"
    using assms(3,6,8) nth [OF assms(3)] val by (simp add: node_ok_def truth_of_def h1_def)
qed

lemma updateTF_correct:
  assumes "links_ok h" "ranked rk h" "a < length h" "is_inner (h ! a)" "turned_false h a i"
    and "\<forall>b < length h. is_inner (h ! b) \<and> b \<noteq> a \<and> rk b \<le> rk a \<longrightarrow> node_ok h b"
  shows "\<exists>h'. updateTF h a i = Some h' \<and> links_ok h' \<and> same_tree h h' \<and> same_leaves h h' \<and>
    (\<forall>b < length h. is_inner (h ! b) \<and> rk b \<le> rk a \<longrightarrow> node_ok h' b) \<and>
    (\<forall>x < length h. rk a < rk x \<longrightarrow>
       sp_value (h' ! x) = sp_value (h ! x) \<and> sub (h' ! x) = sub (h ! x) \<and> cardSat (h' ! x) = cardSat (h ! x))"
  using assms
proof (induction "rk a" arbitrary: a i h rule: less_induct)
  case less
  note al = less.prems(3)
  let ?s = "sub (h ! a)" and ?c = "cardSat (h ! a)"
  let ?h1 = "add_sat (\<lambda>c. c - 1) a h" and ?h2 = "set_value False a (add_sat (\<lambda>c. c - 1) a h)"
  have tf: "i < ?c" "?c \<le> length ?s" "sp_value (h ! a) = truth_of (h ! a)"
    "\<And>j. j < length ?s \<Longrightarrow> sp_value (h ! (?s ! j)) \<longleftrightarrow> j < ?c \<and> j \<noteq> i"
    using less.prems(5) by (auto simp: turned_false_def)
  have self: "?s ! j \<noteq> a" if "j < length ?s" for j
    using links_ok_sub(2) [OF less.prems(1) al less.prems(4) that] ranked_neq [OF less.prems(2) al] by auto
  have rkc: "rk a < rk x" if "x < length h" "parent (h ! x) = Some a" for x
    using ranked_neq [OF less.prems(2) that] by simp
  have l1: "links_ok ?h1" by (rule links_ok_same [OF same_links_add_sat less.prems(1)]) (rule al)
  have r1: "ranked rk ?h1" by (rule ranked_same_tree [OF same_tree_add_sat less.prems(2)]) (rule al)
  have sl1: "same_leaves h ?h1" using al by (auto simp: same_leaves_def nth_add_sat)
  have oth: "node_ok h b" if "b < length h" "is_inner (h ! b)" "b \<noteq> a" "rk b \<le> rk a" for b
    using that less.prems(6) by blast
  have "\<exists>h3. updateTF h a i = Some (swap_sub a i h3) \<and> links_ok h3 \<and> same_tree h h3 \<and> same_leaves h h3 \<and>
      sub (h3 ! a) = ?s \<and> cardSat (h3 ! a) = ?c - 1 \<and> sp_value (h3 ! a) = truth_of (h3 ! a) \<and>
      (\<forall>b < length h. is_inner (h ! b) \<and> b \<noteq> a \<and> rk b \<le> rk a \<longrightarrow> node_ok h3 b) \<and>
      (\<forall>x < length h. rk a < rk x \<longrightarrow>
         sp_value (h3 ! x) = sp_value (h ! x) \<and> sub (h3 ! x) = sub (h ! x) \<and> cardSat (h3 ! x) = cardSat (h ! x))"
  proof (cases "?c = threshold_sat (h ! a)")
    case False
    have tr: "sp_value (?h1 ! a) \<longleftrightarrow> truth_of (?h1 ! a)"
      using tf False al less.prems(4)
      by (auto simp: nth_add_sat truth_of_def threshold_sat_def is_inner_def split: if_splits)
    have "node_ok ?h1 b" if "b < length h" "is_inner (h ! b)" "b \<noteq> a" "rk b \<le> rk a" for b
      using oth [OF that] that al node_ok_cong [OF less.prems(1) that(1,2), of ?h1] by (simp add: nth_add_sat)
    moreover have "updateTF h a i = Some (swap_sub a i ?h1)"
      using less.prems(4) False by (subst updateTF_eq [OF al less.prems(4)]) (simp add: Let_def)
    ultimately show ?thesis
      using l1 sl1 tr al by (intro exI [of _ ?h1]) (auto simp: nth_add_sat)
  next
    case True
    have a1: "a < length ?h1" using al by simp
    have va: "sp_value (h ! a)"
      using tf(1-3) True less.prems(4) by (auto simp: truth_of_def threshold_sat_def is_inner_def split: if_splits)
    have l2: "links_ok ?h2" by (rule links_ok_same [OF same_links_set_value l1]) (use al in simp)
    have t2: "same_tree h ?h2"
      by (rule same_tree_trans [OF same_tree_add_sat same_tree_set_value]) (use al in simp_all)
    have s2: "same_leaves h ?h2" using al less.prems(4) by (auto simp: same_leaves_def nth_add_sat nth_set_value)
    have r2: "ranked rk ?h2" by (rule ranked_same_tree [OF t2 less.prems(2)])
    have n2': "?h2 ! x = (if x = a then (h ! a)\<lparr>cardSat := ?c - 1, sp_value := False\<rparr> else h ! x)" for x
      using al by (simp add: nth_add_sat nth_set_value)
    note n2 = n2' n2' [unfolded One_nat_def]
    have tr2: "\<not> truth_of (?h2 ! a)"
      using tf(1,2) True less.prems(4)
      by (auto simp: n2 truth_of_def threshold_sat_def is_inner_def split: if_splits)
    have ok2: "node_ok ?h2 b"
      if "b < length h" "is_inner (h ! b)" "b \<noteq> a" "rk b \<le> rk a" "parent (h ! a) \<noteq> Some b" for b
    proof (rule node_ok_cong [OF less.prems(1) that(1,2) oth [OF that(1-4)]])
      show "sp_value (?h2 ! x) = sp_value (h ! x)" if "x < length h" "parent (h ! x) = Some b" for x
        using that \<open>parent (h ! a) \<noteq> Some b\<close> unfolding n2' by auto
    qed (use that in \<open>simp_all only: n2' if_False\<close>)
    show ?thesis
    proof (cases "parent (h ! a)")
      case None
      have "updateTF h a i = Some (swap_sub a i ?h2)"
        using less.prems(4) True None by (subst updateTF_eq [OF al less.prems(4)]) (simp add: Let_def)
      then show ?thesis using l2 t2 s2 tr2 ok2 None by (intro exI [of _ ?h2]) (auto simp: n2)
    next
      case (Some p)
      note P = links_ok_parent [OF less.prems(1) al Some]
      have ne: "p \<noteq> a" "rk p < rk a" using ranked_neq [OF less.prems(2) al Some] by simp_all
      have "node_ok ?h1 p"
        using oth [OF P(1,2) ne(1)] ne P al node_ok_cong [OF less.prems(1) P(1,2), of ?h1] by (simp add: nth_add_sat)
      from turned_parent(2) [OF l1 r1 a1 _ this]
      have tt: "turned_false ?h2 p (position (h ! a))" using Some va al by (simp add: nth_add_sat)
      have p2: "p < length ?h2" "is_inner (?h2 ! p)" using P ne(1) by (simp_all add: n2)
      have o2: "\<forall>b < length ?h2. is_inner (?h2 ! b) \<and> b \<noteq> p \<and> rk b \<le> rk p \<longrightarrow> node_ok ?h2 b"
      proof (intro allI impI)
        fix b
        assume b: "b < length ?h2" "is_inner (?h2 ! b) \<and> b \<noteq> p \<and> rk b \<le> rk p"
        then have "b \<noteq> a" "rk b \<le> rk a" using ne(2) by auto
        then show "node_ok ?h2 b" using ok2 [of b] b Some same_tree_inner [OF t2] by simp
      qed
      from less.hyps [OF ne(2) l2 r2 p2 tt o2]
      obtain h3 where h3: "updateTF ?h2 p (position (h ! a)) = Some h3" "links_ok h3" "same_tree ?h2 h3"
        "same_leaves ?h2 h3" "\<forall>b < length ?h2. is_inner (?h2 ! b) \<and> rk b \<le> rk p \<longrightarrow> node_ok h3 b"
        "\<forall>x < length ?h2. rk p < rk x \<longrightarrow>
           sp_value (h3 ! x) = sp_value (?h2 ! x) \<and> sub (h3 ! x) = sub (?h2 ! x) \<and> cardSat (h3 ! x) = cardSat (?h2 ! x)"
        by blast
      have keep: "sp_value (h3 ! x) = sp_value (?h2 ! x) \<and> sub (h3 ! x) = sub (?h2 ! x) \<and> cardSat (h3 ! x) = cardSat (?h2 ! x)"
        if "x < length h" "rk p < rk x" for x using h3(6) that by simp
      have "node_ok h3 b" if b: "b < length h" "is_inner (h ! b)" "b \<noteq> a" "rk b \<le> rk a" for b
      proof (cases "rk b \<le> rk p")
        case True
        then show ?thesis using h3(5) b same_tree_inner [OF t2] by simp
      next
        case False
        then have "b \<noteq> p" by auto
        then have "node_ok ?h2 b" using ok2 [OF b] Some by simp
        moreover have "rk p < rk x" if "x < length ?h2" "parent (?h2 ! x) = Some b" for x
          using ranked_neq [OF r2 that] False by simp
        ultimately show ?thesis
          using node_ok_cong [OF l2, of b h3] b False keep same_treeD(2) [OF h3(3)] same_tree_inner [OF t2] by simp
      qed
      moreover have "updateTF h a i = Some (swap_sub a i h3)"
        using less.prems(4) True Some h3(1) by (subst updateTF_eq [OF al less.prems(4)]) (simp add: Let_def)
      moreover have "same_tree h h3" "same_leaves h h3"
        using same_tree_trans [OF t2 h3(3)] same_leaves_trans [OF s2 t2 h3(4)] by simp_all
      moreover have "sub (h3 ! a) = ?s" "cardSat (h3 ! a) = ?c - 1" "sp_value (h3 ! a) = truth_of (h3 ! a)"
        using keep [OF al ne(2)] tr2 same_treeD(2) [OF h3(3)] al
        by (auto simp: n2 truth_of_def split: if_splits)
      moreover have "sp_value (h3 ! x) = sp_value (h ! x) \<and> sub (h3 ! x) = sub (h ! x) \<and> cardSat (h3 ! x) = cardSat (h ! x)"
        if "x < length h" "rk a < rk x" for x
        using keep [OF that(1)] that ne(2) by (auto simp: n2)
      ultimately show ?thesis using h3(2) by blast
    qed
  qed
  then obtain h3 where h3: "updateTF h a i = Some (swap_sub a i h3)" "links_ok h3" "same_tree h h3" "same_leaves h h3"
    "sub (h3 ! a) = ?s" "cardSat (h3 ! a) = ?c - 1" "sp_value (h3 ! a) = truth_of (h3 ! a)"
    "\<And>b. b < length h \<Longrightarrow> is_inner (h ! b) \<Longrightarrow> b \<noteq> a \<Longrightarrow> rk b \<le> rk a \<Longrightarrow> node_ok h3 b"
    "\<And>x. x < length h \<Longrightarrow> rk a < rk x \<Longrightarrow>
       sp_value (h3 ! x) = sp_value (h ! x) \<and> sub (h3 ! x) = sub (h ! x) \<and> cardSat (h3 ! x) = cardSat (h ! x)"
    by blast
  have val: "sp_value (h3 ! (sub (h3 ! a) ! j)) \<longleftrightarrow> j \<le> cardSat (h3 ! a) \<and> j \<noteq> i" if "j < length (sub (h3 ! a))" for j
    using that h3(5,6) tf(1) tf(4) [of j] h3(9) links_ok_sub [OF less.prems(1) al less.prems(4), of j] rkc by auto
  have a3: "a < length h3" "is_inner (h3 ! a)" "i \<le> cardSat (h3 ! a)" "cardSat (h3 ! a) < length (sub (h3 ! a))"
    using al h3(3,5,6) tf(1,2) less.prems(4) same_treeD(1) [OF h3(3)] same_tree_inner [OF h3(3)] by auto
  note M = move_false [OF h3(2) ranked_same_tree [OF h3(3) less.prems(2)] a3 val h3(7)]
  note t3 = same_treeD(1) [OF h3(3)] same_tree_inner [OF h3(3)]
  have "node_ok (swap_sub a i h3) b" if "b < length h" "is_inner (h ! b)" "rk b \<le> rk a" for b
    using M(4,5) h3(8) that t3 by (cases "b = a") auto
  moreover have "sp_value (swap_sub a i h3 ! x) = sp_value (h ! x) \<and> sub (swap_sub a i h3 ! x) = sub (h ! x) \<and>
      cardSat (swap_sub a i h3 ! x) = cardSat (h ! x)" if "x < length h" "rk a < rk x" for x
    using M(6,7) [of x] that h3(9) t3 by auto
  ultimately show ?case
    using M(1) h3(1) same_tree_trans [OF h3(3) M(2)] same_leaves_trans [OF h3(4,3) M(3)] by blast
qed

section \<open>Turning a leaf\<close>

definition heap_ok :: "sp_heap \<Rightarrow> bool" where
  "heap_ok h \<longleftrightarrow> links_ok h \<and> (\<exists>rk. ranked rk h) \<and> (\<forall>a < length h. is_inner (h ! a) \<longrightarrow> node_ok h a)"

definition same_sums :: "sp_heap \<Rightarrow> sp_heap \<Rightarrow> bool" where
  "same_sums h h' \<longleftrightarrow> (\<forall>x < length h. sp_sum (h' ! x) = sp_sum (h ! x))"

text \<open>The effect on the leaves: only \<open>a\<close> changes, to \<open>b\<close>.\<close>

definition leaves_but :: "addr \<Rightarrow> bool \<Rightarrow> sp_heap \<Rightarrow> sp_heap \<Rightarrow> bool" where
  "leaves_but a b h h' \<longleftrightarrow>
     (\<forall>x < length h. \<not> is_inner (h ! x) \<longrightarrow> sp_value (h' ! x) = (if x = a then b else sp_value (h ! x)))"

lemma turn_correct:
  assumes "heap_ok h" "a < length h" "\<not> is_inner (h ! a)" "sp_value (h ! a) = (\<not> b)"
  shows "\<exists>h'. turn b a h = Some h' \<and> heap_ok h' \<and> same_tree h h' \<and> same_sums h h' \<and> leaves_but a b h h'"
proof -
  obtain rk where rk: "ranked rk h" using assms(1) by (auto simp: heap_ok_def)
  have L: "links_ok h" and ok: "\<And>x. x < length h \<Longrightarrow> is_inner (h ! x) \<Longrightarrow> node_ok h x"
    using assms(1) by (auto simp: heap_ok_def)
  let ?h1 = "set_value b a h"
  have L1: "links_ok ?h1" by (rule links_ok_same [OF same_links_set_value L]) (rule assms(2))
  have T1: "same_tree h ?h1" using assms(2) by simp
  have R1: "ranked rk ?h1" by (rule ranked_same_tree [OF T1 rk])
  have n1: "?h1 ! x = (if x = a then (h ! x)\<lparr>sp_value := b\<rparr> else h ! x)" for x
    by (simp add: nth_set_value [OF assms(2)])
  have B1: "same_sums h ?h1 \<and> leaves_but a b h ?h1"
    by (simp add: same_sums_def leaves_but_def n1)
  have step: "same_tree h h' \<and> same_sums h h' \<and> leaves_but a b h h'"
    if "same_tree ?h1 h'" "same_leaves ?h1 h'" for h'
    using that B1 same_tree_trans [OF T1 that(1)] by (auto simp: same_sums_def leaves_but_def same_leaves_def n1)
  have ok1: "node_ok ?h1 x" if "x < length h" "is_inner (h ! x)" "parent (h ! a) \<noteq> Some x" for x
  proof (rule node_ok_cong [OF L that(1,2) ok [OF that(1,2)]])
    show "sp_value (?h1 ! y) = sp_value (h ! y)" if "y < length h" "parent (h ! y) = Some x" for y
      using that \<open>parent (h ! a) \<noteq> Some x\<close> by (auto simp: n1)
  qed (use that assms(3) in \<open>auto simp: n1\<close>)
  show ?thesis
  proof (cases "parent (h ! a)")
    case None
    then have "heap_ok ?h1" using ok1 L1 R1 T1 same_tree_inner [OF T1] by (auto simp: heap_ok_def)
    then show ?thesis using None T1 B1 by (simp add: turn_def Let_def)
  next
    case (Some p)
    note P = links_ok_parent [OF L assms(2) Some]
    have ne: "p \<noteq> a" "rk p < rk a" using ranked_neq [OF rk assms(2) Some] by simp_all
    have p1: "p < length ?h1" "is_inner (?h1 ! p)" using P ne by (simp_all add: n1)
    have oth: "\<forall>x < length ?h1. is_inner (?h1 ! x) \<and> x \<noteq> p \<longrightarrow> node_ok ?h1 x"
      using ok1 Some same_tree_inner [OF T1] by auto
    note tp = turned_parent [OF L rk assms(2) Some ok [OF P(1,2)]]
    show ?thesis
    proof (cases b)
      case True
      then have "turned_true ?h1 p (position (h ! a))" using tp(1) assms(4) by simp
      from updateFT_correct [OF L1 R1 p1 this oth]
      obtain h' where h': "updateFT ?h1 p (position (h ! a)) = Some h'" "links_ok h'" "same_tree ?h1 h'"
        "same_leaves ?h1 h'" "\<forall>x < length ?h1. is_inner (?h1 ! x) \<longrightarrow> node_ok h' x" by blast
      have "heap_ok h'"
        using h' same_treeD(1) [OF h'(3)] same_tree_inner [OF h'(3)] ranked_same_tree [OF h'(3) R1]
        by (auto simp: heap_ok_def)
      then show ?thesis using Some True h'(1) step [OF h'(3,4)] by (simp add: turn_def Let_def)
    next
      case False
      then have tf: "turned_false ?h1 p (position (h ! a))" using tp(2) assms(4) by simp
      have oth': "\<forall>x < length ?h1. is_inner (?h1 ! x) \<and> x \<noteq> p \<and> rk x \<le> rk p \<longrightarrow> node_ok ?h1 x" using oth by blast
      from updateTF_correct [OF L1 R1 p1 tf oth']
      obtain h' where h': "updateTF ?h1 p (position (h ! a)) = Some h'" "links_ok h'" "same_tree ?h1 h'"
        "same_leaves ?h1 h'" "\<forall>x < length ?h1. is_inner (?h1 ! x) \<and> rk x \<le> rk p \<longrightarrow> node_ok h' x"
        "\<forall>x < length ?h1. rk p < rk x \<longrightarrow>
           sp_value (h' ! x) = sp_value (?h1 ! x) \<and> sub (h' ! x) = sub (?h1 ! x) \<and> cardSat (h' ! x) = cardSat (?h1 ! x)"
        by blast
      have "node_ok h' x" if x: "x < length ?h1" "is_inner (?h1 ! x)" for x
      proof (cases "rk x \<le> rk p")
        case True
        then show ?thesis using h'(5) x by simp
      next
        case False
        then have "node_ok ?h1 x" using oth x by auto
        moreover have "rk p < rk y" if "y < length ?h1" "parent (?h1 ! y) = Some x" for y
          using ranked_neq [OF R1 that] False by simp
        ultimately show ?thesis
          using node_ok_cong [OF L1 x, of h'] x False h'(6) same_treeD(2) [OF h'(3)] by simp
      qed
      then have "heap_ok h'"
        using h' same_treeD(1) [OF h'(3)] same_tree_inner [OF h'(3)] ranked_same_tree [OF h'(3) R1]
        by (auto simp: heap_ok_def)
      then show ?thesis using Some False h'(1) step [OF h'(3,4)] by (simp add: turn_def Let_def)
    qed
  qed
qed

section \<open>The order of the assignment in DeadlockPredicate::update\<close>

text \<open>\<open>updateTF\<close> neither reads nor writes the value of a leaf.\<close>

lemma set_value_commute:
  assumes "x < length h"
  shows "a \<noteq> x \<Longrightarrow> set_value c a (set_value b x h) = set_value b x (set_value c a h)"
    "add_sat f a (set_value b x h) = set_value b x (add_sat f a h)"
    "set_position i a (set_value b x h) = set_value b x (set_position i a h)"
    "(set_value b x h)[a := (set_value b x h ! a)\<lparr>sub := s\<rparr>] = set_value b x (h[a := (h ! a)\<lparr>sub := s\<rparr>])"
  using assms
  by (auto intro!: nth_equalityI simp: set_value_def add_sat_def set_position_def nth_list_update list_update_swap)

lemma set_value_beyond: "\<not> x < length h \<Longrightarrow> set_value b x h = h"
  by (simp add: set_value_def list_update_beyond)

lemma swap_sub_set_value: "swap_sub a i (set_value b x h) = set_value b x (swap_sub a i h)"
proof (cases "x < length h")
  case True
  then have f: "cardSat (set_value b x h ! a) = cardSat (h ! a)" "sub (set_value b x h ! a) = sub (h ! a)"
    by (simp_all add: nth_set_value)
  show ?thesis
    unfolding swap_sub_def Let_def f using True by (simp add: set_value_commute)
next
  case False
  then show ?thesis by (simp add: set_value_beyond)
qed

lemma updateTF_set_value:
  assumes "links_ok h" "ranked rk h" "a < length h" "is_inner (h ! a)" "x < length h" "\<not> is_inner (h ! x)"
  shows "updateTF (set_value b x h) a i = map_option (set_value b x) (updateTF h a i)"
  using assms
proof (induction "rk a" arbitrary: a i h rule: less_induct)
  case less
  note al = less.prems(3) and xl = less.prems(5)
  have ne: "a \<noteq> x" using less.prems(4,6) by auto
  have f: "set_value b x h ! a = h ! a" using ne xl by (simp add: nth_set_value)
  have al': "a < length (set_value b x h)" "is_inner (set_value b x h ! a)" using al less.prems(4) f by simp_all
  let ?h1 = "add_sat (\<lambda>c. c - 1) a h" and ?h2 = "set_value False a (add_sat (\<lambda>c. c - 1) a h)"
  have c: "add_sat (\<lambda>c. c - 1) a (set_value b x h) = set_value b x ?h1"
    "set_value False a (set_value b x ?h1) = set_value b x ?h2"
    using set_value_commute(2) [OF xl] set_value_commute(1) [of x ?h1 a] ne xl by simp_all
  have l2: "links_ok ?h2"
    by (rule links_ok_same [OF same_links_set_value links_ok_same [OF same_links_add_sat less.prems(1)]]) (use al in simp_all)
  have r2: "ranked rk ?h2"
    by (rule ranked_same_tree [OF same_tree_trans [OF same_tree_add_sat same_tree_set_value] less.prems(2)]) (use al in simp_all)
  show ?case
  proof (cases "cardSat (h ! a) = threshold_sat (h ! a) \<and> parent (h ! a) \<noteq> None")
    case False
    then show ?thesis
      unfolding updateTF_eq [OF al'] updateTF_eq [OF al less.prems(4)] f Let_def c
      using xl by (auto simp: swap_sub_set_value split: option.splits)
  next
    case True
    then obtain p where p: "parent (h ! a) = Some p" by auto
    note P = links_ok_parent [OF less.prems(1) al p]
    have rk: "rk p < rk a" using ranked_neq [OF less.prems(2) al p] by simp
    have q: "p < length ?h2" "is_inner (?h2 ! p)" "x < length ?h2" "\<not> is_inner (?h2 ! x)"
      using P al xl less.prems(4,6) ne by (simp_all add: nth_add_sat nth_set_value)
    note IH = less.hyps [OF rk l2 r2 q]
    show ?thesis
      unfolding updateTF_eq [OF al'] updateTF_eq [OF al less.prems(4)] f Let_def c
      using True p IH by (cases "updateTF ?h2 p (position (h ! a))") (simp_all add: swap_sub_set_value)
  qed
qed

text \<open>So both update methods do the same as storing the value first.\<close>

lemma set_value_same: "a < length h \<Longrightarrow> sp_value (h ! a) = b \<Longrightarrow> set_value b a h = h"
  by (auto simp: set_value_def intro!: nth_equalityI simp: nth_list_update)

lemma fireable_update_eq:
  assumes "a < length h" "kind (h ! a) = Fireable t sign"
  shows "fireable_update ns a h = enabling_update ns a h"
  using assms set_value_same [OF assms(1)]
  by (auto simp: fireable_update_def enabling_update_def leaf_value_def fireable_evaluate_def turn_def Let_def
      split: option.splits)

lemma deadlock_update_eq:
  assumes "links_ok h" "ranked rk h" "a < length h" "kind (h ! a) = Deadlock sign"
  shows "deadlock_pred_update ns a h = enabling_update ns a h"
proof -
  have leaf: "\<not> is_inner (h ! a)" using assms(4) by (simp add: is_inner_def)
  have c: "updateTF (set_value b a h) p i = map_option (set_value b a) (updateTF h p i)"
    if "parent (h ! a) = Some p" for b p i
    using updateTF_set_value [OF assms(1,2) links_ok_parent(1,2) [OF assms(1,3) that] assms(3) leaf] .
  have v: "leaf_value ns (h ! a) = deadlock_evaluate ns sign"
    using assms(4) by (simp add: leaf_value_def deadlock_evaluate_def)
  show ?thesis
  proof (cases "parent (h ! a)")
    case None
    then show ?thesis
      using assms(3,4) v set_value_same [OF assms(3)]
      by (auto simp: deadlock_pred_update_def enabling_update_def turn_def Let_def)
  next
    case (Some p)
    have bind: "Option.bind r (\<lambda>h1. Some (f h1)) = map_option f r" for r :: "sp_heap option" and f :: "sp_heap \<Rightarrow> sp_heap"
      by (cases r) simp_all
    show ?thesis
      using assms(3,4) v set_value_same [OF assms(3)] Some c [OF Some]
      by (auto simp: deadlock_pred_update_def enabling_update_def turn_def Let_def bind)
  qed
qed

end
