(* ===== verification/PredicateEval.thy ===== *)
theory PredicateEval
  imports PredicateInv
begin

text \<open>
  \<open>evaluate\<close> of the state predicates: it returns on every formula tree and leaves every object of the
  tree with the right value, sum, order of members and positions.
\<close>

section \<open>The sorting loop\<close>

lemma skip_sat_spec:
  "l \<le> length s \<Longrightarrow>
   l \<le> skip_sat v s l \<and> skip_sat v s l \<le> length s \<and> (\<forall>j. l \<le> j \<and> j < skip_sat v s l \<longrightarrow> v (s ! j)) \<and>
   (skip_sat v s l < length s \<longrightarrow> \<not> v (s ! skip_sat v s l))"
proof (induction v s l rule: skip_sat.induct)
  case (1 v s l)
  show ?case
  proof (cases "l < length s \<and> v (s ! l)")
    case True
    have "skip_sat v s l = skip_sat v s (l + 1)" using True by (subst skip_sat.simps) simp
    moreover have "l + 1 \<le> length s" using True by simp
    note IH = 1(1) [OF True this]
    have "v (s ! j)" if "l \<le> j" "j < skip_sat v s (l + 1)" for j
      using that True IH by (cases "j = l") auto
    ultimately show ?thesis using IH by simp
  next
    case False
    then have "skip_sat v s l = l" by (subst skip_sat.simps) auto
    then show ?thesis using 1 False by auto
  qed
qed

lemma skip_unsat_spec:
  "(\<forall>j. skip_unsat v s r \<le> j \<and> j < r \<longrightarrow> \<not> v (s ! j)) \<and> (0 < skip_unsat v s r \<longrightarrow> v (s ! (skip_unsat v s r - 1)))"
  by (induction r) (auto simp: less_Suc_eq)

lemma sat_partition_spec:
  assumes "left \<le> length s" "right \<le> length s" "\<forall>j < left. v (s ! j)" "\<forall>j. right \<le> j \<and> j < length s \<longrightarrow> \<not> v (s ! j)"
  shows "mset (fst (sat_partition v s left right)) = mset s \<and> snd (sat_partition v s left right) \<le> length s \<and>
    (\<forall>i < length s. v (fst (sat_partition v s left right) ! i) \<longleftrightarrow> i < snd (sat_partition v s left right))"
  using assms
proof (induction v s left right rule: sat_partition.induct)
  case (1 v s left right)
  let ?l = "skip_sat v s left" and ?r = "skip_unsat v s right"
  note L = skip_sat_spec [OF 1(2), of v] and R = skip_unsat_spec [of v s right]
  have rle: "?r \<le> right" by (rule skip_unsat_le)
  have lows: "v (s ! j)" if "j < ?l" for j using that L 1(4) by (cases "j < left") auto
  have highs: "\<not> v (s ! j)" if "?r \<le> j" "j < length s" for j using that R 1(5) by (cases "j < right") auto
  show ?case
  proof (cases "?r \<le> ?l")
    case True
    then have "sat_partition v s left right = (s, ?l)" by (subst sat_partition.simps) (simp add: Let_def)
    moreover have "v (s ! i) \<longleftrightarrow> i < ?l" if "i < length s" for i
      using lows [of i] highs [OF _ that] True by (cases "i < ?l") auto
    ultimately show ?thesis using L by simp
  next
    case False
    let ?s = "swap_at s ?l (?r - 1)"
    have b: "?l < length s" "?r - 1 < length s" "?l \<le> ?r - 1" using False rle 1(3) L by auto
    have eq: "sat_partition v s left right = sat_partition v ?s (?l + 1) (?r - 1)"
      using False by (subst sat_partition.simps) (simp add: Let_def)
    have lt: "?l < ?r - 1"
    proof (rule ccontr)
      assume "\<not> ?l < ?r - 1"
      then have "?l = ?r - 1" using b(3) by simp
      then show False using L R b(1) False by auto
    qed
    have n: "?s ! j = (if j = ?r - 1 then s ! ?l else if j = ?l then s ! (?r - 1) else s ! j)" if "j < length s" for j
      using nth_swap_at [OF b(1,2) that] .
    have v1: "v (s ! (?r - 1))" using R False by auto
    have v2: "\<not> v (s ! ?l)" using L b(1) by blast
    have low': "\<forall>j < ?l + 1. v (?s ! j)"
      using n lows v1 lt b by (auto simp: less_Suc_eq)
    have high': "\<forall>j. ?r - 1 \<le> j \<and> j < length ?s \<longrightarrow> \<not> v (?s ! j)"
      using n highs v2 lt by auto
    have m: "mset ?s = mset s" using b by simp
    have "?l + 1 \<le> length ?s" "?r - 1 \<le> length ?s" using b by simp_all
    from 1(1) [OF refl refl False this low' high'] show ?thesis using eq m by simp
  qed
qed

section \<open>evaluate_inner\<close>

lemma fold_positions:
  assumes "distinct s" "\<And>x. x \<in> set s \<Longrightarrow> x < length h" "n \<le> length s"
  shows "length (fold (\<lambda>i. set_position i (s ! i)) [0..<n] h) = length h \<and>
    (\<forall>i < n. fold (\<lambda>i. set_position i (s ! i)) [0..<n] h ! (s ! i) = (h ! (s ! i))\<lparr>position := i\<rparr>) \<and>
    (\<forall>x. x \<notin> set (take n s) \<longrightarrow> fold (\<lambda>i. set_position i (s ! i)) [0..<n] h ! x = h ! x)"
  using assms(3)
proof (induction n)
  case (Suc n)
  let ?h = "fold (\<lambda>i. set_position i (s ! i)) [0..<n] h"
  have IH: "length ?h = length h" "\<And>i. i < n \<Longrightarrow> ?h ! (s ! i) = (h ! (s ! i))\<lparr>position := i\<rparr>"
    "\<And>x. x \<notin> set (take n s) \<Longrightarrow> ?h ! x = h ! x" using Suc by auto
  have sn: "s ! n < length ?h" using Suc.prems IH(1) assms(2) by simp
  have nin: "s ! n \<notin> set (take n s)" using assms(1) Suc.prems
    by (auto simp: in_set_conv_nth nth_eq_iff_index_eq)
  have st: "set (take (Suc n) s) = insert (s ! n) (set (take n s))" using Suc.prems by (simp add: take_Suc_conv_app_nth)
  have "s ! i \<noteq> s ! n" if "i < n" for i using that assms(1) Suc.prems by (simp add: nth_eq_iff_index_eq)
  then show ?case
    using IH sn nin st by (auto simp: nth_set_position less_Suc_eq)
qed simp

definition leaf_ok :: "netstate \<Rightarrow> sp_heap \<Rightarrow> addr \<Rightarrow> bool" where
  "leaf_ok ns h x \<longleftrightarrow> sp_value (h ! x) = leaf_value ns (h ! x) \<and>
     (\<forall>pos neg thr. kind (h ! x) = Atomic pos neg thr \<longrightarrow> sp_sum (h ! x) = atomic_sum pos neg (Current ns))"

definition evaluated :: "netstate \<Rightarrow> sp_heap \<Rightarrow> addr \<Rightarrow> bool" where
  "evaluated ns h x \<longleftrightarrow> (if is_inner (h ! x) then node_ok h x else leaf_ok ns h x)"

lemma evaluated_cong:
  assumes "links_ok h" "x < length h" "evaluated ns h x" "h' ! x = h ! x"
    and "\<And>y. y < length h \<Longrightarrow> parent (h ! y) = Some x \<Longrightarrow> sp_value (h' ! y) = sp_value (h ! y)"
  shows "evaluated ns h' x"
proof (cases "is_inner (h ! x)")
  case True
  then show ?thesis using assms node_ok_cong [OF assms(1,2) True, of h'] by (simp add: evaluated_def)
next
  case False
  then show ?thesis using assms(3,4) by (simp add: evaluated_def leaf_ok_def)
qed

lemma evaluate_inner_spec:
  assumes "links_ok h" "ranked rk h" "a < length h" "is_inner (h ! a)"
  shows "links_ok (evaluate_inner a h)" "same_tree h (evaluate_inner a h)" "node_ok (evaluate_inner a h) a"
    "\<And>x. x < length h \<Longrightarrow> x \<noteq> a \<Longrightarrow> parent (h ! x) \<noteq> Some a \<Longrightarrow> evaluate_inner a h ! x = h ! x"
    "\<And>x. x < length h \<Longrightarrow> x \<noteq> a \<Longrightarrow> \<exists>i. evaluate_inner a h ! x = (h ! x)\<lparr>position := i\<rparr>"
proof -
  let ?v = "\<lambda>x. sp_value (h ! x)"
  obtain s c where sc: "sat_partition ?v (sub (h ! a)) 0 (length (sub (h ! a))) = (s, c)" by (meson surj_pair)
  have triv: "\<forall>j. length (sub (h ! a)) \<le> j \<and> j < length (sub (h ! a)) \<longrightarrow> \<not> ?v (sub (h ! a) ! j)" by auto
  have P: "mset s = mset (sub (h ! a))" "c \<le> length (sub (h ! a))" "\<And>i. i < length (sub (h ! a)) \<Longrightarrow> ?v (s ! i) \<longleftrightarrow> i < c"
    using sat_partition_spec [OF le0 order_refl _ triv] sc by simp_all
  have len: "length s = length (sub (h ! a))" and st: "set s = set (sub (h ! a))"
    using P(1) by (auto dest: mset_eq_length mset_eq_setD)
  have d: "distinct s" using links_ok_distinct [OF assms(1,3,4)] P(1) mset_eq_imp_distinct_iff by blast
  have mem: "x < length h \<and> parent (h ! x) = Some a" if "x \<in> set s" for x
    using that st links_ok_sub [OF assms(1,3,4)] by (auto simp: in_set_conv_nth)
  have par: "x \<in> set s" if "x < length h" "parent (h ! x) = Some a" for x
    using links_ok_parent [OF assms(1) that] st nth_mem by metis
  have self: "a \<notin> set s" using mem ranked_neq [OF assms(2,3)] by blast
  define b where "b = (if kind (h ! a) = Conjunction then c = length (sub (h ! a)) else 0 < c)"
  define h1 where "h1 = h[a := (h ! a)\<lparr>sub := s, cardSat := c, sp_value := b\<rparr>]"
  define h2 where "h2 = evaluate_inner a h"
  have h2: "h2 = fold (\<lambda>i. set_position i (s ! i)) [0..<length s] h1"
    using sc
    by (simp add: h2_def evaluate_inner_def conjunction_evaluate_def disjunction_evaluate_def update_positions_def
        h1_def b_def Let_def)
  have l1: "length h1 = length h" by (simp add: h1_def)
  have F: "length h2 = length h" "\<And>i. i < length s \<Longrightarrow> h2 ! (s ! i) = (h1 ! (s ! i))\<lparr>position := i\<rparr>"
    "\<And>x. x \<notin> set s \<Longrightarrow> h2 ! x = h1 ! x"
    using fold_positions [OF d, of h1 "length s"] mem l1 unfolding h2 by auto
  have n1: "h1 ! x = (if x = a then (h ! x)\<lparr>sub := s, cardSat := c, sp_value := b\<rparr> else h ! x)" for x
    using assms(3) by (simp add: h1_def)
  have na: "h2 ! a = (h ! a)\<lparr>sub := s, cardSat := c, sp_value := b\<rparr>" using F(3) [OF self] n1 by simp
  have ns: "h2 ! (s ! i) = (h ! (s ! i))\<lparr>position := i\<rparr>" if "i < length s" for i
    using F(2) [OF that] n1 [of "s ! i"] self that by auto
  have no: "h2 ! x = h ! x" if "x \<noteq> a" "x \<notin> set s" for x using F(3) [OF that(2)] n1 that by simp
  have any: "\<exists>i. h2 ! x = (h ! x)\<lparr>position := i\<rparr>" if "x \<noteq> a" for x
  proof (cases "x \<in> set s")
    case True
    then show ?thesis using ns by (metis in_set_conv_nth)
  next
    case False
    then show ?thesis using no [OF that] by (intro exI [of _ "position (h ! x)"]) simp
  qed
  have flds: "kind (h2 ! x) = kind (h ! x) \<and> parent (h2 ! x) = parent (h ! x) \<and> up (h2 ! x) = up (h ! x) \<and>
      (x \<noteq> a \<longrightarrow> sub (h2 ! x) = sub (h ! x) \<and> sp_value (h2 ! x) = sp_value (h ! x))" for x
    using any [of x] na by (cases "x = a") auto
  have inn: "is_inner (h2 ! x) = is_inner (h ! x)" for x using flds by (simp add: is_inner_def)
  show "same_tree h (evaluate_inner a h)"
    unfolding same_tree_def h2_def [symmetric] using F(1) flds na P(1) by (metis sp_node.select_convs(7) sp_node.surjective sp_node.update_convs(7) sp_node.update_convs(8) sp_node.update_convs(2))
  show "\<And>x. x < length h \<Longrightarrow> x \<noteq> a \<Longrightarrow> parent (h ! x) \<noteq> Some a \<Longrightarrow> evaluate_inner a h ! x = h ! x"
    unfolding h2_def [symmetric] using no mem by blast
  show "\<And>x. x < length h \<Longrightarrow> x \<noteq> a \<Longrightarrow> \<exists>i. evaluate_inner a h ! x = (h ! x)\<lparr>position := i\<rparr>"
    unfolding h2_def [symmetric] using any by blast
  have "sp_value (h2 ! (s ! i)) \<longleftrightarrow> i < c" if "i < length s" for i
    using P(3) that len flds [of "s ! i"] self by auto
  then show "node_ok (evaluate_inner a h) a"
    unfolding h2_def [symmetric] node_ok_def truth_of_def na using P(2) len by (simp add: b_def)
  show "links_ok (evaluate_inner a h)"
    unfolding h2_def [symmetric] links_ok_def F(1)
  proof (intro conjI allI impI)
    fix z j
    assume z: "z < length h" "is_inner (h2 ! z)" "j < length (sub (h2 ! z))"
    have "sub (h2 ! z) ! j < length h \<and> parent (h2 ! (sub (h2 ! z) ! j)) = Some z \<and> position (h2 ! (sub (h2 ! z) ! j)) = j"
    proof (cases "z = a")
      case True
      then have "j < length s" "sub (h2 ! z) = s" using z na by auto
      then show ?thesis using True ns mem flds by (simp add: True)
    next
      case False
      then have z': "j < length (sub (h ! z))" "sub (h2 ! z) = sub (h ! z)" "is_inner (h ! z)" using z flds inn by auto
      note S = links_ok_sub [OF assms(1) z(1) z'(3,1)]
      have "sub (h ! z) ! j \<notin> set s" using S mem False by auto
      then have "position (h2 ! (sub (h ! z) ! j)) = j" using no S na by (cases "sub (h ! z) ! j = a") auto
      then show ?thesis using S flds z' by simp
    qed
    then show "sub (h2 ! z) ! j < length h" "parent (h2 ! (sub (h2 ! z) ! j)) = Some z"
      "position (h2 ! (sub (h2 ! z) ! j)) = j" by simp_all
  next
    fix x p
    assume x: "x < length h" "parent (h2 ! x) = Some p"
    then have "parent (h ! x) = Some p" using flds by simp
    note Q = links_ok_parent [OF assms(1) x(1) this]
    show "p < length h" "is_inner (h2 ! p)" using Q inn by simp_all
    have "position (h2 ! x) < length (sub (h2 ! p)) \<and> sub (h2 ! p) ! position (h2 ! x) = x"
    proof (cases "p = a")
      case True
      then obtain i where "i < length s" "s ! i = x" using par x flds by (metis in_set_conv_nth)
      then show ?thesis using ns [of i] na True by simp
    next
      case False
      then have "x \<notin> set s" using mem x flds by force
      then have "position (h2 ! x) = position (h ! x)" using no [of x] na by (cases "x = a") auto
      then show ?thesis using Q False flds by simp
    qed
    then show "position (h2 ! x) < length (sub (h2 ! p))" "sub (h2 ! p) ! position (h2 ! x) = x" by simp_all
  qed
qed

section \<open>evaluate\<close>

text \<open>The objects of the subtree below \<open>a\<close>.\<close>

inductive below :: "sp_heap \<Rightarrow> addr \<Rightarrow> addr \<Rightarrow> bool" for h a where
  below_self: "below h a a"
| below_child: "x < length h \<Longrightarrow> parent (h ! x) = Some p \<Longrightarrow> below h a p \<Longrightarrow> below h a x"

lemma below_same_tree:
  assumes "same_tree h h'" "below h a x"
  shows "below h' a x"
  using assms(2)
proof (induction rule: below.induct)
  case (below_child x p)
  then show ?case using assms(1) by (intro below.below_child [of x h' p]) (simp_all add: same_tree_def)
qed (rule below_self)

lemma below_iff: "same_tree h h' \<Longrightarrow> below h' a x \<longleftrightarrow> below h a x"
  using below_same_tree same_tree_sym by blast

lemma below_trans: "below h b x \<Longrightarrow> below h a b \<Longrightarrow> below h a x"
  by (induction rule: below.induct) (auto intro: below_child)

lemma below_parent: "below h a x \<Longrightarrow> x \<noteq> a \<Longrightarrow> parent (h ! x) = Some p \<Longrightarrow> below h a p"
  by (erule below.cases) auto

lemma below_rank: "below h a x \<Longrightarrow> ranked rk h \<Longrightarrow> rk a \<le> rk x"
  by (induction rule: below.induct) (auto dest: ranked_neq)

lemma below_comparable: "below h a x \<Longrightarrow> below h b x \<Longrightarrow> below h a b \<or> below h b a"
proof (induction rule: below.induct)
  case (below_child x p)
  show ?case
  proof (cases "x = b")
    case True
    then show ?thesis using below_child.hyps by (auto intro: below.below_child)
  next
    case False
    then show ?thesis using below_child below_parent by blast
  qed
qed simp

text \<open>Subtrees of two members of one object are disjoint.\<close>

lemma siblings_disjoint:
  assumes "ranked rk h" "parent (h ! c) = Some a" "parent (h ! d) = Some a" "c < length h" "d < length h" "c \<noteq> d"
    and "below h c x" "below h d x"
  shows False
proof -
  have "rk a < rk c" "rk a < rk d" using assms by (auto dest: ranked_neq)
  moreover have "below h c d \<or> below h d c" by (rule below_comparable [OF assms(7,8)])
  then have "below h c a \<or> below h d a" using assms(2,3,6) below_parent by metis
  then have "rk c \<le> rk a \<or> rk d \<le> rk a" using below_rank [OF _ assms(1)] by blast
  ultimately show False by simp
qed

lemma below_split:
  assumes "links_ok h" "a < length h" "is_inner (h ! a)" "below h a x" "x \<noteq> a"
  shows "\<exists>j < length (sub (h ! a)). below h (sub (h ! a) ! j) x"
  using assms(4,5)
proof (induction rule: below.induct)
  case (below_child x p)
  show ?case
  proof (cases "p = a")
    case True
    then show ?thesis using links_ok_parent(3,4) [OF assms(1) below_child.hyps(1,2)] by (metis below.below_self)
  next
    case False
    then show ?thesis using below_child by (meson below.below_child)
  qed
qed simp

definition eval_post :: "netstate \<Rightarrow> sp_heap \<Rightarrow> addr \<Rightarrow> sp_heap \<Rightarrow> bool" where
  "eval_post ns h a h' \<longleftrightarrow> links_ok h' \<and> same_tree h h' \<and> constants_ok h' \<and>
     (\<forall>x < length h. below h a x \<longrightarrow> evaluated ns h' x) \<and> (\<forall>x < length h. \<not> below h a x \<longrightarrow> h' ! x = h ! x)"

definition eval_pre :: "netstate \<Rightarrow> sp_heap \<Rightarrow> addr \<Rightarrow> nat \<Rightarrow> bool" where
  "eval_pre ns h a i \<longleftrightarrow>
     (is_inner (h ! a) \<longrightarrow> (\<forall>j < i. j < length (sub (h ! a)) \<longrightarrow>
        (\<forall>x < length h. below h (sub (h ! a) ! j) x \<longrightarrow> evaluated ns h x)))"

lemma leaf_value_fields [simp]:
  "leaf_value ns (n\<lparr>sp_value := b\<rparr>) = leaf_value ns n" "leaf_value ns (n\<lparr>sp_sum := w\<rparr>) = leaf_value ns n"
  "leaf_value ns (n\<lparr>position := i\<rparr>) = leaf_value ns n"
  by (simp_all add: leaf_value_def split: sp_kind.splits)

lemma evaluate_leaf_spec:
  assumes "links_ok h" "ranked rk h" "a < length h" "\<not> is_inner (h ! a)" "constants_ok h"
  shows "eval_post ns h a (evaluate_leaf ns a h)"
proof -
  let ?h = "evaluate_leaf ns a h"
  obtain w b where eq: "?h = h[a := (h ! a)\<lparr>sp_sum := w, sp_value := b\<rparr>]" and b: "b = leaf_value ns (h ! a)"
    and w: "\<And>pos neg thr. kind (h ! a) = Atomic pos neg thr \<Longrightarrow> w = atomic_sum pos neg (Current ns)"
  proof (cases "is_atomic (kind (h ! a))")
    case True
    then obtain pos neg thr where k: "kind (h ! a) = Atomic pos neg thr" by (cases "kind (h ! a)") auto
    show ?thesis
      by (rule that [of "leaf_value ns (h ! a)" "atomic_sum pos neg (Current ns)"])
         (simp_all add: k evaluate_leaf_def atomic_evaluate_def leaf_value_def Let_def)
  next
    case False
    have "set_value (leaf_value ns (h ! a)) a h = evaluate_leaf ns a h"
    proof (cases "kind (h ! a)")
      case TruePredicate
      then have "sp_value (h ! a)" using assms(3,5) by (simp add: constants_ok_def)
      then show ?thesis
        using TruePredicate set_value_same [OF assms(3)] by (simp add: evaluate_leaf_def leaf_value_def)
    next
      case FalsePredicate
      then have "\<not> sp_value (h ! a)" using assms(3,5) by (simp add: constants_ok_def)
      then show ?thesis
        using FalsePredicate set_value_same [OF assms(3)] by (simp add: evaluate_leaf_def leaf_value_def)
    qed (use False assms(4) in \<open>simp_all add: evaluate_leaf_def leaf_value_def fireable_evaluate_def deadlock_evaluate_def is_inner_def\<close>)
    then show ?thesis
      by (intro that [of "leaf_value ns (h ! a)" "sp_sum (h ! a)"]) (use False in \<open>auto simp: set_value_def\<close>)
  qed
  have n: "?h ! x = (if x = a then (h ! a)\<lparr>sp_sum := w, sp_value := b\<rparr> else h ! x)" for x
    using assms(3) by (simp add: eq)
  have len: "length ?h = length h" by (simp add: eq)
  have "links_ok ?h" by (rule links_ok_same [OF _ assms(1)]) (simp add: same_links_def len n)
  moreover have "same_tree h ?h" by (simp add: same_tree_def len n)
  moreover have "x = a" if "x < length h" "below h a x" for x
    using that(2,1)
  proof (induction rule: below.induct)
    case (below_child x p)
    then show ?case using links_ok_parent [OF assms(1)] assms(4) by metis
  qed simp
  moreover have "evaluated ns ?h a" using assms(4) b w by (auto simp: evaluated_def leaf_ok_def n)
  moreover have "constants_ok ?h" using assms(5) b by (auto simp: constants_ok_def len n leaf_value_def)
  ultimately show ?thesis by (auto simp: eval_post_def n below_self)
qed

lemma evaluate_inner_post:
  assumes "links_ok h" "ranked rk h" "a < length h" "is_inner (h ! a)" "eval_pre ns h a (length (sub (h ! a)))"
    and "constants_ok h"
  shows "eval_post ns h a (evaluate_inner a h)"
proof -
  let ?h = "evaluate_inner a h"
  note I = evaluate_inner_spec [OF assms(1-4)]
  have "evaluated ns ?h x" if x: "x < length h" "below h a x" for x
  proof (cases "x = a")
    case True
    then show ?thesis using I(3) same_tree_inner [OF I(2) assms(3)] assms(4) by (simp add: evaluated_def)
  next
    case False
    then have e: "evaluated ns h x"
      using below_split [OF assms(1,3,4) x(2)] assms(4,5) x by (auto simp: eval_pre_def)
    obtain i where i: "?h ! x = (h ! x)\<lparr>position := i\<rparr>" using I(5) [OF x(1) False] by blast
    have vals: "sp_value (?h ! y) = sp_value (h ! y)" if "y < length h" "y \<noteq> a" for y using I(5) [OF that] by auto
    show ?thesis
    proof (cases "is_inner (h ! x)")
      case True
      have "y \<noteq> a" if "y < length h" "parent (h ! y) = Some x" for y
        using that below_rank [OF x(2) assms(2)] ranked_neq [OF assms(2) that] by auto
      then have "node_ok ?h x"
        using node_ok_cong [OF assms(1) x(1) True, of ?h] e True i vals by (simp add: evaluated_def)
      then show ?thesis using True i by (simp add: evaluated_def)
    next
      case False
      then show ?thesis using e i by (simp add: evaluated_def leaf_ok_def)
    qed
  qed
  moreover have "?h ! x = h ! x" if "x < length h" "\<not> below h a x" for x
    using I(4) [OF that(1)] that by (metis below.simps)
  moreover have "constants_ok ?h"
    unfolding constants_ok_def same_treeD(1) [OF I(2)]
  proof (intro allI impI)
    fix x
    assume x: "x < length h"
    show "(kind (?h ! x) = TruePredicate \<longrightarrow> sp_value (?h ! x)) \<and> (kind (?h ! x) = FalsePredicate \<longrightarrow> \<not> sp_value (?h ! x))"
    proof (cases "x = a")
      case True
      then show ?thesis using same_treeD(2) [OF I(2) x] assms(4) by (auto simp: is_inner_def)
    next
      case False
      then show ?thesis using I(5) [OF x] x assms(6) by (auto simp: constants_ok_def)
    qed
  qed
  ultimately show ?thesis using I(1,2) by (simp add: eval_post_def)
qed

text \<open>One round of the loop.\<close>

lemma eval_round:
  assumes "links_ok h" "ranked rk h" "a < length h" "is_inner (h ! a)" "i < length (sub (h ! a))"
    and pre: "eval_pre ns h a i" and post: "eval_post ns h (sub (h ! a) ! i) h1"
  shows "eval_pre ns h1 a (i + 1)" "h1 ! a = h ! a"
proof -
  let ?c = "sub (h ! a) ! i"
  note S = links_ok_sub [OF assms(1,3,4,5)]
  have P: "same_tree h h1" "\<And>x. x < length h \<Longrightarrow> below h ?c x \<Longrightarrow> evaluated ns h1 x"
    "\<And>x. x < length h \<Longrightarrow> \<not> below h ?c x \<Longrightarrow> h1 ! x = h ! x" using post by (auto simp: eval_post_def)
  have na: "\<not> below h ?c a" using below_rank [OF _ assms(2), of ?c a] ranked_neq [OF assms(2) S(1,2)] by auto
  show eq: "h1 ! a = h ! a" using P(3) assms(3) na by blast
  have "evaluated ns h1 x" if j: "j < i + 1" "j < length (sub (h ! a))" and x: "x < length h" "below h (sub (h ! a) ! j) x" for j x
  proof (cases "j = i")
    case True
    then show ?thesis using P(2) x by simp
  next
    case False
    let ?d = "sub (h ! a) ! j"
    note D = links_ok_sub [OF assms(1,3,4) j(2)]
    have ne: "?d \<noteq> ?c" using False D(3) S(3) by metis
    have nb: "\<not> below h ?c y" if "below h ?d y" for y
      using siblings_disjoint [OF assms(2) D(2) S(2) D(1) S(1) ne that] by blast
    have "j < i" using j False by simp
    then have e: "evaluated ns h x" using pre assms(4) j(2) x by (simp add: eval_pre_def)
    show ?thesis
    proof (rule evaluated_cong [OF assms(1) x(1) e])
      show "h1 ! x = h ! x" using P(3) x nb by blast
      fix y
      assume y: "y < length h" "parent (h ! y) = Some x"
      then have "below h ?d y" using x(2) by (meson below_child)
      then show "sp_value (h1 ! y) = sp_value (h ! y)" using P(3) [OF y(1)] nb by simp
    qed
  qed
  then show "eval_pre ns h1 a (i + 1)"
    using P(1) same_treeD(1) [OF P(1)] by (auto simp: eval_pre_def eq below_iff)
qed

lemma eval_post_trans:
  assumes "eval_post ns h c h1" "below h a c" "eval_post ns h1 a h2"
  shows "eval_post ns h a h2"
proof -
  have T: "same_tree h h1" using assms(1) by (simp add: eval_post_def)
  have "\<not> below h c x" if "\<not> below h a x" for x using that assms(2) below_trans by blast
  then show ?thesis
    using assms(1,3) same_tree_trans [OF T] below_iff [OF T] same_treeD(1) [OF T] unfolding eval_post_def by metis
qed

lemma evaluate_from_total:
  assumes "links_ok h" "ranked rk h" "a < length h" "\<forall>x < length h. rk x \<le> M" "eval_pre ns h a i"
    "is_inner (h ! a) \<longrightarrow> i \<le> length (sub (h ! a))" "constants_ok h"
  shows "\<exists>h'. evaluate_from ns h a i = Some h' \<and> eval_post ns h a h'"
  using assms
proof (induction "M - rk a" arbitrary: h a i rule: less_induct)
  case outer: less
  show ?case using outer.prems
  proof (induction "length (sub (h ! a)) - i" arbitrary: h i rule: less_induct)
    case inner: less
    note al = inner.prems(3)
    show ?case
    proof (cases "is_inner (h ! a)")
      case False
      then show ?thesis
        using evaluate_leaf_spec [OF inner.prems(1-3) False inner.prems(7)] by (subst evaluate_from.simps) simp
    next
      case True
      show ?thesis
      proof (cases "i < length (sub (h ! a))")
        case False
        then have "i = length (sub (h ! a))" using inner.prems(6) True by simp
        then show ?thesis
          using evaluate_inner_post [OF inner.prems(1-3) True _ inner.prems(7)] inner.prems(5) True False
          by (subst evaluate_from.simps) simp
      next
        case i: True
        let ?c = "sub (h ! a) ! i"
        note S = links_ok_sub [OF inner.prems(1) al True i]
        have rk: "rk a < rk ?c" using ranked_neq [OF inner.prems(2) S(1,2)] by simp
        then have lt: "M - rk ?c < M - rk a" using inner.prems(4) S(1) by (meson diff_less_mono2 le_trans less_le_trans)
        have "eval_pre ns h ?c 0" by (simp add: eval_pre_def)
        from outer.hyps [OF lt inner.prems(1,2) S(1) inner.prems(4) this _ inner.prems(7)]
        obtain h1 where h1: "evaluate_from ns h ?c 0 = Some h1" "eval_post ns h ?c h1" by blast
        note R = eval_round [OF inner.prems(1-3) True i inner.prems(5) h1(2)]
        have T: "links_ok h1" "same_tree h h1" "constants_ok h1" using h1(2) by (auto simp: eval_post_def)
        note len = same_treeD(1) [OF T(2)]
        have "length (sub (h1 ! a)) - (i + 1) < length (sub (h ! a)) - i" using i R(2) by simp
        moreover have "a < length h1" "\<forall>x < length h1. rk x \<le> M" "is_inner (h1 ! a) \<longrightarrow> i + 1 \<le> length (sub (h1 ! a))"
          using al inner.prems(4) len R(2) i by simp_all
        ultimately obtain h2 where h2: "evaluate_from ns h1 a (i + 1) = Some h2" "eval_post ns h1 a h2"
          using inner.hyps [OF _ T(1) ranked_same_tree [OF T(2) inner.prems(2)] _ _ R(1) _ T(3)] by blast
        have "below h a ?c" by (rule below_child [OF S(1,2) below_self])
        from eval_post_trans [OF h1(2) this h2(2)] show ?thesis
          using True i h1(1) h2(1) by (subst evaluate_from.simps) simp
      qed
    qed
  qed
qed

section \<open>Formulas\<close>

text \<open>A heap that holds exactly one formula, with root \<open>r\<close>.\<close>

definition formula_heap :: "sp_heap \<Rightarrow> addr \<Rightarrow> bool" where
  "formula_heap h r \<longleftrightarrow> links_ok h \<and> (\<exists>rk. ranked rk h) \<and> r < length h \<and> constants_ok h \<and>
     (\<forall>x < length h. parent (h ! x) = None \<longleftrightarrow> x = r)"

lemma formula_heap_below:
  assumes "formula_heap h r" "x < length h"
  shows "below h r x"
proof -
  obtain rk where rk: "ranked rk h" using assms by (auto simp: formula_heap_def)
  show ?thesis using assms(2)
  proof (induction "rk x" arbitrary: x rule: less_induct)
    case less
    show ?case
    proof (cases "x = r")
      case False
      then obtain p where p: "parent (h ! x) = Some p" using assms(1) less.prems by (auto simp: formula_heap_def)
      have "p < length h" using links_ok_parent(1) assms(1) less.prems p by (auto simp: formula_heap_def)
      then have "below h r p" using less.hyps ranked_neq [OF rk less.prems p] by simp
      then show ?thesis using below_child less.prems p by blast
    qed (simp add: below_self)
  qed
qed

lemma formula_heap_same_tree: "formula_heap h r \<Longrightarrow> same_tree h h' \<Longrightarrow> links_ok h' \<Longrightarrow> constants_ok h' \<Longrightarrow> formula_heap h' r"
  using ranked_same_tree by (auto simp: formula_heap_def same_tree_def)

lemma evaluate_correct:
  assumes "formula_heap h r"
  shows "\<exists>h'. evaluate ns r h = Some h' \<and> heap_ok h' \<and> same_tree h h' \<and>
    (\<forall>x < length h. \<not> is_inner (h ! x) \<longrightarrow> leaf_ok ns h' x)"
proof -
  obtain rk where rk: "ranked rk h" using assms by (auto simp: formula_heap_def)
  define M where "M = Max (rk ` {..< length h})"
  have M: "\<forall>x < length h. rk x \<le> M" by (simp add: M_def)
  have F: "links_ok h" "r < length h" "constants_ok h" using assms by (auto simp: formula_heap_def)
  have "eval_pre ns h r 0" by (simp add: eval_pre_def)
  from evaluate_from_total [OF F(1) rk F(2) M this _ F(3)]
  obtain h' where h': "evaluate ns r h = Some h'" "eval_post ns h r h'" by (auto simp: evaluate_def)
  then have P: "links_ok h'" "same_tree h h'" "\<And>x. x < length h \<Longrightarrow> evaluated ns h' x"
    using formula_heap_below [OF assms] by (auto simp: eval_post_def)
  have "heap_ok h'"
    using P ranked_same_tree [OF P(2) rk] same_treeD(1) [OF P(2)] by (auto simp: heap_ok_def evaluated_def)
  moreover have "leaf_ok ns h' x" if "x < length h" "\<not> is_inner (h ! x)" for x
    using P(3) [OF that(1)] same_tree_inner [OF P(2) that(1)] that(2) by (simp add: evaluated_def)
  ultimately show ?thesis using h'(1) P(2) by blast
qed

end
