(* ===== verification/PredicateProperty.thy ===== *)
theory PredicateProperty
  imports PredicateEval DeadlockSearch
begin

text \<open>
  \<open>src/Exploration/StatePredicateProperty.cc\<close>: the property object of reachability tasks.  Its
  constructor computes, for every transition, the atoms whose formal sum it changes and by how much,
  and the fireability leaves it may influence; the three methods keep the formula tree in step with
  firing and backtracking.
\<close>

section \<open>The constructor\<close>

record sp_property =
  predicate :: addr
  changedPredicate :: "(addr \<times> 32 word) list list"
  changedFireable :: "addr list list"
  changedDeadlock :: "addr list"

text \<open>The factor of place \<open>p\<close>: the loops over \<open>posPlaces\<close> and \<open>negPlaces\<close> stop at the first match.\<close>

definition factor :: "(arrayindex_t \<times> capacity_t) list \<Rightarrow> arrayindex_t \<Rightarrow> 32 word" where
  "factor ps p = (case map_of ps p of None \<Rightarrow> 0 | Some k \<Rightarrow> k)"

definition atomic_delta :: "transition_data \<Rightarrow> arrayindex_t \<Rightarrow> sp_kind \<Rightarrow> 32 word" where
  "atomic_delta T t k =
     (case k of
        Atomic pos neg thr \<Rightarrow>
          fold (\<lambda>(p, w) s. s + ucast w * factor pos p - ucast w * factor neg p) (DeltaT T POST ! t)
            (fold (\<lambda>(p, w) s. s - ucast w * factor pos p + ucast w * factor neg p) (DeltaT T PRE ! t) 0)
      | _ \<Rightarrow> 0)"

definition changed_atoms :: "transition_data \<Rightarrow> sp_heap \<Rightarrow> addr list \<Rightarrow> arrayindex_t \<Rightarrow> (addr \<times> 32 word) list" where
  "changed_atoms T h atoms t =
     filter (\<lambda>(a, s). s \<noteq> 0) (map (\<lambda>a. (a, atomic_delta T t (kind (h ! a)))) atoms)"

text \<open>Equal neighbours at the end of a list are removed.\<close>

function drop_duplicates :: "addr list \<Rightarrow> addr list" where
  "drop_duplicates xs =
     (if 1 < length xs \<and> xs ! (length xs - 1) = xs ! (length xs - 2) then drop_duplicates (butlast xs) else xs)"
  by pat_completeness auto
termination
  by (relation "measure length") auto

declare drop_duplicates.simps [simp del]

definition append_at :: "addr \<Rightarrow> arrayindex_t \<Rightarrow> addr list list \<Rightarrow> addr list list" where
  "append_at a tt cf = cf[tt := cf ! tt @ [a]]"

definition register_fireable ::
  "net \<Rightarrow> transition_data \<Rightarrow> sp_heap \<Rightarrow> addr \<Rightarrow> addr list list \<Rightarrow> addr list list" where
  "register_fireable N T h a cf =
     (case kind (h ! a) of
        Fireable t sign \<Rightarrow>
          map drop_duplicates
            (fold (\<lambda>p. fold (append_at a) (Arc N PL PRE p)) (Arc N TR PRE t) (fold (append_at a) (Conflicting T ! t) cf))
      | _ \<Rightarrow> cf)"

text \<open>\<open>initUpSet\<close> for all atoms, then \<open>addToUpSet\<close> for the transitions that decrease them.\<close>

definition init_up :: "addr \<Rightarrow> sp_heap \<Rightarrow> sp_heap" where
  "init_up a h = h[a := (h ! a)\<lparr>up := []\<rparr>]"

definition addToUpSet :: "arrayindex_t \<Rightarrow> addr \<Rightarrow> sp_heap \<Rightarrow> sp_heap" where
  "addToUpSet t a h = h[a := (h ! a)\<lparr>up := up (h ! a) @ [t]\<rparr>]"

definition init_up_sets :: "addr list \<Rightarrow> (addr \<times> 32 word) list list \<Rightarrow> sp_heap \<Rightarrow> sp_heap" where
  "init_up_sets atoms changed h =
     fold (\<lambda>t. fold (\<lambda>(a, s) h. if s <s 0 then addToUpSet t a h else h) (changed ! t)) [0..<length changed]
       (fold init_up atoms h)"

definition StatePredicateProperty ::
  "net \<Rightarrow> transition_data \<Rightarrow> addr \<Rightarrow> sp_heap \<Rightarrow> (sp_property \<times> sp_heap) option" where
  "StatePredicateProperty N T f h =
     do {
       atomic \<leftarrow> collectAtomic h f;
       deadlock \<leftarrow> collectDeadlock h f;
       fireable \<leftarrow> collectFireable h f;
       let changed = map (changed_atoms T h atomic) [0..<Card N TR];
       let cf = fold (register_fireable N T h) fireable (replicate (Card N TR) []);
       Some (\<lparr>predicate = f, changedPredicate = changed, changedFireable = cf, changedDeadlock = deadlock\<rparr>,
             init_up_sets atomic changed h)
     }"

section \<open>The methods\<close>

definition propagate ::
  "sp_property \<Rightarrow> netstate \<Rightarrow> (addr \<times> 32 word) list \<Rightarrow> arrayindex_t \<Rightarrow> sp_heap \<Rightarrow> sp_heap option" where
  "propagate P ns atoms t h =
     do {
       h1 \<leftarrow> fold_option atomic_update atoms h;
       h2 \<leftarrow> fold_option (fireable_update ns) (changedFireable P ! t) h1;
       fold_option (deadlock_pred_update ns) (changedDeadlock P) h2
     }"

text \<open>As operations of a search: the private data is the heap, \<open>None\<close> once a method did not return.\<close>

definition answer :: "sp_property \<Rightarrow> sp_heap option \<Rightarrow> bool \<times> sp_heap option" where
  "answer P r = (case r of None \<Rightarrow> (False, None) | Some h \<Rightarrow> (sp_value (h ! predicate P), Some h))"

definition sp_initProperty :: "sp_property \<Rightarrow> netstate \<Rightarrow> sp_heap option \<Rightarrow> bool \<times> sp_heap option" where
  "sp_initProperty P ns d = answer P (do { h \<leftarrow> d; evaluate ns (predicate P) h })"

definition sp_checkProperty :: "sp_property \<Rightarrow> netstate \<Rightarrow> arrayindex_t \<Rightarrow> sp_heap option \<Rightarrow> bool \<times> sp_heap option" where
  "sp_checkProperty P ns t d =
     answer P (do { h \<leftarrow> d; propagate P ns (changedPredicate P ! t) t h })"

definition sp_updateProperty :: "sp_property \<Rightarrow> netstate \<Rightarrow> arrayindex_t \<Rightarrow> sp_heap option \<Rightarrow> bool \<times> sp_heap option" where
  "sp_updateProperty P ns t d =
     answer P (do { h \<leftarrow> d; propagate P ns (map (\<lambda>(a, s). (a, - s)) (changedPredicate P ! t)) t h })"

definition predicate_ops ::
  "sp_property \<Rightarrow> (netstate \<Rightarrow> 's \<Rightarrow> bool \<times> 's) \<Rightarrow> net \<Rightarrow> (sp_heap option, 's, unit) search_ops" where
  "predicate_ops P store N =
     \<lparr>initProperty = sp_initProperty P, checkProperty = sp_checkProperty P, updateProperty = sp_updateProperty P,
      searchAndInsert = store, getFirelist = base_get N\<rparr>"

section \<open>Semantics of a formula\<close>

inductive sp_holds :: "net \<Rightarrow> sp_heap \<Rightarrow> capacity_t list \<Rightarrow> addr \<Rightarrow> bool" for N h m where
  holds_atomic: "kind (h ! a) = Atomic pos neg thr \<Longrightarrow> atomic_sum pos neg m <=s thr \<Longrightarrow> sp_holds N h m a"
| holds_deadlock: "kind (h ! a) = Deadlock sign \<Longrightarrow> sign = dead_vec N m \<Longrightarrow> sp_holds N h m a"
| holds_fireable: "kind (h ! a) = Fireable t sign \<Longrightarrow> sign = has_tokens m (Arcs N TR PRE ! t) \<Longrightarrow> sp_holds N h m a"
| holds_true: "kind (h ! a) = TruePredicate \<Longrightarrow> sp_holds N h m a"
| holds_conjunction: "kind (h ! a) = Conjunction \<Longrightarrow> (\<And>c. c \<in> set (sub (h ! a)) \<Longrightarrow> sp_holds N h m c) \<Longrightarrow> sp_holds N h m a"
| holds_disjunction: "kind (h ! a) = Disjunction \<Longrightarrow> c \<in> set (sub (h ! a)) \<Longrightarrow> sp_holds N h m c \<Longrightarrow> sp_holds N h m a"

inductive_simps sp_holds_simps: "sp_holds N h m a"

text \<open>Formulas over the net: places and transitions exist, no place occurs twice in a sum.\<close>

fun kind_ok :: "net \<Rightarrow> sp_kind \<Rightarrow> bool" where
  "kind_ok N (Atomic pos neg thr) \<longleftrightarrow>
     distinct (map fst pos) \<and> distinct (map fst neg) \<and> (\<forall>p \<in> fst ` (set pos \<union> set neg). p < Card N PL)"
| "kind_ok N (Fireable t sign) \<longleftrightarrow> t < Card N TR"
| "kind_ok N _ \<longleftrightarrow> True"

definition formula_ok :: "net \<Rightarrow> sp_heap \<Rightarrow> addr \<Rightarrow> bool" where
  "formula_ok N h r \<longleftrightarrow> formula_heap h r \<and> (\<forall>a < length h. kind_ok N (kind (h ! a)))"

section \<open>The formal sum along a firing\<close>

definition dot :: "(arrayindex_t \<times> capacity_t) list \<Rightarrow> (arrayindex_t \<Rightarrow> 32 word) \<Rightarrow> 32 word" where
  "dot ps f = sum_list (map (\<lambda>(p, k). f p * k) ps)"

lemma dot_simps [simp]: "dot [] f = 0" "dot ((p, k) # ps) f = f p * k + dot ps f"
  by (simp_all add: dot_def)

lemma dot_add: "dot ps (\<lambda>p. f p + g p) = dot ps f + dot ps g"
  by (induction ps) (auto simp: algebra_simps)

lemma dot_diff: "dot ps (\<lambda>p. f p - g p) = dot ps f - dot ps g"
  by (induction ps) (auto simp: algebra_simps)

lemma dot_cong: "(\<And>p. p \<in> fst ` set ps \<Longrightarrow> f p = g p) \<Longrightarrow> dot ps f = dot ps g"
  by (induction ps) auto

lemma dot_point: "distinct (map fst ps) \<Longrightarrow> dot ps (\<lambda>p. if q = p then w else 0) = w * factor ps q"
proof (induction ps)
  case (Cons x ps)
  obtain p k where x: "x = (p, k)" by (cases x)
  have "factor ps p = 0" using Cons.prems x by (simp add: factor_def map_of_eq_None_iff [THEN iffD2])
  then show ?case using Cons x by (auto simp: factor_def)
qed (simp add: factor_def)

lemma dot_toks: "distinct (map fst ps) \<Longrightarrow> dot ps (toks ds) = sum_list (map (\<lambda>(q, w). ucast w * factor ps q) ds)"
proof (induction ds)
  case Nil
  then show ?case by (simp add: toks_def dot_def case_prod_unfold)
next
  case (Cons d ds)
  obtain q w where d: "d = (q, w)" by (cases d)
  have "toks (d # ds) = (\<lambda>p. (if q = p then ucast w else 0) + toks ds p)" by (simp add: toks_def d fun_eq_iff)
  then show ?case using Cons d by (simp only: dot_add dot_point) (simp add: d)
qed

lemma atomic_sum_dot: "atomic_sum pos neg m = dot pos (\<lambda>p. m ! p) - dot neg (\<lambda>p. m ! p)"
proof -
  have "fold (\<lambda>(p, k) s. s + m ! p * k) ps s = s + dot ps (\<lambda>p. m ! p)" for ps s
    by (induction ps arbitrary: s) (auto simp: algebra_simps)
  moreover have "fold (\<lambda>(p, k) s. s - m ! p * k) ps s = s - dot ps (\<lambda>p. m ! p)" for ps s
    by (induction ps arbitrary: s) (auto simp: diff_diff_eq)
  ultimately show ?thesis by (simp add: atomic_sum_def)
qed

lemma atomic_delta_dot:
  assumes "distinct (map fst pos)" "distinct (map fst neg)"
  shows "atomic_delta T t (Atomic pos neg thr) =
    dot pos (toks (DeltaT T POST ! t)) - dot neg (toks (DeltaT T POST ! t)) -
    (dot pos (toks (DeltaT T PRE ! t)) - dot neg (toks (DeltaT T PRE ! t)))"
proof -
  have "fold (\<lambda>(p, w) s. s + ucast w * f p - ucast w * g p) ds s =
      s + sum_list (map (\<lambda>(q, w). ucast w * f q) ds) - sum_list (map (\<lambda>(q, w). ucast w * g q) ds)"
    for ds :: "(arrayindex_t \<times> mult_t) list" and s :: "32 word" and f g
    by (induction ds arbitrary: s) (auto simp: algebra_simps)
  moreover have "fold (\<lambda>(p, w) s. s - ucast w * f p + ucast w * g p) ds s =
      s - sum_list (map (\<lambda>(q, w). ucast w * f q) ds) + sum_list (map (\<lambda>(q, w). ucast w * g q) ds)"
    for ds :: "(arrayindex_t \<times> mult_t) list" and s :: "32 word" and f g
    by (induction ds arbitrary: s) (auto simp: algebra_simps)
  ultimately show ?thesis by (simp add: atomic_delta_def dot_toks [OF assms(1)] dot_toks [OF assms(2)])
qed

text \<open>The precomputed difference is the difference of the sums, in 32 bit arithmetic.\<close>

lemma atomic_sum_fire:
  assumes "kind_ok N (Atomic pos neg thr)" "length m = Card N PL"
  shows "atomic_sum pos neg (fire_vec T t m) = atomic_sum pos neg m + atomic_delta T t (Atomic pos neg thr)"
proof -
  have nth: "fire_vec T t m ! p = m ! p - toks (DeltaT T PRE ! t) p + toks (DeltaT T POST ! t) p" if "p < length m" for p
    using that by (simp add: fire_vec_def take_tokens_nth put_tokens_nth)
  have "dot ps (\<lambda>p. fire_vec T t m ! p) =
      dot ps (\<lambda>p. m ! p) - dot ps (toks (DeltaT T PRE ! t)) + dot ps (toks (DeltaT T POST ! t))"
    if "\<forall>p \<in> fst ` set ps. p < length m" for ps
  proof -
    have "dot ps (\<lambda>p. fire_vec T t m ! p) =
        dot ps (\<lambda>p. m ! p - toks (DeltaT T PRE ! t) p + toks (DeltaT T POST ! t) p)"
      by (rule dot_cong) (use that nth in auto)
    then show ?thesis by (simp only: dot_add dot_diff)
  qed
  then show ?thesis using assms by (simp add: atomic_sum_dot atomic_delta_dot image_Un)
qed

end
