(* ===== verification/PredicateSearch.thy ===== *)
theory PredicateSearch
  imports PredicateProperty
begin

text \<open>
  The state predicate property meets the contract of a search: its methods return, the value they
  return is the truth value of the formula in the current marking, and the formula tree stays in step
  with the net state.  The depth first search over it therefore decides reachability.
\<close>

section \<open>Updating lists of leaves\<close>

lemma leaf_value_kind: "kind n' = kind n \<Longrightarrow> leaf_value ns n' = leaf_value ns n"
  by (simp add: leaf_value_def)

lemma is_inner_kind: "kind n' = kind n \<Longrightarrow> is_inner n' = is_inner n"
  by (simp add: is_inner_def)

lemma leaf_not_inner:
  "is_atomic (kind n) \<or> is_fireable (kind n) \<or> is_deadlock (kind n) \<Longrightarrow> \<not> is_inner n"
  by (auto simp: is_inner_def)

lemma heap_ok_set_sum:
  assumes "heap_ok h" "a < length h"
  shows "heap_ok (h[a := (h ! a)\<lparr>sp_sum := w\<rparr>])" "same_tree h (h[a := (h ! a)\<lparr>sp_sum := w\<rparr>])"
proof -
  let ?h = "h[a := (h ! a)\<lparr>sp_sum := w\<rparr>]"
  have n: "?h ! x = (if x = a then (h ! x)\<lparr>sp_sum := w\<rparr> else h ! x)" for x using assms(2) by simp
  show T: "same_tree h ?h" by (simp add: same_tree_def n)
  have "links_ok ?h" using assms(1) by (intro links_ok_same [of h ?h]) (auto simp: same_links_def n heap_ok_def)
  moreover have "node_ok ?h x" if "x < length h" "is_inner (h ! x)" for x
    using assms(1) that node_ok_cong [of h x ?h] by (simp add: n heap_ok_def)
  moreover have "\<exists>rk. ranked rk ?h" using assms(1) ranked_same_tree [OF T] by (auto simp: heap_ok_def)
  ultimately show "heap_ok ?h" using same_tree_inner [OF T] by (simp add: heap_ok_def)
qed

lemma atomic_update_spec:
  assumes "heap_ok h" "a < length h" "kind (h ! a) = Atomic pos neg thr"
    and "sp_value (h ! a) \<longleftrightarrow> sp_sum (h ! a) <=s thr"
  shows "\<exists>h'. atomic_update (a, d) h = Some h' \<and> heap_ok h' \<and> same_tree h h' \<and>
    (\<forall>x < length h. sp_sum (h' ! x) = (if x = a then sp_sum (h ! a) + d else sp_sum (h ! x))) \<and>
    leaves_but a (sp_sum (h ! a) + d <=s thr) h h'"
proof -
  let ?s = "sp_sum (h ! a) + d"
  let ?h1 = "h[a := (h ! a)\<lparr>sp_sum := ?s\<rparr>]"
  note H = heap_ok_set_sum [OF assms(1,2), of ?s]
  have n: "?h1 ! x = (if x = a then (h ! x)\<lparr>sp_sum := ?s\<rparr> else h ! x)" for x using assms(2) by simp
  have leaf: "\<not> is_inner (h ! a)" using assms(3) by (simp add: is_inner_def)
  show ?thesis
  proof (cases "sp_value (h ! a) \<longleftrightarrow> ?s <=s thr")
    case True
    then have "atomic_update (a, d) h = Some ?h1" using assms(3) by (auto simp: atomic_update_def Let_def)
    moreover have "leaves_but a (?s <=s thr) h ?h1" using True by (auto simp: leaves_but_def n)
    ultimately show ?thesis using H n by auto
  next
    case False
    have "a < length ?h1" "\<not> is_inner (?h1 ! a)" "sp_value (?h1 ! a) = (\<not> (?s <=s thr))"
      using assms(2) leaf False by (auto simp: n)
    from turn_correct [OF H(1) this]
    obtain h' where h': "turn (?s <=s thr) a ?h1 = Some h'" "heap_ok h'" "same_tree ?h1 h'" "same_sums ?h1 h'"
      "leaves_but a (?s <=s thr) ?h1 h'" by blast
    have "atomic_update (a, d) h = Some h'"
      using assms(3) False h'(1) by (cases "?s <=s thr") (auto simp: atomic_update_def Let_def)
    moreover have "same_tree h h'" by (rule same_tree_trans [OF H(2) h'(3)])
    moreover have "\<forall>x < length h. sp_sum (h' ! x) = (if x = a then ?s else sp_sum (h ! x))"
      using h'(4) by (auto simp: same_sums_def n)
    moreover have "leaves_but a (?s <=s thr) h h'" using h'(5) by (auto simp: leaves_but_def n)
    ultimately show ?thesis using h'(2) by blast
  qed
qed

definition change_of :: "(addr \<times> 32 word) list \<Rightarrow> addr \<Rightarrow> 32 word" where
  "change_of l a = (case map_of l a of None \<Rightarrow> 0 | Some d \<Rightarrow> d)"

text \<open>Atoms whose value agrees with their stored sum.\<close>

definition atoms_ok :: "sp_heap \<Rightarrow> bool" where
  "atoms_ok h \<longleftrightarrow> (\<forall>x < length h. \<forall>pos neg thr. kind (h ! x) = Atomic pos neg thr \<longrightarrow>
     (sp_value (h ! x) \<longleftrightarrow> sp_sum (h ! x) <=s thr))"

definition other_leaves_same :: "sp_heap \<Rightarrow> sp_heap \<Rightarrow> bool" where
  "other_leaves_same h h' \<longleftrightarrow>
     (\<forall>x < length h. \<not> is_inner (h ! x) \<and> \<not> is_atomic (kind (h ! x)) \<longrightarrow> sp_value (h' ! x) = sp_value (h ! x))"

lemma fold_atomic_update:
  assumes "heap_ok h" "atoms_ok h" "distinct (map fst l)" "\<forall>(a, d) \<in> set l. a < length h \<and> is_atomic (kind (h ! a))"
  shows "\<exists>h'. fold_option atomic_update l h = Some h' \<and> heap_ok h' \<and> same_tree h h' \<and> atoms_ok h' \<and>
    other_leaves_same h h' \<and> (\<forall>x < length h. sp_sum (h' ! x) = sp_sum (h ! x) + change_of l x)"
  using assms
proof (induction l arbitrary: h)
  case Nil
  then show ?case by (simp add: change_of_def other_leaves_same_def)
next
  case (Cons y l)
  obtain a d where y: "y = (a, d)" by (cases y)
  obtain pos neg thr where k: "kind (h ! a) = Atomic pos neg thr" and al: "a < length h"
    using Cons.prems(4) y by (cases "kind (h ! a)") auto
  have "sp_value (h ! a) \<longleftrightarrow> sp_sum (h ! a) <=s thr" using Cons.prems(2) k al by (auto simp: atoms_ok_def)
  from atomic_update_spec [OF Cons.prems(1) al k this, of d]
  obtain h1 where h1: "atomic_update (a, d) h = Some h1" "heap_ok h1" "same_tree h h1"
    "\<forall>x < length h. sp_sum (h1 ! x) = (if x = a then sp_sum (h ! a) + d else sp_sum (h ! x))"
    "leaves_but a (sp_sum (h ! a) + d <=s thr) h h1" by blast
  note T = same_treeD [OF h1(3)]
  have inner: "\<not> is_inner (h ! x)" if "kind (h ! x) = Atomic p n r" for x p n r using that by (simp add: is_inner_def)
  have "atoms_ok h1"
    using Cons.prems(2) h1(4,5) T(1,2) k inner by (auto simp: atoms_ok_def leaves_but_def)
  moreover have "distinct (map fst l)" "\<forall>(a, d) \<in> set l. a < length h1 \<and> is_atomic (kind (h1 ! a))"
    using Cons.prems(3,4) T(1,2) by auto
  ultimately obtain h' where h': "fold_option atomic_update l h1 = Some h'" "heap_ok h'" "same_tree h1 h'" "atoms_ok h'"
    "other_leaves_same h1 h'" "\<forall>x < length h1. sp_sum (h' ! x) = sp_sum (h1 ! x) + change_of l x"
    using Cons.IH [OF h1(2)] by blast
  have "other_leaves_same h h'"
    using h'(5) h1(5) k T(1,2) by (auto simp: other_leaves_same_def leaves_but_def is_inner_def)
  moreover have "sp_sum (h' ! x) = sp_sum (h ! x) + change_of (y # l) x" if "x < length h" for x
  proof -
    have "change_of l a = 0" using Cons.prems(3) y by (simp add: change_of_def map_of_eq_None_iff [THEN iffD2])
    then show ?thesis using h'(6) h1(4) that T(1) y by (auto simp: change_of_def)
  qed
  ultimately show ?case
    using h1(1) h' y same_tree_trans [OF h1(3) h'(3)] by auto
qed

lemma enabling_update_spec:
  assumes "heap_ok h" "a < length h" "\<not> is_inner (h ! a)"
  shows "\<exists>h'. enabling_update ns a h = Some h' \<and> heap_ok h' \<and> same_tree h h' \<and> same_sums h h' \<and>
    leaves_but a (leaf_value ns (h ! a)) h h'"
proof (cases "sp_value (h ! a) = leaf_value ns (h ! a)")
  case True
  then have "enabling_update ns a h = Some h" by (auto simp: enabling_update_def Let_def)
  then show ?thesis using True assms by (auto simp: same_sums_def leaves_but_def)
next
  case False
  then have "sp_value (h ! a) = (\<not> leaf_value ns (h ! a))" by simp
  moreover from this have "enabling_update ns a h = turn (leaf_value ns (h ! a)) a h"
    by (cases "leaf_value ns (h ! a)") (auto simp: enabling_update_def Let_def)
  ultimately show ?thesis using turn_correct [OF assms] by simp
qed

lemma fold_enabling_update:
  assumes "heap_ok h" "\<forall>a \<in> set l. a < length h \<and> \<not> is_inner (h ! a)"
    and f: "\<And>h' a. heap_ok h' \<Longrightarrow> same_tree h h' \<Longrightarrow> a \<in> set l \<Longrightarrow> f a h' = enabling_update ns a h'"
  shows "\<exists>h'. fold_option f l h = Some h' \<and> heap_ok h' \<and> same_tree h h' \<and> same_sums h h' \<and>
    (\<forall>x < length h. \<not> is_inner (h ! x) \<longrightarrow>
       sp_value (h' ! x) = (if x \<in> set l then leaf_value ns (h ! x) else sp_value (h ! x)))"
  using assms
proof (induction l arbitrary: h)
  case Nil
  then show ?case by (simp add: same_sums_def)
next
  case (Cons a l)
  have al: "a < length h" "\<not> is_inner (h ! a)" using Cons.prems(2) by simp_all
  from enabling_update_spec [OF Cons.prems(1) al, of ns] Cons.prems(3) [OF Cons.prems(1) same_tree_refl, of a]
  obtain h1 where h1: "f a h = Some h1" "heap_ok h1" "same_tree h h1" "same_sums h h1"
    "leaves_but a (leaf_value ns (h ! a)) h h1" by auto
  note T = same_treeD [OF h1(3)] same_tree_inner [OF h1(3)]
  have "\<forall>a \<in> set l. a < length h1 \<and> \<not> is_inner (h1 ! a)" using Cons.prems(2) T by simp
  moreover have "f b h' = enabling_update ns b h'" if "heap_ok h'" "same_tree h1 h'" "b \<in> set l" for h' b
    using Cons.prems(3) [OF that(1) same_tree_trans [OF h1(3) that(2)]] that(3) by simp
  ultimately obtain h' where h': "fold_option f l h1 = Some h'" "heap_ok h'" "same_tree h1 h'" "same_sums h1 h'"
    "\<forall>x < length h1. \<not> is_inner (h1 ! x) \<longrightarrow>
       sp_value (h' ! x) = (if x \<in> set l then leaf_value ns (h1 ! x) else sp_value (h1 ! x))"
    using Cons.IH [OF h1(2)] by blast
  have "sp_value (h' ! x) = (if x \<in> set (a # l) then leaf_value ns (h ! x) else sp_value (h ! x))"
    if x: "x < length h" "\<not> is_inner (h ! x)" for x
    using h'(5) h1(5) x T leaf_value_kind [OF T(2) [OF x(1)], of ns] by (auto simp: leaves_but_def)
  then show ?case
    using h1(1,4) h'(1,2,4) same_tree_trans [OF h1(3) h'(3)] T(1) by (auto simp: same_sums_def)
qed

text \<open>The update methods of the two classes.\<close>

lemma update_methods_eq:
  assumes "heap_ok h" "same_tree h0 h" "a < length h0"
  shows "is_fireable (kind (h0 ! a)) \<Longrightarrow> fireable_update ns a h = enabling_update ns a h"
    "is_deadlock (kind (h0 ! a)) \<Longrightarrow> deadlock_pred_update ns a h = enabling_update ns a h"
proof -
  have k: "kind (h ! a) = kind (h0 ! a)" "a < length h" using same_treeD(1,2) [OF assms(2)] assms(3) by simp_all
  obtain rk where "links_ok h" "ranked rk h" using assms(1) by (auto simp: heap_ok_def)
  then show "is_deadlock (kind (h0 ! a)) \<Longrightarrow> deadlock_pred_update ns a h = enabling_update ns a h"
    using deadlock_update_eq [OF _ _ k(2)] k(1) by (cases "kind (h0 ! a)") auto
  show "is_fireable (kind (h0 ! a)) \<Longrightarrow> fireable_update ns a h = enabling_update ns a h"
    using fireable_update_eq [OF k(2)] k(1) by (cases "kind (h0 ! a)") auto
qed

section \<open>Formula trees in step with a net state\<close>

definition in_step :: "sp_heap \<Rightarrow> netstate \<Rightarrow> sp_heap \<Rightarrow> bool" where
  "in_step h0 ns h \<longleftrightarrow> heap_ok h \<and> same_tree h0 h \<and> (\<forall>x < length h0. \<not> is_inner (h0 ! x) \<longrightarrow> leaf_ok ns h x)"

lemma propagate_correct:
  assumes step: "in_step h0 ns h"
    and l: "distinct (map fst l)" "\<forall>(a, d) \<in> set l. a < length h0 \<and> is_atomic (kind (h0 ! a))"
    and sums: "\<And>a pos neg thr. a < length h0 \<Longrightarrow> kind (h0 ! a) = Atomic pos neg thr \<Longrightarrow>
      atomic_sum pos neg (Current ns') = atomic_sum pos neg (Current ns) + change_of l a"
    and cf: "\<forall>a \<in> set (changedFireable P ! t). a < length h0 \<and> is_fireable (kind (h0 ! a))"
    and dl: "set (changedDeadlock P) = {a. a < length h0 \<and> is_deadlock (kind (h0 ! a))}"
    and en: "\<And>a u sign. a < length h0 \<Longrightarrow> kind (h0 ! a) = Fireable u sign \<Longrightarrow> a \<notin> set (changedFireable P ! t) \<Longrightarrow>
      Enabled ns' ! u = Enabled ns ! u"
  shows "\<exists>h'. propagate P ns' l t h = Some h' \<and> in_step h0 ns' h'"
proof -
  have H: "heap_ok h" and T0: "same_tree h0 h"
    and leaf: "\<And>x. x < length h0 \<Longrightarrow> \<not> is_inner (h0 ! x) \<Longrightarrow> leaf_ok ns h x" using step by (auto simp: in_step_def)
  note K = same_treeD(1,2) [OF T0] same_tree_inner [OF T0]
  have "atoms_ok h"
    unfolding atoms_ok_def
  proof (intro allI impI)
    fix x pos neg thr
    assume x: "x < length h" "kind (h ! x) = Atomic pos neg thr"
    then have "\<not> is_inner (h0 ! x)" using K by (simp add: is_inner_def)
    then have "leaf_ok ns h x" using leaf x(1) K(1) by simp
    then show "sp_value (h ! x) \<longleftrightarrow> sp_sum (h ! x) <=s thr" using x(2) by (simp add: leaf_ok_def leaf_value_def)
  qed
  moreover have "\<forall>(a, d) \<in> set l. a < length h \<and> is_atomic (kind (h ! a))" using l(2) K by auto
  ultimately obtain h1 where h1: "fold_option atomic_update l h = Some h1" "heap_ok h1" "same_tree h h1" "atoms_ok h1"
    "other_leaves_same h h1" "\<forall>x < length h. sp_sum (h1 ! x) = sp_sum (h ! x) + change_of l x"
    using fold_atomic_update [OF H _ l(1)] by blast
  have T1: "same_tree h0 h1" by (rule same_tree_trans [OF T0 h1(3)])
  note K1 = same_treeD(1,2) [OF T1] same_tree_inner [OF T1]
  have "\<forall>a \<in> set (changedFireable P ! t). a < length h1 \<and> \<not> is_inner (h1 ! a)"
    using cf K1 leaf_not_inner by fastforce
  from fold_enabling_update [OF h1(2) this, of "fireable_update ns'" ns']
    update_methods_eq(1) [OF _ same_tree_trans [OF T1]] cf
  obtain h2 where h2: "fold_option (fireable_update ns') (changedFireable P ! t) h1 = Some h2" "heap_ok h2"
    "same_tree h1 h2" "same_sums h1 h2"
    "\<forall>x < length h1. \<not> is_inner (h1 ! x) \<longrightarrow>
      sp_value (h2 ! x) = (if x \<in> set (changedFireable P ! t) then leaf_value ns' (h1 ! x) else sp_value (h1 ! x))"
    by blast
  have T2: "same_tree h0 h2" by (rule same_tree_trans [OF T1 h2(3)])
  note K2 = same_treeD(1,2) [OF T2] same_tree_inner [OF T2]
  have "\<forall>a \<in> set (changedDeadlock P). a < length h2 \<and> \<not> is_inner (h2 ! a)"
    using dl K2 leaf_not_inner by fastforce
  from fold_enabling_update [OF h2(2) this, of "deadlock_pred_update ns'" ns']
    update_methods_eq(2) [OF _ same_tree_trans [OF T2]] dl
  obtain h3 where h3: "fold_option (deadlock_pred_update ns') (changedDeadlock P) h2 = Some h3" "heap_ok h3"
    "same_tree h2 h3" "same_sums h2 h3"
    "\<forall>x < length h2. \<not> is_inner (h2 ! x) \<longrightarrow>
      sp_value (h3 ! x) = (if x \<in> set (changedDeadlock P) then leaf_value ns' (h2 ! x) else sp_value (h2 ! x))"
    by blast
  have T3: "same_tree h0 h3" by (rule same_tree_trans [OF T2 h3(3)])
  note K3 = same_treeD(1,2) [OF T3] same_tree_inner [OF T3]
  have "leaf_ok ns' h3 x" if x: "x < length h0" "\<not> is_inner (h0 ! x)" for x
  proof -
    have lv: "leaf_value ns' (h' ! x) = leaf_value ns' (h0 ! x)" if "same_tree h0 h'" for h'
      using same_treeD(2) [OF that x(1)] by (rule leaf_value_kind)
    have v3: "sp_value (h3 ! x) = (if x \<in> set (changedDeadlock P) \<or> x \<in> set (changedFireable P ! t)
        then leaf_value ns' (h0 ! x) else sp_value (h1 ! x))"
      using h3(5) h2(5) x K1 K2 lv [OF T1] lv [OF T2] by auto
    have s3: "sp_sum (h3 ! x) = sp_sum (h ! x) + change_of l x"
      using h3(4) h2(4) h1(6) x K K1 K2 by (simp add: same_sums_def)
    have l0: "sp_value (h ! x) = leaf_value ns (h ! x)"
      "kind (h ! x) = Atomic pos neg thr \<Longrightarrow> sp_sum (h ! x) = atomic_sum pos neg (Current ns)" for pos neg thr
      using leaf [OF x] by (auto simp: leaf_ok_def)
    show ?thesis
    proof (cases "is_atomic (kind (h0 ! x))")
      case True
      then obtain pos neg thr where k: "kind (h0 ! x) = Atomic pos neg thr" by (cases "kind (h0 ! x)") auto
      have "x \<notin> set (changedDeadlock P)" "x \<notin> set (changedFireable P ! t)" using dl cf k by auto
      then have "sp_value (h3 ! x) = sp_value (h1 ! x)" using v3 by simp
      moreover have "sp_value (h1 ! x) \<longleftrightarrow> sp_sum (h1 ! x) <=s thr"
        using h1(4) k x(1) K1 by (auto simp: atoms_ok_def)
      moreover have "sp_sum (h1 ! x) = sp_sum (h3 ! x)" using h3(4) h2(4) x K1 K2 by (simp add: same_sums_def)
      moreover have "sp_sum (h3 ! x) = atomic_sum pos neg (Current ns')"
        using s3 l0(2) sums [OF x(1) k] k K x(1) by simp
      ultimately show ?thesis using k K3 x(1) by (auto simp: leaf_ok_def leaf_value_def)
    next
      case False
      then have s1: "sp_value (h1 ! x) = leaf_value ns (h0 ! x)"
        using h1(5) l0(1) x K leaf_value_kind [of "h ! x" "h0 ! x" ns] by (simp add: other_leaves_same_def)
      have "sp_value (h3 ! x) = leaf_value ns' (h0 ! x)"
      proof (cases "x \<in> set (changedDeadlock P) \<or> x \<in> set (changedFireable P ! t)")
        case True
        then show ?thesis using v3 by simp
      next
        case no: False
        then have "\<not> is_deadlock (kind (h0 ! x))" using dl x(1) by blast
        moreover have "Enabled ns' ! u = Enabled ns ! u" if "kind (h0 ! x) = Fireable u sign" for u sign
          using en [OF x(1) that] no by blast
        ultimately have "leaf_value ns' (h0 ! x) = leaf_value ns (h0 ! x)"
          using False x(2) by (cases "kind (h0 ! x)") (auto simp: leaf_value_def is_inner_def)
        then show ?thesis using v3 no s1 by simp
      qed
      then show ?thesis using lv [OF T3] False K3(2) [OF x(1)] by (auto simp: leaf_ok_def)
    qed
  qed
  then have "in_step h0 ns' h3" using h3(2) T3 by (simp add: in_step_def)
  moreover have "propagate P ns' l t h = Some h3" using h1(1) h2(1) h3(1) by (simp add: propagate_def)
  ultimately show ?thesis by blast
qed

section \<open>Values are truth values\<close>

lemma sp_holds_same_tree_aux:
  assumes "sp_holds N h m a" "same_tree h h'" "links_ok h" "a < length h"
  shows "sp_holds N h' m a"
  using assms
proof (induction rule: sp_holds.induct)
  case (holds_conjunction a)
  have "c < length h" if "c \<in> set (sub (h ! a))" for c
    using that links_ok_sub(1) [OF holds_conjunction.prems(2,3)] holds_conjunction.hyps(1)
    by (auto simp: is_inner_def in_set_conv_nth)
  then have "sp_holds N h' m c" if "c \<in> set (sub (h' ! a))" for c
    using that holds_conjunction same_tree_sub(2) [OF holds_conjunction.prems(1,3)] by simp
  moreover have "kind (h' ! a) = Conjunction"
    using holds_conjunction.hyps(1) same_treeD(2) [OF holds_conjunction.prems(1,3)] by simp
  ultimately show ?case by (rule sp_holds.holds_conjunction [rotated])
next
  case (holds_disjunction a c)
  have "c < length h"
    using holds_disjunction.hyps links_ok_sub(1) [OF holds_disjunction.prems(2,3)]
    by (auto simp: is_inner_def in_set_conv_nth)
  then have "sp_holds N h' m c" using holds_disjunction.IH holds_disjunction.prems(1,2) by simp
  moreover have "c \<in> set (sub (h' ! a))" "kind (h' ! a) = Disjunction"
    using holds_disjunction.hyps same_tree_sub(2) [OF holds_disjunction.prems(1,3)]
      same_treeD(2) [OF holds_disjunction.prems(1,3)] by simp_all
  ultimately show ?case by (intro sp_holds.holds_disjunction [of h' a c])
qed (auto intro: sp_holds.intros simp: same_treeD(2))

lemma sp_holds_same_tree:
  assumes "same_tree h h'" "links_ok h" "links_ok h'" "a < length h"
  shows "sp_holds N h m a \<longleftrightarrow> sp_holds N h' m a"
  using sp_holds_same_tree_aux [OF _ assms(1,2,4)] sp_holds_same_tree_aux [OF _ same_tree_sym [OF assms(1)] assms(3)]
    assms(4) same_treeD(1) [OF assms(1)] by auto

lemma value_holds:
  assumes "heap_ok h" "a < length h" "\<And>x. x < length h \<Longrightarrow> \<not> is_inner (h ! x) \<Longrightarrow> leaf_ok ns h x"
    and "enabled_ok N ns" "\<And>x. x < length h \<Longrightarrow> kind_ok N (kind (h ! x))"
  shows "sp_value (h ! a) \<longleftrightarrow> sp_holds N h (Current ns) a"
proof -
  obtain rk where rk: "ranked rk h" using assms(1) by (auto simp: heap_ok_def)
  define M where "M = Max (rk ` {..< length h})"
  have M: "rk x \<le> M" if "x < length h" for x using that by (simp add: M_def)
  have L: "links_ok h" using assms(1) by (simp add: heap_ok_def)
  show ?thesis using assms(2)
  proof (induction "M - rk a" arbitrary: a rule: less_induct)
    case less
    show ?case
    proof (cases "is_inner (h ! a)")
      case False
      have "sp_value (h ! a) = leaf_value ns (h ! a)" using assms(3) [OF less.prems False] by (simp add: leaf_ok_def)
      then show ?thesis
        using False assms(5) [OF less.prems] enabled_ok_flag [OF assms(4)] enabled_ok_count [OF assms(4)]
        by (cases "kind (h ! a)") (auto simp: leaf_value_def is_inner_def sp_holds_simps [of N h _ a])
    next
      case True
      have ok: "node_ok h a" using assms(1) less.prems True by (simp add: heap_ok_def)
      have IH: "sp_value (h ! c) \<longleftrightarrow> sp_holds N h (Current ns) c" if mem: "c \<in> set (sub (h ! a))" for c
      proof -
        obtain i where i: "i < length (sub (h ! a))" "c = sub (h ! a) ! i" using mem by (auto simp: in_set_conv_nth)
        note S = links_ok_sub [OF L less.prems True i(1)]
        have "rk a < rk c" using ranked_neq [OF rk S(1,2)] i(2) by simp
        then have "M - rk c < M - rk a" using M [OF S(1)] i(2) by (metis diff_less_mono2 order_less_le_trans)
        then show ?thesis using less.hyps S(1) i(2) by blast
      qed
      have all: "cardSat (h ! a) = length (sub (h ! a)) \<longleftrightarrow> (\<forall>c \<in> set (sub (h ! a)). sp_value (h ! c))"
        and ex: "0 < cardSat (h ! a) \<longleftrightarrow> (\<exists>c \<in> set (sub (h ! a)). sp_value (h ! c))"
      proof -
        have nd: "cardSat (h ! a) \<le> length (sub (h ! a))"
          "\<And>i. i < length (sub (h ! a)) \<Longrightarrow> sp_value (h ! (sub (h ! a) ! i)) \<longleftrightarrow> i < cardSat (h ! a)"
          using ok by (auto simp: node_ok_def)
        have "cardSat (h ! a) = length (sub (h ! a)) \<longleftrightarrow> (\<forall>i < length (sub (h ! a)). i < cardSat (h ! a))"
          using nd(1) by (metis le_neq_implies_less less_irrefl)
        then show "cardSat (h ! a) = length (sub (h ! a)) \<longleftrightarrow> (\<forall>c \<in> set (sub (h ! a)). sp_value (h ! c))"
          using nd(2) by (simp add: all_set_conv_all_nth)
        have "0 < cardSat (h ! a) \<longleftrightarrow> (\<exists>i < length (sub (h ! a)). i < cardSat (h ! a))"
          using nd(1) by (metis gr_zeroI less_le_trans less_nat_zero_code)
        then show "0 < cardSat (h ! a) \<longleftrightarrow> (\<exists>c \<in> set (sub (h ! a)). sp_value (h ! c))"
          using nd(2) by (metis in_set_conv_nth)
      qed
      show ?thesis
        using True ok all ex IH by (auto simp: is_inner_def node_ok_def truth_of_def sp_holds_simps [of N h _ a])
    qed
  qed
qed

section \<open>The constructor's tables\<close>

lemma collect_from_total:
  assumes "links_ok h" "ranked rk h" "a < length h" "\<forall>x < length h. rk x \<le> M"
    and "is_inner (h ! a) \<longrightarrow> i \<le> length (sub (h ! a))"
  shows "\<exists>xs. collect_from sel h a i = Some xs \<and> count_from sel h a i = Some (length xs) \<and> distinct xs \<and>
    set xs = {x. x < length h \<and> \<not> is_inner (h ! x) \<and> sel (kind (h ! x)) \<and>
      (if is_inner (h ! a) then \<exists>j. i \<le> j \<and> j < length (sub (h ! a)) \<and> below h (sub (h ! a) ! j) x else x = a)}"
  using assms
proof (induction "M - rk a" arbitrary: a i rule: less_induct)
  case outer: less
  show ?case using outer.prems
  proof (induction "length (sub (h ! a)) - i" arbitrary: i rule: less_induct)
    case inner: less
    note al = inner.prems(3) and L = inner.prems(1) and R = inner.prems(2)
    show ?case
    proof (cases "is_inner (h ! a)")
      case False
      then show ?thesis using al by (subst collect_from.simps, subst count_from.simps) auto
    next
      case inn: True
      show ?thesis
      proof (cases "i < length (sub (h ! a))")
        case False
        then show ?thesis using inn by (subst collect_from.simps, subst count_from.simps) auto
      next
        case True
        let ?c = "sub (h ! a) ! i"
        note S = links_ok_sub [OF L al inn True]
        have rk: "rk a < rk ?c" using ranked_neq [OF R S(1,2)] by simp
        then have lt: "M - rk ?c < M - rk a" using inner.prems(4) S(1) by (meson diff_less_mono2 le_trans less_le_trans)
        from outer.hyps [OF lt L R S(1) inner.prems(4), of 0]
        obtain xs where xs: "collect_from sel h ?c 0 = Some xs" "count_from sel h ?c 0 = Some (length xs)" "distinct xs"
          "set xs = {x. x < length h \<and> \<not> is_inner (h ! x) \<and> sel (kind (h ! x)) \<and>
            (if is_inner (h ! ?c) then \<exists>j. 0 \<le> j \<and> j < length (sub (h ! ?c)) \<and> below h (sub (h ! ?c) ! j) x else x = ?c)}"
          by blast
        have sx: "set xs = {x. x < length h \<and> \<not> is_inner (h ! x) \<and> sel (kind (h ! x)) \<and> below h ?c x}"
        proof (cases "is_inner (h ! ?c)")
          case True
          have "(\<exists>j < length (sub (h ! ?c)). below h (sub (h ! ?c) ! j) x) \<longleftrightarrow> below h ?c x" if "\<not> is_inner (h ! x)" for x
          proof
            assume "\<exists>j < length (sub (h ! ?c)). below h (sub (h ! ?c) ! j) x"
            then obtain j where j: "j < length (sub (h ! ?c))" "below h (sub (h ! ?c) ! j) x" by blast
            note S' = links_ok_sub [OF L S(1) True j(1)]
            show "below h ?c x" using below_trans [OF j(2)] below_child [OF S'(1,2) below_self] by blast
          next
            assume "below h ?c x"
            then show "\<exists>j < length (sub (h ! ?c)). below h (sub (h ! ?c) ! j) x"
              using below_split [OF L S(1) True] that True by blast
          qed
          then show ?thesis using xs(4) True by auto
        next
          case False
          have "x = ?c" if "below h ?c x" "x < length h" for x
            using that
          proof (induction rule: below.induct)
            case (below_child y p)
            then show ?case using links_ok_parent [OF L] False by metis
          qed simp
          then show ?thesis using xs(4) False by (auto intro: below_self)
        qed
        have lt2: "length (sub (h ! a)) - (i + 1) < length (sub (h ! a)) - i" using True by simp
        have "is_inner (h ! a) \<longrightarrow> i + 1 \<le> length (sub (h ! a))" using True by simp
        from inner.hyps [OF lt2 L R al inner.prems(4) this]
        obtain ys where ys: "collect_from sel h a (i + 1) = Some ys" "count_from sel h a (i + 1) = Some (length ys)"
          "distinct ys" "set ys = {x. x < length h \<and> \<not> is_inner (h ! x) \<and> sel (kind (h ! x)) \<and>
            (if is_inner (h ! a) then \<exists>j. i + 1 \<le> j \<and> j < length (sub (h ! a)) \<and> below h (sub (h ! a) ! j) x else x = a)}"
          by blast
        have disj: "\<not> below h ?c x" if "i + 1 \<le> j" "j < length (sub (h ! a))" "below h (sub (h ! a) ! j) x" for j x
        proof
          assume b: "below h ?c x"
          note D = links_ok_sub [OF L al inn that(2)]
          have "?c \<noteq> sub (h ! a) ! j" using D(3) S(3) that(1) by force
          from siblings_disjoint [OF R S(2) D(2) S(1) D(1) this b that(3)] show False .
        qed
        have "distinct (xs @ ys)" using xs(3) ys(3) sx ys(4) disj inn by auto
        moreover have "set (xs @ ys) = {x. x < length h \<and> \<not> is_inner (h ! x) \<and> sel (kind (h ! x)) \<and>
            (\<exists>j. i \<le> j \<and> j < length (sub (h ! a)) \<and> below h (sub (h ! a) ! j) x)}"
          using sx ys(4) inn True by (auto simp: Suc_le_eq) (metis le_neq_implies_less)+
        ultimately show ?thesis
          using xs(1,2) ys(1,2) inn True by (subst collect_from.simps, subst count_from.simps) simp
      qed
    qed
  qed
qed

text \<open>Counters and collectors of a whole formula.\<close>

lemma collect_formula:
  assumes "formula_heap h r"
  shows "\<exists>xs. collect_from sel h r 0 = Some xs \<and> count_from sel h r 0 = Some (length xs) \<and> distinct xs \<and>
    set xs = {x. x < length h \<and> \<not> is_inner (h ! x) \<and> sel (kind (h ! x))}"
proof -
  obtain rk where rk: "ranked rk h" using assms by (auto simp: formula_heap_def)
  have F: "links_ok h" "r < length h" using assms by (auto simp: formula_heap_def)
  have M: "\<forall>x < length h. rk x \<le> Max (rk ` {..< length h})" by simp
  have B: "below h r x" if "x < length h" for x using formula_heap_below [OF assms that] .
  have "(if is_inner (h ! r) then \<exists>j. 0 \<le> j \<and> j < length (sub (h ! r)) \<and> below h (sub (h ! r) ! j) x else x = r)"
    if x: "x < length h" "\<not> is_inner (h ! x)" for x
  proof (cases "is_inner (h ! r)")
    case True
    then show ?thesis using below_split [OF F True B [OF x(1)]] x(2) by auto
  next
    case False
    have "x = r" using B [OF x(1)] x(1)
    proof (induction rule: below.induct)
      case (below_child y p)
      then show ?case using links_ok_parent [OF F(1)] False by metis
    qed simp
    then show ?thesis using False by simp
  qed
  then have eq: "{x. x < length h \<and> \<not> is_inner (h ! x) \<and> sel (kind (h ! x)) \<and>
      (if is_inner (h ! r) then \<exists>j. 0 \<le> j \<and> j < length (sub (h ! r)) \<and> below h (sub (h ! r) ! j) x else x = r)} =
      {x. x < length h \<and> \<not> is_inner (h ! x) \<and> sel (kind (h ! x))}" by blast
  from collect_from_total [OF F(1) rk F(2) M, of 0 sel] show ?thesis unfolding eq by auto
qed

end
