(* ===== verification/PredicateTables.thy ===== *)
theory PredicateTables
  imports PredicateSearch
begin

text \<open>
  Correctness of the tables that the constructor of \<open>StatePredicateProperty\<close> builds, and the property
  contract of theory \<open>Search_Contracts\<close> for its methods.
\<close>

section \<open>Changed atoms\<close>

lemma changed_atoms_fst:
  "distinct atoms \<Longrightarrow> distinct (map fst (changed_atoms T h atoms t))"
  "(a, s) \<in> set (changed_atoms T h atoms t) \<longleftrightarrow> a \<in> set atoms \<and> s = atomic_delta T t (kind (h ! a)) \<and> s \<noteq> 0"
proof -
  show "(a, s) \<in> set (changed_atoms T h atoms t) \<longleftrightarrow> a \<in> set atoms \<and> s = atomic_delta T t (kind (h ! a)) \<and> s \<noteq> 0"
    by (auto simp: changed_atoms_def)
  have "set (map fst (changed_atoms T h atoms t)) \<subseteq> set atoms" for atoms by (auto simp: changed_atoms_def)
  then show "distinct atoms \<Longrightarrow> distinct (map fst (changed_atoms T h atoms t))"
    by (induction atoms) (auto simp: changed_atoms_def)
qed

lemma change_of_mem: "distinct (map fst l) \<Longrightarrow> (a, d) \<in> set l \<Longrightarrow> change_of l a = d"
  by (simp add: change_of_def)

lemma change_of_notin: "a \<notin> fst ` set l \<Longrightarrow> change_of l a = 0"
  by (simp add: change_of_def map_of_eq_None_iff [THEN iffD2])

lemma change_of_changed:
  assumes "distinct atoms" "a \<in> set atoms"
  shows "change_of (changed_atoms T h atoms t) a = atomic_delta T t (kind (h ! a))"
proof (cases "atomic_delta T t (kind (h ! a)) = 0")
  case True
  have "a \<notin> fst ` set (changed_atoms T h atoms t)"
    using True changed_atoms_fst(2) [of _ _ T h atoms t] by auto
  then show ?thesis using True change_of_notin by simp
next
  case False
  then show ?thesis
    using assms change_of_mem [OF changed_atoms_fst(1) [OF assms(1)]] changed_atoms_fst(2) by blast
qed

lemma change_of_uminus: "change_of (map (\<lambda>(a, s). (a, - s)) l) a = - change_of l a"
  by (induction l) (auto simp: change_of_def split: if_splits)

section \<open>Fireability tables\<close>

lemma set_drop_duplicates [simp]: "set (drop_duplicates xs) = set xs"
proof (induction xs rule: drop_duplicates.induct)
  case (1 xs)
  show ?case
  proof (cases "1 < length xs \<and> xs ! (length xs - 1) = xs ! (length xs - 2)")
    case True
    then have ne: "xs \<noteq> []" by auto
    have "last xs = xs ! (length xs - 2)" using True ne by (simp add: last_conv_nth)
    moreover have "xs ! (length xs - 2) = butlast xs ! (length xs - 2)" using True nth_butlast [of "length xs - 2" xs] by auto
    moreover have "butlast xs ! (length xs - 2) \<in> set (butlast xs)" using True by (intro nth_mem) auto
    ultimately have "set xs = set (butlast xs)"
      using arg_cong [OF append_butlast_last_id [OF ne], of set] by (simp add: insert_absorb)
    then show ?thesis using 1 True by (subst drop_duplicates.simps) simp
  next
    case False
    then show ?thesis by (subst drop_duplicates.simps) auto
  qed
qed

lemma length_append_at [simp]: "length (append_at a tt cf) = length cf"
  by (simp add: append_at_def)

lemma set_append_at: "x < length cf \<Longrightarrow> set (append_at a tt cf ! x) = set (cf ! x) \<union> (if x = tt then {a} else {})"
  by (cases "x = tt") (auto simp: append_at_def)

lemma fold_append_at:
  "length (fold (append_at a) tts cf) = length cf"
  "x < length cf \<Longrightarrow> set (fold (append_at a) tts cf ! x) = set (cf ! x) \<union> (if x \<in> set tts then {a} else {})"
  by (induction tts arbitrary: cf) (auto simp: set_append_at split: if_splits)

lemma fold_fold_append_at:
  "length (fold (\<lambda>p. fold (append_at a) (f p)) ps cf) = length cf"
  "x < length cf \<Longrightarrow>
   set (fold (\<lambda>p. fold (append_at a) (f p)) ps cf ! x) = set (cf ! x) \<union> (if \<exists>p \<in> set ps. x \<in> set (f p) then {a} else {})"
  by (induction ps arbitrary: cf) (auto simp: fold_append_at)

text \<open>The transitions after which a fireability leaf for \<open>u\<close> is checked again.\<close>

definition influences :: "net \<Rightarrow> transition_data \<Rightarrow> arrayindex_t \<Rightarrow> arrayindex_t \<Rightarrow> bool" where
  "influences N T t u \<longleftrightarrow> t \<in> set (Conflicting T ! u) \<or> (\<exists>p \<in> set (Arc N TR PRE u). t \<in> set (Arc N PL PRE p))"

lemma register_fireable_spec:
  assumes "kind (h ! a) = Fireable u sign"
  shows "length (register_fireable N T h a cf) = length cf"
    "t < length cf \<Longrightarrow> set (register_fireable N T h a cf ! t) = set (cf ! t) \<union> (if influences N T t u then {a} else {})"
  by (auto simp: register_fireable_def assms fold_append_at fold_fold_append_at influences_def)

lemma fold_register_fireable:
  assumes "\<forall>a \<in> set fs. is_fireable (kind (h ! a))"
  shows "length (fold (register_fireable N T h) fs cf) = length cf \<and>
    (\<forall>t < length cf. set (fold (register_fireable N T h) fs cf ! t) =
       set (cf ! t) \<union> {a. a \<in> set fs \<and> (\<exists>u sign. kind (h ! a) = Fireable u sign \<and> influences N T t u)})"
  using assms
proof (induction fs arbitrary: cf)
  case (Cons a fs)
  then obtain u sign where k: "kind (h ! a) = Fireable u sign" by (cases "kind (h ! a)") auto
  then show ?case using Cons by (auto simp: register_fireable_spec)
qed simp

section \<open>Up sets\<close>

definition up_only :: "sp_heap \<Rightarrow> sp_heap \<Rightarrow> bool" where
  "up_only h h' \<longleftrightarrow> length h' = length h \<and> (\<forall>x. h' ! x = (h ! x)\<lparr>up := up (h' ! x)\<rparr>)"

lemma up_only_trans: "up_only h1 h2 \<Longrightarrow> up_only h2 h3 \<Longrightarrow> up_only h1 h3"
  unfolding up_only_def by (metis sp_node.surjective sp_node.update_convs(6))

lemma up_only_step [simp]: "up_only h (addToUpSet t a h)" "up_only h (init_up a h)" "up_only h h"
  by (simp_all add: up_only_def addToUpSet_def init_up_def nth_update_if)

lemma up_only_fold: "(\<And>x h. up_only h (f x h)) \<Longrightarrow> up_only h (fold f xs h)"
proof (induction xs arbitrary: h)
  case (Cons x xs)
  then show ?case using up_only_trans [of h "f x h"] by simp
qed simp

lemma up_only_init_up_sets: "up_only h (init_up_sets atoms changed h)"
  unfolding init_up_sets_def
  by (rule up_only_trans [of _ "fold init_up atoms h"]; intro up_only_fold) (auto split: prod.splits)

lemma up_only_fields:
  assumes "up_only h h'"
  shows "length h' = length h" "kind (h' ! x) = kind (h ! x)" "parent (h' ! x) = parent (h ! x)"
    "position (h' ! x) = position (h ! x)" "sub (h' ! x) = sub (h ! x)"
    "sp_value (h' ! x) = sp_value (h ! x)"
  using assms unfolding up_only_def by (metis sp_node.surjective sp_node.update_convs(6) sp_node.select_convs)+

lemma sp_holds_cong:
  assumes "sp_holds N h m a" "\<And>x. kind (h' ! x) = kind (h ! x)" "\<And>x. sub (h' ! x) = sub (h ! x)"
  shows "sp_holds N h' m a"
  using assms(1)
proof (induction rule: sp_holds.induct)
  case (holds_disjunction a c)
  then show ?case using assms(2,3) by (intro sp_holds.holds_disjunction [of h' a c]) simp_all
qed (auto intro: sp_holds.intros simp: assms(2,3))

lemma up_only_formula:
  assumes "up_only h h'"
  shows "formula_ok N h r \<Longrightarrow> formula_ok N h' r" "sp_holds N h' m a \<longleftrightarrow> sp_holds N h m a"
proof -
  note U = up_only_fields [OF assms]
  show "sp_holds N h' m a \<longleftrightarrow> sp_holds N h m a" using sp_holds_cong [of N _ m a] U by metis
  have "links_ok h \<Longrightarrow> links_ok h'" by (rule links_ok_same) (simp_all add: same_links_def U)
  then show "formula_ok N h r \<Longrightarrow> formula_ok N h' r"
    by (auto simp: formula_ok_def formula_heap_def ranked_def constants_ok_def U)
qed

text \<open>The up set of an atom: the transitions with a negative change, in increasing order.\<close>

lemma up_init_fold: "a < length h \<Longrightarrow> a \<in> set atoms \<Longrightarrow> up (fold init_up atoms h ! a) = []"
proof (induction atoms arbitrary: h)
  case (Cons b atoms)
  have len: "length (init_up b h) = length h" by (simp add: init_up_def)
  have keep: "up (h ! a) = [] \<Longrightarrow> a < length h \<Longrightarrow> up (fold init_up bs h ! a) = []" for bs h
    by (induction bs arbitrary: h) (auto simp: init_up_def nth_update_if)
  show ?case
  proof (cases "a \<in> set atoms")
    case True
    then show ?thesis using Cons len by simp
  next
    case False
    then have "a = b" using Cons.prems by simp
    then have "up (init_up b h ! a) = []" using Cons.prems by (simp add: init_up_def)
    then show ?thesis using keep len Cons.prems by simp
  qed
qed simp

lemma up_add_fold:
  assumes "distinct (map fst l)" "a < length h"
  shows "length (fold (\<lambda>(a, s) h. if s <s 0 then addToUpSet t a h else h) l h) = length h \<and>
    up (fold (\<lambda>(a, s) h. if s <s 0 then addToUpSet t a h else h) l h ! a) =
      up (h ! a) @ (if change_of l a <s 0 then [t] else [])"
  using assms
proof (induction l arbitrary: h)
  case Nil
  then show ?case by (simp add: change_of_def)
next
  case (Cons y l)
  obtain b s where y: "y = (b, s)" by (cases y)
  have "change_of l b = 0" using Cons.prems(1) y by (intro change_of_notin) simp
  then show ?case using Cons y by (auto simp: addToUpSet_def change_of_def nth_list_update split: if_splits)
qed

lemma up_init_up_sets:
  assumes "a < length h" "a \<in> set atoms" "\<And>t. t < length changed \<Longrightarrow> distinct (map fst (changed ! t))"
  shows "up (init_up_sets atoms changed h ! a) = filter (\<lambda>t. change_of (changed ! t) a <s 0) [0..<length changed]"
proof -
  let ?add = "\<lambda>t. fold (\<lambda>(a, s) h. if s <s 0 then addToUpSet t a h else h) (changed ! t)"
  let ?h0 = "fold init_up atoms h"
  have len: "length ?h0 = length h" by (rule up_only_fields(1)) (intro up_only_fold up_only_step)
  have "length (fold ?add [0..<n] ?h0) = length h \<and>
      up (fold ?add [0..<n] ?h0 ! a) = filter (\<lambda>t. change_of (changed ! t) a <s 0) [0..<n]"
    if "n \<le> length changed" for n
    using that
  proof (induction n)
    case 0
    then show ?case using up_init_fold [OF assms(1,2)] len by simp
  next
    case (Suc n)
    then show ?case using up_add_fold [OF assms(3), of n a "fold ?add [0..<n] ?h0"] assms(1) by simp
  qed
  then show ?thesis by (simp add: init_up_sets_def)
qed

section \<open>The contract\<close>

definition tables_ok :: "net \<Rightarrow> transition_data \<Rightarrow> sp_property \<Rightarrow> sp_heap \<Rightarrow> bool" where
  "tables_ok N T P h \<longleftrightarrow>
     (\<forall>t < Card N TR.
        distinct (map fst (changedPredicate P ! t)) \<and>
        (\<forall>(a, d) \<in> set (changedPredicate P ! t). a < length h \<and> is_atomic (kind (h ! a))) \<and>
        (\<forall>a < length h. is_atomic (kind (h ! a)) \<longrightarrow>
           change_of (changedPredicate P ! t) a = atomic_delta T t (kind (h ! a))) \<and>
        (\<forall>a \<in> set (changedFireable P ! t). a < length h \<and> is_fireable (kind (h ! a))) \<and>
        (\<forall>a < length h. \<forall>u sign. kind (h ! a) = Fireable u sign \<and> influences N T t u \<longrightarrow>
           a \<in> set (changedFireable P ! t))) \<and>
     set (changedDeadlock P) = {a. a < length h \<and> is_deadlock (kind (h ! a))}"

lemma constructor_correct:
  assumes "formula_ok N h r"
  shows "\<exists>P h0. StatePredicateProperty N T r h = Some (P, h0) \<and> predicate P = r \<and> tables_ok N T P h0 \<and> up_only h h0 \<and>
    (\<forall>a < length h. is_atomic (kind (h ! a)) \<longrightarrow>
       up (h0 ! a) = filter (\<lambda>t. atomic_delta T t (kind (h ! a)) <s 0) [0..<Card N TR])"
proof -
  have F: "formula_heap h r" using assms by (simp add: formula_ok_def)
  note C = collect_formula [OF F]
  obtain at where at: "collect_from is_atomic h r 0 = Some at" "distinct at"
    "set at = {x. x < length h \<and> \<not> is_inner (h ! x) \<and> is_atomic (kind (h ! x))}" using C [of is_atomic] by blast
  obtain dl where dl: "collect_from is_deadlock h r 0 = Some dl"
    "set dl = {x. x < length h \<and> \<not> is_inner (h ! x) \<and> is_deadlock (kind (h ! x))}" using C [of is_deadlock] by blast
  obtain fs where fs: "collect_from is_fireable h r 0 = Some fs"
    "set fs = {x. x < length h \<and> \<not> is_inner (h ! x) \<and> is_fireable (kind (h ! x))}" using C [of is_fireable] by blast
  have at': "a \<in> set at \<longleftrightarrow> a < length h \<and> is_atomic (kind (h ! a))" for a using at(3) leaf_not_inner by blast
  have fs': "a \<in> set fs \<longleftrightarrow> a < length h \<and> is_fireable (kind (h ! a))" for a using fs(2) leaf_not_inner by blast
  have dl': "set dl = {a. a < length h \<and> is_deadlock (kind (h ! a))}" using dl(2) leaf_not_inner by blast
  define ch where "ch = map (changed_atoms T h at) [0..<Card N TR]"
  define cf where "cf = fold (register_fireable N T h) fs (replicate (Card N TR) [])"
  define P where "P = \<lparr>predicate = r, changedPredicate = ch, changedFireable = cf, changedDeadlock = dl\<rparr>"
  define h0 where "h0 = init_up_sets at ch h"
  have U: "up_only h h0" by (simp add: h0_def up_only_init_up_sets)
  note uf = up_only_fields [OF U]
  have "\<forall>a \<in> set fs. is_fireable (kind (h ! a))" using fs' by blast
  from fold_register_fireable [OF this, of N T "replicate (Card N TR) []"]
  have cfs: "set (cf ! t) = {a. a \<in> set fs \<and> (\<exists>u sign. kind (h ! a) = Fireable u sign \<and> influences N T t u)}"
    if "t < Card N TR" for t using that by (simp add: cf_def)
  have chd: "distinct (map fst (ch ! t))" if "t < Card N TR" for t
    using that changed_atoms_fst(1) [OF at(2)] by (simp add: ch_def)
  have cha: "change_of (ch ! t) a = atomic_delta T t (kind (h ! a))" if "t < Card N TR" "a \<in> set at" for t a
    using that change_of_changed [OF at(2)] by (simp add: ch_def)
  have "tables_ok N T P h0"
    unfolding tables_ok_def
  proof (intro conjI allI impI)
    fix t
    assume t: "t < Card N TR"
    show "distinct (map fst (changedPredicate P ! t))" using chd [OF t] by (simp add: P_def)
    show "\<forall>(a, d) \<in> set (changedPredicate P ! t). a < length h0 \<and> is_atomic (kind (h0 ! a))"
      using t at' changed_atoms_fst(2) [of _ _ T h at t] uf by (auto simp: P_def ch_def)
    show "change_of (changedPredicate P ! t) a = atomic_delta T t (kind (h0 ! a))"
      if "a < length h0" "is_atomic (kind (h0 ! a))" for a
      using that cha [OF t] at' uf by (simp add: P_def)
    show "\<forall>a \<in> set (changedFireable P ! t). a < length h0 \<and> is_fireable (kind (h0 ! a))"
      using cfs [OF t] fs' uf by (auto simp: P_def)
    show "a \<in> set (changedFireable P ! t)"
      if "a < length h0" "kind (h0 ! a) = Fireable u sign \<and> influences N T t u" for a u sign
      using that cfs [OF t] fs' uf by (auto simp: P_def)
  qed (simp add: P_def dl' uf)
  moreover have "up (h0 ! a) = filter (\<lambda>t. atomic_delta T t (kind (h ! a)) <s 0) [0..<Card N TR]"
    if a: "a < length h" "is_atomic (kind (h ! a))" for a
  proof -
    have lc: "length ch = Card N TR" by (simp add: ch_def)
    have "a \<in> set at" using a at' by blast
    from up_init_up_sets [OF a(1) this, of ch] chd lc
    have "up (h0 ! a) = filter (\<lambda>t. change_of (ch ! t) a <s 0) [0..<Card N TR]" by (simp add: h0_def)
    also have "\<dots> = filter (\<lambda>t. atomic_delta T t (kind (h ! a)) <s 0) [0..<Card N TR]"
      using cha \<open>a \<in> set at\<close> by (intro filter_cong) auto
    finally show ?thesis .
  qed
  moreover have "StatePredicateProperty N T r h = Some (P, h0)"
    by (simp add: StatePredicateProperty_def collectAtomic_def collectDeadlock_def collectFireable_def at(1) dl(1) fs(1) P_def h0_def ch_def cf_def Let_def)
  moreover have "predicate P = r" by (simp add: P_def)
  ultimately show ?thesis using U by blast
qed

text \<open>All that the property object relies on.\<close>

definition sp_setting ::
  "net \<Rightarrow> transition_data \<Rightarrow> hash_t list \<Rightarrow> marking \<Rightarrow> sp_property \<Rightarrow> sp_heap \<Rightarrow> bool" where
  "sp_setting N T H M0 P h0 \<longleftrightarrow> net_setting N T H M0 \<and> formula_ok N h0 (predicate P) \<and> tables_ok N T P h0"

definition sp_pstart ::
  "net \<Rightarrow> transition_data \<Rightarrow> hash_t list \<Rightarrow> marking \<Rightarrow> sp_property \<Rightarrow> sp_heap \<Rightarrow> sp_heap option \<Rightarrow> bool" where
  "sp_pstart N T H M0 P h0 d \<longleftrightarrow> sp_setting N T H M0 P h0 \<and> (\<exists>h. d = Some h \<and> links_ok h \<and> constants_ok h \<and> same_tree h0 h)"

definition sp_pinv ::
  "net \<Rightarrow> transition_data \<Rightarrow> hash_t list \<Rightarrow> marking \<Rightarrow> sp_property \<Rightarrow> sp_heap \<Rightarrow> netstate \<Rightarrow> sp_heap option \<Rightarrow> bool" where
  "sp_pinv N T H M0 P h0 ns d \<longleftrightarrow> sp_setting N T H M0 P h0 \<and> (\<exists>h. d = Some h \<and> in_step h0 ns h)"

lemma in_step_value:
  assumes "sp_setting N T H M0 P h0" "in_step h0 ns h" "good_state N H M0 ns"
  shows "sp_value (h ! predicate P) = sp_holds N h0 (Current ns) (predicate P)"
proof -
  have F: "formula_heap h0 (predicate P)" "\<And>a. a < length h0 \<Longrightarrow> kind_ok N (kind (h0 ! a))"
    using assms(1) by (auto simp: sp_setting_def formula_ok_def)
  have S: "heap_ok h" "same_tree h0 h" "\<And>x. x < length h0 \<Longrightarrow> \<not> is_inner (h0 ! x) \<Longrightarrow> leaf_ok ns h x"
    using assms(2) by (auto simp: in_step_def)
  note T = same_treeD(1,2) [OF S(2)] same_tree_inner [OF S(2)]
  have R: "predicate P < length h0" "links_ok h0" "links_ok h" using F(1) S(1) by (auto simp: formula_heap_def heap_ok_def)
  have en: "enabled_ok N ns" using assms(3) by (simp add: good_state_def)
  have "sp_value (h ! predicate P) = sp_holds N h (Current ns) (predicate P)"
    using value_holds [OF S(1) _ _ en, of "predicate P"] R(1) T S(3) F(2) by simp
  then show ?thesis using sp_holds_same_tree [OF S(2) R(2,3,1)] by simp
qed

text \<open>Firing \<open>t\<close> changes the flag of \<open>u\<close> only if \<open>t\<close> influences \<open>u\<close>.\<close>

lemma not_influenced:
  assumes S: "net_setting N T H M0" and g: "good_state N H M0 ns" "good_state N H M0 (succ_state N T t ns)"
    and t: "t < Card N TR" "Enabled ns ! t" and u: "u < Card N TR" and ni: "\<not> influences N T t u"
  shows "Enabled (succ_state N T t ns) ! u = Enabled ns ! u"
proof -
  have wf: "wf_net N" and cf: "conflicts_ok N T" and dl: "deltas_ok N T" using S by (auto simp: net_setting_def)
  have "u \<notin> set (Conflicting T ! t)"
  proof
    assume "u \<in> set (Conflicting T ! t)"
    then obtain p where p: "p \<in> set (Arc N TR PRE t)" "u \<in> set (Arc N PL POST p)"
      using cf t(1) by (auto simp: conflicts_ok_def)
    have pl: "p < Card N PL" using wf_net_Arc_less [OF wf t(1) p(1)] by simp
    have "p \<in> set (Arc N TR PRE u)" using wf_net_Arc_dual [OF wf pl p(2)] by simp
    moreover have "t \<in> set (Arc N PL POST p)" using wf_net_Arc_dual [OF wf t(1) p(1)] by simp
    ultimately have "t \<in> set (Conflicting T ! u)" using cf u by (auto simp: conflicts_ok_def)
    then show False using ni by (simp add: influences_def)
  qed
  moreover have "u \<notin> set (BackConflicting T ! t)"
  proof
    assume "u \<in> set (BackConflicting T ! t)"
    then obtain p where p: "p \<in> set (Arc N TR POST t)" "u \<in> set (Arc N PL POST p)"
      using cf t(1) by (auto simp: conflicts_ok_def)
    have pl: "p < Card N PL" using wf_net_Arc_less [OF wf t(1) p(1)] by simp
    have "p \<in> set (Arc N TR PRE u)" using wf_net_Arc_dual [OF wf pl p(2)] by simp
    moreover have "t \<in> set (Arc N PL PRE p)" using wf_net_Arc_dual [OF wf t(1) p(1)] by simp
    ultimately show False using ni by (auto simp: influences_def)
  qed
  moreover have "fired N t (Current ns) (Current (succ_state N T t ns))"
  proof -
    have e: "enabled_at N (marking_of (Current ns)) t" using net_setting.good_enabled [OF S g(1) t(1)] t(2) by simp
    have c: "count_ok N ns" by (rule net_setting.good_parts(2) [OF S g(1)])
    show ?thesis
      using fire_fired [OF dl wf t(1) c e net_setting.good_fits [OF S g(1) t]]
      by (simp add: Current_succ_state Current_fire)
  qed
  ultimately have "has_tokens (Current (succ_state N T t ns)) (Arcs N TR PRE ! u) =
      has_tokens (Current ns) (Arcs N TR PRE ! u)"
    using has_tokens_forward [OF cf wf t(1) u] by blast
  moreover have "enabled_ok N ns" "enabled_ok N (succ_state N T t ns)" using g by (simp_all add: good_state_def)
  ultimately show ?thesis using enabled_ok_flag u by simp
qed

text \<open>Both directions of one step.\<close>

lemma sp_step:
  assumes set: "sp_setting N T H M0 P h0" and g: "good_state N H M0 ns" "good_state N H M0 ns'"
    and t: "t < Card N TR" "Enabled ns ! t" and ns': "ns' = succ_state N T t ns"
  shows "in_step h0 ns h \<Longrightarrow> \<exists>h'. propagate P ns' (changedPredicate P ! t) t h = Some h' \<and> in_step h0 ns' h'"
    and "in_step h0 ns' h \<Longrightarrow>
      \<exists>h'. propagate P ns (map (\<lambda>(a, s). (a, - s)) (changedPredicate P ! t)) t h = Some h' \<and> in_step h0 ns h'"
proof -
  let ?l = "changedPredicate P ! t"
  have S: "net_setting N T H M0" and ok: "\<And>a. a < length h0 \<Longrightarrow> kind_ok N (kind (h0 ! a))" and tb: "tables_ok N T P h0"
    using set by (auto simp: sp_setting_def formula_ok_def)
  have d: "distinct (map fst ?l)" "\<forall>(a, d) \<in> set ?l. a < length h0 \<and> is_atomic (kind (h0 ! a))"
    and ch: "\<And>a. a < length h0 \<Longrightarrow> is_atomic (kind (h0 ! a)) \<Longrightarrow> change_of ?l a = atomic_delta T t (kind (h0 ! a))"
    and cf: "\<forall>a \<in> set (changedFireable P ! t). a < length h0 \<and> is_fireable (kind (h0 ! a))"
    and cfc: "\<And>a u sign. a < length h0 \<Longrightarrow> kind (h0 ! a) = Fireable u sign \<Longrightarrow> influences N T t u \<Longrightarrow> a \<in> set (changedFireable P ! t)"
    and dl: "set (changedDeadlock P) = {a. a < length h0 \<and> is_deadlock (kind (h0 ! a))}"
    using tb t(1) by (auto simp: tables_ok_def)
  have len: "length (Current ns) = Card N PL" using g(1) by (simp add: good_state_def hashed_state_def reachable_vec_def)
  have sums: "atomic_sum pos neg (Current ns') = atomic_sum pos neg (Current ns) + change_of ?l a"
    if "a < length h0" "kind (h0 ! a) = Atomic pos neg thr" for a pos neg thr
    using ch [OF that(1)] that(2) ok [OF that(1)] atomic_sum_fire [OF _ len, of pos neg thr T t]
    by (simp add: ns' Current_succ_state)
  have en: "Enabled ns' ! u = Enabled ns ! u"
    if "a < length h0" "kind (h0 ! a) = Fireable u sign" "a \<notin> set (changedFireable P ! t)" for a u sign
    unfolding ns'
    using not_influenced [OF S g(1) _ t, of u] g(2) ns' ok [OF that(1)] that cfc [OF that(1,2)] by auto
  show "in_step h0 ns h \<Longrightarrow> \<exists>h'. propagate P ns' ?l t h = Some h' \<and> in_step h0 ns' h'"
    by (rule propagate_correct [OF _ d _ cf dl]) (use sums en in blast)+
  have d': "distinct (map fst (map (\<lambda>(a, s). (a, - s)) ?l))"
    "\<forall>(a, d) \<in> set (map (\<lambda>(a, s). (a, - s)) ?l). a < length h0 \<and> is_atomic (kind (h0 ! a))"
    using d by (auto simp: comp_def case_prod_unfold)
  have sums': "atomic_sum pos neg (Current ns) = atomic_sum pos neg (Current ns') + change_of (map (\<lambda>(a, s). (a, - s)) ?l) a"
    if "a < length h0" "kind (h0 ! a) = Atomic pos neg thr" for a pos neg thr
    using sums [OF that] by (simp add: change_of_uminus)
  have en': "Enabled ns ! u = Enabled ns' ! u"
    if "a < length h0" "kind (h0 ! a) = Fireable u sign" "a \<notin> set (changedFireable P ! t)" for a u sign
    using en [OF that] by simp
  show "in_step h0 ns' h \<Longrightarrow>
      \<exists>h'. propagate P ns (map (\<lambda>(a, s). (a, - s)) ?l) t h = Some h' \<and> in_step h0 ns h'"
    by (rule propagate_correct [OF _ d' _ cf dl]) (use sums' en' in blast)+
qed

text \<open>The constant leaves keep their values.\<close>

lemma in_step_constants:
  assumes "in_step h0 ns h"
  shows "constants_ok h"
  unfolding constants_ok_def
proof (intro allI impI)
  fix a assume a: "a < length h"
  have T: "same_tree h0 h" using assms by (simp add: in_step_def)
  have "leaf_ok ns h a" if "\<not> is_inner (h ! a)"
    using assms a that same_treeD(1) [OF T] same_tree_inner [OF T, of a] by (auto simp: in_step_def)
  then show "(kind (h ! a) = TruePredicate \<longrightarrow> sp_value (h ! a)) \<and> (kind (h ! a) = FalsePredicate \<longrightarrow> \<not> sp_value (h ! a))"
    by (auto simp: leaf_ok_def leaf_value_def is_inner_def)
qed

interpretation sp_prop: property_contract N T "sp_initProperty P" "sp_checkProperty P" "sp_updateProperty P"
    "good_state N H M0" "sp_pstart N T H M0 P h0" "sp_pinv N T H M0 P h0" "\<lambda>m. sp_holds N h0 m (predicate P)"
  for N T P H M0 h0
proof (unfold_locales, goal_cases)
  case (1 ns p v p')
  then obtain h where h: "sp_setting N T H M0 P h0" "p = Some h" "links_ok h" "same_tree h0 h" "constants_ok h"
    by (auto simp: sp_pstart_def)
  have "formula_heap h (predicate P)"
    using h formula_heap_same_tree by (auto simp: sp_setting_def formula_ok_def)
  from evaluate_correct [OF this, of ns]
  obtain h' where h': "evaluate ns (predicate P) h = Some h'" "heap_ok h'" "same_tree h h'"
    "\<forall>x < length h. \<not> is_inner (h ! x) \<longrightarrow> leaf_ok ns h' x" by blast
  have "in_step h0 ns h'"
    using h'(2,4) same_tree_trans [OF h(4) h'(3)] same_treeD(1) [OF h(4)] same_tree_inner [OF h(4)]
    by (simp add: in_step_def)
  then show ?case
    using 1(1,3) h(1,2) in_step_value [OF h(1) _ 1(1)] by (auto simp: sp_initProperty_def answer_def sp_pinv_def h'(1))
next
  case (2 ns p t ns' v p')
  then obtain h where h: "sp_setting N T H M0 P h0" "p = Some h" "in_step h0 ns h" by (auto simp: sp_pinv_def)
  from sp_step(1) [OF h(1) 2(1,6,3-5) h(3)]
  obtain h' where h': "propagate P ns' (changedPredicate P ! t) t h = Some h'" "in_step h0 ns' h'" by blast
  then show ?case
    using 2(6,7) h in_step_value [OF h(1) h'(2)] by (auto simp: sp_checkProperty_def answer_def sp_pinv_def h'(1))
next
  case (3 ns t ns' p v p')
  then obtain h where h: "sp_setting N T H M0 P h0" "p = Some h" "in_step h0 ns' h" by (auto simp: sp_pinv_def)
  from sp_step(2) [OF h(1) 3(1,5,2-4) h(3)]
  obtain h' where h': "propagate P ns (map (\<lambda>(a, s). (a, - s)) (changedPredicate P ! t)) t h = Some h'" "in_step h0 ns h'"
    by blast
  then show ?case using 3(7) h by (auto simp: sp_updateProperty_def answer_def sp_pinv_def h'(1))
next
  case (4 ns p)
  then obtain h where h: "sp_setting N T H M0 P h0" "p = Some h" "in_step h0 ns h" by (auto simp: sp_pinv_def)
  then show ?case using in_step_constants [OF h(3)] by (auto simp: sp_pstart_def in_step_def heap_ok_def)
qed

section \<open>Searches for a state predicate\<close>

lemma predicate_ops_simps [simp]:
  "initProperty (predicate_ops P store N) = sp_initProperty P" "checkProperty (predicate_ops P store N) = sp_checkProperty P"
  "updateProperty (predicate_ops P store N) = sp_updateProperty P" "searchAndInsert (predicate_ops P store N) = store"
  "getFirelist (predicate_ops P store N) = base_get N"
  by (simp_all add: predicate_ops_def)

sublocale net_setting \<subseteq> sp_walk: walk_contract N T H M0 "predicate_ops P store N"
    "sp_pstart N T H M0 P h0" "sp_pinv N T H M0 P h0" "\<lambda>m. sp_holds N h0 m (predicate P)" "\<lambda>_. True" "all_enabled N"
  for P store h0
  by (rule walk_contract.intro [OF net_setting_axioms]; unfold predicate_ops_simps) unfold_locales

sublocale net_setting \<subseteq> sp_set: search_contract N T H M0 "predicate_ops P (vstl_store N) N"
    "sp_pstart N T H M0 P h0" "sp_pinv N T H M0 P h0" "\<lambda>m. sp_holds N h0 m (predicate P)" "\<lambda>_. True" "all_enabled N"
    "\<lambda>_. True" vectorStore
  for P h0
  by (rule search_contract.intro [OF sp_walk.walk_contract_axioms]; unfold predicate_ops_simps) unfold_locales

text \<open>The token vector of a marking.\<close>

definition vec_of :: "net \<Rightarrow> marking \<Rightarrow> capacity_t list" where
  "vec_of N M = map (\<lambda>p. of_nat (M p)) [0..<Card N PL]"

lemma vec_of_marking: "length m = Card N PL \<Longrightarrow> vec_of N (marking_of m) = m"
  by (intro nth_equalityI) (auto simp: vec_of_def marking_of_def)

context net_setting
begin

lemma sp_vec: "reach_vec m \<Longrightarrow> sp_holds N h0 m a \<longleftrightarrow> sp_holds N h0 (vec_of N (marking_of m)) a"
  by (simp add: reachable_vec_def vec_of_marking)

lemmas sp_decides = sp_set.depth_first_decides [OF _ _ _ _ _ _ all_enabled_preserving [of "\<lambda>m. sp_holds N h0 m a" "\<lambda>M. sp_holds N h0 (vec_of N M) a" for h0 a, OF sp_vec] sp_vec]
  and sp_find_path = sp_walk.find_path_correct [OF _ _ _ _ _ _ sp_vec]

end

text \<open>From the parsed formula to the state in which the search starts.\<close>

lemma sp_setting_constructed:
  assumes "search_ready N T H ns" "formula_ok N h r" "StatePredicateProperty N T r h = Some (P, h0)"
  shows "sp_pstart N T H (marking_of (Current ns)) P h0 (Some h0)"
    "\<And>m. sp_holds N h0 m (predicate P) \<longleftrightarrow> sp_holds N h m r"
proof -
  have C: "predicate P = r" "tables_ok N T P h0" "up_only h h0"
    using constructor_correct [OF assms(2), of T] assms(3) by auto
  have "formula_ok N h0 (predicate P)" using up_only_formula(1) [OF C(3) assms(2)] C(1) by simp
  then show "sp_pstart N T H (marking_of (Current ns)) P h0 (Some h0)"
    using search_ready_setting [OF assms(1)] C(2)
    by (auto simp: sp_pstart_def sp_setting_def formula_ok_def formula_heap_def)
  show "\<And>m. sp_holds N h0 m (predicate P) \<longleftrightarrow> sp_holds N h m r"
    using up_only_formula(2) [OF C(3)] C(1) by simp
qed

end
