(* ===== verification/PredicateDebug.thy ===== *)
theory PredicateDebug
  imports PredicateTables
begin

text \<open>
  The assertions of \<open>DEBUG__consistency\<close>, which the property methods call after every step, and the
  arithmetic of atoms: negation, and 32 bit sums against integer sums.
\<close>

section \<open>No assertion fails\<close>

lemma debug_member_ok:
  assumes "links_ok h" "ranked rk h" "a < length h" "is_inner (h ! a)" "i < length (sub (h ! a))" "node_ok h a"
  shows "debug_member h a i"
proof -
  note S = links_ok_sub [OF assms(1,3,4,5)]
  have d: "distinct (sub (h ! a))" by (rule links_ok_distinct [OF assms(1,3,4)])
  have "sub (h ! a) ! i \<noteq> a" using ranked_neq [OF assms(2) S(1,2)] by auto
  moreover have "sp_value (h ! (sub (h ! a) ! i)) \<longleftrightarrow> i < cardSat (h ! a)" using assms(5,6) by (simp add: node_ok_def)
  moreover have "j = i \<or> sub (h ! a) ! j \<noteq> sub (h ! a) ! i" if "j < length (sub (h ! a))" for j
    using d that assms(5) by (simp add: nth_eq_iff_index_eq)
  ultimately show ?thesis using S by (simp add: debug_member_def Let_def list_all_iff)
qed

lemma debug_inner_ok: "node_ok h a \<Longrightarrow> debug_inner (h ! a)"
  by (simp add: debug_inner_def conjunction_debug_def disjunction_debug_def node_ok_def truth_of_def)

lemma debug_leaf_ok: "leaf_ok ns h a \<Longrightarrow> debug_leaf ns (h ! a)"
  by (auto simp: debug_leaf_def leaf_ok_def leaf_value_def split: sp_kind.splits)

lemma debug_from_true:
  assumes "links_ok h" "ranked rk h" "a < length h" "\<forall>x < length h. rk x \<le> M"
    and "\<forall>x < length h. evaluated ns h x"
  shows "debug_from ns h a i = Some True"
  using assms
proof (induction "M - rk a" arbitrary: a i rule: less_induct)
  case outer: less
  show ?case
  proof (induction "length (sub (h ! a)) - i" arbitrary: i rule: less_induct)
    case inner: less
    have ev: "evaluated ns h a" using outer.prems(3,5) by blast
    show ?case
    proof (cases "is_inner (h ! a)")
      case False
      then show ?thesis using ev debug_leaf_ok by (subst debug_from.simps) (simp add: evaluated_def)
    next
      case inn: True
      then have ok: "node_ok h a" using ev by (simp add: evaluated_def)
      show ?thesis
      proof (cases "i < length (sub (h ! a))")
        case False
        then show ?thesis using inn debug_inner_ok [OF ok] by (subst debug_from.simps) simp
      next
        case True
        note S = links_ok_sub [OF outer.prems(1,3) inn True]
        have "rk a < rk (sub (h ! a) ! i)" using ranked_neq [OF outer.prems(2) S(1,2)] by simp
        then have "M - rk (sub (h ! a) ! i) < M - rk a"
          using outer.prems(4) S(1) by (meson diff_less_mono2 le_trans less_le_trans)
        from outer.hyps [OF this outer.prems(1,2) S(1) outer.prems(4,5)]
        have "debug_from ns h (sub (h ! a) ! i) 0 = Some True" .
        moreover have "debug_from ns h a (i + 1) = Some True" using True by (intro inner.hyps) simp
        moreover have "debug_member h a i"
          using debug_member_ok [OF outer.prems(1-3) inn True ok] .
        ultimately show ?thesis using inn True by (subst debug_from.simps) simp
      qed
    qed
  qed
qed

lemma debug_consistent:
  assumes "in_step h0 ns h" "a < length h0"
  shows "DEBUG__consistency ns a h = Some True"
proof -
  have H: "heap_ok h" "same_tree h0 h" "\<And>x. x < length h0 \<Longrightarrow> \<not> is_inner (h0 ! x) \<Longrightarrow> leaf_ok ns h x"
    using assms(1) by (auto simp: in_step_def)
  note T = same_treeD(1) [OF H(2)] same_tree_inner [OF H(2)]
  obtain rk where rk: "ranked rk h" using H(1) by (auto simp: heap_ok_def)
  have M: "\<forall>x < length h. rk x \<le> Max (rk ` {..< length h})" by simp
  have ev: "\<forall>x < length h. evaluated ns h x" using H T by (simp add: evaluated_def heap_ok_def)
  have "links_ok h" "a < length h" using H(1) assms(2) T by (simp_all add: heap_ok_def)
  then show ?thesis unfolding DEBUG__consistency_def by (intro debug_from_true [OF _ rk _ M ev])
qed

section \<open>Atoms as integer inequalities\<close>

text \<open>The formal sum over the integers.\<close>

definition int_sum :: "(arrayindex_t \<times> capacity_t) list \<Rightarrow> (arrayindex_t \<times> capacity_t) list \<Rightarrow> capacity_t list \<Rightarrow> int" where
  "int_sum pos neg m =
     sum_list (map (\<lambda>(p, k). uint (m ! p) * uint k) pos) - sum_list (map (\<lambda>(p, k). uint (m ! p) * uint k) neg)"

lemma dot_of_int: "dot ps (\<lambda>p. m ! p) = of_int (sum_list (map (\<lambda>(p, k). uint (m ! p) * uint k) ps))"
  by (induction ps) auto

lemma atomic_sum_int: "atomic_sum pos neg m = of_int (int_sum pos neg m)"
  by (simp add: atomic_sum_dot dot_of_int int_sum_def)

lemma sint_of_int_fits: "- (2 ^ 31) \<le> i \<Longrightarrow> i < 2 ^ 31 \<Longrightarrow> sint (of_int i :: 32 word) = i"
  by (simp add: signed_of_int signed_take_bit_int_eq_self)

lemma sint_uminus: "sint (w :: 32 word) \<noteq> - (2 ^ 31) \<Longrightarrow> sint (- w) = - sint w"
proof -
  assume a: "sint w \<noteq> - (2 ^ 31)"
  have "- (2 ^ 31) \<le> sint w" "sint w < 2 ^ 31" using sint_ge [of w] sint_lt [of w] by simp_all
  then have "sint (of_int (- sint w) :: 32 word) = - sint w" using a by (intro sint_of_int_fits) auto
  then show ?thesis by simp
qed

lemma sint_complement: "sint (- w - 1 :: 32 word) = - sint w - 1"
proof -
  have "- (2 ^ 31) \<le> sint w" "sint w < 2 ^ 31" using sint_ge [of w] sint_lt [of w] by simp_all
  then have "sint (of_int (- sint w - 1) :: 32 word) = - sint w - 1" by (intro sint_of_int_fits) auto
  then show ?thesis by simp
qed

lemma atomic_sum_swap: "atomic_sum neg pos m = - atomic_sum pos neg m"
  by (simp add: atomic_sum_dot)

end
