(* ===== verification/UpSets.thy ===== *)
theory UpSets
  imports PredicateDebug
begin

text \<open>
  \<open>getUpSet\<close>: the transitions that stand between a false formula and a marking that satisfies it.
  They are the seed of the stubborn sets for state predicates.
\<close>

section \<open>The stack\<close>

definition stack_ok :: "nat \<Rightarrow> arrayindex_t list \<times> bool list \<Rightarrow> bool" where
  "stack_ok n st \<longleftrightarrow> length (snd st) = n \<and> distinct (fst st) \<and> set (fst st) \<subseteq> {..<n} \<and>
     (\<forall>t < n. snd st ! t \<longleftrightarrow> t \<in> set (fst st))"

lemma stack_ok_push:
  assumes "stack_ok n (stk, on)" "t < n" "\<not> on ! t"
  shows "stack_ok n (stk @ [t], on[t := True])"
  using assms by (auto simp: stack_ok_def nth_list_update)

lemma push_new_spec:
  assumes "stack_ok n st" "\<forall>t \<in> set ts. t < n"
  shows "stack_ok n (push_new ts st) \<and> set (fst (push_new ts st)) = set (fst st) \<union> set ts"
  using assms
proof (induction ts arbitrary: st)
  case Nil
  then show ?case by (simp add: push_new_def)
next
  case (Cons t ts)
  obtain stk on where st: "st = (stk, on)" by (cases st)
  have t: "t < n" using Cons.prems by simp
  show ?case
  proof (cases "on ! t")
    case True
    then have "t \<in> set stk" using Cons.prems(1) t st by (simp add: stack_ok_def)
    moreover have "push_new (t # ts) st = push_new ts st" using True st by (simp add: push_new_def)
    ultimately show ?thesis using Cons st by auto
  next
    case False
    have "push_new (t # ts) st = push_new ts (stk @ [t], on[t := True])" using False st by (simp add: push_new_def)
    then show ?thesis
      using Cons.IH [OF stack_ok_push [OF _ t False]] Cons.prems st by auto
  qed
qed

section \<open>Up sets of leaves\<close>

text \<open>A set of transitions is hit by a firing sequence that contains one of them, or enables one.\<close>

definition hit :: "net \<Rightarrow> marking \<Rightarrow> arrayindex_t list \<Rightarrow> marking \<Rightarrow> arrayindex_t set \<Rightarrow> bool" where
  "hit N M w M' U \<longleftrightarrow> (\<exists>t \<in> U. t \<in> set w \<or> (\<not> enabled_at N M t \<and> enabled_at N M' t))"

lemma hit_mono: "hit N M w M' U \<Longrightarrow> U \<subseteq> V \<Longrightarrow> hit N M w M' V"
  by (auto simp: hit_def)

lemma firing_sequence_range: "firing_sequence N M w M' \<Longrightarrow> t \<in> set w \<Longrightarrow> t < Card N TR"
  by (induction w arbitrary: M) auto

text \<open>The formal sums stay away from the ends of the 32 bit range.\<close>

definition sums_fit :: "net \<Rightarrow> sp_heap \<Rightarrow> marking \<Rightarrow> bool" where
  "sums_fit N h M0 \<longleftrightarrow>
     (\<forall>m a pos neg thr. reachable_vec N M0 m \<and> a < length h \<and> kind (h ! a) = Atomic pos neg thr \<longrightarrow>
        - (2 ^ 30) \<le> int_sum pos neg m \<and> int_sum pos neg m < 2 ^ 30)"

context net_setting
begin

lemma good_vec: "good ns \<Longrightarrow> vec_of N (marking_of (Current ns)) = Current ns"
  using good_parts(3) by (simp add: vec_of_marking reachable_vec_def)

lemma sequence_step:
  assumes "good ns" "firing_sequence N (marking_of (Current ns)) (t # w) M'"
  shows "t < Card N TR" "Enabled ns ! t" "good (succ_state N T t ns)"
    "firing_sequence N (marking_of (Current (succ_state N T t ns))) w M'"
proof -
  show t: "t < Card N TR" "Enabled ns ! t" using assms good_enabled by auto
  show "good (succ_state N T t ns)" by (rule good_succ [OF assms(1) t])
  show "firing_sequence N (marking_of (Current (succ_state N T t ns))) w M'"
    using assms(2) marking_succ [OF assms(1) t] by (simp add: Current_succ_state)
qed

text \<open>An atom: as long as no fired transition decreases the sum, it stays above the threshold.\<close>

lemma atomic_up_set:
  assumes "good ns" "firing_sequence N (marking_of (Current ns)) w M'" "kind_ok N (Atomic pos neg thr)"
    and fit: "\<And>m. reach_vec m \<Longrightarrow> - (2 ^ 30) \<le> int_sum pos neg m \<and> int_sum pos neg m < 2 ^ 30"
    and "\<forall>t \<in> set w. \<not> atomic_delta T t (Atomic pos neg thr) <s 0"
    and "\<not> atomic_sum pos neg (Current ns) <=s thr"
  shows "\<not> atomic_sum pos neg (vec_of N M') <=s thr"
  using assms(1,2,5,6)
proof (induction w arbitrary: ns)
  case Nil
  then show ?case using good_vec by auto
next
  case (Cons t w)
  note st = sequence_step [OF Cons.prems(1,2)]
  let ?m = "Current ns" and ?m' = "Current (succ_state N T t ns)" and ?d = "atomic_delta T t (Atomic pos neg thr)"
  have len: "length ?m = Card N PL" using good_parts(3) [OF Cons.prems(1)] by (simp add: reachable_vec_def)
  have s: "atomic_sum pos neg ?m' = atomic_sum pos neg ?m + ?d"
    using atomic_sum_fire [OF assms(3) len] by (simp add: Current_succ_state)
  have f: "- (2 ^ 30) \<le> int_sum pos neg ?m \<and> int_sum pos neg ?m < 2 ^ 30"
    "- (2 ^ 30) \<le> int_sum pos neg ?m' \<and> int_sum pos neg ?m' < 2 ^ 30"
    using fit good_parts(3) Cons.prems(1) st(3) by blast+
  have si: "sint (atomic_sum pos neg ?m) = int_sum pos neg ?m" "sint (atomic_sum pos neg ?m') = int_sum pos neg ?m'"
    using f unfolding atomic_sum_int by (intro sint_of_int_fits; simp)+
  have "?d = of_int (int_sum pos neg ?m' - int_sum pos neg ?m)"
    using s by (simp add: atomic_sum_int)
  then have "sint ?d = int_sum pos neg ?m' - int_sum pos neg ?m"
    using f by (simp only:) (intro sint_of_int_fits; simp)
  moreover have "0 \<le> sint ?d" using Cons.prems(3) by (simp add: word_sless_alt)
  ultimately have "\<not> atomic_sum pos neg ?m' <=s thr"
    using Cons.prems(4) si by (simp add: word_sle_eq)
  then show ?case using Cons.IH [OF st(3,4)] Cons.prems(3) by simp
qed

text \<open>An enabled transition stays enabled unless a conflicting one fires.\<close>

lemma conflicting_sym:
  assumes "t < Card N TR" "u < Card N TR" "u \<in> set (Conflicting T ! t)"
  shows "t \<in> set (Conflicting T ! u)"
proof -
  obtain p where p: "p \<in> set (Arc N TR PRE t)" "u \<in> set (Arc N PL POST p)"
    using conflicts assms by (auto simp: conflicts_ok_def)
  have pl: "p < Card N PL" using wf_net_Arc_less [OF wf assms(1) p(1)] by simp
  have "p \<in> set (Arc N TR PRE u)" using wf_net_Arc_dual [OF wf pl p(2)] by simp
  moreover have "t \<in> set (Arc N PL POST p)" using wf_net_Arc_dual [OF wf assms(1) p(1)] by simp
  ultimately show ?thesis using conflicts assms(2) by (auto simp: conflicts_ok_def)
qed

lemma unfireable_up_set:
  assumes "good ns" "firing_sequence N (marking_of (Current ns)) w M'" "u < Card N TR"
    and "has_tokens (Current ns) (Arcs N TR PRE ! u)" "\<forall>t \<in> set w. t \<notin> set (Conflicting T ! u)"
  shows "has_tokens (vec_of N M') (Arcs N TR PRE ! u)"
  using assms(1,2,4,5)
proof (induction w arbitrary: ns)
  case Nil
  then show ?case using good_vec by auto
next
  case (Cons t w)
  note st = sequence_step [OF Cons.prems(1,2)]
  have e: "enabled_at N (marking_of (Current ns)) t" using good_enabled [OF Cons.prems(1) st(1)] st(2) by simp
  have F: "fired N t (Current ns) (Current (succ_state N T t ns))"
    using fire_fired [OF deltas wf st(1) good_parts(2) [OF Cons.prems(1)] e good_fits [OF Cons.prems(1) st(1,2)]]
    by (simp add: Current_succ_state Current_fire)
  have "u \<notin> set (Conflicting T ! t)" using conflicting_sym [OF st(1) assms(3)] Cons.prems(4) by auto
  then have "has_tokens (Current (succ_state N T t ns)) (Arcs N TR PRE ! u)"
    using has_tokens_forward(1) [OF conflicts wf st(1) assms(3) F] Cons.prems(3) by blast
  then show ?case using Cons.IH [OF st(3,4)] Cons.prems(4) by simp
qed

text \<open>The contribution of a leaf.\<close>

definition atom_ups :: "sp_heap \<Rightarrow> bool" where
  "atom_ups h \<longleftrightarrow> (\<forall>a < length h. is_atomic (kind (h ! a)) \<longrightarrow>
     up (h ! a) = filter (\<lambda>t. atomic_delta T t (kind (h ! a)) <s 0) [0..<Card N TR])"

lemma leaf_up_set_spec:
  assumes g: "good ns" and v: "\<not> leaf_value ns n" and leaf: "\<not> is_inner n" and k: "kind_ok N (kind n)"
    and up: "is_atomic (kind n) \<Longrightarrow> up n = filter (\<lambda>t. atomic_delta T t (kind n) <s 0) [0..<Card N TR]"
    and fit: "\<And>m pos neg thr. kind n = Atomic pos neg thr \<Longrightarrow> reach_vec m \<Longrightarrow>
      - (2 ^ 30) \<le> int_sum pos neg m \<and> int_sum pos neg m < 2 ^ 30"
    and st: "stack_ok (Card N TR) (stk, on)" and r: "leaf_up_set T n (stk, on, need) = (stk', on', need')"
  shows "stack_ok (Card N TR) (stk', on')" "set stk \<subseteq> set stk'"
    "\<And>w M'. firing_sequence N (marking_of (Current ns)) w M' \<Longrightarrow> h ! a = n \<Longrightarrow>
       sp_holds N h (vec_of N M') a \<Longrightarrow> need' \<and> dead_at N M' \<or> hit N (marking_of (Current ns)) w M' (set stk')"
proof -
  have en: "enabled_ok N ns" using g by (simp add: good_state_def)
  have M: "marking_of (vec_of N M') = M'" if fs: "firing_sequence N (marking_of (Current ns)) w M'" for w M'
    using g fs
  proof (induction w arbitrary: ns)
    case Nil
    then show ?case using good_vec by auto
  next
    case (Cons t w)
    then show ?case using sequence_step(3,4) [OF Cons.prems] by blast
  qed
  have "stack_ok (Card N TR) (stk', on') \<and> set stk \<subseteq> set stk' \<and>
    (\<forall>w M'. firing_sequence N (marking_of (Current ns)) w M' \<and> h ! a = n \<and> sp_holds N h (vec_of N M') a \<longrightarrow>
       need' \<and> dead_at N M' \<or> hit N (marking_of (Current ns)) w M' (set stk'))"
  proof (cases "kind n")
    case (Atomic pos neg thr)
    obtain s o' where p: "push_new (up n) (stk, on) = (s, o')" by fastforce
    have "\<forall>t \<in> set (up n). t < Card N TR" using up Atomic by simp
    from push_new_spec [OF st this] have P: "stack_ok (Card N TR) (s, o')" "set s = set stk \<union> set (up n)" using p by simp_all
    have eq: "stk' = s" "on' = o'" using r Atomic p by (auto simp: leaf_up_set_def atomic_getUpSet_def deadlock_getUpSet_def fireable_getUpSet_def)
    have "hit N (marking_of (Current ns)) w M' (set s)"
      if w: "firing_sequence N (marking_of (Current ns)) w M'" "h ! a = n" "sp_holds N h (vec_of N M') a" for w M'
    proof -
      have "atomic_sum pos neg (vec_of N M') <=s thr" using w(2,3) Atomic by (simp add: sp_holds_simps [of N h _ a])
      moreover have "\<not> atomic_sum pos neg (Current ns) <=s thr" using v Atomic by (simp add: leaf_value_def)
      ultimately obtain t where t: "t \<in> set w" "atomic_delta T t (Atomic pos neg thr) <s 0"
        using atomic_up_set [OF g w(1), of pos neg thr] k fit Atomic by auto
      have "t < Card N TR" by (rule firing_sequence_range [OF w(1) t(1)])
      then show ?thesis using t up Atomic P(2) by (auto simp: hit_def)
    qed
    then show ?thesis using P eq by auto
  next
    case (Deadlock sign)
    have "need'" if "sign" using r that Deadlock by (simp add: leaf_up_set_def atomic_getUpSet_def deadlock_getUpSet_def fireable_getUpSet_def)
    moreover have "dead_at N M'"
      if w: "firing_sequence N (marking_of (Current ns)) w M'" "h ! a = n" "sp_holds N h (vec_of N M') a" "sign" for w M'
    proof -
      have "dead_vec N (vec_of N M')" using w(2-4) Deadlock by (simp add: sp_holds_simps [of N h _ a])
      then show ?thesis
        using has_tokens_enabled_at [OF wf, of _ "vec_of N M'"] M [OF w(1)] by (simp add: dead_vec_def dead_at_def vec_of_def)
    qed
    moreover have False
      if w: "firing_sequence N (marking_of (Current ns)) w M'" "h ! a = n" "sp_holds N h (vec_of N M') a" "\<not> sign" for w M'
    proof -
      have "dead_vec N (Current ns)" using v w(4) Deadlock enabled_ok_count [OF en] by (simp add: leaf_value_def)
      then have "w = []"
        using w(1) sequence_step(1,2) [OF g] enabled_ok_flag [OF en] by (cases w) (auto simp: dead_vec_def simp del: firing_sequence.simps)
      then have "vec_of N M' = Current ns" using w(1) good_vec [OF g] by simp
      then show False using w(2-4) Deadlock \<open>dead_vec N (Current ns)\<close> by (simp add: sp_holds_simps [of N h _ a])
    qed
    ultimately show ?thesis using r st Deadlock by (cases sign) (auto simp: leaf_up_set_def atomic_getUpSet_def deadlock_getUpSet_def fireable_getUpSet_def)
  next
    case (Fireable u sign)
    have u: "u < Card N TR" using k Fireable by simp
    show ?thesis
    proof (cases sign)
      case True
      have ne: "\<not> enabled_at N (marking_of (Current ns)) u"
        using v Fireable True good_enabled [OF g u] by (simp add: leaf_value_def)
      have in': "u \<in> set stk'" using r st u Fireable True by (auto simp: leaf_up_set_def atomic_getUpSet_def deadlock_getUpSet_def fireable_getUpSet_def stack_ok_def split: if_splits)
      have ok: "stack_ok (Card N TR) (stk', on')" "set stk \<subseteq> set stk'"
        using r st u Fireable True stack_ok_push [OF st u] by (auto simp: leaf_up_set_def atomic_getUpSet_def deadlock_getUpSet_def fireable_getUpSet_def split: if_splits)
      have "hit N (marking_of (Current ns)) w M' (set stk')"
        if w: "firing_sequence N (marking_of (Current ns)) w M'" "h ! a = n" "sp_holds N h (vec_of N M') a" for w M'
      proof -
        have "has_tokens (vec_of N M') (Arcs N TR PRE ! u)"
          using w(2,3) Fireable True by (simp add: sp_holds_simps [of N h _ a])
        then have "enabled_at N M' u"
          using has_tokens_enabled_at [OF wf u, of "vec_of N M'"] M [OF w(1)] by (simp add: vec_of_def)
        then show ?thesis using ne in' by (auto simp: hit_def)
      qed
      then show ?thesis using ok by blast
    next
      case False
      obtain s o' where p: "push_new (Conflicting T ! u) (stk, on) = (s, o')" by fastforce
      from push_new_spec [OF st conflicts_ok_range(1) [OF conflicts wf u]]
      have P: "stack_ok (Card N TR) (s, o')" "set s = set stk \<union> set (Conflicting T ! u)" using p by simp_all
      have eq: "stk' = s" "on' = o'" using r Fireable False p by (auto simp: leaf_up_set_def atomic_getUpSet_def deadlock_getUpSet_def fireable_getUpSet_def)
      have "hit N (marking_of (Current ns)) w M' (set s)"
        if w: "firing_sequence N (marking_of (Current ns)) w M'" "h ! a = n" "sp_holds N h (vec_of N M') a" for w M'
      proof -
        have "\<not> has_tokens (vec_of N M') (Arcs N TR PRE ! u)"
          using w(2,3) Fireable False by (simp add: sp_holds_simps [of N h _ a])
        moreover have "has_tokens (Current ns) (Arcs N TR PRE ! u)"
          using v Fireable False enabled_ok_flag [OF en u] by (simp add: leaf_value_def)
        ultimately show ?thesis using unfireable_up_set [OF g w(1) u] P(2) by (auto simp: hit_def)
      qed
      then show ?thesis using P eq by auto
    qed
  next
    case TruePredicate
    then show ?thesis using v by (simp add: leaf_value_def)
  next
    case FalsePredicate
    then show ?thesis using r st by (auto simp: leaf_up_set_def atomic_getUpSet_def deadlock_getUpSet_def fireable_getUpSet_def sp_holds_simps [of N h _ a])
  qed (use leaf in \<open>simp_all add: is_inner_def\<close>)
  then show "stack_ok (Card N TR) (stk', on')" "set stk \<subseteq> set stk'"
    "\<And>w M'. firing_sequence N (marking_of (Current ns)) w M' \<Longrightarrow> h ! a = n \<Longrightarrow>
       sp_holds N h (vec_of N M') a \<Longrightarrow> need' \<and> dead_at N M' \<or> hit N (marking_of (Current ns)) w M' (set stk')" by blast+
qed

text \<open>The whole formula.\<close>

lemma getUpSet_from_spec:
  assumes g: "good ns" and step: "in_step h0 ns h" and ok: "\<And>a. a < length h0 \<Longrightarrow> kind_ok N (kind (h0 ! a))"
    and up: "atom_ups h" and fit: "sums_fit N h0 M0" and rk: "ranked rk h" and M: "\<forall>x < length h. rk x \<le> M"
    and "a < length h" "\<not> sp_value (h ! a)" "stack_ok (Card N TR) (stk, on)"
  shows "\<exists>stk' on' need'. getUpSet_from T junk h a i (stk, on, need) = Some (stk', on', need') \<and>
    stack_ok (Card N TR) (stk', on') \<and> set stk \<subseteq> set stk' \<and>
    (kind (h ! a) = Disjunction \<longrightarrow> need \<longrightarrow> need') \<and>
    (\<forall>w M'. firing_sequence N (marking_of (Current ns)) w M' \<and>
       (if kind (h ! a) = Disjunction then \<exists>j. i \<le> j \<and> j < length (sub (h ! a)) \<and> sp_holds N h (vec_of N M') (sub (h ! a) ! j)
        else sp_holds N h (vec_of N M') a) \<longrightarrow>
       need' \<and> dead_at N M' \<or> hit N (marking_of (Current ns)) w M' (set stk'))"
  using assms(8-10)
proof (induction "M - rk a" arbitrary: a i stk on need rule: less_induct)
  case outer: less
  have H: "heap_ok h" "same_tree h0 h" "\<And>x. x < length h0 \<Longrightarrow> \<not> is_inner (h0 ! x) \<Longrightarrow> leaf_ok ns h x"
    using step by (auto simp: in_step_def)
  have L: "links_ok h" using H(1) by (simp add: heap_ok_def)
  note K = same_treeD(1,2) [OF H(2)] same_tree_inner [OF H(2)]
  have member: "sub (h ! a) ! j < length h \<and> M - rk (sub (h ! a) ! j) < M - rk a \<and>
      (sp_value (h ! (sub (h ! a) ! j)) \<longleftrightarrow> j < cardSat (h ! a))"
    if "a < length h" "is_inner (h ! a)" "j < length (sub (h ! a))" for a j
  proof -
    note S = links_ok_sub [OF L that]
    have "node_ok h a" using H(1) that by (simp add: heap_ok_def)
    moreover have "rk a < rk (sub (h ! a) ! j)" using ranked_neq [OF rk S(1,2)] by simp
    ultimately show ?thesis
      using S(1) M that(3) by (auto simp: node_ok_def)
  qed
  show ?case using outer.prems
  proof (induction "length (sub (h ! a)) - i" arbitrary: i stk on need rule: less_induct)
    case inner: less
    have al: "a < length h" by (rule inner.prems(1))
    consider (conj) "kind (h ! a) = Conjunction" | (disj) "kind (h ! a) = Disjunction" | (leaf) "\<not> is_inner (h ! a)"
      by (auto simp: is_inner_def)
    then show ?case
    proof cases
      case leaf
      have x: "a < length h0" "\<not> is_inner (h0 ! a)" using al K leaf by simp_all
      obtain stk' on' need' where r: "leaf_up_set T (h ! a) (stk, on, need) = (stk', on', need')" by (metis surj_pair)
      have v: "\<not> leaf_value ns (h ! a)" using H(3) [OF x] inner.prems(2) by (simp add: leaf_ok_def)
      have k: "kind_ok N (kind (h ! a))" using ok x K by simp
      have u: "is_atomic (kind (h ! a)) \<Longrightarrow> up (h ! a) = filter (\<lambda>t. atomic_delta T t (kind (h ! a)) <s 0) [0..<Card N TR]"
        using up al by (simp add: atom_ups_def)
      have f: "- (2 ^ 30) \<le> int_sum pos neg m \<and> int_sum pos neg m < 2 ^ 30"
        if "kind (h ! a) = Atomic pos neg thr" "reach_vec m" for m pos neg thr
        using fit [unfolded sums_fit_def, rule_format, of m a pos neg thr] that x(1) K by simp
      note LS = leaf_up_set_spec [OF g v leaf k u f inner.prems(3) r]
      have "getUpSet_from T junk h a i (stk, on, need) = Some (stk', on', need')"
        using leaf r by (subst getUpSet_from.simps) (simp add: is_inner_def)
      moreover have "kind (h ! a) \<noteq> Disjunction" using leaf by (simp add: is_inner_def)
      ultimately show ?thesis using LS by auto
    next
      case conj
      have ic: "is_inner (h ! a)" using conj by (simp add: is_inner_def)
      have "node_ok h a" using H(1) al ic by (simp add: heap_ok_def)
      then have c: "cardSat (h ! a) < length (sub (h ! a))"
        using inner.prems(2) conj by (simp add: node_ok_def truth_of_def)
      let ?c = "sub (h ! a) ! cardSat (h ! a)"
      note m = member [OF al ic c]
      from outer.hyps [of ?c stk on 0 need] m inner.prems(3)
      obtain stk' on' need' where r: "getUpSet_from T junk h ?c 0 (stk, on, need) = Some (stk', on', need')"
        "stack_ok (Card N TR) (stk', on')" "set stk \<subseteq> set stk'"
        "\<forall>w M'. firing_sequence N (marking_of (Current ns)) w M' \<and>
          (if kind (h ! ?c) = Disjunction then \<exists>j. 0 \<le> j \<and> j < length (sub (h ! ?c)) \<and> sp_holds N h (vec_of N M') (sub (h ! ?c) ! j)
           else sp_holds N h (vec_of N M') ?c) \<longrightarrow> need' \<and> dead_at N M' \<or> hit N (marking_of (Current ns)) w M' (set stk')"
        by auto
      have "need' \<and> dead_at N M' \<or> hit N (marking_of (Current ns)) w M' (set stk')"
        if w: "firing_sequence N (marking_of (Current ns)) w M'" "sp_holds N h (vec_of N M') a" for w M'
      proof -
        have hc: "sp_holds N h (vec_of N M') ?c" using w(2) conj c by (auto simp: sp_holds_simps [of N h _ a])
        then have "if kind (h ! ?c) = Disjunction then \<exists>j. 0 \<le> j \<and> j < length (sub (h ! ?c)) \<and> sp_holds N h (vec_of N M') (sub (h ! ?c) ! j)
           else sp_holds N h (vec_of N M') ?c"
          by (auto simp: sp_holds_simps [of N h _ ?c] in_set_conv_nth)
        then show ?thesis using r(4) w(1) by blast
      qed
      moreover have "getUpSet_from T junk h a i (stk, on, need) = Some (stk', on', need')"
        using conj c r(1) by (subst getUpSet_from.simps) simp
      ultimately show ?thesis using r(2,3) conj by auto
    next
      case disj
      have ic: "is_inner (h ! a)" using disj by (simp add: is_inner_def)
      show ?thesis
      proof (cases "i < length (sub (h ! a))")
        case False
        then have "getUpSet_from T junk h a i (stk, on, need) = Some (stk, on, need)"
          using disj by (subst getUpSet_from.simps) simp
        then show ?thesis using inner.prems(3) False disj by auto
      next
        case True
        let ?c = "sub (h ! a) ! i"
        have "node_ok h a" using H(1) al ic by (simp add: heap_ok_def)
        then have "cardSat (h ! a) = 0" using inner.prems(2) disj by (simp add: node_ok_def truth_of_def)
        then have m: "?c < length h" "M - rk ?c < M - rk a" "\<not> sp_value (h ! ?c)" using member [OF al ic True] by auto
        from outer.hyps [OF m(2,1,3) inner.prems(3), of 0 "junk a i"]
        obtain s1 o1 n1 where r1: "getUpSet_from T junk h ?c 0 (stk, on, junk a i) = Some (s1, o1, n1)"
          "stack_ok (Card N TR) (s1, o1)" "set stk \<subseteq> set s1"
          "\<forall>w M'. firing_sequence N (marking_of (Current ns)) w M' \<and>
            (if kind (h ! ?c) = Disjunction then \<exists>j. 0 \<le> j \<and> j < length (sub (h ! ?c)) \<and> sp_holds N h (vec_of N M') (sub (h ! ?c) ! j)
             else sp_holds N h (vec_of N M') ?c) \<longrightarrow> n1 \<and> dead_at N M' \<or> hit N (marking_of (Current ns)) w M' (set s1)"
          by auto
        have lt: "length (sub (h ! a)) - (i + 1) < length (sub (h ! a)) - i" using True by simp
        from inner.hyps [OF lt al inner.prems(2) r1(2), of "need \<or> n1"]
        obtain s2 o2 n2 where r2: "getUpSet_from T junk h a (i + 1) (s1, o1, need \<or> n1) = Some (s2, o2, n2)"
          "stack_ok (Card N TR) (s2, o2)" "set s1 \<subseteq> set s2" "need \<or> n1 \<longrightarrow> n2"
          "\<forall>w M'. firing_sequence N (marking_of (Current ns)) w M' \<and>
            (\<exists>j. i + 1 \<le> j \<and> j < length (sub (h ! a)) \<and> sp_holds N h (vec_of N M') (sub (h ! a) ! j)) \<longrightarrow>
            n2 \<and> dead_at N M' \<or> hit N (marking_of (Current ns)) w M' (set s2)"
          using disj by auto
        have "n2 \<and> dead_at N M' \<or> hit N (marking_of (Current ns)) w M' (set s2)"
          if w: "firing_sequence N (marking_of (Current ns)) w M'" "i \<le> j" "j < length (sub (h ! a))"
            "sp_holds N h (vec_of N M') (sub (h ! a) ! j)" for w M' j
        proof (cases "j = i")
          case True
          then have "if kind (h ! ?c) = Disjunction then \<exists>j. 0 \<le> j \<and> j < length (sub (h ! ?c)) \<and> sp_holds N h (vec_of N M') (sub (h ! ?c) ! j)
             else sp_holds N h (vec_of N M') ?c"
            using w(4) by (auto simp: sp_holds_simps [of N h _ ?c] in_set_conv_nth)
          then have "n1 \<and> dead_at N M' \<or> hit N (marking_of (Current ns)) w M' (set s1)" using r1(4) w(1) by blast
          then show ?thesis using r2(3,4) hit_mono by blast
        next
          case False
          then have "i + 1 \<le> j" using w(2) by simp
          then show ?thesis using r2(5) w by blast
        qed
        moreover have "getUpSet_from T junk h a i (stk, on, need) = Some (s2, o2, n2)"
          using disj True r1(1) r2(1) by (subst getUpSet_from.simps) simp
        ultimately show ?thesis using r1(3) r2(2-4) disj by auto
      qed
    qed
  qed
qed

end

text \<open>The up sets that the constructor of the property object stores in the atoms.\<close>

definition ups_ok :: "net \<Rightarrow> transition_data \<Rightarrow> sp_heap \<Rightarrow> bool" where
  "ups_ok N T h \<longleftrightarrow> (\<forall>a < length h. is_atomic (kind (h ! a)) \<longrightarrow>
     up (h ! a) = filter (\<lambda>t. atomic_delta T t (kind (h ! a)) <s 0) [0..<Card N TR])"

lemma ups_constructed:
  assumes "formula_ok N h r" "StatePredicateProperty N T r h = Some (P, h0)"
  shows "ups_ok N T h0" "sums_fit N h M0 \<Longrightarrow> sums_fit N h0 M0"
proof -
  have C: "up_only h h0" "\<And>a. a < length h \<Longrightarrow> is_atomic (kind (h ! a)) \<Longrightarrow>
       up (h0 ! a) = filter (\<lambda>t. atomic_delta T t (kind (h ! a)) <s 0) [0..<Card N TR]"
    using constructor_correct [OF assms(1), of T] assms(2) by auto
  note U = up_only_fields [OF C(1)]
  show "ups_ok N T h0" unfolding ups_ok_def using U C(2) by simp
  show "sums_fit N h M0 \<Longrightarrow> sums_fit N h0 M0" using U unfolding sums_fit_def by metis
qed

text \<open>The up set of a formula the property object keeps in step.\<close>

lemma up_set_in_step:
  assumes set: "sp_setting N T H M0 P h0" and ups: "ups_ok N T h0" and fit: "sums_fit N h0 M0"
    and g: "good_state N H M0 ns" and step: "in_step h0 ns d" and false: "\<not> sp_holds N h0 (Current ns) (predicate P)"
  shows "\<exists>stk on need. getUpSet T junk d (predicate P) ([], replicate (Card N TR) False, False) = Some (stk, on, need) \<and>
    stack_ok (Card N TR) (stk, on) \<and>
    (\<forall>w M'. firing_sequence N (marking_of (Current ns)) w M' \<and> sp_holds N h0 (vec_of N M') (predicate P) \<longrightarrow>
       need \<and> dead_at N M' \<or> hit N (marking_of (Current ns)) w M' (set stk))"
proof -
  let ?r = "predicate P"
  have net: "net_setting N T H M0" using set by (simp add: sp_setting_def)
  have F: "formula_heap h0 ?r" "\<And>a. a < length h0 \<Longrightarrow> kind_ok N (kind (h0 ! a))"
    using set by (auto simp: sp_setting_def formula_ok_def)
  have D: "heap_ok d" "same_tree h0 d" using step by (auto simp: in_step_def)
  note T = same_treeD [OF D(2)]
  obtain rk where rk: "ranked rk d" using D(1) by (auto simp: heap_ok_def)
  have M: "\<forall>x < length d. rk x \<le> Max (rk ` {..< length d})" by simp
  have upd: "net_setting.atom_ups N T d"
    unfolding net_setting.atom_ups_def [OF net] using T ups by (simp add: ups_ok_def)
  have r: "?r < length h0" "links_ok h0" "links_ok d" using F(1) D(1) by (auto simp: formula_heap_def heap_ok_def)
  have hold: "sp_holds N d m ?r \<longleftrightarrow> sp_holds N h0 m ?r" for m
    using sp_holds_same_tree [OF D(2) r(2,3,1)] by simp
  have "\<not> sp_value (d ! ?r)" using in_step_value [OF set step g] false by simp
  moreover have "stack_ok (Card N TR) ([], replicate (Card N TR) False)" by (simp add: stack_ok_def)
  moreover have "?r < length d" using r(1) T(1) by simp
  ultimately obtain stk on need where g: "getUpSet_from T junk d ?r 0 ([], replicate (Card N TR) False, False) = Some (stk, on, need)"
    "stack_ok (Card N TR) (stk, on)"
    "\<forall>w M'. firing_sequence N (marking_of (Current ns)) w M' \<and>
       (if kind (d ! ?r) = Disjunction then \<exists>j. 0 \<le> j \<and> j < length (sub (d ! ?r)) \<and> sp_holds N d (vec_of N M') (sub (d ! ?r) ! j)
        else sp_holds N d (vec_of N M') ?r) \<longrightarrow> need \<and> dead_at N M' \<or> hit N (marking_of (Current ns)) w M' (set stk)"
    using net_setting.getUpSet_from_spec [OF net g step F(2) upd fit rk M, where need = False and i = 0 and junk = junk]
    by blast
  have "need \<and> dead_at N M' \<or> hit N (marking_of (Current ns)) w M' (set stk)"
    if w: "firing_sequence N (marking_of (Current ns)) w M'" "sp_holds N h0 (vec_of N M') ?r" for w M'
  proof -
    have "sp_holds N d (vec_of N M') ?r" using w(2) hold by simp
    then have "if kind (d ! ?r) = Disjunction then \<exists>j. 0 \<le> j \<and> j < length (sub (d ! ?r)) \<and> sp_holds N d (vec_of N M') (sub (d ! ?r) ! j)
        else sp_holds N d (vec_of N M') ?r"
      by (auto simp: sp_holds_simps [of N d _ ?r] in_set_conv_nth)
    then show ?thesis using g(3) w(1) by blast
  qed
  then show ?thesis using g(1,2) by (auto simp: getUpSet_def)
qed

lemma up_set_formula:
  assumes "search_ready N T H ns0" "formula_ok N h r" "StatePredicateProperty N T r h = Some (P, h0)"
    and "sums_fit N h (marking_of (Current ns0))"
    and "good_state N H (marking_of (Current ns0)) ns" "in_step h0 ns d" "\<not> sp_holds N h (Current ns) r"
  shows "\<exists>stk on need. getUpSet T junk d r ([], replicate (Card N TR) False, False) = Some (stk, on, need) \<and>
    distinct stk \<and> set stk \<subseteq> {..<Card N TR} \<and>
    (\<forall>w M'. firing_sequence N (marking_of (Current ns)) w M' \<and> sp_holds N h (vec_of N M') r \<longrightarrow>
       need \<and> dead_at N M' \<or> hit N (marking_of (Current ns)) w M' (set stk))"
proof -
  note S = sp_setting_constructed [OF assms(1-3)]
  have P: "predicate P = r" using constructor_correct [OF assms(2), of T] assms(3) by auto
  have set: "sp_setting N T H (marking_of (Current ns0)) P h0" using S(1) by (simp add: sp_pstart_def)
  note U = ups_constructed [OF assms(2,3)]
  have "\<not> sp_holds N h0 (Current ns) (predicate P)" using assms(7) S(2) by simp
  from up_set_in_step [OF set U(1) U(2) [OF assms(4)] assms(5,6) this, of junk] S(2) P
  show ?thesis by (auto simp: stack_ok_def)
qed

end
