(* ===== verification/Stubborn.thy ===== *)
theory Stubborn
  imports DeadlockSearch
begin

text \<open>
  What the stubborn set methods share: the scapegoats of \<open>src/Exploration/Firelist.cc\<close>, and stubborn
  sets on the level of the token game, with the argument why a reduced search still finds what it looks
  for.
\<close>

section \<open>Firelist::selectScapegoat\<close>

text \<open>The static members of \<open>Firelist\<close>.  The array holds 32 bits per place, the time stamp has 64.\<close>

record scapegoat_data =
  usedAsScapegoat :: "32 word list"
  timestampScapegoat :: "64 word"

text \<open>The loop over the pre places; the result tells whether it returned early, and the last candidate
  (\<open>None\<close> while the local variable is uninitialised).\<close>

fun scapegoat_loop ::
  "scapegoat_data \<Rightarrow> capacity_t list \<Rightarrow> (arrayindex_t \<times> mult_t) list \<Rightarrow> arrayindex_t option \<Rightarrow>
   bool \<times> arrayindex_t option" where
  "scapegoat_loop sg m [] s = (False, s)"
| "scapegoat_loop sg m ((p, w) # ps) s =
     (if m ! p < ucast w
      then (if ucast (usedAsScapegoat sg ! p) = timestampScapegoat sg then (True, Some p)
            else scapegoat_loop sg m ps (Some p))
      else scapegoat_loop sg m ps s)"

definition selectScapegoat ::
  "net \<Rightarrow> netstate \<Rightarrow> arrayindex_t \<Rightarrow> scapegoat_data \<Rightarrow> (arrayindex_t \<times> scapegoat_data) option" where
  "selectScapegoat N ns t sg =
     (case scapegoat_loop sg (Current ns) (Arcs N TR PRE ! t) None of
        (_, None) \<Rightarrow> None
      | (True, Some p) \<Rightarrow> Some (p, sg)
      | (False, Some p) \<Rightarrow>
          Some (p, sg\<lparr>usedAsScapegoat := (usedAsScapegoat sg)[p := ucast (timestampScapegoat sg)]\<rparr>))"

definition scapegoatNewRound :: "net \<Rightarrow> scapegoat_data \<Rightarrow> scapegoat_data" where
  "scapegoatNewRound N sg =
     (if timestampScapegoat sg = - 1
      then sg\<lparr>timestampScapegoat := 1,
              usedAsScapegoat := map (\<lambda>i. if i < Card N PL then 0 else usedAsScapegoat sg ! i) [0..<length (usedAsScapegoat sg)]\<rparr>
      else sg\<lparr>timestampScapegoat := timestampScapegoat sg + 1\<rparr>)"

lemma scapegoat_loop_some:
  "scapegoat_loop sg m ps s = (b, r) \<Longrightarrow>
   (r = s \<and> (\<forall>(p, w) \<in> set ps. \<not> m ! p < ucast w)) \<or> (\<exists>p w. r = Some p \<and> (p, w) \<in> set ps \<and> m ! p < ucast w)"
proof (induction sg m ps s rule: scapegoat_loop.induct)
  case (2 sg m p w ps s)
  show ?case
  proof (cases "m ! p < ucast w")
    case True
    show ?thesis
    proof (cases "ucast (usedAsScapegoat sg ! p) = timestampScapegoat sg")
      case used: True
      then show ?thesis using True 2(3) by auto
    next
      case False
      then show ?thesis using True 2(3) 2(1) [OF True False] by auto
    qed
  next
    case False
    then show ?thesis using 2(3) 2(2) [OF False] by auto
  qed
qed simp

text \<open>A disabled transition has a scapegoat: an insufficiently marked pre place, whatever the round.\<close>

lemma selectScapegoat_disabled:
  assumes "\<not> has_tokens (Current ns) (Arcs N TR PRE ! t)"
  shows "\<exists>p sg' w. selectScapegoat N ns t sg = Some (p, sg') \<and> (p, w) \<in> set (Arcs N TR PRE ! t) \<and>
    Current ns ! p < ucast w"
proof -
  obtain p0 w0 where p0: "(p0, w0) \<in> set (Arcs N TR PRE ! t)" "\<not> unat w0 \<le> unat (Current ns ! p0)"
    using assms by (auto simp: has_tokens_iff)
  then have lt: "Current ns ! p0 < ucast w0" by (simp add: word_less_nat_alt unsigned_ucast_eq take_bit_nat_eq_self)
  obtain b r where loop: "scapegoat_loop sg (Current ns) (Arcs N TR PRE ! t) None = (b, r)" by fastforce
  obtain p w where "r = Some p" "(p, w) \<in> set (Arcs N TR PRE ! t)" "Current ns ! p < ucast w"
    using scapegoat_loop_some [OF loop] p0(1) lt by blast
  then show ?thesis using loop by (cases b) (auto simp: selectScapegoat_def)
qed

section \<open>Stubborn sets of a marking\<close>

text \<open>Closed under the relation "must be included".\<close>

definition stubborn :: "net \<Rightarrow> marking \<Rightarrow> arrayindex_t set \<Rightarrow> bool" where
  "stubborn N M S \<longleftrightarrow> (\<forall>t \<in> S. t < Card N TR \<and>
     (if enabled_at N M t
      then \<forall>u < Card N TR. (\<exists>p. 0 < weight N PRE t p \<and> 0 < weight N PRE u p) \<longrightarrow> u \<in> S
      else \<exists>p. M p < weight N PRE t p \<and> (\<forall>u < Card N TR. 0 < weight N POST u p \<longrightarrow> u \<in> S)))"

lemma stubborn_conflict:
  "stubborn N M S \<Longrightarrow> t \<in> S \<Longrightarrow> enabled_at N M t \<Longrightarrow> u < Card N TR \<Longrightarrow> u \<notin> S \<Longrightarrow>
   0 < weight N PRE t p \<Longrightarrow> weight N PRE u p = 0"
  unfolding stubborn_def using gr_zeroI by metis

text \<open>Transitions without a common pre place do not disable each other and commute.\<close>

lemma commute_step:
  assumes "enabled_at N M t" "enabled_at N M u" "\<And>p. 0 < weight N PRE t p \<Longrightarrow> weight N PRE u p = 0"
  shows "enabled_at N (fire_at N u M) t" "enabled_at N (fire_at N t M) u"
    "fire_at N u (fire_at N t M) = fire_at N t (fire_at N u M)"
proof -
  have d: "weight N PRE t p = 0 \<or> weight N PRE u p = 0" for p
    by (cases "weight N PRE t p = 0") (use assms(3) [of p] in auto)
  have e: "weight N PRE t p \<le> M p" "weight N PRE u p \<le> M p" for p using assms(1,2) by (auto simp: enabled_at_def)
  have "weight N PRE t p \<le> fire_at N u M p" "weight N PRE u p \<le> fire_at N t M p" for p
    using d [of p] e [of p] by (auto simp: fire_at_def)
  then show "enabled_at N (fire_at N u M) t" "enabled_at N (fire_at N t M) u" by (simp_all add: enabled_at_def)
  show "fire_at N u (fire_at N t M) = fire_at N t (fire_at N u M)"
  proof
    fix p
    show "fire_at N u (fire_at N t M) p = fire_at N t (fire_at N u M) p"
      using d [of p] e(1,2) [of p] by (auto simp: fire_at_def)
  qed
qed

lemma commute_sequence:
  assumes "firing_sequence N M w M'" "enabled_at N M t" "t < Card N TR"
    and "\<And>u p. u \<in> set w \<Longrightarrow> 0 < weight N PRE t p \<Longrightarrow> weight N PRE u p = 0"
  shows "enabled_at N M' t" "firing_sequence N (fire_at N t M) w (fire_at N t M')"
proof -
  have "enabled_at N M' t \<and> firing_sequence N (fire_at N t M) w (fire_at N t M')"
    using assms
  proof (induction w arbitrary: M)
    case (Cons u w)
    note c = commute_step [of N M t u]
    have "enabled_at N M u" "firing_sequence N (fire_at N u M) w M'" "u < Card N TR" using Cons.prems(1) by auto
    then show ?case using Cons.IH [of "fire_at N u M"] Cons.prems(2-4) c by auto
  qed simp
  then show "enabled_at N M' t" "firing_sequence N (fire_at N t M) w (fire_at N t M')" by auto
qed

text \<open>No tokens arrive on a place none of whose pre transitions fires.\<close>

lemma no_gain:
  "firing_sequence N M w M' \<Longrightarrow> (\<And>u. u \<in> set w \<Longrightarrow> weight N POST u p = 0) \<Longrightarrow> M' p \<le> M p"
proof (induction w arbitrary: M)
  case (Cons u w)
  then have "M' p \<le> fire_at N u M p" by auto
  then show ?case using Cons.prems(2) [of u] by (simp add: fire_at_def)
qed simp

lemma stubborn_disabled:
  assumes "stubborn N M S" "t \<in> S" "\<not> enabled_at N M t" "firing_sequence N M w M'" "set w \<inter> S = {}"
  shows "\<not> enabled_at N M' t"
proof -
  obtain p where p: "M p < weight N PRE t p" "\<And>u. u < Card N TR \<Longrightarrow> 0 < weight N POST u p \<Longrightarrow> u \<in> S"
    using assms(1-3) unfolding stubborn_def by metis
  have "weight N POST u p = 0" if "u \<in> set w" for u
  proof -
    have "u < Card N TR" using assms(4) that by (induction w arbitrary: M) auto
    then show ?thesis using p(2) assms(5) that gr_zeroI by blast
  qed
  then have "M' p \<le> M p" by (rule no_gain [OF assms(4)])
  then show ?thesis using p(1) by (auto simp: enabled_at_def not_le intro!: exI [of _ p])
qed

lemma stubborn_enabled:
  assumes "stubborn N M S" "t \<in> S" "enabled_at N M t" "firing_sequence N M w M'" "set w \<inter> S = {}"
  shows "enabled_at N M' t" "firing_sequence N (fire_at N t M) w (fire_at N t M')"
proof -
  have t: "t < Card N TR" using assms(1,2) by (simp add: stubborn_def)
  have u: "u < Card N TR" if "u \<in> set w" for u using assms(4) that by (induction w arbitrary: M) auto
  have "weight N PRE u p = 0" if "u \<in> set w" "0 < weight N PRE t p" for u p
    using stubborn_conflict [OF assms(1-3) u [OF that(1)] _ that(2)] assms(5) that(1) by blast
  then show "enabled_at N M' t" "firing_sequence N (fire_at N t M) w (fire_at N t M')"
    using commute_sequence [OF assms(4,3) t] by blast+
qed

text \<open>The first member of the set in a firing sequence can be moved to the front.\<close>

lemma stubborn_first:
  assumes "stubborn N M S" "firing_sequence N M w M'" "set w \<inter> S \<noteq> {}"
  shows "\<exists>t v. t \<in> S \<and> t < Card N TR \<and> enabled_at N M t \<and> length v < length w \<and>
    firing_sequence N (fire_at N t M) v M'"
proof -
  obtain w1 t w2 where w: "w = w1 @ t # w2" "t \<in> S" "\<forall>u \<in> set w1. u \<notin> S"
    using assms(3) split_list_first_prop [of w "\<lambda>t. t \<in> S"] by blast
  then obtain M1 where M1: "firing_sequence N M w1 M1" "t < Card N TR" "enabled_at N M1 t"
    "firing_sequence N (fire_at N t M1) w2 M'" using assms(2) by (auto simp: firing_sequence_append)
  have d: "set w1 \<inter> S = {}" using w(3) by blast
  have e: "enabled_at N M t" using stubborn_disabled [OF assms(1) w(2) _ M1(1) d] M1(3) by blast
  have "firing_sequence N (fire_at N t M) (w1 @ w2) M'"
    using stubborn_enabled(2) [OF assms(1) w(2) e M1(1) d] M1(4) by (auto simp: firing_sequence_append)
  then show ?thesis using w M1(2) e by (intro exI [of _ t] exI [of _ "w1 @ w2"]) auto
qed

text \<open>A set with an enabled transition is hit by every sequence to a deadlock.\<close>

lemma stubborn_deadlock:
  assumes "stubborn N M S" "t \<in> S" "enabled_at N M t" "firing_sequence N M w M'" "dead_at N M'"
  shows "set w \<inter> S \<noteq> {}"
proof
  assume "set w \<inter> S = {}"
  then have "enabled_at N M' t" by (rule stubborn_enabled [OF assms(1-4)])
  then show False using assms(1,2,5) by (auto simp: stubborn_def dead_at_def)
qed

section \<open>The fire list\<close>

text \<open>\<open>F\<close> are the enabled transitions of a stubborn set that contains one.\<close>

definition deadlock_stubborn :: "net \<Rightarrow> capacity_t list \<Rightarrow> arrayindex_t set \<Rightarrow> bool" where
  "deadlock_stubborn N m F \<longleftrightarrow>
     (\<exists>S. stubborn N (marking_of m) S \<and> F = {t \<in> S. enabled_at N (marking_of m) t}) \<and> F \<noteq> {}"

context net_setting
begin

lemma deadlock_stubborn_preserving:
  "preserving N M0 (dead_vec N) (deadlock_stubborn N) (dead_at N)"
  unfolding preserving_def
proof (intro allI impI, elim conjE)
  fix m F w M'
  assume "deadlock_stubborn N m F" and w: "firing_sequence N (marking_of m) w M'" "dead_at N M'"
  then obtain S t where S: "stubborn N (marking_of m) S" "F = {t \<in> S. enabled_at N (marking_of m) t}"
    "t \<in> S" "enabled_at N (marking_of m) t" by (auto simp: deadlock_stubborn_def)
  from stubborn_first [OF S(1) w(1) stubborn_deadlock [OF S(1,3,4) w]] S(2) w(2)
  show "\<exists>t \<in> F. \<exists>v M''. t < Card N TR \<and> enabled_at N (marking_of m) t \<and> length v < length w \<and>
      firing_sequence N (fire_at N t (marking_of m)) v M'' \<and> dead_at N M''" by blast
qed

end

end
