(* ===== verification/StubbornDeadlock.thy ===== *)
theory StubbornDeadlock
  imports Stubborn "HOL-Library.Monad_Syntax"
begin

text \<open>
  \<open>src/Exploration/FirelistStubbornDeadlock.cc\<close>: deadlock preserving stubborn sets.  A depth first
  search with Tarjan's low links runs through the relation "must be included" from an enabled
  transition and stops at the first component that contains enabled transitions.  Assertions that fail
  are the result \<open>None\<close>.
\<close>

section \<open>The object\<close>

text \<open>
  The members of the class and the locals of \<open>getFirelist\<close>.  A cell of \<open>dfsStack\<close> holds the
  transition with its cells of \<open>mustBeIncluded\<close> and \<open>currentIndex\<close>; both stacks have their top first.
\<close>

record dl_data =
  dfsStack :: "(arrayindex_t \<times> arrayindex_t list \<times> arrayindex_t) list"
  TarjanStack :: "arrayindex_t list"
  dfs :: "arrayindex_t list"
  lowlink :: "arrayindex_t list"
  visited :: "32 word list"
  onTarjanStack :: "32 word list"
  stamp :: "32 word"
  nextDfs :: arrayindex_t
  dfsLastEnabled :: arrayindex_t
  scapegoats :: scapegoat_data

definition newStamp :: "net \<Rightarrow> dl_data \<Rightarrow> dl_data" where
  "newStamp N d =
     (let s = stamp d + 1
      in if s = 0xFFFFFFFF
         then d\<lparr>visited := map (\<lambda>i. if i < Card N TR then 0 else visited d ! i) [0..<length (visited d)],
                onTarjanStack := map (\<lambda>i. if i < Card N TR then 0 else onTarjanStack d ! i) [0..<length (onTarjanStack d)],
                stamp := 1\<rparr>
         else d\<lparr>stamp := s\<rparr>)"

section \<open>getFirelist\<close>

text \<open>A transition not yet seen is put on both stacks.\<close>

definition discover :: "net \<Rightarrow> transition_data \<Rightarrow> netstate \<Rightarrow> arrayindex_t \<Rightarrow> dl_data \<Rightarrow> dl_data option" where
  "discover N T ns new d =
     (let d1 = d\<lparr>dfs := (dfs d)[new := nextDfs d], lowlink := (lowlink d)[new := nextDfs d], nextDfs := nextDfs d + 1,
                 visited := (visited d)[new := stamp d], onTarjanStack := (onTarjanStack d)[new := stamp d],
                 TarjanStack := new # TarjanStack d\<rparr>
      in if Enabled ns ! new
         then Some (d1\<lparr>dfsStack := (new, Conflicting T ! new, length (Conflicting T ! new)) # dfsStack d,
                       dfsLastEnabled := nextDfs d1 - 1\<rparr>)
         else do {
           r \<leftarrow> selectScapegoat N ns new (scapegoats d);
           Some (d1\<lparr>dfsStack := (new, Arc N PL PRE (fst r), CardArcs N PL PRE (fst r)) # dfsStack d,
                    scapegoats := snd r\<rparr>)
         })"

text \<open>The edge from \<open>cur\<close> to a transition that was seen before.\<close>

definition see_again :: "arrayindex_t \<Rightarrow> arrayindex_t \<Rightarrow> dl_data \<Rightarrow> dl_data" where
  "see_again cur new d =
     (if onTarjanStack d ! new = stamp d \<and> dfs d ! new < lowlink d ! cur
      then d\<lparr>lowlink := (lowlink d)[cur := dfs d ! new]\<rparr> else d)"

text \<open>The enabled transitions on top of \<open>TarjanStack\<close> down to \<open>cur\<close>, written from the end of the array.\<close>

definition component_firelist :: "netstate \<Rightarrow> arrayindex_t \<Rightarrow> arrayindex_t list \<Rightarrow> arrayindex_t list" where
  "component_firelist ns cur ts = rev (filter (\<lambda>t. Enabled ns ! t) (takeWhile (\<lambda>t. t \<noteq> cur) ts @ [cur]))"

definition finish :: "netstate \<Rightarrow> arrayindex_t \<Rightarrow> dl_data \<Rightarrow> (arrayindex_t list option \<times> dl_data) option" where
  "finish ns cur d =
     (if dfs d ! cur = lowlink d ! cur
      then (if dfs d ! cur \<le> dfsLastEnabled d
            then (let fl = component_firelist ns cur (TarjanStack d)
                  in if 0 < length fl \<and> length fl \<le> CardEnabled ns then Some (Some fl, d) else None)
            else (case tl (dfsStack d) of
                    [] \<Rightarrow> None
                  | (par, _, _) # _ \<Rightarrow>
                      if lowlink d ! par \<le> lowlink d ! cur
                      then Some (None, d\<lparr>TarjanStack := tl (dropWhile (\<lambda>t. t \<noteq> cur) (TarjanStack d)),
                                         dfsStack := tl (dfsStack d)\<rparr>)
                      else None))
      else (case tl (dfsStack d) of
              [] \<Rightarrow> None
            | (par, _, _) # _ \<Rightarrow>
                Some (None, d\<lparr>dfsStack := tl (dfsStack d),
                              lowlink := (if lowlink d ! cur < lowlink d ! par
                                          then (lowlink d)[par := lowlink d ! cur] else lowlink d)\<rparr>)))"

definition tarjan_step ::
  "net \<Rightarrow> transition_data \<Rightarrow> netstate \<Rightarrow> dl_data \<Rightarrow> (arrayindex_t list option \<times> dl_data) option" where
  "tarjan_step N T ns d =
     (case dfsStack d of
        [] \<Rightarrow> None
      | (cur, must, i) # fs \<Rightarrow>
          if 0 < i
          then (let new = must ! (i - 1); d1 = d\<lparr>dfsStack := (cur, must, i - 1) # fs\<rparr>
                in if visited d1 ! new = stamp d1 then Some (None, see_again cur new d1)
                   else map_option (\<lambda>d2. (None, d2)) (discover N T ns new d1))
          else finish ns cur d)"

partial_function (option) tarjan_loop ::
  "net \<Rightarrow> transition_data \<Rightarrow> netstate \<Rightarrow> dl_data \<Rightarrow> (arrayindex_t list \<times> dl_data) option" where
  "tarjan_loop N T ns d =
     do {
       r \<leftarrow> tarjan_step N T ns d;
       (case fst r of Some fl \<Rightarrow> Some (fl, snd r) | None \<Rightarrow> tarjan_loop N T ns (snd r))
     }"

text \<open>\<open>priority\<close> is \<open>Transition::StubbornPriority\<close>, \<open>singles\<close> is \<open>Transition::SingletonClusters\<close>.\<close>

definition first_enabled :: "net \<Rightarrow> arrayindex_t list \<Rightarrow> netstate \<Rightarrow> arrayindex_t" where
  "first_enabled N priority ns = length (takeWhile (\<lambda>i. \<not> Enabled ns ! (priority ! i)) [0..<Card N TR])"

definition tarjan_start :: "net \<Rightarrow> transition_data \<Rightarrow> arrayindex_t \<Rightarrow> dl_data \<Rightarrow> dl_data" where
  "tarjan_start N T t d =
     (let d1 = newStamp N d
      in d1\<lparr>scapegoats := scapegoatNewRound N (scapegoats d1), dfs := (dfs d1)[t := 0], lowlink := (lowlink d1)[t := 0],
            dfsStack := [(t, Conflicting T ! t, length (Conflicting T ! t))], TarjanStack := [t],
            visited := (visited d1)[t := stamp d1], onTarjanStack := (onTarjanStack d1)[t := stamp d1],
            nextDfs := 1, dfsLastEnabled := 0\<rparr>)"

definition dl_getFirelist ::
  "net \<Rightarrow> transition_data \<Rightarrow> arrayindex_t list \<Rightarrow> arrayindex_t \<Rightarrow> netstate \<Rightarrow> dl_data \<Rightarrow>
   (arrayindex_t list \<times> dl_data) option" where
  "dl_getFirelist N T priority singles ns d =
     (if CardEnabled ns = 0 then None
      else let first = first_enabled N priority ns
           in if first < singles then Some ([priority ! first], d)
              else tarjan_loop N T ns (tarjan_start N T (priority ! first) d))"

section \<open>The relation "must be included"\<close>

definition must_ok :: "net \<Rightarrow> transition_data \<Rightarrow> netstate \<Rightarrow> arrayindex_t \<Rightarrow> arrayindex_t list \<Rightarrow> bool" where
  "must_ok N T ns t ms \<longleftrightarrow> t < Card N TR \<and> (\<forall>u \<in> set ms. u < Card N TR) \<and>
     (if Enabled ns ! t then ms = Conflicting T ! t
      else \<exists>p w. (p, w) \<in> set (Arcs N TR PRE ! t) \<and> Current ns ! p < ucast w \<and> ms = Arc N PL PRE p)"

context net_setting
begin

lemma must_enabled: "t < Card N TR \<Longrightarrow> Enabled ns ! t \<Longrightarrow> must_ok N T ns t (Conflicting T ! t)"
  using conflicts_ok_range(1) [OF conflicts wf] by (simp add: must_ok_def)

lemma must_disabled:
  assumes "good ns" "t < Card N TR" "\<not> Enabled ns ! t"
  shows "\<exists>p sg'. selectScapegoat N ns t sg = Some (p, sg') \<and> must_ok N T ns t (Arc N PL PRE p)"
proof -
  have "\<not> has_tokens (Current ns) (Arcs N TR PRE ! t)"
    using assms good_parts(1) enabled_ok_flag by blast
  from selectScapegoat_disabled [of ns, OF this] obtain p sg' w where
    p: "selectScapegoat N ns t sg = Some (p, sg')" "(p, w) \<in> set (Arcs N TR PRE ! t)" "Current ns ! p < ucast w"
    by blast
  have "p < Card N PL" using wf_net_arc(1) [OF wf assms(2) p(2)] by simp
  then have "\<forall>u \<in> set (Arc N PL PRE p). u < Card N TR" using wf_net_Arc_less [OF wf] by force
  then show ?thesis using p assms by (auto simp: must_ok_def)
qed

text \<open>A set closed under some choice of scapegoats is stubborn.\<close>

lemma must_closed_stubborn:
  assumes g: "good ns" and S: "\<And>t. t \<in> S \<Longrightarrow> \<exists>ms. must_ok N T ns t ms \<and> set ms \<subseteq> S"
  shows "stubborn N (marking_of (Current ns)) S"
  unfolding stubborn_def
proof
  fix t
  assume t: "t \<in> S"
  let ?M = "marking_of (Current ns)"
  obtain ms where ms: "must_ok N T ns t ms" "set ms \<subseteq> S" using S [OF t] by blast
  then have lt: "t < Card N TR" by (simp add: must_ok_def)
  have "\<forall>u < Card N TR. (\<exists>p. 0 < weight N PRE t p \<and> 0 < weight N PRE u p) \<longrightarrow> u \<in> S" if e: "Enabled ns ! t"
  proof (intro allI impI, elim exE conjE)
    fix u p
    assume u: "u < Card N TR" "0 < weight N PRE t p" "0 < weight N PRE u p"
    have "u \<in> set (Conflicting T ! t)"
      using not_conflicting(1) [OF conflicts wf lt u(1) weight_pos_Arc [OF u(3)]] u(2) by auto
    then show "u \<in> S" using ms e by (auto simp: must_ok_def)
  qed
  moreover have "\<exists>p. ?M p < weight N PRE t p \<and> (\<forall>u < Card N TR. 0 < weight N POST u p \<longrightarrow> u \<in> S)"
    if e: "\<not> Enabled ns ! t"
  proof -
    obtain p w where p: "(p, w) \<in> set (Arcs N TR PRE ! t)" "Current ns ! p < ucast w" "ms = Arc N PL PRE p"
      using ms(1) e by (auto simp: must_ok_def)
    have pl: "p < Card N PL" using wf_net_arc(1) [OF wf lt p(1)] by simp
    have "weight N PRE t p = unat w"
      using wf_net_distinct [OF wf lt, of PRE] p(1) by (simp add: weight_def Arc_def weight_in_mem)
    moreover have "?M p = unat (Current ns ! p)"
      using good_parts(3) [OF g] pl by (simp add: marking_of_def reachable_vec_def)
    ultimately have "?M p < weight N PRE t p"
      using p(2) by (simp add: word_less_nat_alt unsigned_ucast_eq take_bit_nat_eq_self)
    moreover have "u \<in> S" if "u < Card N TR" "0 < weight N POST u p" for u
      using wf_net_Arc_dual [OF wf that(1) weight_pos_Arc [OF that(2)]] ms(2) p(3) by auto
    ultimately show ?thesis by blast
  qed
  ultimately show "t < Card N TR \<and> (if enabled_at N ?M t
      then \<forall>u < Card N TR. (\<exists>p. 0 < weight N PRE t p \<and> 0 < weight N PRE u p) \<longrightarrow> u \<in> S
      else \<exists>p. ?M p < weight N PRE t p \<and> (\<forall>u < Card N TR. 0 < weight N POST u p \<longrightarrow> u \<in> S))"
    using lt good_enabled [OF g lt] by auto
qed

end

end
