(* ===== verification/TarjanProof.thy ===== *)
theory TarjanProof
  imports StubbornDeadlock
begin

text \<open>
  Correctness of \<open>FirelistStubbornDeadlock::getFirelist\<close>: it returns, no assertion fails, and the fire
  list holds the enabled transitions of a stubborn set with at least one of them.  The invariant cuts
  \<open>TarjanStack\<close> into one segment per cell of \<open>dfsStack\<close>.
\<close>

section \<open>The invariant\<close>

text \<open>What is true of the object between two calls.\<close>

definition dl_ok :: "net \<Rightarrow> dl_data \<Rightarrow> bool" where
  "dl_ok N d \<longleftrightarrow> length (dfs d) = Card N TR \<and> length (lowlink d) = Card N TR \<and>
     length (visited d) = Card N TR \<and> length (onTarjanStack d) = Card N TR \<and> stamp d < 0xFFFFFFFF \<and>
     (\<forall>v < Card N TR. visited d ! v \<le> stamp d \<and> onTarjanStack d ! v \<le> stamp d)"

text \<open>The transitions seen in this call, and those that have left \<open>TarjanStack\<close>.\<close>

definition seen :: "net \<Rightarrow> dl_data \<Rightarrow> arrayindex_t set" where
  "seen N d = {v. v < Card N TR \<and> visited d ! v = stamp d}"

definition gone :: "net \<Rightarrow> dl_data \<Rightarrow> arrayindex_t set" where
  "gone N d = seen N d - set (TarjanStack d)"

definition stack_fine :: "net \<Rightarrow> dl_data \<Rightarrow> bool" where
  "stack_fine N d \<longleftrightarrow> set (TarjanStack d) \<subseteq> seen N d \<and> sorted_wrt (\<lambda>x y. dfs d ! y < dfs d ! x) (TarjanStack d) \<and>
     (\<forall>v \<in> seen N d. onTarjanStack d ! v = stamp d \<and> dfs d ! v < nextDfs d)"

definition last_fine :: "net \<Rightarrow> netstate \<Rightarrow> dl_data \<Rightarrow> bool" where
  "last_fine N ns d \<longleftrightarrow> (\<forall>v \<in> seen N d. Enabled ns ! v \<longrightarrow> dfs d ! v \<le> dfsLastEnabled d) \<and>
     (\<exists>v \<in> seen N d. Enabled ns ! v \<and> dfs d ! v = dfsLastEnabled d)"

text \<open>\<open>mst v\<close> is what had to be included for \<open>v\<close>.\<close>

definition gone_fine :: "net \<Rightarrow> netstate \<Rightarrow> (arrayindex_t \<Rightarrow> arrayindex_t list) \<Rightarrow> dl_data \<Rightarrow> bool" where
  "gone_fine N ns mst d \<longleftrightarrow> (\<forall>u \<in> gone N d. \<not> Enabled ns ! u \<and> set (mst u) \<subseteq> gone N d)"

text \<open>A cell and its segment: the edges processed so far lead to transitions that are gone, or not
  below the low link.\<close>

fun frame_fine ::
  "net \<Rightarrow> (arrayindex_t \<Rightarrow> arrayindex_t list) \<Rightarrow> dl_data \<Rightarrow>
   arrayindex_t \<times> arrayindex_t list \<times> arrayindex_t \<Rightarrow> arrayindex_t list \<Rightarrow> bool" where
  "frame_fine N mst d (c, ms, i) seg \<longleftrightarrow>
     mst c = ms \<and> i \<le> length ms \<and> seg \<noteq> [] \<and> last seg = c \<and> lowlink d ! c \<le> dfs d ! c \<and>
     (\<forall>u \<in> set seg. \<forall>w \<in> set (if u = c then drop i ms else mst u).
        w \<in> seen N d \<and> (w \<in> gone N d \<or> lowlink d ! c \<le> dfs d ! w))"

definition tarjan_inv ::
  "net \<Rightarrow> transition_data \<Rightarrow> netstate \<Rightarrow> (arrayindex_t \<Rightarrow> arrayindex_t list) \<Rightarrow> arrayindex_t list list \<Rightarrow> dl_data \<Rightarrow> bool" where
  "tarjan_inv N T ns mst segs d \<longleftrightarrow>
     dl_ok N d \<and> stack_fine N d \<and> last_fine N ns d \<and> gone_fine N ns mst d \<and>
     (\<forall>v \<in> seen N d. must_ok N T ns v (mst v)) \<and>
     TarjanStack d = concat segs \<and> list_all2 (frame_fine N mst d) (dfsStack d) segs \<and>
     dfsStack d \<noteq> [] \<and> dfs d ! fst (last (dfsStack d)) = 0"

lemma drop_pred: "0 < i \<Longrightarrow> i \<le> length ms \<Longrightarrow> drop (i - 1) ms = ms ! (i - 1) # drop i ms"
  using Cons_nth_drop_Suc [of "i - 1" ms] by simp

lemma frame_mono:
  assumes "frame_fine N mst d (c, ms, i) seg" "set seg \<subseteq> seen N d"
    and "\<And>u. u \<in> set seg \<Longrightarrow> mst' u = mst u" "seen N d \<subseteq> seen N d'" "gone N d \<subseteq> gone N d'"
    and "\<And>w. w \<in> seen N d \<Longrightarrow> dfs d' ! w = dfs d ! w" "lowlink d' ! c \<le> lowlink d ! c"
  shows "frame_fine N mst' d' (c, ms, i) seg"
proof -
  have c: "c \<in> set seg" using assms(1) by (auto intro: last_in_set)
  then have dc: "dfs d' ! c = dfs d ! c" "mst' c = mst c" using assms(2,3,6) by auto
  have "w \<in> seen N d' \<and> (w \<in> gone N d' \<or> lowlink d' ! c \<le> dfs d' ! w)"
    if "u \<in> set seg" "w \<in> set (if u = c then drop i ms else mst' u)" for u w
  proof -
    have "w \<in> seen N d \<and> (w \<in> gone N d \<or> lowlink d ! c \<le> dfs d ! w)"
      using assms(1) assms(3) [OF that(1)] that by (simp split: if_splits; blast)
    then show ?thesis using assms(4,5) assms(6) [of w] assms(7) by (auto dest: le_trans)
  qed
  then show ?thesis using assms(1,7) dc by simp
qed

lemma frames_mono:
  assumes "list_all2 (frame_fine N mst d) fs segs" "set (concat segs) \<subseteq> seen N d"
    and "\<And>u. u \<in> seen N d \<Longrightarrow> mst' u = mst u" "seen N d \<subseteq> seen N d'" "gone N d \<subseteq> gone N d'"
    and "\<And>w. w \<in> seen N d \<Longrightarrow> dfs d' ! w = dfs d ! w"
    and "\<And>c. c \<in> set (concat segs) \<Longrightarrow> lowlink d' ! c \<le> lowlink d ! c"
  shows "list_all2 (frame_fine N mst' d') fs segs"
  using assms(1,2,7)
proof (induction rule: list_all2_induct)
  case (Cons f fs seg segs)
  obtain c ms i where f: "f = (c, ms, i)" by (cases f)
  have c: "c \<in> set seg" using Cons.hyps(1) f by (auto intro: last_in_set)
  have seg: "set seg \<subseteq> seen N d" using Cons.prems(1) by simp
  have "frame_fine N mst' d' f seg"
    unfolding f by (rule frame_mono [OF Cons.hyps(1) [unfolded f] seg])
      (use assms(3-6) seg c Cons.prems(2) in auto)
  then show ?case using Cons by simp
qed simp

lemma frames_in_stack:
  "list_all2 (frame_fine N mst d) fs segs \<Longrightarrow> f \<in> set fs \<Longrightarrow> fst f \<in> set (concat segs)"
proof (induction rule: list_all2_induct)
  case (Cons g fs seg segs)
  obtain c ms i where g: "g = (c, ms, i)" by (cases g)
  have "c \<in> set seg" using Cons.hyps(1) g by (auto intro: last_in_set)
  then show ?case using Cons g by auto
qed simp

section \<open>One iteration\<close>

context net_setting
begin

text \<open>The top cell.\<close>

lemma tarjan_top:
  assumes "tarjan_inv N T ns mst segs d" "dfsStack d = (c, ms, i) # fs"
  shows "\<exists>seg segs'. segs = seg # segs' \<and> frame_fine N mst d (c, ms, i) seg \<and> list_all2 (frame_fine N mst d) fs segs' \<and>
    TarjanStack d = seg @ concat segs' \<and> c \<in> set seg \<and> c \<in> seen N d \<and> must_ok N T ns c ms"
proof -
  obtain seg segs' where s: "segs = seg # segs'" "frame_fine N mst d (c, ms, i) seg" "list_all2 (frame_fine N mst d) fs segs'"
    using assms unfolding tarjan_inv_def by (auto simp: list_all2_Cons1)
  have t: "TarjanStack d = seg @ concat segs'" using assms(1) s(1) by (simp add: tarjan_inv_def)
  have c: "c \<in> set seg" using s(2) by (auto intro: last_in_set)
  then have "c \<in> seen N d" using assms(1) t by (auto simp: tarjan_inv_def stack_fine_def)
  then show ?thesis using s t c assms(1) by (auto simp: tarjan_inv_def)
qed

text \<open>Taking an edge to a transition that was seen before.\<close>

lemma edge_seen:
  assumes inv: "tarjan_inv N T ns mst segs d" and st: "dfsStack d = (c, ms, i) # fs" "0 < i"
    and new: "new = ms ! (i - 1)" "new \<in> seen N d"
  shows "tarjan_inv N T ns mst segs (see_again c new (d\<lparr>dfsStack := (c, ms, i - 1) # fs\<rparr>))"
proof -
  let ?d1 = "d\<lparr>dfsStack := (c, ms, i - 1) # fs\<rparr>"
  let ?d' = "see_again c new ?d1"
  obtain seg segs' where s: "segs = seg # segs'" "frame_fine N mst d (c, ms, i) seg" "list_all2 (frame_fine N mst d) fs segs'"
    "TarjanStack d = seg @ concat segs'" "c \<in> set seg" "c \<in> seen N d" using tarjan_top [OF inv st(1)] by blast
  have I: "dl_ok N d" "stack_fine N d" "last_fine N ns d" "gone_fine N ns mst d" using inv by (auto simp: tarjan_inv_def)
  have c: "c < Card N TR" "length (lowlink d) = Card N TR" using s(6) I(1) by (auto simp: seen_def dl_ok_def)
  have same: "seen N ?d' = seen N d" "gone N ?d' = gone N d" "dfs ?d' = dfs d" "TarjanStack ?d' = TarjanStack d"
    "dfsStack ?d' = (c, ms, i - 1) # fs" "dl_ok N ?d' = dl_ok N d" "stack_fine N ?d' = stack_fine N d"
    "last_fine N ns ?d' = last_fine N ns d" "gone_fine N ns mst ?d' = gone_fine N ns mst d"
    by (auto simp: see_again_def seen_def gone_def dl_ok_def stack_fine_def last_fine_def gone_fine_def)
  have low: "lowlink ?d' ! x \<le> lowlink d ! x" for x
    using c by (auto simp: see_again_def nth_list_update)
  have reach: "new \<in> gone N d \<or> lowlink ?d' ! c \<le> dfs d ! new"
    using c new(2) I(2) by (auto simp: see_again_def gone_def stack_fine_def)
  have il: "i \<le> length ms" using s(2) by simp
  have dr: "drop (i - 1) ms = new # drop i ms"
    using drop_pred [OF st(2) il] new(1) by (simp only:)
  have f: "frame_fine N mst ?d' (c, ms, i) seg"
    by (rule frame_mono [OF s(2)]) (use same low I(2) s(4) in \<open>auto simp: stack_fine_def\<close>)
  have "frame_fine N mst ?d' (c, ms, i - 1) seg"
    using f reach new(2) same unfolding frame_fine.simps dr by auto
  moreover have "list_all2 (frame_fine N mst ?d') fs segs'"
    by (rule frames_mono [OF s(3)]) (use same low I(2) s(4) in \<open>auto simp: stack_fine_def\<close>)
  moreover have "dfs d ! fst (last (dfsStack ?d')) = 0"
    using inv st(1) same(5) by (cases fs) (auto simp: tarjan_inv_def)
  ultimately show ?thesis using inv same s(1) unfolding tarjan_inv_def by simp
qed

text \<open>Discovering a transition.\<close>

lemma edge_new:
  assumes g: "good ns" and inv: "tarjan_inv N T ns mst segs d" and st: "dfsStack d = (c, ms, i) # fs" "0 < i"
    and new: "new = ms ! (i - 1)" "new \<notin> seen N d"
  shows "\<exists>mst' d'. discover N T ns new (d\<lparr>dfsStack := (c, ms, i - 1) # fs\<rparr>) = Some d' \<and>
    tarjan_inv N T ns mst' ([new] # segs) d' \<and> seen N d' = insert new (seen N d)"
proof -
  let ?d1 = "d\<lparr>dfsStack := (c, ms, i - 1) # fs\<rparr>"
  obtain seg segs' where s: "segs = seg # segs'" "frame_fine N mst d (c, ms, i) seg" "list_all2 (frame_fine N mst d) fs segs'"
    "TarjanStack d = seg @ concat segs'" "c \<in> set seg" "c \<in> seen N d" "must_ok N T ns c ms"
    using tarjan_top [OF inv st(1)] by blast
  have I: "dl_ok N d" "stack_fine N d" "last_fine N ns d" "gone_fine N ns mst d" "\<forall>v \<in> seen N d. must_ok N T ns v (mst v)"
    using inv by (auto simp: tarjan_inv_def)
  have nw: "new \<in> set ms" using s(2) st(2) new(1) by (auto intro!: nth_mem)
  then have lt: "new < Card N TR" using s(7) by (simp add: must_ok_def)
  obtain m sg where m: "must_ok N T ns new m" and disc: "discover N T ns new ?d1 =
      Some (?d1\<lparr>dfs := (dfs d)[new := nextDfs d], lowlink := (lowlink d)[new := nextDfs d], nextDfs := nextDfs d + 1,
        visited := (visited d)[new := stamp d], onTarjanStack := (onTarjanStack d)[new := stamp d],
        TarjanStack := new # TarjanStack d, dfsStack := (new, m, length m) # (c, ms, i - 1) # fs,
        dfsLastEnabled := (if Enabled ns ! new then nextDfs d else dfsLastEnabled d), scapegoats := sg\<rparr>)"
  proof (cases "Enabled ns ! new")
    case True
    show thesis
      by (rule that [OF must_enabled [OF lt True], of "scapegoats d"]) (simp add: discover_def True Let_def)
  next
    case False
    obtain p sg' where "selectScapegoat N ns new (scapegoats d) = Some (p, sg')" "must_ok N T ns new (Arc N PL PRE p)"
      using must_disabled [OF g lt False] by blast
    then show thesis using False by (intro that [of "Arc N PL PRE p" sg']) (simp_all add: discover_def Let_def)
  qed
  let ?mst = "mst(new := m)"
  define d' where "d' = ?d1\<lparr>dfs := (dfs d)[new := nextDfs d], lowlink := (lowlink d)[new := nextDfs d], nextDfs := nextDfs d + 1,
        visited := (visited d)[new := stamp d], onTarjanStack := (onTarjanStack d)[new := stamp d],
        TarjanStack := new # TarjanStack d, dfsStack := (new, m, length m) # (c, ms, i - 1) # fs,
        dfsLastEnabled := (if Enabled ns ! new then nextDfs d else dfsLastEnabled d), scapegoats := sg\<rparr>"
  have len: "length (dfs d) = Card N TR" "length (lowlink d) = Card N TR" "length (visited d) = Card N TR"
    "length (onTarjanStack d) = Card N TR" using I(1) by (auto simp: dl_ok_def)
  have seen': "seen N d' = insert new (seen N d)"
    using lt len by (auto simp: seen_def d'_def nth_list_update)
  have ts: "set (TarjanStack d) \<subseteq> seen N d" "sorted_wrt (\<lambda>x y. dfs d ! y < dfs d ! x) (TarjanStack d)"
    "\<And>v. v \<in> seen N d \<Longrightarrow> onTarjanStack d ! v = stamp d \<and> dfs d ! v < nextDfs d"
    using I(2) by (auto simp: stack_fine_def)
  have gone': "gone N d' = gone N d" using seen' new(2) ts(1) by (auto simp: gone_def d'_def)
  have dfs': "dfs d' ! v = dfs d ! v" "lowlink d' ! v = lowlink d ! v" if "v \<in> seen N d" for v
    using that new(2) by (cases "v = new"; simp add: d'_def)+
  have dn: "dfs d' ! new = nextDfs d" "lowlink d' ! new = nextDfs d" using lt len by (auto simp: d'_def)
  have "dl_ok N d'" using I(1) by (auto simp: dl_ok_def d'_def nth_update_if)
  moreover have "stack_fine N d'"
  proof -
    have "sorted_wrt (\<lambda>x y. dfs d' ! y < dfs d' ! x) (TarjanStack d)"
      by (rule sorted_wrt_mono_rel [OF _ ts(2)]) (use ts(1) dfs' in \<open>simp add: subset_iff\<close>)
    moreover have "dfs d' ! y < dfs d' ! new" if "y \<in> set (TarjanStack d)" for y
      using that ts(1,3) dfs'(1) dn(1) by (simp add: subset_iff)
    moreover have "TarjanStack d' = new # TarjanStack d" by (simp add: d'_def)
    moreover have "onTarjanStack d' ! v = stamp d' \<and> dfs d' ! v < nextDfs d'" if "v \<in> seen N d'" for v
    proof (cases "v = new")
      case True
      then show ?thesis using dn(1) lt len by (simp add: d'_def)
    next
      case False
      then have "v \<in> seen N d" using that seen' by simp
      then show ?thesis using ts(3) [of v] dfs'(1) [of v] False by (simp add: d'_def)
    qed
    ultimately show ?thesis using ts(1) seen' by (simp add: stack_fine_def subset_iff)
  qed
  moreover have "last_fine N ns d'"
  proof (cases "Enabled ns ! new")
    case True
    then show ?thesis using seen' dn dfs' ts(3) by (force simp: last_fine_def d'_def)
  next
    case False
    then show ?thesis using seen' dfs' I(3) by (auto simp: last_fine_def d'_def)
  qed
  moreover have "gone_fine N ns ?mst d'"
    using I(4) gone' new(2) by (auto simp: gone_fine_def gone_def)
  moreover have "\<forall>v \<in> seen N d'. must_ok N T ns v (?mst v)" using I(5) seen' m by auto
  moreover have "TarjanStack d' = concat ([new] # segs)" using s(1,4) by (simp add: d'_def)
  moreover have "list_all2 (frame_fine N ?mst d') (dfsStack d') ([new] # segs)"
  proof -
    have f: "frame_fine N ?mst d' (c, ms, i) seg"
      by (rule frame_mono [OF s(2)]) (use seen' gone' dfs' new(2) ts(1) s(4,6) in auto)
    have il: "i \<le> length ms" using s(2) by simp
  have dr: "drop (i - 1) ms = new # drop i ms"
      using drop_pred [OF st(2) il] new(1) by (simp only:)
    have "lowlink d' ! c \<le> dfs d' ! new"
      using f dfs' [OF s(6)] dn ts(3) [OF s(6)] by simp
    then have "frame_fine N ?mst d' (c, ms, i - 1) seg"
      using f seen' unfolding frame_fine.simps dr by auto
    moreover have "list_all2 (frame_fine N ?mst d') fs segs'"
      by (rule frames_mono [OF s(3)]) (use seen' gone' dfs' new(2) ts(1) s(4) in auto)
    moreover have "frame_fine N ?mst d' (new, m, length m) [new]" using dn by simp
    ultimately show ?thesis using s(1) by (simp add: d'_def)
  qed
  moreover have "dfs d' ! fst (last (dfsStack d')) = 0"
  proof -
    have "fst (last (dfsStack d)) \<in> seen N d"
      using frames_in_stack [of N mst d "dfsStack d" segs "last (dfsStack d)"] last_in_set [of "dfsStack d"] inv ts(1)
      by (auto simp: tarjan_inv_def)
    moreover have "fst (last (dfsStack d')) = fst (last (dfsStack d))" using st(1) by (cases fs) (auto simp: d'_def)
    ultimately show ?thesis using dfs' inv by (simp add: tarjan_inv_def)
  qed
  ultimately have "tarjan_inv N T ns ?mst ([new] # segs) d'" by (simp add: tarjan_inv_def d'_def)
  then show ?thesis using disc seen' unfolding d'_def by blast
qed

text \<open>The component on top is closed, apart from what is gone.\<close>

lemma component_closed:
  assumes inv: "tarjan_inv N T ns mst segs d" and st: "dfsStack d = (c, ms, 0) # fs" and low: "dfs d ! c = lowlink d ! c"
    and seg: "segs = seg # segs'"
  shows "\<And>u. u \<in> set seg \<Longrightarrow> set (mst u) \<subseteq> set seg \<union> gone N d" "takeWhile (\<lambda>t. t \<noteq> c) (TarjanStack d) @ [c] = seg"
    "tl (dropWhile (\<lambda>t. t \<noteq> c) (TarjanStack d)) = concat segs'" "set seg \<subseteq> seen N d"
    "\<And>v. v \<in> seen N d \<Longrightarrow> dfs d ! c \<le> dfs d ! v \<Longrightarrow> v \<in> set seg \<union> gone N d"
proof -
  obtain s: "frame_fine N mst d (c, ms, 0) seg" "TarjanStack d = seg @ concat segs'"
    using tarjan_top [OF inv st] seg by auto
  have ts: "set (TarjanStack d) \<subseteq> seen N d" "sorted_wrt (\<lambda>x y. dfs d ! y < dfs d ! x) (TarjanStack d)"
    using inv [unfolded tarjan_inv_def stack_fine_def] by blast+
  then show sub: "set seg \<subseteq> seen N d" using s(2) by simp
  obtain xs where xs: "seg = xs @ [c]" using s(1) append_butlast_last_id [of seg] by (metis frame_fine.simps)
  have below: "dfs d ! w < dfs d ! c" if "w \<in> set (concat segs')" for w
    using ts(2) that s(2) xs by (auto simp: sorted_wrt_append)
  have notin: "x \<noteq> c" if "x \<in> set xs" for x using ts(2) s(2) xs that by (auto simp: sorted_wrt_append)
  show "takeWhile (\<lambda>t. t \<noteq> c) (TarjanStack d) @ [c] = seg" "tl (dropWhile (\<lambda>t. t \<noteq> c) (TarjanStack d)) = concat segs'"
    using s(2) xs takeWhile_append2 [of xs "\<lambda>t. t \<noteq> c", OF notin] dropWhile_append2 [of xs "\<lambda>t. t \<noteq> c", OF notin] by simp_all
  show mem: "v \<in> set seg \<union> gone N d" if "v \<in> seen N d" "dfs d ! c \<le> dfs d ! v" for v
    using that below s(2) by (auto simp: gone_def not_le [symmetric])
  show "set (mst u) \<subseteq> set seg \<union> gone N d" if "u \<in> set seg" for u
  proof
    fix w
    assume "w \<in> set (mst u)"
    then have "w \<in> seen N d \<and> (w \<in> gone N d \<or> lowlink d ! c \<le> dfs d ! w)"
      using s(1) that by (cases "u = c") auto
    then show "w \<in> set seg \<union> gone N d" using mem low by auto
  qed
qed

text \<open>The fire list: \<open>finish\<close> returns.\<close>

lemma finish_returns:
  assumes g: "good ns" and inv: "tarjan_inv N T ns mst segs d" and st: "dfsStack d = (c, ms, 0) # fs"
    and low: "dfs d ! c = lowlink d ! c" "dfs d ! c \<le> dfsLastEnabled d"
  shows "\<exists>fl. finish ns c d = Some (Some fl, d) \<and> deadlock_stubborn N (Current ns) (set fl) \<and>
    (\<forall>t \<in> set fl. t < Card N TR \<and> Enabled ns ! t)"
proof -
  obtain seg segs' where seg: "segs = seg # segs'" using tarjan_top [OF inv st] by blast
  note C = component_closed [OF inv st low(1) seg]
  let ?S = "set seg \<union> gone N d" and ?M = "marking_of (Current ns)"
  have I: "gone_fine N ns mst d" "\<forall>v \<in> seen N d. must_ok N T ns v (mst v)" "last_fine N ns d"
    using inv by (auto simp: tarjan_inv_def)
  have in_seen: "?S \<subseteq> seen N d" using C(4) by (auto simp: gone_def)
  have stub: "stubborn N ?M ?S"
  proof (rule must_closed_stubborn [OF g])
    fix t
    assume t: "t \<in> ?S"
    have "set (mst t) \<subseteq> ?S"
    proof (cases "t \<in> set seg")
      case True
      then show ?thesis by (rule C(1))
    next
      case False
      then show ?thesis using t I(1) by (auto simp: gone_fine_def)
    qed
    then show "\<exists>ms. must_ok N T ns t ms \<and> set ms \<subseteq> ?S" using I(2) t in_seen by blast
  qed
  define fl where "fl = component_firelist ns c (TarjanStack d)"
  have set_fl: "set fl = {t \<in> set seg. Enabled ns ! t}" unfolding fl_def component_firelist_def C(2) by auto
  have lt: "t < Card N TR" if "t \<in> ?S" for t using that in_seen by (auto simp: seen_def)
  have enabled: "set fl = {t \<in> ?S. enabled_at N ?M t}"
  proof -
    have "enabled_at N ?M t \<longleftrightarrow> Enabled ns ! t" if "t \<in> ?S" for t using good_enabled [OF g lt [OF that]] by simp
    then show ?thesis using set_fl I(1) by (auto simp: gone_fine_def)
  qed
  have ne: "fl \<noteq> []"
  proof -
    obtain v where v: "v \<in> seen N d" "Enabled ns ! v" "dfs d ! v = dfsLastEnabled d" using I(3) by (auto simp: last_fine_def)
    then have "v \<in> ?S" using C(5) [of v] low(2) by simp
    then have "v \<in> set seg" using v(2) I(1) by (auto simp: gone_fine_def)
    then show ?thesis using v(2) set_fl by auto
  qed
  have "length fl \<le> CardEnabled ns"
  proof -
    have "distinct seg"
    proof -
      have "sorted_wrt (\<lambda>x y. dfs d ! y < dfs d ! x) seg"
        using inv seg by (auto simp: tarjan_inv_def stack_fine_def sorted_wrt_append)
      then show ?thesis by (induction seg) auto
    qed
    then have "distinct fl" unfolding fl_def component_firelist_def C(2) by simp
    then have "length fl = card (set fl)" by (simp add: distinct_card)
    also have "\<dots> \<le> card (set (base_firelist N ns))"
      by (rule card_mono) (use set_fl lt in \<open>auto simp: base_firelist_def\<close>)
    also have "\<dots> \<le> CardEnabled ns"
      using base_firelist_length [OF good_parts(2) [OF g]] card_length [of "base_firelist N ns"] by simp
    finally show ?thesis .
  qed
  then have "finish ns c d = Some (Some fl, d)" using low ne by (simp add: finish_def fl_def [symmetric] Let_def)
  moreover have "deadlock_stubborn N (Current ns) (set fl)"
    unfolding deadlock_stubborn_def using stub enabled ne by blast
  ultimately show ?thesis using set_fl lt by auto
qed

text \<open>A cell below the top.\<close>

lemma bottom_zero:
  assumes inv: "tarjan_inv N T ns mst segs d" and st: "dfsStack d = [(c, ms, i)]"
  shows "dfs d ! c = 0 \<and> lowlink d ! c = 0"
proof -
  have "lowlink d ! c \<le> dfs d ! c" using tarjan_top [OF inv st] by auto
  then show ?thesis using inv st by (simp add: tarjan_inv_def)
qed

lemma second_cell:
  assumes inv: "tarjan_inv N T ns mst segs d" and st: "dfsStack d = f # (p, mp, j) # fs" and seg: "segs = seg # segs'"
  shows "\<exists>sp ss. segs' = sp # ss \<and> frame_fine N mst d (p, mp, j) sp \<and> list_all2 (frame_fine N mst d) fs ss \<and>
    p \<in> set sp \<and> p \<in> seen N d \<and> (\<forall>x \<in> set seg. dfs d ! p < dfs d ! x) \<and> (\<forall>x \<in> set (concat ss). x \<noteq> p)"
proof -
  obtain sp ss where s: "segs' = sp # ss" "frame_fine N mst d (p, mp, j) sp" "list_all2 (frame_fine N mst d) fs ss"
    using inv st seg by (auto simp: tarjan_inv_def list_all2_Cons1)
  have p: "p \<in> set sp" using s(2) by (auto intro: last_in_set)
  have ts: "set (TarjanStack d) \<subseteq> seen N d" "sorted_wrt (\<lambda>x y. dfs d ! y < dfs d ! x) (TarjanStack d)"
    using inv [unfolded tarjan_inv_def stack_fine_def] by blast+
  have "TarjanStack d = seg @ sp @ concat ss" using inv seg s(1) by (simp add: tarjan_inv_def)
  note ts = ts [unfolded this]
  have "dfs d ! x < dfs d ! p" if "x \<in> set (concat ss)" for x
    using ts(2) that p by (fastforce simp: sorted_wrt_append)
  then have "\<forall>x \<in> set (concat ss). x \<noteq> p" by blast
  moreover have "\<forall>x \<in> set seg. dfs d ! p < dfs d ! x" "p \<in> seen N d"
    using ts p by (auto simp: sorted_wrt_append)
  ultimately show ?thesis using s p by blast
qed

text \<open>A component without enabled transitions leaves the stack.\<close>

lemma finish_pops:
  assumes inv: "tarjan_inv N T ns mst segs d" and st: "dfsStack d = (c, ms, 0) # fs"
    and low: "dfs d ! c = lowlink d ! c" "\<not> dfs d ! c \<le> dfsLastEnabled d"
  shows "\<exists>d'. finish ns c d = Some (None, d') \<and> tarjan_inv N T ns mst (tl segs) d' \<and> dfsStack d' = fs \<and> seen N d' = seen N d"
proof -
  obtain seg segs' where seg: "segs = seg # segs'" "c \<in> set seg" using tarjan_top [OF inv st] by blast
  note C = component_closed [OF inv st low(1) seg(1)]
  have I: "gone_fine N ns mst d" "last_fine N ns d" "stack_fine N d" "TarjanStack d = concat segs"
    using inv by (auto simp: tarjan_inv_def)
  have "fs \<noteq> []" using bottom_zero [OF inv, of c ms 0] st low by auto
  then obtain p mp j fs' where fs: "fs = (p, mp, j) # fs'" by (metis neq_Nil_conv prod_cases3)
  obtain sp ss where P: "segs' = sp # ss" "frame_fine N mst d (p, mp, j) sp" "list_all2 (frame_fine N mst d) fs' ss"
    "p \<in> set sp" "\<forall>x \<in> set seg. dfs d ! p < dfs d ! x"
    using second_cell [OF inv st [unfolded fs] seg(1)] by blast
  let ?d' = "d\<lparr>TarjanStack := concat segs', dfsStack := fs\<rparr>"
  have "lowlink d ! p \<le> lowlink d ! c" using P(2,5) seg(2) low(1) by fastforce
  then have step: "finish ns c d = Some (None, ?d')" using low st fs C(3) by (simp add: finish_def)
  have seen': "seen N ?d' = seen N d" by (simp add: seen_def)
  have disj: "set seg \<inter> set (concat segs') = {}"
  proof -
    have "\<forall>x \<in> set seg. \<forall>y \<in> set (concat segs'). dfs d ! y < dfs d ! x"
      using I(3,4) seg(1) by (simp add: stack_fine_def sorted_wrt_append)
    then show ?thesis by blast
  qed
  have gone': "gone N ?d' = set seg \<union> gone N d"
    using C(4) I(4) seg(1) disj by (auto simp: gone_def seen_def)
  have dis: "\<not> Enabled ns ! u" if "u \<in> set seg" for u
  proof -
    obtain xs where "seg = xs @ [c]" using C(2) by metis
    then have "dfs d ! c \<le> dfs d ! u"
      using I(3,4) seg(1) that by (auto simp: stack_fine_def sorted_wrt_append)
    then show ?thesis using I(2) C(4) that low(2) by (auto simp: last_fine_def)
  qed
  have "gone_fine N ns mst ?d'"
    unfolding gone_fine_def gone' using C(1) dis I(1) by (auto simp: gone_fine_def)
  moreover have "stack_fine N ?d'"
    using I(3,4) seg(1) by (simp add: stack_fine_def sorted_wrt_append seen_def)
  moreover have "list_all2 (frame_fine N mst ?d') fs segs'"
  proof -
    have "list_all2 (frame_fine N mst d) fs segs'" using inv st seg(1) by (simp add: tarjan_inv_def)
    then show ?thesis
      by (rule frames_mono) (use I(3,4) seg(1) gone' seen' in \<open>auto simp: stack_fine_def\<close>)
  qed
  moreover have "last_fine N ns ?d'" "dl_ok N ?d'"
    using inv by (simp_all add: last_fine_def dl_ok_def tarjan_inv_def seen_def)
  moreover have "dfs d ! fst (last fs) = 0" using inv st fs by (simp add: tarjan_inv_def)
  ultimately have "tarjan_inv N T ns mst segs' ?d'"
    using inv fs seen' by (simp add: tarjan_inv_def)
  then show ?thesis using step seg(1) seen' by auto
qed

text \<open>A cell whose low link is smaller is merged with the cell below.\<close>

lemma finish_merges:
  assumes inv: "tarjan_inv N T ns mst segs d" and st: "dfsStack d = (c, ms, 0) # fs"
    and low: "dfs d ! c \<noteq> lowlink d ! c"
  shows "\<exists>d' segs'. finish ns c d = Some (None, d') \<and> tarjan_inv N T ns mst segs' d' \<and> dfsStack d' = fs \<and> seen N d' = seen N d"
proof -
  obtain seg segs' where seg: "segs = seg # segs'" "c \<in> set seg" "frame_fine N mst d (c, ms, 0) seg"
    using tarjan_top [OF inv st] by blast
  have I: "gone_fine N ns mst d" "last_fine N ns d" "stack_fine N d" "TarjanStack d = concat segs" "dl_ok N d"
    using inv by (auto simp: tarjan_inv_def)
  have "fs \<noteq> []" using bottom_zero [OF inv, of c ms 0] st low by auto
  then obtain p mp j fs' where fs: "fs = (p, mp, j) # fs'" by (metis neq_Nil_conv prod_cases3)
  obtain sp ss where P: "segs' = sp # ss" "frame_fine N mst d (p, mp, j) sp" "list_all2 (frame_fine N mst d) fs' ss"
    "p \<in> set sp" "p \<in> seen N d" "\<forall>x \<in> set seg. dfs d ! p < dfs d ! x" "\<forall>x \<in> set (concat ss). x \<noteq> p"
    using second_cell [OF inv st [unfolded fs] seg(1)] by blast
  define d' where "d' = d\<lparr>dfsStack := fs, lowlink := (if lowlink d ! c < lowlink d ! p
      then (lowlink d)[p := lowlink d ! c] else lowlink d)\<rparr>"
  have step: "finish ns c d = Some (None, d')" using low st fs by (simp add: finish_def d'_def)
  have same: "seen N d' = seen N d" "gone N d' = gone N d" "dfs d' = dfs d" "TarjanStack d' = TarjanStack d"
    "dfsStack d' = fs" "dl_ok N d'" "stack_fine N d'" "last_fine N ns d'" "gone_fine N ns mst d'"
    using I by (auto simp: seen_def gone_def dl_ok_def stack_fine_def last_fine_def gone_fine_def d'_def)
  have "p < length (lowlink d)" using P(5) I(5) by (simp add: seen_def dl_ok_def)
  then have lp: "lowlink d' ! p = min (lowlink d ! c) (lowlink d ! p)" "lowlink d' ! x \<le> lowlink d ! x" for x
    by (auto simp: d'_def nth_update_if)
  have sub: "set (concat segs) \<subseteq> seen N d" using I(3,4) by (simp add: stack_fine_def)
  have "frame_fine N mst d' (p, mp, j) (seg @ sp)"
  proof -
    have f: "frame_fine N mst d' (p, mp, j) sp"
      by (rule frame_mono [OF P(2)]) (use sub seg(1) P(1) same lp(2) in auto)
    have np: "p \<notin> set seg" using P(6) by blast
    have "w \<in> seen N d' \<and> (w \<in> gone N d' \<or> lowlink d' ! p \<le> dfs d' ! w)"
      if u: "u \<in> set seg" "w \<in> set (if u = p then drop j mp else mst u)" for u w
    proof -
      have that: "u \<in> set seg" "w \<in> set (mst u)" using u np by (auto split: if_splits)
      have "w \<in> seen N d \<and> (w \<in> gone N d \<or> lowlink d ! c \<le> dfs d ! w)"
        using seg(3) that by (cases "u = c") auto
      then show ?thesis using same lp(1) by auto
    qed
    then show ?thesis using f unfolding frame_fine.simps set_append ball_Un by simp
  qed
  moreover have "list_all2 (frame_fine N mst d') fs' ss"
    by (rule frames_mono [OF P(3)]) (use sub seg(1) P(1) same lp(2) in auto)
  moreover have "dfs d ! fst (last fs) = 0" using inv st fs by (simp add: tarjan_inv_def)
  moreover have "TarjanStack d = concat ((seg @ sp) # ss)" using I(4) seg(1) P(1) by simp
  ultimately have "tarjan_inv N T ns mst ((seg @ sp) # ss) d'"
    using inv fs same unfolding tarjan_inv_def by simp
  then show ?thesis using step same(1,5) by blast
qed

section \<open>The loop\<close>

definition work :: "dl_data \<Rightarrow> nat" where
  "work d = (\<Sum>f\<leftarrow>dfsStack d. snd (snd f) + 1)"

definition unseen :: "dl_data \<Rightarrow> nat" where
  "unseen d = card ({..<Card N TR} - seen N d)"

lemma tarjan_total:
  assumes g: "good ns" and inv: "tarjan_inv N T ns mst segs d"
  shows "\<exists>fl d'. tarjan_loop N T ns d = Some (fl, d') \<and> deadlock_stubborn N (Current ns) (set fl) \<and>
    (\<forall>t \<in> set fl. t < Card N TR \<and> Enabled ns ! t) \<and> dl_ok N d'"
  using inv
proof (induction "(unseen d, work d)" arbitrary: d mst segs rule: wf_induct_rule [OF wf_lex_prod [OF wf_less_than wf_less_than]])
  case (1 d)
  have go: ?case
    if "tarjan_step N T ns d = Some (None, d1)" "tarjan_inv N T ns mst1 segs1 d1"
      "unseen d1 < unseen d \<or> unseen d1 = unseen d \<and> work d1 < work d" for d1 mst1 segs1
    using 1(1) [OF _ that(2)] that(1,3) by (subst tarjan_loop.simps) auto
  obtain c ms i fs where st: "dfsStack d = (c, ms, i) # fs"
    using 1(2) by (metis neq_Nil_conv prod_cases3 tarjan_inv_def)
  show ?case
  proof (cases "0 < i")
    case True
    let ?new = "ms ! (i - 1)" and ?d1 = "d\<lparr>dfsStack := (c, ms, i - 1) # fs\<rparr>"
    show ?thesis
    proof (cases "?new \<in> seen N d")
      case seen: True
      have "tarjan_step N T ns d = Some (None, see_again c ?new ?d1)"
        using st True seen by (simp add: tarjan_step_def seen_def Let_def)
      moreover have "dfsStack (see_again c ?new ?d1) = (c, ms, i - 1) # fs" "unseen (see_again c ?new ?d1) = unseen d"
        by (simp_all add: see_again_def unseen_def seen_def)
      ultimately show ?thesis using go [OF _ edge_seen [OF 1(2) st True refl seen]] st True by (simp add: work_def)
    next
      case False
      obtain mst' d' where n: "discover N T ns ?new ?d1 = Some d'" "tarjan_inv N T ns mst' ([?new] # segs) d'"
        "seen N d' = insert ?new (seen N d)" using edge_new [OF g 1(2) st True refl False] by blast
      obtain s: "frame_fine N mst d (c, ms, i) (hd segs)" "must_ok N T ns c ms" using tarjan_top [OF 1(2) st] by auto
      then have "?new \<in> set ms" using True by (auto intro!: nth_mem)
      then have lt: "?new < Card N TR" using s(2) by (simp add: must_ok_def)
      then have "tarjan_step N T ns d = Some (None, d')"
        using st True False n(1) by (simp add: tarjan_step_def seen_def Let_def)
      moreover have "unseen d' < unseen d"
        unfolding unseen_def n(3) by (rule psubset_card_mono) (use lt False in auto)
      ultimately show ?thesis using go n(2) by blast
    qed
  next
    case False
    then have z: "dfsStack d = (c, ms, 0) # fs" and step: "tarjan_step N T ns d = finish ns c d"
      using st by (simp_all add: tarjan_step_def)
    have less: "work d' < work d" "unseen d' = unseen d" if "dfsStack d' = fs" "seen N d' = seen N d" for d'
      using that z by (simp_all add: work_def unseen_def)
    consider (ret) "dfs d ! c = lowlink d ! c" "dfs d ! c \<le> dfsLastEnabled d"
      | (pop) "dfs d ! c = lowlink d ! c" "\<not> dfs d ! c \<le> dfsLastEnabled d" | (merge) "dfs d ! c \<noteq> lowlink d ! c" by blast
    then show ?thesis
    proof cases
      case ret
      obtain fl where "finish ns c d = Some (Some fl, d)" "deadlock_stubborn N (Current ns) (set fl)"
        "\<forall>t \<in> set fl. t < Card N TR \<and> Enabled ns ! t" using finish_returns [OF g 1(2) z ret] by blast
      then show ?thesis using step 1(2) by (subst tarjan_loop.simps) (simp add: tarjan_inv_def)
    next
      case pop
      then show ?thesis using finish_pops [OF 1(2) z] go step less by metis
    next
      case merge
      then show ?thesis using finish_merges [OF 1(2) z] go step less by metis
    qed
  qed
qed

section \<open>getFirelist\<close>

lemma newStamp_ok:
  assumes "dl_ok N d"
  shows "dl_ok N (newStamp N d)" "v < Card N TR \<Longrightarrow> visited (newStamp N d) ! v < stamp (newStamp N d)"
proof -
  have d: "stamp d < 0xFFFFFFFF" "\<And>v. v < Card N TR \<Longrightarrow> visited d ! v \<le> stamp d \<and> onTarjanStack d ! v \<le> stamp d"
    using assms by (auto simp: dl_ok_def)
  have u: "unat (stamp d + 1) = unat (stamp d) + 1" using d(1) by (simp add: unat_word_ariths word_less_nat_alt)
  then have s: "stamp d < stamp d + 1" by (simp add: word_less_nat_alt)
  show "dl_ok N (newStamp N d)" "v < Card N TR \<Longrightarrow> visited (newStamp N d) ! v < stamp (newStamp N d)"
  proof -
    show "dl_ok N (newStamp N d)"
    proof (cases "stamp d + 1 = 0xFFFFFFFF")
      case True
      then show ?thesis using assms by (simp add: newStamp_def dl_ok_def Let_def)
    next
      case False
      have "stamp d + 1 \<le> 0xFFFFFFFF" using u d(1) by (simp add: word_less_nat_alt word_le_nat_alt)
      then have "stamp d + 1 < 0xFFFFFFFF" using False order.not_eq_order_implies_strict by blast
      then show ?thesis
        using assms False s d(2) by (auto simp: newStamp_def dl_ok_def Let_def dest: order.trans [OF _ less_imp_le])
    qed
    show "visited (newStamp N d) ! v < stamp (newStamp N d)" if v: "v < Card N TR"
    proof (cases "stamp d + 1 = 0xFFFFFFFF")
      case True
      then show ?thesis using assms v by (simp add: newStamp_def dl_ok_def Let_def)
    next
      case False
      moreover have "visited d ! v < stamp d + 1" using d(2) [OF v] s by (auto intro: le_less_trans)
      ultimately show ?thesis by (simp add: newStamp_def Let_def)
    qed
  qed
qed

lemma tarjan_start_inv:
  assumes g: "good ns" and d: "dl_ok N d" and t: "t < Card N TR" "Enabled ns ! t"
  shows "tarjan_inv N T ns (\<lambda>_. Conflicting T ! t) [[t]] (tarjan_start N T t d)"
proof -
  let ?d = "tarjan_start N T t d"
  note n = newStamp_ok [OF d]
  have len: "length (dfs ?d) = Card N TR" "length (lowlink ?d) = Card N TR" "length (visited ?d) = Card N TR"
    using n(1) by (simp_all add: dl_ok_def tarjan_start_def Let_def)
  have "v = t" if "v \<in> seen N ?d" for v
  proof (rule ccontr)
    assume "v \<noteq> t"
    then have "v < Card N TR" "visited (newStamp N d) ! v = stamp (newStamp N d)"
      using that by (simp_all add: seen_def tarjan_start_def Let_def nth_update_if)
    then show False using n(2) by fastforce
  qed
  moreover have "t \<in> seen N ?d" using n(1) t(1) by (simp add: seen_def tarjan_start_def Let_def dl_ok_def)
  ultimately have seen: "seen N ?d = {t}" by blast
  have gone: "gone N ?d = {}" by (simp add: gone_def seen) (simp add: tarjan_start_def Let_def)
  have z: "dfs ?d ! t = 0" "lowlink ?d ! t = 0" "onTarjanStack ?d ! t = stamp ?d"
    using n(1) t(1) by (simp_all add: dl_ok_def tarjan_start_def Let_def)
  have "dl_ok N ?d" using n(1) by (auto simp: dl_ok_def tarjan_start_def Let_def nth_update_if)
  moreover have "stack_fine N ?d"
    unfolding stack_fine_def seen using z by (simp add: tarjan_start_def Let_def)
  moreover have "last_fine N ns ?d" unfolding last_fine_def seen using t(2) z by (simp add: tarjan_start_def Let_def)
  moreover have "gone_fine N ns (\<lambda>_. Conflicting T ! t) ?d" by (simp add: gone_fine_def gone)
  moreover have "\<forall>v \<in> seen N ?d. must_ok N T ns v (Conflicting T ! t)"
    using must_enabled [OF t] seen by simp
  moreover have "dfsStack ?d = [(t, Conflicting T ! t, length (Conflicting T ! t))]" "TarjanStack ?d = [t]"
    by (simp_all add: tarjan_start_def Let_def)
  ultimately show ?thesis using z by (simp add: tarjan_inv_def)
qed

end

text \<open>What \<open>Net::computeConflictClusters\<close> provides: a permutation of the transitions whose first
  \<open>singles\<close> members are in conflict with themselves only.\<close>

definition priority_ok :: "net \<Rightarrow> transition_data \<Rightarrow> arrayindex_t list \<Rightarrow> arrayindex_t \<Rightarrow> bool" where
  "priority_ok N T priority singles \<longleftrightarrow> mset priority = mset [0..<Card N TR] \<and>
     (\<forall>i < Card N TR. i < singles \<longrightarrow> set (Conflicting T ! (priority ! i)) \<subseteq> {priority ! i})"

lemma first_enabled_spec:
  assumes "mset priority = mset [0..<Card N TR]" "t < Card N TR" "Enabled ns ! t"
  shows "first_enabled N priority ns < Card N TR" "priority ! first_enabled N priority ns < Card N TR"
    "Enabled ns ! (priority ! first_enabled N priority ns)"
proof -
  let ?P = "\<lambda>i. \<not> Enabled ns ! (priority ! i)"
  have len: "length priority = Card N TR" using mset_eq_length [OF assms(1)] by simp
  have st: "set priority = {..<Card N TR}" using mset_eq_setD [OF assms(1)] by (simp add: lessThan_atLeast0)
  then have "t \<in> set priority" using assms(2) by simp
  then obtain i where i: "i < Card N TR" "priority ! i = t" unfolding in_set_conv_nth len by blast
  show lt: "first_enabled N priority ns < Card N TR"
  proof (rule ccontr)
    assume "\<not> first_enabled N priority ns < Card N TR"
    then have "takeWhile ?P [0..<Card N TR] = [0..<Card N TR]"
      using length_takeWhile_le [of ?P "[0..<Card N TR]"] takeWhile_eq_take [of ?P "[0..<Card N TR]"]
      by (simp add: first_enabled_def)
    then have "\<forall>i \<in> set [0..<Card N TR]. ?P i" by (metis set_takeWhileD)
    then show False using i assms(3) by auto
  qed
  then show "Enabled ns ! (priority ! first_enabled N priority ns)"
    using nth_length_takeWhile [of ?P "[0..<Card N TR]"] by (simp add: first_enabled_def)
  show "priority ! first_enabled N priority ns < Card N TR"
    using lt len st nth_mem [of "first_enabled N priority ns" priority] by auto
qed

context net_setting
begin

lemma dl_getFirelist_correct:
  assumes g: "good ns" and nd: "\<not> dead_vec N (Current ns)" and d: "dl_ok N d" and p: "priority_ok N T priority singles"
  shows "\<exists>fl d'. dl_getFirelist N T priority singles ns d = Some (fl, d') \<and> deadlock_stubborn N (Current ns) (set fl) \<and>
    (\<forall>t \<in> set fl. t < Card N TR \<and> Enabled ns ! t) \<and> dl_ok N d'"
proof -
  have en: "enabled_ok N ns" by (rule good_parts(1) [OF g])
  have c: "CardEnabled ns \<noteq> 0" using nd enabled_ok_count [OF en] by simp
  obtain t where t: "t < Card N TR" "Enabled ns ! t"
    using nd enabled_ok_flag [OF en] by (auto simp: dead_vec_def)
  let ?i = "first_enabled N priority ns"
  have P: "mset priority = mset [0..<Card N TR]" using p by (simp add: priority_ok_def)
  note F = first_enabled_spec [OF P t]
  show ?thesis
  proof (cases "?i < singles")
    case True
    let ?t = "priority ! ?i"
    have "set (Conflicting T ! ?t) \<subseteq> {?t}" using p F(1) True by (simp add: priority_ok_def)
    then have "stubborn N (marking_of (Current ns)) {?t}"
      using must_enabled [OF F(2,3)] by (intro must_closed_stubborn [OF g]) auto
    moreover have "{?t} = {t \<in> {?t}. enabled_at N (marking_of (Current ns)) t}" using good_enabled [OF g F(2)] F(3) by auto
    ultimately have "deadlock_stubborn N (Current ns) {?t}" unfolding deadlock_stubborn_def by blast
    then show ?thesis using True c F(2,3) d by (simp add: dl_getFirelist_def)
  next
    case False
    then have "dl_getFirelist N T priority singles ns d = tarjan_loop N T ns (tarjan_start N T (priority ! ?i) d)"
      using c by (simp add: dl_getFirelist_def)
    then show ?thesis using tarjan_total [OF g tarjan_start_inv [OF g d F(2,3)]] by simp
  qed
qed

end

end
