(* ===== verification/ConflictClusters.thy ===== *)
theory ConflictClusters
  imports TarjanProof ArcSort
begin

text \<open>
  \<open>Net::computeConflictClusters\<close>: union/find over the transitions, two transitions being united when
  they share a pre place, with linking by size and path compression, and the priority list of the
  deadlock preserving stubborn sets.
\<close>

section \<open>Union and find\<close>

text \<open>The array \<open>unionfind\<close> holds minus the size at the name of a set and a member of the set
  elsewhere.\<close>

type_synonym union_find = "int list"

partial_function (option) uf_find :: "union_find \<Rightarrow> arrayindex_t \<Rightarrow> arrayindex_t option" where
  "uf_find uf k = (if 0 \<le> uf ! k then uf_find uf (nat (uf ! k)) else Some k)"

definition uf_link :: "arrayindex_t \<Rightarrow> arrayindex_t \<Rightarrow> union_find \<Rightarrow> union_find \<times> arrayindex_t" where
  "uf_link k l uf =
     (if k = l then (uf, k)
      else if uf ! k < uf ! l then (uf[k := uf ! k + uf ! l, l := int k], k)
      else (uf[l := uf ! l + uf ! k, k := int l], l))"

partial_function (option) uf_compress :: "union_find \<Rightarrow> arrayindex_t \<Rightarrow> arrayindex_t \<Rightarrow> union_find option" where
  "uf_compress uf k m = (if 0 \<le> uf ! k then uf_compress (uf[k := int m]) (nat (uf ! k)) m else Some uf)"

text \<open>One round of the loop over the post transitions of a place.\<close>

definition uf_unify :: "arrayindex_t \<Rightarrow> arrayindex_t \<Rightarrow> union_find \<Rightarrow> union_find option" where
  "uf_unify a b uf =
     do {
       k \<leftarrow> uf_find uf a;
       l \<leftarrow> uf_find uf b;
       let (uf1, m) = uf_link k l uf;
       uf2 \<leftarrow> uf_compress uf1 a m;
       uf_compress uf2 b m
     }"

definition unify_place :: "net \<Rightarrow> arrayindex_t \<Rightarrow> union_find \<Rightarrow> union_find option" where
  "unify_place N p uf =
     fold_option (\<lambda>j. uf_unify (Arc N PL POST p ! 0) (Arc N PL POST p ! j)) [1..<CardArcs N PL POST p] uf"

section \<open>computeConflictClusters\<close>

text \<open>Every transition gets the (negative) size of its cluster.\<close>

definition record_size :: "arrayindex_t \<Rightarrow> union_find \<Rightarrow> union_find option" where
  "record_size i uf = do { k \<leftarrow> uf_find uf i; Some (if k \<noteq> i then uf[i := uf ! k] else uf) }"

definition computeConflictClusters :: "net \<Rightarrow> (arrayindex_t list \<times> arrayindex_t) option" where
  "computeConflictClusters N =
     do {
       uf1 \<leftarrow> fold_option (unify_place N) [0..<Card N PL] (replicate (Card N TR) (- 1));
       uf2 \<leftarrow> fold_option record_size [0..<Card N TR] uf1;
       let sorted = unionfindsort (zip [0..<Card N TR] uf2) (Card N TR);
       Some (map fst sorted, length (takeWhile (\<lambda>u. u = - 1) (map snd sorted)))
     }"

section \<open>The union/find structure\<close>

text \<open>\<open>R i\<close> is the name of the set of \<open>i\<close>; \<open>rk\<close> grows along the way away from the names.\<close>

definition uf_ok :: "nat \<Rightarrow> (nat \<Rightarrow> nat) \<Rightarrow> (nat \<Rightarrow> nat) \<Rightarrow> union_find \<Rightarrow> bool" where
  "uf_ok n R rk uf \<longleftrightarrow> length uf = n \<and>
     (\<forall>i < n. R i < n \<and> R (R i) = R i \<and> (uf ! i < 0 \<longleftrightarrow> R i = i) \<and>
        (R i \<noteq> i \<longrightarrow> nat (uf ! i) < n \<and> R (nat (uf ! i)) = R i \<and> rk (nat (uf ! i)) < rk i))"

definition sizes_ok :: "nat \<Rightarrow> (nat \<Rightarrow> nat) \<Rightarrow> union_find \<Rightarrow> bool" where
  "sizes_ok n R uf \<longleftrightarrow> (\<forall>i < n. R i = i \<longrightarrow> uf ! i = - int (card {j. j < n \<and> R j = i}))"

lemma uf_okD:
  assumes "uf_ok n R rk uf" "i < n"
  shows "R i < n" "R (R i) = R i" "uf ! i < 0 \<longleftrightarrow> R i = i"
    "R i \<noteq> i \<Longrightarrow> nat (uf ! i) < n \<and> R (nat (uf ! i)) = R i \<and> rk (nat (uf ! i)) < rk i"
  using assms by (auto simp: uf_ok_def)

lemma rank_root:
  "uf_ok n R rk uf \<Longrightarrow> i < n \<Longrightarrow> R i \<noteq> i \<Longrightarrow> rk (R i) < rk i"
proof (induction "rk i" arbitrary: i rule: less_induct)
  case less
  note D = uf_okD [OF less.prems(1,2)]
  let ?j = "nat (uf ! i)"
  have j: "?j < n" "R ?j = R i" "rk ?j < rk i" using D(4) less.prems(3) by auto
  show ?case
  proof (cases "R ?j = ?j")
    case True
    then show ?thesis using j by simp
  next
    case False
    then show ?thesis using less.hyps [OF j(3) less.prems(1) j(1)] j by simp
  qed
qed

lemma uf_find_ok: "uf_ok n R rk uf \<Longrightarrow> i < n \<Longrightarrow> uf_find uf i = Some (R i)"
proof (induction "rk i" arbitrary: i rule: less_induct)
  case less
  note D = uf_okD [OF less.prems]
  show ?case
  proof (cases "R i = i")
    case True
    then show ?thesis using D(3) by (subst uf_find.simps) simp
  next
    case False
    then show ?thesis using D less.hyps [OF _ less.prems(1)] by (subst uf_find.simps) (simp add: not_less)
  qed
qed

lemma uf_compress_ok:
  "uf_ok n R rk uf \<Longrightarrow> sizes_ok n R uf \<Longrightarrow> i < n \<Longrightarrow>
   \<exists>uf'. uf_compress uf i (R i) = Some uf' \<and> uf_ok n R rk uf' \<and> sizes_ok n R uf'"
proof (induction "rk i" arbitrary: i uf rule: less_induct)
  case less
  note D = uf_okD [OF less.prems(1,3)]
  have len: "length uf = n" using less.prems(1) by (simp add: uf_ok_def)
  show ?case
  proof (cases "R i = i")
    case True
    then show ?thesis using D(3) less.prems by (subst uf_compress.simps) simp
  next
    case False
    let ?uf = "uf[i := int (R i)]" and ?j = "nat (uf ! i)"
    have j: "?j < n" "R ?j = R i" "rk ?j < rk i" using D(4) False by auto
    have "uf_ok n R rk ?uf"
      unfolding uf_ok_def
    proof (intro conjI allI)
      show "length ?uf = n" using len by simp
      fix k
      show "k < n \<longrightarrow> R k < n \<and> R (R k) = R k \<and> (?uf ! k < 0 \<longleftrightarrow> R k = k) \<and>
        (R k \<noteq> k \<longrightarrow> nat (?uf ! k) < n \<and> R (nat (?uf ! k)) = R k \<and> rk (nat (?uf ! k)) < rk k)"
      proof (cases "k = i")
        case True
        then show ?thesis using D(1,2) False len rank_root [OF less.prems(1,3) False] by simp
      next
        case k: False
        then show ?thesis using uf_okD [OF less.prems(1), of k] by simp
      qed
    qed
    moreover have "sizes_ok n R ?uf"
      unfolding sizes_ok_def
    proof (intro allI impI)
      fix k
      assume k: "k < n" "R k = k"
      then have "i \<noteq> k" using False by auto
      then show "?uf ! k = - int (card {j. j < n \<and> R j = k})" using less.prems(2) k by (simp add: sizes_ok_def)
    qed
    ultimately have "\<exists>uf'. uf_compress ?uf ?j (R ?j) = Some uf' \<and> uf_ok n R rk uf' \<and> sizes_ok n R uf'"
      using less.hyps [OF j(3)] j(1) by blast
    moreover have "uf_compress uf i (R i) = uf_compress ?uf ?j (R ?j)"
      using D(3) False j(2) by (subst uf_compress.simps) (simp add: not_less)
    ultimately show ?thesis by simp
  qed
qed

text \<open>Linking makes \<open>m\<close> the name of both sets.\<close>

lemma link_into:
  assumes ok: "uf_ok n R rk uf" and sz: "sizes_ok n R uf" and kl: "k < n" "l < n" "R k = k" "R l = l" "k \<noteq> l"
  shows "\<exists>rk'. uf_ok n (\<lambda>i. if R i = l then k else R i) rk' (uf[k := uf ! k + uf ! l, l := int k]) \<and>
    sizes_ok n (\<lambda>i. if R i = l then k else R i) (uf[k := uf ! k + uf ! l, l := int k])"
proof -
  let ?R = "\<lambda>i. if R i = l then k else R i" and ?uf = "uf[k := uf ! k + uf ! l, l := int k]"
  let ?rk = "\<lambda>i. if R i = l then rk i + rk k + 1 else rk i"
  have len: "length uf = n" using ok by (simp add: uf_ok_def)
  have neg: "uf ! k < 0" "uf ! l < 0" using uf_okD(3) [OF ok] kl by auto
  have "uf_ok n ?R ?rk ?uf"
    unfolding uf_ok_def
  proof (intro conjI allI)
    show "length ?uf = n" using len by simp
    fix i
    show "i < n \<longrightarrow> ?R i < n \<and> ?R (?R i) = ?R i \<and> (?uf ! i < 0 \<longleftrightarrow> ?R i = i) \<and>
      (?R i \<noteq> i \<longrightarrow> nat (?uf ! i) < n \<and> ?R (nat (?uf ! i)) = ?R i \<and> ?rk (nat (?uf ! i)) < ?rk i)"
    proof
      assume i: "i < n"
      note D = uf_okD [OF ok i]
      consider (k) "i = k" | (l) "i = l" | (other) "i \<noteq> k" "i \<noteq> l" by blast
      then show "?R i < n \<and> ?R (?R i) = ?R i \<and> (?uf ! i < 0 \<longleftrightarrow> ?R i = i) \<and>
        (?R i \<noteq> i \<longrightarrow> nat (?uf ! i) < n \<and> ?R (nat (?uf ! i)) = ?R i \<and> ?rk (nat (?uf ! i)) < ?rk i)"
      proof cases
        case k
        then show ?thesis using kl neg len by simp
      next
        case l
        then show ?thesis using kl len by simp
      next
        case other
        have same: "?uf ! i = uf ! i" using other by simp
        show ?thesis
        proof (cases "R i = l")
          case True
          then have "nat (uf ! i) < n \<and> R (nat (uf ! i)) = l \<and> rk (nat (uf ! i)) < rk i" "\<not> uf ! i < 0"
            using D(3,4) other by auto
          then show ?thesis using True same other kl by simp
        next
          case False
          then show ?thesis using D same kl by auto
        qed
      qed
    qed
  qed
  moreover have "sizes_ok n ?R ?uf"
    unfolding sizes_ok_def
  proof (intro allI impI)
    fix i
    assume i: "i < n" "?R i = i"
    show "?uf ! i = - int (card {j. j < n \<and> ?R j = i})"
    proof (cases "i = k")
      case True
      have "{j. j < n \<and> ?R j = k} = {j. j < n \<and> R j = k} \<union> {j. j < n \<and> R j = l}" by auto
      moreover have "card ({j. j < n \<and> R j = k} \<union> {j. j < n \<and> R j = l}) =
          card {j. j < n \<and> R j = k} + card {j. j < n \<and> R j = l}"
        using kl(5) by (intro card_Un_disjoint) auto
      ultimately show ?thesis using True sz kl len by (simp add: sizes_ok_def)
    next
      case False
      then have il: "i \<noteq> l" "R i = i" using i(2) kl by (auto split: if_splits)
      then have "{j. j < n \<and> ?R j = i} = {j. j < n \<and> R j = i}" using False by auto
      then show ?thesis using False il sz i(1) by (simp add: sizes_ok_def)
    qed
  qed
  ultimately show ?thesis by blast
qed

lemma uf_unify_ok:
  assumes ok: "uf_ok n R rk uf" and sz: "sizes_ok n R uf" and ab: "a < n" "b < n"
  shows "\<exists>uf' R' rk'. uf_unify a b uf = Some uf' \<and> uf_ok n R' rk' uf' \<and> sizes_ok n R' uf' \<and>
    (\<forall>i < n. \<forall>j < n. R' i = R' j \<longleftrightarrow> R i = R j \<or> {R i, R j} = {R a, R b})"
proof -
  let ?k = "R a" and ?l = "R b"
  note A = uf_okD [OF ok ab(1)] and B = uf_okD [OF ok ab(2)]
  have "\<exists>uf1 m R' rk'. uf_link ?k ?l uf = (uf1, m) \<and> uf_ok n R' rk' uf1 \<and> sizes_ok n R' uf1 \<and> R' a = m \<and> R' b = m \<and>
    (\<forall>i < n. \<forall>j < n. R' i = R' j \<longleftrightarrow> R i = R j \<or> {R i, R j} = {?k, ?l})"
  proof (cases "?k = ?l")
    case True
    then show ?thesis using ok sz by (intro exI [of _ uf] exI [of _ ?k] exI [of _ R] exI [of _ rk]) (auto simp: uf_link_def doubleton_eq_iff)
  next
    case False
    show ?thesis
    proof (cases "uf ! ?k < uf ! ?l")
      case True
      obtain rk' where r: "uf_ok n (\<lambda>i. if R i = ?l then ?k else R i) rk' (uf[?k := uf ! ?k + uf ! ?l, ?l := int ?k])"
        "sizes_ok n (\<lambda>i. if R i = ?l then ?k else R i) (uf[?k := uf ! ?k + uf ! ?l, ?l := int ?k])"
        using link_into [OF ok sz A(1) B(1) A(2) B(2) False] by blast
      show ?thesis
        by (rule exI [of _ "uf[?k := uf ! ?k + uf ! ?l, ?l := int ?k]"], rule exI [of _ ?k],
            rule exI [of _ "\<lambda>i. if R i = ?l then ?k else R i"], rule exI [of _ rk'])
           (use r False True in \<open>auto simp: uf_link_def doubleton_eq_iff\<close>)
    next
      case le: False
      obtain rk' where r: "uf_ok n (\<lambda>i. if R i = ?k then ?l else R i) rk' (uf[?l := uf ! ?l + uf ! ?k, ?k := int ?l])"
        "sizes_ok n (\<lambda>i. if R i = ?k then ?l else R i) (uf[?l := uf ! ?l + uf ! ?k, ?k := int ?l])"
        using link_into [OF ok sz B(1) A(1) B(2) A(2)] False by auto
      show ?thesis
        by (rule exI [of _ "uf[?l := uf ! ?l + uf ! ?k, ?k := int ?l]"], rule exI [of _ ?l],
            rule exI [of _ "\<lambda>i. if R i = ?k then ?l else R i"], rule exI [of _ rk'])
           (use r False le in \<open>auto simp: uf_link_def doubleton_eq_iff\<close>)
    qed
  qed
  then obtain uf1 m R' rk' where L: "uf_link ?k ?l uf = (uf1, m)" "uf_ok n R' rk' uf1" "sizes_ok n R' uf1" "R' a = m" "R' b = m"
    "\<forall>i < n. \<forall>j < n. R' i = R' j \<longleftrightarrow> R i = R j \<or> {R i, R j} = {?k, ?l}" by blast
  obtain uf2 where c1: "uf_compress uf1 a m = Some uf2" "uf_ok n R' rk' uf2" "sizes_ok n R' uf2"
    using uf_compress_ok [OF L(2,3) ab(1)] L(4) by auto
  obtain uf3 where c2: "uf_compress uf2 b m = Some uf3" "uf_ok n R' rk' uf3" "sizes_ok n R' uf3"
    using uf_compress_ok [OF c1(2,3) ab(2)] L(5) by auto
  have "uf_unify a b uf = Some uf3"
    using uf_find_ok [OF ok ab(1)] uf_find_ok [OF ok ab(2)] L(1) c1(1) c2(1) by (simp add: uf_unify_def)
  then show ?thesis using c2(2,3) L(6) by blast
qed

section \<open>Clusters\<close>

text \<open>Transitions that share a pre place, and the clusters of this relation.\<close>

definition shares :: "net \<Rightarrow> arrayindex_t \<Rightarrow> arrayindex_t \<Rightarrow> bool" where
  "shares N t u \<longleftrightarrow> (\<exists>p < Card N PL. t \<in> set (Arc N PL POST p) \<and> u \<in> set (Arc N PL POST p))"

definition cluster :: "net \<Rightarrow> arrayindex_t \<Rightarrow> arrayindex_t set" where
  "cluster N t = {u. (shares N)\<^sup>*\<^sup>* t u}"

lemma shares_sym: "(shares N)\<^sup>*\<^sup>* t u \<Longrightarrow> (shares N)\<^sup>*\<^sup>* u t"
proof (induction rule: rtranclp_induct)
  case (step u v)
  have "shares N v u" using step.hyps(2) by (auto simp: shares_def)
  then show ?case using step.IH by (rule converse_rtranclp_into_rtranclp)
qed simp

lemma cluster_range:
  assumes "wf_net N" "t < Card N TR" "u \<in> cluster N t"
  shows "u < Card N TR"
proof -
  have "(shares N)\<^sup>*\<^sup>* t u" using assms(3) by (simp add: cluster_def)
  then show ?thesis
  proof (induction rule: rtranclp_induct)
    case base
    show ?case by (rule assms(2))
  next
    case (step u v)
    then show ?case using wf_net_Arc_less [OF assms(1)] by (fastforce simp: shares_def)
  qed
qed

text \<open>\<open>R\<close> never unites more than the clusters, and unites what was asked for.\<close>

definition within :: "net \<Rightarrow> (nat \<Rightarrow> nat) \<Rightarrow> bool" where
  "within N R \<longleftrightarrow> (\<forall>i < Card N TR. \<forall>j < Card N TR. R i = R j \<longrightarrow> (shares N)\<^sup>*\<^sup>* i j)"

definition united :: "net \<Rightarrow> (nat \<Rightarrow> nat) \<Rightarrow> nat \<Rightarrow> nat list \<Rightarrow> bool" where
  "united N R p js \<longleftrightarrow> (\<forall>j \<in> set js. R (Arc N PL POST p ! j) = R (Arc N PL POST p ! 0))"

definition clusters_inv :: "net \<Rightarrow> arrayindex_t list \<Rightarrow> arrayindex_t \<Rightarrow> nat list \<Rightarrow> union_find \<Rightarrow> bool" where
  "clusters_inv N ps p js uf \<longleftrightarrow> (\<exists>R rk. uf_ok (Card N TR) R rk uf \<and> sizes_ok (Card N TR) R uf \<and> within N R \<and>
     (\<forall>q \<in> set ps. united N R q [1..<CardArcs N PL POST q]) \<and> united N R p js)"

lemma unify_step:
  assumes wf: "wf_net N" and p: "p < Card N PL" "set ps \<subseteq> {..<Card N PL}" "j \<in> set [1..<CardArcs N PL POST p]"
    and js: "set js \<subseteq> set [1..<CardArcs N PL POST p]" and inv: "clusters_inv N ps p js uf"
  shows "\<exists>uf'. uf_unify (Arc N PL POST p ! 0) (Arc N PL POST p ! j) uf = Some uf' \<and> clusters_inv N ps p (js @ [j]) uf'"
proof -
  let ?n = "Card N TR" and ?a = "Arc N PL POST p ! 0" and ?b = "Arc N PL POST p ! j"
  obtain R rk where R: "uf_ok ?n R rk uf" "sizes_ok ?n R uf" "within N R"
    "\<forall>q \<in> set ps. united N R q [1..<CardArcs N PL POST q]" "united N R p js"
    using inv by (auto simp: clusters_inv_def)
  have in': "Arc N PL POST q ! k < ?n" if "q < Card N PL" "k < CardArcs N PL POST q" for q k
    using wf_net_Arc_less [OF wf that(1), of "Arc N PL POST q ! k" POST] that(2) nth_mem [of k "Arc N PL POST q"] by simp
  have ab: "?a < ?n" "?b < ?n" using in' [OF p(1)] p(3) by auto
  have sh: "shares N ?a ?b"
    unfolding shares_def using p(1,3) nth_mem [of _ "Arc N PL POST p"] by (intro exI [of _ p]) auto
  obtain uf' R' rk' where U: "uf_unify ?a ?b uf = Some uf'" "uf_ok ?n R' rk' uf'" "sizes_ok ?n R' uf'"
    "\<And>x y. x < ?n \<Longrightarrow> y < ?n \<Longrightarrow> R' x = R' y \<longleftrightarrow> R x = R y \<or> {R x, R y} = {R ?a, R ?b}"
    using uf_unify_ok [OF R(1,2) ab] by blast
  have "within N R'"
    unfolding within_def
  proof (intro allI impI)
    fix x y
    assume x: "x < ?n" "y < ?n" "R' x = R' y"
    then consider "R x = R y" | "R x = R ?a" "R y = R ?b" | "R x = R ?b" "R y = R ?a"
      using U(4) [OF x(1,2)] by (auto simp: doubleton_eq_iff)
    then show "(shares N)\<^sup>*\<^sup>* x y"
    proof cases
      case 1
      then show ?thesis using R(3) x by (simp add: within_def)
    next
      case 2
      have "(shares N)\<^sup>*\<^sup>* x ?a" "(shares N)\<^sup>*\<^sup>* y ?b" using 2 R(3) x ab by (simp_all add: within_def)
      then show ?thesis using sh shares_sym by (meson rtranclp.rtrancl_into_rtrancl rtranclp_trans)
    next
      case 3
      have "(shares N)\<^sup>*\<^sup>* x ?b" "(shares N)\<^sup>*\<^sup>* y ?a" using 3 R(3) x ab by (simp_all add: within_def)
      then show ?thesis using sh shares_sym by (meson rtranclp.rtrancl_into_rtrancl rtranclp_trans)
    qed
  qed
  moreover have keep: "united N R' q ks" if "united N R q ks" "q < Card N PL" "set ks \<subseteq> set [1..<CardArcs N PL POST q]" for q ks
    unfolding united_def
  proof
    fix k
    assume "k \<in> set ks"
    then have "Arc N PL POST q ! k < ?n" "Arc N PL POST q ! 0 < ?n" "R (Arc N PL POST q ! k) = R (Arc N PL POST q ! 0)"
      using that in' [OF that(2)] by (fastforce simp: united_def)+
    then show "R' (Arc N PL POST q ! k) = R' (Arc N PL POST q ! 0)" using U(4) by simp
  qed
  moreover have "\<forall>q \<in> set ps. united N R' q [1..<CardArcs N PL POST q]" using keep R(4) p(2) by blast
  moreover have "united N R' p (js @ [j])"
    using keep [OF R(5) p(1) js] U(4) [OF ab(2,1)] by (auto simp: united_def)
  ultimately show ?thesis using U(1-3) unfolding clusters_inv_def by blast
qed

lemma unify_place_ok:
  assumes wf: "wf_net N" and p: "p < Card N PL" "set ps \<subseteq> {..<Card N PL}" and inv: "clusters_inv N ps q [] uf"
  shows "\<exists>uf'. unify_place N p uf = Some uf' \<and> clusters_inv N (ps @ [p]) r [] uf'"
proof -
  have "clusters_inv N ps p [] uf" using inv by (auto simp: clusters_inv_def united_def)
  then have "\<exists>uf'. unify_place N p uf = Some uf' \<and> set [1..<CardArcs N PL POST p] \<subseteq> set [1..<CardArcs N PL POST p] \<and>
      clusters_inv N ps p [1..<CardArcs N PL POST p] uf'"
    unfolding unify_place_def
    by (intro fold_option_inv [where I = "\<lambda>js uf. set js \<subseteq> set [1..<CardArcs N PL POST p] \<and> clusters_inv N ps p js uf"])
      (use unify_step [OF wf p] in auto)
  then show ?thesis by (auto simp: clusters_inv_def united_def)
qed

text \<open>After the loop the sets are the clusters.\<close>

lemma unify_all:
  assumes wf: "wf_net N"
  shows "\<exists>uf R rk. fold_option (unify_place N) [0..<Card N PL] (replicate (Card N TR) (- 1)) = Some uf \<and>
    uf_ok (Card N TR) R rk uf \<and> sizes_ok (Card N TR) R uf \<and>
    (\<forall>i < Card N TR. \<forall>j < Card N TR. R i = R j \<longleftrightarrow> (shares N)\<^sup>*\<^sup>* i j)"
proof -
  let ?n = "Card N TR" and ?I = "\<lambda>ps uf. set ps \<subseteq> {..<Card N PL} \<and> clusters_inv N ps 0 [] uf"
  have "{j. j < ?n \<and> j = i} = {i}" if "i < ?n" for i using that by auto
  then have "sizes_ok ?n (\<lambda>i. i) (replicate ?n (- 1))" by (simp add: sizes_ok_def)
  moreover have "uf_ok ?n (\<lambda>i. i) (\<lambda>i. 0) (replicate ?n (- 1))" by (simp add: uf_ok_def)
  ultimately have "clusters_inv N [] 0 [] (replicate ?n (- 1))"
    by (auto simp: clusters_inv_def within_def united_def)
  then have "\<exists>uf. fold_option (unify_place N) [0..<Card N PL] (replicate ?n (- 1)) = Some uf \<and> ?I [0..<Card N PL] uf"
    by (intro fold_option_inv [where I = ?I]) (use unify_place_ok [OF wf] in auto)
  then obtain uf R rk where U: "fold_option (unify_place N) [0..<Card N PL] (replicate ?n (- 1)) = Some uf"
    "uf_ok ?n R rk uf" "sizes_ok ?n R uf" "within N R" "\<forall>q < Card N PL. united N R q [1..<CardArcs N PL POST q]"
    by (auto simp: clusters_inv_def)
  have one: "R i = R j" if sh: "shares N i j" for i j
  proof -
    obtain p where p: "p < Card N PL" "i \<in> set (Arc N PL POST p)" "j \<in> set (Arc N PL POST p)" using sh by (auto simp: shares_def)
    have "R x = R (Arc N PL POST p ! 0)" if x: "x \<in> set (Arc N PL POST p)" for x
    proof -
      obtain k where k: "k < CardArcs N PL POST p" "x = Arc N PL POST p ! k" using x by (auto simp: in_set_conv_nth)
      show ?thesis
      proof (cases "k = 0")
        case False
        then have "k \<in> set [1..<CardArcs N PL POST p]" using k(1) by simp
        then show ?thesis using U(5) p(1) k(2) unfolding united_def by blast
      qed (use k in simp)
    qed
    then show ?thesis using p by simp
  qed
  have "R i = R j" if "(shares N)\<^sup>*\<^sup>* i j" for i j
    using that
  proof (induction rule: rtranclp_induct)
    case (step y z)
    then show ?case using one [OF step.hyps(2)] by simp
  qed simp
  then have "\<forall>i < ?n. \<forall>j < ?n. R i = R j \<longleftrightarrow> (shares N)\<^sup>*\<^sup>* i j"
    using U(4) [unfolded within_def] by blast
  then show ?thesis using U(1-3) by blast
qed

text \<open>The second loop.\<close>

definition sizes_upto :: "nat \<Rightarrow> (nat \<Rightarrow> nat) \<Rightarrow> union_find \<Rightarrow> nat list \<Rightarrow> union_find \<Rightarrow> bool" where
  "sizes_upto n R uf0 is uf \<longleftrightarrow> length uf = n \<and>
     (\<forall>i < n. uf ! i = (if i \<in> set is \<or> R i = i then - int (card {j. j < n \<and> R j = R i}) else uf0 ! i))"

lemma find_upto:
  assumes "uf_ok n R rk uf0" "sizes_upto n R uf0 is uf"
  shows "i < n \<Longrightarrow> \<exists>k. uf_find uf i = Some k \<and> k < n \<and> R k = R i \<and> uf ! k = - int (card {j. j < n \<and> R j = R i}) \<and>
    (k \<noteq> i \<longrightarrow> R i \<noteq> i)"
proof (induction "rk i" arbitrary: i rule: less_induct)
  case less
  note D = uf_okD [OF assms(1) less.prems]
  show ?case
  proof (cases "i \<in> set is \<or> R i = i")
    case True
    then have v: "uf ! i = - int (card {j. j < n \<and> R j = R i})" using assms(2) less.prems by (simp add: sizes_upto_def)
    have "i \<in> {j. j < n \<and> R j = R i}" using less.prems by simp
    then have "0 < card {j. j < n \<and> R j = R i}" by (metis (no_types, lifting) card_gt_0_iff empty_iff finite_nat_set_iff_bounded mem_Collect_eq)
    then have "\<not> 0 \<le> uf ! i" using v by linarith
    then have "uf_find uf i = Some i" by (subst uf_find.simps) (simp only: if_False)
    then show ?thesis using v less.prems by blast
  next
    case False
    then have u: "uf ! i = uf0 ! i" using assms(2) less.prems by (simp add: sizes_upto_def)
    let ?j = "nat (uf0 ! i)"
    have j: "?j < n" "R ?j = R i" "rk ?j < rk i" "\<not> uf0 ! i < 0" using D(3,4) False by auto
    obtain k where "uf_find uf ?j = Some k" "k < n" "R k = R ?j" "uf ! k = - int (card {x. x < n \<and> R x = R ?j})"
      using less.hyps [OF j(3,1)] by blast
    moreover have "uf_find uf i = uf_find uf ?j" using u j(4) by (subst uf_find.simps) (simp add: not_less)
    ultimately show ?thesis using j(2) False by auto
  qed
qed

lemma record_all:
  assumes ok: "uf_ok n R rk uf0" and sz: "sizes_ok n R uf0"
  shows "\<exists>uf. fold_option record_size [0..<n] uf0 = Some uf \<and> length uf = n \<and>
    (\<forall>i < n. uf ! i = - int (card {j. j < n \<and> R j = R i}))"
proof -
  have "sizes_upto n R uf0 [] uf0"
    using ok sz uf_okD(2) [OF ok] by (auto simp: sizes_upto_def sizes_ok_def uf_ok_def)
  moreover have "\<exists>uf'. record_size i uf = Some uf' \<and> sizes_upto n R uf0 (is @ [i]) uf'"
    if inv: "sizes_upto n R uf0 is uf" "i \<in> set [0..<n]" for "is" i uf
  proof -
    have i: "i < n" "length uf = n" using inv by (auto simp: sizes_upto_def)
    obtain k where k: "uf_find uf i = Some k" "R k = R i" "uf ! k = - int (card {j. j < n \<and> R j = R i})" "k \<noteq> i \<longrightarrow> R i \<noteq> i"
      using find_upto [OF ok inv(1) i(1)] by blast
    have "sizes_upto n R uf0 (is @ [i]) (if k \<noteq> i then uf[i := uf ! k] else uf)"
      using inv(1) k(3) i unfolding sizes_upto_def by (auto simp: nth_update_if)
    then show ?thesis using k(1) by (simp add: record_size_def)
  qed
  ultimately have "\<exists>uf. fold_option record_size [0..<n] uf0 = Some uf \<and> sizes_upto n R uf0 [0..<n] uf"
    by (rule fold_option_inv)
  then show ?thesis by (auto simp: sizes_upto_def)
qed

lemma takeWhile_sorted:
  "sorted_wrt (\<lambda>x y. (y::int) \<le> x) xs \<Longrightarrow> \<forall>x \<in> set xs. x \<le> v \<Longrightarrow> i < length xs \<Longrightarrow>
   i < length (takeWhile (\<lambda>x. x = v) xs) \<longleftrightarrow> xs ! i = v"
proof (induction xs arbitrary: i)
  case (Cons x xs)
  show ?case
  proof (cases "x = v")
    case True
    then show ?thesis using Cons by (cases i) auto
  next
    case False
    then have "y < v" if "y \<in> set (x # xs)" for y using Cons.prems(1,2) that by fastforce
    then show ?thesis using False Cons.prems(3) nth_mem [of i "x # xs"] by fastforce
  qed
qed simp

lemma computeConflictClusters_correct:
  assumes wf: "wf_net N"
  shows "\<exists>priority singles. computeConflictClusters N = Some (priority, singles) \<and>
    mset priority = mset [0..<Card N TR] \<and>
    (\<forall>i < Card N TR. i < singles \<longleftrightarrow> cluster N (priority ! i) = {priority ! i}) \<and>
    sorted (map (\<lambda>t. card (cluster N t)) priority)"
proof -
  let ?n = "Card N TR"
  obtain uf0 R rk where U: "fold_option (unify_place N) [0..<Card N PL] (replicate ?n (- 1)) = Some uf0"
    "uf_ok ?n R rk uf0" "sizes_ok ?n R uf0" "\<And>i j. i < ?n \<Longrightarrow> j < ?n \<Longrightarrow> R i = R j \<longleftrightarrow> (shares N)\<^sup>*\<^sup>* i j"
    using unify_all [OF wf] by blast
  obtain uf where F: "fold_option record_size [0..<?n] uf0 = Some uf" "length uf = ?n"
    "\<And>i. i < ?n \<Longrightarrow> uf ! i = - int (card {j. j < ?n \<and> R j = R i})" using record_all [OF U(2,3)] by blast
  have cl: "{j. j < ?n \<and> R j = R i} = cluster N i" if "i < ?n" for i
    using U(4) that cluster_range [OF wf that] shares_sym by (fastforce simp: cluster_def)
  then have size: "uf ! i = - int (card (cluster N i))" if "i < ?n" for i using F(3) that by simp
  let ?z = "zip [0..<?n] uf"
  let ?s = "unionfindsort ?z ?n"
  have lz: "length ?z = ?n" using F(2) by simp
  note q = by_key_desc.qsort3_correct [of ?n ?z 0 snd, folded unionfindsort_def, unfolded lz]
  have S: "mset ?s = mset ?z" "length ?s = ?n" "sorted_wrt (\<lambda>x y. snd y \<le> snd x) ?s"
    using q lz by (auto simp: same_outside_def by_key_desc.sorted_section_def sorted_wrt_iff_nth_less)
  have pair: "snd x = - int (card (cluster N (fst x))) \<and> fst x < ?n" if "x \<in> set ?s" for x
  proof -
    have "x \<in> set ?z" using S(1) that mset_eq_setD by blast
    then show ?thesis using size F(2) by (auto simp: set_zip)
  qed
  let ?pr = "map fst ?s" and ?sg = "length (takeWhile (\<lambda>u. u = - 1) (map snd ?s))"
  have perm: "mset ?pr = mset [0..<?n]"
  proof -
    have "mset ?pr = image_mset fst (mset ?s)" by (rule mset_map)
    also have "\<dots> = mset (map fst ?z)" unfolding S(1) by (rule mset_map [symmetric])
    finally show ?thesis using F(2) by simp
  qed
  have fin: "finite (cluster N t)" "t \<in> cluster N t" if "t < ?n" for t
    using cluster_range [OF wf that] finite_subset [of "cluster N t" "{..<?n}"] by (auto simp: cluster_def)
  have singles: "i < ?sg \<longleftrightarrow> cluster N (?pr ! i) = {?pr ! i}" if i: "i < ?n" for i
  proof -
    let ?t = "?pr ! i"
    have m: "?s ! i \<in> set ?s" using i S(2) by simp
    have t: "?t < ?n" "map snd ?s ! i = - int (card (cluster N ?t))" using pair [OF m] i S(2) by simp_all
    have le: "\<forall>u \<in> set (map snd ?s). u \<le> - 1"
    proof
      fix u
      assume "u \<in> set (map snd ?s)"
      then obtain x where x: "x \<in> set ?s" "u = snd x" by auto
      have "0 < card (cluster N (fst x))" using fin [of "fst x"] pair [OF x(1)] card_gt_0_iff by blast
      then show "u \<le> - 1" using x pair [OF x(1)] by simp
    qed
    have "i < ?sg \<longleftrightarrow> map snd ?s ! i = - 1"
      by (rule takeWhile_sorted) (use S i le in \<open>simp_all add: sorted_wrt_map\<close>)
    also have "\<dots> \<longleftrightarrow> card (cluster N ?t) = 1" using t(2) by simp
    also have "\<dots> \<longleftrightarrow> cluster N ?t = {?t}" using fin [OF t(1)] by (metis card_1_singletonE singletonD is_singletonI is_singleton_altdef)
    finally show ?thesis .
  qed
  have "sorted (map (\<lambda>t. card (cluster N t)) ?pr)"
    unfolding sorted_map sorted_wrt_map
    by (rule sorted_wrt_mono_rel [OF _ S(3)]) (simp add: pair [THEN conjunct1])
  moreover have "computeConflictClusters N = Some (?pr, ?sg)"
    using U(1) F(1) by (simp add: computeConflictClusters_def Let_def)
  ultimately show ?thesis using perm singles by blast
qed

text \<open>That is what the stubborn set method relies on.\<close>

lemma computeConflictClusters_priority:
  assumes wf: "wf_net N" and c: "conflicts_ok N T" and r: "computeConflictClusters N = Some (priority, singles)"
  shows "priority_ok N T priority singles"
proof -
  have C: "mset priority = mset [0..<Card N TR]"
    "\<And>i. i < Card N TR \<Longrightarrow> i < singles \<longleftrightarrow> cluster N (priority ! i) = {priority ! i}"
    using computeConflictClusters_correct [OF wf] r by auto
  have "set (Conflicting T ! t) \<subseteq> {t}" if t: "t < Card N TR" "cluster N t = {t}" for t
  proof
    fix u
    assume "u \<in> set (Conflicting T ! t)"
    then obtain p where p: "p \<in> set (Arc N TR PRE t)" "u \<in> set (Arc N PL POST p)"
      using c t(1) by (auto simp: conflicts_ok_def)
    have "p < Card N PL" "t \<in> set (Arc N PL POST p)"
      using wf_net_Arc_less [OF wf t(1) p(1)] wf_net_Arc_dual [OF wf t(1) p(1)] by simp_all
    then have "shares N t u" using p(2) by (auto simp: shares_def)
    then show "u \<in> {t}" using t(2) by (auto simp: cluster_def)
  qed
  moreover have "priority ! i < Card N TR" if "i < Card N TR" for i
    using mset_eq_setD [OF C(1)] mset_eq_length [OF C(1)] that nth_mem [of i priority] by simp
  ultimately show ?thesis unfolding priority_ok_def using C by blast
qed

end
