(* ===== verification/StubbornPredicate.thy ===== *)
theory StubbornPredicate
  imports UpSets ConflictClusters
begin

text \<open>
  \<open>src/Exploration/FirelistStubbornStatePredicate.cc\<close>: stubborn sets that preserve the reachability of
  a state predicate, from the up set of the predicate; and the searches that use the two stubborn set
  methods.
\<close>

section \<open>getFirelist\<close>

text \<open>The members: the array \<open>onStack\<close> and the deadlock method \<open>dl\<close>, which also carries the static data
  of \<open>Firelist\<close>.\<close>

record sp_firelist =
  onStack :: "bool list"
  dl :: dl_data

text \<open>The loop over the stack: cell \<open>first\<close> is processed next.  The state is the stack with \<open>onStack\<close>,
  the counter \<open>cardEnabled\<close> and the scapegoat data.\<close>

type_synonym closure_state = "(arrayindex_t list \<times> bool list) \<times> arrayindex_t \<times> scapegoat_data"

partial_function (option) sp_closure ::
  "net \<Rightarrow> transition_data \<Rightarrow> netstate \<Rightarrow> arrayindex_t \<Rightarrow> closure_state \<Rightarrow> closure_state option" where
  "sp_closure N T ns first st =
     (if first < length (fst (fst st))
      then let t = fst (fst st) ! first
           in if Enabled ns ! t
              then sp_closure N T ns (first + 1) (push_new (Conflicting T ! t) (fst st), fst (snd st) + 1, snd (snd st))
              else do {
                r \<leftarrow> selectScapegoat N ns t (snd (snd st));
                sp_closure N T ns (first + 1) (push_new (Arc N PL PRE (fst r)) (fst st), fst (snd st), snd r)
              }
      else Some st)"

text \<open>\<open>junk\<close>: what an uninitialised local of \<open>getUpSet\<close> holds.\<close>

definition sp_getFirelist ::
  "net \<Rightarrow> transition_data \<Rightarrow> arrayindex_t list \<Rightarrow> arrayindex_t \<Rightarrow> (netstate \<Rightarrow> addr \<Rightarrow> nat \<Rightarrow> bool) \<Rightarrow> addr \<Rightarrow>
   netstate \<Rightarrow> sp_heap \<Rightarrow> sp_firelist \<Rightarrow> (arrayindex_t list \<times> sp_firelist) option" where
  "sp_getFirelist N T priority singles junk pred ns h f =
     (if CardEnabled ns = 0 then Some ([], f)
      else do {
        let sg = scapegoatNewRound N (scapegoats (dl f));
        u \<leftarrow> getUpSet T (junk ns) h pred ([], onStack f, False);
        c \<leftarrow> sp_closure N T ns 0 ((fst u, fst (snd u)), 0, sg);
        let stk = fst (fst c);
        let off = fold (\<lambda>t on. on[t := False]) stk (snd (fst c));
        let d = (dl f)\<lparr>scapegoats := snd (snd c)\<rparr>;
        if 0 < fst (snd c) \<or> \<not> snd (snd u)
        then Some (rev (filter (\<lambda>t. Enabled ns ! t) stk), f\<lparr>onStack := off, dl := d\<rparr>)
        else do {
          r \<leftarrow> dl_getFirelist N T priority singles ns d;
          Some (fst r, f\<lparr>onStack := off, dl := snd r\<rparr>)
        }
      })"

section \<open>The closure\<close>

text \<open>The part of the stack before \<open>first\<close> has been processed.\<close>

definition closure_ok :: "net \<Rightarrow> transition_data \<Rightarrow> netstate \<Rightarrow> arrayindex_t set \<Rightarrow> nat \<Rightarrow> closure_state \<Rightarrow> bool" where
  "closure_ok N T ns U first st \<longleftrightarrow> stack_ok (Card N TR) (fst st) \<and> U \<subseteq> set (fst (fst st)) \<and>
     first \<le> length (fst (fst st)) \<and>
     fst (snd st) = length (filter (\<lambda>t. Enabled ns ! t) (take first (fst (fst st)))) \<and>
     (\<forall>t \<in> set (take first (fst (fst st))). \<exists>ms. must_ok N T ns t ms \<and> set ms \<subseteq> set (fst (fst st)))"

lemma push_new_prefix: "\<exists>ys. fst (push_new ts st) = fst st @ ys"
proof (induction ts arbitrary: st)
  case Nil
  then show ?case by (simp add: push_new_def)
next
  case (Cons t ts)
  obtain stk on where st: "st = (stk, on)" by (cases st)
  let ?st1 = "if \<not> on ! t then (stk @ [t], on[t := True]) else (stk, on)"
  have "push_new (t # ts) st = push_new ts ?st1" using st by (simp add: push_new_def)
  moreover have "\<exists>zs. fst ?st1 = fst st @ zs" using st by auto
  ultimately show ?case using Cons.IH [of ?st1] by (metis append.assoc)
qed

lemma closure_step:
  assumes ok: "closure_ok N T ns U first ((stk, on), c, sg)" and lt: "first < length stk"
    and ms: "must_ok N T ns (stk ! first) ms"
  shows "closure_ok N T ns U (first + 1)
    (push_new ms (stk, on), (if Enabled ns ! (stk ! first) then c + 1 else c), sg')"
proof -
  have st: "stack_ok (Card N TR) (stk, on)" using ok by (simp add: closure_ok_def)
  have "\<forall>u \<in> set ms. u < Card N TR" using ms by (simp add: must_ok_def)
  note P = push_new_spec [OF st this]
  obtain ys where ys: "fst (push_new ms (stk, on)) = stk @ ys" using push_new_prefix [of ms "(stk, on)"] by auto
  have tk: "take (Suc first) (stk @ ys) = take first stk @ [stk ! first]"
    using lt take_Suc_conv_app_nth [of first "stk @ ys"] by (simp add: nth_append)
  have sub: "set stk \<subseteq> set (stk @ ys)" "set ms \<subseteq> set (stk @ ys)" using P ys by auto
  have "\<exists>ms. must_ok N T ns t ms \<and> set ms \<subseteq> set (stk @ ys)" if "t \<in> set (take (Suc first) (stk @ ys))" for t
  proof -
    have "t \<in> set (take first stk) \<or> t = stk ! first" using that unfolding tk by auto
    then show ?thesis using ok ms sub unfolding closure_ok_def by (metis fst_conv order.trans)
  qed
  then show ?thesis
    using ok P ys lt unfolding closure_ok_def by (auto simp: tk simp del: take_append)
qed

context net_setting
begin

lemma closure_total:
  assumes g: "good ns" and ok: "closure_ok N T ns U first st"
  shows "\<exists>st'. sp_closure N T ns first st = Some st' \<and> closure_ok N T ns U (length (fst (fst st'))) st'"
  using ok
proof (induction "Card N TR - first" arbitrary: first st rule: less_induct)
  case less
  obtain stk on c sg where st: "st = ((stk, on), c, sg)" by (metis surj_pair)
  have so: "stack_ok (Card N TR) (stk, on)" "first \<le> length stk" using less.prems st by (auto simp: closure_ok_def)
  have len: "length stk \<le> Card N TR"
    using so(1) card_mono [of "{..<Card N TR}" "set stk"] by (simp add: stack_ok_def distinct_card)
  show ?case
  proof (cases "first < length stk")
    case True
    let ?t = "stk ! first"
    have t: "?t < Card N TR" using so(1) nth_mem [OF True] by (simp add: stack_ok_def subset_iff)
    have dec: "Card N TR - (first + 1) < Card N TR - first" using True len by simp
    show ?thesis
    proof (cases "Enabled ns ! ?t")
      case en: True
      have "closure_ok N T ns U (first + 1) (push_new (Conflicting T ! ?t) (stk, on), c + 1, sg)"
        using closure_step [OF less.prems [unfolded st] True must_enabled [OF t en], of sg] en by simp
      from less.hyps [OF dec this] show ?thesis using st True en by (subst sp_closure.simps) simp
    next
      case False
      obtain p sg' where p: "selectScapegoat N ns ?t sg = Some (p, sg')" "must_ok N T ns ?t (Arc N PL PRE p)"
        using must_disabled [OF g t False] by blast
      have "closure_ok N T ns U (first + 1) (push_new (Arc N PL PRE p) (stk, on), c, sg')"
        using closure_step [OF less.prems [unfolded st] True p(2), of sg'] False by simp
      from less.hyps [OF dec this] show ?thesis using st True False p(1) by (subst sp_closure.simps) simp
    qed
  next
    case False
    then show ?thesis using less.prems so(2) st by (subst sp_closure.simps) simp
  qed
qed

end

section \<open>The fire list\<close>

text \<open>\<open>F\<close> are the enabled transitions of a stubborn set that every path to \<open>Phi\<close> has to use.\<close>

definition stubborn_for :: "net \<Rightarrow> (marking \<Rightarrow> bool) \<Rightarrow> capacity_t list \<Rightarrow> arrayindex_t set \<Rightarrow> bool" where
  "stubborn_for N Phi m F \<longleftrightarrow>
     (\<exists>S. stubborn N (marking_of m) S \<and> F = {t \<in> S. enabled_at N (marking_of m) t} \<and>
        (\<forall>w M'. firing_sequence N (marking_of m) w M' \<and> Phi M' \<longrightarrow> set w \<inter> S \<noteq> {}))"

lemma stubborn_for_preserving: "preserving N M0 phi (stubborn_for N Phi) Phi"
  unfolding preserving_def
proof (intro allI impI, elim conjE)
  fix m F w M'
  assume "stubborn_for N Phi m F" and w: "firing_sequence N (marking_of m) w M'" "Phi M'"
  then obtain S where S0: "stubborn N (marking_of m) S" "F = {t \<in> S. enabled_at N (marking_of m) t}"
    "\<forall>w M'. firing_sequence N (marking_of m) w M' \<and> Phi M' \<longrightarrow> set w \<inter> S \<noteq> {}"
    unfolding stubborn_for_def by (elim exE conjE)
  have "set w \<inter> S \<noteq> {}" using S0(3) [rule_format, of w M'] w by simp
  note S = S0(1,2) this
  from stubborn_first [OF S(1) w(1) S(3)] S(2) w(2)
  show "\<exists>t \<in> F. \<exists>v M''. t < Card N TR \<and> enabled_at N (marking_of m) t \<and> length v < length w \<and>
      firing_sequence N (fire_at N t (marking_of m)) v M'' \<and> Phi M''" by blast
qed

text \<open>A set that is hit by a path contains a transition of the path, when it is stubborn.\<close>

lemma hit_uses:
  assumes "stubborn N M S" "U \<subseteq> S" "hit N M w M' U" "firing_sequence N M w M'"
  shows "set w \<inter> S \<noteq> {}"
proof
  assume d: "set w \<inter> S = {}"
  obtain t where t0: "t \<in> U" "t \<in> set w \<or> \<not> enabled_at N M t \<and> enabled_at N M' t"
    using assms(3) unfolding hit_def by (elim bexE)
  have t: "t \<in> S" by (rule subsetD [OF assms(2) t0(1)])
  have "t \<notin> set w" using d t by blast
  then have "\<not> enabled_at N M t" "enabled_at N M' t" using t0(2) by simp_all
  then show False using stubborn_disabled [OF assms(1) t _ assms(4) d] by blast
qed

lemma stack_off:
  assumes "stack_ok n (stk, on)"
  shows "fold (\<lambda>t on. on[t := False]) stk on = replicate n False"
proof -
  have f: "length (fold (\<lambda>t on. on[t := False]) xs on) = length on \<and>
      (\<forall>t < length on. fold (\<lambda>t on. on[t := False]) xs on ! t \<longleftrightarrow> on ! t \<and> t \<notin> set xs)" for xs on
    by (induction xs arbitrary: on) (auto simp: nth_update_if)
  show ?thesis using assms f [of stk on] by (intro nth_equalityI) (auto simp: stack_ok_def)
qed

lemma dl_ok_scapegoats [simp]: "dl_ok N (d\<lparr>scapegoats := sg\<rparr>) = dl_ok N d"
  by (simp add: dl_ok_def)

definition sp_fl_ok :: "net \<Rightarrow> sp_firelist \<Rightarrow> bool" where
  "sp_fl_ok N f \<longleftrightarrow> onStack f = replicate (Card N TR) False \<and> dl_ok N (dl f)"

lemma sp_getFirelist_correct:
  assumes set: "sp_setting N T H M0 P h0" and ups: "ups_ok N T h0" and fit: "sums_fit N h0 M0"
    and g: "good_state N H M0 ns" and step: "in_step h0 ns d" and false: "\<not> sp_holds N h0 (Current ns) (predicate P)"
    and f: "sp_fl_ok N f" and prio: "priority_ok N T priority singles"
  shows "\<exists>fl f'. sp_getFirelist N T priority singles junk (predicate P) ns d f = Some (fl, f') \<and> sp_fl_ok N f' \<and>
    stubborn_for N (\<lambda>M. sp_holds N h0 (vec_of N M) (predicate P)) (Current ns) (set fl) \<and>
    (\<forall>t \<in> set fl. t < Card N TR \<and> Enabled ns ! t)"
proof -
  let ?M = "marking_of (Current ns)" and ?Phi = "\<lambda>M. sp_holds N h0 (vec_of N M) (predicate P)" and ?n = "Card N TR"
  have net: "net_setting N T H M0" using set by (simp add: sp_setting_def)
  have en: "enabled_ok N ns" using g by (simp add: good_state_def)
  have iff: "enabled_at N ?M t \<longleftrightarrow> Enabled ns ! t" if "t < ?n" for t
    using net_setting.good_enabled [OF net g that] by simp
  obtain stk0 on0 need where u: "getUpSet T (junk ns) d (predicate P) ([], replicate ?n False, False) = Some (stk0, on0, need)"
    "stack_ok ?n (stk0, on0)"
    "\<And>w M'. firing_sequence N ?M w M' \<Longrightarrow> ?Phi M' \<Longrightarrow> need \<and> dead_at N M' \<or> hit N ?M w M' (set stk0)"
    using up_set_in_step [OF set ups fit g step false, of "junk ns"] by blast
  show ?thesis
  proof (cases "CardEnabled ns = 0")
    case True
    then have dead: "\<not> enabled_at N ?M t" if "t < ?n" for t
      using that iff enabled_ok_count [OF en] enabled_ok_flag [OF en] by (auto simp: dead_vec_def)
    have "\<not> ?Phi M'" if w: "firing_sequence N ?M w M'" for w M'
    proof -
      have "w = []" using w dead by (cases w) auto
      then show ?thesis using w false net_setting.good_vec [OF net g] by auto
    qed
    then have "stubborn_for N ?Phi (Current ns) {}" by (auto simp: stubborn_for_def stubborn_def intro!: exI [of _ "{}"])
    then show ?thesis using True f by (simp add: sp_getFirelist_def)
  next
    case ce: False
    let ?sg = "scapegoatNewRound N (scapegoats (dl f))"
    have "closure_ok N T ns (set stk0) 0 ((stk0, on0), 0, ?sg)" using u(2) by (simp add: closure_ok_def)
    from net_setting.closure_total [OF net g this]
    obtain stk on c sg where cl: "sp_closure N T ns 0 ((stk0, on0), 0, ?sg) = Some ((stk, on), c, sg)"
      "closure_ok N T ns (set stk0) (length stk) ((stk, on), c, sg)" by (metis fst_conv surj_pair)
    have K: "stack_ok ?n (stk, on)" "set stk0 \<subseteq> set stk" "c = length (filter (\<lambda>t. Enabled ns ! t) stk)"
      "\<And>t. t \<in> set stk \<Longrightarrow> \<exists>ms. must_ok N T ns t ms \<and> set ms \<subseteq> set stk" using cl(2) by (auto simp: closure_ok_def)
    have S: "stubborn N ?M (set stk)" by (rule net_setting.must_closed_stubborn [OF net g K(4)])
    have lt: "t < ?n" if "t \<in> set stk" for t using K(1) that by (auto simp: stack_ok_def)
    have uses: "set w \<inter> set stk \<noteq> {}" if "firing_sequence N ?M w M'" "hit N ?M w M' (set stk0)" for w M'
      using hit_uses [OF S K(2) that(2,1)] .
    have fo: "onStack f = replicate ?n False" "dl_ok N (dl f)" using f by (auto simp: sp_fl_ok_def)
    show ?thesis
    proof (cases "0 < c \<or> \<not> need")
      case True
      let ?fl = "rev (filter (\<lambda>t. Enabled ns ! t) stk)"
      have "set w \<inter> set stk \<noteq> {}" if w: "firing_sequence N ?M w M'" "?Phi M'" for w M'
      proof (cases "need \<and> dead_at N M'")
        case nd: True
        then have "filter (\<lambda>t. Enabled ns ! t) stk \<noteq> []" using True K(3) by auto
        then obtain t where "t \<in> set stk" "Enabled ns ! t" by (auto simp: filter_empty_conv)
        then show ?thesis using stubborn_deadlock [OF S _ _ w(1)] nd iff [OF lt] by blast
      next
        case False
        then show ?thesis using u(3) [OF w] uses [OF w(1)] by blast
      qed
      moreover have "set ?fl = {t \<in> set stk. enabled_at N ?M t}" using iff lt by auto
      ultimately have "stubborn_for N ?Phi (Current ns) (set ?fl)" unfolding stubborn_for_def using S by blast
      moreover have "sp_getFirelist N T priority singles junk (predicate P) ns d f =
          Some (?fl, f\<lparr>onStack := replicate ?n False, dl := (dl f)\<lparr>scapegoats := sg\<rparr>\<rparr>)"
        using ce u(1) cl(1) True fo(1) stack_off [OF K(1)] by (simp add: sp_getFirelist_def Let_def)
      ultimately show ?thesis using lt fo by (auto simp: sp_fl_ok_def)
    next
      case False
      then have none: "\<not> enabled_at N ?M t" if "t \<in> set stk" for t
        using K(3) that iff [OF lt [OF that]] by (auto simp: filter_empty_conv)
      have dead: "dead_at N M'" if w: "firing_sequence N ?M w M'" "?Phi M'" for w M'
      proof (rule ccontr)
        assume "\<not> dead_at N M'"
        then have "set w \<inter> set stk \<noteq> {}" using u(3) [OF w] uses [OF w(1)] by blast
        then show False using stubborn_first [OF S w(1)] none by blast
      qed
      have nd: "\<not> dead_vec N (Current ns)" using ce enabled_ok_count [OF en] by simp
      obtain fl d' where dl: "dl_getFirelist N T priority singles ns ((dl f)\<lparr>scapegoats := sg\<rparr>) = Some (fl, d')"
        "deadlock_stubborn N (Current ns) (set fl)" "\<forall>t \<in> set fl. t < ?n \<and> Enabled ns ! t" "dl_ok N d'"
        using net_setting.dl_getFirelist_correct [OF net g nd _ prio, of "(dl f)\<lparr>scapegoats := sg\<rparr>"] fo(2) by auto
      have "stubborn_for N ?Phi (Current ns) (set fl)"
        unfolding stubborn_for_def
      proof -
        obtain S' where S0: "stubborn N ?M S'" "set fl = {t \<in> S'. enabled_at N ?M t}" "set fl \<noteq> {}"
          using dl(2) unfolding deadlock_stubborn_def by blast
        have "\<exists>t. t \<in> set fl" using S0(3) by (simp only: ex_in_conv simp_thms)
        then obtain t where "t \<in> set fl" ..
        then have "t \<in> S'" "enabled_at N ?M t" using S0(2) by simp_all
        note S' = S0(1,2) this
        have "\<forall>w M'. firing_sequence N ?M w M' \<and> ?Phi M' \<longrightarrow> set w \<inter> S' \<noteq> {}"
          using stubborn_deadlock [OF S'(1,3,4)] dead by blast
        then show "\<exists>S. stubborn N ?M S \<and> set fl = {t \<in> S. enabled_at N ?M t} \<and>
          (\<forall>w M'. firing_sequence N ?M w M' \<and> ?Phi M' \<longrightarrow> set w \<inter> S \<noteq> {})" using S'(1,2) by blast
      qed
      moreover have "sp_getFirelist N T priority singles junk (predicate P) ns d f =
          Some (fl, f\<lparr>onStack := replicate ?n False, dl := d'\<rparr>)"
        using ce u(1) cl(1) False fo(1) stack_off [OF K(1)] dl(1) by (simp add: sp_getFirelist_def Let_def)
      ultimately show ?thesis using dl(3,4) by (auto simp: sp_fl_ok_def)
    qed
  qed
qed

section \<open>The reduced searches\<close>

text \<open>The two methods as operations of a search; the private data is \<open>None\<close> once a call did not return.\<close>

definition as_firelist ::
  "(netstate \<Rightarrow> 'p \<Rightarrow> 'f \<Rightarrow> (arrayindex_t list \<times> 'f) option) \<Rightarrow> netstate \<Rightarrow> 'p \<Rightarrow> 'f option \<Rightarrow> arrayindex_t list \<times> 'f option" where
  "as_firelist get ns p f =
     (case Option.bind f (get ns p) of None \<Rightarrow> ([], None) | Some r \<Rightarrow> (fst r, Some (snd r)))"

definition dl_get ::
  "net \<Rightarrow> transition_data \<Rightarrow> arrayindex_t list \<Rightarrow> arrayindex_t \<Rightarrow> netstate \<Rightarrow> unit \<Rightarrow> dl_data option \<Rightarrow>
   arrayindex_t list \<times> dl_data option" where
  "dl_get N T priority singles = as_firelist (\<lambda>ns p. dl_getFirelist N T priority singles ns)"

definition sp_get ::
  "net \<Rightarrow> transition_data \<Rightarrow> arrayindex_t list \<Rightarrow> arrayindex_t \<Rightarrow> (netstate \<Rightarrow> addr \<Rightarrow> nat \<Rightarrow> bool) \<Rightarrow> addr \<Rightarrow>
   netstate \<Rightarrow> sp_heap option \<Rightarrow> sp_firelist option \<Rightarrow> arrayindex_t list \<times> sp_firelist option" where
  "sp_get N T priority singles junk pred =
     as_firelist (\<lambda>ns p f. Option.bind p (\<lambda>h. sp_getFirelist N T priority singles junk pred ns h f))"

definition stubborn_deadlock_ops ::
  "(netstate \<Rightarrow> 's \<Rightarrow> bool \<times> 's) \<Rightarrow> net \<Rightarrow> transition_data \<Rightarrow> arrayindex_t list \<Rightarrow> arrayindex_t \<Rightarrow>
   (unit, 's, dl_data option) search_ops" where
  "stubborn_deadlock_ops store N T priority singles =
     \<lparr>initProperty = deadlock_init, checkProperty = deadlock_check, updateProperty = deadlock_update,
      searchAndInsert = store, getFirelist = dl_get N T priority singles\<rparr>"

definition stubborn_predicate_ops ::
  "sp_property \<Rightarrow> (netstate \<Rightarrow> 's \<Rightarrow> bool \<times> 's) \<Rightarrow> net \<Rightarrow> transition_data \<Rightarrow> arrayindex_t list \<Rightarrow> arrayindex_t \<Rightarrow>
   (netstate \<Rightarrow> addr \<Rightarrow> nat \<Rightarrow> bool) \<Rightarrow> (sp_heap option, 's, sp_firelist option) search_ops" where
  "stubborn_predicate_ops P store N T priority singles junk =
     \<lparr>initProperty = sp_initProperty P, checkProperty = sp_checkProperty P, updateProperty = sp_updateProperty P,
      searchAndInsert = store, getFirelist = sp_get N T priority singles junk (predicate P)\<rparr>"

lemma stubborn_ops_simps [simp]:
  "initProperty (stubborn_deadlock_ops store N T pr sg) = deadlock_init"
  "checkProperty (stubborn_deadlock_ops store N T pr sg) = deadlock_check"
  "updateProperty (stubborn_deadlock_ops store N T pr sg) = deadlock_update"
  "searchAndInsert (stubborn_deadlock_ops store N T pr sg) = store"
  "getFirelist (stubborn_deadlock_ops store N T pr sg) = dl_get N T pr sg"
  "initProperty (stubborn_predicate_ops P store N T pr sg junk) = sp_initProperty P"
  "checkProperty (stubborn_predicate_ops P store N T pr sg junk) = sp_checkProperty P"
  "updateProperty (stubborn_predicate_ops P store N T pr sg junk) = sp_updateProperty P"
  "searchAndInsert (stubborn_predicate_ops P store N T pr sg junk) = store"
  "getFirelist (stubborn_predicate_ops P store N T pr sg junk) = sp_get N T pr sg junk (predicate P)"
  by (simp_all add: stubborn_deadlock_ops_def stubborn_predicate_ops_def)

end
