(* ===== verification/PredicateProps.thy ===== *)
theory PredicateProps
  imports UpSets SearchProps
begin

text \<open>
  The properties of state predicates and of the search for a state predicate.
\<close>

section \<open>A sample formula over the ring net\<close>

text \<open>\<open>p1 >= 1 AND (FIREABLE(t1) OR DEADLOCK)\<close>, as the parser builds it.\<close>

definition sample_node :: sp_node where
  "sample_node = \<lparr>kind = FalsePredicate, sp_value = False, parent = None, position = 0, sp_sum = 0, up = [], sub = [], cardSat = 0\<rparr>"

definition sample_formula :: sp_heap where
  "sample_formula =
     [sample_node\<lparr>kind := Conjunction, sub := [1, 2]\<rparr>,
      sample_node\<lparr>kind := Atomic [] [(1, 1)] (- 1), parent := Some 0\<rparr>,
      sample_node\<lparr>kind := Disjunction, sub := [3, 4], parent := Some 0, position := 1\<rparr>,
      sample_node\<lparr>kind := Fireable 1 True, parent := Some 2\<rparr>,
      sample_node\<lparr>kind := Deadlock True, parent := Some 2, position := 1\<rparr>]"

lemma less_five: "(a::nat) < 5 \<longleftrightarrow> a = 0 \<or> a = 1 \<or> a = 2 \<or> a = 3 \<or> a = 4"
  by auto

lemma sample_formula_ok: "formula_ok ring_net sample_formula 0"
proof -
  have len: "length sample_formula = 5" by (simp add: sample_formula_def)
  have nodes: "sample_formula ! 0 = sample_node\<lparr>kind := Conjunction, sub := [1, 2]\<rparr>"
    "sample_formula ! 1 = sample_node\<lparr>kind := Atomic [] [(1, 1)] (- 1), parent := Some 0\<rparr>"
    "sample_formula ! 2 = sample_node\<lparr>kind := Disjunction, sub := [3, 4], parent := Some 0, position := 1\<rparr>"
    "sample_formula ! 3 = sample_node\<lparr>kind := Fireable 1 True, parent := Some 2\<rparr>"
    "sample_formula ! 4 = sample_node\<lparr>kind := Deadlock True, parent := Some 2, position := 1\<rparr>"
    by (simp_all add: sample_formula_def)
  note nodes = nodes nodes [unfolded One_nat_def]
  have "links_ok sample_formula"
    unfolding links_ok_def len
    by (auto simp: less_five nodes sample_node_def is_inner_def less_two less_Suc_eq)
  moreover have "ranked id sample_formula"
    unfolding ranked_def len by (auto simp: less_five nodes sample_node_def)
  moreover have "\<forall>x < 5. parent (sample_formula ! x) = None \<longleftrightarrow> x = 0"
    by (auto simp: less_five nodes sample_node_def)
  moreover have "\<forall>a < 5. kind_ok ring_net (kind (sample_formula ! a))"
    by (auto simp: less_five nodes sample_node_def)
  moreover have "constants_ok sample_formula"
    unfolding constants_ok_def len by (auto simp: less_five nodes sample_node_def)
  ultimately show ?thesis unfolding formula_ok_def formula_heap_def len by auto
qed


lemma sample_false: "\<not> sp_holds ring_net sample_formula (Current ring_state) 0"
proof -
  have n: "sample_formula ! 0 = sample_node\<lparr>kind := Conjunction, sub := [1, 2]\<rparr>"
    "sample_formula ! Suc 0 = sample_node\<lparr>kind := Atomic [] [(1, 1)] (- 1), parent := Some 0\<rparr>"
    by (simp_all add: sample_formula_def)
  have "\<not> sp_holds ring_net sample_formula (Current ring_state) (Suc 0)"
    by (simp add: sp_holds_simps [of _ _ _ "Suc 0"] n ring_state_def atomic_sum_def word_sle_eq)
  then show ?thesis by (auto simp: sp_holds_simps [of _ _ _ 0] n)
qed

section \<open>Properties\<close>

text \<open>C5: the depth first search for a state predicate, as the code composes it (constructor of the
  property object, full fire list, set of full copies), terminates and decides whether a reachable
  marking satisfies the formula; on true the reported path leads to such a marking.\<close>

theorem depth_first_decides_predicate:
  assumes "search_ready N T H ns" "formula_ok N h r"
  shows "\<exists>P h0 b s. StatePredicateProperty N T r h = Some (P, h0) \<and>
    depth_first N T (predicate_ops P (vstl_store N) N) (Some h0) ns (empty_plugin {}) () = Some (b, s) \<and>
    (b \<longleftrightarrow> (\<exists>M. net_reach N (marking_of (Current ns)) M \<and> sp_holds N h (vec_of N M) r)) \<and>
    (b \<longrightarrow> (\<exists>ts. property_path (prop_stack s) = Some ts \<and>
       firing_sequence N (marking_of (Current ns)) ts (marking_of (Current (cur_ns s))) \<and>
       sp_holds N h (vec_of N (marking_of (Current (cur_ns s)))) r))"
proof -
  obtain P h0 where P: "StatePredicateProperty N T r h = Some (P, h0)"
    using constructor_correct [OF assms(2), of T] by blast
  note S = sp_setting_constructed [OF assms P]
  note R = search_ready_setting [OF assms(1)]
  have "\<exists>b s. depth_first N T (predicate_ops P (vstl_store N) N) (Some h0) ns (empty_plugin {}) () = Some (b, s) \<and>
    (b \<longleftrightarrow> (\<exists>M. net_reach N (marking_of (Current ns)) M \<and> sp_holds N h0 (vec_of N M) (predicate P))) \<and>
    (b \<longrightarrow> (\<exists>ts. property_path (prop_stack s) = Some ts \<and>
       firing_sequence N (marking_of (Current ns)) ts (marking_of (Current (cur_ns s))) \<and>
       sp_holds N h0 (vec_of N (marking_of (Current (cur_ns s)))) (predicate P)))"
    using net_setting.sp_decides [OF R refl S(1)] by (simp add: empty_plugin_def)
  then show ?thesis using P by (simp add: S(2))
qed

theorem depth_first_decides_predicate_witness:
  "\<exists>P h0 b s. StatePredicateProperty ring_net ring_trans 0 sample_formula = Some (P, h0) \<and>
     depth_first ring_net ring_trans (predicate_ops P (vstl_store ring_net) ring_net) (Some h0) ring_state
       (empty_plugin {}) () = Some (b, s)"
  using depth_first_decides_predicate [OF ring_ready sample_formula_ok] by blast

text \<open>C20: \<open>evaluate\<close> returns on every formula tree; the root then has the truth value of the formula, and
  no assertion of \<open>DEBUG__consistency\<close> fails.\<close>

theorem evaluate_exact:
  assumes "formula_ok N h r" "enabled_ok N ns"
  shows "\<exists>h'. evaluate ns r h = Some h' \<and> (sp_value (h' ! r) \<longleftrightarrow> sp_holds N h (Current ns) r) \<and>
    DEBUG__consistency ns r h' = Some True"
proof -
  have F: "formula_heap h r" "\<And>a. a < length h \<Longrightarrow> kind_ok N (kind (h ! a))" using assms(1) by (auto simp: formula_ok_def)
  obtain h' where h': "evaluate ns r h = Some h'" "heap_ok h'" "same_tree h h'"
    "\<forall>x < length h. \<not> is_inner (h ! x) \<longrightarrow> leaf_ok ns h' x" using evaluate_correct [OF F(1)] by blast
  then have step: "in_step h ns h'" by (simp add: in_step_def)
  note T = same_treeD(1,2) [OF h'(3)] same_tree_inner [OF h'(3)]
  have r: "r < length h" "links_ok h" "links_ok h'" using F(1) h'(2) by (auto simp: formula_heap_def heap_ok_def)
  have "sp_value (h' ! r) \<longleftrightarrow> sp_holds N h' (Current ns) r"
    using value_holds [OF h'(2) _ _ assms(2), of r] r(1) T h'(4) F(2) by simp
  then show ?thesis
    using h'(1) sp_holds_same_tree [OF h'(3) r(2,3,1)] debug_consistent [OF step r(1)] by blast
qed

theorem evaluate_exact_witness:
  "\<exists>h'. evaluate ring_state 0 sample_formula = Some h' \<and> \<not> sp_value (h' ! 0)"
  using evaluate_exact [OF sample_formula_ok ring_enabled_ok] sample_false by blast

text \<open>C11: one step of a search: \<open>checkProperty\<close> after firing and \<open>updateProperty\<close> after backtracking
  return, answer with the truth value of the formula in the marking reached, keep the formula tree in step
  (no assertion of \<open>DEBUG__consistency\<close> fails), although they look at the precomputed atoms and
  leaves only.\<close>

theorem check_update_exact:
  assumes "search_ready N T H ns0" "formula_ok N h r" "StatePredicateProperty N T r h = Some (P, h0)"
    and "good_state N H (marking_of (Current ns0)) ns" "in_step h0 ns d" "t < Card N TR" "Enabled ns ! t"
  shows "\<exists>d' d''. sp_checkProperty P (succ_state N T t ns) t (Some d) =
      (sp_holds N h (Current (succ_state N T t ns)) r, Some d') \<and>
    in_step h0 (succ_state N T t ns) d' \<and> DEBUG__consistency (succ_state N T t ns) r d' = Some True \<and>
    sp_updateProperty P ns t (Some d') = (sp_holds N h (Current ns) r, Some d'') \<and>
    in_step h0 ns d'' \<and> DEBUG__consistency ns r d'' = Some True"
proof -
  let ?M0 = "marking_of (Current ns0)" and ?ns = "succ_state N T t ns"
  note S = sp_setting_constructed [OF assms(1-3)]
  have set: "sp_setting N T H ?M0 P h0" using S(1) by (simp add: sp_pstart_def)
  have r: "predicate P = r" "r < length h0"
    using constructor_correct [OF assms(2), of T] assms(3) set
    by (auto simp: sp_setting_def formula_ok_def formula_heap_def)
  have g: "good_state N H ?M0 ?ns"
    by (rule net_setting.good_succ [OF search_ready_setting(1) [OF assms(1)] assms(4,6,7)])
  note st = sp_step [OF set assms(4) g assms(6,7) refl]
  obtain d' where d': "propagate P ?ns (changedPredicate P ! t) t d = Some d'" "in_step h0 ?ns d'"
    using st(1) [OF assms(5)] by blast
  obtain d'' where d'': "propagate P ns (map (\<lambda>(a, s). (a, - s)) (changedPredicate P ! t)) t d' = Some d''" "in_step h0 ns d''"
    using st(2) [OF d'(2)] by blast
  have v: "sp_value (d' ! r) = sp_holds N h (Current ?ns) r" "sp_value (d'' ! r) = sp_holds N h (Current ns) r"
    using in_step_value [OF set d'(2) g] in_step_value [OF set d''(2) assms(4)] S(2) r(1) by simp_all
  show ?thesis
    using d' d'' v r debug_consistent [OF d'(2) r(2)] debug_consistent [OF d''(2) r(2)]
    by (simp add: sp_checkProperty_def sp_updateProperty_def answer_def)
qed

lemma sample_in_step:
  "\<exists>P h0 d. StatePredicateProperty ring_net ring_trans 0 sample_formula = Some (P, h0) \<and> predicate P = 0 \<and>
     in_step h0 ring_state d"
proof -
  obtain P h0 where P: "StatePredicateProperty ring_net ring_trans 0 sample_formula = Some (P, h0)" "predicate P = 0"
    using constructor_correct [OF sample_formula_ok, of ring_trans] by blast
  have "formula_heap h0 (predicate P)"
    using sp_setting_constructed(1) [OF ring_ready sample_formula_ok P(1)]
    by (simp add: sp_pstart_def sp_setting_def formula_ok_def)
  from evaluate_correct [OF this, of ring_state] show ?thesis using P by (auto simp: in_step_def)
qed

lemma ring_good: "good_state ring_net ring_hashes (marking_of (Current ring_state)) ring_state"
  by (rule search_ready_setting(2) [OF ring_ready])

theorem check_update_exact_witness:
  "\<exists>P h0 d d' b. StatePredicateProperty ring_net ring_trans 0 sample_formula = Some (P, h0) \<and>
     sp_checkProperty P (succ_state ring_net ring_trans 0 ring_state) 0 (Some d) = (b, Some d')"
proof -
  obtain P h0 d where P: "StatePredicateProperty ring_net ring_trans 0 sample_formula = Some (P, h0)"
    "in_step h0 ring_state d" using sample_in_step by blast
  have "(0::nat) < Card ring_net TR" "Enabled ring_state ! 0" by (simp_all add: ring_state_def)
  from check_update_exact [OF ring_ready sample_formula_ok P(1) ring_good P(2) this] show ?thesis using P(1) by blast
qed



text \<open>C28: negating an atom complements it, except at the single sum \<open>- 2 ^ 31\<close>, where \<open>sum <= k\<close> and its
  negation hold both.\<close>

theorem negate_atom_exact:
  "leaf_value ns (n\<lparr>kind := negate_leaf (Atomic pos neg thr)\<rparr>) =
     (if sint (atomic_sum pos neg (Current ns)) = - (2 ^ 31) then True
      else \<not> leaf_value ns (n\<lparr>kind := Atomic pos neg thr\<rparr>))"
proof -
  let ?s = "atomic_sum pos neg (Current ns)"
  have b: "- (2 ^ 31) \<le> sint thr" "sint thr < 2 ^ 31" using sint_ge [of thr] sint_lt [of thr] by simp_all
  have neg: "leaf_value ns (n\<lparr>kind := negate_leaf (Atomic pos neg thr)\<rparr>) \<longleftrightarrow> sint (- ?s) \<le> - sint thr - 1"
    by (simp add: leaf_value_def atomic_sum_swap [of neg pos] word_sle_eq sint_complement)
  show ?thesis
  proof (cases "sint ?s = - (2 ^ 31)")
    case True
    have "?s = of_int (sint ?s)" by simp
    then have "?s = of_int (- (2 ^ 31))" unfolding True .
    then have "- ?s = ?s" by simp
    then have "sint (- ?s) = - (2 ^ 31)" unfolding True [symmetric] by (rule arg_cong)
    then show ?thesis using neg True b by simp
  next
    case False
    then show ?thesis using neg sint_uminus [OF False] by (auto simp: leaf_value_def word_sle_eq)
  qed
qed

end
