(* ===== verification/StubbornProps.thy ===== *)
theory StubbornProps
  imports StubbornPredicate PredicateProps
begin

text \<open>
  The depth first searches with the two stubborn set methods meet the contracts of the search, and the
  properties of the reduced searches, of the stubborn set methods and of the conflict clusters.
\<close>

section \<open>The contracts\<close>

text \<open>The constructor of \<open>FirelistStubbornDeadlock\<close>; the arrays \<open>dfs\<close> and \<open>lowlink\<close> hold what the memory
  held before.\<close>

definition FirelistStubbornDeadlock ::
  "net \<Rightarrow> (nat \<Rightarrow> arrayindex_t) \<Rightarrow> (nat \<Rightarrow> arrayindex_t) \<Rightarrow> scapegoat_data \<Rightarrow> dl_data" where
  "FirelistStubbornDeadlock N memory memory' sg =
     \<lparr>dfsStack = [], TarjanStack = [], dfs = map memory [0..<Card N TR], lowlink = map memory' [0..<Card N TR],
      visited = replicate (Card N TR) 0, onTarjanStack = replicate (Card N TR) 0, stamp = 0,
      nextDfs = 0, dfsLastEnabled = 0, scapegoats = sg\<rparr>"

definition FirelistStubbornStatePredicate ::
  "net \<Rightarrow> (nat \<Rightarrow> arrayindex_t) \<Rightarrow> (nat \<Rightarrow> arrayindex_t) \<Rightarrow> scapegoat_data \<Rightarrow> sp_firelist" where
  "FirelistStubbornStatePredicate N memory memory' sg =
     \<lparr>onStack = replicate (Card N TR) False, dl = FirelistStubbornDeadlock N memory memory' sg\<rparr>"

lemma constructors_ok:
  "dl_ok N (FirelistStubbornDeadlock N memory memory' sg)"
  "sp_fl_ok N (FirelistStubbornStatePredicate N memory memory' sg)"
  by (simp_all add: FirelistStubbornDeadlock_def FirelistStubbornStatePredicate_def dl_ok_def sp_fl_ok_def)

definition dl_finv ::
  "net \<Rightarrow> transition_data \<Rightarrow> hash_t list \<Rightarrow> marking \<Rightarrow> arrayindex_t list \<Rightarrow> arrayindex_t \<Rightarrow> dl_data option \<Rightarrow> bool" where
  "dl_finv N T H M0 pr sg f \<longleftrightarrow> net_setting N T H M0 \<and> priority_ok N T pr sg \<and> (\<exists>d. f = Some d \<and> dl_ok N d)"

definition sp_finv ::
  "net \<Rightarrow> transition_data \<Rightarrow> marking \<Rightarrow> sp_heap \<Rightarrow> arrayindex_t list \<Rightarrow> arrayindex_t \<Rightarrow> sp_firelist option \<Rightarrow> bool" where
  "sp_finv N T M0 h0 pr sg f \<longleftrightarrow> ups_ok N T h0 \<and> sums_fit N h0 M0 \<and> priority_ok N T pr sg \<and>
     (\<exists>d. f = Some d \<and> sp_fl_ok N d)"

interpretation dl_fl: firelist_contract N "dl_get N T pr sg" "good_state N H M0" "\<lambda>_ _. True" "dead_vec N"
    "dl_finv N T H M0 pr sg" "deadlock_stubborn N"
  for N T H M0 pr sg
proof (unfold_locales, goal_cases)
  case (1 ns p f l f')
  then obtain d where d: "net_setting N T H M0" "priority_ok N T pr sg" "f = Some d" "dl_ok N d" by (auto simp: dl_finv_def)
  obtain fl d' where r: "dl_getFirelist N T pr sg ns d = Some (fl, d')" "deadlock_stubborn N (Current ns) (set fl)"
    "\<forall>t \<in> set fl. t < Card N TR \<and> Enabled ns ! t" "dl_ok N d'"
    using net_setting.dl_getFirelist_correct [OF d(1) 1(1,3) d(4,2)] by blast
  have "l = fl" "f' = Some d'" using 1(5) r(1) d(3) by (simp_all add: dl_get_def as_firelist_def)
  then show ?case using r d(1,2) by (simp add: dl_finv_def)
qed

interpretation sp_fl: firelist_contract N "sp_get N T pr sg junk (predicate P)" "good_state N H M0" "sp_pinv N T H M0 P h0"
    "\<lambda>m. sp_holds N h0 m (predicate P)" "sp_finv N T M0 h0 pr sg"
    "stubborn_for N (\<lambda>M. sp_holds N h0 (vec_of N M) (predicate P))"
  for N T H M0 pr sg junk P h0
proof (unfold_locales, goal_cases)
  case (1 ns p f l f')
  then obtain h where h: "sp_setting N T H M0 P h0" "p = Some h" "in_step h0 ns h" by (auto simp: sp_pinv_def)
  obtain d where d: "ups_ok N T h0" "sums_fit N h0 M0" "priority_ok N T pr sg" "f = Some d" "sp_fl_ok N d"
    using 1(4) by (auto simp: sp_finv_def)
  obtain fl d' where r: "sp_getFirelist N T pr sg junk (predicate P) ns h d = Some (fl, d')" "sp_fl_ok N d'"
    "stubborn_for N (\<lambda>M. sp_holds N h0 (vec_of N M) (predicate P)) (Current ns) (set fl)"
    "\<forall>t \<in> set fl. t < Card N TR \<and> Enabled ns ! t"
    using sp_getFirelist_correct [OF h(1) d(1,2) 1(1) h(3) 1(3) d(5,3)] by blast
  have "l = fl" "f' = Some d'" using 1(5) r(1) d(4) h(2) by (simp_all add: sp_get_def as_firelist_def)
  then show ?case using r d(1-3) by (simp add: sp_finv_def)
qed

sublocale net_setting \<subseteq> st_dl_walk: walk_contract N T H M0 "stubborn_deadlock_ops store N T pr sg"
    "\<lambda>_. True" "\<lambda>_ _. True" "dead_vec N" "dl_finv N T H M0 pr sg" "deadlock_stubborn N" for store pr sg
  by (rule walk_contract.intro [OF net_setting_axioms]; unfold stubborn_ops_simps) unfold_locales

sublocale net_setting \<subseteq> st_dl: search_contract N T H M0 "stubborn_deadlock_ops (vstl_store N) N T pr sg"
    "\<lambda>_. True" "\<lambda>_ _. True" "dead_vec N" "dl_finv N T H M0 pr sg" "deadlock_stubborn N" "\<lambda>_. True" vectorStore
  for pr sg
  by (rule search_contract.intro [OF st_dl_walk.walk_contract_axioms]; unfold stubborn_ops_simps) unfold_locales

sublocale net_setting \<subseteq> st_sp_walk: walk_contract N T H M0 "stubborn_predicate_ops P store N T pr sg junk"
    "sp_pstart N T H M0 P h0" "sp_pinv N T H M0 P h0" "\<lambda>m. sp_holds N h0 m (predicate P)"
    "sp_finv N T M0 h0 pr sg" "stubborn_for N (\<lambda>M. sp_holds N h0 (vec_of N M) (predicate P))"
  for P store pr sg junk h0
  by (rule walk_contract.intro [OF net_setting_axioms]; unfold stubborn_ops_simps) unfold_locales

sublocale net_setting \<subseteq> st_sp: search_contract N T H M0 "stubborn_predicate_ops P (vstl_store N) N T pr sg junk"
    "sp_pstart N T H M0 P h0" "sp_pinv N T H M0 P h0" "\<lambda>m. sp_holds N h0 m (predicate P)"
    "sp_finv N T M0 h0 pr sg" "stubborn_for N (\<lambda>M. sp_holds N h0 (vec_of N M) (predicate P))" "\<lambda>_. True" vectorStore
  for P pr sg junk h0
  by (rule search_contract.intro [OF st_sp_walk.walk_contract_axioms]; unfold stubborn_ops_simps) unfold_locales

context net_setting
begin

lemmas st_deadlock_decides = st_dl.depth_first_decides [OF _ _ _ _ _ _ deadlock_stubborn_preserving dead_vec_at]
  and st_predicate_decides = st_sp.depth_first_decides [OF _ _ _ _ _ _ stubborn_for_preserving sp_vec]

end

section \<open>Properties\<close>

lemma ready_priority:
  assumes "search_ready N T H ns" "computeConflictClusters N = Some (pr, sg)"
  shows "priority_ok N T pr sg"
  using assms computeConflictClusters_priority by (auto simp: search_ready_def)

text \<open>C4: the depth first search with deadlock preserving stubborn sets terminates, and although it
  fires a part of the enabled transitions only, it decides whether a deadlock is reachable; on true, the
  path it reports leads to a deadlock.\<close>

theorem stubborn_decides_deadlock:
  assumes "search_ready N T H ns" "computeConflictClusters N = Some (pr, sg)"
  shows "\<exists>b s. depth_first N T (stubborn_deadlock_ops (vstl_store N) N T pr sg) () ns (empty_plugin {})
      (Some (FirelistStubbornDeadlock N memory memory' scapegoats0)) = Some (b, s) \<and>
    (b \<longleftrightarrow> (\<exists>M. net_reach N (marking_of (Current ns)) M \<and> dead_at N M)) \<and>
    (b \<longrightarrow> (\<exists>ts. property_path (prop_stack s) = Some ts \<and>
       firing_sequence N (marking_of (Current ns)) ts (marking_of (Current (cur_ns s))) \<and>
       dead_at N (marking_of (Current (cur_ns s)))))"
proof -
  note R = search_ready_setting [OF assms(1)]
  have "dl_finv N T H (marking_of (Current ns)) pr sg (Some (FirelistStubbornDeadlock N memory memory' scapegoats0))"
    using R(1) ready_priority [OF assms] constructors_ok(1) by (simp add: dl_finv_def)
  from net_setting.st_deadlock_decides [OF R refl _ _ _ this] show ?thesis by (simp add: empty_plugin_def)
qed

theorem stubborn_decides_deadlock_witness:
  "\<exists>pr sg b s. computeConflictClusters ring_net = Some (pr, sg) \<and>
     depth_first ring_net ring_trans (stubborn_deadlock_ops (vstl_store ring_net) ring_net ring_trans pr sg) () ring_state
       (empty_plugin {}) (Some (FirelistStubbornDeadlock ring_net id id \<lparr>usedAsScapegoat = [0, 0], timestampScapegoat = 0\<rparr>)) =
       Some (b, s)"
proof -
  obtain pr sg where p: "computeConflictClusters ring_net = Some (pr, sg)"
    using computeConflictClusters_correct [OF ring_wf] by blast
  show ?thesis using stubborn_decides_deadlock [OF ring_ready p] p by blast
qed






text \<open>C14: \<open>Net::computeConflictClusters\<close> terminates; the priority list is a permutation of the
  transitions, sorted by the size of their conflict clusters (the classes of the transitive closure of
  sharing a pre place), and \<open>SingletonClusters\<close> counts the transitions that are alone in theirs.\<close>

theorem computeConflictClusters_exact:
  assumes "wf_net N"
  shows "\<exists>priority singles. computeConflictClusters N = Some (priority, singles) \<and>
    mset priority = mset [0..<Card N TR] \<and>
    (\<forall>i < Card N TR. i < singles \<longleftrightarrow> cluster N (priority ! i) = {priority ! i}) \<and>
    sorted (map (\<lambda>t. card (cluster N t)) priority)"
  using computeConflictClusters_correct [OF assms] .

theorem computeConflictClusters_exact_witness:
  "\<exists>priority singles. computeConflictClusters ring_net = Some (priority, singles) \<and> mset priority = mset [0..<2]"
  using computeConflictClusters_exact [OF ring_wf] by auto

end
