(* ===== verification/Encoders.thy ===== *)
theory Encoders
  imports Stores "HOL-Library.Monad_Syntax"
begin

text \<open>
  The bit packing encoders of \<open>src/Stores/NetStateEncoder\<close>: \<open>BitEncoder\<close>, which writes every
  significant place with its number of bits, and \<open>SimpleCompressedEncoder\<close>, which writes a prefix code.
  Both fill an array of words from the most significant bit on.  They are shown to write exactly the
  concatenation of the codes of the places, and the vectors they produce to determine the marking.
\<close>

unbundle bit_operations_syntax

section \<open>Writing bits into words\<close>

text \<open>An output position: the words, the index of the current word (\<open>pInput\<close>) and the number of its
  bits that are still free (\<open>input_bitstogo\<close>).\<close>

type_synonym bit_output = "vectordata_t list \<times> nat \<times> nat"

text \<open>\<open>PLACE_WIDTH\<close> equals \<open>VECTOR_WIDTH\<close>; the value is cut to its low bits, aligned with the free
  part of the word and cut again at the end of the word.\<close>

definition fragment :: "capacity_t \<Rightarrow> nat \<Rightarrow> nat \<Rightarrow> vectordata_t" where
  "fragment val numbits go = drop_bit (VECTOR_WIDTH - go) (push_bit (VECTOR_WIDTH - numbits) val)"

definition or_at :: "vectordata_t list \<Rightarrow> nat \<Rightarrow> vectordata_t \<Rightarrow> vectordata_t list" where
  "or_at ws i w = ws[i := ws ! i OR w]"

section \<open>SimpleCompressedEncoder\<close>

partial_function (option) addToInput :: "capacity_t \<Rightarrow> nat \<Rightarrow> bit_output \<Rightarrow> bit_output option" where
  "addToInput val numbits out =
     (if numbits = 0 then Some out
      else case out of (ws, i, go) \<Rightarrow>
        let ws1 = or_at ws i (fragment val numbits go)
        in if go \<le> numbits then addToInput val (numbits - go) (ws1, i + 1, VECTOR_WIDTH)
           else Some (ws1, i, go - numbits))"

text \<open>The loop that determines the length of the code word and its payload; the number of code
  words of the current length is a 32 bit value and overflows to 0.\<close>

partial_function (option) code_word :: "nat \<Rightarrow> capacity_t \<Rightarrow> capacity_t \<Rightarrow> (nat \<times> capacity_t) option" where
  "code_word prefix_length curMarking num_elems =
     (if num_elems \<le> curMarking
      then code_word (prefix_length + 1) (curMarking - num_elems) (push_bit 1 num_elems)
      else Some (prefix_length, curMarking))"

definition encode_place :: "capacity_t \<Rightarrow> bit_output \<times> nat \<Rightarrow> (bit_output \<times> nat) option" where
  "encode_place m st =
     do {
       c \<leftarrow> code_word 1 m 2;
       o1 \<leftarrow> addToInput 1 (fst c) (fst st);
       o2 \<leftarrow> addToInput (snd c) (fst c) o1;
       Some (o2, snd st + 2 * fst c)
     }"

definition SimpleCompressed_insize :: "nat \<Rightarrow> nat" where
  "SimpleCompressed_insize CardSignificant = (2 * CardSignificant * VECTOR_WIDTH + VECTOR_WIDTH - 1) div VECTOR_WIDTH"

definition SimpleCompressedEncoder_encodeNetState :: "nat \<Rightarrow> netstate \<Rightarrow> (vectordata_t list \<times> nat) option" where
  "SimpleCompressedEncoder_encodeNetState CardSignificant ns =
     do {
       r \<leftarrow> fold_option encode_place (map (\<lambda>p. Current ns ! p) [0..<CardSignificant])
              ((replicate (SimpleCompressed_insize CardSignificant) 0, 0, VECTOR_WIDTH), 0);
       Some (fst (fst r), snd r)
     }"

section \<open>BitEncoder\<close>

definition BitEncoder_insize :: "nat \<Rightarrow> nat" where
  "BitEncoder_insize SizeOfBitVector = (SizeOfBitVector + VECTOR_WIDTH - 1) div VECTOR_WIDTH"

fun memcpylen_loop :: "cardbit_t list \<Rightarrow> nat \<Rightarrow> nat \<Rightarrow> nat" where
  "memcpylen_loop CardBits 0 len = len"
| "memcpylen_loop CardBits (Suc k) len = (if CardBits ! len = VECTOR_WIDTH then memcpylen_loop CardBits k (len + 1) else len)"

definition memcpylen :: "cardbit_t list \<Rightarrow> nat \<Rightarrow> nat" where
  "memcpylen CardBits SizeOfBitVector = memcpylen_loop CardBits (BitEncoder_insize SizeOfBitVector) 0"

partial_function (option) bit_loop ::
  "cardbit_t list \<Rightarrow> nat \<Rightarrow> capacity_t list \<Rightarrow> arrayindex_t \<Rightarrow> nat \<Rightarrow> bit_output \<Rightarrow> vectordata_t list option" where
  "bit_loop CardBits CardSignificant m p place_go out =
     (case out of (ws, i, go) \<Rightarrow>
        let ws1 = or_at ws i (fragment (m ! p) place_go go)
        in if place_go < go
           then if CardSignificant \<le> p + 1 then Some ws1
                else bit_loop CardBits CardSignificant m (p + 1) (CardBits ! (p + 1)) (ws1, i, go - place_go)
           else if go < place_go
           then bit_loop CardBits CardSignificant m p (place_go - go) (ws1, i + 1, VECTOR_WIDTH)
           else if CardSignificant \<le> p + 1 then Some ws1
                else bit_loop CardBits CardSignificant m (p + 1) (CardBits ! (p + 1)) (ws1, i + 1, VECTOR_WIDTH))"

text \<open>\<open>old\<close> is what the input vector of the thread held before.\<close>

definition BitEncoder_encodeNetState ::
  "cardbit_t list \<Rightarrow> nat \<Rightarrow> nat \<Rightarrow> vectordata_t list \<Rightarrow> netstate \<Rightarrow> (vectordata_t list \<times> nat) option" where
  "BitEncoder_encodeNetState CardBits CardSignificant SizeOfBitVector old ns =
     (let mlen = memcpylen CardBits SizeOfBitVector;
          copied = take mlen (Current ns) @ drop mlen old
      in if CardSignificant \<le> mlen then Some (copied, SizeOfBitVector)
         else do {
           ws \<leftarrow> bit_loop CardBits CardSignificant (Current ns) mlen (CardBits ! mlen)
                   (take mlen copied @ replicate (BitEncoder_insize SizeOfBitVector - mlen) 0, mlen, VECTOR_WIDTH);
           Some (ws, SizeOfBitVector)
         })"

section \<open>Streams of bits\<close>

text \<open>The low \<open>n\<close> bits of a word, most significant first.\<close>

definition bits_msb :: "nat \<Rightarrow> 32 word \<Rightarrow> bool list" where
  "bits_msb n w = map (\<lambda>j. bit w (n - 1 - j)) [0..<n]"

lemma length_bits_msb [simp]: "length (bits_msb n w) = n"
  by (simp add: bits_msb_def)

lemma nth_bits_msb [simp]: "j < n \<Longrightarrow> bits_msb n w ! j = bit w (n - 1 - j)"
  by (simp add: bits_msb_def)

definition stream_bit :: "vectordata_t list \<Rightarrow> nat \<Rightarrow> bool" where
  "stream_bit ws j = bit (ws ! (j div 32)) (31 - j mod 32)"

text \<open>The words hold the bits \<open>bs\<close> and zeros behind them.\<close>

definition stream :: "vectordata_t list \<Rightarrow> bool list \<Rightarrow> bool" where
  "stream ws bs \<longleftrightarrow> length bs \<le> 32 * length ws \<and>
     (\<forall>j < 32 * length ws. stream_bit ws j \<longleftrightarrow> j < length bs \<and> bs ! j)"

definition at_end :: "nat \<Rightarrow> nat \<Rightarrow> bool list \<Rightarrow> bool" where
  "at_end i go bs \<longleftrightarrow> 0 < go \<and> go \<le> 32 \<and> length bs + go = 32 * i + 32"

lemma bit_position:
  fixes i n :: nat
  assumes "n < 32"
  shows "(32 * i + (31 - n)) div 32 = i" "31 - (32 * i + (31 - n)) mod 32 = n"
proof -
  show "(32 * i + (31 - n)) div 32 = i" using assms by simp
  have "(32 * i + (31 - n)) mod 32 = 31 - n" by (subst mod_mult_self4) simp
  then show "31 - (32 * i + (31 - n)) mod 32 = n" using assms by (simp only:)
qed

lemma stream_zero [simp]: "stream (replicate n 0) []"
  by (auto simp: stream_def stream_bit_def)

lemma bit_fragment:
  assumes "0 < k" "k \<le> 32" "0 < go" "go \<le> 32" "n < 32"
  shows "bit (fragment v k go) n \<longleftrightarrow> n < go \<and> go \<le> n + k \<and> bit v (n + k - go)"
proof -
  have eq: "n + (32 - go) - (32 - k) = n + k - go" using assms by linarith
  show ?thesis
    using assms bit_imp_le_length [of v "n + k - go"]
    by (auto simp: fragment_def VECTOR_WIDTH_def bit_simps eq)
qed

lemma stream_write:
  assumes s: "stream ws bs" and e: "at_end i go bs" and k: "0 < k" "k \<le> 32"
    and room: "length bs + min k go \<le> 32 * length ws"
  shows "stream (or_at ws i (fragment v k go)) (bs @ take (min k go) (bits_msb k v))"
    "length (or_at ws i (fragment v k go)) = length ws"
proof -
  let ?ws = "or_at ws i (fragment v k go)" and ?bs = "bs @ take (min k go) (bits_msb k v)"
  have go: "0 < go" "go \<le> 32" and len: "length bs + go = 32 * i + 32" using e by (auto simp: at_end_def)
  have i: "i < length ws" using room len k go by (auto simp: min_def split: if_splits)
  have "stream_bit ?ws j \<longleftrightarrow> j < length ?bs \<and> ?bs ! j" if j: "j < 32 * length ws" for j
  proof (cases "j div 32 = i")
    case False
    have "j < length bs \<or> length bs + go \<le> j"
    proof (cases "j div 32 < i")
      case True
      then have "j < 32 * i" by (simp add: div_less_iff_less_mult mult.commute)
      then show ?thesis using len go by linarith
    next
      case ge: False
      then have "i + 1 \<le> j div 32" using False by simp
      then have "(i + 1) * 32 \<le> j" by (simp add: less_eq_div_iff_mult_less_eq)
      then show ?thesis using len by simp
    qed
    moreover have "stream_bit ?ws j = stream_bit ws j"
      using False by (simp add: stream_bit_def or_at_def nth_update_if)
    ultimately show ?thesis using s j by (auto simp: stream_def nth_append)
  next
    case True
    define n where "n = 31 - j mod 32"
    have n: "n < 32" by (simp add: n_def)
    have "j = 32 * i + j mod 32" using True by (metis mult_div_mod_eq)
    then have jn: "j + n = 32 * i + 31" by (simp add: n_def)
    then have pos: "j < length bs \<longleftrightarrow> go \<le> n" using len by linarith
    have old: "bit (ws ! i) n \<longleftrightarrow> j < length bs \<and> bs ! j"
      using s j True by (auto simp: stream_def stream_bit_def n_def)
    have "stream_bit ?ws j \<longleftrightarrow> bit (ws ! i) n \<or> bit (fragment v k go) n"
      using True i by (simp add: stream_bit_def or_at_def n_def bit_or_iff)
    also have "\<dots> \<longleftrightarrow> (j < length bs \<and> bs ! j) \<or> (n < go \<and> go \<le> n + k \<and> bit v (n + k - go))"
      using old bit_fragment [OF k go n] by simp
    also have "\<dots> \<longleftrightarrow> j < length ?bs \<and> ?bs ! j"
    proof (cases "j < length bs")
      case True
      then show ?thesis using pos by (auto simp: nth_append)
    next
      case False
      define d where "d = j - length bs"
      have d: "j = length bs + d" using False by (simp add: d_def)
      have ng: "n < go" using pos False by simp
      have dn: "d + n + 1 = go" using d jn len by linarith
      have "?bs ! j = bit v (n + k - go)" if "d < k"
        using that dn d by (simp add: nth_append) (metis (no_types) Nat.add_diff_assoc2 add.commute add_diff_cancel_right diff_diff_left less_imp_le_nat Suc_eq_plus1 Suc_leI)
      then show ?thesis using False ng dn d by auto
    qed
    finally show ?thesis .
  qed
  then show "stream ?ws ?bs" using room by (auto simp: stream_def or_at_def)
  show "length ?ws = length ws" by (simp add: or_at_def)
qed

lemma bits_msb_split: "g \<le> n \<Longrightarrow> bits_msb n v = take g (bits_msb n v) @ bits_msb (n - g) v"
  by (intro nth_equalityI) (auto simp: nth_append)

lemma at_end_full: "at_end i go bs \<Longrightarrow> length xs = go \<Longrightarrow> at_end (i + 1) 32 (bs @ xs)"
  by (simp add: at_end_def)

lemma at_end_part: "at_end i go bs \<Longrightarrow> length xs < go \<Longrightarrow> at_end i (go - length xs) (bs @ xs)"
  by (auto simp: at_end_def)

definition out_ok :: "bit_output \<Rightarrow> nat \<Rightarrow> bool list \<Rightarrow> bool" where
  "out_ok out n bs \<longleftrightarrow> (case out of (ws, i, go) \<Rightarrow> stream ws bs \<and> at_end i go bs \<and> length ws = n)"

lemma out_ok_zero: "out_ok (replicate n 0, 0, VECTOR_WIDTH) n []"
  by (simp add: out_ok_def at_end_def VECTOR_WIDTH_def)

lemma addToInput_correct:
  assumes "out_ok out n bs" "k \<le> 32" "length bs + k \<le> 32 * n"
  shows "\<exists>out'. addToInput v k out = Some out' \<and> out_ok out' n (bs @ bits_msb k v)"
  using assms
proof (induction k arbitrary: out bs rule: less_induct)
  case (less k)
  obtain ws i go where out: "out = (ws, i, go)" by (cases out)
  have o: "stream ws bs" "at_end i go bs" "length ws = n" using less.prems(1) by (auto simp: out out_ok_def)
  have go: "0 < go" "go \<le> 32" using o(2) by (auto simp: at_end_def)
  let ?ws = "or_at ws i (fragment v k go)"
  show ?case
  proof (cases "k = 0")
    case True
    then show ?thesis using less.prems(1) by (subst addToInput.simps) (simp add: bits_msb_def)
  next
    case False
    note w = stream_write [OF o(1,2) _ less.prems(2), of v] less.prems(3) o(3)
    show ?thesis
    proof (cases "go \<le> k")
      case True
      have s: "out_ok (?ws, i + 1, VECTOR_WIDTH) n (bs @ take go (bits_msb k v))"
        using w False True at_end_full [OF o(2), of "take go (bits_msb k v)"] less.prems(3)
        by (simp add: out_ok_def VECTOR_WIDTH_def min_absorb2)
      obtain out' where "addToInput v (k - go) (?ws, i + 1, VECTOR_WIDTH) = Some out'"
        "out_ok out' n ((bs @ take go (bits_msb k v)) @ bits_msb (k - go) v)"
        using less.IH [OF _ s, of "k - go"] False True go less.prems(2,3) by fastforce
      then show ?thesis
        using False True bits_msb_split [OF True, of v] by (subst addToInput.simps) (simp add: out Let_def)
    next
      case ge: False
      have "out_ok (?ws, i, go - k) n (bs @ bits_msb k v)"
        using w False ge at_end_part [OF o(2), of "bits_msb k v"] less.prems(3)
        by (simp add: out_ok_def min_absorb1)
      then show ?thesis using False ge by (subst addToInput.simps) (simp add: out Let_def)
    qed
  qed
qed

section \<open>The prefix code\<close>

text \<open>The loop returns for the markings below \<open>2 ^ 32 - 2\<close>; the length and the payload it finds
  determine the marking.\<close>

lemma code_word_loop:
  assumes "0 < n" "unat c + 2 ^ n < 2 ^ 32"
  shows "\<exists>k d. code_word n c (2 ^ n) = Some (k, d) \<and> 0 < k \<and> k < 32 \<and> unat d < 2 ^ k \<and>
    unat d + 2 ^ k = unat c + 2 ^ n"
  using assms
proof (induction "unat c" arbitrary: n c rule: less_induct)
  case less
  have n: "n < 32"
  proof (rule ccontr)
    assume "\<not> n < 32"
    then have "(2::nat) ^ 32 \<le> 2 ^ n" by (intro power_increasing) auto
    then show False using less.prems by linarith
  qed
  have "(2::nat) ^ n < 2 ^ 32" by (rule power_strict_increasing [OF n]) simp
  then have pw: "unat (2 ^ n :: 32 word) = 2 ^ n"
    using unat_of_nat [of "2 ^ n", where 'a = 32] by simp
  show ?case
  proof (cases "2 ^ n \<le> c")
    case True
    have u: "unat (c - 2 ^ n) + 2 ^ n = unat c" using True pw by (simp add: unat_sub word_le_nat_alt)
    have dec: "unat (c - 2 ^ n) < unat c" unfolding u [symmetric] by simp
    have room: "unat (c - 2 ^ n) + 2 ^ (n + 1) < 2 ^ 32" using u less.prems(2) by simp
    have "\<exists>k d. code_word (n + 1) (c - 2 ^ n) (2 ^ (n + 1)) = Some (k, d) \<and> 0 < k \<and> k < 32 \<and> unat d < 2 ^ k \<and>
        unat d + 2 ^ k = unat (c - 2 ^ n) + 2 ^ (n + 1)"
      by (rule less.hyps [OF dec _ room]) simp
    moreover have "push_bit 1 (2 ^ n) = (2 ^ (n + 1) :: 32 word)" by (simp add: push_bit_eq_mult)
    moreover have "unat (c - 2 ^ n) + 2 ^ (n + 1) = unat c + 2 ^ n" using u by simp
    ultimately show ?thesis using True by (subst code_word.simps) (simp only: if_True)
  next
    case False
    then show ?thesis using n less.prems(1) pw
      by (subst code_word.simps) (simp add: word_le_nat_alt)
  qed
qed

lemma code_word_total:
  assumes "unat m + 2 < 2 ^ 32"
  shows "\<exists>k d. code_word 1 m 2 = Some (k, d) \<and> 0 < k \<and> k < 32 \<and> unat d < 2 ^ k \<and> unat d + 2 ^ k = unat m + 2"
  using code_word_loop [of 1 m] assms by simp

text \<open>Once the number of code words has wrapped round to 0, the loop never ends.\<close>

lemma code_word_stuck: "code_word n c 0 = None"
proof -
  have "w \<noteq> 0" if "code_word k d w = Some y" for k d w y
    using that
  proof (rule code_word.raw_induct [rotated, where P = "\<lambda>k d w y. w \<noteq> 0"], goal_cases)
    case (1 f k d w y)
    show ?case
    proof
      assume "w = 0"
      then show False using 1(1) [of "k + 1" d 0 y] 1(2) by simp
    qed
  qed
  from this [of n c 0] show ?thesis by (cases "code_word n c 0") auto
qed

lemma code_word_diverges:
  assumes "0 < n" "n \<le> 32" "2 ^ 32 \<le> unat c + 2 ^ n"
  shows "code_word n c (2 ^ n) = None"
  using assms
proof (induction "32 - n" arbitrary: n c)
  case 0
  then have "n = 32" by simp
  moreover have "(2 ^ 32 :: 32 word) = 0" by (rule exp_eq_zero_iff [THEN iffD2]) simp
  ultimately show ?case using code_word_stuck by (simp only:)
next
  case (Suc k)
  then have n: "n < 32" by simp
  have "(2::nat) ^ n < 2 ^ 32" by (rule power_strict_increasing [OF n]) simp
  then have pw: "unat (2 ^ n :: 32 word) = 2 ^ n" using unat_of_nat [of "2 ^ n", where 'a = 32] by simp
  have "(2::nat) ^ (n + 1) \<le> 2 ^ 32" using n by (intro power_increasing) auto
  then have le: "2 ^ n \<le> unat c" using Suc.prems(3) by simp
  then have u: "unat (c - 2 ^ n) + 2 ^ n = unat c" using pw by (simp add: unat_sub word_le_nat_alt)
  have "code_word (n + 1) (c - 2 ^ n) (2 ^ (n + 1)) = None"
    using Suc.hyps(2) Suc.prems n u by (intro Suc.hyps(1)) auto
  moreover have "push_bit 1 (2 ^ n) = (2 ^ (n + 1) :: 32 word)" by (simp add: push_bit_eq_mult)
  ultimately show ?case using le pw by (subst code_word.simps) (simp only: word_le_nat_alt if_True)
qed

definition place_code :: "capacity_t \<Rightarrow> bool list" where
  "place_code m = (case code_word 1 m 2 of None \<Rightarrow> [] | Some (k, d) \<Rightarrow> bits_msb k 1 @ bits_msb k d)"

lemma bits_msb_one: "k < 32 \<Longrightarrow> bits_msb (Suc k) 1 = replicate k False @ [True]"
  by (intro nth_equalityI) (auto simp: nth_append bit_1_iff less_Suc_eq)

lemma bits_msb_inj:
  assumes "bits_msb k c = bits_msb k d" "unat c < 2 ^ k" "unat d < 2 ^ k" "k < 32"
  shows "c = d"
proof -
  have zero: "\<not> bit w n" if "k \<le> n" "unat w < 2 ^ k" for w :: "32 word" and n
  proof -
    have "take_bit k (unat w) = unat w" using that(2) by (simp add: take_bit_nat_eq_self)
    then have "\<not> bit (unat w) n" using that(1) by (metis bit_take_bit_iff not_le)
    then show ?thesis by (simp add: bit_unsigned_iff)
  qed
  have "bit c n \<longleftrightarrow> bit d n" if "n < k" for n
    using arg_cong [OF assms(1), of "\<lambda>bs. bs ! (k - 1 - n)"] that by simp
  then show ?thesis using zero assms(2,3) by (intro bit_eqI) (metis not_le)
qed

lemma replicate_False_eq:
  "replicate j False @ True # xs = replicate k False @ True # ys \<Longrightarrow> j = k \<and> xs = ys"
proof (induction j arbitrary: k)
  case 0
  then show ?case by (cases k) auto
next
  case (Suc j)
  then show ?case by (cases k) auto
qed

lemma place_code_prefix_free:
  assumes "unat m + 2 < 2 ^ 32" "unat m' + 2 < 2 ^ 32" "place_code m @ xs = place_code m' @ ys"
  shows "m = m' \<and> xs = ys"
proof -
  obtain k d where k: "code_word 1 m 2 = Some (k, d)" "0 < k" "k < 32" "unat d < 2 ^ k" "unat d + 2 ^ k = unat m + 2"
    using code_word_total [OF assms(1)] by blast
  obtain j e where j: "code_word 1 m' 2 = Some (j, e)" "0 < j" "j < 32" "unat e < 2 ^ j" "unat e + 2 ^ j = unat m' + 2"
    using code_word_total [OF assms(2)] by blast
  obtain k' j' where suc: "k = Suc k'" "j = Suc j'" using k(2) j(2) by (auto simp: gr0_conv_Suc)
  have "replicate k' False @ True # (bits_msb k d @ xs) = replicate j' False @ True # (bits_msb j e @ ys)"
    using assms(3) k(1,3) j(1,3) by (simp add: place_code_def suc bits_msb_one)
  from replicate_False_eq [OF this] have eq: "k = j" "bits_msb k d @ xs = bits_msb j e @ ys" by (auto simp: suc)
  then have "bits_msb k d = bits_msb k e" "xs = ys" by auto
  moreover from this(1) have "d = e" using bits_msb_inj k(3,4) j(4) eq(1) by blast
  ultimately show ?thesis using k(5) j(5) eq(1) by (simp add: word_unat_eq_iff)
qed

lemma encode_place_correct:
  assumes "out_ok (fst st) n bs" "snd st = length bs" "unat m + 2 < 2 ^ 32" "length bs + 62 \<le> 32 * n"
  shows "\<exists>st'. encode_place m st = Some st' \<and> out_ok (fst st') n (bs @ place_code m) \<and>
    snd st' = length (bs @ place_code m) \<and> length (place_code m) \<le> 62"
proof -
  obtain k d where k: "code_word 1 m 2 = Some (k, d)" "k < 32" using code_word_total [OF assms(3)] by blast
  obtain o1 where o1: "addToInput 1 k (fst st) = Some o1" "out_ok o1 n (bs @ bits_msb k 1)"
    using addToInput_correct [OF assms(1), of k 1] k(2) assms(4) by auto
  obtain o2 where o2: "addToInput d k o1 = Some o2" "out_ok o2 n ((bs @ bits_msb k 1) @ bits_msb k d)"
    using addToInput_correct [OF o1(2), of k d] k(2) assms(4) by auto
  show ?thesis using k o1 o2 assms(2) by (simp add: encode_place_def place_code_def)
qed

lemma encode_places_correct:
  assumes "out_ok (fst st) n bs" "snd st = length bs" "\<forall>m \<in> set ms. unat m + 2 < 2 ^ 32"
    and "length bs + 62 * length ms \<le> 32 * n"
  shows "\<exists>st'. fold_option encode_place ms st = Some st' \<and>
    out_ok (fst st') n (bs @ concat (map place_code ms)) \<and> snd st' = length (bs @ concat (map place_code ms))"
  using assms
proof (induction ms arbitrary: st bs)
  case (Cons m ms)
  obtain st1 where st1: "encode_place m st = Some st1" "out_ok (fst st1) n (bs @ place_code m)"
    "snd st1 = length (bs @ place_code m)" "length (place_code m) \<le> 62"
    using encode_place_correct [OF Cons.prems(1,2), of m] Cons.prems(3,4) by auto
  have "\<exists>st'. fold_option encode_place ms st1 = Some st' \<and>
      out_ok (fst st') n ((bs @ place_code m) @ concat (map place_code ms)) \<and>
      snd st' = length ((bs @ place_code m) @ concat (map place_code ms))"
    using Cons.prems(3,4) st1(4) by (intro Cons.IH [OF st1(2,3)]) auto
  then show ?case using st1(1) by simp
qed simp

lemma place_codes_inj:
  assumes "length ms = length ms'" "\<forall>m \<in> set ms \<union> set ms'. unat m + 2 < 2 ^ 32"
    and "concat (map place_code ms) @ xs = concat (map place_code ms') @ ys"
  shows "ms = ms'"
  using assms
proof (induction ms ms' rule: list_induct2)
  case (Cons m ms m' ms')
  have "m = m' \<and> concat (map place_code ms) @ xs = concat (map place_code ms') @ ys"
    using Cons.prems by (intro place_code_prefix_free) auto
  then show ?case using Cons.IH Cons.prems by simp
qed simp

section \<open>The loop of BitEncoder\<close>

definition place_bits :: "cardbit_t list \<Rightarrow> capacity_t list \<Rightarrow> arrayindex_t \<Rightarrow> bool list" where
  "place_bits CardBits m p = bits_msb (CardBits ! p) (m ! p)"

lemma upt_step: "p < n \<Longrightarrow> [p..<n] = p # [p + 1..<n]"
  by (simp add: upt_conv_Cons)

lemma bit_loop_correct:
  assumes "p < cs" "0 < k" "k \<le> CardBits ! p" "\<forall>q. p \<le> q \<and> q < cs \<longrightarrow> 0 < CardBits ! q \<and> CardBits ! q \<le> 32"
    and "out_ok out n bs" "length bs + k + (\<Sum>q \<leftarrow> [p + 1..<cs]. CardBits ! q) \<le> 32 * n"
  shows "\<exists>ws. bit_loop CardBits cs m p k out = Some ws \<and> length ws = n \<and>
    stream ws (bs @ bits_msb k (m ! p) @ concat (map (place_bits CardBits m) [p + 1..<cs]))"
  using assms
proof (induction "k + (\<Sum>q \<leftarrow> [p + 1..<cs]. CardBits ! q)" arbitrary: p k out bs rule: less_induct)
  case less
  obtain ws i go where out: "out = (ws, i, go)" by (cases out)
  have o: "stream ws bs" "at_end i go bs" "length ws = n" using less.prems(5) by (auto simp: out out_ok_def)
  have go: "0 < go" "go \<le> 32" using o(2) by (auto simp: at_end_def)
  have k32: "k \<le> 32" using less.prems(1,3,4) by force
  let ?ws = "or_at ws i (fragment (m ! p) k go)"
  have w: "stream ?ws (bs @ take (min k go) (bits_msb k (m ! p)))" "length ?ws = n"
    using stream_write [OF o(1,2) less.prems(2) k32, of "m ! p"] less.prems(6) o(3) by auto
  show ?case
  proof (cases "go < k")
    case True
    have s: "out_ok (?ws, i + 1, VECTOR_WIDTH) n (bs @ take go (bits_msb k (m ! p)))"
      using w True at_end_full [OF o(2), of "take go (bits_msb k (m ! p))"]
      by (simp add: out_ok_def VECTOR_WIDTH_def min_absorb2)
    have "\<exists>ws'. bit_loop CardBits cs m p (k - go) (?ws, i + 1, VECTOR_WIDTH) = Some ws' \<and> length ws' = n \<and>
      stream ws' ((bs @ take go (bits_msb k (m ! p))) @ bits_msb (k - go) (m ! p) @
        concat (map (place_bits CardBits m) [p + 1..<cs]))"
      using less.prems True go by (intro less.hyps [OF _ _ _ _ _ s]) auto
    moreover have "(bs @ take go (bits_msb k (m ! p))) @ bits_msb (k - go) (m ! p) @ ys = bs @ bits_msb k (m ! p) @ ys"
      for ys using bits_msb_split [of go k "m ! p"] True by simp
    ultimately have "\<exists>ws'. bit_loop CardBits cs m p (k - go) (?ws, i + 1, VECTOR_WIDTH) = Some ws' \<and> length ws' = n \<and>
      stream ws' (bs @ bits_msb k (m ! p) @ concat (map (place_bits CardBits m) [p + 1..<cs]))"
      by (simp only:)
    then show ?thesis using True by (subst bit_loop.simps) (simp add: out Let_def)
  next
    case le: False
    have whole: "take (min k go) (bits_msb k (m ! p)) = bits_msb k (m ! p)" using le by (simp add: min_absorb1)
    show ?thesis
    proof (cases "cs \<le> p + 1")
      case True
      then show ?thesis using le w whole by (subst bit_loop.simps) (auto simp: out Let_def)
    next
      case more: False
      define out1 where "out1 = (if k < go then (?ws, i, go - k) else (?ws, i + 1, VECTOR_WIDTH))"
      have s: "out_ok out1 n (bs @ bits_msb k (m ! p))"
        using le w whole at_end_full [OF o(2), of "bits_msb k (m ! p)"] at_end_part [OF o(2), of "bits_msb k (m ! p)"]
        by (auto simp: out_ok_def VECTOR_WIDTH_def out1_def)
      have split: "[p + 1..<cs] = (p + 1) # [p + 1 + 1..<cs]" using more by (intro upt_step) simp
      have "\<exists>ws'. bit_loop CardBits cs m (p + 1) (CardBits ! (p + 1)) out1 = Some ws' \<and> length ws' = n \<and>
        stream ws' ((bs @ bits_msb k (m ! p)) @ bits_msb (CardBits ! (p + 1)) (m ! (p + 1)) @
          concat (map (place_bits CardBits m) [p + 1 + 1..<cs]))"
        using less.prems more split by (intro less.hyps [OF _ _ _ _ _ s]) auto
      then show ?thesis
        using le more split by (subst bit_loop.simps) (auto simp: out Let_def out1_def place_bits_def)
    qed
  qed
qed

section \<open>What the encoders write\<close>

text \<open>The words of a vector that count, those covered by its length in bits, hold the bits.\<close>

definition encodes :: "vectordata_t list \<times> nat \<Rightarrow> bool list \<Rightarrow> bool" where
  "encodes r bs \<longleftrightarrow> snd r = length bs \<and> vector_length (snd r) \<le> length (fst r) \<and>
     stream (take (vector_length (snd r)) (fst r)) bs"

lemma vector_length_bounds: "n \<le> 32 * vector_length n" "32 * vector_length n < n + 32"
  unfolding vector_length_def VECTOR_WIDTH_def by presburger+

lemma vector_length_le: "n \<le> 32 * k \<Longrightarrow> vector_length n \<le> k"
  using vector_length_bounds(2) [of n] by linarith

lemma stream_take: "stream ws bs \<Longrightarrow> length bs \<le> 32 * n \<Longrightarrow> stream (take n ws) bs"
  by (auto simp: stream_def stream_bit_def less_mult_imp_div_less mult.commute)

lemma encodes_stream: "stream ws bs \<Longrightarrow> encodes (ws, length bs) bs"
  using stream_take [of ws bs "vector_length (length bs)"] vector_length_bounds(1) [of "length bs"]
  by (auto simp: encodes_def stream_def intro: vector_length_le)

lemma SimpleCompressedEncoder_correct:
  assumes "cs \<le> length (Current ns)" "\<forall>m \<in> set (take cs (Current ns)). unat m + 2 < 2 ^ 32"
  shows "\<exists>r. SimpleCompressedEncoder_encodeNetState cs ns = Some r \<and>
    encodes r (concat (map place_code (take cs (Current ns))))"
proof -
  have m: "map (\<lambda>p. Current ns ! p) [0..<cs] = take cs (Current ns)"
    using assms(1) by (intro nth_equalityI) auto
  have room: "2 * cs \<le> SimpleCompressed_insize cs" by (simp add: SimpleCompressed_insize_def VECTOR_WIDTH_def)
  have "\<exists>st'. fold_option encode_place (take cs (Current ns))
      ((replicate (SimpleCompressed_insize cs) 0, 0, VECTOR_WIDTH), 0) = Some st' \<and>
    out_ok (fst st') (SimpleCompressed_insize cs) ([] @ concat (map place_code (take cs (Current ns)))) \<and>
    snd st' = length ([] @ concat (map place_code (take cs (Current ns))))"
    using assms room by (intro encode_places_correct) (auto simp: out_ok_zero)
  then obtain st where st: "fold_option encode_place (take cs (Current ns))
      ((replicate (SimpleCompressed_insize cs) 0, 0, VECTOR_WIDTH), 0) = Some st"
    "out_ok (fst st) (SimpleCompressed_insize cs) (concat (map place_code (take cs (Current ns))))"
    "snd st = length (concat (map place_code (take cs (Current ns))))"
    by auto
  have "stream (fst (fst st)) (concat (map place_code (take cs (Current ns))))"
    using st(2) by (simp add: out_ok_def split: prod.splits)
  from encodes_stream [OF this] show ?thesis
    unfolding SimpleCompressedEncoder_encodeNetState_def m st(1) using st(3) by simp
qed

text \<open>Whole words are copied.\<close>

lemma stream_bit_concat:
  "j < 32 * length ms \<Longrightarrow> concat (map (bits_msb 32) ms) ! j \<longleftrightarrow> stream_bit ms j"
proof (induction ms arbitrary: j)
  case (Cons m ms)
  show ?case
  proof (cases "j < 32")
    case True
    then show ?thesis by (simp add: nth_append stream_bit_def)
  next
    case False
    have "(j - 32) div 32 = j div 32 - 1" "(j - 32) mod 32 = j mod 32" "0 < j div 32"
      using False by (simp_all add: le_div_geq le_mod_geq)
    then show ?thesis using False Cons by (simp add: nth_append stream_bit_def nth_Cons' )
  qed
qed simp

lemma length_concat_words [simp]: "length (concat (map (bits_msb n) ms)) = n * length ms"
  by (induction ms) auto

lemma stream_words: "stream (ms @ replicate k 0) (concat (map (bits_msb 32) ms))"
proof -
  have "stream_bit (ms @ replicate k 0) j \<longleftrightarrow> j < 32 * length ms \<and> stream_bit ms j"
    if "j < 32 * (length ms + k)" for j
    using that by (auto simp: stream_bit_def nth_append less_mult_imp_div_less mult.commute div_less_iff_less_mult)
  then show ?thesis by (auto simp: stream_def stream_bit_concat)
qed

lemma memcpylen_loop_correct:
  "len \<le> memcpylen_loop CardBits k len \<and> memcpylen_loop CardBits k len \<le> len + k \<and>
   (\<forall>q. len \<le> q \<and> q < memcpylen_loop CardBits k len \<longrightarrow> CardBits ! q = 32)"
proof (induction CardBits k len rule: memcpylen_loop.induct)
  case (2 CardBits k len)
  show ?case
  proof (cases "CardBits ! len = 32")
    case True
    have "CardBits ! q = 32" if "len \<le> q" "q < memcpylen_loop CardBits k (len + 1)" for q
      using 2 True that by (cases "q = len") (auto simp: VECTOR_WIDTH_def)
    then show ?thesis using 2 True by (auto simp: VECTOR_WIDTH_def)
  qed (simp add: VECTOR_WIDTH_def)
qed simp

definition bit_setting :: "cardbit_t list \<Rightarrow> nat \<Rightarrow> bool" where
  "bit_setting CardBits cs \<longleftrightarrow> cs \<le> length CardBits \<and> (\<forall>q < cs. 0 < CardBits ! q \<and> CardBits ! q \<le> 32)"

definition bit_sum :: "cardbit_t list \<Rightarrow> nat \<Rightarrow> nat" where
  "bit_sum CardBits cs = sum_list (take cs CardBits)"

lemma upt_split: "k \<le> n \<Longrightarrow> [0..<n] = [0..<k] @ [k..<n]"
  using upt_add_eq_append [of 0 k "n - k"] by simp

lemma bit_sum_split: "k \<le> cs \<Longrightarrow> bit_setting CardBits cs \<Longrightarrow>
    bit_sum CardBits cs = bit_sum CardBits k + (\<Sum>q \<leftarrow> [k..<cs]. CardBits ! q)"
proof -
  assume k: "k \<le> cs" and b: "bit_setting CardBits cs"
  have m: "take n CardBits = map ((!) CardBits) [0..<n]" if "n \<le> length CardBits" for n
    using that by (intro nth_equalityI) auto
  have "[0..<cs] = [0..<k] @ [k..<cs]" by (rule upt_split [OF k])
  then show ?thesis using k b by (simp add: bit_sum_def m bit_setting_def)
qed

lemma bit_sum_full: "bit_setting CardBits cs \<Longrightarrow> k \<le> cs \<Longrightarrow> \<forall>q < k. CardBits ! q = 32 \<Longrightarrow> bit_sum CardBits k = 32 * k"
proof (induction k)
  case (Suc k)
  then show ?case by (simp add: bit_sum_def take_Suc_conv_app_nth bit_setting_def)
qed (simp add: bit_sum_def)

text \<open>The bits of the marking \<open>m\<close>, place by place.\<close>

definition marking_bits :: "cardbit_t list \<Rightarrow> nat \<Rightarrow> capacity_t list \<Rightarrow> bool list" where
  "marking_bits CardBits cs m = concat (map (place_bits CardBits m) [0..<cs])"

lemma length_place_bits [simp]: "length (place_bits CardBits m p) = CardBits ! p"
  by (simp add: place_bits_def)

lemma length_marking_bits: "bit_setting CardBits cs \<Longrightarrow> length (marking_bits CardBits cs m) = bit_sum CardBits cs"
  using bit_sum_split [of 0 cs CardBits]
  by (simp add: marking_bits_def length_concat comp_def bit_sum_def)

lemma marking_bits_split:
  assumes "bit_setting CardBits cs" "k \<le> cs" "\<forall>q < k. CardBits ! q = 32" "k \<le> length m"
  shows "marking_bits CardBits cs m =
    concat (map (bits_msb 32) (take k m)) @ concat (map (place_bits CardBits m) [k..<cs])"
proof -
  have "[0..<cs] = [0..<k] @ [k..<cs]" by (rule upt_split [OF assms(2)])
  moreover have "map (place_bits CardBits m) [0..<k] = map (bits_msb 32) (take k m)"
    using assms by (intro nth_equalityI) (auto simp: place_bits_def)
  ultimately show ?thesis by (simp add: marking_bits_def)
qed

lemma memcpylen_correct:
  assumes b: "bit_setting CardBits cs" and k: "k = memcpylen CardBits (bit_sum CardBits cs)"
  shows "k \<le> BitEncoder_insize (bit_sum CardBits cs)" "k \<le> cs" "\<forall>q < k. CardBits ! q = 32"
proof -
  have m: "k \<le> BitEncoder_insize (bit_sum CardBits cs)" "\<forall>q < k. CardBits ! q = 32"
    using memcpylen_loop_correct [of 0 CardBits "BitEncoder_insize (bit_sum CardBits cs)"] k by (auto simp: memcpylen_def)
  then show "k \<le> BitEncoder_insize (bit_sum CardBits cs)" "\<forall>q < k. CardBits ! q = 32" by auto
  have "\<forall>x \<in> set (take cs CardBits). x \<le> 32" using b by (auto simp: bit_setting_def in_set_conv_nth)
  then have "bit_sum CardBits cs \<le> 32 * cs"
    unfolding bit_sum_def using b sum_list_mono [of "take cs CardBits" "\<lambda>x. x" "\<lambda>_. 32"]
    by (auto simp: bit_setting_def sum_list_triv)
  then have "BitEncoder_insize (bit_sum CardBits cs) \<le> cs" by (simp add: BitEncoder_insize_def VECTOR_WIDTH_def)
  then show "k \<le> cs" using m(1) by simp
qed

lemma BitEncoder_correct:
  assumes b: "bit_setting CardBits cs" and len: "cs \<le> length (Current ns)"
    and old: "length old = BitEncoder_insize (bit_sum CardBits cs)"
  shows "\<exists>r. BitEncoder_encodeNetState CardBits cs (bit_sum CardBits cs) old ns = Some r \<and>
    encodes r (marking_bits CardBits cs (Current ns))"
proof -
  let ?bits = "marking_bits CardBits cs (Current ns)"
  define k where "k = memcpylen CardBits (bit_sum CardBits cs)"
  note mem = memcpylen_correct [OF b k_def]
  have km: "k \<le> length (Current ns)" using mem(2) len by simp
  note split = marking_bits_split [OF b mem(2,3) km]
  define copied where "copied = take k (Current ns) @ drop k old"
  have tk: "take k copied = take k (Current ns)" using km by (simp add: copied_def)
  show ?thesis
  proof (cases "cs \<le> k")
    case True
    then have k: "k = cs" using mem(2) by simp
    have n: "bit_sum CardBits cs = 32 * k" using bit_sum_full [OF b _ mem(3)] k by simp
    have "vector_length (32 * k) = k" using vector_length_mult [of k] by (simp add: VECTOR_WIDTH_def mult.commute)
    moreover have "stream (take k copied) ?bits"
      using stream_words [of "take k (Current ns)" 0] split tk k by simp
    ultimately have "encodes (copied, bit_sum CardBits cs) ?bits"
      using n km length_marking_bits [OF b] by (simp add: encodes_def copied_def)
    then show ?thesis
      using True by (simp add: BitEncoder_encodeNetState_def k_def [symmetric] copied_def Let_def)
  next
    case False
    define out where "out = (take k copied @ replicate (BitEncoder_insize (bit_sum CardBits cs) - k) (0 :: 32 word), k, VECTOR_WIDTH)"
    have s: "out_ok out (BitEncoder_insize (bit_sum CardBits cs)) (concat (map (bits_msb 32) (take k (Current ns))))"
      using stream_words mem(1) km by (simp add: out_def out_ok_def tk at_end_def VECTOR_WIDTH_def min_absorb2)
    have split_k: "[k..<cs] = k # [k + 1..<cs]" using False by (intro upt_step) simp
    have room: "32 * k + CardBits ! k + (\<Sum>q \<leftarrow> [k + 1..<cs]. CardBits ! q) \<le> 32 * BitEncoder_insize (bit_sum CardBits cs)"
      using bit_sum_split [OF mem(2) b] bit_sum_full [OF b mem(2,3)] vector_length_bounds(1) [of "bit_sum CardBits cs"]
      unfolding split_k by (simp add: BitEncoder_insize_def vector_length_def VECTOR_WIDTH_def)
    have "\<exists>ws. bit_loop CardBits cs (Current ns) k (CardBits ! k) out = Some ws \<and>
        length ws = BitEncoder_insize (bit_sum CardBits cs) \<and>
        stream ws (concat (map (bits_msb 32) (take k (Current ns))) @ bits_msb (CardBits ! k) (Current ns ! k) @
          concat (map (place_bits CardBits (Current ns)) [k + 1..<cs]))"
      using b False room km by (intro bit_loop_correct [OF _ _ _ _ s]) (auto simp: bit_setting_def min_absorb2)
    moreover have "bits_msb (CardBits ! k) (Current ns ! k) @ concat (map (place_bits CardBits (Current ns)) [k + 1..<cs]) =
        concat (map (place_bits CardBits (Current ns)) [k..<cs])"
      unfolding split_k by (simp add: place_bits_def)
    ultimately obtain ws where ws: "bit_loop CardBits cs (Current ns) k (CardBits ! k) out = Some ws" "stream ws ?bits"
      using split by auto
    from encodes_stream [OF ws(2)] show ?thesis
      using False ws(1) length_marking_bits [OF b]
      by (simp add: BitEncoder_encodeNetState_def k_def [symmetric] copied_def [symmetric] out_def [symmetric] Let_def)
  qed
qed

lemma marking_bits_inj:
  assumes "marking_bits CardBits cs m = marking_bits CardBits cs m'" "bit_setting CardBits cs" "p < cs"
    and "\<forall>q < cs. unat (m ! q) < 2 ^ (CardBits ! q) \<and> unat (m' ! q) < 2 ^ (CardBits ! q)"
  shows "m ! p = m' ! p"
proof -
  have inj: "bits_msb 32 v = bits_msb 32 w \<Longrightarrow> v = w" for v w :: "32 word"
  proof (rule bit_word_eqI)
    fix n
    assume e: "bits_msb 32 v = bits_msb 32 w" and "n < LENGTH(32)"
    then have n: "31 - n < 32" "32 - 1 - (31 - n) = n" by auto
    have "bits_msb 32 v ! (31 - n) = bits_msb 32 w ! (31 - n)" by (simp only: e)
    then show "bit v n = bit w n" by (simp only: nth_bits_msb [OF n(1)] n(2))
  qed
  have "map (place_bits CardBits m) [0..<cs] = map (place_bits CardBits m') [0..<cs]"
    using assms(1) unfolding marking_bits_def by (rule concat_injective) (auto simp: zip_map_map zip_same_conv_map)
  then have e: "bits_msb (CardBits ! p) (m ! p) = bits_msb (CardBits ! p) (m' ! p)"
    using assms(3) by (simp add: place_bits_def)
  show ?thesis
  proof (cases "CardBits ! p = 32")
    case True
    then show ?thesis using e inj by simp
  next
    case False
    then have "CardBits ! p < 32" using assms(2,3) by (force simp: bit_setting_def)
    then show ?thesis using bits_msb_inj [OF e] assms(3,4) by blast
  qed
qed

end
