(* ===== verification/PackedStores.thy ===== *)
theory PackedStores
  imports Encoders DeadlockSearch
begin

text \<open>
  Stores of packed markings: every encoder of \<open>src/Stores/NetStateEncoder\<close> in front of a \<open>VSTLStore\<close>.
  An encoder has to write, for every marking, bits that determine it, also when they are filled up with
  zeros to a whole number of words; then the store answers as a set of markings does, and the searches
  over it decide.  With fewer significant places than places the significant ones have to determine
  the marking.
\<close>

section \<open>The interface of the encoders\<close>

definition padded_eq :: "bool list \<Rightarrow> bool list \<Rightarrow> bool" where
  "padded_eq bs bs' \<longleftrightarrow> (\<exists>j k. bs @ replicate j False = bs' @ replicate k False)"

locale encoder_contract =
  fixes encode :: "netstate \<Rightarrow> (vectordata_t list \<times> nat) option"
    and code :: "capacity_t list \<Rightarrow> bool list" and dom_m :: "capacity_t list \<Rightarrow> bool"
  assumes encode_correct: "dom_m (Current ns) \<Longrightarrow> \<exists>r. encode ns = Some r \<and> encodes r (code (Current ns))"
    and code_inj: "dom_m m \<Longrightarrow> dom_m m' \<Longrightarrow> padded_eq (code m) (code m') \<Longrightarrow> m = m'"

text \<open>What the vector store keeps of an encoded marking.\<close>

definition kept :: "(netstate \<Rightarrow> (vectordata_t list \<times> nat) option) \<Rightarrow> netstate \<Rightarrow> vectordata_t list" where
  "kept encode ns = (case encode ns of None \<Rightarrow> [] | Some r \<Rightarrow> VSTL_input (fst r) (snd r))"

definition word_bits :: "vectordata_t list \<Rightarrow> bool list" where
  "word_bits ws = concat (map (bits_msb 32) ws)"

lemma stream_word_bits:
  assumes "stream ws bs"
  shows "word_bits ws = bs @ replicate (32 * length ws - length bs) False"
proof (rule nth_equalityI)
  show "length (word_bits ws) = length (bs @ replicate (32 * length ws - length bs) False)"
    using assms by (simp add: word_bits_def stream_def)
next
  fix j
  assume "j < length (word_bits ws)"
  then have j: "j < 32 * length ws" by (simp add: word_bits_def)
  show "word_bits ws ! j = (bs @ replicate (32 * length ws - length bs) False) ! j"
    using assms j stream_bit_concat [OF j] by (auto simp: word_bits_def stream_def nth_append)
qed

text \<open>Clearing the unused bits changes nothing.\<close>

lemma clear_unused_id:
  assumes s: "stream ws bs" "length ws = vector_length (length bs)" "length bs mod 32 \<noteq> 0"
  shows "clear_unused (length bs) (ws ! (vector_length (length bs) - 1)) = ws ! (vector_length (length bs) - 1)"
proof -
  let ?n = "vector_length (length bs)"
  obtain u where u: "0 < u" "u < 32" "length bs + u = ?n * 32" "shift_count (length bs) = 32 + u"
    using unused_bits [OF s(3)] by blast
  have n: "0 < ?n" using u(1,3) by (cases ?n) auto
  show ?thesis
  proof (rule bit_word_eqI)
    fix j
    assume j: "j < LENGTH(32)"
    have "\<not> bit (ws ! (?n - 1)) j" if ju: "j < u"
    proof -
      let ?k = "32 * (?n - 1) + (31 - j)"
      have k: "?k < 32 * length ws" using n s(2) by (cases ?n) auto
      note pos = bit_position [of j "?n - 1"]
      have "\<not> ?k < length bs" using u ju n by (simp add: diff_mult_distrib2)
      then show ?thesis using s(1) k pos j unfolding stream_def stream_bit_def by fastforce
    qed
    then show "bit (clear_unused (length bs) (ws ! (?n - 1))) j = bit (ws ! (?n - 1)) j"
      using u j by (cases "j < u") (auto simp: clear_unused_def bit_simps)
  qed
qed

lemma kept_stream:
  assumes "encode ns = Some r" "encodes r bs"
  shows "stream (kept encode ns) bs"
proof -
  let ?n = "vector_length (length bs)"
  have r: "snd r = length bs" "?n \<le> length (fst r)" "stream (take ?n (fst r)) bs"
    using assms(2) by (auto simp: encodes_def)
  have rem: "remaining_bits (length bs) = 0 \<or> length bs mod 32 \<noteq> 0"
  proof (rule disjCI)
    assume "\<not> length bs mod 32 \<noteq> 0"
    then obtain q where "length bs = q * VECTOR_WIDTH" by (metis VECTOR_WIDTH_def mult.commute mult_div_mod_eq add.right_neutral)
    then show "remaining_bits (length bs) = 0" by simp
  qed
  show ?thesis
    using r(2,3) clear_unused_id [OF r(3)] rem assms(1)
    by (auto simp: kept_def VSTL_input_def r(1) Let_def min_absorb2)
qed

context encoder_contract
begin

lemma kept_bits: "dom_m (Current ns) \<Longrightarrow> \<exists>k. word_bits (kept encode ns) = code (Current ns) @ replicate k False"
  using encode_correct kept_stream stream_word_bits by blast

lemma kept_encode:
  assumes "dom_m (Current ns)" "dom_m (Current ns')"
  shows "kept encode ns = kept encode ns' \<longleftrightarrow> Current ns = Current ns'"
proof
  assume e: "kept encode ns = kept encode ns'"
  obtain j k where "word_bits (kept encode ns) = code (Current ns) @ replicate j False"
    "word_bits (kept encode ns') = code (Current ns') @ replicate k False"
    using kept_bits assms by blast
  then have "padded_eq (code (Current ns)) (code (Current ns'))" using e unfolding padded_eq_def by metis
  then show "Current ns = Current ns'" by (rule code_inj [OF assms])
next
  assume c: "Current ns = Current ns'"
  obtain r r' where r: "encode ns = Some r" "encodes r (code (Current ns))"
    "encode ns' = Some r'" "encodes r' (code (Current ns))"
    using encode_correct assms c by metis
  have s: "stream (kept encode ns) (code (Current ns))" "stream (kept encode ns') (code (Current ns))"
    using kept_stream r by blast+
  have len: "length (kept encode ns) = vector_length (length (code (Current ns)))"
    "length (kept encode ns') = vector_length (length (code (Current ns)))"
    using r by (auto simp: kept_def VSTL_input_def Let_def encodes_def)
  show "kept encode ns = kept encode ns'"
  proof (rule nth_equalityI)
    show "length (kept encode ns) = length (kept encode ns')" by (simp add: len)
  next
    fix i
    assume i: "i < length (kept encode ns)"
    show "kept encode ns ! i = kept encode ns' ! i"
    proof (rule bit_word_eqI)
      fix n
      assume n: "n < LENGTH(32)"
      let ?j = "32 * i + (31 - n)"
      have j: "?j < 32 * length (kept encode ns)" using i by linarith
      note pos = bit_position [of n i]
      show "bit (kept encode ns ! i) n = bit (kept encode ns' ! i) n"
        using s j len pos n unfolding stream_def stream_bit_def by fastforce
    qed
  qed
qed

end

section \<open>Stores over an encoder\<close>

text \<open>An encoding that fails does not return in the code.\<close>

definition packed_store ::
  "(netstate \<Rightarrow> (vectordata_t list \<times> nat) option) \<Rightarrow> netstate \<Rightarrow> vectordata_t list set plugin_store \<Rightarrow>
   bool \<times> vectordata_t list set plugin_store" where
  "packed_store encode = PluginStore_searchAndInsert (\<lambda>ns. case encode ns of Some r \<Rightarrow> r | None \<Rightarrow> ([], 0))
     (\<lambda>input bitlen hash. VSTL_searchAndInsert input bitlen)"

text \<open>The encoder tells the reachable markings apart.\<close>

definition tells_apart :: "net \<Rightarrow> marking \<Rightarrow> (netstate \<Rightarrow> (vectordata_t list \<times> nat) option) \<Rightarrow> bool" where
  "tells_apart N M0 encode \<longleftrightarrow>
     (\<forall>ns. reachable_vec N M0 (Current ns) \<longrightarrow> encode ns \<noteq> None \<and>
        (\<forall>ns'. reachable_vec N M0 (Current ns') \<longrightarrow> (kept encode ns = kept encode ns' \<longleftrightarrow> Current ns = Current ns')))"

definition packed_contents ::
  "net \<Rightarrow> marking \<Rightarrow> (netstate \<Rightarrow> (vectordata_t list \<times> nat) option) \<Rightarrow> vectordata_t list set plugin_store \<Rightarrow> capacity_t list set" where
  "packed_contents N M0 encode s =
     {m. reachable_vec N M0 m \<and> (\<exists>ns. Current ns = m \<and> kept encode ns \<in> vectorStore s)}"

context encoder_contract
begin

lemma tells_apart_reachable:
  assumes "\<And>m. reachable_vec N M0 m \<Longrightarrow> dom_m m"
  shows "tells_apart N M0 encode"
  using assms kept_encode encode_correct by (fastforce simp: tells_apart_def)

end

lemma packed_store_eq:
  assumes "encode ns = Some r"
  shows "fst (packed_store encode ns s) = (kept encode ns \<in> vectorStore s)"
    "vectorStore (snd (packed_store encode ns s)) = insert (kept encode ns) (vectorStore s)"
  using assms by (auto simp: packed_store_def PluginStore_searchAndInsert_def VSTL_searchAndInsert_def kept_def Let_def
      split: prod.splits)

lemma packed_store_correct:
  assumes t: "tells_apart N M0 encode" and m: "reachable_vec N M0 (Current ns)" and r: "packed_store encode ns s = (b, s')"
  shows "b \<longleftrightarrow> Current ns \<in> packed_contents N M0 encode s"
    "packed_contents N M0 encode s' = insert (Current ns) (packed_contents N M0 encode s)"
proof -
  have eq: "kept encode ns' = kept encode ns \<longleftrightarrow> Current ns' = Current ns" if "reachable_vec N M0 (Current ns')" for ns'
    using t m that by (auto simp: tells_apart_def)
  obtain q where q: "encode ns = Some q" using t m by (auto simp: tells_apart_def)
  have b: "b \<longleftrightarrow> kept encode ns \<in> vectorStore s" "vectorStore s' = insert (kept encode ns) (vectorStore s)"
    using packed_store_eq [of encode ns q s] q r by simp_all
  show "b \<longleftrightarrow> Current ns \<in> packed_contents N M0 encode s"
  proof
    assume "b"
    then show "Current ns \<in> packed_contents N M0 encode s" using m b(1) by (auto simp: packed_contents_def)
  next
    assume "Current ns \<in> packed_contents N M0 encode s"
    then obtain ns' where "Current ns' = Current ns" "kept encode ns' \<in> vectorStore s" by (auto simp: packed_contents_def)
    then show b using eq [of ns'] m b(1) by simp
  qed
  show "packed_contents N M0 encode s' = insert (Current ns) (packed_contents N M0 encode s)"
  proof (rule set_eqI)
    fix m'
    have "m' = Current ns" if "reachable_vec N M0 m'" "Current ns' = m'" "kept encode ns' = kept encode ns" for ns'
      using eq [of ns'] that by simp
    then show "m' \<in> packed_contents N M0 encode s' \<longleftrightarrow> m' \<in> insert (Current ns) (packed_contents N M0 encode s)"
      using m unfolding packed_contents_def b(2) by auto
  qed
qed

interpretation packed_vstl: store_contract "packed_store encode" "\<lambda>_. tells_apart N M0 encode"
    "packed_contents N M0 encode" "hashed_state N H M0" for encode N H M0
  using packed_store_correct by unfold_locales (auto simp: hashed_state_def)

sublocale net_setting \<subseteq> dl_packed: search_contract N T H M0 "deadlock_ops (packed_store encode) N"
    "\<lambda>_. True" "\<lambda>_ _. True" "dead_vec N" "\<lambda>_. True" "all_enabled N" "\<lambda>_. tells_apart N M0 encode"
    "packed_contents N M0 encode" for encode
  by (rule search_contract.intro [OF dl_walk.walk_contract_axioms]; unfold deadlock_ops_simps) unfold_locales

context net_setting
begin

lemmas packed_decides = dl_packed.depth_first_decides [OF _ _ _ _ _ _ all_enabled_preserving [of "dead_vec N" "dead_at N", OF dead_vec_at] dead_vec_at]

end

end
