(* ===== verification/EncoderProps.thy ===== *)
theory EncoderProps
  imports PackedStores SearchProps
begin

text \<open>
  The encoders meet the encoder contract, and the properties of the encoders and of the searches over
  packed markings.
\<close>

section \<open>The contract of each encoder\<close>

text \<open>\<open>R\<close> is a set of markings that are equal when they agree on the first \<open>cs\<close> places.\<close>

definition significant :: "nat \<Rightarrow> capacity_t list set \<Rightarrow> bool" where
  "significant cs R \<longleftrightarrow> (\<forall>m \<in> R. cs \<le> length m \<and> (\<forall>m' \<in> R. take cs m = take cs m' \<longrightarrow> m = m'))"

lemma padded_eq_same_length: "padded_eq bs bs' \<Longrightarrow> length bs = length bs' \<Longrightarrow> bs = bs'"
  by (auto simp: padded_eq_def)

definition bit_dom :: "cardbit_t list \<Rightarrow> nat \<Rightarrow> vectordata_t list \<Rightarrow> capacity_t list set \<Rightarrow> capacity_t list \<Rightarrow> bool" where
  "bit_dom CardBits cs old R m \<longleftrightarrow> bit_setting CardBits cs \<and> length old = BitEncoder_insize (bit_sum CardBits cs) \<and>
     significant cs R \<and> m \<in> R \<and> (\<forall>q < cs. unat (m ! q) < 2 ^ (CardBits ! q))"

interpretation bits: encoder_contract "BitEncoder_encodeNetState CardBits cs (bit_sum CardBits cs) old"
    "marking_bits CardBits cs" "bit_dom CardBits cs old R" for CardBits cs old R
proof (unfold_locales, goal_cases)
  case (1 ns)
  then show ?case using BitEncoder_correct by (simp add: bit_dom_def significant_def)
next
  case (2 m m')
  have "marking_bits CardBits cs m = marking_bits CardBits cs m'"
    using padded_eq_same_length [OF 2(3)] 2(1) by (simp add: bit_dom_def length_marking_bits)
  then have "\<forall>p < cs. m ! p = m' ! p" using marking_bits_inj 2(1,2) by (auto simp: bit_dom_def)
  then have "take cs m = take cs m'"
    using 2(1,2) by (intro nth_equalityI) (auto simp: bit_dom_def significant_def)
  then show ?case using 2(1,2) by (simp add: bit_dom_def significant_def)
qed

definition simple_dom :: "nat \<Rightarrow> capacity_t list set \<Rightarrow> capacity_t list \<Rightarrow> bool" where
  "simple_dom cs R m \<longleftrightarrow> significant cs R \<and> m \<in> R \<and> (\<forall>v \<in> set (take cs m). unat v + 2 < 2 ^ 32)"

interpretation simple: encoder_contract "SimpleCompressedEncoder_encodeNetState cs"
    "\<lambda>m. concat (map place_code (take cs m))" "simple_dom cs R" for cs R
proof (unfold_locales, goal_cases)
  case (1 ns)
  then show ?case using SimpleCompressedEncoder_correct by (simp add: simple_dom_def significant_def)
next
  case (2 m m')
  obtain j k where "concat (map place_code (take cs m)) @ replicate j False =
      concat (map place_code (take cs m')) @ replicate k False"
    using 2(3) by (auto simp: padded_eq_def)
  then have "take cs m = take cs m'"
    using 2(1,2) by (intro place_codes_inj) (auto simp: simple_dom_def significant_def)
  then show ?case using 2(1,2) by (simp add: simple_dom_def significant_def)
qed

definition copy_dom :: "nat \<Rightarrow> capacity_t list set \<Rightarrow> capacity_t list \<Rightarrow> bool" where
  "copy_dom cs R m \<longleftrightarrow> significant cs R \<and> m \<in> R"

lemma word_bits_inj:
  assumes "word_bits ws = word_bits ws'" "length ws = length ws'"
  shows "ws = ws'"
proof (rule nth_equalityI [OF assms(2)])
  fix i
  assume i: "i < length ws"
  show "ws ! i = ws' ! i"
  proof (rule bit_word_eqI)
    fix n
    assume n: "n < LENGTH(32)"
    let ?j = "32 * i + (31 - n)"
    have "?j < 32 * length ws" "?j < 32 * length ws'" using i assms(2) by linarith+
    then have "stream_bit ws ?j = stream_bit ws' ?j" using assms(1) stream_bit_concat by (metis word_bits_def)
    then show "bit (ws ! i) n = bit (ws' ! i) n" using bit_position [of n i] n by (simp add: stream_bit_def)
  qed
qed

interpretation copied: encoder_contract "\<lambda>ns. Some (CopyEncoder_encodeNetState cs ns)"
    "\<lambda>m. word_bits (take cs m)" "copy_dom cs R" for cs R
proof (unfold_locales, goal_cases)
  case (1 ns)
  then have len: "cs \<le> length (Current ns)" by (simp add: copy_dom_def significant_def)
  have "stream (take cs (Current ns)) (word_bits (take cs (Current ns)))"
    using stream_words [of "take cs (Current ns)" 0] by (simp add: word_bits_def)
  moreover have "vector_length (cs * 32) = cs" using vector_length_mult [of cs] by (simp add: VECTOR_WIDTH_def)
  ultimately show ?case
    using len by (simp add: CopyEncoder_encodeNetState_def encodes_def word_bits_def min_absorb2 VECTOR_WIDTH_def mult.commute)
next
  case (2 m m')
  have len: "length (take cs m) = length (take cs m')" using 2(1,2) by (simp add: copy_dom_def significant_def)
  have "word_bits (take cs m) = word_bits (take cs m')"
    using padded_eq_same_length [OF 2(3)] len by (simp add: word_bits_def)
  then show ?case using word_bits_inj len 2(1,2) by (auto simp: copy_dom_def significant_def)
qed

section \<open>Searches over packed markings\<close>

text \<open>The first \<open>cs\<close> places determine the reachable markings.\<close>

definition significant_places :: "net \<Rightarrow> marking \<Rightarrow> nat \<Rightarrow> bool" where
  "significant_places N M0 cs \<longleftrightarrow> cs \<le> Card N PL \<and>
     (\<forall>M M'. net_reach N M0 M \<and> net_reach N M0 M' \<and> (\<forall>p < cs. M p = M' p) \<longrightarrow> (\<forall>p < Card N PL. M p = M' p))"

lemma significant_places_vec:
  assumes "significant_places N M0 cs"
  shows "significant cs {m. reachable_vec N M0 m}"
proof -
  have "m = m'" if r: "reachable_vec N M0 m" "reachable_vec N M0 m'" and t: "take cs m = take cs m'" for m m'
  proof -
    have "cs \<le> Card N PL" using assms by (simp add: significant_places_def)
    then have "marking_of m p = marking_of m' p" if "p < cs" for p
      using that r nth_take [of p cs m] nth_take [of p cs m'] t
      by (simp add: marking_of_def reachable_vec_def del: nth_take)
    then have "marking_of m p = marking_of m' p" if "p < Card N PL" for p
      using assms r that unfolding significant_places_def reachable_vec_def by blast
    then show ?thesis
      using r by (intro nth_equalityI) (auto simp: marking_of_def reachable_vec_def word_unat_eq_iff)
  qed
  then show ?thesis using assms by (auto simp: significant_def significant_places_def reachable_vec_def)
qed

lemma reachable_vec_bound:
  assumes "reachable_vec N M0 m" "p < Card N PL" "\<forall>M. net_reach N M0 M \<longrightarrow> M p < b"
  shows "unat (m ! p) < b"
  using assms by (force simp: reachable_vec_def marking_of_def)

lemma bits_search:
  assumes "search_ready N T H ns" "significant_places N (marking_of (Current ns)) cs" "bit_setting CardBits cs"
    and "\<forall>M q. net_reach N (marking_of (Current ns)) M \<and> q < cs \<longrightarrow> M q < 2 ^ (CardBits ! q)"
    and "length old = BitEncoder_insize (bit_sum CardBits cs)"
  shows "\<exists>b s. depth_first N T
      (deadlock_ops (packed_store (BitEncoder_encodeNetState CardBits cs (bit_sum CardBits cs) old)) N)
      () ns (empty_plugin {}) () = Some (b, s) \<and>
    (b \<longleftrightarrow> (\<exists>M. net_reach N (marking_of (Current ns)) M \<and> dead_at N M))"
proof -
  note R = search_ready_setting [OF assms(1)]
  let ?M0 = "marking_of (Current ns)"
  have "bit_dom CardBits cs old {m. reachable_vec N ?M0 m} m" if "reachable_vec N ?M0 m" for m
    using that assms significant_places_vec [OF assms(2)] reachable_vec_bound [OF that]
    by (auto simp: bit_dom_def significant_places_def)
  from bits.tells_apart_reachable [OF this]
  have t: "tells_apart N ?M0 (BitEncoder_encodeNetState CardBits cs (bit_sum CardBits cs) old)" .
  have "packed_contents N ?M0 e (empty_plugin {}) = {}" for e by (simp add: packed_contents_def empty_plugin_def)
  from net_setting.packed_decides [OF R refl TrueI t this] show ?thesis by blast
qed

text \<open>C29: with the markings packed by \<open>BitEncoder\<close> the deadlock search decides, provided that the first \<open>cs\<close>
  places are significant and the number of bits of every significant place suffices for the token counts
  it can reach.\<close>

theorem depth_first_bits_decides_deadlock:
  assumes "search_ready N T H ns" "significant_places N (marking_of (Current ns)) cs" "bit_setting CardBits cs"
    and "\<forall>M q. net_reach N (marking_of (Current ns)) M \<and> q < cs \<longrightarrow> M q < 2 ^ (CardBits ! q)"
    and "length old = BitEncoder_insize (bit_sum CardBits cs)"
  shows "\<exists>b s. depth_first N T
      (deadlock_ops (packed_store (BitEncoder_encodeNetState CardBits cs (bit_sum CardBits cs) old)) N)
      () ns (empty_plugin {}) () = Some (b, s) \<and>
    (b \<longleftrightarrow> (\<exists>M. net_reach N (marking_of (Current ns)) M \<and> dead_at N M))"
  by (rule bits_search [OF assms])

theorem depth_first_bits_decides_deadlock_witness:
  "\<exists>b s. depth_first ring_net ring_trans
     (deadlock_ops (packed_store (BitEncoder_encodeNetState [1, 1] 2 (bit_sum [1, 1] 2) [7])) ring_net)
     () ring_state (empty_plugin {}) () = Some (b, s)"
proof -
  have sig: "significant_places ring_net (marking_of (Current ring_state)) 2" by (simp add: significant_places_def)
  have small: "M q < 2" if "net_reach ring_net (marking_of (Current ring_state)) M" "q < 2" for M q
    using ring_reach [of M] that by (auto simp: ring_state_def less_two)
  have bit: "bit_setting [1, 1] 2" by (auto simp: bit_setting_def less_two)
  have "\<forall>M q. net_reach ring_net (marking_of (Current ring_state)) M \<and> q < 2 \<longrightarrow> M q < 2 ^ ([1, 1] ! q)"
    using small by (auto simp: less_two)
  moreover have "length [7 :: 32 word] = BitEncoder_insize (bit_sum [1, 1] 2)"
    by (simp add: BitEncoder_insize_def bit_sum_def VECTOR_WIDTH_def)
  ultimately show ?thesis
    using depth_first_bits_decides_deadlock [OF ring_ready sig bit, of "[7]"] by blast
qed



section \<open>The encoders on their own\<close>



text \<open>C32: \<open>BitEncoder\<close> returns with the exact concatenation of the low \<open>CardBits\<close> bits of the significant
  places, most significant bit first, whatever the reused input vector held before.  Two markings whose
  token counts fit get the same bits exactly when they agree on the significant places.\<close>

theorem BitEncoder_exact:
  assumes "bit_setting CardBits cs" "cs \<le> length (Current ns)"
    and "length old = BitEncoder_insize (bit_sum CardBits cs)"
  shows "\<exists>v. BitEncoder_encodeNetState CardBits cs (bit_sum CardBits cs) old ns =
      Some (v, length (marking_bits CardBits cs (Current ns))) \<and>
    stream (take (vector_length (bit_sum CardBits cs)) v) (marking_bits CardBits cs (Current ns)) \<and>
    ((\<forall>q < cs. unat (Current ns ! q) < 2 ^ (CardBits ! q) \<and> unat (m' ! q) < 2 ^ (CardBits ! q)) \<longrightarrow>
       (marking_bits CardBits cs (Current ns) = marking_bits CardBits cs m' \<longleftrightarrow> (\<forall>p < cs. Current ns ! p = m' ! p)))"
proof -
  obtain r where r: "BitEncoder_encodeNetState CardBits cs (bit_sum CardBits cs) old ns = Some r"
    "encodes r (marking_bits CardBits cs (Current ns))"
    using BitEncoder_correct [OF assms] by blast
  have "marking_bits CardBits cs (Current ns) = marking_bits CardBits cs m'" if "\<forall>p < cs. Current ns ! p = m' ! p"
    unfolding marking_bits_def place_bits_def by (rule arg_cong [where f = concat]) (use that in auto)
  moreover have "Current ns ! p = m' ! p" if "p < cs"
    "\<forall>q < cs. unat (Current ns ! q) < 2 ^ (CardBits ! q) \<and> unat (m' ! q) < 2 ^ (CardBits ! q)"
      "marking_bits CardBits cs (Current ns) = marking_bits CardBits cs m'"
    for p
    by (rule marking_bits_inj [OF that(3) assms(1) that(1,2)])
  ultimately have inj: "(\<forall>q < cs. unat (Current ns ! q) < 2 ^ (CardBits ! q) \<and> unat (m' ! q) < 2 ^ (CardBits ! q)) \<longrightarrow>
       (marking_bits CardBits cs (Current ns) = marking_bits CardBits cs m' \<longleftrightarrow> (\<forall>p < cs. Current ns ! p = m' ! p))"
    by blast
  obtain v n where v: "r = (v, n)" by (cases r)
  have "n = bit_sum CardBits cs" "stream (take (vector_length n) v) (marking_bits CardBits cs (Current ns))"
    using r(2) v length_marking_bits [OF assms(1), of "Current ns"] by (auto simp: encodes_def)
  then show ?thesis
    using r(1) inj unfolding v length_marking_bits [OF assms(1)] by blast
qed

theorem BitEncoder_exact_witness:
  "\<exists>v. BitEncoder_encodeNetState [3, 32, 30] 3 (bit_sum [3, 32, 30] 3) [1, 2, 3] (ring_state\<lparr>Current := [5, 6, 7]\<rparr>) =
     Some (v, length (marking_bits [3, 32, 30] 3 [5, 6, 7]))"
proof -
  have "bit_setting [3, 32, 30] 3" by (auto simp: bit_setting_def less_Suc_eq numeral_3_eq_3)
  moreover have "length [1, 2, 3 :: 32 word] = BitEncoder_insize (bit_sum [3, 32, 30] 3)"
    by (simp add: BitEncoder_insize_def bit_sum_def VECTOR_WIDTH_def)
  ultimately show ?thesis
    using BitEncoder_exact [of "[3, 32, 30]" 3 "ring_state\<lparr>Current := [5, 6, 7]\<rparr>" "[1, 2, 3]"] by auto
qed

end
