(* ===== verification/TsccExploration.thy ===== *)
theory TsccExploration
  imports DeadlockSearch
begin

text \<open>
  \<open>src/Exploration/TSCCExplorationAGEF.cc\<close> and \<open>TSCCExplorationEGAGEF.cc\<close>: the search for terminal
  strongly connected components behind the tasks AG EF and EF AG EF, with the payloads (search numbers) that
  \<open>VSTLStore\<close> keeps with the markings.
\<close>

section \<open>Stores with payloads\<close>

text \<open>\<open>std::map<vector, T>\<close>: the address of a payload stays valid, so the vector it belongs to stands for it.
  \<open>operator[]\<close> inserts a zeroed payload.  The payload pointer of the caller is \<open>None\<close> as long as the store has not
  set it: with several threads that is so for vectors that are known already.\<close>

type_synonym statenumber_t = nat

type_synonym vstl_map = "vectordata_t list \<rightharpoonup> statenumber_t"

definition VSTL_map_searchAndInsert ::
  "bool \<Rightarrow> vectordata_t list \<Rightarrow> nat \<Rightarrow> bool \<Rightarrow> vstl_map \<Rightarrow> bool \<times> vectordata_t list option \<times> vstl_map" where
  "VSTL_map_searchAndInsert singleThreaded input bitlen noinsert st =
     (let ci = VSTL_input input bitlen;
          ret = st ci \<noteq> None;
          st1 = (if ret then st else st(ci \<mapsto> 0))
      in if singleThreaded then (if noinsert then (ret, None, st) else (ret, Some ci, st1))
         else if ret then (True, None, st)
         else if noinsert then (False, None, st)
         else (ret, Some ci, st1))"

definition PluginStore_payload_searchAndInsert ::
  "(netstate \<Rightarrow> vectordata_t list \<times> nat) \<Rightarrow>
   (vectordata_t list \<Rightarrow> nat \<Rightarrow> hash_t \<Rightarrow> bool \<Rightarrow> 'v \<Rightarrow> bool \<times> 'r \<times> 'v) \<Rightarrow>
   netstate \<Rightarrow> 'v plugin_store \<Rightarrow> bool \<times> 'r \<times> 'v plugin_store" where
  "PluginStore_payload_searchAndInsert encode search ns s =
     (let (input, bitlen) = encode ns;
          (ret, payload, v) = search input bitlen (HashCurrent ns) False (vectorStore s)
      in (ret, payload, s\<lparr>calls := calls s + 1, vectorStore := v,
                         markings := (if ret then markings s else markings s + 1)\<rparr>))"

text \<open>\<open>getDFS\<close> and \<open>setDFS\<close>.\<close>

definition vstl_getDFS :: "vstl_map plugin_store \<Rightarrow> vectordata_t list \<Rightarrow> statenumber_t" where
  "vstl_getDFS s key = (case vectorStore s key of Some n \<Rightarrow> n | None \<Rightarrow> 0)"

definition vstl_setDFS :: "vstl_map plugin_store \<Rightarrow> vectordata_t list \<Rightarrow> statenumber_t \<Rightarrow> vstl_map plugin_store" where
  "vstl_setDFS s key n = s\<lparr>vectorStore := (vectorStore s)(key \<mapsto> n)\<rparr>"

definition vstl_payload_store ::
  "net \<Rightarrow> bool \<Rightarrow> netstate \<Rightarrow> vstl_map plugin_store \<Rightarrow> bool \<times> vectordata_t list option \<times> vstl_map plugin_store" where
  "vstl_payload_store N singleThreaded = PluginStore_payload_searchAndInsert (FullCopyEncoder_encodeNetState N)
     (\<lambda>input bitlen hash. VSTL_map_searchAndInsert singleThreaded input bitlen)"

section \<open>The objects of the search\<close>

record 'r dfs_stack_entry =
  dfs_fl :: "arrayindex_t list"
  flIndex :: arrayindex_t
  payload :: 'r
  lowlink :: statenumber_t

record ('p, 's, 'f, 'r) tscc_ops =
  tscc_init :: "netstate \<Rightarrow> 'p \<Rightarrow> bool \<times> 'p"
  tscc_check :: "netstate \<Rightarrow> arrayindex_t \<Rightarrow> 'p \<Rightarrow> bool \<times> 'p"
  tscc_update :: "netstate \<Rightarrow> arrayindex_t \<Rightarrow> 'p \<Rightarrow> bool \<times> 'p"
  tscc_firelist :: "netstate \<Rightarrow> 'p \<Rightarrow> 'f \<Rightarrow> arrayindex_t list \<times> 'f"
  payload_search :: "netstate \<Rightarrow> 's \<Rightarrow> bool \<times> 'r option \<times> 's"
  getDFS :: "'s \<Rightarrow> 'r \<Rightarrow> statenumber_t"
  setDFS :: "'s \<Rightarrow> 'r \<Rightarrow> statenumber_t \<Rightarrow> 's"

record ('p, 's, 'f, 'r) tscc_state =
  tscc_ns :: netstate
  tscc_prop :: 'p
  tscc_value :: bool
  dfsstack :: "'r dfs_stack_entry search_stack"
  tscc_store :: 's
  tscc_fl :: 'f
  tscc_list :: "arrayindex_t list"
  tscc_entry :: arrayindex_t
  currentDFSNumber :: statenumber_t
  highest_lowlink :: statenumber_t
  last_true :: nat

text \<open>Search numbers have 32 bits, and so has \<open>lasttrue\<close>.\<close>

definition next_number :: "statenumber_t \<Rightarrow> statenumber_t" where
  "next_number n = (n + 1) mod 2 ^ 32"

text \<open>Assignment to a member of \<open>top()\<close>.\<close>

definition set_top :: "'a \<Rightarrow> 'a search_stack \<Rightarrow> 'a search_stack" where
  "set_top e s =
     s\<lparr>chunks := (case chunks s of [] \<Rightarrow> [] | c # rest \<Rightarrow> c[(StackPointer s - 1) mod SIZEOF_STACKCHUNK := Some e] # rest)\<rparr>"

definition lower_top :: "statenumber_t \<Rightarrow> 'r dfs_stack_entry search_stack \<Rightarrow> 'r dfs_stack_entry search_stack option" where
  "lower_top low s =
     (case top s of None \<Rightarrow> None
      | Some e \<Rightarrow> Some (if low < lowlink e then set_top (e\<lparr>lowlink := low\<rparr>) s else s))"

section \<open>depth\_first\<close>

text \<open>The two functions are the same up to the truth value at which they stop: \<open>False\<close> for AG EF (a terminal
  component without the property), \<open>True\<close> for EF AG EF.  \<open>None\<close> is the use of a pointer that was not set.  The property is checked
  before the enabledness is updated.\<close>

definition tscc_forward ::
  "net \<Rightarrow> transition_data \<Rightarrow> ('p, 's, 'f, 'r) tscc_ops \<Rightarrow> ('p, 's, 'f, 'r) tscc_state \<Rightarrow>
   ('p, 's, 'f, 'r) tscc_state option" where
  "tscc_forward N T ops s =
     (let e = tscc_entry s - 1;
          t = tscc_list s ! e;
          ns1 = fire T t (tscc_ns s);
          (found, pl, st) = payload_search ops ns1 (tscc_store s)
      in case pl of None \<Rightarrow> None
         | Some r \<Rightarrow>
             if found then
               map_option (\<lambda>k. s\<lparr>tscc_store := st, tscc_entry := e, tscc_ns := backfire T t ns1, dfsstack := k\<rparr>)
                 (if StackPointer (dfsstack s) \<noteq> 0 then lower_top (getDFS ops st r) (dfsstack s) else Some (dfsstack s))
             else
               let n = next_number (currentDFSNumber s);
                   k = push \<lparr>dfs_fl = tscc_list s, flIndex = e, payload = r, lowlink = n\<rparr> (dfsstack s);
                   (v, p) = tscc_check ops ns1 t (tscc_prop s);
                   ns2 = updateEnabled N T t ns1;
                   (fl, fd) = tscc_firelist ops ns2 p (tscc_fl s)
               in Some (s\<lparr>tscc_store := setDFS ops st r n, currentDFSNumber := n, dfsstack := k, tscc_prop := p,
                          last_true := (if v then n else last_true s), tscc_ns := ns2, tscc_fl := fd,
                          tscc_list := fl, tscc_entry := length fl\<rparr>))"

definition tscc_backward ::
  "bool \<Rightarrow> net \<Rightarrow> transition_data \<Rightarrow> ('p, 's, 'f, 'r) tscc_ops \<Rightarrow> ('p, 's, 'f, 'r) tscc_state \<Rightarrow>
   'r dfs_stack_entry \<Rightarrow> (bool option \<times> ('p, 's, 'f, 'r) tscc_state) option" where
  "tscc_backward stop N T ops s e =
     (let low = lowlink e;
          found = (getDFS ops (tscc_store s) (payload e) = low \<and> highest_lowlink s < low);
          v = (low \<le> last_true s);
          s1 = s\<lparr>tscc_entry := flIndex e, tscc_list := dfs_fl e, tscc_value := (if found then v else tscc_value s)\<rparr>
      in if found \<and> v = stop then Some (Some stop, s1)
         else
           let s2 = (if found then s1\<lparr>highest_lowlink := low\<rparr> else s1)
           in if StackPointer (dfsstack s) = 1 then Some (Some (\<not> stop), s2)
              else
                (case lower_top low (pop (dfsstack s)) of None \<Rightarrow> None
                 | Some k \<Rightarrow>
                     let t = dfs_fl e ! flIndex e;
                         ns1 = revertEnabled N T t (backfire T t (tscc_ns s));
                         (v1, p) = tscc_update ops ns1 t (tscc_prop s)
                     in Some (None, s2\<lparr>dfsstack := k, tscc_ns := ns1, tscc_prop := p\<rparr>)))"

definition tscc_step ::
  "bool \<Rightarrow> net \<Rightarrow> transition_data \<Rightarrow> ('p, 's, 'f, 'r) tscc_ops \<Rightarrow> ('p, 's, 'f, 'r) tscc_state \<Rightarrow>
   (bool option \<times> ('p, 's, 'f, 'r) tscc_state) option" where
  "tscc_step stop N T ops s =
     (if 0 < tscc_entry s then map_option (\<lambda>s'. (None, s')) (tscc_forward N T ops s)
      else (case top (dfsstack s) of None \<Rightarrow> None | Some e \<Rightarrow> tscc_backward stop N T ops s e))"

partial_function (option) tscc_loop ::
  "bool \<Rightarrow> net \<Rightarrow> transition_data \<Rightarrow> ('p, 's, 'f, 'r) tscc_ops \<Rightarrow> ('p, 's, 'f, 'r) tscc_state \<Rightarrow>
   (bool \<times> ('p, 's, 'f, 'r) tscc_state) option" where
  "tscc_loop stop N T ops s =
     (case tscc_step stop N T ops s of
        None \<Rightarrow> None
      | Some r \<Rightarrow> (case fst r of Some b \<Rightarrow> Some (b, snd r) | None \<Rightarrow> tscc_loop stop N T ops (snd r)))"

definition tscc_start ::
  "('p, 's, 'f, 'r) tscc_ops \<Rightarrow> 'p \<Rightarrow> netstate \<Rightarrow> 's \<Rightarrow> 'f \<Rightarrow> ('p, 's, 'f, 'r) tscc_state option" where
  "tscc_start ops p ns st f =
     (case payload_search ops ns st of
        (_, None, _) \<Rightarrow> None
      | (_, Some r, st1) \<Rightarrow>
          let (v, p1) = tscc_init ops ns p;
              (fl, fd) = tscc_firelist ops ns p1 f;
              n = next_number 0
          in Some \<lparr>tscc_ns = ns, tscc_prop = p1, tscc_value = False,
                   dfsstack = push \<lparr>dfs_fl = fl, flIndex = length fl, payload = r, lowlink = n\<rparr> empty_stack,
                   tscc_store = setDFS ops st1 r n, tscc_fl = fd, tscc_list = fl, tscc_entry = length fl,
                   currentDFSNumber = n, highest_lowlink = 0, last_true = (if v then 1 else 0)\<rparr>)"

definition tscc_depth_first ::
  "bool \<Rightarrow> net \<Rightarrow> transition_data \<Rightarrow> ('p, 's, 'f, 'r) tscc_ops \<Rightarrow> 'p \<Rightarrow> netstate \<Rightarrow> 's \<Rightarrow> 'f \<Rightarrow>
   (bool \<times> ('p, 's, 'f, 'r) tscc_state) option" where
  "tscc_depth_first stop N T ops p ns st f =
     (case tscc_start ops p ns st f of None \<Rightarrow> None | Some s \<Rightarrow> tscc_loop stop N T ops s)"

definition TSCCExplorationAGEF ::
  "net \<Rightarrow> transition_data \<Rightarrow> ('p, 's, 'f, 'r) tscc_ops \<Rightarrow> 'p \<Rightarrow> netstate \<Rightarrow> 's \<Rightarrow> 'f \<Rightarrow>
   (bool \<times> ('p, 's, 'f, 'r) tscc_state) option" where
  "TSCCExplorationAGEF = tscc_depth_first False"

definition TSCCExplorationEGAGEF ::
  "net \<Rightarrow> transition_data \<Rightarrow> ('p, 's, 'f, 'r) tscc_ops \<Rightarrow> 'p \<Rightarrow> netstate \<Rightarrow> 's \<Rightarrow> 'f \<Rightarrow>
   (bool \<times> ('p, 's, 'f, 'r) tscc_state) option" where
  "TSCCExplorationEGAGEF = tscc_depth_first True"

section \<open>The stack entry on top\<close>

lemma represents_set_top:
  assumes "represents s (x # xs)"
  shows "represents (set_top y s) (y # xs)"
proof -
  let ?C = SIZEOF_STACKCHUNK and ?n = "length xs"
  have sp: "StackPointer s = Suc ?n" and sh: "shape_ok s"
    and cells: "\<And>i. i < Suc ?n \<Longrightarrow> cell s i = Some (rev (x # xs) ! i)"
    using assms by (auto simp: represents_def)
  have len: "length (chunks s) = ?n div ?C + 1" using sh sp by (simp add: shape_ok_def num_chunks_Suc)
  then obtain d rest where d: "chunks s = d # rest" "length rest = ?n div ?C" by (cases "chunks s") auto
  have ld: "length d = ?C" using sh d by (simp add: shape_ok_def)
  have new: "chunks (set_top y s) = d[?n mod ?C := Some y] # rest" "StackPointer (set_top y s) = Suc ?n"
    using d sp by (simp_all add: set_top_def)
  have "cell (set_top y s) i = Some (rev (y # xs) ! i)" if i: "i < Suc ?n" for i
  proof (cases "i = ?n")
    case True
    then show ?thesis using new d ld by (simp add: cell_def nth_append)
  next
    case False
    then have i': "i < ?n" using i by simp
    have "cell (set_top y s) i = cell s i"
    proof (cases "i div ?C = ?n div ?C")
      case True
      then have "i mod ?C \<noteq> ?n mod ?C" using i' by (metis div_mult_mod_eq less_irrefl)
      then show ?thesis using True new d by (simp add: cell_def nth_append)
    next
      case False
      then have "i div ?C < ?n div ?C" using i' by (metis div_le_mono le_neq_implies_less less_imp_le)
      then show ?thesis using new d by (simp add: cell_def nth_append)
    qed
    then show ?thesis using cells [OF i] i' by (simp add: nth_append)
  qed
  then show ?thesis using sh d ld new sp by (simp add: represents_def shape_ok_def)
qed

lemma lower_top_represents:
  assumes "represents s (e # es)"
  shows "\<exists>k. lower_top low s = Some k \<and> represents k (e\<lparr>lowlink := min (lowlink e) low\<rparr> # es)"
proof (cases "low < lowlink e")
  case True
  then show ?thesis
    using chunked.rep_top [OF assms] represents_set_top [OF assms] by (simp add: lower_top_def min_def)
next
  case False
  then have "e\<lparr>lowlink := min (lowlink e) low\<rparr> = e" by (simp add: min_def)
  then show ?thesis using False chunked.rep_top [OF assms] assms by (simp add: lower_top_def)
qed

end
