(* ===== verification/TerminalComponents.thy ===== *)
theory TerminalComponents
  imports Prelude
begin

text \<open>
  Depth first search for terminal strongly connected components in a graph: nodes get increasing numbers, and
  the low link of a node is the least number seen from its subtree.  Unlike in Tarjan's algorithm there is no stack of open
  components; instead the number of the last component that was found (\<open>high\<close>) is compared.  The invariants
  here are used for \<open>TSCCExplorationAGEF\<close> and \<open>TSCCExplorationEGAGEF\<close>.
\<close>

section \<open>Invariants\<close>

text \<open>A path of gray nodes, the current one first: node, low link, targets of the edges still to be followed.\<close>

type_synonym 'v dfs_path = "('v \<times> nat \<times> 'v set) list"

abbreviation grays :: "'v dfs_path \<Rightarrow> 'v set" where
  "grays p \<equiv> fst ` set p"

definition numbered :: "('v \<Rightarrow> nat option) \<Rightarrow> nat \<Rightarrow> bool" where
  "numbered num c \<longleftrightarrow> (\<forall>v n. num v = Some n \<longrightarrow> 1 \<le> n \<and> n \<le> c) \<and> inj_on num (dom num)"

text \<open>What is known of a gray node with number \<open>n\<close>, where \<open>hi\<close> bounds the numbers of the nodes that are finished
  below it: \<open>low\<close> is the number of some node it reaches, a lower bound for the targets of the followed edges, and every node with a
  larger number is reached.\<close>

definition entry_ok ::
  "('v \<Rightarrow> 'v \<Rightarrow> bool) \<Rightarrow> ('v \<Rightarrow> nat option) \<Rightarrow> nat \<Rightarrow> nat \<Rightarrow> 'v \<Rightarrow> nat \<Rightarrow> 'v set \<Rightarrow> bool" where
  "entry_ok E num n hi v low pend \<longleftrightarrow>
     low \<le> n \<and> (\<exists>w. E\<^sup>*\<^sup>* v w \<and> num w = Some low) \<and>
     (\<forall>u m w. num u = Some m \<and> n \<le> m \<and> m < hi \<and> E u w \<and> (u = v \<longrightarrow> w \<notin> pend) \<longrightarrow>
        (\<exists>k \<ge> low. num w = Some k)) \<and>
     (\<forall>u m. num u = Some m \<and> n \<le> m \<longrightarrow> E\<^sup>*\<^sup>* v u)"

fun path_ok :: "('v \<Rightarrow> 'v \<Rightarrow> bool) \<Rightarrow> ('v \<Rightarrow> nat option) \<Rightarrow> nat \<Rightarrow> 'v dfs_path \<Rightarrow> bool" where
  "path_ok E num hi [] \<longleftrightarrow> hi = 1"
| "path_ok E num hi ((v, low, pend) # p) \<longleftrightarrow>
     (\<exists>n < hi. num v = Some n \<and> entry_ok E num n hi v low pend \<and> path_ok E num n p)"

text \<open>A finished node reaches a gray node with a smaller number or a good node of a component that was found.\<close>

definition witnessed ::
  "('v \<Rightarrow> 'v \<Rightarrow> bool) \<Rightarrow> ('v \<Rightarrow> bool) \<Rightarrow> ('v \<Rightarrow> nat option) \<Rightarrow> nat \<Rightarrow> 'v set \<Rightarrow> bool" where
  "witnessed E good num high G \<longleftrightarrow>
     (\<forall>u n. num u = Some n \<and> u \<notin> G \<longrightarrow>
        (\<exists>w \<in> G. \<exists>m < n. num w = Some m \<and> E\<^sup>*\<^sup>* u w) \<or> (\<exists>s. \<exists>k \<le> high. num s = Some k \<and> E\<^sup>*\<^sup>* u s \<and> good s)) \<and>
     (high = 0 \<or> (\<exists>s. num s = Some high \<and> good s))"

text \<open>\<open>lasttrue\<close> is the largest number of a node with the property.\<close>

definition last_ok :: "('v \<Rightarrow> bool) \<Rightarrow> ('v \<Rightarrow> nat option) \<Rightarrow> nat \<Rightarrow> bool" where
  "last_ok phi num lasttrue \<longleftrightarrow>
     (\<forall>w n. num w = Some n \<and> phi w \<longrightarrow> n \<le> lasttrue) \<and> (lasttrue = 0 \<or> (\<exists>w. num w = Some lasttrue \<and> phi w))"

lemma entry_okD:
  assumes "entry_ok E num n hi v low pend"
  shows "low \<le> n" "\<exists>w. E\<^sup>*\<^sup>* v w \<and> num w = Some low"
    "num u = Some m \<Longrightarrow> n \<le> m \<Longrightarrow> m < hi \<Longrightarrow> E u w \<Longrightarrow> (u = v \<longrightarrow> w \<notin> pend) \<Longrightarrow> \<exists>k \<ge> low. num w = Some k"
    "num u = Some m \<Longrightarrow> n \<le> m \<Longrightarrow> E\<^sup>*\<^sup>* v u"
  using assms unfolding entry_ok_def by blast+

lemma numbered_inj: "numbered num c \<Longrightarrow> num u = Some n \<Longrightarrow> num v = Some n \<Longrightarrow> u = v"
  unfolding numbered_def by (metis domI inj_onD)

lemma numbered_range: "numbered num c \<Longrightarrow> num v = Some n \<Longrightarrow> 1 \<le> n \<and> n \<le> c"
  unfolding numbered_def by blast

lemma numbered_new:
  assumes "numbered num c" "num w = None"
  shows "numbered (num(w \<mapsto> Suc c)) (Suc c)"
  unfolding numbered_def
proof (intro conjI allI impI)
  show "inj_on (num(w \<mapsto> Suc c)) (dom (num(w \<mapsto> Suc c)))"
  proof (rule inj_onI)
    fix x y
    assume d: "x \<in> dom (num(w \<mapsto> Suc c))" "y \<in> dom (num(w \<mapsto> Suc c))" and e: "(num(w \<mapsto> Suc c)) x = (num(w \<mapsto> Suc c)) y"
    have "num z \<noteq> Some (Suc c)" for z using numbered_range [OF assms(1), of z "Suc c"] by auto
    then show "x = y" using d e numbered_inj [OF assms(1), of x _ y] by (auto split: if_splits)
  qed
qed (use numbered_range [OF assms(1)] in \<open>auto split: if_splits intro: le_SucI\<close>)

lemma path_ok_gray: "path_ok E num hi p \<Longrightarrow> v \<in> grays p \<Longrightarrow> \<exists>n < hi. num v = Some n"
proof (induction p arbitrary: hi)
  case (Cons e p)
  then show ?case by (cases e) (auto dest!: Cons.IH intro: less_trans)
qed simp

lemma path_ok_reach: "path_ok E num hi p \<Longrightarrow> num u = Some m \<Longrightarrow> hi \<le> m \<Longrightarrow> v \<in> grays p \<Longrightarrow> E\<^sup>*\<^sup>* v u"
proof (induction p arbitrary: hi)
  case (Cons e p)
  obtain w low pend where e: "e = (w, low, pend)" by (cases e)
  obtain n where n: "n < hi" "entry_ok E num n hi w low pend" "path_ok E num n p" using Cons.prems(1) e by auto
  show ?case
  proof (cases "v = w")
    case True
    then show ?thesis using n(1,2) Cons.prems(2,3) unfolding entry_ok_def by (meson less_imp_le order_trans)
  next
    case False
    then show ?thesis using Cons.IH [OF n(3) Cons.prems(2)] n(1) Cons.prems(3,4) e by simp
  qed
qed simp

section \<open>A visited target\<close>

lemma entry_ok_old:
  assumes e: "entry_ok E num n hi v low pend" and w: "E v w" "num w = Some k" "pend \<subseteq> insert w pend'"
  shows "entry_ok E num n hi v (min low k) pend'"
  unfolding entry_ok_def
proof (intro conjI allI impI)
  show "min low k \<le> n" using entry_okD(1) [OF e] by (rule min.coboundedI1)
  show "\<exists>x. E\<^sup>*\<^sup>* v x \<and> num x = Some (min low k)"
    using e w(1,2) unfolding entry_ok_def min_def by (metis r_into_rtranclp)
  fix u m x
  assume a: "num u = Some m \<and> n \<le> m \<and> m < hi \<and> E u x \<and> (u = v \<longrightarrow> x \<notin> pend')"
  show "\<exists>j \<ge> min low k. num x = Some j"
  proof (cases "u = v \<and> x = w")
    case True
    then show ?thesis using w(2) by simp
  next
    case False
    then have "u = v \<longrightarrow> x \<notin> pend" using a w(3) by blast
    then obtain j where "low \<le> j" "num x = Some j" using e a unfolding entry_ok_def by blast
    then show ?thesis by (simp add: min_le_iff_disj)
  qed
qed (use e in \<open>auto simp: entry_ok_def\<close>)

lemma path_ok_old:
  assumes "path_ok E num hi ((v, low, pend) # p)" "E v w" "num w = Some k" "pend \<subseteq> insert w pend'"
  shows "path_ok E num hi ((v, min low k, pend') # p)"
proof -
  obtain n where n: "n < hi" "num v = Some n" "entry_ok E num n hi v low pend" "path_ok E num n p" using assms(1) by auto
  then show ?thesis using entry_ok_old [OF n(3) assms(2-4)] by auto
qed

section \<open>A new target\<close>

lemma path_ok_extend:
  assumes "path_ok E num hi p" "hi \<le> c" "num w = None" "\<forall>v \<in> grays p. E\<^sup>*\<^sup>* v w"
  shows "path_ok E (num(w \<mapsto> c)) hi p"
  using assms(1,2,4)
proof (induction p arbitrary: hi)
  case (Cons e p)
  obtain v low pend where e: "e = (v, low, pend)" by (cases e)
  obtain n where n: "n < hi" "num v = Some n" "entry_ok E num n hi v low pend" "path_ok E num n p"
    using Cons.prems(1) e by auto
  have le: "n \<le> c" and r: "\<forall>v \<in> grays p. E\<^sup>*\<^sup>* v w" "E\<^sup>*\<^sup>* v w" using n(1) Cons.prems(2,3) e by auto
  have "path_ok E (num(w \<mapsto> c)) n p" by (rule Cons.IH [OF n(4) le r(1)])
  moreover have "entry_ok E (num(w \<mapsto> c)) n hi v low pend"
    unfolding entry_ok_def
  proof (intro conjI allI impI)
    show "low \<le> n" by (rule entry_okD(1) [OF n(3)])
    obtain x where "E\<^sup>*\<^sup>* v x" "num x = Some low" using entry_okD(2) [OF n(3)] by blast
    moreover from this have "x \<noteq> w" using assms(3) by auto
    ultimately show "\<exists>x. E\<^sup>*\<^sup>* v x \<and> (num(w \<mapsto> c)) x = Some low" by auto
  next
    fix u m x
    assume a: "(num(w \<mapsto> c)) u = Some m \<and> n \<le> m \<and> m < hi \<and> E u x \<and> (u = v \<longrightarrow> x \<notin> pend)"
    then have "u \<noteq> w" using Cons.prems(2) by auto
    then have "num u = Some m" using a by simp
    then obtain k where "low \<le> k" "num x = Some k" using a entry_okD(3) [OF n(3), of u m x] by blast
    then show "\<exists>k \<ge> low. (num(w \<mapsto> c)) x = Some k" using assms(3) by force
  next
    fix u m
    assume "(num(w \<mapsto> c)) u = Some m \<and> n \<le> m"
    then show "E\<^sup>*\<^sup>* v u" using entry_okD(4) [OF n(3), of u m] r(2) by (cases "u = w") auto
  qed
  moreover have "(num(w \<mapsto> c)) v = Some n" using n(2) assms(3) by auto
  ultimately show ?case unfolding e path_ok.simps using n(1) by blast
qed simp

lemma path_ok_new:
  assumes p: "path_ok E num (Suc c) ((v, low, pend) # p)" and num: "numbered num c"
    and w: "E v w" "num w = None" "pend \<subseteq> insert w pend'" "\<And>x. E w x \<Longrightarrow> x \<in> pw"
  shows "path_ok E (num(w \<mapsto> Suc c)) (Suc (Suc c)) ((w, Suc c, pw) # (v, low, pend') # p)"
proof -
  let ?num = "num(w \<mapsto> Suc c)"
  obtain n where n: "n < Suc c" "num v = Some n" "entry_ok E num n (Suc c) v low pend" "path_ok E num n p" using p by auto
  have "\<forall>x \<in> grays ((v, low, pend) # p). E\<^sup>*\<^sup>* x w"
  proof
    fix x
    assume x: "x \<in> grays ((v, low, pend) # p)"
    have "E\<^sup>*\<^sup>* x v" using x path_ok_reach [OF n(4,2) order_refl] by auto
    then show "E\<^sup>*\<^sup>* x w" using w(1) by (rule rtranclp.rtrancl_into_rtrancl)
  qed
  note ext = path_ok_extend [OF p order_refl w(2) this]
  have "path_ok E ?num (Suc c) ((v, min low (Suc c), pend') # p)"
    by (rule path_ok_old [OF ext w(1) _ w(3)]) simp
  moreover have "min low (Suc c) = low" using entry_okD(1) [OF n(3)] n(1) by simp
  moreover
  have only: "u = w" if "?num u = Some m" "Suc c \<le> m" for u m
    using that numbered_range [OF num, of u m] by (auto split: if_splits)
  have "entry_ok E ?num (Suc c) (Suc (Suc c)) w (Suc c) pw"
    unfolding entry_ok_def
  proof (intro conjI allI impI)
    show "\<exists>x. E\<^sup>*\<^sup>* w x \<and> ?num x = Some (Suc c)" by auto
    fix u m x
    assume a: "?num u = Some m \<and> Suc c \<le> m \<and> m < Suc (Suc c) \<and> E u x \<and> (u = w \<longrightarrow> x \<notin> pw)"
    then have "u = w" using only by blast
    then show "\<exists>k \<ge> Suc c. ?num x = Some k" using a w(4) by blast
  next
    fix u m
    assume "?num u = Some m \<and> Suc c \<le> m"
    then have "u = w" using only by blast
    then show "E\<^sup>*\<^sup>* w u" by simp
  qed simp
  ultimately show ?thesis by auto
qed

lemma witnessed_new:
  assumes "witnessed E good num high G" "num w = None"
  shows "witnessed E good (num(w \<mapsto> c)) high (insert w G)"
  unfolding witnessed_def
proof (intro conjI allI impI)
  fix u n
  assume a: "(num(w \<mapsto> c)) u = Some n \<and> u \<notin> insert w G"
  have keep: "num x = Some m \<Longrightarrow> (num(w \<mapsto> c)) x = Some m" for x m using assms(2) by auto
  have "num u = Some n" "u \<notin> G" using a by auto
  then have "(\<exists>x \<in> G. \<exists>m < n. num x = Some m \<and> E\<^sup>*\<^sup>* u x) \<or> (\<exists>s. \<exists>k \<le> high. num s = Some k \<and> E\<^sup>*\<^sup>* u s \<and> good s)"
    using assms(1) unfolding witnessed_def by blast
  then show "(\<exists>x \<in> insert w G. \<exists>m < n. (num(w \<mapsto> c)) x = Some m \<and> E\<^sup>*\<^sup>* u x) \<or>
      (\<exists>s. \<exists>k \<le> high. (num(w \<mapsto> c)) s = Some k \<and> E\<^sup>*\<^sup>* u s \<and> good s)"
    using keep by blast
next
  have "(num(w \<mapsto> c)) s = Some high" if "num s = Some high" for s using assms(2) that by auto
  then show "high = 0 \<or> (\<exists>s. (num(w \<mapsto> c)) s = Some high \<and> good s)"
    using assms(1) unfolding witnessed_def by blast
qed

lemma last_ok_new:
  assumes "last_ok phi num lasttrue" "numbered num c" "num w = None"
  shows "last_ok phi (num(w \<mapsto> Suc c)) (if phi w then Suc c else lasttrue)"
proof -
  have "num x = Some n \<Longrightarrow> n \<le> Suc c" for x n using numbered_range [OF assms(2)] by (meson le_SucI)
  then show ?thesis using assms(1,3) unfolding last_ok_def by (auto split: if_splits) metis
qed

section \<open>A finished node\<close>

lemma path_ok_pop:
  assumes p: "path_ok E num hi ((v, low, {}) # (v1, low1, pend1) # p)" and num: "numbered num c"
  shows "path_ok E num hi ((v1, min low1 low, pend1) # p)"
proof -
  obtain n n1 where n: "n < hi" "num v = Some n" "entry_ok E num n hi v low {}"
    "n1 < n" "num v1 = Some n1" "entry_ok E num n1 n v1 low1 pend1" "path_ok E num n1 p" using p by auto
  have r: "E\<^sup>*\<^sup>* v1 v" using entry_okD(4) [OF n(6,2)] n(4) by simp
  have "entry_ok E num n1 hi v1 (min low1 low) pend1"
    unfolding entry_ok_def
  proof (intro conjI allI impI)
    show "min low1 low \<le> n1" using entry_okD(1) [OF n(6)] by (rule min.coboundedI1)
    obtain x y where "E\<^sup>*\<^sup>* v1 x" "num x = Some low1" "E\<^sup>*\<^sup>* v y" "num y = Some low"
      using entry_okD(2) [OF n(3)] entry_okD(2) [OF n(6)] by blast
    then show "\<exists>w. E\<^sup>*\<^sup>* v1 w \<and> num w = Some (min low1 low)"
      using rtranclp_trans [OF r] by (cases "low1 \<le> low") (auto simp: min_def)
    fix u m w
    assume a: "num u = Some m \<and> n1 \<le> m \<and> m < hi \<and> E u w \<and> (u = v1 \<longrightarrow> w \<notin> pend1)"
    then have u: "num u = Some m" "n1 \<le> m" "m < hi" "E u w" "u = v1 \<longrightarrow> w \<notin> pend1" by auto
    have "\<exists>k. (low1 \<le> k \<or> low \<le> k) \<and> num w = Some k"
    proof (cases "m < n")
      case True
      then show ?thesis using entry_okD(3) [OF n(6) u(1,2) _ u(4,5)] by blast
    next
      case False
      then have "n \<le> m" by simp
      then show ?thesis using entry_okD(3) [OF n(3) u(1) _ u(3,4)] by blast
    qed
    then show "\<exists>k \<ge> min low1 low. num w = Some k" by (auto simp: min_le_iff_disj)
  qed (use n(6) in \<open>auto simp: entry_ok_def\<close>)
  then show ?thesis using n(1,4,5,7) by auto
qed

text \<open>The region of a node whose low link is its own number: everything it reaches.\<close>

lemma region:
  assumes p: "path_ok E num (Suc c) ((v, low, {}) # p)" and num: "numbered num c" and root: "num v = Some low"
  shows "E\<^sup>*\<^sup>* v u \<longleftrightarrow> (\<exists>m \<ge> low. num u = Some m)"
proof -
  have e: "entry_ok E num low (Suc c) v low {}" using p root by auto
  have "\<exists>m \<ge> low. num u = Some m" if "E\<^sup>*\<^sup>* v u"
    using that
  proof (induction rule: rtranclp_induct)
    case base
    then show ?case using root by blast
  next
    case (step x y)
    then obtain m where m: "low \<le> m" "num x = Some m" by blast
    then have "m < Suc c" using numbered_range [OF num] by (simp add: less_Suc_eq_le)
    then show ?case using m e step(2) unfolding entry_ok_def by blast
  qed
  then show ?thesis using e unfolding entry_ok_def by blast
qed

text \<open>It is a terminal component unless one with a larger number was found.\<close>

lemma terminal:
  assumes p: "path_ok E num (Suc c) ((v, low, {}) # p)" and num: "numbered num c" and root: "num v = Some low"
    and wit: "witnessed E good num high (grays ((v, low, {}) # p))" and high: "high < low" and u: "E\<^sup>*\<^sup>* v u"
  shows "E\<^sup>*\<^sup>* u v"
proof (cases "u \<in> grays ((v, low, {}) # p)")
  case gray: True
  note reg = region [OF p num root]
  obtain m where m: "low \<le> m" "num u = Some m" using reg u by blast
  have "path_ok E num low p" using p root by auto
  then have "u \<notin> grays p" using path_ok_gray [of E num low p u] m by auto
  then show ?thesis using gray by simp
next
  case False
  note reg = region [OF p num root]
  obtain m where m: "low \<le> m" "num u = Some m" using reg u by blast
  have "(\<exists>w \<in> grays ((v, low, {}) # p). \<exists>k < m. num w = Some k \<and> E\<^sup>*\<^sup>* u w) \<or>
      (\<exists>s. \<exists>k \<le> high. num s = Some k \<and> E\<^sup>*\<^sup>* u s \<and> good s)"
    using wit False m(2) unfolding witnessed_def by blast
  moreover have "False" if s: "num s = Some k" "k \<le> high" "E\<^sup>*\<^sup>* u s" for s k
  proof -
    have "\<exists>m \<ge> low. num s = Some m" using reg u s(3) by (meson rtranclp_trans)
    then show False using s(1,2) high by auto
  qed
  ultimately obtain w k where w: "w \<in> grays ((v, low, {}) # p)" "num w = Some k" "E\<^sup>*\<^sup>* u w" by blast
  have "\<exists>m \<ge> low. num w = Some m" using reg u w(3) by (meson rtranclp_trans)
  then have k: "low \<le> k" using w(2) by simp
  have "path_ok E num low p" using p root by auto
  then have "w \<notin> grays p" using path_ok_gray [of E num low p w] k w(2) by auto
  then show ?thesis using w(1,3) by simp
qed

text \<open>The new value of \<open>high\<close>: a component is found, or not.\<close>

lemma witnessed_pop:
  assumes p: "path_ok E num (Suc c) ((v, low, {}) # p)" and num: "numbered num c"
    and wit: "witnessed E good num high (grays ((v, low, {}) # p))"
    and found: "num v = Some low \<Longrightarrow> high < low \<Longrightarrow> good v"
  shows "witnessed E good num (if num v = Some low \<and> high < low then low else high) (grays p)"
proof -
  let ?high = "if num v = Some low \<and> high < low then low else high" and ?G = "grays ((v, low, {}) # p)"
  obtain n where n: "num v = Some n" "entry_ok E num n (Suc c) v low {}" "path_ok E num n p" using p by auto
  have le: "high \<le> ?high" by simp
  have vw: "(\<exists>w \<in> grays p. \<exists>m < n. num w = Some m \<and> E\<^sup>*\<^sup>* v w) \<or> (\<exists>s. \<exists>k \<le> ?high. num s = Some k \<and> E\<^sup>*\<^sup>* v s \<and> good s)"
  proof (cases "low = n")
    case True
    show ?thesis
    proof (cases "high < low")
      case f: True
      then have "good v" using found n(1) True by blast
      then show ?thesis using f n(1) True by auto
    next
      case False
      have "1 \<le> low" using numbered_range [OF num n(1)] True by simp
      then obtain s where s: "num s = Some high" "good s" using wit False unfolding witnessed_def by force
      have "E\<^sup>*\<^sup>* v s" using n(2) s(1) False True unfolding entry_ok_def by (meson not_less)
      then show ?thesis using s le by blast
    qed
  next
    case False
    then have lt: "low < n" using n(2) by (simp add: entry_ok_def)
    obtain w where w: "E\<^sup>*\<^sup>* v w" "num w = Some low" using n(2) unfolding entry_ok_def by blast
    have wv: "w \<noteq> v" using w(2) n(1) lt by auto
    show ?thesis
    proof (cases "w \<in> grays p")
      case True
      then show ?thesis using w lt by blast
    next
      case f: False
      then have "w \<notin> ?G" using wv by simp
      then have "(\<exists>x \<in> ?G. \<exists>m < low. num x = Some m \<and> E\<^sup>*\<^sup>* w x) \<or> (\<exists>s. \<exists>k \<le> high. num s = Some k \<and> E\<^sup>*\<^sup>* w s \<and> good s)"
        using wit w(2) unfolding witnessed_def by blast
      then show ?thesis
      proof
        assume "\<exists>x \<in> ?G. \<exists>m < low. num x = Some m \<and> E\<^sup>*\<^sup>* w x"
        then obtain x m where x: "x \<in> ?G" "m < low" "num x = Some m" "E\<^sup>*\<^sup>* w x" by blast
        then have "x \<in> grays p" using n(1) lt by auto
        then show ?thesis using x lt rtranclp_trans [OF w(1) x(4)] less_trans by blast
      next
        assume "\<exists>s. \<exists>k \<le> high. num s = Some k \<and> E\<^sup>*\<^sup>* w s \<and> good s"
        then show ?thesis using rtranclp_trans [OF w(1)] le order_trans by blast
      qed
    qed
  qed
  show ?thesis
    unfolding witnessed_def
  proof (intro conjI allI impI)
    fix u m
    assume u: "num u = Some m \<and> u \<notin> grays p"
    show "(\<exists>w \<in> grays p. \<exists>k < m. num w = Some k \<and> E\<^sup>*\<^sup>* u w) \<or> (\<exists>s. \<exists>k \<le> ?high. num s = Some k \<and> E\<^sup>*\<^sup>* u s \<and> good s)"
    proof (cases "u = v")
      case True
      then have "m = n" using u n(1) by simp
      then show ?thesis using vw True by simp
    next
      case False
      then have "(\<exists>x \<in> ?G. \<exists>k < m. num x = Some k \<and> E\<^sup>*\<^sup>* u x) \<or> (\<exists>s. \<exists>k \<le> high. num s = Some k \<and> E\<^sup>*\<^sup>* u s \<and> good s)"
        using wit u unfolding witnessed_def by simp
      then show ?thesis
      proof
        assume "\<exists>x \<in> ?G. \<exists>k < m. num x = Some k \<and> E\<^sup>*\<^sup>* u x"
        then obtain x k where x: "x \<in> ?G" "k < m" "num x = Some k" "E\<^sup>*\<^sup>* u x" by blast
        show ?thesis
        proof (cases "x \<in> grays p")
          case True
          then show ?thesis using x by blast
        next
          case f: False
          then have xv: "E\<^sup>*\<^sup>* u v" "n < m" using x n(1) by auto
          from vw show ?thesis
          proof
            assume "\<exists>w \<in> grays p. \<exists>m < n. num w = Some m \<and> E\<^sup>*\<^sup>* v w"
            then show ?thesis using rtranclp_trans [OF xv(1)] less_trans [OF _ xv(2)] by blast
          next
            assume "\<exists>s. \<exists>k \<le> ?high. num s = Some k \<and> E\<^sup>*\<^sup>* v s \<and> good s"
            then show ?thesis using rtranclp_trans [OF xv(1)] by blast
          qed
        qed
      next
        assume "\<exists>s. \<exists>k \<le> high. num s = Some k \<and> E\<^sup>*\<^sup>* u s \<and> good s"
        then show ?thesis using le order_trans by blast
      qed
    qed
  next
    show "?high = 0 \<or> (\<exists>s. num s = Some ?high \<and> good s)"
      using wit found unfolding witnessed_def by auto
  qed
qed

end
