(* ===== verification/TsccCorrect.thy ===== *)
theory TsccCorrect
  imports TsccExploration TerminalComponents
begin

text \<open>
  Correctness of the search for terminal components: the contract of a store with payloads, the loop invariant over the
  graph of reachable token vectors, termination and the verdicts.
\<close>

section \<open>Contracts\<close>

text \<open>\<open>numbers\<close> gives the payloads of the stored markings; a reference \<open>r\<close> to the payload of \<open>m\<close> stays valid.\<close>

locale payload_contract =
  fixes search :: "netstate \<Rightarrow> 's \<Rightarrow> bool \<times> 'r option \<times> 's"
    and getp :: "'s \<Rightarrow> 'r \<Rightarrow> statenumber_t" and setp :: "'s \<Rightarrow> 'r \<Rightarrow> statenumber_t \<Rightarrow> 's"
    and sinv :: "'s \<Rightarrow> bool" and numbers :: "'s \<Rightarrow> capacity_t list \<Rightarrow> statenumber_t option"
    and refers :: "'s \<Rightarrow> 'r \<Rightarrow> capacity_t list \<Rightarrow> bool" and dom_ns :: "netstate \<Rightarrow> bool"
  assumes search_correct:
    "dom_ns ns \<Longrightarrow> sinv s \<Longrightarrow> search ns s = (b, pl, s') \<Longrightarrow>
     sinv s' \<and> (\<exists>r. pl = Some r \<and> refers s' r (Current ns)) \<and> (b \<longleftrightarrow> numbers s (Current ns) \<noteq> None) \<and>
     numbers s' = (if b then numbers s else (numbers s)(Current ns \<mapsto> 0)) \<and> (\<forall>r m. refers s r m \<longrightarrow> refers s' r m)"
    and getp_correct: "sinv s \<Longrightarrow> refers s r m \<Longrightarrow> numbers s m = Some (getp s r)"
    and setp_correct:
    "sinv s \<Longrightarrow> refers s r m \<Longrightarrow>
     sinv (setp s r n) \<and> numbers (setp s r n) = (numbers s)(m \<mapsto> n) \<and> (\<forall>r m. refers s r m \<longrightarrow> refers (setp s r' n) r m)"

definition map_refers :: "vstl_map plugin_store \<Rightarrow> vectordata_t list \<Rightarrow> capacity_t list \<Rightarrow> bool" where
  "map_refers s r m \<longleftrightarrow> r = m \<and> vectorStore s m \<noteq> None"

interpretation vstl_numbers: payload_contract "vstl_payload_store N True" vstl_getDFS vstl_setDFS "\<lambda>_. True" vectorStore
    map_refers "hashed_state N H M0" for N H M0
proof (unfold_locales, goal_cases)
  case (1 ns s b pl s')
  then have "length (Current ns) = Card N PL" by (simp add: hashed_state_def reachable_vec_def)
  then have "VSTL_input (Current ns) (Card N PL * VECTOR_WIDTH) = Current ns" by (rule VSTL_input_full)
  then show ?case
    using 1(3)
    by (auto simp: vstl_payload_store_def PluginStore_payload_searchAndInsert_def FullCopyEncoder_encodeNetState_def
        VSTL_map_searchAndInsert_def map_refers_def Let_def split: if_splits)
qed (auto simp: map_refers_def vstl_getDFS_def vstl_setDFS_def split: option.splits)

text \<open>The property answers alike before and after the update of the enabledness.\<close>

locale tscc_contract =
  net_setting N T H M0 +
  property_contract N T "tscc_init ops" "tscc_check ops" "tscc_update ops" "good_state N H M0" pstart pinv phi +
  firelist_contract N "tscc_firelist ops" "good_state N H M0" pinv "\<lambda>_. False" finv "all_enabled N" +
  payload_contract "payload_search ops" "getDFS ops" "setDFS ops" sinv numbers refers "hashed_state N H M0"
  for N :: net and T :: transition_data and H :: "hash_t list" and M0 :: marking
    and ops :: "('p, 's, 'f, 'r) tscc_ops"
    and pstart :: "'p \<Rightarrow> bool" and pinv :: "netstate \<Rightarrow> 'p \<Rightarrow> bool" and phi :: "capacity_t list \<Rightarrow> bool"
    and finv :: "'f \<Rightarrow> bool" and sinv :: "'s \<Rightarrow> bool"
    and numbers :: "'s \<Rightarrow> capacity_t list \<Rightarrow> statenumber_t option" and refers :: "'s \<Rightarrow> 'r \<Rightarrow> capacity_t list \<Rightarrow> bool" +
  assumes early_check:
    "good_state N H M0 ns \<Longrightarrow> pinv ns p \<Longrightarrow> t < Card N TR \<Longrightarrow> Enabled ns ! t \<Longrightarrow>
     tscc_check ops (fire T t ns) t p = tscc_check ops (succ_state N T t ns) t p"

section \<open>The graph\<close>

context net_setting
begin

definition edge :: "capacity_t list \<Rightarrow> capacity_t list \<Rightarrow> bool" where
  "edge m m' \<longleftrightarrow> reach_vec m \<and> (\<exists>t < Card N TR. enabled_at N (marking_of m) t \<and> m' = fire_vec T t m)"

lemma edge_step:
  assumes "reach_vec m" "t < Card N TR" "enabled_at N (marking_of m) t"
  shows "reach_vec (fire_vec T t m)" "marking_of (fire_vec T t m) = fire_at N t (marking_of m)"
proof -
  obtain ns where ns: "good ns" "Current ns = m" using good_exists [OF assms(1)] by blast
  have en: "Enabled ns ! t" using good_enabled [OF ns(1) assms(2)] assms(3) ns(2) by simp
  show "reach_vec (fire_vec T t m)"
    using good_parts(3) [OF good_succ [OF ns(1) assms(2) en]] ns(2) by (simp add: Current_succ_state)
  show "marking_of (fire_vec T t m) = fire_at N t (marking_of m)" by (rule marking_fire_vec [OF assms])
qed

lemma edges_reach: "edge\<^sup>*\<^sup>* m m' \<Longrightarrow> reach_vec m \<Longrightarrow> reach_vec m' \<and> net_reach N (marking_of m) (marking_of m')"
proof (induction rule: rtranclp_induct)
  case base
  then show ?case by (simp add: reach_refl)
next
  case (step x y)
  then obtain t where t: "t < Card N TR" "enabled_at N (marking_of x) t" "y = fire_vec T t x" by (auto simp: edge_def)
  have x: "reach_vec x" "net_reach N (marking_of m) (marking_of x)" using step by auto
  note s = edge_step [OF x(1) t(1,2)]
  have "net_step N (marking_of x) (marking_of y)" using s(2) t by (auto intro: fire_step)
  then show ?case using s(1) x(2) t(3) reach_step by blast
qed

lemma reach_edges:
  assumes "net_reach N (marking_of m) M" "reach_vec m"
  shows "\<exists>m'. edge\<^sup>*\<^sup>* m m' \<and> marking_of m' = M"
  using assms(1)
proof (induction rule: net_reach.induct)
  case reach_refl
  show ?case by blast
next
  case (reach_step M1 M2)
  then obtain x where x: "edge\<^sup>*\<^sup>* m x" "marking_of x = M1" by blast
  obtain t where t: "t < Card N TR" "enabled_at N M1 t" "M2 = fire_at N t M1" using reach_step(2) by (auto elim: net_stepE)
  have r: "reach_vec x" using edges_reach [OF x(1) assms(2)] by blast
  have "edge x (fire_vec T t x)" using r t(1,2) x(2) by (auto simp: edge_def)
  moreover have "marking_of (fire_vec T t x) = M2" using edge_step(2) [OF r t(1)] t x(2) by simp
  ultimately show ?case using rtranclp.rtrancl_into_rtrancl [OF x(1)] by blast
qed

lemma finite_reach_vec: "finite {m. reach_vec m}"
proof (rule finite_subset)
  show "{m. reach_vec m} \<subseteq> {m. set m \<subseteq> UNIV \<and> length m = Card N PL}" by (auto simp: reachable_vec_def)
  show "finite {m :: capacity_t list. set m \<subseteq> UNIV \<and> length m = Card N PL}"
    by (rule finite_lists_length_eq) simp
qed

end

section \<open>The loop invariant\<close>

context tscc_contract
begin

text \<open>Ghost frames: the net state of every entry of the stack, the current one first.  \<open>l\<close> and \<open>k\<close> are the
  fire list and the index of the state on top; those of the states below are in the entries above them.\<close>

definition list_ok :: "netstate \<Rightarrow> arrayindex_t list \<Rightarrow> bool" where
  "list_ok ns l \<longleftrightarrow> set l = {t. t < Card N TR \<and> Enabled ns ! t}"

definition targets :: "arrayindex_t list \<Rightarrow> nat \<Rightarrow> capacity_t list \<Rightarrow> capacity_t list set" where
  "targets l k m = (\<lambda>j. fire_vec T (l ! j) m) ` {..<k}"

fun chain :: "arrayindex_t list \<Rightarrow> nat \<Rightarrow> (netstate \<times> 'r dfs_stack_entry) list \<Rightarrow> bool" where
  "chain l k [] \<longleftrightarrow> True"
| "chain l k [(ns, e)] \<longleftrightarrow> good ns \<and> list_ok ns l \<and> k \<le> length l"
| "chain l k ((ns, e) # (ns1, e1) # fs) \<longleftrightarrow> good ns \<and> list_ok ns l \<and> k \<le> length l \<and>
     flIndex e < length (dfs_fl e) \<and> ns = succ_state N T (dfs_fl e ! flIndex e) ns1 \<and>
     chain (dfs_fl e) (flIndex e) ((ns1, e1) # fs)"

fun gpath :: "arrayindex_t list \<Rightarrow> nat \<Rightarrow> (netstate \<times> 'r dfs_stack_entry) list \<Rightarrow> capacity_t list dfs_path" where
  "gpath l k [] = []"
| "gpath l k ((ns, e) # fs) = (Current ns, lowlink e, targets l k (Current ns)) # gpath (dfs_fl e) (flIndex e) fs"

definition verdict :: "bool \<Rightarrow> capacity_t list \<Rightarrow> bool" where
  "verdict stop m \<longleftrightarrow> (\<exists>w. edge\<^sup>*\<^sup>* m w \<and> phi w) = (\<not> stop)"

definition objects_ok :: "(netstate \<times> 'r dfs_stack_entry) list \<Rightarrow> ('p, 's, 'f, 'r) tscc_state \<Rightarrow> bool" where
  "objects_ok fs s \<longleftrightarrow>
     represents (dfsstack s) (map snd fs) \<and> chain (tscc_list s) (tscc_entry s) fs \<and>
     fs \<noteq> [] \<and> fst (hd fs) = tscc_ns s \<and> sinv (tscc_store s) \<and> pinv (tscc_ns s) (tscc_prop s) \<and> finv (tscc_fl s) \<and>
     (\<forall>(ns, e) \<in> set fs. refers (tscc_store s) (payload e) (Current ns))"

definition numbers_ok :: "capacity_t list \<Rightarrow> ('p, 's, 'f, 'r) tscc_state \<Rightarrow> bool" where
  "numbers_ok m0 s \<longleftrightarrow>
     numbered (numbers (tscc_store s)) (currentDFSNumber s) \<and> card (dom (numbers (tscc_store s))) = currentDFSNumber s \<and>
     card {m. reach_vec m} < 2 ^ 32 \<and> reach_vec m0 \<and> m0 \<in> dom (numbers (tscc_store s)) \<and> dom (numbers (tscc_store s)) \<subseteq> {m. edge\<^sup>*\<^sup>* m0 m} \<and>
     last_ok phi (numbers (tscc_store s)) (last_true s)"

definition tscc_inv ::
  "bool \<Rightarrow> capacity_t list \<Rightarrow> (netstate \<times> 'r dfs_stack_entry) list \<Rightarrow> ('p, 's, 'f, 'r) tscc_state \<Rightarrow> bool" where
  "tscc_inv stop m0 fs s \<longleftrightarrow>
     objects_ok fs s \<and> numbers_ok m0 s \<and>
     path_ok edge (numbers (tscc_store s)) (Suc (currentDFSNumber s)) (gpath (tscc_list s) (tscc_entry s) fs) \<and>
     witnessed edge (verdict stop) (numbers (tscc_store s)) (highest_lowlink s) (Current ` fst ` set fs)"

lemma grays_gpath: "grays (gpath l k fs) = Current ` fst ` set fs"
proof (induction fs arbitrary: l k)
  case (Cons f fs)
  then show ?case by (cases f) simp
qed simp

lemma chain_top:
  "chain l k ((ns, e) # fs) \<Longrightarrow> good ns \<and> list_ok ns l \<and> k \<le> length l"
  by (cases fs) auto

lemma chain_lower: "chain l k ((ns, e) # fs) \<Longrightarrow> k' \<le> k \<Longrightarrow> chain l k' ((ns, e\<lparr>lowlink := x\<rparr>) # fs)"
  by (cases fs) auto

lemma chain_pop: "chain l k ((ns, e) # (ns1, e1) # fs) \<Longrightarrow> chain (dfs_fl e) (flIndex e) ((ns1, e1\<lparr>lowlink := x\<rparr>) # fs)"
  by (cases fs) auto

lemma targets_Suc: "targets l (Suc k) m = insert (fire_vec T (l ! k) m) (targets l k m)"
  by (auto simp: targets_def lessThan_Suc)

lemma targets_0 [simp]: "targets l 0 m = {}"
  by (simp add: targets_def)

lemma edge_enabled:
  assumes "good ns" "t < Card N TR" "Enabled ns ! t"
  shows "edge (Current ns) (fire_vec T t (Current ns))"
  using assms good_parts(3) [OF assms(1)] good_enabled [OF assms(1,2)] by (auto simp: edge_def)

lemma edge_targets:
  assumes "good ns" "list_ok ns l" "edge (Current ns) m"
  shows "m \<in> targets l (length l) (Current ns)"
proof -
  obtain t where t: "t < Card N TR" "enabled_at N (marking_of (Current ns)) t" "m = fire_vec T t (Current ns)"
    using assms(3) by (auto simp: edge_def)
  then have "t \<in> set l" using assms(1,2) good_enabled [OF assms(1) t(1)] by (simp add: list_ok_def)
  then show ?thesis using t(3) by (auto simp: targets_def in_set_conv_nth)
qed

lemma firelist_ok:
  assumes "good ns" "pinv ns p" "finv f" "tscc_firelist ops ns p f = (l, f')"
  shows "finv f'" "list_ok ns l"
proof -
  have g: "finv f' \<and> all_enabled N (Current ns) (set l) \<and> (\<forall>t \<in> set l. t < Card N TR \<and> Enabled ns ! t)"
    by (rule get_correct [OF assms(1,2) _ assms(3,4)]) simp
  then show "finv f'" by blast
  have "Enabled ns ! t = has_tokens (Current ns) (Arcs N TR PRE ! t)" if "t < Card N TR" for t
    using good_parts(1) [OF assms(1)] that by (rule enabled_ok_flag)
  moreover have "set l = {t. t < Card N TR \<and> has_tokens (Current ns) (Arcs N TR PRE ! t)}"
    using g unfolding all_enabled_def by blast
  ultimately show "list_ok ns l" unfolding list_ok_def by blast
qed

section \<open>Going forward\<close>

lemma forward_transition:
  assumes "objects_ok fs s" "0 < tscc_entry s" "t = tscc_list s ! (tscc_entry s - 1)"
  shows "good (tscc_ns s)" "t < Card N TR" "Enabled (tscc_ns s) ! t"
proof -
  have o: "fs \<noteq> []" "fst (hd fs) = tscc_ns s" "chain (tscc_list s) (tscc_entry s) fs"
    using assms(1) unfolding objects_ok_def by blast+
  obtain x fs' where x: "fs = x # fs'" using o(1) by (meson neq_Nil_conv)
  obtain n e where "x = (n, e)" by (cases x)
  then have fs: "fs = (tscc_ns s, e) # fs'" using x o(2) by simp
  from chain_top [OF o(3) [unfolded fs]]
  have c: "good (tscc_ns s)" "list_ok (tscc_ns s) (tscc_list s)" "tscc_entry s \<le> length (tscc_list s)" by blast+
  then show "good (tscc_ns s)" by blast
  have "t \<in> set (tscc_list s)" using assms(2,3) c(3) by simp
  then show "t < Card N TR" "Enabled (tscc_ns s) ! t" using c(2) by (auto simp: list_ok_def)
qed

lemma forward_found:
  assumes inv: "tscc_inv stop m0 ((ns, e) # fs) s" and pos: "0 < tscc_entry s"
    and t: "t = tscc_list s ! (tscc_entry s - 1)"
    and sai: "payload_search ops (fire T t (tscc_ns s)) (tscc_store s) = (True, pl, st)"
  shows "\<exists>e' s'. tscc_step stop N T ops s = Some (None, s') \<and> tscc_inv stop m0 ((ns, e') # fs) s' \<and>
    numbers (tscc_store s') = numbers (tscc_store s) \<and> tscc_entry s' = tscc_entry s - 1 \<and> flIndex e' = flIndex e"
proof -
  let ?num = "numbers (tscc_store s)" and ?m = "fire_vec T t (Current ns)"
  have ob: "objects_ok ((ns, e) # fs) s" and ns: "tscc_ns s = ns" using inv by (auto simp: tscc_inv_def objects_ok_def)
  note en = forward_transition [OF ob pos t, unfolded ns]
  have hs: "hashed (fire T t ns)" by (rule hashed_fire [OF en])
  have si: "sinv (tscc_store s)" using ob by (simp add: objects_ok_def)
  obtain r where r: "pl = Some r" "refers st r ?m" "sinv st" "numbers st = ?num" "?num ?m \<noteq> None"
    "\<forall>r m. refers (tscc_store s) r m \<longrightarrow> refers st r m"
    using search_correct [OF hs si sai [unfolded ns]] by (auto simp: Current_fire)
  let ?k = "getDFS ops st r"
  have k: "?num ?m = Some ?k" using getp_correct [OF r(3,2)] r(4) by simp
  have rep: "represents (dfsstack s) (e # map snd fs)" using ob by (simp add: objects_ok_def)
  let ?e = "e\<lparr>lowlink := min (lowlink e) ?k\<rparr>"
  obtain ks where ks: "lower_top ?k (dfsstack s) = Some ks" "represents ks (?e # map snd fs)"
    using lower_top_represents [OF rep] by blast
  let ?s = "s\<lparr>tscc_store := st, tscc_entry := tscc_entry s - 1, tscc_ns := ns, dfsstack := ks\<rparr>"
  have "tscc_forward N T ops s = Some ?s"
    using sai r(1) ks(1) represents_StackPointer [OF rep] good_unfire [OF en(1), of t]
    unfolding tscc_forward_def Let_def t [symmetric] ns by simp
  then have step: "tscc_step stop N T ops s = Some (None, ?s)" using pos by (simp add: tscc_step_def)
  have ch: "chain (tscc_list s) (tscc_entry s - 1) ((ns, ?e) # fs)"
  proof (rule chain_lower)
    show "chain (tscc_list s) (tscc_entry s) ((ns, e) # fs)" using ob unfolding objects_ok_def by blast
  qed simp
  have ob': "objects_ok ((ns, ?e) # fs) ?s" using ob ks(2) ch r(3,6) ns by (auto simp: objects_ok_def)
  have sub: "targets (tscc_list s) (tscc_entry s) (Current ns) \<subseteq> insert ?m (targets (tscc_list s) (tscc_entry s - 1) (Current ns))"
    using targets_Suc [of "tscc_list s" "tscc_entry s - 1"] pos t by simp
  have pa: "path_ok edge ?num (Suc (currentDFSNumber s))
      ((Current ns, lowlink e, targets (tscc_list s) (tscc_entry s) (Current ns)) # gpath (dfs_fl e) (flIndex e) fs)"
    using inv by (simp add: tscc_inv_def)
  note path_ok_old [OF pa edge_enabled [OF en] k sub]
  then have "tscc_inv stop m0 ((ns, ?e) # fs) ?s"
    using inv ob' r(4) unfolding tscc_inv_def numbers_ok_def by simp
  then show ?thesis using step r(4) by (intro exI [of _ ?e] exI [of _ ?s]) simp
qed

lemma inv_reach:
  assumes "numbers_ok m0 s" "numbers (tscc_store s) m = Some n"
  shows "edge\<^sup>*\<^sup>* m0 m" "reach_vec m"
proof -
  show r: "edge\<^sup>*\<^sup>* m0 m" using assms unfolding numbers_ok_def by blast
  show "reach_vec m" using edges_reach [OF r] assms(1) unfolding numbers_ok_def by blast
qed

lemma next_number_Suc:
  assumes "numbers_ok m0 s" "reach_vec m" "numbers (tscc_store s) m = None"
  shows "next_number (currentDFSNumber s) = Suc (currentDFSNumber s)"
proof -
  let ?D = "dom (numbers (tscc_store s))"
  have "?D \<subseteq> {m. reach_vec m}" using inv_reach(2) [OF assms(1)] by blast
  then have sub: "insert m ?D \<subseteq> {m. reach_vec m}" using assms(2) by blast
  have "finite ?D" using finite_subset [OF sub finite_reach_vec] by simp
  then have "card (insert m ?D) = Suc (card ?D)" using assms(3) by (intro card_insert_disjoint) auto
  moreover have "card {m. reach_vec m} < 2 ^ 32" using assms(1) unfolding numbers_ok_def by blast
  ultimately have "Suc (card ?D) < 2 ^ 32" using card_mono [OF finite_reach_vec sub] by linarith
  then show ?thesis using assms(1) by (simp add: numbers_ok_def next_number_def)
qed

lemma forward_new:
  assumes inv: "tscc_inv stop m0 ((ns, e) # fs) s" and pos: "0 < tscc_entry s"
    and t: "t = tscc_list s ! (tscc_entry s - 1)"
    and sai: "payload_search ops (fire T t (tscc_ns s)) (tscc_store s) = (False, pl, st)"
  shows "\<exists>fs' s' m. tscc_step stop N T ops s = Some (None, s') \<and> tscc_inv stop m0 fs' s' \<and> reach_vec m \<and>
    numbers (tscc_store s) m = None \<and> dom (numbers (tscc_store s')) = insert m (dom (numbers (tscc_store s)))"
proof -
  let ?num = "numbers (tscc_store s)" and ?m = "fire_vec T t (Current ns)" and ?c = "currentDFSNumber s"
  let ?ns = "succ_state N T t ns" and ?k = "tscc_entry s - 1"
  have ob: "objects_ok ((ns, e) # fs) s" and ns: "tscc_ns s = ns" and nu: "numbers_ok m0 s"
    using inv by (auto simp: tscc_inv_def objects_ok_def)
  note en = forward_transition [OF ob pos t, unfolded ns]
  have hs: "hashed (fire T t ns)" by (rule hashed_fire [OF en])
  have si: "sinv (tscc_store s)" and pi: "pinv ns (tscc_prop s)" and fi: "finv (tscc_fl s)"
    using ob ns unfolding objects_ok_def by auto
  have g2: "good ?ns" by (rule good_succ [OF en])
  have cur2: "Current ?ns = ?m" by (rule Current_succ_state)
  have rm: "reach_vec ?m" using good_parts(3) [OF g2] cur2 by simp
  obtain r where r: "pl = Some r" "refers st r ?m" "sinv st" "numbers st = ?num(?m \<mapsto> 0)" "?num ?m = None"
    "\<forall>r m. refers (tscc_store s) r m \<longrightarrow> refers st r m"
    using search_correct [OF hs si sai [unfolded ns]] by (auto simp: Current_fire)
  have n: "next_number ?c = Suc ?c" by (rule next_number_Suc [OF nu rm r(5)])
  let ?st = "setDFS ops st r (Suc ?c)"
  have put: "sinv ?st" "numbers ?st = ?num(?m \<mapsto> Suc ?c)" "\<forall>r m. refers st r m \<longrightarrow> refers ?st r m"
    using setp_correct [OF r(3,2)] r(4) by simp_all
  obtain v p where chk: "tscc_check ops (fire T t ns) t (tscc_prop s) = (v, p)" by fastforce
  then have "tscc_check ops ?ns t (tscc_prop s) = (v, p)" using early_check [OF en(1) pi en(2,3)] by simp
  then have v: "v = phi ?m" "pinv ?ns p" using chk_correct [OF en(1) pi en(2,3) refl g2] cur2 by auto
  obtain fl fd where get: "tscc_firelist ops ?ns p (tscc_fl s) = (fl, fd)" by fastforce
  note fl = firelist_ok [OF g2 v(2) fi get]
  let ?e = "\<lparr>dfs_fl = tscc_list s, flIndex = ?k, payload = r, lowlink = Suc ?c\<rparr>"
  let ?fs = "(?ns, ?e) # (ns, e) # fs"
  let ?s = "s\<lparr>tscc_store := ?st, currentDFSNumber := Suc ?c, dfsstack := push ?e (dfsstack s), tscc_prop := p,
    last_true := (if v then Suc ?c else last_true s), tscc_ns := ?ns, tscc_fl := fd, tscc_list := fl, tscc_entry := length fl\<rparr>"
  have "tscc_forward N T ops s = Some ?s"
    using sai r(1) chk get unfolding tscc_forward_def Let_def t [symmetric] ns n succ_state_def [symmetric] by simp
  then have step: "tscc_step stop N T ops s = Some (None, ?s)" using pos by (simp add: tscc_step_def)
  have c: "chain (tscc_list s) (tscc_entry s) ((ns, e) # fs)" using ob unfolding objects_ok_def by blast
  have le: "tscc_entry s \<le> length (tscc_list s)" using chain_top [OF c] by blast
  have "chain (tscc_list s) ?k ((ns, e\<lparr>lowlink := lowlink e\<rparr>) # fs)" by (rule chain_lower [OF c]) simp
  then have "chain fl (length fl) ?fs" using g2 fl(2) pos le t by simp
  moreover have "represents (push ?e (dfsstack s)) (map snd ?fs)"
    using ob chunked.rep_push [of "dfsstack s" "map snd ((ns, e) # fs)"] unfolding objects_ok_def by simp
  ultimately have ob': "objects_ok ?fs ?s"
    using ob put r(2,6) v(2) fl(1) cur2 unfolding objects_ok_def by auto
  have num: "numbered ?num ?c" "last_ok phi ?num (last_true s)" "card (dom ?num) = ?c" using nu unfolding numbers_ok_def by blast+
  have ed: "edge (Current ns) ?m" by (rule edge_enabled [OF en])
  have cn: "\<exists>j. ?num (Current ns) = Some j" using inv by (auto simp: tscc_inv_def)
  then have m0: "edge\<^sup>*\<^sup>* m0 ?m" using inv_reach(1) [OF nu] ed by (meson rtranclp.rtrancl_into_rtrancl)
  have "dom ?num \<subseteq> {m. reach_vec m}" using inv_reach(2) [OF nu] by blast
  then have fin: "finite (dom ?num)" by (rule finite_subset [OF _ finite_reach_vec])
  have cd: "card (insert ?m (dom ?num)) = Suc ?c" using card_insert_disjoint [OF fin] r(5) num(3) by auto
  have nu': "numbers_ok m0 ?s"
  proof -
    have d: "dom (?num(?m \<mapsto> Suc ?c)) = insert ?m (dom ?num)" by simp
    have "m0 \<in> dom ?num" "dom ?num \<subseteq> {m. edge\<^sup>*\<^sup>* m0 m}" "reach_vec m0" "card {m. reach_vec m} < 2 ^ 32"
      using nu unfolding numbers_ok_def by blast+
    then have "m0 \<in> insert ?m (dom ?num)" "insert ?m (dom ?num) \<subseteq> {m. edge\<^sup>*\<^sup>* m0 m}" "reach_vec m0"
      "card {m. reach_vec m} < 2 ^ 32" using m0 by blast+
    moreover have "last_ok phi (?num(?m \<mapsto> Suc ?c)) (if v then Suc ?c else last_true s)"
      using last_ok_new [OF num(2,1) r(5)] v(1) by simp
    moreover have "tscc_store ?s = ?st" "currentDFSNumber ?s = Suc ?c" "last_true ?s = (if v then Suc ?c else last_true s)"
      by simp_all
    ultimately show ?thesis
      using numbered_new [OF num(1) r(5)] cd unfolding numbers_ok_def by (simp only: put(2) d)
  qed
  have sub: "targets (tscc_list s) (tscc_entry s) (Current ns) \<subseteq> insert ?m (targets (tscc_list s) ?k (Current ns))"
    using targets_Suc [of "tscc_list s" ?k] pos t by simp
  have pa: "path_ok edge ?num (Suc ?c)
      ((Current ns, lowlink e, targets (tscc_list s) (tscc_entry s) (Current ns)) # gpath (dfs_fl e) (flIndex e) fs)"
    using inv by (simp add: tscc_inv_def)
  have tg: "\<And>x. edge ?m x \<Longrightarrow> x \<in> targets fl (length fl) ?m" using edge_targets [OF g2 fl(2)] cur2 by simp
  have path': "path_ok edge (numbers ?st) (Suc (Suc ?c)) (gpath fl (length fl) ?fs)"
    using path_ok_new [OF pa num(1) ed r(5) sub tg] put(2) cur2 by (simp del: path_ok.simps)
  have "witnessed edge (verdict stop) ?num (highest_lowlink s) (Current ` fst ` set ((ns, e) # fs))"
    using inv unfolding tscc_inv_def by blast
  from witnessed_new [OF this r(5)]
  have wit': "witnessed edge (verdict stop) (numbers ?st) (highest_lowlink s) (Current ` fst ` set ?fs)"
    using put(2) cur2 by simp
  have "tscc_inv stop m0 ?fs ?s" using ob' nu' path' wit' unfolding tscc_inv_def by simp
  then show ?thesis using step rm r(5) put(2) by (intro exI [of _ ?fs] exI [of _ ?s] exI [of _ ?m]) auto
qed

section \<open>Going back\<close>

text \<open>The questions: can the property become true from every reachable marking, and is there a reachable
  marking from where it stays possible.\<close>

definition live :: "capacity_t list \<Rightarrow> bool" where
  "live m \<longleftrightarrow> (\<exists>w. edge\<^sup>*\<^sup>* m w \<and> phi w)"

definition answer_of :: "bool \<Rightarrow> capacity_t list \<Rightarrow> bool" where
  "answer_of stop m0 \<longleftrightarrow>
     (if stop then \<exists>m. edge\<^sup>*\<^sup>* m0 m \<and> (\<forall>u. edge\<^sup>*\<^sup>* m u \<longrightarrow> live u) else \<forall>m. edge\<^sup>*\<^sup>* m0 m \<longrightarrow> live m)"

lemma verdict_live: "verdict stop m \<longleftrightarrow> live m = (\<not> stop)"
  by (simp add: verdict_def live_def)

lemma live_back: "edge\<^sup>*\<^sup>* u m \<Longrightarrow> live m \<Longrightarrow> live u"
  unfolding live_def by (meson rtranclp_trans)

definition component_found :: "('p, 's, 'f, 'r) tscc_state \<Rightarrow> 'r dfs_stack_entry \<Rightarrow> bool" where
  "component_found s e \<longleftrightarrow> getDFS ops (tscc_store s) (payload e) = lowlink e \<and> highest_lowlink s < lowlink e"

lemma found_number:
  assumes "tscc_inv stop m0 ((ns, e) # fs) s"
  shows "numbers (tscc_store s) (Current ns) = Some (getDFS ops (tscc_store s) (payload e))"
  using assms getp_correct by (auto simp: tscc_inv_def objects_ok_def)

lemma finished_path:
  assumes "tscc_inv stop m0 ((ns, e) # fs) s" "tscc_entry s = 0"
  shows "path_ok edge (numbers (tscc_store s)) (Suc (currentDFSNumber s))
    ((Current ns, lowlink e, {}) # gpath (dfs_fl e) (flIndex e) fs)"
    "numbered (numbers (tscc_store s)) (currentDFSNumber s)" "last_ok phi (numbers (tscc_store s)) (last_true s)"
    "numbers_ok m0 s"
    "witnessed edge (verdict stop) (numbers (tscc_store s)) (highest_lowlink s)
      (grays ((Current ns, lowlink e, {}) # gpath (dfs_fl e) (flIndex e) fs))"
proof -
  have i: "numbers_ok m0 s"
    "path_ok edge (numbers (tscc_store s)) (Suc (currentDFSNumber s)) (gpath (tscc_list s) (tscc_entry s) ((ns, e) # fs))"
    "witnessed edge (verdict stop) (numbers (tscc_store s)) (highest_lowlink s) (Current ` fst ` set ((ns, e) # fs))"
    using assms(1) unfolding tscc_inv_def by blast+
  show "numbers_ok m0 s" by (rule i(1))
  show "numbered (numbers (tscc_store s)) (currentDFSNumber s)" "last_ok phi (numbers (tscc_store s)) (last_true s)"
    using i(1) unfolding numbers_ok_def by blast+
  show "path_ok edge (numbers (tscc_store s)) (Suc (currentDFSNumber s))
    ((Current ns, lowlink e, {}) # gpath (dfs_fl e) (flIndex e) fs)"
    using i(2) unfolding gpath.simps assms(2) targets_0 .
  show "witnessed edge (verdict stop) (numbers (tscc_store s)) (highest_lowlink s)
      (grays ((Current ns, lowlink e, {}) # gpath (dfs_fl e) (flIndex e) fs))"
    using i(3) grays_gpath [of "dfs_fl e" "flIndex e" fs] by simp
qed

lemma found_live:
  assumes inv: "tscc_inv stop m0 ((ns, e) # fs) s" "tscc_entry s = 0" and f: "component_found s e"
  shows "live (Current ns) \<longleftrightarrow> lowlink e \<le> last_true s"
proof -
  let ?num = "numbers (tscc_store s)"
  note F = finished_path [OF inv]
  have n: "?num (Current ns) = Some (lowlink e)" using found_number [OF inv(1)] f by (simp add: component_found_def)
  note reg = region [OF F(1,2) n]
  have "1 \<le> lowlink e" using numbered_range [OF F(2) n] by simp
  then have "last_true s \<noteq> 0" if "lowlink e \<le> last_true s" using that by simp
  then show ?thesis using F(3) unfolding live_def last_ok_def reg by (metis order_trans)
qed

lemma found_stops:
  assumes inv: "tscc_inv stop m0 ((ns, e) # fs) s" "tscc_entry s = 0" and f: "component_found s e"
    and v: "(lowlink e \<le> last_true s) = stop"
  shows "answer_of stop m0 = stop"
proof -
  note F = finished_path [OF inv]
  have n: "numbers (tscc_store s) (Current ns) = Some (lowlink e)"
    using found_number [OF inv(1)] f by (simp add: component_found_def)
  have r: "edge\<^sup>*\<^sup>* m0 (Current ns)" by (rule inv_reach(1) [OF F(4) n])
  have l: "live (Current ns) = stop" using found_live [OF inv f] v by simp
  show ?thesis
  proof (cases stop)
    case True
    have h: "highest_lowlink s < lowlink e" using f by (simp add: component_found_def)
    have "live u" if "edge\<^sup>*\<^sup>* (Current ns) u" for u
      using terminal [OF F(1,2) n F(5) h that] l True live_back by blast
    then show ?thesis using True r by (auto simp: answer_of_def)
  next
    case False
    then show ?thesis using r l by (auto simp: answer_of_def)
  qed
qed

lemma witnessed_next:
  assumes inv: "tscc_inv stop m0 ((ns, e) # fs) s" "tscc_entry s = 0"
    and v: "\<not> (component_found s e \<and> (lowlink e \<le> last_true s) = stop)"
  shows "witnessed edge (verdict stop) (numbers (tscc_store s))
    (if component_found s e then lowlink e else highest_lowlink s) (Current ` fst ` set fs)"
proof -
  note F = finished_path [OF inv]
  let ?c = "numbers (tscc_store s) (Current ns) = Some (lowlink e) \<and> highest_lowlink s < lowlink e"
  have f: "component_found s e \<longleftrightarrow> ?c" using found_number [OF inv(1)] by (auto simp: component_found_def)
  have "verdict stop (Current ns)" if "?c"
    using found_live [OF inv] v that f unfolding verdict_live by blast
  then show ?thesis
    using witnessed_pop [OF F(1,2,5)] unfolding f grays_gpath by blast
qed

lemma step_back:
  assumes rep: "represents (dfsstack s) (e # es)" and z: "tscc_entry s = 0"
  shows "tscc_step stop N T ops s = tscc_backward stop N T ops s e"
  using z chunked.rep_top [OF rep] by (simp add: tscc_step_def)

lemma backward_last:
  assumes inv: "tscc_inv stop m0 [(ns, e)] s" and z: "tscc_entry s = 0"
  shows "\<exists>s'. tscc_step stop N T ops s = Some (Some (answer_of stop m0), s')"
proof -
  let ?num = "numbers (tscc_store s)"
  note F = finished_path [OF inv z]
  have rep: "represents (dfsstack s) [e]" using inv by (simp add: tscc_inv_def objects_ok_def)
  have sp: "StackPointer (dfsstack s) = 1" using represents_StackPointer [OF rep] by simp
  show ?thesis
  proof (cases "component_found s e \<and> (lowlink e \<le> last_true s) = stop")
    case True
    then show ?thesis
      using found_stops [OF inv z] unfolding step_back [OF rep z] tscc_backward_def Let_def component_found_def [symmetric] by auto
  next
    case False
    have "numbers (tscc_store s) (Current ns) = Some 1"
      "entry_ok edge ?num 1 (Suc (currentDFSNumber s)) (Current ns) (lowlink e) {}"
      using F(1) by auto
    note E = entry_okD(3) [OF this(2)]
    have cl: "\<exists>n. ?num u = Some n" if "edge\<^sup>*\<^sup>* m0 u" for u
      using that
    proof (induction rule: rtranclp_induct)
      case base
      then show ?case using F(4) unfolding numbers_ok_def by blast
    next
      case (step x y)
      then obtain n where n: "?num x = Some n" by blast
      note R = numbered_range [OF F(2) n]
      have "\<exists>k \<ge> lowlink e. ?num y = Some k" by (rule E [OF n _ _ step(2)]) (use R in simp_all)
      then show ?case by blast
    qed
    note W = witnessed_next [OF inv z False]
    have w: "\<exists>x. edge\<^sup>*\<^sup>* u x \<and> live x = (\<not> stop)" if "edge\<^sup>*\<^sup>* m0 u" for u
      using W cl [OF that] unfolding witnessed_def verdict_live by auto
    have "answer_of stop m0 = (\<not> stop)"
    proof (cases stop)
      case True
      then show ?thesis using w by (simp add: answer_of_def)
    next
      case f: False
      have "live u" if "edge\<^sup>*\<^sup>* m0 u" for u using w [OF that] f live_back by blast
      then show ?thesis using f by (simp add: answer_of_def)
    qed
    then show ?thesis
      using False sp unfolding step_back [OF rep z] tscc_backward_def Let_def component_found_def [symmetric] by auto
  qed
qed

lemma backward_pop:
  assumes inv: "tscc_inv stop m0 ((ns, e) # (ns1, e1) # fs) s" and z: "tscc_entry s = 0"
  shows "(\<exists>s'. tscc_step stop N T ops s = Some (Some (answer_of stop m0), s')) \<or>
    (\<exists>s' e'. tscc_step stop N T ops s = Some (None, s') \<and> tscc_inv stop m0 ((ns1, e') # fs) s' \<and>
      numbers (tscc_store s') = numbers (tscc_store s) \<and> tscc_entry s' = flIndex e \<and> flIndex e' = flIndex e1)"
proof (cases "component_found s e \<and> (lowlink e \<le> last_true s) = stop")
  case True
  have rep: "represents (dfsstack s) (e # map snd ((ns1, e1) # fs))" using inv by (simp add: tscc_inv_def objects_ok_def)
  show ?thesis
    using True found_stops [OF inv z]
    unfolding step_back [OF rep z] tscc_backward_def Let_def component_found_def [symmetric] by auto
next
  case False
  let ?num = "numbers (tscc_store s)" and ?t = "dfs_fl e ! flIndex e"
  let ?high = "if component_found s e then lowlink e else highest_lowlink s"
  have ob: "objects_ok ((ns, e) # (ns1, e1) # fs) s" using inv by (simp add: tscc_inv_def)
  have rep: "represents (dfsstack s) (e # e1 # map snd fs)" and nst: "tscc_ns s = ns"
    and ch: "chain (tscc_list s) (tscc_entry s) ((ns, e) # (ns1, e1) # fs)"
    and si: "sinv (tscc_store s)" "pinv ns (tscc_prop s)" "finv (tscc_fl s)"
    using ob by (auto simp: objects_ok_def)
  have sp: "StackPointer (dfsstack s) \<noteq> 1" using represents_StackPointer [OF rep] by simp
  have c: "flIndex e < length (dfs_fl e)" "ns = succ_state N T ?t ns1" "chain (dfs_fl e) (flIndex e) ((ns1, e1) # fs)"
    using ch by auto
  have g: "good ns" "good ns1" "list_ok ns1 (dfs_fl e)" using chain_top [OF ch] chain_top [OF c(3)] by blast+
  have t: "?t < Card N TR" "Enabled ns1 ! ?t" using g(3) nth_mem [OF c(1)] unfolding list_ok_def by blast+
  have restored: "revertEnabled N T ?t (backfire T ?t ns) = ns1" using good_back [OF g(2) t] c(2) by simp
  obtain v p where upd: "tscc_update ops ns1 ?t (tscc_prop s) = (v, p)" by fastforce
  have p: "pinv ns1 p" using upd_correct [OF g(2) t c(2) g(1) si(2) upd] .
  let ?e = "e1\<lparr>lowlink := min (lowlink e1) (lowlink e)\<rparr>"
  obtain k where k: "lower_top (lowlink e) (pop (dfsstack s)) = Some k" "represents k (?e # map snd fs)"
    using lower_top_represents [OF chunked.rep_pop [OF rep]] by blast
  let ?s1 = "s\<lparr>tscc_entry := flIndex e, tscc_list := dfs_fl e,
    tscc_value := (if component_found s e then lowlink e \<le> last_true s else tscc_value s)\<rparr>"
  let ?s = "(if component_found s e then ?s1\<lparr>highest_lowlink := lowlink e\<rparr> else ?s1)\<lparr>dfsstack := k, tscc_ns := ns1, tscc_prop := p\<rparr>"
  have fields: "tscc_store ?s = tscc_store s" "tscc_entry ?s = flIndex e" "tscc_list ?s = dfs_fl e" "dfsstack ?s = k"
    "tscc_ns ?s = ns1" "tscc_prop ?s = p" "highest_lowlink ?s = ?high" "tscc_fl ?s = tscc_fl s"
    "currentDFSNumber ?s = currentDFSNumber s" "last_true ?s = last_true s"
    by simp_all
  have step: "tscc_step stop N T ops s = Some (None, ?s)"
    unfolding step_back [OF rep z] tscc_backward_def Let_def component_found_def [symmetric]
    using False sp k(1) restored upd nst by simp
  have ob': "objects_ok ((ns1, ?e) # fs) ?s"
    unfolding objects_ok_def fields
    using k(2) chain_lower [OF c(3) order_refl] si p ob unfolding objects_ok_def by simp
  have nu': "numbers_ok m0 ?s" using finished_path(4) [OF inv z] unfolding numbers_ok_def fields .
  note F = finished_path [OF inv z]
  have "path_ok edge ?num (Suc (currentDFSNumber s))
    ((Current ns, lowlink e, {}) # (Current ns1, lowlink e1, targets (dfs_fl e) (flIndex e) (Current ns1)) #
      gpath (dfs_fl e1) (flIndex e1) fs)"
    using F(1) unfolding gpath.simps .
  from path_ok_pop [OF this F(2)]
  have path': "path_ok edge ?num (Suc (currentDFSNumber s)) (gpath (dfs_fl e) (flIndex e) ((ns1, ?e) # fs))" by simp
  have "Current ` fst ` set ((ns1, ?e) # fs) = Current ` fst ` set ((ns1, e1) # fs)" by simp
  then have wit': "witnessed edge (verdict stop) ?num ?high (Current ` fst ` set ((ns1, ?e) # fs))"
    using witnessed_next [OF inv z False] by simp
  have "tscc_inv stop m0 ((ns1, ?e) # fs) ?s"
    unfolding tscc_inv_def fields using ob' nu' path' wit' by blast
  then have "tscc_step stop N T ops s = Some (None, ?s) \<and> tscc_inv stop m0 ((ns1, ?e) # fs) ?s \<and>
    numbers (tscc_store ?s) = ?num \<and> tscc_entry ?s = flIndex e \<and> flIndex ?e = flIndex e1" using step fields(1,2) by simp
  then show ?thesis by blast
qed

section \<open>The loop\<close>

definition frames_load :: "(netstate \<times> 'r dfs_stack_entry) list \<Rightarrow> nat" where
  "frames_load fs = sum_list (map (\<lambda>(ns, e). Suc (flIndex e)) fs)"

definition unseen :: "('p, 's, 'f, 'r) tscc_state \<Rightarrow> nat" where
  "unseen s = card ({m. reach_vec m} - dom (numbers (tscc_store s)))"

lemma tscc_loop_step:
  "tscc_step stop N T ops s = Some (None, s') \<Longrightarrow> tscc_loop stop N T ops s = tscc_loop stop N T ops s'"
  "tscc_step stop N T ops s = Some (Some b, s') \<Longrightarrow> tscc_loop stop N T ops s = Some (b, s')"
  by (subst tscc_loop.simps, simp)+

lemma tscc_loop_total:
  assumes "tscc_inv stop m0 fs s"
  shows "\<exists>s'. tscc_loop stop N T ops s = Some (answer_of stop m0, s')"
  using assms
proof (induction "(unseen s, tscc_entry s + frames_load fs)" arbitrary: s fs
    rule: wf_induct_rule [OF wf_lex_prod [OF wf_less_than wf_less_than]])
  case (1 s fs)
  have go: "\<exists>s2. tscc_loop stop N T ops s = Some (answer_of stop m0, s2)"
    if h: "tscc_step stop N T ops s = Some (None, s1)" "tscc_inv stop m0 fs1 s1"
      "unseen s1 < unseen s \<or> unseen s1 = unseen s \<and> tscc_entry s1 + frames_load fs1 < tscc_entry s + frames_load fs"
    for s1 fs1
    using 1(1) [OF _ h(2)] h(3) unfolding tscc_loop_step(1) [OF h(1)] by auto
  have "fs \<noteq> []" using 1(2) by (simp add: tscc_inv_def objects_ok_def)
  then obtain ns e fs' where fs: "fs = (ns, e) # fs'" by (cases fs) auto
  note inv = 1(2) [unfolded fs]
  show ?case
  proof (cases "0 < tscc_entry s")
    case pos: True
    let ?t = "tscc_list s ! (tscc_entry s - 1)"
    obtain b pl st where sai: "payload_search ops (fire T ?t (tscc_ns s)) (tscc_store s) = (b, pl, st)"
      by (cases "payload_search ops (fire T ?t (tscc_ns s)) (tscc_store s)") blast
    show ?thesis
    proof (cases b)
      case True
      then have sai': "payload_search ops (fire T ?t (tscc_ns s)) (tscc_store s) = (True, pl, st)" using sai by simp
      obtain e' s' where f: "tscc_step stop N T ops s = Some (None, s')" "tscc_inv stop m0 ((ns, e') # fs') s'"
        "numbers (tscc_store s') = numbers (tscc_store s)" "tscc_entry s' = tscc_entry s - 1" "flIndex e' = flIndex e"
        using forward_found [OF inv pos refl sai'] by blast
      show ?thesis by (rule go [OF f(1,2)]) (use f(3-5) pos fs in \<open>simp add: unseen_def frames_load_def\<close>)
    next
      case False
      then have sai': "payload_search ops (fire T ?t (tscc_ns s)) (tscc_store s) = (False, pl, st)" using sai by simp
      obtain fs1 s' m where f: "tscc_step stop N T ops s = Some (None, s')" "tscc_inv stop m0 fs1 s'" "reach_vec m"
        "numbers (tscc_store s) m = None" "dom (numbers (tscc_store s')) = insert m (dom (numbers (tscc_store s)))"
        using forward_new [OF inv pos refl sai'] by blast
      have "unseen s' < unseen s" unfolding unseen_def
      proof (rule psubset_card_mono)
        show "{m. reach_vec m} - dom (numbers (tscc_store s')) \<subset> {m. reach_vec m} - dom (numbers (tscc_store s))"
          using f(3-5) by blast
      qed (use finite_reach_vec in simp)
      then show ?thesis using go [OF f(1,2)] by blast
    qed
  next
    case False
    then have z: "tscc_entry s = 0" by simp
    show ?thesis
    proof (cases fs')
      case Nil
      then obtain s' where "tscc_step stop N T ops s = Some (Some (answer_of stop m0), s')"
        using backward_last [OF inv [unfolded Nil] z] by blast
      from tscc_loop_step(2) [OF this] show ?thesis by blast
    next
      case (Cons f fs2)
      obtain ns1 e1 where f: "f = (ns1, e1)" by (cases f)
      from backward_pop [OF inv [unfolded Cons f] z] show ?thesis
      proof
        assume "\<exists>s'. tscc_step stop N T ops s = Some (Some (answer_of stop m0), s')"
        then obtain s' where "tscc_step stop N T ops s = Some (Some (answer_of stop m0), s')" by blast
        from tscc_loop_step(2) [OF this] show ?thesis by blast
      next
        assume "\<exists>s' e'. tscc_step stop N T ops s = Some (None, s') \<and> tscc_inv stop m0 ((ns1, e') # fs2) s' \<and>
          numbers (tscc_store s') = numbers (tscc_store s) \<and> tscc_entry s' = flIndex e \<and> flIndex e' = flIndex e1"
        then obtain s' e' where b: "tscc_step stop N T ops s = Some (None, s')" "tscc_inv stop m0 ((ns1, e') # fs2) s'"
          "numbers (tscc_store s') = numbers (tscc_store s)" "tscc_entry s' = flIndex e" "flIndex e' = flIndex e1" by blast
        show ?thesis
          by (rule go [OF b(1,2)]) (use b(3-5) z fs Cons f in \<open>simp add: unseen_def frames_load_def\<close>)
      qed
    qed
  qed
qed

text \<open>The start.\<close>

lemma tscc_start_inv:
  assumes "good ns" "pstart p" "sinv st" "numbers st = Map.empty" "finv f" "card {m. reach_vec m} < 2 ^ 32"
  shows "\<exists>s e. tscc_start ops p ns st f = Some s \<and> tscc_inv stop (Current ns) [(ns, e)] s"
proof -
  let ?m = "Current ns"
  have rm: "reach_vec ?m" by (rule good_parts(3) [OF assms(1)])
  have hs: "hashed ns" using assms(1) by (simp add: good_state_def)
  obtain b pl st1 where sai: "payload_search ops ns st = (b, pl, st1)" by (cases "payload_search ops ns st") blast
  obtain r where r: "pl = Some r" "refers st1 r ?m" "sinv st1" "\<not> b" "numbers st1 = [?m \<mapsto> 0]"
    using search_correct [OF hs assms(3) sai] assms(4) by auto
  obtain v p1 where ini: "tscc_init ops ns p = (v, p1)" by fastforce
  note v = init_correct [OF assms(1,2) ini]
  obtain fl fd where get: "tscc_firelist ops ns p1 f = (fl, fd)" by fastforce
  note fl = firelist_ok [OF assms(1) _ assms(5) get]
  have n: "next_number 0 = 1" by (simp add: next_number_def)
  let ?st = "setDFS ops st1 r 1"
  have put: "sinv ?st" "numbers ?st = [?m \<mapsto> 1]" "refers ?st r ?m" using setp_correct [OF r(3,2)] r(2,5) by simp_all
  let ?e = "\<lparr>dfs_fl = fl, flIndex = length fl, payload = r, lowlink = 1\<rparr>"
  let ?s = "\<lparr>tscc_ns = ns, tscc_prop = p1, tscc_value = False, dfsstack = push ?e empty_stack, tscc_store = ?st,
    tscc_fl = fd, tscc_list = fl, tscc_entry = length fl, currentDFSNumber = 1, highest_lowlink = 0,
    last_true = (if v then 1 else 0)\<rparr>"
  have start: "tscc_start ops p ns st f = Some ?s"
    using sai r(1) ini get n by (simp add: tscc_start_def Let_def)
  have "objects_ok [(ns, ?e)] ?s"
    using chunked.rep_push [OF chunked.rep_empty] put fl v assms(1) by (simp add: objects_ok_def)
  moreover have "numbers_ok ?m ?s"
    using put(2) rm v assms(6) by (auto simp: numbers_ok_def numbered_def last_ok_def split: if_splits)
  moreover have "path_ok edge (numbers ?st) 2 [(?m, 1, targets fl (length fl) ?m)]"
    using edge_targets [OF assms(1) fl(2)] v put(2) by (auto simp: entry_ok_def split: if_splits)
  moreover have "witnessed edge (verdict stop) (numbers ?st) 0 {?m}"
    using put(2) by (auto simp: witnessed_def split: if_splits)
  ultimately have "tscc_inv stop ?m [(ns, ?e)] ?s" by (simp add: tscc_inv_def numeral_2_eq_2)
  then show ?thesis using start by blast
qed

lemma answer_of_reach:
  assumes "reach_vec m0" "\<And>m. reach_vec m \<Longrightarrow> phi m \<longleftrightarrow> Phi (marking_of m)"
  shows "answer_of stop m0 \<longleftrightarrow>
    (if stop
     then \<exists>M. net_reach N (marking_of m0) M \<and> (\<forall>M'. net_reach N M M' \<longrightarrow> (\<exists>M''. net_reach N M' M'' \<and> Phi M''))
     else \<forall>M. net_reach N (marking_of m0) M \<longrightarrow> (\<exists>M'. net_reach N M M' \<and> Phi M'))"
proof -
  have some: "(\<exists>m'. edge\<^sup>*\<^sup>* m m' \<and> P m') \<longleftrightarrow> (\<exists>M. net_reach N (marking_of m) M \<and> Q M)"
    if m: "reach_vec m" and PQ: "\<And>x. reach_vec x \<Longrightarrow> P x \<longleftrightarrow> Q (marking_of x)" for m P Q
  proof
    assume "\<exists>m'. edge\<^sup>*\<^sup>* m m' \<and> P m'"
    then obtain x where x: "edge\<^sup>*\<^sup>* m x" "P x" by blast
    then show "\<exists>M. net_reach N (marking_of m) M \<and> Q M" using edges_reach [OF x(1) m] PQ by blast
  next
    assume "\<exists>M. net_reach N (marking_of m) M \<and> Q M"
    then obtain M where M: "net_reach N (marking_of m) M" "Q M" by blast
    obtain x where x: "edge\<^sup>*\<^sup>* m x" "marking_of x = M" using reach_edges [OF M(1) m] by blast
    then show "\<exists>m'. edge\<^sup>*\<^sup>* m m' \<and> P m'" using edges_reach [OF x(1) m] PQ M(2) by blast
  qed
  have every: "(\<forall>m'. edge\<^sup>*\<^sup>* m m' \<longrightarrow> P m') \<longleftrightarrow> (\<forall>M. net_reach N (marking_of m) M \<longrightarrow> Q M)"
    if m: "reach_vec m" and PQ: "\<And>x. reach_vec x \<Longrightarrow> P x \<longleftrightarrow> Q (marking_of x)" for m P Q
    using some [OF m, of "\<lambda>x. \<not> P x" "\<lambda>M. \<not> Q M"] PQ by blast
  have live: "live m \<longleftrightarrow> (\<exists>M. net_reach N (marking_of m) M \<and> Phi M)" if m: "reach_vec m" for m
    using some [of m phi Phi, OF m] assms(2) unfolding live_def by blast
  have all: "(\<forall>m'. edge\<^sup>*\<^sup>* m m' \<longrightarrow> live m') \<longleftrightarrow>
      (\<forall>M. net_reach N (marking_of m) M \<longrightarrow> (\<exists>M'. net_reach N M M' \<and> Phi M'))" if m: "reach_vec m" for m
    using every [of m live "\<lambda>M. \<exists>M'. net_reach N M M' \<and> Phi M'", OF m] live by blast
  show ?thesis
    unfolding answer_of_def
    using some [OF assms(1), of "\<lambda>m. \<forall>u. edge\<^sup>*\<^sup>* m u \<longrightarrow> live u"
        "\<lambda>M. \<forall>M'. net_reach N M M' \<longrightarrow> (\<exists>M''. net_reach N M' M'' \<and> Phi M'')"] all all [OF assms(1)]
    by simp
qed

lemma tscc_depth_first_decides:
  assumes "good ns" "pstart p" "sinv st" "numbers st = Map.empty" "finv f" "card {m. reach_vec m} < 2 ^ 32"
    and "\<And>m. reach_vec m \<Longrightarrow> phi m \<longleftrightarrow> Phi (marking_of m)"
  shows "\<exists>b s. tscc_depth_first stop N T ops p ns st f = Some (b, s) \<and>
    (b \<longleftrightarrow>
      (if stop
       then \<exists>M. net_reach N (marking_of (Current ns)) M \<and> (\<forall>M'. net_reach N M M' \<longrightarrow> (\<exists>M''. net_reach N M' M'' \<and> Phi M''))
       else \<forall>M. net_reach N (marking_of (Current ns)) M \<longrightarrow> (\<exists>M'. net_reach N M M' \<and> Phi M')))"
proof -
  obtain s0 e where s: "tscc_start ops p ns st f = Some s0" "tscc_inv stop (Current ns) [(ns, e)] s0"
    using tscc_start_inv [OF assms(1-6)] by blast
  obtain s' where "tscc_loop stop N T ops s0 = Some (answer_of stop (Current ns), s')"
    using tscc_loop_total [OF s(2)] by blast
  then show ?thesis
    using s(1) answer_of_reach [OF good_parts(3) [OF assms(1)] assms(7), of stop] by (simp add: tscc_depth_first_def)
qed

end

end
