(* ===== verification/TsccProps.thy ===== *)
theory TsccProps
  imports TsccCorrect PredicateProps
begin

text \<open>
  The liveness tasks: \<open>AGEFTask\<close> and \<open>EFAGEFTask\<close> run the search for terminal components with the property
  object of a state predicate, the full fire list and a \<open>VSTLStore\<close> of numbers.
\<close>

section \<open>The search for a state predicate\<close>

definition predicate_tscc_ops ::
  "sp_property \<Rightarrow> net \<Rightarrow> bool \<Rightarrow> (sp_heap option, vstl_map plugin_store, unit, vectordata_t list) tscc_ops" where
  "predicate_tscc_ops P N singleThreaded =
     \<lparr>tscc_init = sp_initProperty P, tscc_check = sp_checkProperty P, tscc_update = sp_updateProperty P,
      tscc_firelist = base_get N, payload_search = vstl_payload_store N singleThreaded,
      getDFS = vstl_getDFS, setDFS = vstl_setDFS\<rparr>"

text \<open>Formulas without \<open>FIREABLE\<close> and \<open>DEADLOCK\<close>: their values do not depend on the enabledness.\<close>

definition arithmetic :: "sp_heap \<Rightarrow> bool" where
  "arithmetic h \<longleftrightarrow> (\<forall>a < length h. \<not> is_fireable (kind (h ! a)) \<and> \<not> is_deadlock (kind (h ! a)))"

lemma arithmetic_check:
  assumes "tables_ok N T P h0" "arithmetic h0" "t < Card N TR"
  shows "sp_checkProperty P ns t d = sp_checkProperty P ns' t d"
proof -
  have "\<forall>a \<in> set (changedFireable P ! t). a < length h0 \<and> is_fireable (kind (h0 ! a))"
    "set (changedDeadlock P) = {a. a < length h0 \<and> is_deadlock (kind (h0 ! a))}"
    using assms(1,3) by (simp_all add: tables_ok_def)
  moreover have "\<not> is_fireable (kind (h0 ! a))" "\<not> is_deadlock (kind (h0 ! a))" if "a < length h0" for a
    using assms(2) that by (simp_all add: arithmetic_def)
  ultimately have "x \<notin> set (changedFireable P ! t)" "x \<notin> set (changedDeadlock P)" for x by blast+
  then have "changedFireable P ! t = []" "changedDeadlock P = []" by (metis list.set_intros(1) neq_Nil_conv)+
  then show ?thesis by (simp add: sp_checkProperty_def propagate_def)
qed

definition arith_start ::
  "net \<Rightarrow> transition_data \<Rightarrow> hash_t list \<Rightarrow> marking \<Rightarrow> sp_property \<Rightarrow> sp_heap \<Rightarrow> sp_heap option \<Rightarrow> bool" where
  "arith_start N T H M0 P h0 d \<longleftrightarrow> arithmetic h0 \<and> sp_pstart N T H M0 P h0 d"

definition arith_inv ::
  "net \<Rightarrow> transition_data \<Rightarrow> hash_t list \<Rightarrow> marking \<Rightarrow> sp_property \<Rightarrow> sp_heap \<Rightarrow> netstate \<Rightarrow> sp_heap option \<Rightarrow> bool" where
  "arith_inv N T H M0 P h0 ns d \<longleftrightarrow> arithmetic h0 \<and> sp_pinv N T H M0 P h0 ns d"

interpretation arith_prop: property_contract N T "sp_initProperty P" "sp_checkProperty P" "sp_updateProperty P"
    "good_state N H M0" "arith_start N T H M0 P h0" "arith_inv N T H M0 P h0" "\<lambda>m. sp_holds N h0 m (predicate P)"
  for N T P H M0 h0
proof (unfold_locales, goal_cases)
  case (1 ns p v p')
  then have "sp_pstart N T H M0 P h0 p" "arithmetic h0" by (simp_all add: arith_start_def)
  then show ?case using sp_prop.init_correct [OF 1(1) _ 1(3)] unfolding arith_inv_def by blast
next
  case (2 ns p t ns' v p')
  then have "sp_pinv N T H M0 P h0 ns p" "arithmetic h0" by (simp_all add: arith_inv_def)
  then show ?case using sp_prop.chk_correct [OF 2(1) _ 2(3-7)] unfolding arith_inv_def by blast
next
  case (3 ns t ns' p v p')
  then have "sp_pinv N T H M0 P h0 ns' p" "arithmetic h0" by (simp_all add: arith_inv_def)
  then show ?case using sp_prop.upd_correct [OF 3(1-5) _ 3(7)] unfolding arith_inv_def by blast
next
  case (4 ns p)
  then show ?case unfolding arith_start_def arith_inv_def using sp_prop.pinv_start by blast
qed

lemma predicate_tscc_ops_simps [simp]:
  "tscc_init (predicate_tscc_ops P N b) = sp_initProperty P" "tscc_check (predicate_tscc_ops P N b) = sp_checkProperty P"
  "tscc_update (predicate_tscc_ops P N b) = sp_updateProperty P" "tscc_firelist (predicate_tscc_ops P N b) = base_get N"
  "payload_search (predicate_tscc_ops P N b) = vstl_payload_store N b"
  "getDFS (predicate_tscc_ops P N b) = vstl_getDFS" "setDFS (predicate_tscc_ops P N b) = vstl_setDFS"
  by (simp_all add: predicate_tscc_ops_def)

lemma arith_early:
  assumes "arith_inv N T H M0 P h0 ns p" "t < Card N TR"
  shows "sp_checkProperty P (fire T t ns) t p = sp_checkProperty P (succ_state N T t ns) t p"
proof (rule arithmetic_check)
  show "tables_ok N T P h0" "arithmetic h0" using assms(1) by (simp_all add: arith_inv_def sp_pinv_def sp_setting_def)
qed (rule assms(2))

sublocale net_setting \<subseteq> tscc_sp: tscc_contract N T H M0 "predicate_tscc_ops P N True"
    "arith_start N T H M0 P h0" "arith_inv N T H M0 P h0" "\<lambda>m. sp_holds N h0 m (predicate P)" "\<lambda>_. True" "\<lambda>_. True"
    vectorStore map_refers for P h0
proof (rule tscc_contract.intro [OF net_setting_axioms])
  show "tscc_contract_axioms N T H M0 (predicate_tscc_ops P N True) (arith_inv N T H M0 P h0)"
    unfolding tscc_contract_axioms_def predicate_tscc_ops_simps using arith_early by blast
qed (unfold predicate_tscc_ops_simps, unfold_locales)

context net_setting
begin

lemmas tscc_sp_decides = tscc_sp.tscc_depth_first_decides [OF _ _ _ _ _ _ sp_vec]

end

section \<open>Liveness\<close>

text \<open>\<open>EF\<close>, and \<open>AG EF\<close>, of a property of markings.\<close>

definition possible :: "net \<Rightarrow> (marking \<Rightarrow> bool) \<Rightarrow> marking \<Rightarrow> bool" where
  "possible N Phi M \<longleftrightarrow> (\<exists>M'. net_reach N M M' \<and> Phi M')"

definition always_possible :: "net \<Rightarrow> (marking \<Rightarrow> bool) \<Rightarrow> marking \<Rightarrow> bool" where
  "always_possible N Phi M \<longleftrightarrow> (\<forall>M'. net_reach N M M' \<longrightarrow> possible N Phi M')"

lemma tscc_decides:
  assumes "search_ready N T H ns" "formula_ok N h r" "arithmetic h"
    and few: "card {m. reachable_vec N (marking_of (Current ns)) m} < 2 ^ 32"
  shows "\<exists>P h0 b s. StatePredicateProperty N T r h = Some (P, h0) \<and>
    tscc_depth_first stop N T (predicate_tscc_ops P N True) (Some h0) ns (empty_plugin Map.empty) () = Some (b, s) \<and>
    (b \<longleftrightarrow>
      (if stop then possible N (always_possible N (\<lambda>M. sp_holds N h (vec_of N M) r)) (marking_of (Current ns))
       else always_possible N (\<lambda>M. sp_holds N h (vec_of N M) r) (marking_of (Current ns))))"
proof -
  obtain P h0 where P: "StatePredicateProperty N T r h = Some (P, h0)"
    using constructor_correct [OF assms(2), of T] by blast
  have "up_only h h0" using constructor_correct [OF assms(2), of T] P by auto
  note U = up_only_fields [OF this]
  note S = sp_setting_constructed [OF assms(1,2) P]
  note R = search_ready_setting [OF assms(1)]
  have st: "arith_start N T H (marking_of (Current ns)) P h0 (Some h0)"
    using S(1) assms(3) U by (simp add: arith_start_def arithmetic_def)
  have "\<exists>b s. tscc_depth_first stop N T (predicate_tscc_ops P N True) (Some h0) ns (empty_plugin Map.empty) () = Some (b, s) \<and>
    (b \<longleftrightarrow>
      (if stop then possible N (always_possible N (\<lambda>M. sp_holds N h0 (vec_of N M) (predicate P))) (marking_of (Current ns))
       else always_possible N (\<lambda>M. sp_holds N h0 (vec_of N M) (predicate P)) (marking_of (Current ns))))"
    unfolding possible_def always_possible_def
    by (rule net_setting.tscc_sp_decides [OF R(1) R(2) st TrueI _ TrueI few]) (simp_all add: empty_plugin_def)
  moreover have "(\<lambda>M. sp_holds N h0 (vec_of N M) (predicate P)) = (\<lambda>M. sp_holds N h (vec_of N M) r)" using S(2) by blast
  ultimately show ?thesis using P by metis
qed

section \<open>Samples over the ring net\<close>

text \<open>\<open>p1 >= 1\<close> and \<open>FIREABLE(t1)\<close>.\<close>

definition token_formula :: sp_heap where
  "token_formula = [sample_node\<lparr>kind := Atomic [] [(1, 1)] (- 1)\<rparr>]"

definition fireable_formula :: sp_heap where
  "fireable_formula = [sample_node\<lparr>kind := Fireable 1 True\<rparr>]"

lemma leaf_formula_ok:
  assumes "kind_ok ring_net k" "\<not> is_inner (sample_node\<lparr>kind := k\<rparr>)" "k \<noteq> TruePredicate"
  shows "formula_ok ring_net [sample_node\<lparr>kind := k\<rparr>] 0"
proof -
  have "links_ok [sample_node\<lparr>kind := k\<rparr>]" using assms(2) by (auto simp: links_ok_def sample_node_def)
  moreover have "ranked id [sample_node\<lparr>kind := k\<rparr>]" by (auto simp: ranked_def sample_node_def)
  moreover have "constants_ok [sample_node\<lparr>kind := k\<rparr>]" using assms(3) by (auto simp: constants_ok_def sample_node_def)
  ultimately show ?thesis
    using assms(1) by (auto simp: formula_ok_def formula_heap_def sample_node_def)
qed

lemma token_formula_ok: "formula_ok ring_net token_formula 0" "arithmetic token_formula"
proof -
  show "formula_ok ring_net token_formula 0"
    unfolding token_formula_def by (rule leaf_formula_ok) (simp_all add: is_inner_def)
  show "arithmetic token_formula" by (simp add: arithmetic_def token_formula_def)
qed

lemma ring_few: "card {m. reachable_vec ring_net (marking_of (Current ring_state)) m} < 2 ^ 32"
proof -
  have "m = [1, 0] \<or> m = [0, 1]" if "reachable_vec ring_net (marking_of (Current ring_state)) m" for m
  proof -
    have "length m = 2" "marking_of m 0 + marking_of m 1 = 1"
      using that ring_reach [of "marking_of m"] by (auto simp: reachable_vec_def ring_state_def)
    moreover obtain a b where m: "m = [a, b]" using calculation(1) by (auto simp: numeral_2_eq_2 length_Suc_conv)
    ultimately have "unat a = 1 \<and> unat b = 0 \<or> unat a = 0 \<and> unat b = 1" by (auto simp: marking_of_def)
    then show ?thesis unfolding m by (auto simp: word_unat_eq_iff)
  qed
  then have "{m. reachable_vec ring_net (marking_of (Current ring_state)) m} \<subseteq> {[1, 0], [0, 1]}" by blast
  from card_mono [OF _ this] have "card {m. reachable_vec ring_net (marking_of (Current ring_state)) m} \<le> 2" by simp
  then show ?thesis by simp
qed

section \<open>Runs\<close>

text \<open>\<open>n\<close> rounds of the loop that do not return.\<close>

fun tscc_after ::
  "nat \<Rightarrow> bool \<Rightarrow> net \<Rightarrow> transition_data \<Rightarrow> ('p, 's, 'f, 'r) tscc_ops \<Rightarrow> ('p, 's, 'f, 'r) tscc_state \<Rightarrow>
   ('p, 's, 'f, 'r) tscc_state option" where
  "tscc_after 0 stop N T ops s = Some s"
| "tscc_after (Suc n) stop N T ops s =
     (case tscc_step stop N T ops s of Some (None, s') \<Rightarrow> tscc_after n stop N T ops s' | _ \<Rightarrow> None)"

lemma tscc_after_loop:
  "tscc_after n stop N T ops s = Some s' \<Longrightarrow> tscc_loop stop N T ops s = tscc_loop stop N T ops s'"
proof (induction n arbitrary: s)
  case (Suc n)
  then obtain s1 where s1: "tscc_step stop N T ops s = Some (None, s1)" "tscc_after n stop N T ops s1 = Some s'"
    by (auto split: option.splits prod.splits)
  have "tscc_loop stop N T ops s = tscc_loop stop N T ops s1" by (subst tscc_loop.simps) (simp add: s1(1))
  then show ?case using Suc.IH [OF s1(2)] by simp
qed simp

definition fireable_property :: sp_property where
  "fireable_property = \<lparr>predicate = 0, changedPredicate = [[], []], changedFireable = [[0], [0]], changedDeadlock = []\<rparr>"

lemma fireable_constructed:
  "StatePredicateProperty ring_net ring_trans 0 fireable_formula = Some (fireable_property, fireable_formula)"
  "sp_initProperty fireable_property ring_state (Some fireable_formula) = (False, Some fireable_formula)"
proof -
  have c: "collect_from sel fireable_formula 0 0 = Some (if sel (Fireable 1 True) then [0] else [])" for sel
    by (subst collect_from.simps) (simp add: fireable_formula_def is_inner_def)
  show "StatePredicateProperty ring_net ring_trans 0 fireable_formula = Some (fireable_property, fireable_formula)"
  proof -
    have "register_fireable ring_net ring_trans fireable_formula 0 (replicate 2 []) = [[0], [0]]" by code_simp
    moreover have "map (changed_atoms ring_trans fireable_formula []) [0..<2] = [[], []]"
      by (simp add: changed_atoms_def numeral_2_eq_2)
    moreover have "init_up_sets [] [[], []] fireable_formula = fireable_formula"
      by (simp add: init_up_sets_def fireable_formula_def)
    ultimately show ?thesis
      unfolding StatePredicateProperty_def collectAtomic_def collectDeadlock_def collectFireable_def c
      by (simp add: fireable_property_def Let_def)
  qed
  have "evaluate ring_state 0 fireable_formula = Some (evaluate_leaf ring_state 0 fireable_formula)"
    unfolding evaluate_def by (subst evaluate_from.simps) (simp add: fireable_formula_def is_inner_def)
  moreover have "evaluate_leaf ring_state 0 fireable_formula = fireable_formula" by code_simp
  moreover have "\<not> sp_value (fireable_formula ! 0)" by (simp add: fireable_formula_def sample_node_def)
  ultimately show "sp_initProperty fireable_property ring_state (Some fireable_formula) = (False, Some fireable_formula)"
    by (simp add: sp_initProperty_def answer_def fireable_property_def)
qed

text \<open>The state in which the loop starts.\<close>

definition fireable_start :: "(sp_heap option, vstl_map plugin_store, unit, vectordata_t list) tscc_state" where
  "fireable_start =
     \<lparr>tscc_ns = ring_state, tscc_prop = Some fireable_formula, tscc_value = False,
      dfsstack = push \<lparr>dfs_fl = [0], flIndex = 1, payload = [1, 0], lowlink = 1\<rparr> empty_stack,
      tscc_store = \<lparr>vectorStore = [[1, 0] \<mapsto> 1], calls = 1, markings = 1\<rparr>, tscc_fl = (), tscc_list = [0], tscc_entry = 1,
      currentDFSNumber = 1, highest_lowlink = 0, last_true = 0\<rparr>"

lemma ring_payload_store:
  assumes "length (Current ns) = 2"
  shows "vstl_payload_store ring_net b ns st =
    (vectorStore st (Current ns) \<noteq> None, if b \<or> vectorStore st (Current ns) = None then Some (Current ns) else None,
     \<lparr>vectorStore = (if vectorStore st (Current ns) = None then (vectorStore st)(Current ns \<mapsto> 0) else vectorStore st),
      calls = calls st + 1, markings = (if vectorStore st (Current ns) = None then markings st + 1 else markings st)\<rparr>)"
proof -
  have "VSTL_input (Current ns) (Card ring_net PL * VECTOR_WIDTH) = Current ns" using VSTL_input_full assms by simp
  then show ?thesis
    by (cases "vectorStore st (Current ns)"; cases b)
      (simp_all add: vstl_payload_store_def PluginStore_payload_searchAndInsert_def FullCopyEncoder_encodeNetState_def
        VSTL_map_searchAndInsert_def Let_def)
qed

lemma fireable_starts:
  "tscc_start (predicate_tscc_ops fireable_property ring_net b) (Some fireable_formula) ring_state (empty_plugin Map.empty) () =
   Some fireable_start"
proof -
  have "base_get ring_net ring_state p () = ([0], ())" for p :: "sp_heap option"
    by (simp add: base_get_def base_firelist_def ring_state_def numeral_2_eq_2)
  moreover have "Current ring_state = [1, 0]" by (simp add: ring_state_def)
  ultimately show ?thesis
    by (simp add: tscc_start_def ring_payload_store fireable_constructed(2) fireable_start_def next_number_def
        vstl_setDFS_def empty_plugin_def)
qed

text \<open>The marking \<open>[0, 1]\<close>, before and after the update of the enabledness.\<close>

definition fired_state :: netstate where
  "fired_state = \<lparr>Current = [0, 1], HashCurrent = 6, Enabled = [True, False], CardEnabled = 1\<rparr>"

definition second_state :: netstate where
  "second_state = \<lparr>Current = [0, 1], HashCurrent = 6, Enabled = [False, True], CardEnabled = 1\<rparr>"

lemma fireable_moves:
  "fire ring_trans 0 ring_state = fired_state" "updateEnabled ring_net ring_trans 0 fired_state = second_state"
  "sp_checkProperty fireable_property fired_state 0 (Some fireable_formula) = (False, Some fireable_formula)"
  "base_get ring_net second_state (p :: sp_heap option) () = ([1], ())"
  "Current (fire ring_trans 1 second_state) = [1, 0]"
  by code_simp+

definition fireable_second :: "(sp_heap option, vstl_map plugin_store, unit, vectordata_t list) tscc_state" where
  "fireable_second = fireable_start
     \<lparr>tscc_ns := second_state, dfsstack := push \<lparr>dfs_fl = [0], flIndex = 0, payload = [0, 1], lowlink = 2\<rparr> (dfsstack fireable_start),
      tscc_store := \<lparr>vectorStore = [[1, 0] \<mapsto> 1, [0, 1] \<mapsto> 2], calls = 2, markings = 2\<rparr>, tscc_list := [1], tscc_entry := 1,
      currentDFSNumber := 2\<rparr>"

lemma fireable_first_step:
  "tscc_step stop ring_net ring_trans (predicate_tscc_ops fireable_property ring_net b) fireable_start = Some (None, fireable_second)"
proof -
  have c: "Current fired_state = [0, 1]" by (simp add: fired_state_def)
  have n: "next_number (Suc 0) = 2" by (simp add: next_number_def)
  show ?thesis
    by (simp add: tscc_step_def tscc_forward_def fireable_start_def fireable_moves ring_payload_store c n
        vstl_setDFS_def fireable_second_def Let_def numeral_2_eq_2 [symmetric])
qed

lemma fireable_second_fires:
  "payload_search (predicate_tscc_ops fireable_property ring_net b) (fire ring_trans 1 second_state) (tscc_store fireable_second) =
   (True, if b then Some [1, 0] else None, (tscc_store fireable_second)\<lparr>calls := 3\<rparr>)"
  using fireable_moves(5) by (simp add: ring_payload_store fireable_second_def)

text \<open>With one thread the search ends with the verdict \<open>False\<close>.\<close>

lemma fireable_verdict:
  "\<exists>s. tscc_loop False ring_net ring_trans (predicate_tscc_ops fireable_property ring_net True) fireable_start = Some (False, s)"
proof -
  let ?ops = "predicate_tscc_ops fireable_property ring_net True"
  let ?step = "tscc_step False ring_net ring_trans ?ops"
  let ?e0 = "\<lparr>dfs_fl = [0], flIndex = 1, payload = [1, 0], lowlink = 1\<rparr> :: vectordata_t list dfs_stack_entry"
  let ?e1 = "\<lparr>dfs_fl = [0], flIndex = 0, payload = [0, 1], lowlink = 2\<rparr> :: vectordata_t list dfs_stack_entry"
  have rep: "represents (dfsstack fireable_second) [?e1, ?e0]"
    by (simp add: fireable_second_def fireable_start_def chunked.rep_push chunked.rep_empty)
  obtain k where k: "lower_top 1 (dfsstack fireable_second) = Some k" "represents k [?e1\<lparr>lowlink := 1\<rparr>, ?e0]"
    using lower_top_represents [OF rep, of 1] by auto
  let ?s2 = "fireable_second\<lparr>tscc_store := (tscc_store fireable_second)\<lparr>calls := 3\<rparr>, tscc_entry := 0,
    tscc_ns := backfire ring_trans 1 (fire ring_trans 1 second_state), dfsstack := k\<rparr>"
  have f: "tscc_entry fireable_second = 1" "tscc_list fireable_second = [1]" "tscc_ns fireable_second = second_state"
    "highest_lowlink fireable_second = 0" "last_true fireable_second = 0"
    "vectorStore (tscc_store fireable_second) = [[1, 0] \<mapsto> 1, [0, 1] \<mapsto> 2]"
    by (simp_all add: fireable_second_def fireable_start_def)
  have sp: "StackPointer (dfsstack fireable_second) \<noteq> 0" using represents_StackPointer [OF rep] by simp
  have step2: "?step fireable_second = Some (None, ?s2)"
    using fireable_second_fires [of True] k(1) sp f
    by (simp add: tscc_step_def tscc_forward_def Let_def vstl_getDFS_def)
  obtain j where j: "lower_top 1 (pop k) = Some j" "represents j [?e0]"
    using lower_top_represents [OF chunked.rep_pop [OF k(2)], of 1] by auto
  obtain v p where u: "sp_updateProperty fireable_property (revertEnabled ring_net ring_trans 0 (backfire ring_trans 0 (tscc_ns ?s2)))
      0 (tscc_prop ?s2) = (v, p)" by fastforce
  obtain s3 where s3: "?step ?s2 = Some (None, s3)" "tscc_entry s3 = 0" "dfsstack s3 = j"
    "highest_lowlink s3 = 0" "last_true s3 = 0" "vectorStore (tscc_store s3) [1, 0] = Some 1"
    using chunked.rep_top [OF k(2)] represents_StackPointer [OF k(2)] j(1) f u
    by (simp add: tscc_step_def tscc_backward_def Let_def vstl_getDFS_def split: prod.splits)
  have "\<exists>s. ?step s3 = Some (Some False, s)"
    using chunked.rep_top [OF j(2)] s3(2-6)
    by (simp add: tscc_step_def tscc_backward_def Let_def vstl_getDFS_def)
  then obtain s4 where s4: "?step s3 = Some (Some False, s4)" by blast
  have "tscc_after 3 False ring_net ring_trans ?ops fireable_start = Some s3"
    using fireable_first_step [of False True] step2 s3(1) by (simp add: numeral_3_eq_3)
  from tscc_after_loop [OF this] show ?thesis using s4 by (simp add: tscc_loop.simps [of _ _ _ _ s3])
qed

text \<open>From each of the two markings the second transition can become enabled.\<close>

lemma ring_live:
  "always_possible ring_net (\<lambda>M. sp_holds ring_net fireable_formula (vec_of ring_net M) 0) (marking_of (Current ring_state))"
  unfolding always_possible_def
proof (intro allI impI)
  fix M
  assume M: "net_reach ring_net (marking_of (Current ring_state)) M"
  have holds: "sp_holds ring_net fireable_formula (vec_of ring_net M') 0" if "M' 1 = 1" for M'
    using that by (intro holds_fireable [of _ _ 1 True])
      (simp_all add: fireable_formula_def vec_of_def numeral_2_eq_2)
  have one: "M 0 + M 1 = 1" using ring_reach [of M] M by (simp add: ring_state_def)
  show "possible ring_net (\<lambda>M. sp_holds ring_net fireable_formula (vec_of ring_net M) 0) M"
  proof (cases "M 1 = 1")
    case True
    then show ?thesis using holds by (auto simp: possible_def intro: reach_refl)
  next
    case False
    then have "M 0 = 1" using one by simp
    then have "enabled_at ring_net M 0" by (auto simp: enabled_at_def less_two ring_weight)
    then have "net_step ring_net M (fire_at ring_net 0 M)" by (intro fire_step) simp_all
    then have "net_reach ring_net M (fire_at ring_net 0 M)" by (rule reach_step [OF reach_refl])
    moreover have "fire_at ring_net 0 M 1 = 1" using False one by (simp add: fire_at_def ring_weight)
    ultimately show ?thesis using holds by (auto simp: possible_def)
  qed
qed

section \<open>Properties\<close>

text \<open>C6: \<open>TSCCExplorationAGEF\<close> returns and decides liveness: whether from every reachable marking a marking that
  satisfies the formula stays reachable.  The formula has no \<open>FIREABLE\<close> and \<open>DEADLOCK\<close> leaves, and there are fewer reachable
  markings than search numbers.\<close>

theorem TSCCExplorationAGEF_decides:
  assumes "search_ready N T H ns" "formula_ok N h r" "arithmetic h"
    and "card {m. reachable_vec N (marking_of (Current ns)) m} < 2 ^ 32"
  shows "\<exists>P h0 b s. StatePredicateProperty N T r h = Some (P, h0) \<and>
    TSCCExplorationAGEF N T (predicate_tscc_ops P N True) (Some h0) ns (empty_plugin Map.empty) () = Some (b, s) \<and>
    (b \<longleftrightarrow> always_possible N (\<lambda>M. sp_holds N h (vec_of N M) r) (marking_of (Current ns)))"
  using tscc_decides [OF assms, of False] by (simp add: TSCCExplorationAGEF_def)

theorem TSCCExplorationAGEF_decides_witness:
  "\<exists>P h0 b s. StatePredicateProperty ring_net ring_trans 0 token_formula = Some (P, h0) \<and>
     TSCCExplorationAGEF ring_net ring_trans (predicate_tscc_ops P ring_net True) (Some h0) ring_state
       (empty_plugin Map.empty) () = Some (b, s)"
  using TSCCExplorationAGEF_decides [OF ring_ready token_formula_ok ring_few] by blast

text \<open>C7: \<open>TSCCExplorationEGAGEF\<close> returns and decides whether some reachable marking satisfies AG EF of the
  formula.\<close>

theorem TSCCExplorationEGAGEF_decides:
  assumes "search_ready N T H ns" "formula_ok N h r" "arithmetic h"
    and "card {m. reachable_vec N (marking_of (Current ns)) m} < 2 ^ 32"
  shows "\<exists>P h0 b s. StatePredicateProperty N T r h = Some (P, h0) \<and>
    TSCCExplorationEGAGEF N T (predicate_tscc_ops P N True) (Some h0) ns (empty_plugin Map.empty) () = Some (b, s) \<and>
    (b \<longleftrightarrow> possible N (always_possible N (\<lambda>M. sp_holds N h (vec_of N M) r)) (marking_of (Current ns)))"
  using tscc_decides [OF assms, of True] by (simp add: TSCCExplorationEGAGEF_def)

theorem TSCCExplorationEGAGEF_decides_witness:
  "\<exists>P h0 b s. StatePredicateProperty ring_net ring_trans 0 token_formula = Some (P, h0) \<and>
     TSCCExplorationEGAGEF ring_net ring_trans (predicate_tscc_ops P ring_net True) (Some h0) ring_state
       (empty_plugin Map.empty) () = Some (b, s)"
  using TSCCExplorationEGAGEF_decides [OF ring_ready token_formula_ok ring_few] by blast

text \<open>C35: the search checks the property before it updates the enabledness, so \<open>FIREABLE\<close> is evaluated with
  the flags of the predecessor: for two transitions in a ring, AG EF FIREABLE of the second one is answered with no
  although it holds.\<close>

theorem TSCCExplorationAGEF_fireable_wrong:
  "\<exists>P h0 s. StatePredicateProperty ring_net ring_trans 0 fireable_formula = Some (P, h0) \<and>
     TSCCExplorationAGEF ring_net ring_trans (predicate_tscc_ops P ring_net True) (Some h0) ring_state
       (empty_plugin Map.empty) () = Some (False, s) \<and>
     always_possible ring_net (\<lambda>M. sp_holds ring_net fireable_formula (vec_of ring_net M) 0) (marking_of (Current ring_state))"
proof -
  obtain s where s: "tscc_loop False ring_net ring_trans (predicate_tscc_ops fireable_property ring_net True) fireable_start = Some (False, s)"
    using fireable_verdict by blast
  then show ?thesis
    using fireable_constructed(1) fireable_starts [of True] ring_live
    by (simp add: TSCCExplorationAGEF_def tscc_depth_first_def)
qed

text \<open>C36: with several threads \<open>VSTLStore\<close> does not set the payload pointer of a vector that it knows already; the search for
  terminal components reads it in the second marking of the ring.\<close>

theorem TSCCExplorationAGEF_threads_undefined:
  "TSCCExplorationAGEF ring_net ring_trans (predicate_tscc_ops fireable_property ring_net False) (Some fireable_formula) ring_state
     (empty_plugin Map.empty) () = None"
proof -
  have "tscc_step False ring_net ring_trans (predicate_tscc_ops fireable_property ring_net False) fireable_second = None"
    using fireable_second_fires [of False]
    by (simp add: tscc_step_def tscc_forward_def fireable_second_def Let_def)
  then show ?thesis
    using fireable_first_step [of False False] fireable_starts [of False]
    by (simp add: TSCCExplorationAGEF_def tscc_depth_first_def tscc_loop.simps [of _ _ _ _ fireable_start]
        tscc_loop.simps [of _ _ _ _ fireable_second])
qed

end
