(* ===== verification/Tasks.thy ===== *)
theory Tasks
  imports Prelude
begin

text \<open>
  \<open>src/Planning\<close>: the verification tasks and how their results are combined.  A task is one of the objects that
  \<open>buildTask\<close> creates; the results of the leaves are given by a relation, because a leaf may use random numbers or run
  an external tool.  \<open>ParallelTask\<close> is modelled by the steps of its three threads under the mutex.
\<close>

section \<open>Three-valued results\<close>

datatype ternary_t = TERNARY_FALSE | TERNARY_TRUE | TERNARY_UNKNOWN

text \<open>The \<open>switch\<close> of \<open>NoDeadlockTask\<close>, \<open>InvariantTask\<close>, \<open>EFAGTask\<close> and \<open>AGEFAGTask\<close>.\<close>

fun reverse_result :: "ternary_t \<Rightarrow> ternary_t" where
  "reverse_result TERNARY_TRUE = TERNARY_FALSE"
| "reverse_result TERNARY_FALSE = TERNARY_TRUE"
| "reverse_result TERNARY_UNKNOWN = TERNARY_UNKNOWN"

text \<open>What a conjunction and a disjunction return once both subtasks have been run.\<close>

definition conjunction_result :: "ternary_t \<Rightarrow> ternary_t \<Rightarrow> ternary_t" where
  "conjunction_result subresult1 subresult2 =
     (if subresult1 = TERNARY_UNKNOWN \<and> subresult2 \<noteq> TERNARY_FALSE then TERNARY_UNKNOWN else subresult2)"

definition disjunction_result :: "ternary_t \<Rightarrow> ternary_t \<Rightarrow> ternary_t" where
  "disjunction_result subresult1 subresult2 =
     (if subresult1 = TERNARY_UNKNOWN \<and> subresult2 \<noteq> TERNARY_TRUE then TERNARY_UNKNOWN else subresult2)"

text \<open>Unknown lies between the two definite results: reversing turns the order round, and a conjunction (disjunction) whose
  first subtask has not settled it takes the minimum (maximum).\<close>

instantiation ternary_t :: linorder
begin

definition less_eq_ternary_t :: "ternary_t \<Rightarrow> ternary_t \<Rightarrow> bool" where
  "less_eq_ternary_t r1 r2 \<longleftrightarrow> r1 = TERNARY_FALSE \<or> r2 = TERNARY_TRUE \<or> r1 = r2"

definition less_ternary_t :: "ternary_t \<Rightarrow> ternary_t \<Rightarrow> bool" where
  "less_ternary_t r1 r2 \<longleftrightarrow> r1 \<noteq> r2 \<and> (r1 = TERNARY_FALSE \<or> r2 = TERNARY_TRUE)"

instance
  by standard (unfold less_eq_ternary_t_def less_ternary_t_def, (metis ternary_t.exhaust ternary_t.distinct)+)

end

lemma conjunction_result_min: "r1 \<noteq> TERNARY_FALSE \<Longrightarrow> conjunction_result r1 r2 = min r1 r2"
  by (cases r1; cases r2) (simp_all add: conjunction_result_def min_def less_eq_ternary_t_def)

lemma disjunction_result_max: "r1 \<noteq> TERNARY_TRUE \<Longrightarrow> disjunction_result r1 r2 = max r1 r2"
  by (cases r1; cases r2) (simp_all add: disjunction_result_def max_def less_eq_ternary_t_def)

lemma ternary_bounds [simp]: "TERNARY_FALSE \<le> r" "r \<le> TERNARY_TRUE"
  by (simp_all add: less_eq_ternary_t_def)

lemma reverse_result_le: "reverse_result r1 \<le> reverse_result r2 \<longleftrightarrow> r2 \<le> r1"
  by (cases r1; cases r2) (simp_all add: less_eq_ternary_t_def)

text \<open>The results of the leaves: a state space search decides, a walk only finds, the siphon check only refutes.\<close>

datatype siphon_result_t =
  SIPHON_PROPERTY_TRUE | SIPHON_PROPERTY_FALSE | SIPHON_INHOMOGENIOUS | SIPHON_INCONCLUSIVE | SIPHON_INDETERMINATE

definition search_result :: "bool \<Rightarrow> ternary_t" where
  "search_result bool_result = (if bool_result then TERNARY_TRUE else TERNARY_FALSE)"

definition findpath_result :: "bool \<Rightarrow> ternary_t" where
  "findpath_result bool_result = (if bool_result then TERNARY_TRUE else TERNARY_UNKNOWN)"

definition siphon_result :: "siphon_result_t \<Rightarrow> ternary_t" where
  "siphon_result r = (case r of SIPHON_PROPERTY_TRUE \<Rightarrow> TERNARY_FALSE | _ \<Rightarrow> TERNARY_UNKNOWN)"

section \<open>ParallelTask\<close>

text \<open>\<open>Running\<close>: \<open>getResult\<close> has not locked the mutex yet.  \<open>Waiting\<close>: it is inside \<open>pthread_cond_wait\<close>.  \<open>Signalled\<close>: it
  has been woken and competes for the mutex.  \<open>Returned\<close>: it keeps the mutex; the winner is \<open>TERNARY_FALSE\<close> for the first
  subtask and \<open>TERNARY_TRUE\<close> for the second.\<close>

datatype parent_state = Running | Waiting | Signalled | Returned ternary_t ternary_t

record parallel_state =
  has_finished :: "bool list"
  subresult :: "ternary_t list"
  main_thread :: parent_state

definition parallel_start :: parallel_state where
  "parallel_start = \<lparr>has_finished = [False, False], subresult = [TERNARY_UNKNOWN, TERNARY_UNKNOWN], main_thread = Running\<rparr>"

definition exit_condition :: "parallel_state \<Rightarrow> bool" where
  "exit_condition s \<longleftrightarrow> has_finished s ! 0 \<and> has_finished s ! 1 \<or> subresult s ! 0 \<noteq> TERNARY_UNKNOWN \<or>
     subresult s ! 1 \<noteq> TERNARY_UNKNOWN"

definition determine_result :: "parallel_state \<Rightarrow> parent_state" where
  "determine_result s =
     (if subresult s ! 0 = TERNARY_UNKNOWN then Returned TERNARY_TRUE (subresult s ! 1)
      else Returned TERNARY_FALSE (subresult s ! 0))"

text \<open>The critical section of \<open>executeSubTask\<close>.  A signal wakes the parent only if it is waiting.\<close>

definition announce :: "nat \<Rightarrow> ternary_t \<Rightarrow> parallel_state \<Rightarrow> parallel_state" where
  "announce my_index result s =
     (let s1 = s\<lparr>has_finished := (has_finished s)[my_index := True], subresult := (subresult s)[my_index := result]\<rparr>
      in if exit_condition s1 \<and> main_thread s1 = Waiting then s1\<lparr>main_thread := Signalled\<rparr> else s1)"

definition check_finished :: "parallel_state \<Rightarrow> parallel_state" where
  "check_finished s = s\<lparr>main_thread := (if exit_condition s then determine_result s else Waiting)\<rparr>"

text \<open>\<open>outcome i = None\<close>: subtask \<open>i\<close> does not end.  A subtask whose critical section is over only sleeps.  Nobody passes the
  mutex after the parent has returned.  \<open>spurious\<close> allows \<open>pthread_cond_wait\<close> to return without a signal.\<close>

inductive parallel_step :: "bool \<Rightarrow> (nat \<Rightarrow> ternary_t option) \<Rightarrow> parallel_state \<Rightarrow> parallel_state \<Rightarrow> bool"
  for spurious outcome where
  finish: "i < 2 \<Longrightarrow> \<not> has_finished s ! i \<Longrightarrow> outcome i = Some r \<Longrightarrow> (\<forall>w v. main_thread s \<noteq> Returned w v) \<Longrightarrow>
    parallel_step spurious outcome s (announce i r s)"
| check: "main_thread s = Running \<Longrightarrow> parallel_step spurious outcome s (check_finished s)"
| wake: "main_thread s = Signalled \<Longrightarrow> parallel_step spurious outcome s (s\<lparr>main_thread := determine_result s\<rparr>)"
| spurious_wake: "spurious \<Longrightarrow> main_thread s = Waiting \<Longrightarrow> parallel_step spurious outcome s (s\<lparr>main_thread := determine_result s\<rparr>)"

inductive_cases parallel_stepE: "parallel_step spurious outcome s s'"

definition parallel_result :: "(nat \<Rightarrow> ternary_t option) \<Rightarrow> ternary_t \<Rightarrow> bool" where
  "parallel_result outcome r \<longleftrightarrow>
     (\<exists>s w. (parallel_step False outcome)\<^sup>*\<^sup>* parallel_start s \<and> main_thread s = Returned w r)"

subsection \<open>No wakeup is lost\<close>

text \<open>A result variable holds the outcome of a subtask that has finished; the parent waits only while it has to.\<close>

definition parallel_ok :: "(nat \<Rightarrow> ternary_t option) \<Rightarrow> parallel_state \<Rightarrow> bool" where
  "parallel_ok outcome s \<longleftrightarrow>
     length (has_finished s) = 2 \<and> length (subresult s) = 2 \<and>
     (\<forall>i < 2. if has_finished s ! i then outcome i = Some (subresult s ! i) else subresult s ! i = TERNARY_UNKNOWN) \<and>
     (case main_thread s of Running \<Rightarrow> True | Waiting \<Rightarrow> \<not> exit_condition s | Signalled \<Rightarrow> exit_condition s
      | Returned w r \<Rightarrow> exit_condition s \<and> Returned w r = determine_result s)"

lemma parallel_ok_start: "parallel_ok outcome parallel_start"
  by (simp add: parallel_ok_def parallel_start_def less_2_cases_iff)

lemma announce_simps:
  "has_finished (announce i r s) = (has_finished s)[i := True]" "subresult (announce i r s) = (subresult s)[i := r]"
  by (simp_all add: announce_def Let_def)

lemma exit_condition_cong:
  "has_finished s = has_finished s' \<Longrightarrow> subresult s = subresult s' \<Longrightarrow> exit_condition s = exit_condition s'"
  by (simp add: exit_condition_def)

lemma exit_condition_parent [simp]: "exit_condition (s\<lparr>main_thread := p\<rparr>) = exit_condition s"
  "determine_result (s\<lparr>main_thread := p\<rparr>) = determine_result s"
  by (simp_all add: exit_condition_def determine_result_def)

lemma determine_returned: "\<exists>w r. determine_result s = Returned w r"
  by (simp add: determine_result_def)

lemma parallel_ok_announce:
  assumes "parallel_ok outcome s" "i < 2" "\<not> has_finished s ! i" "outcome i = Some r" "\<forall>w v. main_thread s \<noteq> Returned w v"
  shows "parallel_ok outcome (announce i r s)"
proof -
  let ?s = "announce i r s" and ?s1 = "s\<lparr>has_finished := (has_finished s)[i := True], subresult := (subresult s)[i := r]\<rparr>"
  have len: "length (has_finished s) = 2" "length (subresult s) = 2" using assms(1) by (simp_all add: parallel_ok_def)
  have vars: "\<forall>j < 2. if has_finished s ! j then outcome j = Some (subresult s ! j) else subresult s ! j = TERNARY_UNKNOWN"
    using assms(1) unfolding parallel_ok_def by blast
  have "\<forall>j < 2. if has_finished ?s ! j then outcome j = Some (subresult ?s ! j) else subresult ?s ! j = TERNARY_UNKNOWN"
    using vars assms(2,4) len by (auto simp: announce_simps nth_list_update)
  moreover have e: "exit_condition ?s = exit_condition ?s1" by (rule exit_condition_cong) (simp_all add: announce_simps)
  have "main_thread ?s = (if exit_condition ?s1 \<and> main_thread s = Waiting then Signalled else main_thread s)"
    by (simp add: announce_def Let_def)
  moreover have "exit_condition ?s1" if "exit_condition s"
    using that vars assms(2,3) len by (auto simp: exit_condition_def less_2_cases_iff nth_list_update)
  ultimately show ?thesis
  proof (cases "main_thread s")
    case (Returned w v)
    then show ?thesis using assms(5) by blast
  qed (use assms(1) e len \<open>exit_condition s \<Longrightarrow> exit_condition ?s1\<close> in \<open>auto simp: parallel_ok_def announce_simps\<close>)
qed

lemma parallel_ok_step:
  assumes "parallel_step False outcome s s'" "parallel_ok outcome s"
  shows "parallel_ok outcome s'"
  using assms
proof cases
  case (finish i r)
  then show ?thesis using parallel_ok_announce assms(2) by blast
next
  case check
  obtain w r where "determine_result s = Returned w r" using determine_returned by blast
  then show ?thesis using assms(2) check by (auto simp: check_finished_def parallel_ok_def)
next
  case wake
  obtain w r where "determine_result s = Returned w r" using determine_returned by blast
  then show ?thesis using assms(2) wake by (auto simp: parallel_ok_def)
qed simp

lemma parallel_ok_reachable: "(parallel_step False outcome)\<^sup>*\<^sup>* parallel_start s \<Longrightarrow> parallel_ok outcome s"
  by (induction rule: rtranclp_induct) (auto intro: parallel_ok_start parallel_ok_step)

subsection \<open>Every run ends\<close>

definition parallel_load :: "parallel_state \<Rightarrow> nat" where
  "parallel_load s = (\<Sum>i<2. if has_finished s ! i then 0 else 1) +
     (case main_thread s of Running \<Rightarrow> 3 | Waiting \<Rightarrow> 2 | Signalled \<Rightarrow> 1 | Returned w r \<Rightarrow> 0)"

lemma parallel_load_step:
  assumes "parallel_step False outcome s s'" "parallel_ok outcome s"
  shows "parallel_load s' < parallel_load s"
proof -
  have len: "length (has_finished s) = 2" using assms(2) by (simp add: parallel_ok_def)
  show ?thesis using assms(1)
  proof cases
    case (finish i r)
    obtain a b where h: "has_finished s = [a, b]" using len by (auto simp: numeral_2_eq_2 length_Suc_conv)
    have "i = 0 \<or> i = 1" using finish(2) by auto
    then have "(\<Sum>j<2. if (has_finished s)[i := True] ! j then 0 else 1 :: nat) < (\<Sum>j<2. if has_finished s ! j then 0 else 1)"
      using finish(3) h by (auto simp: numeral_2_eq_2)
    then show ?thesis
      using finish(1) by (auto simp: parallel_load_def announce_def Let_def split: parent_state.splits)
  next
    case check
    obtain w r where "determine_result s = Returned w r" using determine_returned by blast
    then show ?thesis using check by (simp add: parallel_load_def check_finished_def)
  next
    case wake
    obtain w r where "determine_result s = Returned w r" using determine_returned by blast
    then show ?thesis using wake by (simp add: parallel_load_def)
  qed simp
qed

lemma parallel_run_bounded:
  "(parallel_step False outcome ^^ n) parallel_start s \<Longrightarrow> parallel_ok outcome s \<and> n + parallel_load s \<le> 5"
proof (induction n arbitrary: s)
  case 0
  then show ?case using parallel_ok_start by (auto simp: parallel_load_def parallel_start_def numeral_2_eq_2)
next
  case (Suc n)
  then obtain s1 where s1: "(parallel_step False outcome ^^ n) parallel_start s1" "parallel_step False outcome s1 s"
    by auto
  then show ?case using Suc.IH [OF s1(1)] parallel_ok_step [OF s1(2)] parallel_load_step [OF s1(2)] by fastforce
qed

text \<open>What a run that cannot be continued has reached.\<close>

definition parallel_final :: "(nat \<Rightarrow> ternary_t option) \<Rightarrow> parallel_state \<Rightarrow> bool" where
  "parallel_final outcome s \<longleftrightarrow>
     (case main_thread s of
        Returned w r \<Rightarrow> outcome (if w = TERNARY_FALSE then 0 else 1) = Some r \<and>
          (r = TERNARY_UNKNOWN \<longrightarrow> outcome 0 = Some TERNARY_UNKNOWN \<and> outcome 1 = Some TERNARY_UNKNOWN)
      | _ \<Rightarrow> (\<forall>i < 2. outcome i \<noteq> Some TERNARY_TRUE \<and> outcome i \<noteq> Some TERNARY_FALSE) \<and>
          (outcome 0 = None \<or> outcome 1 = None))"

lemma returned_final:
  assumes "parallel_ok outcome s" "main_thread s = Returned w r"
  shows "parallel_final outcome s"
proof -
  have vars: "\<forall>i < 2. if has_finished s ! i then outcome i = Some (subresult s ! i) else subresult s ! i = TERNARY_UNKNOWN"
    and e: "exit_condition s" "Returned w r = determine_result s"
    using assms by (simp_all add: parallel_ok_def)
  have d: "if has_finished s ! 0 then outcome 0 = Some (subresult s ! 0) else subresult s ! 0 = TERNARY_UNKNOWN"
    "if has_finished s ! 1 then outcome 1 = Some (subresult s ! 1) else subresult s ! 1 = TERNARY_UNKNOWN"
    using vars by simp_all
  show ?thesis
  proof (cases "subresult s ! 0 = TERNARY_UNKNOWN")
    case True
    then have "w = TERNARY_TRUE" "r = subresult s ! 1" using e(2) by (simp_all add: determine_result_def)
    then show ?thesis using d e(1) True assms(2) by (auto simp: parallel_final_def exit_condition_def split: if_splits)
  next
    case False
    then have "w = TERNARY_FALSE" "r = subresult s ! 0" using e(2) by (simp_all add: determine_result_def)
    then show ?thesis using d False assms(2) by (auto simp: parallel_final_def split: if_splits)
  qed
qed

lemma stuck_final:
  assumes "parallel_ok outcome s" "\<forall>s'. \<not> parallel_step False outcome s s'"
  shows "parallel_final outcome s"
proof (cases "main_thread s")
  case Running
  then show ?thesis using assms(2) parallel_step.check by blast
next
  case Signalled
  then show ?thesis using assms(2) parallel_step.wake by blast
next
  case (Returned w r)
  then show ?thesis using returned_final assms(1) by blast
next
  case Waiting
  have none: "has_finished s ! i \<or> outcome i = None" if "i < 2" for i
  proof (rule ccontr)
    assume "\<not> (has_finished s ! i \<or> outcome i = None)"
    then obtain r where "outcome i = Some r" "\<not> has_finished s ! i" by blast
    then show False using parallel_step.finish [of i s outcome r False] that Waiting assms(2) by simp
  qed
  have vars: "\<forall>i < 2. if has_finished s ! i then outcome i = Some (subresult s ! i) else subresult s ! i = TERNARY_UNKNOWN"
    and e: "\<not> exit_condition s"
    using assms(1) Waiting by (simp_all add: parallel_ok_def)
  have d: "has_finished s ! 0 \<longrightarrow> outcome 0 = Some (subresult s ! 0)" "has_finished s ! 1 \<longrightarrow> outcome 1 = Some (subresult s ! 1)"
    using vars by simp_all
  have u: "subresult s ! 0 = TERNARY_UNKNOWN" "subresult s ! 1 = TERNARY_UNKNOWN" "\<not> has_finished s ! 0 \<or> \<not> has_finished s ! 1"
    using e unfolding exit_condition_def by blast+
  have "outcome 0 \<in> {None, Some TERNARY_UNKNOWN}" "outcome 1 \<in> {None, Some TERNARY_UNKNOWN}" using none [of 0] none [of 1] d u by auto
  moreover have "outcome 0 = None \<or> outcome 1 = None" using none [of 0] none [of 1] u(3) by auto
  ultimately show ?thesis using Waiting by (auto simp: parallel_final_def less_2_cases_iff)
qed

text \<open>If both subtasks end, so does the parent.\<close>

lemma parallel_result_exists:
  assumes "outcome 0 = Some a" "outcome 1 = Some b"
  shows "\<exists>r. parallel_result outcome r"
proof -
  let ?s1 = "announce 0 a parallel_start" let ?s2 = "announce 1 b ?s1"
  have st: "parallel_step False outcome parallel_start ?s1"
    using assms(1) by (intro parallel_step.finish) (simp_all add: parallel_start_def)
  have st2: "parallel_step False outcome ?s1 ?s2"
    using assms(2) by (intro parallel_step.finish) (simp_all add: parallel_start_def announce_def Let_def)
  have st3: "parallel_step False outcome ?s2 (check_finished ?s2)"
    by (rule parallel_step.check) (simp add: parallel_start_def announce_def Let_def)
  have run: "(parallel_step False outcome)\<^sup>*\<^sup>* parallel_start (check_finished ?s2)"
    by (rule rtranclp.rtrancl_into_rtrancl [OF rtranclp.rtrancl_into_rtrancl [OF
          r_into_rtranclp [where r = "parallel_step False outcome", OF st] st2] st3])
  have "exit_condition ?s2" by (simp add: parallel_start_def announce_def Let_def exit_condition_def)
  then have "main_thread (check_finished ?s2) = determine_result ?s2" by (simp add: check_finished_def)
  moreover obtain w r where "determine_result ?s2 = Returned w r" using determine_returned by blast
  ultimately have "main_thread (check_finished ?s2) = Returned w r" by simp
  then show ?thesis using run unfolding parallel_result_def by blast
qed

lemma parallel_result_final:
  assumes "parallel_result outcome r"
  shows "\<exists>i < 2. outcome i = Some r"
    "r = TERNARY_UNKNOWN \<Longrightarrow> outcome 0 = Some TERNARY_UNKNOWN \<and> outcome 1 = Some TERNARY_UNKNOWN"
proof -
  obtain s w where s: "(parallel_step False outcome)\<^sup>*\<^sup>* parallel_start s" "main_thread s = Returned w r"
    using assms unfolding parallel_result_def by blast
  have "parallel_final outcome s" by (rule returned_final [OF parallel_ok_reachable [OF s(1)] s(2)])
  then have f: "outcome (if w = TERNARY_FALSE then 0 else 1) = Some r"
    "r = TERNARY_UNKNOWN \<longrightarrow> outcome 0 = Some TERNARY_UNKNOWN \<and> outcome 1 = Some TERNARY_UNKNOWN"
    using s(2) by (simp_all add: parallel_final_def)
  then show "\<exists>i < 2. outcome i = Some r" by (intro exI [of _ "if w = TERNARY_FALSE then 0 else 1"]) simp
  show "r = TERNARY_UNKNOWN \<Longrightarrow> outcome 0 = Some TERNARY_UNKNOWN \<and> outcome 1 = Some TERNARY_UNKNOWN" using f(2) by blast
qed

text \<open>A spurious wakeup makes the parent return before any subtask has finished.\<close>

lemma spurious_unknown:
  "\<exists>s. (parallel_step True (\<lambda>i. Some TERNARY_TRUE))\<^sup>*\<^sup>* parallel_start s \<and> main_thread s = Returned TERNARY_TRUE TERNARY_UNKNOWN"
proof -
  let ?step = "parallel_step True (\<lambda>i. Some TERNARY_TRUE)" and ?s1 = "check_finished parallel_start"
  have p: "main_thread ?s1 = Waiting" "determine_result ?s1 = Returned TERNARY_TRUE TERNARY_UNKNOWN"
    by (simp_all add: check_finished_def parallel_start_def exit_condition_def determine_result_def)
  have st: "?step parallel_start ?s1" by (rule parallel_step.check) (simp add: parallel_start_def)
  have st2: "?step ?s1 (?s1\<lparr>main_thread := determine_result ?s1\<rparr>)" by (rule parallel_step.spurious_wake) (simp_all add: p)
  have "?step\<^sup>*\<^sup>* parallel_start (?s1\<lparr>main_thread := determine_result ?s1\<rparr>)"
    by (rule rtranclp.rtrancl_into_rtrancl [OF r_into_rtranclp [where r = ?step, OF st] st2])
  moreover have "main_thread (?s1\<lparr>main_thread := determine_result ?s1\<rparr>) = Returned TERNARY_TRUE TERNARY_UNKNOWN" using p(2) by simp
  ultimately show ?thesis by blast
qed

end
