(* ===== verification/TaskTree.thy ===== *)
theory TaskTree
  imports Tasks
begin

text \<open>
  \<open>src/Planning\<close>: the task objects, the workflows that \<open>DeadlockTask::buildTask\<close> and \<open>ReachabilityTask::buildTask\<close> make
  of the command line, and the result of a composed task.
\<close>

section \<open>Tasks\<close>

datatype task =
  DeadlockSearchTask | DeadlockFindpathTask | SiphonTrapTask
| ReachabilitySearchTask | ReachabilityFindpathTask | StateEquationTask | AGEFTask | EFAGEFTask
| SequentialTask task task | ParallelTask task task | ConjunctionTask task task | DisjunctionTask task task
| NoDeadlockTask task | InvariantTask task | EFAGTask task | AGEFAGTask task | LeafTask task

fun elementary :: "task \<Rightarrow> bool" where
  "elementary (SequentialTask a b) = False"
| "elementary (ParallelTask a b) = False"
| "elementary (ConjunctionTask a b) = False"
| "elementary (DisjunctionTask a b) = False"
| "elementary (NoDeadlockTask d) = False"
| "elementary (InvariantTask d) = False"
| "elementary (EFAGTask d) = False"
| "elementary (AGEFAGTask d) = False"
| "elementary (LeafTask d) = False"
| "elementary leaf = True"

text \<open>\<open>task_result leaf task r\<close>: \<open>getResult\<close> of the task may return \<open>r\<close>.  \<open>LeafTask\<close> runs its subtask in a child process; if
  the process or its message is lost, the result is unknown.\<close>

inductive task_result :: "(task \<Rightarrow> ternary_t \<Rightarrow> bool) \<Rightarrow> task \<Rightarrow> ternary_t \<Rightarrow> bool" for leaf where
  elementary: "elementary task \<Longrightarrow> leaf task r \<Longrightarrow> task_result leaf task r"
| first: "task_result leaf a r \<Longrightarrow> r \<noteq> TERNARY_UNKNOWN \<Longrightarrow> task_result leaf (SequentialTask a b) r"
| second: "task_result leaf a TERNARY_UNKNOWN \<Longrightarrow> task_result leaf b r \<Longrightarrow> task_result leaf (SequentialTask a b) r"
| parallel: "(\<And>r1. outcome 0 = Some r1 \<Longrightarrow> task_result leaf a r1) \<Longrightarrow>
    (\<And>r2. outcome 1 = Some r2 \<Longrightarrow> task_result leaf b r2) \<Longrightarrow> parallel_result outcome r \<Longrightarrow>
    task_result leaf (ParallelTask a b) r"
| conjunction_early: "task_result leaf a TERNARY_FALSE \<Longrightarrow> task_result leaf (ConjunctionTask a b) TERNARY_FALSE"
| conjunction: "task_result leaf a r1 \<Longrightarrow> r1 \<noteq> TERNARY_FALSE \<Longrightarrow> task_result leaf b r2 \<Longrightarrow>
    task_result leaf (ConjunctionTask a b) (conjunction_result r1 r2)"
| disjunction_early: "task_result leaf a TERNARY_TRUE \<Longrightarrow> task_result leaf (DisjunctionTask a b) TERNARY_TRUE"
| disjunction: "task_result leaf a r1 \<Longrightarrow> r1 \<noteq> TERNARY_TRUE \<Longrightarrow> task_result leaf b r2 \<Longrightarrow>
    task_result leaf (DisjunctionTask a b) (disjunction_result r1 r2)"
| nodeadlock: "task_result leaf d r \<Longrightarrow> task_result leaf (NoDeadlockTask d) (reverse_result r)"
| invariant: "task_result leaf d r \<Longrightarrow> task_result leaf (InvariantTask d) (reverse_result r)"
| efag: "task_result leaf d r \<Longrightarrow> task_result leaf (EFAGTask d) (reverse_result r)"
| agefag: "task_result leaf d r \<Longrightarrow> task_result leaf (AGEFAGTask d) (reverse_result r)"
| child: "task_result leaf d r \<Longrightarrow> task_result leaf (LeafTask d) r"
| lost: "task_result leaf (LeafTask d) TERNARY_UNKNOWN"

section \<open>Workflows\<close>

text \<open>The values of \<open>--findpath\<close>, \<open>--siphontrap\<close> and \<open>--stateequation\<close>.\<close>

datatype workflow_arg = arg_off | arg_seq | arg_par | arg_alone

definition DeadlockTask_buildTask :: "workflow_arg \<Rightarrow> workflow_arg \<Rightarrow> task option" where
  "DeadlockTask_buildTask findpath siphontrap =
     (if findpath = arg_off \<and> siphontrap = arg_off then Some DeadlockSearchTask
      else if findpath = arg_off \<and> siphontrap = arg_alone then Some SiphonTrapTask
      else if findpath = arg_off \<and> siphontrap = arg_seq then
         Some (SequentialTask SiphonTrapTask DeadlockSearchTask)
      else if findpath = arg_off \<and> siphontrap = arg_par then
         Some (ParallelTask SiphonTrapTask DeadlockSearchTask)
      else if findpath = arg_alone \<and> siphontrap = arg_off then Some DeadlockFindpathTask
      else if findpath = arg_seq \<and> siphontrap = arg_off then
         Some (SequentialTask DeadlockFindpathTask DeadlockSearchTask)
      else if findpath = arg_par \<and> siphontrap = arg_off then
         Some (ParallelTask DeadlockFindpathTask DeadlockSearchTask)
      else if (findpath = arg_alone \<and> siphontrap = arg_alone) \<or> (findpath = arg_par \<and> siphontrap = arg_alone)
         \<or> (findpath = arg_alone \<and> siphontrap = arg_par) then
         Some (ParallelTask DeadlockFindpathTask SiphonTrapTask)
      else if findpath = arg_seq \<and> siphontrap = arg_alone then
         Some (SequentialTask DeadlockFindpathTask SiphonTrapTask)
      else if findpath = arg_alone \<and> siphontrap = arg_seq then
         Some (SequentialTask SiphonTrapTask DeadlockFindpathTask)
      else if findpath = arg_seq \<and> siphontrap = arg_seq then
         Some (SequentialTask (ParallelTask SiphonTrapTask DeadlockFindpathTask) DeadlockSearchTask)
      else if findpath = arg_seq \<and> siphontrap = arg_par then
         Some (SequentialTask DeadlockFindpathTask (ParallelTask SiphonTrapTask DeadlockSearchTask))
      else if findpath = arg_par \<and> siphontrap = arg_seq then
         Some (SequentialTask SiphonTrapTask (ParallelTask DeadlockFindpathTask DeadlockSearchTask))
      else if findpath = arg_par \<and> siphontrap = arg_par then
         Some (ParallelTask SiphonTrapTask (ParallelTask DeadlockFindpathTask DeadlockSearchTask))
      else None)"

definition ReachabilityTask_buildTask :: "workflow_arg \<Rightarrow> workflow_arg \<Rightarrow> task option" where
  "ReachabilityTask_buildTask findpath stateequation =
     (if findpath = arg_seq \<and> stateequation = arg_seq then
         Some (SequentialTask (ParallelTask ReachabilityFindpathTask StateEquationTask) ReachabilitySearchTask)
      else if findpath = arg_par \<and> stateequation = arg_par then
         Some (ParallelTask StateEquationTask (ParallelTask ReachabilityFindpathTask ReachabilitySearchTask))
      else if (findpath = arg_alone \<and> stateequation = arg_alone) \<or> (findpath = arg_par \<and> stateequation = arg_alone)
         \<or> (findpath = arg_alone \<and> stateequation = arg_par) then
         Some (ParallelTask StateEquationTask ReachabilityFindpathTask)
      else if findpath = arg_off \<and> stateequation = arg_off then
         Some ReachabilitySearchTask
      else if findpath = arg_seq \<and> stateequation = arg_par then
         Some (SequentialTask ReachabilityFindpathTask (ParallelTask StateEquationTask ReachabilitySearchTask))
      else if findpath = arg_alone \<and> stateequation = arg_off then
         Some ReachabilityFindpathTask
      else if findpath = arg_off \<and> stateequation = arg_seq then
         Some (SequentialTask StateEquationTask ReachabilitySearchTask)
      else if findpath = arg_seq \<and> stateequation = arg_alone then
         Some (SequentialTask ReachabilityFindpathTask StateEquationTask)
      else if findpath = arg_par \<and> stateequation = arg_off then
         Some (ParallelTask ReachabilityFindpathTask ReachabilitySearchTask)
      else if findpath = arg_alone \<and> stateequation = arg_seq then
         Some (SequentialTask StateEquationTask ReachabilityFindpathTask)
      else if findpath = arg_off \<and> stateequation = arg_par then
         Some (ParallelTask StateEquationTask ReachabilitySearchTask)
      else if findpath = arg_seq \<and> stateequation = arg_off then
         Some (SequentialTask ReachabilityFindpathTask ReachabilitySearchTask)
      else if findpath = arg_par \<and> stateequation = arg_seq then
         Some (SequentialTask StateEquationTask (ParallelTask ReachabilityFindpathTask ReachabilitySearchTask))
      else if findpath = arg_off \<and> stateequation = arg_alone then
         Some StateEquationTask
      else None)"

section \<open>Right verdicts stay right\<close>

text \<open>A verdict is right if it is unknown or the truth.\<close>

definition right_verdict :: "bool \<Rightarrow> ternary_t \<Rightarrow> bool" where
  "right_verdict b r \<longleftrightarrow> (r = TERNARY_TRUE \<longrightarrow> b) \<and> (r = TERNARY_FALSE \<longrightarrow> \<not> b)"

lemma right_verdict_unknown [simp]: "right_verdict b TERNARY_UNKNOWN"
  by (simp add: right_verdict_def)

text \<open>The question of a task, given those of the elementary tasks; the alternatives of a workflow must agree.\<close>

fun task_truth :: "(task \<Rightarrow> bool) \<Rightarrow> task \<Rightarrow> bool" where
  "task_truth v (SequentialTask a b) = task_truth v b"
| "task_truth v (ParallelTask a b) = task_truth v b"
| "task_truth v (ConjunctionTask a b) \<longleftrightarrow> task_truth v a \<and> task_truth v b"
| "task_truth v (DisjunctionTask a b) \<longleftrightarrow> task_truth v a \<or> task_truth v b"
| "task_truth v (NoDeadlockTask d) \<longleftrightarrow> \<not> task_truth v d"
| "task_truth v (InvariantTask d) \<longleftrightarrow> \<not> task_truth v d"
| "task_truth v (EFAGTask d) \<longleftrightarrow> \<not> task_truth v d"
| "task_truth v (AGEFAGTask d) \<longleftrightarrow> \<not> task_truth v d"
| "task_truth v (LeafTask d) = task_truth v d"
| "task_truth v leaf = v leaf"

fun agreeing :: "(task \<Rightarrow> bool) \<Rightarrow> task \<Rightarrow> bool" where
  "agreeing v (SequentialTask a b) \<longleftrightarrow> agreeing v a \<and> agreeing v b \<and> task_truth v a = task_truth v b"
| "agreeing v (ParallelTask a b) \<longleftrightarrow> agreeing v a \<and> agreeing v b \<and> task_truth v a = task_truth v b"
| "agreeing v (ConjunctionTask a b) \<longleftrightarrow> agreeing v a \<and> agreeing v b"
| "agreeing v (DisjunctionTask a b) \<longleftrightarrow> agreeing v a \<and> agreeing v b"
| "agreeing v (NoDeadlockTask d) = agreeing v d"
| "agreeing v (InvariantTask d) = agreeing v d"
| "agreeing v (EFAGTask d) = agreeing v d"
| "agreeing v (AGEFAGTask d) = agreeing v d"
| "agreeing v (LeafTask d) = agreeing v d"
| "agreeing v leaf = True"

lemma task_truth_elementary: "elementary task \<Longrightarrow> task_truth v task = v task"
  by (cases task) simp_all

lemma right_verdict_min: "right_verdict b1 r1 \<Longrightarrow> right_verdict b2 r2 \<Longrightarrow> right_verdict (b1 \<and> b2) (min r1 r2)"
  and right_verdict_max: "right_verdict b1 r1 \<Longrightarrow> right_verdict b2 r2 \<Longrightarrow> right_verdict (b1 \<or> b2) (max r1 r2)"
  by (cases r1; cases r2; simp add: right_verdict_def min_def max_def less_eq_ternary_t_def)+

lemma right_combinations:
  "right_verdict b r \<Longrightarrow> right_verdict (\<not> b) (reverse_result r)"
  "right_verdict b1 r1 \<Longrightarrow> right_verdict b2 r2 \<Longrightarrow> r1 \<noteq> TERNARY_FALSE \<Longrightarrow> right_verdict (b1 \<and> b2) (conjunction_result r1 r2)"
  "right_verdict b1 r1 \<Longrightarrow> right_verdict b2 r2 \<Longrightarrow> r1 \<noteq> TERNARY_TRUE \<Longrightarrow> right_verdict (b1 \<or> b2) (disjunction_result r1 r2)"
  "right_verdict b1 TERNARY_FALSE \<Longrightarrow> right_verdict (b1 \<and> b2) TERNARY_FALSE"
  "right_verdict b1 TERNARY_TRUE \<Longrightarrow> right_verdict (b1 \<or> b2) TERNARY_TRUE"
  by (cases r; simp add: right_verdict_def)
    (simp_all add: conjunction_result_min disjunction_result_max right_verdict_min right_verdict_max, simp_all add: right_verdict_def)

lemma parallel_result_right:
  assumes "parallel_result outcome r" "\<And>i q. i < 2 \<Longrightarrow> outcome i = Some q \<Longrightarrow> right_verdict b q"
  shows "right_verdict b r"
  using parallel_result_final(1) [OF assms(1)] assms(2) by blast

lemma task_result_right:
  assumes "task_result leaf task r" "\<And>t q. elementary t \<Longrightarrow> leaf t q \<Longrightarrow> right_verdict (v t) q" "agreeing v task"
  shows "right_verdict (task_truth v task) r"
  using assms(1,3)
proof (induction rule: task_result.induct)
  case (elementary task r)
  then show ?case using assms(2) task_truth_elementary by simp
next
  case (parallel outcome a b r)
  have "right_verdict (task_truth v b) q" if "i < 2" "outcome i = Some q" for i q
    using that parallel.IH parallel.prems by (auto simp: less_2_cases_iff)
  then show ?case using parallel_result_right [OF parallel.hyps(3)] by simp
qed (simp_all add: right_combinations)

text \<open>Tasks that never answer unknown.\<close>

fun decisive :: "(task \<Rightarrow> bool) \<Rightarrow> task \<Rightarrow> bool" where
  "decisive d (SequentialTask a b) = decisive d b"
| "decisive d (ParallelTask a b) \<longleftrightarrow> decisive d a \<or> decisive d b"
| "decisive d (ConjunctionTask a b) \<longleftrightarrow> decisive d a \<and> decisive d b"
| "decisive d (DisjunctionTask a b) \<longleftrightarrow> decisive d a \<and> decisive d b"
| "decisive d (NoDeadlockTask t) = decisive d t"
| "decisive d (InvariantTask t) = decisive d t"
| "decisive d (EFAGTask t) = decisive d t"
| "decisive d (AGEFAGTask t) = decisive d t"
| "decisive d (LeafTask t) = False"
| "decisive d leaf = d leaf"

lemma decisive_elementary: "elementary task \<Longrightarrow> decisive d task = d task"
  by (cases task) simp_all

lemma definite_combinations:
  "reverse_result r = TERNARY_UNKNOWN \<longleftrightarrow> r = TERNARY_UNKNOWN"
  "r1 \<noteq> TERNARY_UNKNOWN \<Longrightarrow> r2 \<noteq> TERNARY_UNKNOWN \<Longrightarrow> conjunction_result r1 r2 \<noteq> TERNARY_UNKNOWN"
  "r1 \<noteq> TERNARY_UNKNOWN \<Longrightarrow> r2 \<noteq> TERNARY_UNKNOWN \<Longrightarrow> disjunction_result r1 r2 \<noteq> TERNARY_UNKNOWN"
  by (cases r; simp) (simp_all add: conjunction_result_def disjunction_result_def)

lemma task_result_definite:
  assumes "task_result leaf task r" "\<And>t q. elementary t \<Longrightarrow> d t \<Longrightarrow> leaf t q \<Longrightarrow> q \<noteq> TERNARY_UNKNOWN" "decisive d task"
  shows "r \<noteq> TERNARY_UNKNOWN"
  using assms(1,3)
proof (induction rule: task_result.induct)
  case (elementary task r)
  then show ?case using assms(2) decisive_elementary by blast
next
  case (parallel outcome a b r)
  show ?case
  proof
    assume "r = TERNARY_UNKNOWN"
    from parallel_result_final(2) [OF parallel.hyps(3) this]
    have u: "outcome 0 = Some TERNARY_UNKNOWN" "outcome 1 = Some TERNARY_UNKNOWN" by blast+
    have "decisive d a \<or> decisive d b" using parallel.prems by simp
    then show False using parallel.IH(1) [OF u(1)] parallel.IH(2) [OF u(2)] by blast
  qed
next
  case (conjunction a r1 b r2)
  then show ?case using definite_combinations(2) by simp
next
  case (disjunction a r1 b r2)
  then show ?case using definite_combinations(3) by simp
qed (simp_all add: definite_combinations(1))

text \<open>If the elementary parts end, so does a composed task.\<close>

fun elementary_parts :: "task \<Rightarrow> task list" where
  "elementary_parts (SequentialTask a b) = elementary_parts a @ elementary_parts b"
| "elementary_parts (ParallelTask a b) = elementary_parts a @ elementary_parts b"
| "elementary_parts (ConjunctionTask a b) = elementary_parts a @ elementary_parts b"
| "elementary_parts (DisjunctionTask a b) = elementary_parts a @ elementary_parts b"
| "elementary_parts (NoDeadlockTask d) = elementary_parts d"
| "elementary_parts (InvariantTask d) = elementary_parts d"
| "elementary_parts (EFAGTask d) = elementary_parts d"
| "elementary_parts (AGEFAGTask d) = elementary_parts d"
| "elementary_parts (LeafTask d) = elementary_parts d"
| "elementary_parts leaf = [leaf]"

lemma task_result_exists:
  assumes "\<forall>t \<in> set (elementary_parts task). \<exists>q. leaf t q"
  shows "\<exists>r. task_result leaf task r"
  using assms
proof (induction task)
  case (SequentialTask a b)
  then obtain r1 r2 where "task_result leaf a r1" "task_result leaf b r2" by auto
  then show ?case by (metis task_result.first task_result.second)
next
  case (ParallelTask a b)
  then obtain r1 r2 where r: "task_result leaf a r1" "task_result leaf b r2" by auto
  let ?outcome = "\<lambda>i :: nat. if i = 0 then Some r1 else Some r2"
  obtain q where "parallel_result ?outcome q" using parallel_result_exists [of ?outcome r1 r2] by auto
  then show ?case using task_result.parallel [of ?outcome leaf a b q] r by auto
next
  case (ConjunctionTask a b)
  then obtain r1 r2 where "task_result leaf a r1" "task_result leaf b r2" by auto
  then show ?case by (metis task_result.conjunction_early task_result.conjunction)
next
  case (DisjunctionTask a b)
  then obtain r1 r2 where "task_result leaf a r1" "task_result leaf b r2" by auto
  then show ?case by (metis task_result.disjunction_early task_result.disjunction)
qed (fastforce intro: task_result.intros)+

end
