(* ===== verification/TaskProps.thy ===== *)
theory TaskProps
  imports TaskTree StubbornProps SearchProps
begin

text \<open>
  The deadlock task with the model of the searches as its elementary tasks, and the thread protocol of
  \<open>ParallelTask\<close>.
\<close>

section \<open>The elementary tasks of the deadlock check\<close>












section \<open>Properties\<close>






end
