(* ===== verification/SymbolTables.thy ===== *)
theory SymbolTables
  imports Prelude
begin

text \<open>
  \<open>src/Frontend/SymbolTable/SymbolTable.cc\<close>: the hash table of the names of places and transitions, with chains for
  collisions and an iterator.  A symbol is its key and a payload; \<open>next\<close> pointers are the order of a chain.
\<close>

section \<open>The table\<close>

definition SIZEOF_SYMBOLTABLE :: nat where
  "SIZEOF_SYMBOLTABLE = 65536"

text \<open>\<open>currentSymbol\<close> is the rest of its chain; \<open>[]\<close> is the null pointer.  \<open>collisions\<close> is a static member, counted here per
  table.\<close>

record 'a symbol_table =
  st_card :: "32 word"
  table :: "(string \<times> 'a) list list"
  currentIndex :: nat
  currentSymbol :: "(string \<times> 'a) list"
  collisions :: "32 word"

definition empty_table :: "'a symbol_table" where
  "empty_table = \<lparr>st_card = 0, table = replicate SIZEOF_SYMBOLTABLE [], currentIndex = 0, currentSymbol = [], collisions = 0\<rparr>"

text \<open>The SDBM hash; \<open>char\<close> is signed.\<close>

definition sdbm_step :: "char \<Rightarrow> 32 word \<Rightarrow> 32 word" where
  "sdbm_step c h = (scast (of_char c :: 8 word) :: 32 word) + push_bit 6 h + push_bit 16 h - h"

definition symbol_hash :: "string \<Rightarrow> nat" where
  "symbol_hash s = unat (fold sdbm_step s 0) mod SIZEOF_SYMBOLTABLE"

definition lookup_symbol :: "string \<Rightarrow> 'a symbol_table \<Rightarrow> 'a option" where
  "lookup_symbol s T = map_of (table T ! symbol_hash s) s"

definition insert_symbol :: "string \<Rightarrow> 'a \<Rightarrow> 'a symbol_table \<Rightarrow> bool \<times> 'a symbol_table" where
  "insert_symbol k s T =
     (let index = symbol_hash k;
          T1 = (if table T ! index \<noteq> [] then T\<lparr>collisions := collisions T + 1\<rparr> else T)
      in if k \<in> fst ` set (table T ! index) then (False, T1)
         else (True, T1\<lparr>table := (table T)[index := (k, s) # table T ! index], st_card := st_card T + 1\<rparr>))"

text \<open>A change of the symbol that \<open>lookup\<close> has found.\<close>

definition update_symbol :: "string \<Rightarrow> ('a \<Rightarrow> 'a) \<Rightarrow> 'a symbol_table \<Rightarrow> 'a symbol_table" where
  "update_symbol k f T =
     (let index = symbol_hash k
      in T\<lparr>table := (table T)[index := map (\<lambda>(q, a). (q, if q = k then f a else a)) (table T ! index)]\<rparr>)"

function next_bucket :: "'b list list \<Rightarrow> nat \<Rightarrow> nat" where
  "next_bucket tb i = (if i < length tb \<and> tb ! i = [] then next_bucket tb (Suc i) else i)"
  by auto
termination
  by (relation "measure (\<lambda>(tb, i). length tb - i)") auto

declare next_bucket.simps [simp del]

definition to_bucket :: "nat \<Rightarrow> 'a symbol_table \<Rightarrow> (string \<times> 'a) option \<times> 'a symbol_table" where
  "to_bucket from T =
     (let i = next_bucket (table T) from
      in if i < length (table T) then (Some (hd (table T ! i)), T\<lparr>currentIndex := i, currentSymbol := table T ! i\<rparr>)
         else (None, T\<lparr>currentIndex := i\<rparr>))"

definition first_symbol :: "'a symbol_table \<Rightarrow> (string \<times> 'a) option \<times> 'a symbol_table" where
  "first_symbol T = to_bucket 0 T"

text \<open>\<open>None\<close> is the use of the null pointer.\<close>

definition next_symbol :: "'a symbol_table \<Rightarrow> ((string \<times> 'a) option \<times> 'a symbol_table) option" where
  "next_symbol T =
     (case currentSymbol T of
        [] \<Rightarrow> None
      | [s] \<Rightarrow> Some (to_bucket (Suc (currentIndex T)) T)
      | s # s' # rest \<Rightarrow> Some (Some s', T\<lparr>currentSymbol := s' # rest\<rparr>))"

text \<open>\<open>for (s = first(); s; s = next())\<close>\<close>

partial_function (option) symbols_loop ::
  "(string \<times> 'a) option \<Rightarrow> 'a symbol_table \<Rightarrow> (string \<times> 'a) list option" where
  "symbols_loop cur T =
     (case cur of None \<Rightarrow> Some []
      | Some s \<Rightarrow> Option.bind (next_symbol T) (\<lambda>r. Option.bind (symbols_loop (fst r) (snd r)) (\<lambda>l. Some (s # l))))"

definition symbols :: "'a symbol_table \<Rightarrow> (string \<times> 'a) list option" where
  "symbols T = symbols_loop (fst (first_symbol T)) (snd (first_symbol T))"

section \<open>Invariant and abstraction\<close>

definition entries :: "'a symbol_table \<Rightarrow> (string \<times> 'a) list" where
  "entries T = concat (table T)"

definition table_ok :: "'a symbol_table \<Rightarrow> bool" where
  "table_ok T \<longleftrightarrow> length (table T) = SIZEOF_SYMBOLTABLE \<and> st_card T = of_nat (length (entries T)) \<and>
     (\<forall>i < SIZEOF_SYMBOLTABLE. distinct (map fst (table T ! i)) \<and> (\<forall>k \<in> fst ` set (table T ! i). symbol_hash k = i))"

lemma symbol_hash_less [simp]: "symbol_hash k < SIZEOF_SYMBOLTABLE"
  by (simp add: symbol_hash_def SIZEOF_SYMBOLTABLE_def)

lemma distinct_concat_keys:
  assumes "\<forall>i < length tb. distinct (map fst (tb ! i)) \<and> (\<forall>k \<in> fst ` set (tb ! i). h k = i + (n :: nat))"
  shows "distinct (map fst (concat tb)) \<and> (\<forall>k \<in> fst ` set (concat tb). n \<le> h k)"
  using assms
proof (induction tb arbitrary: n)
  case (Cons c tb)
  have "distinct (map fst (tb ! i)) \<and> (\<forall>k \<in> fst ` set (tb ! i). h k = i + Suc n)" if "i < length tb" for i
    using Cons.prems [rule_format, of "Suc i"] that by simp
  then have IH: "distinct (map fst (concat tb))" "\<forall>k \<in> fst ` set (concat tb). Suc n \<le> h k"
    using Cons.IH [of "Suc n"] by blast+
  moreover have c: "distinct (map fst c)" "\<forall>k \<in> fst ` set c. h k = n" using Cons.prems [rule_format, of 0] by simp_all
  moreover have "fst ` set c \<inter> fst ` set (concat tb) = {}" using IH(2) c(2) by fastforce
  moreover have "n \<le> h k" if k: "k \<in> fst ` set (concat (c # tb))" for k
  proof -
    have "k \<in> fst ` set c \<or> k \<in> fst ` set (concat tb)" using k by auto
    then show ?thesis using IH(2) c(2) by (metis Suc_leD order_refl)
  qed
  ultimately show ?case by auto
qed simp

lemma table_okD:
  assumes "table_ok T"
  shows "length (table T) = SIZEOF_SYMBOLTABLE" "st_card T = of_nat (length (entries T))"
    and "i < SIZEOF_SYMBOLTABLE \<Longrightarrow> distinct (map fst (table T ! i))"
    and "i < SIZEOF_SYMBOLTABLE \<Longrightarrow> k \<in> fst ` set (table T ! i) \<Longrightarrow> symbol_hash k = i"
  using assms unfolding table_ok_def by blast+

lemma table_ok_distinct: "table_ok T \<Longrightarrow> distinct (map fst (entries T))"
  using distinct_concat_keys [of "table T" symbol_hash 0] by (simp add: table_ok_def entries_def)

lemma map_of_distinct_eq:
  assumes "distinct (map fst xs)" "set ys \<subseteq> set xs" "distinct (map fst ys)" "\<And>a. (k, a) \<in> set xs \<Longrightarrow> (k, a) \<in> set ys"
  shows "map_of ys k = map_of xs k"
proof (cases "map_of xs k")
  case None
  then have "k \<notin> fst ` set ys" using assms(2) by (auto simp: map_of_eq_None_iff)
  then have "map_of ys k = None" by (simp only: map_of_eq_None_iff not_False_eq_True)
  then show ?thesis using None by simp
next
  case (Some a)
  then have "(k, a) \<in> set ys" using assms(4) map_of_SomeD by fast
  then show ?thesis using Some assms(3) by simp
qed

lemma lookup_symbol_map:
  assumes "table_ok T"
  shows "lookup_symbol k T = map_of (entries T) k"
  unfolding lookup_symbol_def
proof (rule map_of_distinct_eq [OF table_ok_distinct [OF assms]])
  have len: "symbol_hash k < length (table T)" using assms by (simp add: table_ok_def)
  show "set (table T ! symbol_hash k) \<subseteq> set (entries T)" using len nth_mem by (fastforce simp: entries_def)
  show "distinct (map fst (table T ! symbol_hash k))" using assms by (simp add: table_ok_def)
  show "(k, a) \<in> set (table T ! symbol_hash k)" if a: "(k, a) \<in> set (entries T)" for a
  proof -
    obtain c where c: "c \<in> set (table T)" "(k, a) \<in> set c" using a by (auto simp: entries_def)
    then obtain i where i: "i < length (table T)" "(k, a) \<in> set (table T ! i)" by (metis in_set_conv_nth)
    then have "k \<in> fst ` set (table T ! i)" by force
    then have "symbol_hash k = i" using table_okD [OF assms] i(1) by metis
    then show ?thesis using i(2) by simp
  qed
qed

lemma entries_update:
  assumes "i < length (table T)"
  shows "concat ((table T)[i := c]) = concat (take i (table T)) @ c @ concat (drop (Suc i) (table T))"
    and "entries T = concat (take i (table T)) @ table T ! i @ concat (drop (Suc i) (table T))"
proof -
  show "concat ((table T)[i := c]) = concat (take i (table T)) @ c @ concat (drop (Suc i) (table T))"
    using assms by (simp add: upd_conv_take_nth_drop)
  have "table T = take i (table T) @ table T ! i # drop (Suc i) (table T)" using assms by (rule id_take_nth_drop)
  then show "entries T = concat (take i (table T)) @ table T ! i @ concat (drop (Suc i) (table T))"
    unfolding entries_def by (metis concat.simps(2) concat_append)
qed

section \<open>Operations\<close>

lemma entries_empty [simp]: "entries empty_table = []"
  by (simp add: entries_def empty_table_def)

lemma table_ok_empty: "table_ok empty_table"
  by (simp add: table_ok_def empty_table_def entries_def)

lemma lookup_bucket:
  assumes "table_ok T"
  shows "k \<in> fst ` set (table T ! symbol_hash k) \<longleftrightarrow> lookup_symbol k T \<noteq> None"
  by (simp add: lookup_symbol_def map_of_eq_None_iff)

lemma insert_symbol_ok:
  assumes ok: "table_ok T" and r: "insert_symbol k a T = (b, T')"
  shows "table_ok T'" "b \<longleftrightarrow> k \<notin> fst ` set (entries T)"
    and "map_of (entries T') = (if b then (map_of (entries T))(k \<mapsto> a) else map_of (entries T))"
    and "set (entries T') = (if b then {(k, a)} else {}) \<union> set (entries T)"
proof -
  let ?i = "symbol_hash k"
  have len: "?i < length (table T)" using table_okD(1) [OF ok] by simp
  have b: "b \<longleftrightarrow> k \<notin> fst ` set (table T ! ?i)" using r by (auto simp: insert_symbol_def Let_def split: if_splits)
  have "k \<in> fst ` set (entries T) \<longleftrightarrow> lookup_symbol k T \<noteq> None"
    unfolding lookup_symbol_map [OF ok] by (simp add: map_of_eq_None_iff)
  then show bin: "b \<longleftrightarrow> k \<notin> fst ` set (entries T)" using b lookup_bucket [OF ok, of k] by blast
  have same: "table T' = table T \<and> st_card T' = st_card T" if "\<not> b"
    using r that by (auto simp: insert_symbol_def Let_def split: if_splits)
  have new: "table T' = (table T)[?i := (k, a) # table T ! ?i] \<and> st_card T' = st_card T + 1" if "b"
    using r that by (auto simp: insert_symbol_def Let_def split: if_splits)
  have e: "entries T' = concat (take ?i (table T)) @ (k, a) # table T ! ?i @ concat (drop (Suc ?i) (table T))" if "b"
    using new [OF that] entries_update(1) [OF len, of "(k, a) # table T ! ?i"] by (simp add: entries_def)
  note e' = entries_update(2) [OF len]
  show tok: "table_ok T'"
  proof (cases b)
    case False
    then show ?thesis using same ok by (simp add: table_ok_def entries_def)
  next
    case True
    have "distinct (map fst (table T' ! i)) \<and> (\<forall>q \<in> fst ` set (table T' ! i). symbol_hash q = i)" if "i < SIZEOF_SYMBOLTABLE" for i
    proof (cases "i = ?i")
      case True
      then have eq: "table T' ! i = (k, a) # table T ! i" using new [OF \<open>b\<close>] len by simp
      have "k \<notin> fst ` set (table T ! i)" using b \<open>b\<close> True by blast
      then have "distinct (map fst (table T' ! i))" using table_okD(3) [OF ok that] unfolding eq by simp
      moreover have "symbol_hash q = i" if q: "q \<in> fst ` set (table T' ! i)" for q
      proof -
        have "q = k \<or> q \<in> fst ` set (table T ! i)" using q unfolding eq by auto
        then show ?thesis using table_okD(4) [OF ok \<open>i < SIZEOF_SYMBOLTABLE\<close>, of q] True by blast
      qed
      ultimately show ?thesis by blast
    next
      case False
      then have eq: "table T' ! i = table T ! i" using new [OF \<open>b\<close>] by simp
      show ?thesis using table_okD(3,4) [OF ok that] unfolding eq by blast
    qed
    then show ?thesis using new [OF True] table_okD(1,2) [OF ok] e [OF True] e' by (simp add: table_ok_def)
  qed
  show "set (entries T') = (if b then {(k, a)} else {}) \<union> set (entries T)"
    using same e e' by (cases b) (auto simp: entries_def)
  show "map_of (entries T') = (if b then (map_of (entries T))(k \<mapsto> a) else map_of (entries T))"
  proof (cases b)
    case False
    then show ?thesis using same by (simp add: entries_def)
  next
    case True
    have "k \<notin> fst ` set (concat (take ?i (table T)))" using bin True e' by auto
    then have "map_of (concat (take ?i (table T))) k = None" by (simp only: map_of_eq_None_iff not_False_eq_True)
    then have "map_of (entries T') q = ((map_of (entries T))(k \<mapsto> a)) q" for q
      unfolding e [OF True] e' by (cases "q = k") (simp_all add: map_add_def split: option.splits)
    then show ?thesis using True by auto
  qed
qed

lemma only_bucket:
  assumes "table_ok T"
  shows "k \<notin> fst ` set (concat (take (symbol_hash k) (table T)))" "k \<notin> fst ` set (concat (drop (Suc (symbol_hash k)) (table T)))"
proof -
  have one: "j = symbol_hash k" if "j < length (table T)" "k \<in> fst ` set (table T ! j)" for j
    using table_okD(1) [OF assms] table_okD(4) [OF assms, of j k] that by simp
  have len: "symbol_hash k < length (table T)" using table_okD(1) [OF assms] by simp
  show "k \<notin> fst ` set (concat (take (symbol_hash k) (table T)))"
  proof
    assume "k \<in> fst ` set (concat (take (symbol_hash k) (table T)))"
    then obtain c where c: "c \<in> set (take (symbol_hash k) (table T))" "k \<in> fst ` set c" by auto
    then obtain j where "j < length (take (symbol_hash k) (table T))" "take (symbol_hash k) (table T) ! j = c"
      by (metis in_set_conv_nth)
    then have j: "j < symbol_hash k" "table T ! j = c" by simp_all
    then have "k \<in> fst ` set (table T ! j)" using c(2) by simp
    then show False using one [of j] j(1) len by simp
  qed
  show "k \<notin> fst ` set (concat (drop (Suc (symbol_hash k)) (table T)))"
  proof
    assume "k \<in> fst ` set (concat (drop (Suc (symbol_hash k)) (table T)))"
    then obtain c where c: "c \<in> set (drop (Suc (symbol_hash k)) (table T))" "k \<in> fst ` set c" by auto
    then obtain j where "j < length (drop (Suc (symbol_hash k)) (table T))" "drop (Suc (symbol_hash k)) (table T) ! j = c"
      by (metis in_set_conv_nth)
    then have j: "Suc (symbol_hash k) + j < length (table T)" "table T ! (Suc (symbol_hash k) + j) = c" by simp_all
    then have "k \<in> fst ` set (table T ! (Suc (symbol_hash k) + j))" using c(2) by simp
    then show False using one [of "Suc (symbol_hash k) + j"] j(1) by simp
  qed
qed

lemma update_symbol_entries:
  assumes ok: "table_ok T"
  shows "table_ok (update_symbol k f T)"
    and "entries (update_symbol k f T) = map (\<lambda>(q, a). (q, if q = k then f a else a)) (entries T)"
proof -
  let ?i = "symbol_hash k" and ?g = "\<lambda>(q, a). (q, if q = k then f a else a)"
  have len: "?i < length (table T)" using table_okD(1) [OF ok] by simp
  have other: "map ?g c = c" if "k \<notin> fst ` set c" for c
    using that by (induction c) auto
  note off = only_bucket [OF ok, of k]
  have t: "table (update_symbol k f T) = (table T)[?i := map ?g (table T ! ?i)]" "st_card (update_symbol k f T) = st_card T"
    by (simp_all add: update_symbol_def Let_def)
  show e: "entries (update_symbol k f T) = map ?g (entries T)"
    using t(1) entries_update(1) [OF len, of "map ?g (table T ! ?i)"] entries_update(2) [OF len] other [OF off(1)] other [OF off(2)]
    by (simp add: entries_def)
  have keys: "map fst (map ?g c) = map fst c" for c by (simp add: case_prod_unfold)
  have "distinct (map fst (table (update_symbol k f T) ! i)) \<and>
      (\<forall>q \<in> fst ` set (table (update_symbol k f T) ! i). symbol_hash q = i)" if "i < SIZEOF_SYMBOLTABLE" for i
  proof -
    have "map fst (table (update_symbol k f T) ! i) = map fst (table T ! i)"
      using t(1) len keys by (cases "i = ?i") simp_all
    then show ?thesis using table_okD(3,4) [OF ok that] by (metis list.set_map)
  qed
  then show "table_ok (update_symbol k f T)" using t e table_okD(1,2) [OF ok] by (simp add: table_ok_def)
qed

section \<open>Iteration\<close>

lemma next_bucket_spec:
  "i \<le> length tb \<Longrightarrow> i \<le> next_bucket tb i \<and> next_bucket tb i \<le> length tb \<and>
     (next_bucket tb i < length tb \<longrightarrow> tb ! next_bucket tb i \<noteq> []) \<and>
     concat (drop i tb) = concat (drop (next_bucket tb i) tb)"
proof (induction tb i rule: next_bucket.induct)
  case (1 tb i)
  show ?case
  proof (cases "i < length tb \<and> tb ! i = []")
    case True
    then have "next_bucket tb i = next_bucket tb (Suc i)" by (subst next_bucket.simps) simp
    moreover have "concat (drop i tb) = concat (drop (Suc i) tb)" using True by (simp add: Cons_nth_drop_Suc [symmetric])
    ultimately show ?thesis using 1 True by simp
  next
    case False
    then have "next_bucket tb i = i" by (auto simp: next_bucket.simps [of tb i])
    then show ?thesis using False "1.prems" by auto
  qed
qed

text \<open>\<open>l\<close> are the symbols from the current one on.\<close>

definition iterates :: "(string \<times> 'a) option \<Rightarrow> 'a symbol_table \<Rightarrow> (string \<times> 'a) list \<Rightarrow> bool" where
  "iterates cur T l \<longleftrightarrow>
     (case cur of None \<Rightarrow> l = []
      | Some s \<Rightarrow> \<exists>rest. currentSymbol T = s # rest \<and> currentIndex T < length (table T) \<and>
          l = s # rest @ concat (drop (Suc (currentIndex T)) (table T)))"

lemma to_bucket_spec:
  assumes "from \<le> length (table T)" "to_bucket from T = (cur, T')"
  shows "iterates cur T' (concat (drop from (table T)))"
proof -
  let ?i = "next_bucket (table T) from"
  note spec = next_bucket_spec [OF assms(1)]
  show ?thesis
  proof (cases "?i < length (table T)")
    case True
    then have d: "drop ?i (table T) = table T ! ?i # drop (Suc ?i) (table T)" by (simp add: Cons_nth_drop_Suc)
    have "concat (drop from (table T)) = concat (drop ?i (table T))" using spec by blast
    then have c: "table T ! ?i \<noteq> []" "concat (drop from (table T)) = table T ! ?i @ concat (drop (Suc ?i) (table T))"
      using spec True unfolding d by simp_all
    have "cur = Some (hd (table T ! ?i))" "T' = T\<lparr>currentIndex := ?i, currentSymbol := table T ! ?i\<rparr>"
      using assms(2) True by (simp_all add: to_bucket_def Let_def)
    then show ?thesis using c True by (cases "table T ! ?i") (simp_all add: iterates_def)
  next
    case False
    then show ?thesis using assms(2) spec by (auto simp: to_bucket_def Let_def iterates_def)
  qed
qed

lemma symbols_loop_spec: "iterates cur T l \<Longrightarrow> symbols_loop cur T = Some l"
proof (induction "length l" arbitrary: cur T l)
  case 0
  then have "cur = None" by (cases cur) (auto simp: iterates_def)
  then show ?case using 0 by (simp add: symbols_loop.simps)
next
  case (Suc n)
  then obtain s rest where s: "cur = Some s" "currentSymbol T = s # rest" "currentIndex T < length (table T)"
    "l = s # rest @ concat (drop (Suc (currentIndex T)) (table T))"
    by (cases cur) (auto simp: iterates_def)
  obtain cur' T' where n: "next_symbol T = Some (cur', T')" "iterates cur' T' (tl l)"
  proof (cases rest)
    case Nil
    obtain cur' T' where t: "to_bucket (Suc (currentIndex T)) T = (cur', T')" by fastforce
    have "next_symbol T = Some (cur', T')" using s(2) Nil t by (simp add: next_symbol_def)
    moreover have "Suc (currentIndex T) \<le> length (table T)" using s(3) by simp
    from to_bucket_spec [OF this t] have "iterates cur' T' (tl l)" using s(4) Nil by simp
    ultimately show ?thesis using that by blast
  next
    case (Cons s' rest')
    then show ?thesis using that [of "Some s'" "T\<lparr>currentSymbol := s' # rest'\<rparr>"] s by (simp add: next_symbol_def iterates_def)
  qed
  have "length (tl l) = n" using Suc.hyps(2) by simp
  then have "symbols_loop cur' T' = Some (tl l)" using Suc.hyps(1) [of "tl l"] n(2) by simp
  then show ?case using s(1,4) n(1) by (subst symbols_loop.simps) simp
qed

lemma symbols_entries: "symbols T = Some (entries T)"
proof -
  obtain cur T' where f: "first_symbol T = (cur, T')" by fastforce
  then have "to_bucket 0 T = (cur, T')" by (simp add: first_symbol_def)
  from to_bucket_spec [OF _ this] have "iterates cur T' (entries T)" by (simp add: entries_def)
  then have "symbols_loop cur T' = Some (entries T)" by (rule symbols_loop_spec)
  then show ?thesis using f by (simp add: symbols_def)
qed

section \<open>The interface of the parsers\<close>

lemma keys_dom: "fst ` set xs = dom (map_of xs)"
  by (simp add: dom_map_of_conv_image_fst)

text \<open>What the parsers rely on: a table stands for a finite map from names to symbols.\<close>

locale name_table =
  fixes valid :: "'t \<Rightarrow> bool" and the_map :: "'t \<Rightarrow> string \<Rightarrow> 'a option" and none :: 't
    and insert_name :: "string \<Rightarrow> 'a \<Rightarrow> 't \<Rightarrow> bool \<times> 't" and update_name :: "string \<Rightarrow> ('a \<Rightarrow> 'a) \<Rightarrow> 't \<Rightarrow> 't"
    and lookup_name :: "string \<Rightarrow> 't \<Rightarrow> 'a option"
  assumes none_law: "valid none" "the_map none = Map.empty"
    and insert_law: "valid T \<Longrightarrow> insert_name k a T = (b, T') \<Longrightarrow>
      valid T' \<and> (b \<longleftrightarrow> the_map T k = None) \<and> the_map T' = (if b then (the_map T)(k \<mapsto> a) else the_map T)"
    and update_law: "valid T \<Longrightarrow> valid (update_name k f T)"
      "valid T \<Longrightarrow> the_map (update_name k f T) q = map_option (\<lambda>a. if q = k then f a else a) (the_map T q)"
    and lookup_law: "valid T \<Longrightarrow> lookup_name k T = the_map T k"
begin

text \<open>The first declaration of a name counts.\<close>

lemma insert_declared:
  assumes "valid T" "the_map T = map_of ds" "insert_name k a T = (b, T')"
  shows "valid T'" "the_map T' = map_of (ds @ [(k, a)])" "b \<longleftrightarrow> k \<notin> fst ` set ds"
proof -
  have r: "valid T'" "b \<longleftrightarrow> the_map T k = None" "the_map T' = (if b then (the_map T)(k \<mapsto> a) else the_map T)"
    using insert_law [OF assms(1,3)] by blast+
  show "valid T'" by (rule r(1))
  show "b \<longleftrightarrow> k \<notin> fst ` set ds" using r(2) assms(2) by (simp add: keys_dom domIff)
  have "map_of (ds @ [(k, a)]) q = (if b then (map_of ds)(k \<mapsto> a) else map_of ds) q" for q
    using r(2) assms(2) by (cases "q = k"; cases b) (auto simp: map_add_def split: option.splits)
  then show "the_map T' = map_of (ds @ [(k, a)])" unfolding r(3) assms(2) by (intro ext) simp
qed

lemma updates:
  assumes "valid T"
  shows "valid (fold (\<lambda>a. update_name (fst a) f) as T) \<and>
    the_map (fold (\<lambda>a. update_name (fst a) f) as T) q = map_option (f ^^ length (filter (\<lambda>a. fst a = q) as)) (the_map T q)"
  using assms
proof (induction as arbitrary: T)
  case Nil
  then show ?case by (simp add: option.map_ident)
next
  case (Cons a as)
  show ?case
    using Cons.IH [OF update_law(1) [OF Cons.prems, of "fst a" f]] update_law(2) [OF Cons.prems, of "fst a" f q]
    by (simp add: option.map_comp comp_def funpow_swap1)
qed

end

lemma map_of_update:
  "map_of (map (\<lambda>(q, a). (q, if q = k then f a else a)) xs) q = map_option (\<lambda>a. if q = k then f a else a) (map_of xs q)"
  by (induction xs) auto

interpretation hashed_names: name_table table_ok "\<lambda>T. map_of (entries T)" empty_table insert_symbol update_symbol lookup_symbol
proof (unfold_locales, goal_cases)
  case (3 T k a b T')
  have "k \<in> fst ` set (entries T) \<longleftrightarrow> map_of (entries T) k \<noteq> None" by (simp add: keys_dom domIff)
  then show ?case using insert_symbol_ok(1-3) [OF 3] by simp
next
  case (4 T k f)
  then show ?case by (rule update_symbol_entries(1))
next
  case (5 T k f q)
  then show ?case by (simp add: update_symbol_entries(2) map_of_update)
next
  case (6 T k)
  then show ?case by (rule lookup_symbol_map)
qed (simp_all add: table_ok_empty)

end
