(* ===== verification/NetParser.thy ===== *)
theory NetParser
  imports SymbolTables Frontend
begin

text \<open>
  The semantic actions of the grammar of net files (\<open>src/Frontend/Parser/ParserNet.yy\<close>) over the symbol tables of places
  and transitions, and \<open>ParserPTNet::symboltable2net\<close> from these tables.  The derivation that the generated parser
  finds is given as a tree.
\<close>

section \<open>Derivations\<close>

text \<open>\<open>Unlimited\<close>: no capacity; \<open>Safe None\<close>: \<open>SAFE:\<close>; \<open>Safe (Some k)\<close>: \<open>SAFE k:\<close>.  Tokens and multiplicities may be left out.
  Numbers are what \<open>atoi\<close> makes of them.\<close>

datatype capacity_syntax = Unlimited | Safe "nat option"

datatype fairness_assumption = NO_FAIRNESS | WEAK_FAIRNESS | STRONG_FAIRNESS

record transition_syntax =
  tsx_name :: string
  tsx_fairness :: fairness_assumption
  tsx_consume :: "(string \<times> nat option) list"
  tsx_produce :: "(string \<times> nat option) list"

record net_syntax =
  placelists :: "(capacity_syntax \<times> string list) list"
  markinglist :: "(string \<times> nat option) list"
  transitionlist :: "transition_syntax list"

section \<open>Symbols\<close>

record place_symbol =
  ps_capacity :: capacity_t
  initialMarking :: capacity_t
  ps_cardPost :: nat
  ps_cardPre :: nat

definition PlaceSymbol :: "capacity_t \<Rightarrow> place_symbol" where
  "PlaceSymbol cap = \<lparr>ps_capacity = cap, initialMarking = 0, ps_cardPost = 0, ps_cardPre = 0\<rparr>"

definition addInitialMarking :: "capacity_t \<Rightarrow> place_symbol \<Rightarrow> place_symbol" where
  "addInitialMarking newTokens p = p\<lparr>initialMarking := initialMarking p + newTokens\<rparr>"

definition notifyPost :: "place_symbol \<Rightarrow> place_symbol" where
  "notifyPost p = p\<lparr>ps_cardPost := ps_cardPost p + 1\<rparr>"

definition notifyPre :: "place_symbol \<Rightarrow> place_symbol" where
  "notifyPre p = p\<lparr>ps_cardPre := ps_cardPre p + 1\<rparr>"

record named_transition =
  nt_fairness :: fairness_assumption
  nt_pre :: "(string \<times> mult_t) list"
  nt_post :: "(string \<times> mult_t) list"

text \<open>The constructor notifies the places of the arcs.\<close>

definition TransitionSymbol ::
  "fairness_assumption \<Rightarrow> (string \<times> mult_t) list \<Rightarrow> (string \<times> mult_t) list \<Rightarrow> place_symbol symbol_table \<Rightarrow>
   named_transition \<times> place_symbol symbol_table" where
  "TransitionSymbol f pr po PT =
     (let PT1 = fold (\<lambda>a. update_symbol (fst a) notifyPost) pr PT;
          PT2 = fold (\<lambda>a. update_symbol (fst a) notifyPre) po PT1
      in (\<lparr>nt_fairness = f, nt_pre = pr, nt_post = po\<rparr>, PT2))"

section \<open>Semantic actions\<close>

text \<open>The calls of \<open>yyerrors\<close>, which end the program.\<close>

datatype parse_error = Place_used_twice string | Place_missing string | Transition_used_twice string

fun the_capacity :: "capacity_syntax \<Rightarrow> capacity_t" where
  "the_capacity Unlimited = - 1"
| "the_capacity (Safe None) = 1"
| "the_capacity (Safe (Some k)) = of_nat k"

fun fold_error :: "('a \<Rightarrow> 's \<Rightarrow> 'e + 's) \<Rightarrow> 'a list \<Rightarrow> 's \<Rightarrow> 'e + 's" where
  "fold_error f [] s = Inr s"
| "fold_error f (x # xs) s = (case f x s of Inl e \<Rightarrow> Inl e | Inr s' \<Rightarrow> fold_error f xs s')"

text \<open>\<open>placelist COMMA nodeident\<close> checks for a duplicate, the first \<open>nodeident\<close> of a list does not.\<close>

definition further_place :: "capacity_t \<Rightarrow> string \<Rightarrow> place_symbol symbol_table \<Rightarrow> parse_error + place_symbol symbol_table" where
  "further_place cap k PT =
     (let (inserted, PT1) = insert_symbol k (PlaceSymbol cap) PT
      in if \<not> inserted then Inl (Place_used_twice k) else Inr PT1)"

fun placelist ::
  "capacity_syntax \<times> string list \<Rightarrow> place_symbol symbol_table \<Rightarrow> parse_error + place_symbol symbol_table" where
  "placelist (c, []) PT = Inr PT"
| "placelist (c, k # ks) PT =
     fold_error (further_place (the_capacity c)) ks (snd (insert_symbol k (PlaceSymbol (the_capacity c)) PT))"

definition marking_action :: "string \<times> nat option \<Rightarrow> place_symbol symbol_table \<Rightarrow> parse_error + place_symbol symbol_table" where
  "marking_action m PT =
     (case lookup_symbol (fst m) PT of
        None \<Rightarrow> Inl (Place_missing (fst m))
      | Some p \<Rightarrow> Inr (update_symbol (fst m) (addInitialMarking (case snd m of Some n \<Rightarrow> of_nat n | None \<Rightarrow> 1)) PT))"

definition arc_action ::
  "place_symbol symbol_table \<Rightarrow> string \<times> nat option \<Rightarrow> (string \<times> mult_t) list \<Rightarrow> parse_error + (string \<times> mult_t) list" where
  "arc_action PT a as =
     (case lookup_symbol (fst a) PT of
        None \<Rightarrow> Inl (Place_missing (fst a))
      | Some p \<Rightarrow> Inr (as @ [(fst a, case snd a of Some n \<Rightarrow> of_nat n | None \<Rightarrow> 1)]))"

text \<open>The arcs are recognised from left to right; the rule of \<open>arclist\<close> is right recursive, so they are put together from
  the right.\<close>

definition arclist_action ::
  "place_symbol symbol_table \<Rightarrow> (string \<times> nat option) list \<Rightarrow> parse_error + (string \<times> mult_t) list" where
  "arclist_action PT as = (case fold_error (arc_action PT) as [] of Inl e \<Rightarrow> Inl e | Inr arcs \<Rightarrow> Inr (arclist arcs))"

type_synonym parser_tables = "place_symbol symbol_table \<times> named_transition symbol_table"

definition transition_action :: "transition_syntax \<Rightarrow> parser_tables \<Rightarrow> parse_error + parser_tables" where
  "transition_action x tables =
     (let (PT, TT) = tables
      in case arclist_action PT (tsx_consume x) of
           Inl e \<Rightarrow> Inl e
         | Inr pr \<Rightarrow>
             (case arclist_action PT (tsx_produce x) of
                Inl e \<Rightarrow> Inl e
              | Inr po \<Rightarrow>
                  let (t, PT1) = TransitionSymbol (tsx_fairness x) pr po PT;
                      (inserted, TT1) = insert_symbol (tsx_name x) t TT
                  in if \<not> inserted then Inl (Transition_used_twice (tsx_name x)) else Inr (PT1, TT1)))"

definition ParserPTNetLoLA :: "net_syntax \<Rightarrow> parse_error + parser_tables" where
  "ParserPTNetLoLA x =
     (case fold_error placelist (placelists x) empty_table of
        Inl e \<Rightarrow> Inl e
      | Inr PT \<Rightarrow>
          (case fold_error marking_action (markinglist x) PT of
             Inl e \<Rightarrow> Inl e
           | Inr PT1 \<Rightarrow> fold_error transition_action (transitionlist x) (PT1, empty_table)))"

section \<open>symboltable2net from the tables\<close>

record parsed_net =
  place_names :: "string list"
  transition_names :: "string list"
  pn_fairness :: "fairness_assumption list"
  pn_capacity :: "capacity_t list"
  pn_initial :: "capacity_t list"
  pn_cardPost :: "nat list"
  pn_cardPre :: "nat list"
  pn_net :: net

text \<open>\<open>pn_cardPost\<close> and \<open>pn_cardPre\<close> size the arc arrays of the places.  \<open>getIndex\<close>: the symbols are numbered in the order of the iteration.\<close>

fun position :: "string list \<Rightarrow> string \<Rightarrow> arrayindex_t" where
  "position [] k = 0"
| "position (q # qs) k = (if q = k then 0 else Suc (position qs k))"

definition indexed_transition :: "string list \<Rightarrow> named_transition \<Rightarrow> transition_symbol" where
  "indexed_transition names t =
     \<lparr>ts_pre = map (\<lambda>(k, w). (position names k, w)) (nt_pre t), ts_post = map (\<lambda>(k, w). (position names k, w)) (nt_post t)\<rparr>"

definition tables2net :: "parser_tables \<Rightarrow> parsed_net option" where
  "tables2net tables =
     (case (symbols (fst tables), symbols (snd tables)) of
        (Some ps, Some ts) \<Rightarrow>
          let names = map fst ps
          in Some \<lparr>place_names = names, transition_names = map fst ts, pn_fairness = map (nt_fairness \<circ> snd) ts,
                   pn_capacity = map (ps_capacity \<circ> snd) ps, pn_initial = map (initialMarking \<circ> snd) ps,
                   pn_cardPost = map (ps_cardPost \<circ> snd) ps, pn_cardPre = map (ps_cardPre \<circ> snd) ps,
                   pn_net = symboltable2net (unat (st_card (fst tables))) (map (indexed_transition names \<circ> snd) ts)\<rparr>
      | _ \<Rightarrow> None)"

end
