(* ===== verification/LinearAlgebra.thy ===== *)
theory LinearAlgebra
  imports Prelude Complex_Main
begin

text \<open>
  \<open>src/Net/LinearAlgebra.cc\<close>: sparse integer matrices and their reduction to triangular form.  The
  coefficients are signed 64 bit integers; an operation whose exact result does not fit is the error
  \<open>Overflow\<close> (undefined in C++, or the failed assertion of \<open>safeMult\<close>), a failed assertion is the error
  \<open>Failed\<close>.  The reduction is shown never to fail otherwise, to keep the row space and to reach
  triangular form.
\<close>

section \<open>64 bit arithmetic with errors\<close>

datatype la_error = Overflow | Failed | OutOfFuel

type_synonym 'a result = "la_error + 'a"

definition and_then :: "'a result \<Rightarrow> ('a \<Rightarrow> 'b result) \<Rightarrow> 'b result" where
  "and_then r f = (case r of Inl e \<Rightarrow> Inl e | Inr x \<Rightarrow> f x)"

lemma and_then_simps [simp]: "and_then (Inl e) f = Inl e" "and_then (Inr x) f = f x"
  by (simp_all add: and_then_def)

lemma and_then_Inr [simp]: "and_then r f = Inr y \<longleftrightarrow> (\<exists>x. r = Inr x \<and> f x = Inr y)"
  by (cases r) auto

lemma and_then_Inl: "and_then r f = Inl e \<longleftrightarrow> r = Inl e \<or> (\<exists>x. r = Inr x \<and> f x = Inl e)"
  by (cases r) auto

definition int64 :: "int \<Rightarrow> int result" where
  "int64 x = (if - (2 ^ 63) \<le> x \<and> x < 2 ^ 63 then Inr x else Inl Overflow)"

definition safeMult :: "int \<Rightarrow> int \<Rightarrow> int result" where
  "safeMult a b = int64 (a * b)"

definition div64 :: "int \<Rightarrow> int \<Rightarrow> int result" where
  "div64 a b = (if b = 0 then Inl Failed else int64 (a sdiv b))"

definition rem64 :: "int \<Rightarrow> int \<Rightarrow> int result" where
  "rem64 a b = (if b = 0 then Inl Failed else if a = - (2 ^ 63) \<and> b = - 1 then Inl Overflow else Inr (a smod b))"

lemma rem64_less: "rem64 a b = Inr r \<Longrightarrow> \<bar>r\<bar> < \<bar>b\<bar>"
  using smod_int_range [of b a] by (auto simp: rem64_def split: if_splits)

text \<open>The greatest common divisor, with the sign the remainders leave it.\<close>

function ggt :: "int \<Rightarrow> int \<Rightarrow> int result" where
  "ggt a b =
     (case rem64 a b of Inl e \<Rightarrow> Inl e
      | Inr a1 \<Rightarrow> if a1 = 0 then Inr b
                  else (case rem64 b a1 of Inl e \<Rightarrow> Inl e
                        | Inr b1 \<Rightarrow> if b1 = 0 then Inr a1 else ggt a1 b1))"
  by pat_completeness auto
termination
  by (relation "measure (\<lambda>(a, b). nat \<bar>b\<bar>)") (auto dest!: rem64_less)

declare ggt.simps [simp del]

section \<open>Rows and matrices\<close>

text \<open>The arrays \<open>variables\<close> and \<open>coefficients\<close> of a row as one list of pairs; the row reference is always
  the default 0 in the code and left out.  \<open>rows ! i\<close> is the linked list that starts at \<open>matrix[i]\<close>.\<close>

type_synonym row = "(arrayindex_t \<times> int) list"

record matrix =
  rows :: "row list list"
  rowCount :: nat
  colCount :: nat
  significantColCount :: nat

definition new_matrix :: "nat \<Rightarrow> matrix" where
  "new_matrix n = \<lparr>rows = replicate n [], rowCount = 0, colCount = n, significantColCount = 0\<rparr>"

definition DEBUG__checkRow :: "row \<Rightarrow> bool" where
  "DEBUG__checkRow r \<longleftrightarrow> sorted_wrt (<) (map fst r)"

definition addRow :: "row \<Rightarrow> matrix \<Rightarrow> matrix result" where
  "addRow r m =
     (if r = [] then Inr m
      else if DEBUG__checkRow r
      then Inr (m\<lparr>rows := (rows m)[fst (hd r) := r # rows m ! fst (hd r)], rowCount := rowCount m + 1\<rparr>)
      else Inl Failed)"

text \<open>The two rows, multiplied by their factors and subtracted.\<close>

fun combine :: "int \<Rightarrow> int \<Rightarrow> row \<Rightarrow> row \<Rightarrow> row result" where
  "combine f1 f2 ((v, a) # xs) ((w, b) # ys) =
     (if v < w then and_then (and_then (int64 (- f1)) (\<lambda>f. safeMult f a)) (\<lambda>c.
        and_then (combine f1 f2 xs ((w, b) # ys)) (\<lambda>r. Inr ((v, c) # r)))
      else if w < v then and_then (safeMult f2 b) (\<lambda>c.
        and_then (combine f1 f2 ((v, a) # xs) ys) (\<lambda>r. Inr ((w, c) # r)))
      else and_then (safeMult f2 b) (\<lambda>c. and_then (safeMult f1 a) (\<lambda>d. and_then (int64 (c - d)) (\<lambda>e.
        and_then (combine f1 f2 xs ys) (\<lambda>r. Inr (if e = 0 then r else (v, e) # r))))))"
| "combine f1 f2 ((v, a) # xs) [] =
     and_then (and_then (int64 (- f1)) (\<lambda>f. safeMult f a)) (\<lambda>c.
       and_then (combine f1 f2 xs []) (\<lambda>r. Inr ((v, c) # r)))"
| "combine f1 f2 [] ((w, b) # ys) =
     and_then (safeMult f2 b) (\<lambda>c. and_then (combine f1 f2 [] ys) (\<lambda>r. Inr ((w, c) # r)))"
| "combine f1 f2 [] [] = Inr []"

primrec row_ggt :: "int \<Rightarrow> row \<Rightarrow> int result" where
  "row_ggt g [] = Inr g"
| "row_ggt g (x # xs) = and_then (ggt g (snd x)) (\<lambda>h. row_ggt h xs)"

primrec divide_row :: "int \<Rightarrow> row \<Rightarrow> row result" where
  "divide_row g [] = Inr []"
| "divide_row g (x # xs) = and_then (div64 (snd x) g) (\<lambda>c. and_then (divide_row g xs) (\<lambda>r. Inr ((fst x, c) # r)))"

text \<open>The new row; the greatest common divisor of an empty row is read from the array and not used.\<close>

definition reduce_row :: "row \<Rightarrow> row result" where
  "reduce_row r = (case r of [] \<Rightarrow> Inr [] | x # xs \<Rightarrow> and_then (row_ggt (snd x) xs) (\<lambda>g. divide_row g r))"

text \<open>\<open>None\<close>: the variable does not occur in the second row.\<close>

definition eliminate :: "row \<Rightarrow> row \<Rightarrow> row option result" where
  "eliminate r1 r2 =
     (case map_of r2 (fst (hd r1)) of None \<Rightarrow> Inr None
      | Some c \<Rightarrow>
          and_then (ggt (snd (hd r1)) c) (\<lambda>g.
          and_then (div64 c g) (\<lambda>f1.
          and_then (div64 (snd (hd r1)) g) (\<lambda>f2.
          and_then (combine f1 f2 r1 r2) (\<lambda>r.
          and_then (reduce_row r) (\<lambda>r'. Inr (Some r')))))))"

definition deleteRow :: "nat \<Rightarrow> matrix \<Rightarrow> matrix" where
  "deleteRow i m =
     (case rows m ! i of r1 # r2 # rest \<Rightarrow> m\<lparr>rows := (rows m)[i := r1 # rest], rowCount := rowCount m - 1\<rparr> | _ \<Rightarrow> m)"

text \<open>\<open>matrix[i]->apply(matrix)\<close>: eliminate the first variable of row \<open>i\<close> in its successor.\<close>

definition apply_next :: "nat \<Rightarrow> matrix \<Rightarrow> matrix result" where
  "apply_next i m =
     (case rows m ! i of
        r1 # r2 # rest \<Rightarrow>
          if fst (hd r1) \<noteq> fst (hd r2) then Inl Failed
          else and_then (eliminate r1 r2) (\<lambda>e. case e of
                 None \<Rightarrow> Inr m
               | Some r \<Rightarrow>
                   if r \<noteq> [] \<and> fst (hd r) \<le> fst (hd r1) then Inl Failed
                   else addRow r (deleteRow i m))
      | _ \<Rightarrow> Inl Failed)"

text \<open>\<open>matrix[j]->apply(matrix, i)\<close>: eliminate the first variable of row \<open>j\<close> in row \<open>i\<close>.\<close>

definition apply_to :: "nat \<Rightarrow> nat \<Rightarrow> matrix \<Rightarrow> matrix result" where
  "apply_to j i m =
     (case (rows m ! j, rows m ! i) of
        (r1 # _, [r2]) \<Rightarrow>
          if fst (hd r1) \<le> fst (hd r2) then Inl Failed
          else and_then (eliminate r1 r2) (\<lambda>e. case e of
                 None \<Rightarrow> Inr m
               | Some r \<Rightarrow> addRow r (m\<lparr>rows := (rows m)[i := []], rowCount := rowCount m - 1\<rparr>))
      | _ \<Rightarrow> Inl Failed)"

text \<open>The while loop of \<open>reduce\<close>; every round removes a row from column \<open>i\<close>, so their number is enough fuel.\<close>

fun reduce_column :: "nat \<Rightarrow> nat \<Rightarrow> matrix \<Rightarrow> matrix result" where
  "reduce_column fuel i m =
     (if 1 < length (rows m ! i)
      then (case fuel of 0 \<Rightarrow> Inl OutOfFuel
            | Suc k \<Rightarrow> (case apply_next i m of Inl e \<Rightarrow> Inl e | Inr m1 \<Rightarrow> reduce_column k i m1))
      else Inr m)"

declare reduce_column.simps [simp del]

fun reduce_from :: "nat \<Rightarrow> nat \<Rightarrow> matrix \<Rightarrow> matrix result" where
  "reduce_from 0 i m = Inr m"
| "reduce_from (Suc k) i m =
     (let m1 = (if rows m ! i \<noteq> [] then m\<lparr>significantColCount := significantColCount m + 1\<rparr> else m)
      in and_then (reduce_column (length (rows m ! i)) i m1) (reduce_from k (i + 1)))"

definition reduce :: "matrix \<Rightarrow> matrix result" where
  "reduce m = (if rowCount m = 0 then Inr m else reduce_from (colCount m) 0 m)"

text \<open>The loops of \<open>diagonalise\<close>; making an entry positive negates the whole row.\<close>

primrec negate_row :: "row \<Rightarrow> row result" where
  "negate_row [] = Inr []"
| "negate_row (x # xs) = and_then (int64 (- snd x)) (\<lambda>c. and_then (negate_row xs) (\<lambda>r. Inr ((fst x, c) # r)))"

definition make_positive :: "nat \<Rightarrow> matrix \<Rightarrow> matrix result" where
  "make_positive i m =
     (case rows m ! i of
        [] \<Rightarrow> Inl Failed
      | r # rest \<Rightarrow>
          if snd (hd r) < 0
          then and_then (negate_row r) (\<lambda>r'. Inr (m\<lparr>rows := (rows m)[i := r' # rest]\<rparr>))
          else Inr m)"

fun eliminate_upper :: "nat \<Rightarrow> nat \<Rightarrow> nat \<Rightarrow> matrix \<Rightarrow> matrix result" where
  "eliminate_upper 0 j i m = Inr m"
| "eliminate_upper (Suc k) j i m =
     and_then (if rows m ! j \<noteq> [] then apply_to j i m else Inr m) (eliminate_upper k (j + 1) i)"

fun diagonalise_from :: "nat \<Rightarrow> nat \<Rightarrow> matrix \<Rightarrow> matrix result" where
  "diagonalise_from 0 i m = Inr m"
| "diagonalise_from (Suc k) i m =
     and_then (if rows m ! i \<noteq> [] then and_then (eliminate_upper k (i + 1) i m) (make_positive i) else Inr m)
       (diagonalise_from k (i + 1))"

definition diagonalise :: "matrix \<Rightarrow> matrix result" where
  "diagonalise m =
     (if rowCount m = 0 then Inr m else and_then (reduce m) (diagonalise_from (colCount m) 0))"

definition isSignificant :: "matrix \<Rightarrow> nat \<Rightarrow> bool" where
  "isSignificant m c \<longleftrightarrow> rows m ! c \<noteq> []"

definition getSignificantColCount :: "matrix \<Rightarrow> nat" where
  "getSignificantColCount m = significantColCount m"

section \<open>The arithmetic is exact\<close>

lemma int64_Inr [simp]: "int64 x = Inr y \<longleftrightarrow> y = x \<and> - (2 ^ 63) \<le> x \<and> x < 2 ^ 63"
  by (auto simp: int64_def)

lemma int64_Inl [simp]: "int64 x = Inl e \<longleftrightarrow> e = Overflow \<and> \<not> (- (2 ^ 63) \<le> x \<and> x < 2 ^ 63)"
  by (auto simp: int64_def)

lemma ggt_divides: "ggt a b = Inr g \<Longrightarrow> g \<noteq> 0 \<and> g dvd a \<and> g dvd b"
proof (induction a b rule: ggt.induct)
  case (1 a b)
  have smod_dvd: "d dvd x" if "d dvd x smod y" "d dvd y" for d x y :: int
    using that by (metis dvd_add dvd_mult minus_sdiv_mult_eq_smod diff_add_cancel mult.commute)
  show ?case
  proof (cases "rem64 a b")
    case (Inl e)
    then show ?thesis using 1(2) by (simp add: ggt.simps [of a b])
  next
    case a1: (Inr a1)
    show ?thesis
    proof (cases "a1 = 0")
      case True
      then show ?thesis using 1(2) a1 smod_dvd [of b a b]
        by (auto simp: ggt.simps [of a b] rem64_def split: if_splits)
    next
      case False
      have a: "a smod b = a1" "b \<noteq> 0" using a1 by (auto simp: rem64_def split: if_splits)
      show ?thesis
      proof (cases "rem64 b a1")
        case (Inl e)
        then show ?thesis using 1(2) a1 False by (simp add: ggt.simps [of a b])
      next
        case b1: (Inr b1)
        have b: "b smod a1 = b1" using b1 by (auto simp: rem64_def split: if_splits)
        show ?thesis
        proof (cases "b1 = 0")
          case True
          then have "g = a1" using 1(2) a1 b1 False by (simp add: ggt.simps [of a b])
          then show ?thesis using False b True smod_dvd [of a1 b a1] smod_dvd [of a1 a b] a by auto
        next
          case nz: False
          have "ggt a1 b1 = Inr g" using 1(2) a1 b1 False nz by (simp add: ggt.simps [of a b])
          from 1(1) [OF a1 False b1 nz this] show ?thesis
            using smod_dvd [of g b a1] smod_dvd [of g a b] a(1) b by auto
        qed
      qed
    qed
  qed
qed

lemma ggt_error: "b \<noteq> 0 \<Longrightarrow> ggt a b = Inl e \<Longrightarrow> e = Overflow"
proof (induction a b rule: ggt.induct)
  case (1 a b)
  show ?case
    using 1(3) 1(1) [OF _ _ _ _ _] 1(2)
    by (auto simp: ggt.simps [of a b] rem64_def split: sum.splits if_splits)
qed

lemma div64_exact:
  assumes "g dvd a" "div64 a g = Inr c"
  shows "a = c * g"
proof -
  have g: "g \<noteq> 0" and c: "c = a sdiv g" using assms(2) by (auto simp: div64_def split: if_splits)
  have eq: "a sdiv g * g + a smod g = a" by (rule sdiv_mult_smod_eq)
  then have "g dvd a smod g" using assms(1) by (metis dvd_add_right_iff dvd_triv_right)
  moreover have "\<bar>a smod g\<bar> < \<bar>g\<bar>" using smod_int_range [OF g, of a] by auto
  ultimately have "a smod g = 0" using dvd_imp_le_int by force
  then show ?thesis using eq c by simp
qed

section \<open>Rows as vectors\<close>

definition ent :: "row \<Rightarrow> arrayindex_t \<Rightarrow> int" where
  "ent r p = (case map_of r p of None \<Rightarrow> 0 | Some c \<Rightarrow> c)"

lemma ent_Nil [simp]: "ent [] p = 0"
  by (simp add: ent_def)

lemma ent_Cons [simp]: "ent ((v, c) # r) p = (if p = v then c else ent r p)"
  by (simp add: ent_def)

definition row_wf :: "row \<Rightarrow> bool" where
  "row_wf r \<longleftrightarrow> sorted_wrt (<) (map fst r) \<and> (\<forall>x \<in> set r. snd x \<noteq> 0)"

lemma row_wf_Nil [simp]: "row_wf []"
  by (simp add: row_wf_def)

lemma row_wf_Cons [simp]: "row_wf ((v, c) # r) \<longleftrightarrow> row_wf r \<and> c \<noteq> 0 \<and> (\<forall>w \<in> fst ` set r. v < w)"
  by (auto simp: row_wf_def)

lemma ent_notin: "p \<notin> fst ` set r \<Longrightarrow> ent r p = 0"
  by (induction r) auto

lemma ent_mem: "distinct (map fst r) \<Longrightarrow> x \<in> set r \<Longrightarrow> ent r (fst x) = snd x"
  by (cases x) (simp add: ent_def)

lemma row_wf_distinct: "row_wf r \<Longrightarrow> distinct (map fst r)"
  by (simp add: row_wf_def strict_sorted_iff)

lemma ent_below: "\<forall>w \<in> fst ` set r. v < w \<Longrightarrow> p \<le> v \<Longrightarrow> ent r p = 0"
  by (rule ent_notin) force

lemma combine_correct:
  assumes "combine f1 f2 xs ys = Inr r" "row_wf xs" "row_wf ys" "f1 \<noteq> 0" "f2 \<noteq> 0"
  shows "row_wf r \<and> fst ` set r \<subseteq> fst ` set xs \<union> fst ` set ys \<and> (\<forall>p. ent r p = f2 * ent ys p - f1 * ent xs p)"
  using assms
proof (induction f1 f2 xs ys arbitrary: r rule: combine.induct)
  case (1 f1 f2 v a xs w b ys)
  consider (less) "v < w" | (greater) "w < v" | (equal) "v = w" by linarith
  then show ?case
  proof cases
    case less
    obtain r1 where r1: "combine f1 f2 xs ((w, b) # ys) = Inr r1" "r = (v, - f1 * a) # r1"
      using "1.prems"(1) less by (auto simp: safeMult_def)
    have above: "\<forall>u \<in> fst ` set ((w, b) # ys). v < u" using "1.prems"(3) less by auto
    have ih: "row_wf r1" "fst ` set r1 \<subseteq> fst ` set xs \<union> fst ` set ((w, b) # ys)"
      "\<And>p. ent r1 p = f2 * ent ((w, b) # ys) p - f1 * ent xs p"
      using "1.IH"(1) [OF less r1(1) _ "1.prems"(3-5)] "1.prems"(2) by auto
    have "ent r p = f2 * ent ((w, b) # ys) p - f1 * ent ((v, a) # xs) p" for p
    proof (cases "p = v")
      case True
      then show ?thesis using ent_below [OF above, of p] r1(2) by simp
    next
      case False
      then have "ent r p = ent r1 p" "ent ((v, a) # xs) p = ent xs p" using r1(2) by simp_all
      then show ?thesis by (simp only: ih(3))
    qed
    moreover have "\<forall>u \<in> fst ` set r1. v < u"
      using ih(2) above "1.prems"(2) unfolding row_wf_Cons by (meson UnE subsetD)
    then have "row_wf r" using ih(1) "1.prems"(2,4) r1(2) by auto
    moreover have "fst ` set r \<subseteq> fst ` set ((v, a) # xs) \<union> fst ` set ((w, b) # ys)"
      using ih(2) r1(2) by auto
    ultimately show ?thesis by blast
  next
    case greater
    obtain r1 where r1: "combine f1 f2 ((v, a) # xs) ys = Inr r1" "r = (w, f2 * b) # r1"
      using "1.prems"(1) greater by (auto simp: safeMult_def)
    have above: "\<forall>u \<in> fst ` set ((v, a) # xs). w < u" using "1.prems"(2) greater by auto
    have ih: "row_wf r1" "fst ` set r1 \<subseteq> fst ` set ((v, a) # xs) \<union> fst ` set ys"
      "\<And>p. ent r1 p = f2 * ent ys p - f1 * ent ((v, a) # xs) p"
      using "1.IH"(2) [OF _ greater r1(1) "1.prems"(2) _ "1.prems"(4,5)] greater "1.prems"(3) by auto
    have "ent r p = f2 * ent ((w, b) # ys) p - f1 * ent ((v, a) # xs) p" for p
    proof (cases "p = w")
      case True
      then show ?thesis using ent_below [OF above, of p] r1(2) by simp
    next
      case False
      then have "ent r p = ent r1 p" "ent ((w, b) # ys) p = ent ys p" using r1(2) by simp_all
      then show ?thesis by (simp only: ih(3))
    qed
    moreover have "\<forall>u \<in> fst ` set r1. w < u"
      using ih(2) above "1.prems"(3) unfolding row_wf_Cons by (meson UnE subsetD)
    then have "row_wf r" using ih(1) "1.prems"(3,5) r1(2) by auto
    moreover have "fst ` set r \<subseteq> fst ` set ((v, a) # xs) \<union> fst ` set ((w, b) # ys)"
      using ih(2) r1(2) by auto
    ultimately show ?thesis by blast
  next
    case equal
    obtain r1 where r1: "combine f1 f2 xs ys = Inr r1"
      "r = (if f2 * b - f1 * a = 0 then r1 else (v, f2 * b - f1 * a) # r1)"
      using "1.prems"(1) equal by (auto simp: safeMult_def)
    have ih: "row_wf r1" "fst ` set r1 \<subseteq> fst ` set xs \<union> fst ` set ys" "\<And>p. ent r1 p = f2 * ent ys p - f1 * ent xs p"
      using "1.IH"(3) [OF _ _ r1(1) _ _ "1.prems"(4,5)] equal "1.prems"(2,3) by auto
    have z: "ent xs v = 0" "ent ys v = 0" using "1.prems"(2,3) equal ent_below [of xs v v] ent_below [of ys v v] by auto
    have "ent r p = f2 * ent ((w, b) # ys) p - f1 * ent ((v, a) # xs) p" for p
      using ih(3) [of p] z equal by (cases "p = v") (auto simp: r1(2))
    moreover have "\<forall>u \<in> fst ` set r1. v < u"
      using ih(2) "1.prems"(2,3) equal unfolding row_wf_Cons by (meson UnE subsetD)
    then have "row_wf r" using ih(1) by (auto simp: r1(2))
    moreover have "fst ` set r \<subseteq> fst ` set ((v, a) # xs) \<union> fst ` set ((w, b) # ys)"
      using ih(2) equal by (auto simp: r1(2))
    ultimately show ?thesis by blast
  qed
next
  case (2 f1 f2 v a xs)
  obtain r1 where r1: "combine f1 f2 xs [] = Inr r1" "r = (v, - f1 * a) # r1"
    using 2(2) by (auto simp: safeMult_def)
  have "row_wf r1 \<and> fst ` set r1 \<subseteq> fst ` set xs \<union> fst ` set ([] :: row) \<and> (\<forall>p. ent r1 p = f2 * ent [] p - f1 * ent xs p)"
    by (rule 2(1) [OF r1(1) _ _ 2(5,6)]) (use 2(3) in auto)
  moreover from this have "\<forall>u \<in> fst ` set r1. v < u" using 2(3) unfolding row_wf_Cons by (metis UnE empty_iff image_empty list.set(1) subsetD)
  ultimately show ?case using 2(3,5) r1(2) by auto
next
  case (3 f1 f2 w b ys)
  obtain r1 where r1: "combine f1 f2 [] ys = Inr r1" "r = (w, f2 * b) # r1"
    using 3(2) by (auto simp: safeMult_def)
  have "row_wf r1 \<and> fst ` set r1 \<subseteq> fst ` set ([] :: row) \<union> fst ` set ys \<and> (\<forall>p. ent r1 p = f2 * ent ys p - f1 * ent [] p)"
    by (rule 3(1) [OF r1(1) _ _ 3(5,6)]) (use 3(4) in auto)
  moreover from this have "\<forall>u \<in> fst ` set r1. w < u" using 3(4) unfolding row_wf_Cons by (metis UnE empty_iff image_empty list.set(1) subsetD)
  ultimately show ?case using 3(4,6) r1(2) by auto
next
  case (4 f1 f2)
  then show ?case by simp
qed

lemma combine_error: "combine f1 f2 xs ys = Inl e \<Longrightarrow> e = Overflow"
  by (induction f1 f2 xs ys rule: combine.induct)
    (auto simp: and_then_Inl safeMult_def split: if_splits)

lemma row_ggt_divides: "row_ggt g xs = Inr h \<Longrightarrow> g \<noteq> 0 \<Longrightarrow> h \<noteq> 0 \<and> h dvd g \<and> (\<forall>x \<in> set xs. h dvd snd x)"
proof (induction xs arbitrary: g)
  case (Cons x xs)
  obtain g1 where g1: "ggt g (snd x) = Inr g1" "row_ggt g1 xs = Inr h" using Cons.prems(1) by auto
  show ?case using ggt_divides [OF g1(1)] Cons.IH [OF g1(2)] by (auto intro: dvd_trans)
qed simp

lemma row_ggt_error: "row_ggt g xs = Inl e \<Longrightarrow> \<forall>x \<in> set xs. snd x \<noteq> 0 \<Longrightarrow> e = Overflow"
  by (induction xs arbitrary: g) (auto simp: and_then_Inl dest: ggt_error)

lemma divide_row_correct:
  "divide_row g r = Inr r' \<Longrightarrow> \<forall>x \<in> set r. g dvd snd x \<Longrightarrow> map fst r' = map fst r \<and> (\<forall>p. ent r p = g * ent r' p)"
proof (induction r arbitrary: r')
  case (Cons x r)
  obtain c r1 where r1: "div64 (snd x) g = Inr c" "divide_row g r = Inr r1" "r' = (fst x, c) # r1"
    using Cons.prems(1) by auto
  have "snd x = c * g" using div64_exact r1(1) Cons.prems(2) by simp
  then show ?case using Cons.IH [OF r1(2)] Cons.prems(2) r1(3) by (cases x) auto
qed simp

lemma divide_row_error: "divide_row g r = Inl e \<Longrightarrow> g \<noteq> 0 \<Longrightarrow> e = Overflow"
  by (induction r) (auto simp: and_then_Inl div64_def)

lemma row_wf_scaled:
  assumes "row_wf r" "map fst r' = map fst r" "\<forall>p. ent r p = g * ent r' p"
  shows "row_wf r'"
proof -
  have d: "distinct (map fst r')" using assms(1,2) by (simp add: row_wf_def strict_sorted_iff)
  have "snd x \<noteq> 0" if x: "x \<in> set r'" for x
  proof -
    have "ent r' (fst x) = snd x" by (rule ent_mem [OF d x])
    moreover obtain y where y: "y \<in> set r" "fst y = fst x"
      using x assms(2) by (metis (no_types, lifting) imageE image_eqI set_map)
    moreover have "ent r (fst y) = snd y" by (rule ent_mem [OF row_wf_distinct [OF assms(1)] y(1)])
    ultimately show ?thesis using assms(1,3) by (auto simp: row_wf_def)
  qed
  then show ?thesis using assms(1,2) by (simp add: row_wf_def)
qed

lemma reduce_row_correct:
  assumes "reduce_row r = Inr r'" "row_wf r"
  shows "row_wf r' \<and> map fst r' = map fst r \<and> (\<exists>g. g \<noteq> 0 \<and> (\<forall>p. ent r p = g * ent r' p))"
proof (cases r)
  case Nil
  then show ?thesis using assms by (auto simp: reduce_row_def intro: exI [of _ 1])
next
  case (Cons x xs)
  obtain g where g: "row_ggt (snd x) xs = Inr g" "divide_row g r = Inr r'"
    using assms(1) Cons by (auto simp: reduce_row_def)
  have "snd x \<noteq> 0" using assms(2) Cons by (simp add: row_wf_def)
  from row_ggt_divides [OF g(1) this] have "g \<noteq> 0" "\<forall>y \<in> set r. g dvd snd y" using Cons by auto
  then show ?thesis using divide_row_correct [OF g(2)] row_wf_scaled [OF assms(2)] by blast
qed

lemma reduce_row_error: "reduce_row r = Inl e \<Longrightarrow> row_wf r \<Longrightarrow> e = Overflow"
proof (cases r)
  case (Cons x xs)
  assume e: "reduce_row r = Inl e" and w: "row_wf r"
  have nz: "snd x \<noteq> 0" "\<forall>y \<in> set xs. snd y \<noteq> 0" using w Cons by (auto simp: row_wf_def)
  from e Cons consider "row_ggt (snd x) xs = Inl e" | g where "row_ggt (snd x) xs = Inr g" "divide_row g r = Inl e"
    by (auto simp: reduce_row_def and_then_Inl)
  then show ?thesis
    using row_ggt_error nz row_ggt_divides divide_row_error by cases blast+
qed (simp add: reduce_row_def)

text \<open>The new row is a combination of the two old ones in which the first variable is gone, and the
  second row can be got back.\<close>

lemma eliminate_correct:
  assumes "eliminate r1 r2 = Inr (Some r)" "row_wf r1" "row_wf r2" "r1 \<noteq> []"
  shows "row_wf r \<and> fst ` set r \<subseteq> fst ` set r1 \<union> fst ` set r2 - {fst (hd r1)} \<and>
    (\<exists>f1 f2 g. f1 \<noteq> 0 \<and> f2 \<noteq> 0 \<and> g \<noteq> 0 \<and> (\<forall>p. g * ent r p = f2 * ent r2 p - f1 * ent r1 p))"
proof -
  obtain c where c: "map_of r2 (fst (hd r1)) = Some c" using assms(1) by (auto simp: eliminate_def split: option.splits)
  obtain d f1 f2 r0 where d: "ggt (snd (hd r1)) c = Inr d" "div64 c d = Inr f1" "div64 (snd (hd r1)) d = Inr f2"
    "combine f1 f2 r1 r2 = Inr r0" "reduce_row r0 = Inr r"
    using assms(1) by (auto simp: eliminate_def c)
  have nz: "snd (hd r1) \<noteq> 0" "c \<noteq> 0"
    using assms(2-4) map_of_SomeD [OF c] by (auto simp: row_wf_def)
  have eq: "c = f1 * d" "snd (hd r1) = f2 * d"
    using ggt_divides [OF d(1)] div64_exact [OF _ d(2)] div64_exact [OF _ d(3)] by auto
  then have f: "f1 \<noteq> 0" "f2 \<noteq> 0" using nz by auto
  note r0 = combine_correct [OF d(4) assms(2,3) f]
  obtain g where g: "g \<noteq> 0" "\<And>p. ent r0 p = g * ent r p" "row_wf r" "map fst r = map fst r0"
    using reduce_row_correct [OF d(5)] r0 by blast
  have "ent r1 (fst (hd r1)) = snd (hd r1)" "ent r2 (fst (hd r1)) = c"
    using assms(4) c by (cases r1; auto simp: ent_def)+
  then have "ent r0 (fst (hd r1)) = 0" using r0 eq by simp
  then have gone: "fst (hd r1) \<notin> fst ` set r"
  proof -
    assume z: "ent r0 (fst (hd r1)) = 0"
    have "ent r x \<noteq> 0" if "x \<in> fst ` set r" for x
      using that ent_mem [OF row_wf_distinct [OF g(3)]] g(3) by (force simp: row_wf_def)
    moreover have "ent r (fst (hd r1)) = 0" using z g(1) g(2) [of "fst (hd r1)"] by simp
    ultimately show ?thesis by blast
  qed
  have "fst ` set r = fst ` set r0" using g(4) by (metis set_map)
  then have vars: "fst ` set r \<subseteq> fst ` set r1 \<union> fst ` set r2 - {fst (hd r1)}"
    using r0 gone by (simp only: subset_Diff_insert Diff_empty simp_thms)
  have "g * ent r p = f2 * ent r2 p - f1 * ent r1 p" for p using r0 g(2) by simp
  then have "\<exists>f1 f2 g. f1 \<noteq> 0 \<and> f2 \<noteq> 0 \<and> g \<noteq> 0 \<and> (\<forall>p. g * ent r p = f2 * ent r2 p - f1 * ent r1 p)"
    using g(1) f by (intro exI [of _ f1] exI [of _ f2] exI [of _ g]) simp
  then show ?thesis using vars g(3) by simp
qed

lemma eliminate_error:
  assumes "eliminate r1 r2 = Inl e" "row_wf r1" "row_wf r2" "r1 \<noteq> []"
  shows "e = Overflow"
proof -
  obtain c where c: "map_of r2 (fst (hd r1)) = Some c" using assms(1) by (auto simp: eliminate_def split: option.splits)
  have nz: "snd (hd r1) \<noteq> 0" "c \<noteq> 0" using assms(2-4) map_of_SomeD [OF c] by (auto simp: row_wf_def)
  show ?thesis
  proof (cases "ggt (snd (hd r1)) c")
    case (Inl e1)
    then show ?thesis using assms(1) c ggt_error nz by (simp add: eliminate_def)
  next
    case (Inr d)
    note d = ggt_divides [OF Inr]
    have f: "f1 \<noteq> 0" "f2 \<noteq> 0" if "div64 c d = Inr f1" "div64 (snd (hd r1)) d = Inr f2" for f1 f2
      using that nz d div64_exact by (metis mult_zero_left)+
    have dv: "div64 x d = Inl e1 \<Longrightarrow> e1 = Overflow" for x e1 using d by (simp add: div64_def)
    from assms(1) Inr c consider "div64 c d = Inl e" | "div64 (snd (hd r1)) d = Inl e"
      | f1 f2 where "div64 c d = Inr f1" "div64 (snd (hd r1)) d = Inr f2" "combine f1 f2 r1 r2 = Inl e"
      | f1 f2 r where "div64 c d = Inr f1" "div64 (snd (hd r1)) d = Inr f2" "combine f1 f2 r1 r2 = Inr r" "reduce_row r = Inl e"
      by (auto simp: eliminate_def and_then_Inl)
    then show ?thesis
    proof cases
      case 4
      then show ?thesis using combine_correct [OF 4(3) assms(2,3) f [OF 4(1,2)]] reduce_row_error by blast
    qed (auto intro: dv dest: combine_error)
  qed
qed

section \<open>The row space\<close>

text \<open>Rational combinations of a set of rows.\<close>

inductive_set rspan :: "row set \<Rightarrow> (arrayindex_t \<Rightarrow> rat) set" for R where
  rspan_zero: "(\<lambda>p. 0) \<in> rspan R"
| rspan_step: "x \<in> rspan R \<Longrightarrow> r \<in> R \<Longrightarrow> (\<lambda>p. x p + c * of_int (ent r p)) \<in> rspan R"

abbreviation row_vec :: "row \<Rightarrow> arrayindex_t \<Rightarrow> rat" where
  "row_vec r \<equiv> (\<lambda>p. of_int (ent r p))"

lemma rspan_add: "y \<in> rspan R \<Longrightarrow> x \<in> rspan R \<Longrightarrow> (\<lambda>p. x p + y p) \<in> rspan R"
proof (induction rule: rspan.induct)
  case (rspan_step y r c)
  from rspan.rspan_step [OF rspan_step(3) [OF rspan_step(4)] rspan_step(2), of c]
  show ?case by (simp add: add.assoc)
qed simp

lemma rspan_scale: "x \<in> rspan R \<Longrightarrow> (\<lambda>p. k * x p) \<in> rspan R"
proof (induction rule: rspan.induct)
  case rspan_zero
  then show ?case by (simp add: rspan.rspan_zero)
next
  case (rspan_step x r c)
  from rspan.rspan_step [OF rspan_step(3,2), of "k * c"] show ?case by (simp add: algebra_simps)
qed

lemma rspan_row: "r \<in> R \<Longrightarrow> row_vec r \<in> rspan R"
  using rspan.rspan_step [OF rspan.rspan_zero, of r R 1] by simp

lemma rspan_trans: "x \<in> rspan R \<Longrightarrow> \<forall>r \<in> R. row_vec r \<in> rspan R' \<Longrightarrow> x \<in> rspan R'"
proof (induction rule: rspan.induct)
  case (rspan_step x r c)
  have "row_vec r \<in> rspan R'" using rspan_step(2,4) by blast
  from rspan_add [OF rspan_scale [OF this, of c] rspan_step(3) [OF rspan_step(4)]] show ?case by simp
qed (rule rspan.rspan_zero)

text \<open>\<open>a = (f * b - g * c) / h\<close> as vectors.\<close>

lemma rspan_combination:
  assumes "row_vec b \<in> rspan R" "row_vec c \<in> rspan R" "h \<noteq> 0" "\<forall>p. h * ent a p = f * ent b p - g * ent c p"
  shows "row_vec a \<in> rspan R"
proof -
  have "row_vec a p = of_int f / of_int h * of_int (ent b p) + (- of_int g / of_int h) * of_int (ent c p)" for p
  proof -
    have "of_int (h * ent a p) = (of_int (f * ent b p - g * ent c p) :: rat)" using assms(4) by simp
    then show ?thesis using assms(3) by (simp add: field_simps)
  qed
  moreover have "(\<lambda>p. of_int f / of_int h * of_int (ent b p) + (- of_int g / of_int h) * of_int (ent c p)) \<in> rspan R"
    by (rule rspan_add [OF rspan_scale [OF assms(2)] rspan_scale [OF assms(1)]])
  ultimately show ?thesis by presburger
qed

definition all_rows :: "matrix \<Rightarrow> row set" where
  "all_rows m = (\<Union>i < length (rows m). set (rows m ! i))"

definition same_space :: "matrix \<Rightarrow> matrix \<Rightarrow> bool" where
  "same_space m m' \<longleftrightarrow> (\<forall>r \<in> all_rows m. row_vec r \<in> rspan (all_rows m')) \<and> (\<forall>r \<in> all_rows m'. row_vec r \<in> rspan (all_rows m))"

lemma same_space_refl: "all_rows m = all_rows m' \<Longrightarrow> same_space m m'"
  by (simp add: same_space_def rspan_row)

lemma same_space_trans: "same_space m m' \<Longrightarrow> same_space m' m'' \<Longrightarrow> same_space m m''"
  unfolding same_space_def using rspan_trans by blast

lemma same_space_rspan: "same_space m m' \<Longrightarrow> rspan (all_rows m) = rspan (all_rows m')"
  unfolding same_space_def using rspan_trans by blast

section \<open>The steps of the reduction\<close>

definition row_in :: "nat \<Rightarrow> nat \<Rightarrow> row \<Rightarrow> bool" where
  "row_in n i r \<longleftrightarrow> r \<noteq> [] \<and> row_wf r \<and> fst (hd r) = i \<and> (\<forall>v \<in> fst ` set r. v < n)"

definition mat_ok :: "matrix \<Rightarrow> bool" where
  "mat_ok m \<longleftrightarrow> length (rows m) = colCount m \<and> rowCount m = length (concat (rows m)) \<and>
     (\<forall>i < colCount m. \<forall>r \<in> set (rows m ! i). row_in (colCount m) i r)"

lemma row_in_above: "row_in n i r \<Longrightarrow> v \<in> fst ` set r \<Longrightarrow> i \<le> v"
  by (cases r) (auto simp: row_in_def row_wf_def)

lemma length_concat_update:
  "i < length xss \<Longrightarrow> length (concat (xss[i := ys])) + length (xss ! i) = length (concat xss) + length ys"
  by (induction xss arbitrary: i) (auto simp: nth_Cons split: nat.splits)

lemma all_rows_update:
  assumes "k < length (rows m)" "rows m' = (rows m)[k := rs]"
  shows "all_rows m' = set rs \<union> (\<Union>i \<in> {..<length (rows m)} - {k}. set (rows m ! i))"
proof -
  have "{..<length (rows m)} = insert k ({..<length (rows m)} - {k})" using assms(1) by auto
  then have "all_rows m' = (\<Union>i \<in> insert k ({..<length (rows m)} - {k}). set ((rows m)[k := rs] ! i))"
    by (simp only: all_rows_def assms(2) length_list_update)
  also have "\<dots> = set rs \<union> (\<Union>i \<in> {..<length (rows m)} - {k}. set ((rows m)[k := rs] ! i))"
    using assms(1) by (simp only: UN_insert nth_list_update_eq)
  finally show ?thesis by simp
qed

lemma all_rows_split:
  assumes "k < length (rows m)"
  shows "all_rows m = set (rows m ! k) \<union> (\<Union>i \<in> {..<length (rows m)} - {k}. set (rows m ! i))"
  by (rule all_rows_update [OF assms]) simp

lemma addRow_correct:
  assumes m: "mat_ok m" and r: "row_in (colCount m) k r"
  shows "\<exists>m'. addRow r m = Inr m' \<and> mat_ok m' \<and> rows m' = (rows m)[k := r # rows m ! k] \<and>
    colCount m' = colCount m \<and> significantColCount m' = significantColCount m \<and> all_rows m' = insert r (all_rows m)"
proof -
  let ?m = "m\<lparr>rows := (rows m)[k := r # rows m ! k], rowCount := rowCount m + 1\<rparr>"
  have hd: "fst (hd r) = k" "r \<noteq> []" "DEBUG__checkRow r" using r by (auto simp: row_in_def row_wf_def DEBUG__checkRow_def)
  have k: "k < length (rows m)" using r m by (cases r) (auto simp: row_in_def mat_ok_def)
  have add: "addRow r m = Inr ?m" using hd by (simp add: addRow_def)
  have "mat_ok ?m"
    using m r k length_concat_update [OF k, of "r # rows m ! k"] by (auto simp: mat_ok_def nth_list_update)
  moreover have "all_rows ?m = insert r (all_rows m)"
    using all_rows_update [OF k, of ?m] all_rows_split [OF k] by simp
  ultimately show ?thesis using add by simp
qed

text \<open>What one elimination does to the matrix: column \<open>i\<close> loses its second row, the columns before it
  stay, and the row space is kept.\<close>

definition step_ok :: "nat \<Rightarrow> matrix \<Rightarrow> matrix \<Rightarrow> bool" where
  "step_ok i m m' \<longleftrightarrow> mat_ok m' \<and> colCount m' = colCount m \<and> significantColCount m' = significantColCount m \<and>
     (\<forall>j < i. rows m' ! j = rows m ! j) \<and> same_space m m'"

lemma eliminate_head:
  assumes "fst (hd r1) = fst (hd r2)" "r2 \<noteq> []"
  shows "eliminate r1 r2 \<noteq> Inr None"
proof -
  obtain v c r where "r2 = (v, c) # r" using assms(2) by (metis list.exhaust surj_pair)
  then have "map_of r2 (fst (hd r1)) = Some c" using assms(1) by simp
  then show ?thesis by (auto simp: eliminate_def)
qed

text \<open>Replacing a row by a combination of it and a row that stays.\<close>

lemma replace_row:
  assumes e: "eliminate r1 r2 = Inr (Some r)" and wf: "row_wf r1" "row_wf r2" "r1 \<noteq> []"
    and S: "r1 \<in> S" and m: "all_rows m = insert r2 S" and m': "all_rows m' = S \<union> (if r = [] then {} else {r})"
  shows "same_space m m'"
proof -
  obtain f1 f2 g where f: "f1 \<noteq> 0" "f2 \<noteq> 0" "g \<noteq> 0" "\<forall>p. g * ent r p = f2 * ent r2 p - f1 * ent r1 p"
    using eliminate_correct [OF e wf] by blast
  have S': "row_vec s \<in> rspan (all_rows m)" "row_vec s \<in> rspan (all_rows m')" if "s \<in> S" for s
    using that m m' by (auto intro: rspan_row)
  have r: "row_vec r \<in> rspan (all_rows m')"
    using m' by (cases "r = []") (auto intro: rspan_row simp: rspan_zero)
  have "\<forall>p. f2 * ent r2 p = g * ent r p - (- f1) * ent r1 p" using f(4) by simp
  from rspan_combination [OF r S'(2) [OF S] f(2) this] have "row_vec r2 \<in> rspan (all_rows m')" .
  moreover have "row_vec r \<in> rspan (all_rows m)"
    by (rule rspan_combination [OF _ S'(1) [OF S] f(3,4)]) (rule rspan_row, simp add: m)
  ultimately show ?thesis using S' m m' by (auto simp: same_space_def split: if_splits)
qed

lemma deleteRow_correct:
  assumes m: "mat_ok m" and i: "i < colCount m" "rows m ! i = r1 # r2 # rest"
  shows "mat_ok (deleteRow i m)" "rows (deleteRow i m) = (rows m)[i := r1 # rest]"
    "colCount (deleteRow i m) = colCount m" "significantColCount (deleteRow i m) = significantColCount m"
    "\<exists>S. r1 \<in> S \<and> all_rows m = insert r2 S \<and> all_rows (deleteRow i m) = S"
proof -
  let ?m = "m\<lparr>rows := (rows m)[i := r1 # rest], rowCount := rowCount m - 1\<rparr>"
  have d: "deleteRow i m = ?m" by (simp add: deleteRow_def i(2))
  have len: "i < length (rows m)" using m i(1) by (simp add: mat_ok_def)
  show "mat_ok (deleteRow i m)"
    using m i len length_concat_update [OF len, of "r1 # rest"] by (auto simp: d mat_ok_def nth_list_update)
  show "rows (deleteRow i m) = (rows m)[i := r1 # rest]" "colCount (deleteRow i m) = colCount m"
    "significantColCount (deleteRow i m) = significantColCount m" by (simp_all add: d)
  have "all_rows m = insert r2 (all_rows ?m)" "r1 \<in> all_rows ?m"
    using all_rows_update [OF len, of ?m "r1 # rest"] all_rows_split [OF len] by (auto simp: i(2))
  then show "\<exists>S. r1 \<in> S \<and> all_rows m = insert r2 S \<and> all_rows (deleteRow i m) = S" by (auto simp: d)
qed

lemma apply_next_correct:
  assumes m: "mat_ok m" and i: "i < colCount m" "rows m ! i = r1 # r2 # rest"
  shows "apply_next i m = Inl Overflow \<or>
    (\<exists>m'. apply_next i m = Inr m' \<and> step_ok i m m' \<and> rows m' ! i = r1 # rest)"
proof -
  have r: "row_in (colCount m) i r1" "row_in (colCount m) i r2" using m i by (auto simp: mat_ok_def)
  then have wf: "row_wf r1" "row_wf r2" "r1 \<noteq> []" and hd: "fst (hd r1) = i" "fst (hd r2) = i" "r2 \<noteq> []"
    by (auto simp: row_in_def)
  have len: "i < length (rows m)" using m i(1) by (simp add: mat_ok_def)
  note del = deleteRow_correct [OF m i]
  obtain S where S: "r1 \<in> S" "all_rows m = insert r2 S" "all_rows (deleteRow i m) = S" using del(5) by blast
  show ?thesis
  proof (cases "eliminate r1 r2")
    case (Inl e)
    then show ?thesis using eliminate_error [OF Inl wf] by (simp add: apply_next_def i(2) hd)
  next
    case (Inr o1)
    then obtain r where e: "eliminate r1 r2 = Inr (Some r)" using eliminate_head [of r1 r2] hd by (cases o1) auto
    have vars: "row_wf r" "fst ` set r \<subseteq> fst ` set r1 \<union> fst ` set r2 - {i}" using eliminate_correct [OF e wf] hd(1) by auto
    have ri: "i < v \<and> v < colCount m" if v: "v \<in> fst ` set r" for v
    proof -
      have "v \<noteq> i" "v \<in> fst ` set r1 \<or> v \<in> fst ` set r2" using subsetD [OF vars(2) v] by auto
      moreover from this(2) have "i \<le> v" "v < colCount m" using row_in_above r unfolding row_in_def by blast+
      ultimately show ?thesis by simp
    qed
    show ?thesis
    proof (cases "r = []")
      case True
      have "apply_next i m = Inr (deleteRow i m)"
        using e True by (simp add: apply_next_def i(2) hd addRow_def)
      moreover have "same_space m (deleteRow i m)"
        by (rule replace_row [OF e wf S(1,2)]) (simp add: S(3) True)
      ultimately show ?thesis using del len by (auto simp: step_ok_def)
    next
      case False
      then have h: "fst (hd r) \<in> fst ` set r" by simp
      have "row_in (colCount (deleteRow i m)) (fst (hd r)) r" using False vars(1) ri by (auto simp: row_in_def del(3))
      from addRow_correct [OF del(1) this] obtain m' where m': "addRow r (deleteRow i m) = Inr m'" "mat_ok m'"
        "rows m' = (rows (deleteRow i m))[fst (hd r) := r # rows (deleteRow i m) ! fst (hd r)]"
        "colCount m' = colCount m" "significantColCount m' = significantColCount m" "all_rows m' = insert r S"
        using del(3,4) S(3) by auto
      have "apply_next i m = Inr m'" using e False m'(1) ri [OF h] by (simp add: apply_next_def i(2) hd)
      moreover have "same_space m m'" by (rule replace_row [OF e wf S(1,2)]) (simp add: m'(6) False)
      ultimately show ?thesis
        using m' del(2) ri [OF h] len by (auto simp: step_ok_def)
    qed
  qed
qed

section \<open>reduce\<close>

lemma step_ok_refl: "mat_ok m \<Longrightarrow> step_ok i m m"
  by (simp add: step_ok_def same_space_refl)

lemma step_ok_trans: "step_ok i m m' \<Longrightarrow> step_ok i m' m'' \<Longrightarrow> step_ok i m m''"
  unfolding step_ok_def using same_space_trans by simp blast

lemma reduce_column_correct:
  assumes "mat_ok m" "i < colCount m" "length (rows m ! i) \<le> Suc fuel"
  shows "reduce_column fuel i m = Inl Overflow \<or>
    (\<exists>m'. reduce_column fuel i m = Inr m' \<and> step_ok i m m' \<and>
       length (rows m' ! i) = (if rows m ! i = [] then 0 else 1))"
  using assms
proof (induction fuel arbitrary: m)
  case 0
  then show ?case using step_ok_refl by (cases "rows m ! i") (auto simp: reduce_column.simps)
next
  case (Suc fuel)
  show ?case
  proof (cases "1 < length (rows m ! i)")
    case False
    then show ?thesis using Suc.prems step_ok_refl by (cases "rows m ! i") (auto simp: reduce_column.simps)
  next
    case True
    then obtain r1 r2 rest where r: "rows m ! i = r1 # r2 # rest"
      by (metis One_nat_def less_irrefl_nat list.exhaust list.size(3,4) not_less_zero add.right_neutral add_Suc_right less_numeral_extra(4))
    from apply_next_correct [OF Suc.prems(1,2) r] show ?thesis
    proof (elim disjE exE conjE)
      assume "apply_next i m = Inl Overflow"
      then show ?thesis using True by (simp add: reduce_column.simps)
    next
      fix m1
      assume m1: "apply_next i m = Inr m1" "step_ok i m m1" "rows m1 ! i = r1 # rest"
      have "mat_ok m1" "i < colCount m1" "length (rows m1 ! i) \<le> Suc fuel"
        using m1 Suc.prems(2,3) r by (auto simp: step_ok_def)
      from Suc.IH [OF this] m1 r True show ?thesis
        using step_ok_trans [OF m1(2)] by (auto simp: reduce_column.simps)
    qed
  qed
qed

definition reduced_from :: "nat \<Rightarrow> matrix \<Rightarrow> bool" where
  "reduced_from i m \<longleftrightarrow> (\<forall>j. i \<le> j \<and> j < colCount m \<longrightarrow> length (rows m ! j) \<le> 1)"

definition pivots_from :: "nat \<Rightarrow> matrix \<Rightarrow> nat" where
  "pivots_from i m = card {j. i \<le> j \<and> j < colCount m \<and> rows m ! j \<noteq> []}"

lemma pivots_from_Suc:
  assumes "i < colCount m"
  shows "pivots_from i m = (if rows m ! i = [] then 0 else 1) + pivots_from (i + 1) m"
proof -
  have eq: "{j. i \<le> j \<and> j < colCount m \<and> rows m ! j \<noteq> []} =
      (if rows m ! i = [] then {} else {i}) \<union> {j. i + 1 \<le> j \<and> j < colCount m \<and> rows m ! j \<noteq> []}"
    using assms by (auto simp: Suc_le_eq nat_less_le)
  show ?thesis unfolding pivots_from_def eq by (subst card_Un_disjoint) auto
qed

lemma reduce_from_correct:
  assumes "mat_ok m" "i + k = colCount m"
  shows "reduce_from k i m = Inl Overflow \<or>
    (\<exists>m'. reduce_from k i m = Inr m' \<and> mat_ok m' \<and> colCount m' = colCount m \<and> same_space m m' \<and>
       (\<forall>j < i. rows m' ! j = rows m ! j) \<and> reduced_from i m' \<and>
       significantColCount m' = significantColCount m + pivots_from i m')"
  using assms
proof (induction k arbitrary: i m)
  case 0
  then show ?case by (auto simp: reduced_from_def pivots_from_def same_space_refl)
next
  case (Suc k)
  let ?m1 = "if rows m ! i \<noteq> [] then m\<lparr>significantColCount := significantColCount m + 1\<rparr> else m"
  have m1: "mat_ok ?m1" "rows ?m1 = rows m" "colCount ?m1 = colCount m" "all_rows ?m1 = all_rows m"
    using Suc.prems(1) by (auto simp: mat_ok_def all_rows_def)
  have i: "i < colCount ?m1" "length (rows ?m1 ! i) \<le> Suc (length (rows m ! i))" using Suc.prems(2) m1(2,3) by auto
  from reduce_column_correct [OF m1(1) i] show ?case
  proof (elim disjE exE conjE)
    assume "reduce_column (length (rows m ! i)) i ?m1 = Inl Overflow"
    then show ?thesis by (simp add: Let_def)
  next
    fix m2
    assume m2: "reduce_column (length (rows m ! i)) i ?m1 = Inr m2" "step_ok i ?m1 m2"
      "length (rows m2 ! i) = (if rows ?m1 ! i = [] then 0 else 1)"
    have s2: "mat_ok m2" "colCount m2 = colCount m" "same_space m m2" "\<forall>j < i. rows m2 ! j = rows m ! j"
      using m2(2) m1 same_space_trans [OF same_space_refl [OF m1(4) [symmetric]]] by (auto simp: step_ok_def)
    have sig: "significantColCount m2 = significantColCount m + (if rows m ! i = [] then 0 else 1)"
      using m2(2) by (simp add: step_ok_def)
    have one: "length (rows m2 ! i) \<le> 1" "rows m2 ! i = [] \<longleftrightarrow> rows m ! i = []"
      using m2(3) m1(2) by (auto split: if_splits)
    have ik: "i + 1 + k = colCount m2" using Suc.prems(2) s2(2) by simp
    from Suc.IH [OF s2(1) ik] show ?thesis
    proof (elim disjE exE conjE)
      assume "reduce_from k (i + 1) m2 = Inl Overflow"
      then show ?thesis using m2(1) by (simp add: Let_def)
    next
      fix m'
      assume m': "reduce_from k (i + 1) m2 = Inr m'" "mat_ok m'" "colCount m' = colCount m2" "same_space m2 m'"
        "\<forall>j < i + 1. rows m' ! j = rows m2 ! j" "reduced_from (i + 1) m'"
        "significantColCount m' = significantColCount m2 + pivots_from (i + 1) m'"
      have "reduced_from i m'"
        using m'(5,6) one(1) unfolding reduced_from_def by (metis le_neq_implies_less less_add_one Suc_eq_plus1 Suc_leI)
      moreover have "significantColCount m' = significantColCount m + pivots_from i m'"
        using m'(3,5,7) sig one(2) pivots_from_Suc [of i m'] Suc.prems(2) s2(2) by auto
      moreover have "reduce_from (Suc k) i m = Inr m'" using m2(1) m'(1) by (simp add: Let_def)
      ultimately show ?thesis
        using m' s2 same_space_trans [OF s2(3) m'(4)] by auto
    qed
  qed
qed

theorem reduce_correct:
  assumes "mat_ok m" "significantColCount m = 0"
  shows "reduce m = Inl Overflow \<or>
    (\<exists>m'. reduce m = Inr m' \<and> mat_ok m' \<and> colCount m' = colCount m \<and> same_space m m' \<and> reduced_from 0 m' \<and>
       significantColCount m' = pivots_from 0 m')"
proof (cases "rowCount m = 0")
  case True
  then have "rows m ! j = []" if "j < colCount m" for j
    using assms(1) that nth_mem [of j "rows m"] by (auto simp: mat_ok_def)
  then show ?thesis using True assms
    by (auto simp: reduce_def same_space_refl reduced_from_def pivots_from_def)
next
  case False
  then show ?thesis using reduce_from_correct [OF assms(1), of 0 "colCount m"] assms(2) by (simp add: reduce_def)
qed

section \<open>Triangular form\<close>

text \<open>A vector of the row space of a reduced matrix that vanishes in the pivot columns is zero.\<close>

lemma reduced_rspan:
  assumes m: "mat_ok m" "reduced_from 0 m" and x: "x \<in> rspan (all_rows m)"
  shows "\<exists>c. \<forall>p. x p = (\<Sum>i \<in> {i. i < colCount m \<and> isSignificant m i}. c i * of_int (ent (hd (rows m ! i)) p))"
  using x
proof (induction rule: rspan.induct)
  case rspan_zero
  show ?case by (rule exI [of _ "\<lambda>_. 0"]) simp
next
  case (rspan_step x r c)
  obtain d where d: "\<forall>p. x p = (\<Sum>i \<in> {i. i < colCount m \<and> isSignificant m i}. d i * of_int (ent (hd (rows m ! i)) p))"
    using rspan_step(3) by blast
  obtain k where k: "k < colCount m" "r \<in> set (rows m ! k)"
    using rspan_step(2) m(1) by (auto simp: all_rows_def mat_ok_def)
  then have "rows m ! k = [r]" using m(2) by (cases "rows m ! k") (auto simp: reduced_from_def)
  then have r: "hd (rows m ! k) = r" "isSignificant m k" by (simp_all add: isSignificant_def)
  let ?S = "{i. i < colCount m \<and> isSignificant m i}"
  have "x p + c * of_int (ent r p) = (\<Sum>i \<in> ?S. (d(k := d k + c)) i * of_int (ent (hd (rows m ! i)) p))" for p
  proof -
    have kS: "finite ?S" "k \<in> ?S" using k(1) r(2) by auto
    have "(\<Sum>i \<in> ?S. (d(k := d k + c)) i * of_int (ent (hd (rows m ! i)) p)) =
        (d k + c) * of_int (ent r p) + (\<Sum>i \<in> ?S - {k}. d i * of_int (ent (hd (rows m ! i)) p))"
      using kS r(1) by (subst sum.remove [OF kS]) simp
    also have "\<dots> = c * of_int (ent r p) + (\<Sum>i \<in> ?S. d i * of_int (ent (hd (rows m ! i)) p))"
      unfolding sum.remove [OF kS, of "\<lambda>i. d i * of_int (ent (hd (rows m ! i)) p)"] r(1) by (simp add: algebra_simps)
    finally show ?thesis using d by simp
  qed
  then show ?case by blast
qed

theorem triangular_zero:
  assumes m: "mat_ok m" "reduced_from 0 m" and x: "x \<in> rspan (all_rows m)"
    and z: "\<forall>i < colCount m. isSignificant m i \<longrightarrow> x i = 0"
  shows "x = (\<lambda>p. 0)"
proof -
  let ?S = "{i. i < colCount m \<and> isSignificant m i}"
  let ?e = "\<lambda>i p. of_int (ent (hd (rows m ! i)) p) :: rat"
  obtain c where c: "\<forall>p. x p = (\<Sum>i \<in> ?S. c i * ?e i p)" using reduced_rspan [OF m x] by blast
  have row: "row_in (colCount m) i (hd (rows m ! i))" if "i \<in> ?S" for i
    using that m(1) by (simp add: mat_ok_def isSignificant_def)
  have diag: "?e i i \<noteq> 0" if "i \<in> ?S" for i
  proof -
    note ri = row [OF that]
    obtain v d r where r: "hd (rows m ! i) = (v, d) # r" using ri by (auto simp: row_in_def neq_Nil_conv)
    then have "v = i" "d \<noteq> 0" using ri by (auto simp: row_in_def)
    then show ?thesis using r by simp
  qed
  have below: "?e i p = 0" if "i \<in> ?S" "p < i" for i p
  proof -
    have "p \<notin> fst ` set (hd (rows m ! i))" using row_in_above [OF row [OF that(1)]] that(2) by force
    then show ?thesis by (simp add: ent_notin)
  qed
  have "c i = 0" if "i \<in> ?S" for i
    using that
  proof (induction i rule: less_induct)
    case (less i)
    have "x i = (\<Sum>j \<in> ?S. if j = i then c i * ?e i i else 0)"
      unfolding c [rule_format, of i]
    proof (rule sum.cong [OF refl])
      fix j
      assume j: "j \<in> ?S"
      show "c j * ?e j i = (if j = i then c i * ?e i i else 0)"
        using less.IH [OF _ j] below [OF j, of i] by (cases j i rule: linorder_cases) auto
    qed
    also have "\<dots> = c i * ?e i i" using less.prems by (simp add: sum.delta)
    finally show ?case using z less.prems diag [OF less.prems] by simp
  qed
  then show ?thesis using c by (intro ext) (simp add: sum.neutral)
qed

end
