(* ===== verification/Incidence.thy ===== *)
theory Incidence
  imports LinearAlgebra PetriNet
begin

text \<open>
  \<open>createTransitionEquation\<close> and \<open>Net::getIncidenceMatrix\<close> of \<open>src/Net/Net.cc\<close>: the rows of the incidence
  matrix, built in two reused arrays.  The arrays are shown to hold the exact difference of the pre and
  the post weights, except for the case in which the code compares with a cell it has not written.
\<close>

section \<open>createTransitionEquation\<close>

text \<open>The arrays \<open>variables\<close> and \<open>coefficients\<close> as one list of cells with the number of cells in use.
  \<open>behind\<close> is what lies in memory behind the arrays; the code reads it when an entry is removed while
  all cells are in use.\<close>

type_synonym equation = "(arrayindex_t \<times> int) list \<times> nat"

definition read_cell :: "arrayindex_t \<times> int \<Rightarrow> (arrayindex_t \<times> int) list \<Rightarrow> nat \<Rightarrow> arrayindex_t \<times> int" where
  "read_cell behind cells k = (if k < length cells then cells ! k else behind)"

definition pre_entry :: "arrayindex_t \<times> mult_t \<Rightarrow> equation \<Rightarrow> equation" where
  "pre_entry a e = ((fst e)[snd e := (fst a, uint (snd a))], snd e + 1)"

definition possiblePosition :: "arrayindex_t \<Rightarrow> equation \<Rightarrow> nat" where
  "possiblePosition pID e = length (takeWhile (\<lambda>x. fst x < pID) (take (snd e) (fst e)))"

definition post_entry :: "arrayindex_t \<times> int \<Rightarrow> arrayindex_t \<times> mult_t \<Rightarrow> equation \<Rightarrow> equation" where
  "post_entry behind a e =
     (let cells = fst e; n = snd e; k = possiblePosition (fst a) e; x = read_cell behind cells k
      in if fst x = fst a
         then (let cells1 = cells[k := (fst x, snd x - uint (snd a))]
               in if snd x - uint (snd a) = 0
                  then (take k cells1 @ take (n - k) (drop (k + 1) (cells1 @ [behind])) @ drop n cells1, n - 1)
                  else (cells1, n))
         else (take k cells @ [(fst a, - uint (snd a))] @ take (n - k) (drop k cells) @ drop (n + 1) cells, n + 1))"

definition createTransitionEquation ::
  "net \<Rightarrow> arrayindex_t \<times> int \<Rightarrow> node_t \<Rightarrow> arrayindex_t \<Rightarrow> (arrayindex_t \<times> int) list \<Rightarrow> equation" where
  "createTransitionEquation N behind ND t cells =
     fold (post_entry behind) (Arcs N ND POST ! t) (fold pre_entry (Arcs N ND PRE ! t) (cells, 0))"

section \<open>getIncidenceMatrix\<close>

definition incidence_row ::
  "net \<Rightarrow> arrayindex_t \<times> int \<Rightarrow> node_t \<Rightarrow> arrayindex_t \<Rightarrow> matrix \<times> (arrayindex_t \<times> int) list \<Rightarrow>
   (matrix \<times> (arrayindex_t \<times> int) list) result" where
  "incidence_row N behind ND t st =
     (let e = createTransitionEquation N behind ND t (snd st)
      in and_then (addRow (take (snd e) (fst e)) (fst st)) (\<lambda>m.
           Inr (m, replicate (snd e) (0, 0) @ drop (snd e) (fst e))))"

primrec incidence_rows ::
  "net \<Rightarrow> arrayindex_t \<times> int \<Rightarrow> node_t \<Rightarrow> arrayindex_t list \<Rightarrow> matrix \<times> (arrayindex_t \<times> int) list \<Rightarrow>
   (matrix \<times> (arrayindex_t \<times> int) list) result" where
  "incidence_rows N behind ND [] st = Inr st"
| "incidence_rows N behind ND (t # ts) st = and_then (incidence_row N behind ND t st) (incidence_rows N behind ND ts)"

definition getIncidenceMatrix :: "net \<Rightarrow> arrayindex_t \<times> int \<Rightarrow> node_t \<Rightarrow> matrix result" where
  "getIncidenceMatrix N behind line_type =
     (let ND = other_node line_type
      in and_then (incidence_rows N behind ND [0..<Card N ND]
           (new_matrix (Card N line_type), replicate (Card N line_type) (0, 0))) (\<lambda>st. Inr (fst st)))"

section \<open>The array operations as list operations\<close>

fun insert_entry :: "arrayindex_t \<Rightarrow> int \<Rightarrow> row \<Rightarrow> row" where
  "insert_entry p w [] = [(p, - w)]"
| "insert_entry p w ((v, c) # r) =
     (if v < p then (v, c) # insert_entry p w r
      else if v = p then (if c - w = 0 then r else (v, c - w) # r)
      else (p, - w) # (v, c) # r)"

lemma insert_entry_correct:
  assumes "row_wf r" "w \<noteq> 0"
  shows "row_wf (insert_entry p w r) \<and> fst ` set (insert_entry p w r) \<subseteq> insert p (fst ` set r) \<and>
    (\<forall>q. ent (insert_entry p w r) q = ent r q - (if q = p then w else 0))"
  using assms
proof (induction p w r rule: insert_entry.induct)
  case (2 p w v c r)
  consider (less) "v < p" | (equal) "v = p" | (greater) "p < v" by linarith
  then show ?case
  proof cases
    case less
    have ih: "row_wf (insert_entry p w r)" "fst ` set (insert_entry p w r) \<subseteq> insert p (fst ` set r)"
      "\<forall>q. ent (insert_entry p w r) q = ent r q - (if q = p then w else 0)"
      using 2(1) [OF less] 2(2,3) by auto
    have "v < u" if "u \<in> fst ` set (insert_entry p w r)" for u
      using subsetD [OF ih(2) that] 2(2) less unfolding row_wf_Cons by blast
    then have "row_wf ((v, c) # insert_entry p w r)" using ih(1) 2(2) by simp
    moreover have "fst ` set ((v, c) # insert_entry p w r) \<subseteq> insert p (fst ` set ((v, c) # r))" using ih(2) by auto
    ultimately show ?thesis using ih(3) less by simp
  next
    case equal
    have z: "ent r v = 0" using 2(2) by (intro ent_below [of r v v]) auto
    show ?thesis
    proof (cases "c - w = 0")
      case True
      then show ?thesis using 2(2) equal z by auto
    next
      case False
      then show ?thesis using 2(2) equal by auto
    qed
  next
    case greater
    have z: "ent r p = 0" using 2(2) greater by (intro ent_below [of r v p]) auto
    show ?thesis using 2(2,3) greater z by auto
  qed
qed simp

lemma takeWhile_split: "xs = takeWhile P xs @ dropWhile P xs"
  by simp

lemma insert_entry_split:
  "insert_entry p w r = takeWhile (\<lambda>x. fst x < p) r @
     (case dropWhile (\<lambda>x. fst x < p) r of
        [] \<Rightarrow> [(p, - w)]
      | (v, c) # s \<Rightarrow> if v = p then (if c - w = 0 then s else (v, c - w) # s) else (p, - w) # (v, c) # s)"
  by (induction p w r rule: insert_entry.induct) auto

text \<open>\<open>post_entry\<close> inserts, provided that the cells behind those in use do not hold the place by chance.\<close>

lemma post_entry_insert:
  assumes stale: "\<forall>x \<in> insert behind (set ys). fst x \<noteq> fst a \<or> takeWhile (\<lambda>x. fst x < fst a) xs \<noteq> xs"
    and room: "ys \<noteq> [] \<or> fst a \<in> fst ` set xs" and srt: "row_wf xs"
  shows "\<exists>ys'. post_entry behind a (xs @ ys, length xs) =
      (insert_entry (fst a) (uint (snd a)) xs @ ys', length (insert_entry (fst a) (uint (snd a)) xs)) \<and>
    set ys' \<subseteq> insert behind (set ys) \<and>
    length (insert_entry (fst a) (uint (snd a)) xs @ ys') = length (xs @ ys)"
proof -
  define p w where pw: "p = fst a" "w = uint (snd a)"
  define us vs where uv: "us = takeWhile (\<lambda>x. fst x < p) xs" "vs = dropWhile (\<lambda>x. fst x < p) xs"
  have xs: "xs = us @ vs" by (simp add: uv)
  have k: "possiblePosition p (xs @ ys, length xs) = length us" by (simp add: possiblePosition_def uv)
  note ins = insert_entry_split [of p w xs, folded uv]
  show ?thesis
  proof (cases vs)
    case Nil
    have all: "\<forall>x \<in> set xs. fst x < p" using Nil by (simp add: uv dropWhile_eq_Nil_conv)
    then have ne: "ys \<noteq> []" using room by (auto simp: pw)
    then obtain y ys1 where ys: "ys = y # ys1" by (cases ys) auto
    have "us = xs" using Nil xs by simp
    then have "read_cell behind (xs @ ys) (length us) = y" by (simp add: read_cell_def ys)
    moreover have "fst y \<noteq> p" using stale \<open>us = xs\<close> by (auto simp: ys uv pw)
    ultimately show ?thesis
      using Nil ins k by (intro exI [of _ ys1]) (auto simp: post_entry_def Let_def pw [symmetric] xs ys)
  next
    case (Cons x vs1)
    obtain v c where x: "x = (v, c)" by (cases x)
    have rd: "read_cell behind (xs @ ys) (length us) = (v, c)" by (simp add: read_cell_def xs Cons x)
    show ?thesis
    proof (cases "v = p")
      case False
      have "p \<notin> fst ` set xs"
      proof
        assume "p \<in> fst ` set xs"
        moreover have "fst u < p" if "u \<in> set us" for u using that by (auto simp: uv dest: set_takeWhileD)
        moreover have "set xs = set us \<union> set vs" by (subst xs) simp
        ultimately have "p \<in> fst ` set vs" by force
        moreover have "\<not> v < p"
          using hd_dropWhile [of "\<lambda>x. fst x < p" xs, folded uv] Cons x by simp
        moreover have "row_wf vs" using srt xs by (auto simp: row_wf_def sorted_wrt_append)
        ultimately show False using False Cons x by auto
      qed
      then obtain y ys1 where ys: "ys = y # ys1" using room by (cases ys) (auto simp: pw)
      show ?thesis
        using Cons ins k rd False by (intro exI [of _ ys1]) (auto simp: post_entry_def Let_def pw [symmetric] xs ys x)
    next
      case True
      show ?thesis
      proof (cases "c - w = 0")
        case nz: False
        then show ?thesis
          using Cons ins k rd True by (intro exI [of _ ys]) (auto simp: post_entry_def Let_def pw [symmetric] xs x list_update_append)
      next
        case z: True
        define y where "y = hd (ys @ [behind])"
        have y: "take (Suc (length vs1)) (vs1 @ ys @ [behind]) = vs1 @ [y]" by (cases ys) (simp_all add: y_def)
        have "set (y # ys) \<subseteq> insert behind (set ys)" by (cases ys) (auto simp: y_def)
        then show ?thesis
          using Cons ins k rd True z y by (intro exI [of _ "y # ys"])
            (auto simp: post_entry_def Let_def pw [symmetric] xs x list_update_append)
      qed
    qed
  qed
qed

section \<open>The equation of a node\<close>

text \<open>\<open>Arc\<close> lists in ascending order, as \<open>sortArcs\<close> leaves them.\<close>

definition sorted_arcs :: "net \<Rightarrow> node_t \<Rightarrow> bool" where
  "sorted_arcs N ND \<longleftrightarrow> (\<forall>t < Card N ND. \<forall>d. sorted_wrt (<) (Arc N ND d t))"

text \<open>No node without pre arcs has a post arc to node 0.\<close>

definition no_stale :: "net \<Rightarrow> node_t \<Rightarrow> bool" where
  "no_stale N ND \<longleftrightarrow> (\<forall>t < Card N ND. Arc N ND PRE t = [] \<longrightarrow> 0 \<notin> set (Arc N ND POST t))"

definition balance :: "net \<Rightarrow> node_t \<Rightarrow> arrayindex_t \<Rightarrow> arrayindex_t \<Rightarrow> int" where
  "balance N ND t q = int (weight_in (Arcs N ND PRE ! t) q) - int (weight_in (Arcs N ND POST ! t) q)"

lemma fold_pre_entry:
  "length xs + length as \<le> length (xs @ ys) \<Longrightarrow>
   fold pre_entry as (xs @ ys, length xs) =
     (xs @ map (\<lambda>a. (fst a, uint (snd a))) as @ drop (length as) ys, length xs + length as)"
proof (induction as arbitrary: xs ys)
  case (Cons a as)
  obtain y ys1 where ys: "ys = y # ys1" using Cons.prems by (cases ys) auto
  have "pre_entry a (xs @ ys, length xs) = ((xs @ [(fst a, uint (snd a))]) @ ys1, length (xs @ [(fst a, uint (snd a))]))"
    by (simp add: pre_entry_def ys)
  then show ?case using Cons.IH [of "xs @ [(fst a, uint (snd a))]" ys1] Cons.prems by (simp add: ys)
qed simp

lemma ent_pre: "ent (map (\<lambda>a. (fst a, uint (snd a))) as) q = int (weight_in as q)"
  by (induction as) auto

text \<open>\<open>L\<close> cells, those in use form a proper row, and the others hold 0 or what came from behind.\<close>

definition cells_ok :: "nat \<Rightarrow> arrayindex_t \<times> int \<Rightarrow> row \<Rightarrow> row \<Rightarrow> bool" where
  "cells_ok L behind xs ys \<longleftrightarrow> length (xs @ ys) = L \<and> row_wf xs \<and> (\<forall>v \<in> fst ` set xs. v < L) \<and>
     (\<forall>y \<in> set ys. fst y = 0 \<or> fst y = fst behind)"

lemma cells_room:
  assumes "cells_ok L behind xs ys" "p < L"
  shows "ys \<noteq> [] \<or> p \<in> fst ` set xs"
proof (rule disjCI)
  assume p: "p \<notin> fst ` set xs"
  have "fst ` set xs \<subseteq> {..<L} - {p}" using assms p by (auto simp: cells_ok_def)
  then have "card (fst ` set xs) \<le> card ({..<L} - {p})" by (rule card_mono [rotated]) simp
  moreover have "card (fst ` set xs) = length xs"
    using distinct_card [OF row_wf_distinct [of xs]] assms(1) by (simp add: cells_ok_def)
  ultimately have "length xs < L" using assms(2) by simp
  then show "ys \<noteq> []" using assms(1) by (auto simp: cells_ok_def)
qed

lemma post_entry_step:
  assumes c: "cells_ok L behind xs ys" and L: "L \<le> fst behind" and a: "fst a < L" "snd a \<noteq> 0"
    and stale: "fst a \<noteq> 0 \<or> xs \<noteq> []"
  shows "\<exists>xs' ys'. post_entry behind a (xs @ ys, length xs) = (xs' @ ys', length xs') \<and> cells_ok L behind xs' ys' \<and>
    (\<forall>q. ent xs' q = ent xs q - (if q = fst a then uint (snd a) else 0))"
proof -
  have st: "\<forall>x \<in> insert behind (set ys). fst x \<noteq> fst a \<or> takeWhile (\<lambda>x. fst x < fst a) xs \<noteq> xs"
  proof (cases "fst a = 0")
    case True
    then have "takeWhile (\<lambda>x. fst x < fst a) xs = []" by (cases xs) auto
    then show ?thesis using stale True by auto
  next
    case False
    then show ?thesis using c L a(1) by (auto simp: cells_ok_def)
  qed
  have nz: "uint (snd a) \<noteq> 0" using a(2) by (metis uint_0_iff)
  have wf: "row_wf xs" using c by (simp add: cells_ok_def)
  let ?xs = "insert_entry (fst a) (uint (snd a)) xs"
  obtain ys' where ys': "post_entry behind a (xs @ ys, length xs) = (?xs @ ys', length ?xs)"
    "set ys' \<subseteq> insert behind (set ys)" "length (?xs @ ys') = length (xs @ ys)"
    using post_entry_insert [OF st cells_room [OF c a(1)] wf] by blast
  have ins: "row_wf ?xs" "fst ` set ?xs \<subseteq> insert (fst a) (fst ` set xs)"
    "\<forall>q. ent ?xs q = ent xs q - (if q = fst a then uint (snd a) else 0)"
    using insert_entry_correct [OF wf nz] by blast+
  have "v < L" if "v \<in> fst ` set ?xs" for v
    using subsetD [OF ins(2) that] c a(1) unfolding cells_ok_def by blast
  moreover have "fst y = 0 \<or> fst y = fst behind" if "y \<in> set ys'" for y
    using subsetD [OF ys'(2) that] c unfolding cells_ok_def by blast
  ultimately have "cells_ok L behind ?xs ys'" using ys'(3) ins(1) c unfolding cells_ok_def by simp
  then show ?thesis using ys'(1) ins(3) by blast
qed

lemma fold_post_entry:
  assumes "cells_ok L behind xs ys" "L \<le> fst behind" "sorted_wrt (<) (map fst as)"
    and "\<forall>a \<in> set as. fst a < L \<and> snd a \<noteq> 0" "xs = [] \<longrightarrow> 0 \<notin> fst ` set as"
  shows "\<exists>xs' ys'. fold (post_entry behind) as (xs @ ys, length xs) = (xs' @ ys', length xs') \<and>
    cells_ok L behind xs' ys' \<and> (\<forall>q. ent xs' q = ent xs q - int (weight_in as q))"
  using assms
proof (induction as arbitrary: xs ys)
  case (Cons a as)
  have a: "fst a < L" "snd a \<noteq> 0" "fst a \<noteq> 0 \<or> xs \<noteq> []" using Cons.prems(4,5) by (auto simp: image_iff)
  obtain xs1 ys1 where s: "post_entry behind a (xs @ ys, length xs) = (xs1 @ ys1, length xs1)" "cells_ok L behind xs1 ys1"
    "\<forall>q. ent xs1 q = ent xs q - (if q = fst a then uint (snd a) else 0)"
    by (rule exE [OF post_entry_step [OF Cons.prems(1,2) a]]) (elim exE conjE, rule that)
  have above: "\<forall>b \<in> set as. fst a < fst b" using Cons.prems(3) by simp
  then have "0 \<notin> fst ` set as" by force
  then obtain xs' ys' where r: "fold (post_entry behind) as (xs1 @ ys1, length xs1) = (xs' @ ys', length xs')"
    "cells_ok L behind xs' ys'" "\<forall>q. ent xs' q = ent xs1 q - int (weight_in as q)"
    using Cons.IH [OF s(2) Cons.prems(2)] Cons.prems(3,4) by auto
  have "weight_in as (fst a) = 0" by (rule weight_in_notin) (use above in force)
  then have "ent xs' q = ent xs q - int (weight_in (a # as) q)" for q
    using r(3) s(3) by (cases a) auto
  then show ?case using s(1) r(1,2) by auto
qed auto

lemma createTransitionEquation_correct:
  assumes wf: "wf_net N" and t: "t < Card N ND" and srt: "sorted_arcs N ND" and st: "no_stale N ND"
    and L: "L = Card N (other_node ND)" "L \<le> fst behind"
    and cells: "length cells = L" "\<forall>y \<in> set cells. fst y = 0 \<or> fst y = fst behind"
  shows "\<exists>xs ys. createTransitionEquation N behind ND t cells = (xs @ ys, length xs) \<and> cells_ok L behind xs ys \<and>
    (\<forall>q. ent xs q = balance N ND t q)"
proof -
  let ?pre = "Arcs N ND PRE ! t" and ?post = "Arcs N ND POST ! t"
  let ?xs = "map (\<lambda>a. (fst a, uint (snd a))) ?pre"
  have arc: "fst a < L \<and> snd a \<noteq> 0" if "a \<in> set (Arcs N ND d ! t)" for a d
    using wf_net_arc [OF wf t, of "fst a" "snd a" d] that L(1) by simp
  have sorted: "sorted_wrt (<) (map fst (Arcs N ND d ! t))" for d
    using srt t by (simp add: sorted_arcs_def Arc_def)
  have nz: "uint w \<noteq> 0" if "w \<noteq> 0" for w :: mult_t using that by (metis uint_0_iff)
  have wfx: "row_wf ?xs" using sorted [of PRE] arc [of _ PRE] nz by (auto simp: row_wf_def comp_def)
  have vars: "\<forall>v \<in> fst ` set ?xs. v < L" using arc [of _ PRE] by auto
  have len: "length ?pre \<le> L"
  proof -
    have "card (set (map fst ?pre)) \<le> card {..<L}" using arc [of _ PRE] by (intro card_mono) auto
    then show ?thesis using sorted [of PRE] by (simp add: strict_sorted_iff distinct_card del: set_map)
  qed
  have pre: "fold pre_entry ?pre (cells, 0) = (?xs @ drop (length ?pre) cells, length ?xs)"
    using fold_pre_entry [of "[]" ?pre cells] len cells(1) by simp
  have ok: "cells_ok L behind ?xs (drop (length ?pre) cells)"
    using wfx vars len cells by (auto simp: cells_ok_def dest: in_set_dropD)
  have "?xs = [] \<longrightarrow> 0 \<notin> fst ` set ?post"
    using st t by (auto simp: no_stale_def Arc_def)
  with fold_post_entry [OF ok L(2) sorted [of POST]] arc [of _ POST] obtain xs' ys' where
    "fold (post_entry behind) ?post (?xs @ drop (length ?pre) cells, length ?xs) = (xs' @ ys', length xs')"
    "cells_ok L behind xs' ys'" "\<forall>q. ent xs' q = ent ?xs q - int (weight_in ?post q)"
    by blast
  then show ?thesis unfolding createTransitionEquation_def pre balance_def by (auto simp: ent_pre)
qed

section \<open>The incidence matrix\<close>

text \<open>The matrix holds the equations of the nodes done so far, and nothing else.\<close>

definition holds_rows :: "net \<Rightarrow> node_t \<Rightarrow> arrayindex_t list \<Rightarrow> matrix \<Rightarrow> bool" where
  "holds_rows N ND ts m \<longleftrightarrow>
     (\<forall>t \<in> set ts. \<exists>r. (r = [] \<or> r \<in> all_rows m) \<and> (\<forall>q. ent r q = balance N ND t q)) \<and>
     (\<forall>r \<in> all_rows m. \<exists>t \<in> set ts. \<forall>q. ent r q = balance N ND t q)"

lemma incidence_row_correct:
  assumes wf: "wf_net N" "sorted_arcs N ND" "no_stale N ND" and t: "t < Card N ND"
    and L: "L = Card N (other_node ND)" "L \<le> fst behind"
    and cells: "length cells = L" "\<forall>y \<in> set cells. fst y = 0 \<or> fst y = fst behind"
    and m: "mat_ok m" "colCount m = L" "holds_rows N ND ts m"
  shows "\<exists>m' cells'. incidence_row N behind ND t (m, cells) = Inr (m', cells') \<and>
    length cells' = L \<and> (\<forall>y \<in> set cells'. fst y = 0 \<or> fst y = fst behind) \<and>
    mat_ok m' \<and> colCount m' = L \<and> significantColCount m' = significantColCount m \<and> holds_rows N ND (ts @ [t]) m'"
proof -
  obtain xs ys where e: "createTransitionEquation N behind ND t cells = (xs @ ys, length xs)" "cells_ok L behind xs ys"
    "\<forall>q. ent xs q = balance N ND t q"
    using createTransitionEquation_correct [OF wf(1) t wf(2,3) L cells] by blast
  let ?cells = "replicate (length xs) (0, 0) @ ys"
  have c: "length ?cells = L" "\<forall>y \<in> set ?cells. fst y = 0 \<or> fst y = fst behind"
    using e(2) by (auto simp: cells_ok_def)
  have row: "incidence_row N behind ND t (m, cells) = and_then (addRow xs m) (\<lambda>m. Inr (m, ?cells))"
    by (simp add: incidence_row_def e(1))
  show ?thesis
  proof (cases "xs = []")
    case True
    then have "holds_rows N ND (ts @ [t]) m" using m(3) e(3) by (auto simp: holds_rows_def)
    then show ?thesis using row True c m by (auto simp: addRow_def)
  next
    case False
    have "row_in (colCount m) (fst (hd xs)) xs" using False e(2) m(2) by (simp add: row_in_def cells_ok_def)
    from addRow_correct [OF m(1) this] obtain m' where m': "addRow xs m = Inr m'" "mat_ok m'"
      "colCount m' = colCount m" "significantColCount m' = significantColCount m" "all_rows m' = insert xs (all_rows m)"
      by blast
    have "holds_rows N ND (ts @ [t]) m'" using m(3) e(3) m'(5) by (auto simp: holds_rows_def)
    then show ?thesis using row m' c m(2) by auto
  qed
qed

lemma incidence_rows_correct:
  assumes wf: "wf_net N" "sorted_arcs N ND" "no_stale N ND" and L: "L = Card N (other_node ND)" "L \<le> fst behind"
    and "\<forall>t \<in> set ts. t < Card N ND"
    and "length cells = L" "\<forall>y \<in> set cells. fst y = 0 \<or> fst y = fst behind"
    and "mat_ok m" "colCount m = L" "holds_rows N ND us m"
  shows "\<exists>m' cells'. incidence_rows N behind ND ts (m, cells) = Inr (m', cells') \<and> mat_ok m' \<and> colCount m' = L \<and>
    significantColCount m' = significantColCount m \<and> holds_rows N ND (us @ ts) m'"
  using assms(6-)
proof (induction ts arbitrary: m cells us)
  case (Cons t ts)
  obtain m1 cells1 where s: "incidence_row N behind ND t (m, cells) = Inr (m1, cells1)" "length cells1 = L"
    "\<forall>y \<in> set cells1. fst y = 0 \<or> fst y = fst behind" "mat_ok m1" "colCount m1 = L"
    "significantColCount m1 = significantColCount m" "holds_rows N ND (us @ [t]) m1"
    using incidence_row_correct [OF wf _ L Cons.prems(2-6), of t] Cons.prems(1) by auto
  from Cons.IH [OF _ s(2-5,7)] Cons.prems(1) s(1,6) show ?case by auto
qed auto

theorem getIncidenceMatrix_correct:
  assumes wf: "wf_net N" "sorted_arcs N (other_node ty)" "no_stale N (other_node ty)" and L: "Card N ty \<le> fst behind"
  shows "\<exists>m. getIncidenceMatrix N behind ty = Inr m \<and> mat_ok m \<and> colCount m = Card N ty \<and>
    significantColCount m = 0 \<and> holds_rows N (other_node ty) [0..<Card N (other_node ty)] m"
proof -
  let ?m = "new_matrix (Card N ty)" and ?cells = "replicate (Card N ty) (0, 0)"
  have new: "mat_ok ?m" "colCount ?m = Card N ty" "all_rows ?m = {}"
    by (simp_all add: new_matrix_def mat_ok_def all_rows_def)
  have "\<exists>m' cells'. incidence_rows N behind (other_node ty) [0..<Card N (other_node ty)] (?m, ?cells) = Inr (m', cells') \<and>
      mat_ok m' \<and> colCount m' = Card N ty \<and> significantColCount m' = significantColCount ?m \<and>
      holds_rows N (other_node ty) ([] @ [0..<Card N (other_node ty)]) m'"
    using new by (intro incidence_rows_correct [OF wf _ L]) (auto simp: holds_rows_def)
  then show ?thesis by (auto simp: getIncidenceMatrix_def Let_def new_matrix_def)
qed

end
