(* ===== verification/Significant.thy ===== *)
theory Significant
  imports Incidence Firing Preprocess
begin

text \<open>
  \<open>Net::swapPlaces\<close> and \<open>Net::setSignificantPlaces\<close> of \<open>src/Net/Net.cc\<close>.  The pivot columns of the reduced
  incidence matrix determine every reachable marking; exchanging two places renames the net; and the
  loop of \<open>setSignificantPlaces\<close> moves the pivot places to the front.
\<close>

section \<open>The data of the places\<close>

text \<open>\<open>marking_current\<close> is \<open>Marking::Current\<close>, which need not be allocated yet.  Place names and the symbol
  table are left out.\<close>

record place_data =
  place_hash :: "hash_t list"
  place_capacity :: "capacity_t list"
  place_cardbits :: "cardbit_t list"
  marking_initial :: "capacity_t list"
  marking_current :: "capacity_t list option"

record net_data =
  the_net :: net
  the_trans :: transition_data
  the_places :: place_data

section \<open>swapPlaces\<close>

definition rename_arcs :: "arrayindex_t \<Rightarrow> arrayindex_t \<Rightarrow> (arrayindex_t \<times> mult_t) list \<Rightarrow> (arrayindex_t \<times> mult_t) list" where
  "rename_arcs a b = map (\<lambda>(q, w). (if q = a then b else q, w))"

text \<open>One run over the environment of a place: \<open>ts\<close> are its transitions, \<open>a\<close> is overwritten with \<open>b\<close> in
  their lists of the other direction.\<close>

definition redirect ::
  "(direction_t \<Rightarrow> arrayindex_t list) \<Rightarrow> arrayindex_t \<Rightarrow> arrayindex_t \<Rightarrow>
   (direction_t \<Rightarrow> (arrayindex_t \<times> mult_t) list list) \<Rightarrow> direction_t \<Rightarrow> (arrayindex_t \<times> mult_t) list list" where
  "redirect ts a b A =
     fold (\<lambda>d A. fold (\<lambda>t A. A(other_direction d := (A (other_direction d))[t := rename_arcs a b (A (other_direction d) ! t)]))
        (ts d) A) [PRE, POST] A"

text \<open>The three runs; the information on \<open>left\<close> is at index \<open>right\<close> already.\<close>

definition swap_references ::
  "net \<Rightarrow> arrayindex_t \<Rightarrow> arrayindex_t \<Rightarrow> (direction_t \<Rightarrow> (arrayindex_t \<times> mult_t) list list) \<Rightarrow>
   direction_t \<Rightarrow> (arrayindex_t \<times> mult_t) list list" where
  "swap_references N1 left right A =
     redirect (\<lambda>d. Arc N1 PL d right) (Card N1 PL) right
       (redirect (\<lambda>d. Arc N1 PL d left) right left
         (redirect (\<lambda>d. Arc N1 PL d right) left (Card N1 PL) A))"

definition swap_place_data :: "arrayindex_t \<Rightarrow> arrayindex_t \<Rightarrow> place_data \<Rightarrow> place_data" where
  "swap_place_data l r P =
     \<lparr>place_hash = swap_at (place_hash P) l r, place_capacity = swap_at (place_capacity P) l r,
      place_cardbits = swap_at (place_cardbits P) l r, marking_initial = swap_at (marking_initial P) l r,
      marking_current = map_option (\<lambda>m. swap_at m l r) (marking_current P)\<rparr>"

definition swapPlaces :: "arrayindex_t \<Rightarrow> arrayindex_t \<Rightarrow> net_data \<Rightarrow> net_data" where
  "swapPlaces left right D =
     (let N = the_net D;
          N1 = N\<lparr>Arcs := (Arcs N)(PL := (\<lambda>d. swap_at (Arcs N PL d) left right))\<rparr>;
          N2 = N1\<lparr>Arcs := (Arcs N1)(TR := swap_references N1 left right (Arcs N1 TR))\<rparr>;
          T = the_trans D
      in \<lparr>the_net = N2, the_trans = T\<lparr>DeltaT := swap_references N2 left right (DeltaT T)\<rparr>,
          the_places = swap_place_data left right (the_places D)\<rparr>)"

section \<open>setSignificantPlaces\<close>

fun last_significant :: "matrix \<Rightarrow> nat \<Rightarrow> nat" where
  "last_significant m 0 = 0"
| "last_significant m (Suc k) = (if isSignificant m (Suc k) then Suc k else last_significant m k)"

text \<open>The loop over \<open>p\<close>; the second component is \<open>lastSignificant\<close>.\<close>

definition place_step :: "matrix \<Rightarrow> arrayindex_t \<Rightarrow> net_data \<times> nat \<Rightarrow> net_data \<times> nat" where
  "place_step m p st =
     (if isSignificant m p then st
      else (let l = last_significant m (snd st) in (swapPlaces p l (fst st), l - 1)))"

text \<open>The result with \<open>CardSignificant\<close> and \<open>SizeOfBitVector\<close>; for fewer than two places the latter keeps
  its value.\<close>

definition setSignificantPlaces ::
  "arrayindex_t \<times> int \<Rightarrow> nat \<Rightarrow> net_data \<Rightarrow> (net_data \<times> nat \<times> nat) result" where
  "setSignificantPlaces behind SizeOfBitVector D =
     (if Card (the_net D) PL < 2 then Inr (D, Card (the_net D) PL, SizeOfBitVector)
      else and_then (getIncidenceMatrix (the_net D) behind PL) (\<lambda>m0.
           and_then (reduce m0) (\<lambda>m.
             let cs = getSignificantColCount m;
                 D1 = fst (fold (place_step m) [0..<cs] (D, Card (the_net D) PL - 1))
             in Inr (D1, cs, sum_list (take cs (place_cardbits (the_places D1)))))))"

section \<open>The pivot places determine the marking\<close>

lemma balance_weight: "balance N TR t q = int (weight N PRE t q) - int (weight N POST t q)"
  by (simp add: balance_def weight_def)

lemma reach_rspan:
  assumes reach: "net_reach N M M'" and h: "holds_rows N TR [0..<Card N TR] m"
  shows "(\<lambda>p. of_int (int (M' p) - int (M p))) \<in> rspan (all_rows m)"
  using reach
proof (induction rule: net_reach.induct)
  case reach_refl
  then show ?case by (simp add: rspan_zero)
next
  case (reach_step M1 M2)
  from reach_step(2) obtain t where t: "t < Card N TR" "enabled_at N M1 t" "M2 = fire_at N t M1"
    by (auto elim: net_stepE)
  obtain r where r: "r = [] \<or> r \<in> all_rows m" "\<forall>q. ent r q = balance N TR t q"
    using h t(1) unfolding holds_rows_def by (metis atLeastLessThan_iff le0 set_upt)
  have "row_vec r \<in> rspan (all_rows m)" using r(1) by (auto intro: rspan_row simp: rspan_zero)
  from rspan_add [OF rspan_scale [OF this, of "- 1"] reach_step(3)]
  have "(\<lambda>p. of_int (int (M1 p) - int (M p)) + (- 1) * of_int (ent r p)) \<in> rspan (all_rows m)" .
  moreover have "(\<lambda>p. of_int (int (M1 p) - int (M p)) + (- 1) * of_int (ent r p)) =
      (\<lambda>p. of_int (int (M2 p) - int (M p)) :: rat)"
  proof
    fix p
    have "weight N PRE t p \<le> M1 p" using t(2) by (simp add: enabled_at_def)
    then have "int (M2 p) = int (M1 p) - balance N TR t p" by (simp add: t(3) fire_at_def balance_weight)
    then show "of_int (int (M1 p) - int (M p)) + (- 1) * of_int (ent r p) = (of_int (int (M2 p) - int (M p)) :: rat)"
      using r(2) by simp
  qed
  ultimately show ?case by (simp only:)
qed

theorem pivots_determine:
  assumes m: "mat_ok m0" "holds_rows N TR [0..<Card N TR] m0" and r: "mat_ok m" "same_space m0 m" "reduced_from 0 m"
    and reach: "net_reach N M0 M" "net_reach N M0 M'"
    and agree: "\<forall>p < colCount m. isSignificant m p \<longrightarrow> M p = M' p"
  shows "M = M'"
proof -
  let ?d = "\<lambda>M p. (of_int (int (M p) - int (M0 p)) :: rat)"
  have "(\<lambda>p. ?d M p + (- 1) * ?d M' p) \<in> rspan (all_rows m0)"
    by (rule rspan_add [OF rspan_scale [OF reach_rspan [OF reach(2) m(2)]] reach_rspan [OF reach(1) m(2)]])
  then have "(\<lambda>p. ?d M p + (- 1) * ?d M' p) \<in> rspan (all_rows m)" using same_space_rspan [OF r(2)] by simp
  from triangular_zero [OF r(1,3) this] have "(\<lambda>p. ?d M p + (- 1) * ?d M' p) = (\<lambda>p. 0)" using agree by simp
  then have "?d M p + (- 1) * ?d M' p = 0" for p by (rule fun_cong)
  then have "M p = M' p" for p
  proof -
    have "(of_int (int (M p)) :: rat) = of_int (int (M' p))"
      using \<open>\<And>p. ?d M p + (- 1) * ?d M' p = 0\<close> [of p] by simp
    then show ?thesis by simp
  qed
  then show ?thesis by blast
qed

section \<open>Renaming places\<close>

text \<open>\<open>f\<close> maps old to new place indices.\<close>

definition renames :: "nat \<Rightarrow> (arrayindex_t \<Rightarrow> arrayindex_t) \<Rightarrow> bool" where
  "renames n f \<longleftrightarrow> bij f \<and> (\<forall>p. f p < n \<longleftrightarrow> p < n)"

definition renamed_list :: "nat \<Rightarrow> (arrayindex_t \<Rightarrow> arrayindex_t) \<Rightarrow> 'a list \<Rightarrow> 'a list \<Rightarrow> bool" where
  "renamed_list n f xs ys \<longleftrightarrow> length xs = n \<and> length ys = n \<and> (\<forall>p < n. ys ! f p = xs ! p)"

definition renamed_arcs ::
  "(arrayindex_t \<Rightarrow> arrayindex_t) \<Rightarrow> (direction_t \<Rightarrow> (arrayindex_t \<times> mult_t) list list) \<Rightarrow>
   (direction_t \<Rightarrow> (arrayindex_t \<times> mult_t) list list) \<Rightarrow> bool" where
  "renamed_arcs f A B \<longleftrightarrow> (\<forall>d. B d = map (map (apfst f)) (A d))"

definition renamed_net :: "(arrayindex_t \<Rightarrow> arrayindex_t) \<Rightarrow> net \<Rightarrow> net \<Rightarrow> bool" where
  "renamed_net f N N' \<longleftrightarrow> renames (Card N PL) f \<and> Card N' = Card N \<and> renamed_arcs f (Arcs N TR) (Arcs N' TR) \<and>
     (\<forall>d. renamed_list (Card N PL) f (Arcs N PL d) (Arcs N' PL d))"

definition renamed_data :: "(arrayindex_t \<Rightarrow> arrayindex_t) \<Rightarrow> net_data \<Rightarrow> net_data \<Rightarrow> bool" where
  "renamed_data f D D' \<longleftrightarrow>
     renamed_net f (the_net D) (the_net D') \<and>
     renamed_arcs f (DeltaT (the_trans D)) (DeltaT (the_trans D')) \<and>
     DeltaHash (the_trans D') = DeltaHash (the_trans D) \<and>
     (let n = Card (the_net D) PL; P = the_places D; P' = the_places D'
      in renamed_list n f (place_hash P) (place_hash P') \<and> renamed_list n f (place_capacity P) (place_capacity P') \<and>
         renamed_list n f (place_cardbits P) (place_cardbits P') \<and> renamed_list n f (marking_initial P) (marking_initial P') \<and>
         rel_option (renamed_list n f) (marking_current P) (marking_current P'))"

lemma renames_id: "renames n id"
  by (simp add: renames_def)

lemma renames_comp: "renames n f \<Longrightarrow> renames n g \<Longrightarrow> renames n (g \<circ> f)"
  by (auto simp: renames_def intro: bij_comp)

lemma renamed_list_id: "length xs = n \<Longrightarrow> renamed_list n id xs xs"
  by (simp add: renamed_list_def)

lemma renamed_list_comp:
  "renamed_list n f xs ys \<Longrightarrow> renamed_list n g ys zs \<Longrightarrow> renames n f \<Longrightarrow> renamed_list n (g \<circ> f) xs zs"
  by (simp add: renamed_list_def renames_def)

lemma renamed_arcs_id: "renamed_arcs id A A"
  by (simp add: renamed_arcs_def apfst_id list.map_id0)

lemma renamed_arcs_comp: "renamed_arcs f A B \<Longrightarrow> renamed_arcs g B C \<Longrightarrow> renamed_arcs (g \<circ> f) A C"
  by (simp add: renamed_arcs_def comp_def apfst_compose)

lemma renamed_net_comp: "renamed_net f N N1 \<Longrightarrow> renamed_net g N1 N2 \<Longrightarrow> renamed_net (g \<circ> f) N N2"
  unfolding renamed_net_def using renames_comp renamed_arcs_comp renamed_list_comp by metis

lemma renamed_data_comp:
  assumes "renamed_data f D D1" "renamed_data g D1 D2"
  shows "renamed_data (g \<circ> f) D D2"
proof -
  have "Card (the_net D1) = Card (the_net D)" "renames (Card (the_net D) PL) f"
    using assms(1) by (simp_all add: renamed_data_def renamed_net_def)
  moreover then have "rel_option (renamed_list n (g \<circ> f)) x z"
    if "rel_option (renamed_list n f) x y" "rel_option (renamed_list n g) y z" "n = Card (the_net D) PL"
    for n and x y z :: "capacity_t list option"
    using that renamed_list_comp by (auto simp: option_rel_Some2 rel_option_iff split: option.splits)
  ultimately show ?thesis
    using assms unfolding renamed_data_def Let_def by (auto intro: renamed_net_comp renamed_arcs_comp renamed_list_comp)
qed

section \<open>A swap renames\<close>

definition swap_index :: "arrayindex_t \<Rightarrow> arrayindex_t \<Rightarrow> arrayindex_t \<Rightarrow> arrayindex_t" where
  "swap_index l r p = (if p = l then r else if p = r then l else p)"

lemma swap_index_invol [simp]: "swap_index l r (swap_index l r p) = p"
  by (simp add: swap_index_def)

lemma renames_swap: "l < n \<Longrightarrow> r < n \<Longrightarrow> renames n (swap_index l r)"
  by (auto simp: renames_def swap_index_def intro!: o_bij [of "swap_index l r"] simp flip: swap_index_def)
    (auto simp: swap_index_def split: if_splits)

lemma renamed_list_swap: "length xs = n \<Longrightarrow> l < n \<Longrightarrow> r < n \<Longrightarrow> renamed_list n (swap_index l r) xs (swap_at xs l r)"
  by (auto simp: renamed_list_def swap_index_def nth_swap_at)

lemma rename_arcs_apfst: "rename_arcs a b xs = map (apfst (\<lambda>q. if q = a then b else q)) xs"
  by (auto simp: rename_arcs_def)

lemma rename_arcs_absent: "a \<notin> fst ` set xs \<Longrightarrow> rename_arcs a b xs = xs"
  unfolding rename_arcs_def by (rule map_idI) force

lemma rename_arcs_twice: "a \<noteq> b \<Longrightarrow> rename_arcs a b (rename_arcs a b xs) = rename_arcs a b xs"
  by (auto simp: rename_arcs_def)

lemma fold_rename:
  assumes "a \<noteq> b"
  shows "length (fold (\<lambda>t X. X[t := rename_arcs a b (X ! t)]) ts X) = length X \<and>
    (t < length X \<longrightarrow> fold (\<lambda>t X. X[t := rename_arcs a b (X ! t)]) ts X ! t =
       (if t \<in> set ts then rename_arcs a b (X ! t) else X ! t))"
proof (induction ts arbitrary: X)
  case (Cons u ts)
  then show ?case using rename_arcs_twice [OF assms] by (auto simp: nth_update_if)
qed simp

lemma fold_redirect:
  "fold (\<lambda>t A. A(d := (A d)[t := rename_arcs a b (A d ! t)])) ts A =
     A(d := fold (\<lambda>t X. X[t := rename_arcs a b (X ! t)]) ts (A d))"
  by (induction ts arbitrary: A) auto

lemma redirect_at: "redirect ts a b A d = fold (\<lambda>t X. X[t := rename_arcs a b (X ! t)]) (ts (other_direction d)) (A d)"
  by (cases d) (simp_all add: redirect_def fold_redirect)

text \<open>A run reaches every list in which \<open>a\<close> occurs, so it acts as a renaming.\<close>

lemma redirect_renames:
  assumes ab: "a \<noteq> b" and reach: "\<And>t. t < length (A d) \<Longrightarrow> a \<in> fst ` set (A d ! t) \<Longrightarrow> t \<in> set (ts (other_direction d))"
  shows "redirect ts a b A d = map (map (apfst (\<lambda>q. if q = a then b else q))) (A d)"
proof (rule nth_equalityI)
  show "length (redirect ts a b A d) = length (map (map (apfst (\<lambda>q. if q = a then b else q))) (A d))"
    using fold_rename [OF ab] by (simp add: redirect_at)
next
  fix t
  assume "t < length (redirect ts a b A d)"
  then have t: "t < length (A d)" using fold_rename [OF ab, of "ts (other_direction d)" "A d"] by (simp add: redirect_at)
  then have "redirect ts a b A d ! t = rename_arcs a b (A d ! t)"
    using fold_rename [OF ab, of "ts (other_direction d)" "A d" t] reach [OF t] rename_arcs_absent [of a "A d ! t" b]
    unfolding redirect_at by presburger
  then show "redirect ts a b A d ! t = map (map (apfst (\<lambda>q. if q = a then b else q))) (A d) ! t"
    using t by (simp add: rename_arcs_apfst)
qed

text \<open>What the arc lists of transitions have to satisfy: their places exist, and know the transition.\<close>

definition arcs_known :: "net \<Rightarrow> (direction_t \<Rightarrow> (arrayindex_t \<times> mult_t) list list) \<Rightarrow> bool" where
  "arcs_known N A \<longleftrightarrow> (\<forall>d t q. t < length (A d) \<and> q \<in> fst ` set (A d ! t) \<longrightarrow>
     q < Card N PL \<and> t \<in> set (Arc N PL (other_direction d) q))"

lemma in_fst_map_apfst: "q \<in> fst ` set (map (apfst f) xs) \<longleftrightarrow> (\<exists>p \<in> fst ` set xs. q = f p)"
  by force

lemma swap_references_renames:
  assumes known: "arcs_known N A" and lr: "left < Card N PL" "right < Card N PL" "left \<noteq> right"
    and N1: "Card N1 = Card N" "\<And>d. Arcs N1 PL d = swap_at (Arcs N PL d) left right"
    and len: "\<And>d. length (Arcs N PL d) = Card N PL"
  shows "renamed_arcs (swap_index left right) A (swap_references N1 left right A)"
  unfolding renamed_arcs_def
proof
  fix d
  let ?C = "Card N PL"
  have arc: "Arc N1 PL d' right = Arc N PL d' left" "Arc N1 PL d' left = Arc N PL d' right" for d'
    using lr len by (simp_all add: Arc_def N1(2) nth_swap_at)
  have q: "q < ?C" "t \<in> set (Arc N PL (other_direction d) q)" if "t < length (A d)" "q \<in> fst ` set (A d ! t)" for t q
    using known that unfolding arcs_known_def by blast+
  let ?f = "\<lambda>q. if q = left then ?C else q" and ?g = "\<lambda>q. if q = right then left else q" and ?h = "\<lambda>q. if q = ?C then right else q"
  let ?A1 = "redirect (\<lambda>d. Arc N1 PL d right) left ?C A"
  let ?A2 = "redirect (\<lambda>d. Arc N1 PL d left) right left ?A1"
  have 1: "?A1 d = map (map (apfst ?f)) (A d)"
    using lr(1) q by (intro redirect_renames) (auto simp: arc)
  have 2: "?A2 d = map (map (apfst ?g)) (?A1 d)"
  proof (rule redirect_renames)
    show "right \<noteq> left" using lr(3) by simp
    fix t
    assume "t < length (?A1 d)" "right \<in> fst ` set (?A1 d ! t)"
    then have t: "t < length (A d)" and "right \<in> fst ` set (map (apfst ?f) (A d ! t))" by (simp_all add: 1)
    then have "right \<in> fst ` set (A d ! t)" using lr(2) by (subst (asm) in_fst_map_apfst) (auto split: if_splits)
    then show "t \<in> set (Arc N1 PL (other_direction d) left)" using q(2) [OF t] arc by simp
  qed
  have 3: "redirect (\<lambda>d. Arc N1 PL d right) ?C right ?A2 d = map (map (apfst ?h)) (?A2 d)"
  proof (rule redirect_renames)
    show "?C \<noteq> right" using lr(2) by simp
    fix t
    assume "t < length (?A2 d)" "?C \<in> fst ` set (?A2 d ! t)"
    then have t: "t < length (A d)" and "?C \<in> fst ` set (map (apfst ?g) (map (apfst ?f) (A d ! t)))" by (simp_all add: 1 2)
    from this(2) obtain p1 where p1: "p1 \<in> fst ` set (map (apfst ?f) (A d ! t))" "?C = ?g p1"
      by (rule in_fst_map_apfst [THEN iffD1, THEN bexE])
    from p1(1) obtain p where p: "p \<in> fst ` set (A d ! t)" "p1 = ?f p"
      by (rule in_fst_map_apfst [THEN iffD1, THEN bexE])
    have "p = left" using q(1) [OF t p(1)] lr p1(2) p(2) by (auto split: if_splits)
    then show "t \<in> set (Arc N1 PL (other_direction d) right)" using q(2) [OF t p(1)] arc by simp
  qed
  have "swap_references N1 left right A d = map (map (apfst ?h)) (map (map (apfst ?g)) (map (map (apfst ?f)) (A d)))"
    by (simp only: swap_references_def N1(1) 3 2 1)
  also have "\<dots> = map (map (apfst ?h \<circ> (apfst ?g \<circ> apfst ?f))) (A d)" by (simp add: comp_def)
  also have "\<dots> = map (map (apfst (swap_index left right))) (A d)"
  proof (rule map_cong [OF refl], rule map_cong [OF refl])
    fix xs x
    assume xs: "xs \<in> set (A d)" "x \<in> set xs"
    then obtain t where t: "t < length (A d)" "A d ! t = xs" by (auto simp: in_set_conv_nth)
    then have "fst x < ?C" using q(1) [OF t(1), of "fst x"] xs(2) by blast
    then show "(apfst ?h \<circ> (apfst ?g \<circ> apfst ?f)) x = apfst (swap_index left right) x"
      using lr by (cases x) (auto simp: swap_index_def)
  qed
  finally show "swap_references N1 left right A d = map (map (apfst (swap_index left right))) (A d)" .
qed

section \<open>Renaming keeps what the preprocessing has established\<close>

definition data_ok :: "net_data \<Rightarrow> bool" where
  "data_ok D \<longleftrightarrow> wf_net (the_net D) \<and> arcs_known (the_net D) (DeltaT (the_trans D)) \<and>
     (let n = Card (the_net D) PL; P = the_places D
      in length (place_hash P) = n \<and> length (place_capacity P) = n \<and> length (place_cardbits P) = n \<and>
         length (marking_initial P) = n \<and> pred_option (\<lambda>m. length m = n) (marking_current P))"

lemma wf_arcs_known: "wf_net N \<Longrightarrow> arcs_known N (Arcs N TR)"
  unfolding arcs_known_def
proof (intro allI impI, elim conjE)
  fix d t q
  assume wf: "wf_net N" and t: "t < length (Arcs N TR d)" and q: "q \<in> fst ` set (Arcs N TR d ! t)"
  have t': "t < Card N TR" using wf t by (simp add: wf_net_def)
  have q': "q \<in> set (Arc N TR d t)" using q by (simp add: Arc_def)
  show "q < Card N PL \<and> t \<in> set (Arc N PL (other_direction d) q)"
    using wf_net_Arc_less [OF wf t' q'] wf_net_Arc_dual [OF wf t' q'] by simp
qed

lemma renamed_netD:
  assumes "renamed_net f N N'"
  shows "bij f" "\<And>p. f p < Card N PL \<longleftrightarrow> p < Card N PL" "Card N' = Card N"
    "\<And>d. Arcs N' TR d = map (map (apfst f)) (Arcs N TR d)"
    "\<And>d p. p < Card N PL \<Longrightarrow> Arcs N' PL d ! f p = Arcs N PL d ! p"
    "\<And>d. length (Arcs N PL d) = Card N PL" "\<And>d. length (Arcs N' PL d) = Card N PL"
  using assms by (auto simp: renamed_net_def renames_def renamed_list_def renamed_arcs_def)

lemma renamed_place:
  assumes "renamed_net f N N'" "p' < Card N PL"
  shows "\<exists>p < Card N PL. p' = f p"
  using renamed_netD(1,2) [OF assms(1)] assms(2) by (metis bij_pointE)

lemma renamed_wf:
  assumes r: "renamed_net f N N'" and wf: "wf_net N"
  shows "wf_net N'"
proof -
  note R = renamed_netD [OF r]
  have lenT: "length (Arcs N TR d) = Card N TR" for d using wf by (simp add: wf_net_def)
  have arcT: "Arcs N' TR d ! t = map (apfst f) (Arcs N TR d ! t)" if "t < Card N TR" for d t
    using that by (simp add: R(4) lenT)
  have len: "length (Arcs N' ty d) = Card N' ty" for ty d by (cases ty) (simp_all add: R(3,4,7) lenT)
  have dist: "distinct (Arc N' ty d n)" if n: "n < Card N' ty" for ty d n
  proof (cases ty)
    case PL
    obtain p where p: "p < Card N PL" "n = f p" using renamed_place [OF r] n PL R(3) by auto
    then have "Arc N' ty d n = Arc N PL d p" using R(5) PL by (simp add: Arc_def)
    then show ?thesis using wf_net_distinct [OF wf p(1)] by simp
  next
    case TR
    then have "n < Card N TR" using n R(3) by simp
    then have "Arc N' ty d n = map f (Arc N TR d n)" using TR by (simp add: Arc_def arcT comp_def)
    then show ?thesis
      using wf_net_distinct [OF wf \<open>n < Card N TR\<close>, of d] inj_on_subset [OF bij_is_inj [OF R(1)] subset_UNIV]
      by (simp add: distinct_map)
  qed
  have dual: "x < Card N' (other_node ty) \<and> w \<noteq> 0 \<and> (n, w) \<in> set (Arcs N' (other_node ty) (other_direction d) ! x)"
    if n: "n < Card N' ty" and m: "(x, w) \<in> set (Arcs N' ty d ! n)" for ty d n x w
  proof (cases ty)
    case PL
    obtain p where p: "p < Card N PL" "n = f p" using renamed_place [OF r] n PL R(3) by auto
    then have "(x, w) \<in> set (Arcs N PL d ! p)" using m R(5) PL by simp
    from wf_net_arc [OF wf p(1) this] have "x < Card N TR" "w \<noteq> 0" "(p, w) \<in> set (Arcs N TR (other_direction d) ! x)" by auto
    then show ?thesis using PL p(2) R(3) arcT [of x "other_direction d"] by force
  next
    case TR
    then have t: "n < Card N TR" using n R(3) by simp
    then obtain p where p: "(p, w) \<in> set (Arcs N TR d ! n)" "x = f p" using m TR by (auto simp: arcT)
    from wf_net_arc [OF wf t p(1)] have "p < Card N PL" "w \<noteq> 0" "(n, w) \<in> set (Arcs N PL (other_direction d) ! p)" by auto
    then show ?thesis using TR p(2) R(2,3,5) by simp
  qed
  show ?thesis unfolding wf_net_def using len dist dual by blast
qed

lemma renamed_known:
  assumes r: "renamed_net f N N'" and a: "renamed_arcs f A A'" and k: "arcs_known N A"
  shows "arcs_known N' A'"
  unfolding arcs_known_def
proof (intro allI impI, elim conjE)
  fix d t q
  assume t: "t < length (A' d)" and q: "q \<in> fst ` set (A' d ! t)"
  have t': "t < length (A d)" "A' d ! t = map (apfst f) (A d ! t)" using t a by (auto simp: renamed_arcs_def)
  then obtain p where p: "p \<in> fst ` set (A d ! t)" "q = f p" using q in_fst_map_apfst [of q f "A d ! t"] by auto
  have "p < Card N PL" "t \<in> set (Arc N PL (other_direction d) p)" using k t'(1) p(1) unfolding arcs_known_def by blast+
  then show "q < Card N' PL \<and> t \<in> set (Arc N' PL (other_direction d) q)"
    using renamed_netD [OF r] p(2) by (simp add: Arc_def)
qed

lemma renamed_current:
  "rel_option (renamed_list n f) x y \<Longrightarrow> pred_option (\<lambda>m. length m = n) y"
  by (cases y; cases x) (auto simp: renamed_list_def)

lemma renamed_current_map:
  "(\<And>m. length m = n \<Longrightarrow> renamed_list n f m (h m)) \<Longrightarrow> pred_option (\<lambda>m. length m = n) x \<Longrightarrow>
   rel_option (renamed_list n f) x (map_option h x)"
  by (cases x) auto

lemma renamed_data_ok:
  assumes r: "renamed_data f D D'" and ok: "data_ok D"
  shows "data_ok D'"
proof -
  have n: "renamed_net f (the_net D) (the_net D')" "renamed_arcs f (DeltaT (the_trans D)) (DeltaT (the_trans D'))"
    using r by (simp_all add: renamed_data_def)
  have "wf_net (the_net D')" "arcs_known (the_net D') (DeltaT (the_trans D'))"
    using renamed_wf [OF n(1)] renamed_known [OF n] ok by (simp_all add: data_ok_def)
  then show ?thesis
    using r renamed_netD(3) [OF n(1)] renamed_current
    unfolding data_ok_def renamed_data_def Let_def renamed_list_def by auto
qed

lemma swapPlaces_renames:
  assumes D: "data_ok D" and lr: "l < Card (the_net D) PL" "r < Card (the_net D) PL" "l \<noteq> r"
  shows "renamed_data (swap_index l r) D (swapPlaces l r D)"
proof -
  let ?N = "the_net D" and ?T = "the_trans D" and ?P = "the_places D"
  have wf: "wf_net ?N" and k: "arcs_known ?N (DeltaT ?T)" using D by (simp_all add: data_ok_def)
  have len: "length (Arcs ?N PL d) = Card ?N PL" for d using wf by (simp add: wf_net_def)
  define N1 where "N1 = ?N\<lparr>Arcs := (Arcs ?N)(PL := (\<lambda>d. swap_at (Arcs ?N PL d) l r))\<rparr>"
  define N2 where "N2 = N1\<lparr>Arcs := (Arcs N1)(TR := swap_references N1 l r (Arcs N1 TR))\<rparr>"
  have s: "the_net (swapPlaces l r D) = N2" "DeltaT (the_trans (swapPlaces l r D)) = swap_references N2 l r (DeltaT ?T)"
    "DeltaHash (the_trans (swapPlaces l r D)) = DeltaHash ?T"
    "the_places (swapPlaces l r D) = swap_place_data l r ?P"
    by (simp_all add: swapPlaces_def Let_def N1_def N2_def)
  have n1: "Card N1 = Card ?N" "Arcs N1 PL d = swap_at (Arcs ?N PL d) l r" "Arcs N1 TR = Arcs ?N TR" for d by (simp_all add: N1_def)
  have n2: "Card N2 = Card ?N" "Arcs N2 PL d = swap_at (Arcs ?N PL d) l r" "Arcs N2 TR = swap_references N1 l r (Arcs ?N TR)" for d
    by (simp_all add: N2_def n1)
  have "renamed_arcs (swap_index l r) (Arcs ?N TR) (swap_references N1 l r (Arcs ?N TR))"
    by (rule swap_references_renames [OF wf_arcs_known [OF wf] lr n1(1,2) len])
  then have "renamed_net (swap_index l r) ?N N2"
    using renames_swap [OF lr(1,2)] renamed_list_swap [OF len lr(1,2)] by (simp add: renamed_net_def n2)
  moreover have "renamed_arcs (swap_index l r) (DeltaT ?T) (swap_references N2 l r (DeltaT ?T))"
    by (rule swap_references_renames [OF k lr n2(1,2) len])
  ultimately show ?thesis
    using D lr by (simp add: renamed_data_def s swap_place_data_def Let_def data_ok_def renamed_list_swap renamed_current_map)
qed

section \<open>The loop of setSignificantPlaces\<close>

lemma last_significant_correct:
  assumes "isSignificant m i" "i \<le> k"
  shows "i \<le> last_significant m k \<and> last_significant m k \<le> k \<and> isSignificant m (last_significant m k) \<and>
    (\<forall>j. last_significant m k < j \<and> j \<le> k \<longrightarrow> \<not> isSignificant m j)"
  using assms(2)
proof (induction k)
  case 0
  then show ?case using assms(1) by auto
next
  case (Suc k)
  show ?case
  proof (cases "isSignificant m (Suc k)")
    case False
    then have "i \<le> k" using Suc.prems assms(1) by (cases "i = Suc k") auto
    from Suc.IH [OF this] False show ?thesis by (auto simp: le_Suc_eq)
  qed (use Suc.prems in auto)
qed

definition sig_between :: "matrix \<Rightarrow> nat \<Rightarrow> nat \<Rightarrow> nat set" where
  "sig_between m p l = {i. p \<le> i \<and> i \<le> l \<and> isSignificant m i}"

text \<open>Before round \<open>p\<close>: the positions before \<open>p\<close> hold pivots, those behind \<open>l\<close> hold none, and the others
  have not been touched.\<close>

definition sig_inv :: "matrix \<Rightarrow> nat \<Rightarrow> nat \<Rightarrow> (nat \<Rightarrow> nat) \<Rightarrow> nat \<Rightarrow> nat \<Rightarrow> bool" where
  "sig_inv m n cs f p l \<longleftrightarrow> renames n f \<and> l < n \<and>
     (\<forall>i < n. f i < p \<longrightarrow> isSignificant m i) \<and> (\<forall>i. p \<le> i \<and> i \<le> l \<longrightarrow> f i = i) \<and>
     (\<forall>i < n. l < f i \<longrightarrow> \<not> isSignificant m i) \<and> card (sig_between m p l) + p = cs"

lemma finite_sig_between [simp]: "finite (sig_between m p l)"
  by (rule finite_subset [of _ "{..l}"]) (auto simp: sig_between_def)

lemma renames_inj: "renames n f \<Longrightarrow> f i = f j \<Longrightarrow> i = j"
  by (auto simp: renames_def bij_def inj_def)

lemma sig_inv_keep:
  assumes v: "sig_inv m n cs f p l" and p: "p < cs" and s: "isSignificant m p"
  shows "sig_inv m n cs f (p + 1) l"
proof -
  have r: "renames n f" "l < n" "\<And>i. i < n \<Longrightarrow> f i < p \<Longrightarrow> isSignificant m i" "\<And>i. p \<le> i \<Longrightarrow> i \<le> l \<Longrightarrow> f i = i"
    "\<And>i. i < n \<Longrightarrow> l < f i \<Longrightarrow> \<not> isSignificant m i" "card (sig_between m p l) + p = cs"
    using v by (auto simp: sig_inv_def)
  have "sig_between m p l \<noteq> {}" using r(6) p by auto
  then have pl: "p \<le> l" by (auto simp: sig_between_def)
  have "isSignificant m i" if "i < n" "f i < p + 1" for i
  proof (cases "f i < p")
    case False
    then have "f i = f p" using that(2) r(4) [OF le_refl pl] by simp
    then show ?thesis using renames_inj [OF r(1)] s by blast
  qed (use r(3) that in blast)
  moreover have "sig_between m p l = insert p (sig_between m (p + 1) l)" using s pl by (auto simp: sig_between_def Suc_le_eq nat_less_le)
  then have "card (sig_between m p l) = Suc (card (sig_between m (p + 1) l))" by (simp add: sig_between_def)
  ultimately show ?thesis using r unfolding sig_inv_def by auto
qed

lemma sig_inv_swap:
  assumes v: "sig_inv m n cs f p l" and p: "p < cs" and s: "\<not> isSignificant m p" and l': "l' = last_significant m l"
  shows "p < l'" "l' < n" "sig_inv m n cs (swap_index p l' \<circ> f) (p + 1) (l' - 1)"
proof -
  have r: "renames n f" "l < n" "\<And>i. i < n \<Longrightarrow> f i < p \<Longrightarrow> isSignificant m i" "\<And>i. p \<le> i \<Longrightarrow> i \<le> l \<Longrightarrow> f i = i"
    "\<And>i. i < n \<Longrightarrow> l < f i \<Longrightarrow> \<not> isSignificant m i" "card (sig_between m p l) + p = cs"
    using v by (auto simp: sig_inv_def)
  have "sig_between m p l \<noteq> {}" using r(6) p by auto
  then obtain i0 where i0: "p \<le> i0" "i0 \<le> l" "isSignificant m i0" by (auto simp: sig_between_def)
  have L: "i0 \<le> l'" "l' \<le> l" "isSignificant m l'" "\<And>j. l' < j \<Longrightarrow> j \<le> l \<Longrightarrow> \<not> isSignificant m j"
    using last_significant_correct [OF i0(3,2)] l' by auto
  show pl': "p < l'" using i0 L(1,3) s by (cases "p = l'") auto
  show ln: "l' < n" using L(2) r(2) by simp
  let ?g = "swap_index p l' \<circ> f"
  have fp: "f p = p" "f l' = l'" using r(4) pl' L(2) by auto
  have g: "renames n ?g" by (rule renames_comp [OF r(1) renames_swap]) (use pl' ln in auto)
  have "isSignificant m i" if i: "i < n" "?g i < p + 1" for i
  proof (cases "?g i = p")
    case True
    then have "f i = l'" using pl' by (auto simp: swap_index_def split: if_splits)
    then show ?thesis using renames_inj [OF r(1), of i l'] fp L(3) by simp
  next
    case False
    then have "f i < p" using i(2) pl' by (auto simp: swap_index_def split: if_splits)
    then show ?thesis using r(3) i(1) by blast
  qed
  moreover have "?g i = i" if "p + 1 \<le> i" "i \<le> l' - 1" for i
    using r(4) [of i] that pl' L(2) by (auto simp: swap_index_def)
  moreover have "\<not> isSignificant m i" if i: "i < n" "l' - 1 < ?g i" for i
  proof (cases "?g i = l'")
    case True
    then have "f i = p" using pl' by (auto simp: swap_index_def split: if_splits)
    then show ?thesis using renames_inj [OF r(1), of i p] fp s by simp
  next
    case False
    then have fi: "l' < f i" using i(2) pl' by (auto simp: swap_index_def split: if_splits)
    show ?thesis
    proof (cases "l < f i")
      case True
      then show ?thesis using r(5) i(1) by blast
    next
      case le: False
      then have "f (f i) = f i" using r(4) [of "f i"] fi pl' by simp
      then have "f i = i" by (rule renames_inj [OF r(1)])
      then show ?thesis using L(4) [of i] fi le by simp
    qed
  qed
  moreover have "card (sig_between m p l) = Suc (card (sig_between m (p + 1) (l' - 1)))"
  proof -
    have "i \<in> sig_between m p l \<longleftrightarrow> i \<in> insert l' (sig_between m (p + 1) (l' - 1))" for i
      using L s pl' by (cases i l' rule: linorder_cases; cases "i = p") (auto simp: sig_between_def)
    then have "sig_between m p l = insert l' (sig_between m (p + 1) (l' - 1))" by blast
    moreover have "l' \<notin> sig_between m (p + 1) (l' - 1)" using pl' by (auto simp: sig_between_def)
    ultimately show ?thesis by simp
  qed
  ultimately show "sig_inv m n cs ?g (p + 1) (l' - 1)" using g r(6) ln unfolding sig_inv_def by auto
qed

lemma place_steps:
  assumes "data_ok D" "n = Card (the_net D) PL" "sig_inv m n cs id 0 (n - 1)" "p \<le> cs"
  shows "\<exists>f D1 l. fold (place_step m) [0..<p] (D, n - 1) = (D1, l) \<and> renamed_data f D D1 \<and> data_ok D1 \<and> sig_inv m n cs f p l"
  using assms(4)
proof (induction p)
  case 0
  have "renamed_data id D D"
    using assms(1) renames_id renamed_arcs_id
      renamed_current_map [of _ id id "marking_current (the_places D)", OF _]
    by (auto simp: renamed_data_def renamed_net_def data_ok_def Let_def renamed_list_id wf_net_def option.map_id0)
  then show ?case using assms by auto
next
  case (Suc p)
  obtain f D1 l where ih: "fold (place_step m) [0..<p] (D, n - 1) = (D1, l)" "renamed_data f D D1" "data_ok D1" "sig_inv m n cs f p l"
    using Suc by auto
  show ?case
  proof (cases "isSignificant m p")
    case True
    have "sig_inv m n cs f (Suc p) l" using sig_inv_keep [OF ih(4) _ True] Suc.prems by simp
    moreover have "place_step m p (D1, l) = (D1, l)" using True by (simp add: place_step_def)
    then have "fold (place_step m) [0..<Suc p] (D, n - 1) = (D1, l)" using ih(1) by simp
    ultimately show ?thesis using ih(2,3) by blast
  next
    case False
    define l' where "l' = last_significant m l"
    have s: "p < l'" "l' < n" "sig_inv m n cs (swap_index p l' \<circ> f) (p + 1) (l' - 1)"
      using sig_inv_swap [OF ih(4) _ False l'_def] Suc.prems by simp_all
    have c: "Card (the_net D1) PL = n" using ih(2) assms(2) by (simp add: renamed_data_def renamed_net_def)
    have w: "renamed_data (swap_index p l') D1 (swapPlaces p l' D1)"
      by (rule swapPlaces_renames [OF ih(3)]) (use s c in auto)
    have "place_step m p (D1, l) = (swapPlaces p l' D1, l' - 1)" using False by (simp add: place_step_def l'_def Let_def)
    then have "fold (place_step m) [0..<Suc p] (D, n - 1) = (swapPlaces p l' D1, l' - 1)" using ih(1) by simp
    then show ?thesis using renamed_data_comp [OF ih(2) w] renamed_data_ok [OF w ih(3)] s(3) by auto
  qed
qed

section \<open>The net after setSignificantPlaces\<close>

text \<open>\<open>EncoderProps\<close> needs that the first \<open>cs\<close> places determine every reachable marking.\<close>

lemma weight_in_rename: "inj f \<Longrightarrow> weight_in (map (apfst f) xs) (f p) = weight_in xs p"
  by (induction xs) (auto simp: inj_def)

lemma renamed_weight:
  assumes r: "renamed_net f N N'" and t: "t < length (Arcs N TR d)"
  shows "weight N' d t (f p) = weight N d t p"
  using weight_in_rename [OF bij_is_inj [OF renamed_netD(1) [OF r]]] t by (simp add: weight_def renamed_netD(4) [OF r])

text \<open>Markings of the two nets correspond by \<open>M' \<mapsto> M' \<circ> f\<close>.\<close>

lemma renamed_enabled:
  assumes r: "renamed_net f N N'" and wf: "wf_net N" and t: "t < Card N TR"
  shows "enabled_at N' M' t \<longleftrightarrow> enabled_at N (M' \<circ> f) t" "fire_at N' t M' \<circ> f = fire_at N t (M' \<circ> f)"
proof -
  have t': "t < length (Arcs N TR d)" for d using wf t by (simp add: wf_net_def)
  note w = renamed_weight [OF r t']
  have "(\<forall>p. weight N' PRE t p \<le> M' p) \<longleftrightarrow> (\<forall>p. weight N' PRE t (f p) \<le> M' (f p))"
    using bij_is_surj [OF renamed_netD(1) [OF r]] by (metis surjD)
  then show "enabled_at N' M' t \<longleftrightarrow> enabled_at N (M' \<circ> f) t" by (simp add: enabled_at_def w)
  show "fire_at N' t M' \<circ> f = fire_at N t (M' \<circ> f)" by (rule ext) (simp add: fire_at_def w)
qed

lemma renamed_reach:
  assumes r: "renamed_net f N N'" and wf: "wf_net N"
  shows "net_reach N' M M' \<Longrightarrow> net_reach N (M \<circ> f) (M' \<circ> f)"
proof (induction rule: net_reach.induct)
  case (reach_step M1 M2)
  obtain t where t: "t < Card N TR" "enabled_at N' M1 t" "M2 = fire_at N' t M1"
    using reach_step(2) renamed_netD(3) [OF r] by (auto elim: net_stepE)
  have "net_step N (M1 \<circ> f) (M2 \<circ> f)"
    using renamed_enabled [OF r wf t(1)] t fire_step [OF t(1), of "M1 \<circ> f"] by simp
  with reach_step(3) show ?case by (rule net_reach.reach_step)
qed (rule reach_refl)

lemma renamed_reach_back:
  assumes r: "renamed_net f N N'" and wf: "wf_net N"
  shows "net_reach N M M' \<Longrightarrow> net_reach N' (M \<circ> inv f) (M' \<circ> inv f)"
proof (induction rule: net_reach.induct)
  case (reach_step M1 M2)
  obtain t where t: "t < Card N TR" "enabled_at N M1 t" "M2 = fire_at N t M1"
    using reach_step(2) by (auto elim: net_stepE)
  have i: "M \<circ> inv f \<circ> f = M" for M :: marking using bij_is_inj [OF renamed_netD(1) [OF r]] by (simp add: o_assoc [symmetric])
  have "enabled_at N' (M1 \<circ> inv f) t" using renamed_enabled(1) [OF r wf t(1)] t(2) i by simp
  moreover have "fire_at N' t (M1 \<circ> inv f) = M2 \<circ> inv f"
  proof -
    have "fire_at N' t (M1 \<circ> inv f) \<circ> f \<circ> inv f = M2 \<circ> inv f"
      using renamed_enabled(2) [OF r wf t(1), of "M1 \<circ> inv f"] t(3) i by simp
    moreover have "f \<circ> inv f = id" using bij_is_surj [OF renamed_netD(1) [OF r]] surj_iff by blast
    ultimately show ?thesis by (simp add: comp_assoc)
  qed
  ultimately have "net_step N' (M1 \<circ> inv f) (M2 \<circ> inv f)"
    using fire_step [of t N' "M1 \<circ> inv f"] t(1) renamed_netD(3) [OF r] by simp
  with reach_step(3) show ?case by (rule net_reach.reach_step)
qed (rule reach_refl)

lemma renamed_marking:
  assumes "renames n f" "renamed_list n f xs ys"
  shows "marking_of ys \<circ> f = marking_of xs"
  using assms by (auto simp: marking_of_def renames_def renamed_list_def)

text \<open>All pivots are at the front when the loop ends.\<close>

lemma sig_inv_end:
  assumes v: "sig_inv m n cs f cs l" and i: "i < n" "isSignificant m i"
  shows "f i < cs"
proof (rule ccontr)
  assume n: "\<not> f i < cs"
  have "sig_between m cs l = {}" using v by (simp add: sig_inv_def)
  moreover have "f i \<le> l" using v i by (auto simp: sig_inv_def not_less)
  moreover then have "f (f i) = f i" using v n by (auto simp: sig_inv_def)
  then have "f i = i" using renames_inj v by (auto simp: sig_inv_def)
  ultimately show False using n i(2) by (auto simp: sig_between_def)
qed

definition determining :: "net \<Rightarrow> marking \<Rightarrow> nat \<Rightarrow> bool" where
  "determining N M0 cs \<longleftrightarrow> (\<forall>M M'. net_reach N M0 M \<and> net_reach N M0 M' \<and> (\<forall>p < cs. M p = M' p) \<longrightarrow> M = M')"

theorem setSignificantPlaces_correct:
  assumes D: "data_ok D" and srt: "sorted_arcs (the_net D) TR" "no_stale (the_net D) TR"
    and two: "2 \<le> Card (the_net D) PL" and b: "Card (the_net D) PL \<le> fst behind"
  shows "setSignificantPlaces behind sz D = Inl Overflow \<or>
    (\<exists>D1 cs f. setSignificantPlaces behind sz D = Inr (D1, cs, sum_list (take cs (place_cardbits (the_places D1)))) \<and>
       renamed_data f D D1 \<and> data_ok D1 \<and> cs \<le> Card (the_net D) PL \<and>
       determining (the_net D1) (marking_of (marking_initial (the_places D1))) cs)"
proof -
  let ?N = "the_net D" and ?n = "Card (the_net D) PL"
  have wf: "wf_net ?N" using D by (simp add: data_ok_def)
  obtain m0 where m0: "getIncidenceMatrix ?N behind PL = Inr m0" "mat_ok m0" "colCount m0 = ?n"
    "significantColCount m0 = 0" "holds_rows ?N TR [0..<Card ?N TR] m0"
    using getIncidenceMatrix_correct [OF wf, of PL behind] srt b by fastforce
  show ?thesis
  proof (cases "reduce m0 = Inl Overflow")
    case True
    then show ?thesis using two m0(1) by (simp add: setSignificantPlaces_def)
  next
    case False
    then obtain m where m: "reduce m0 = Inr m" "mat_ok m" "colCount m = ?n" "same_space m0 m" "reduced_from 0 m"
      "significantColCount m = pivots_from 0 m"
      using reduce_correct [OF m0(2,4)] m0(3) by auto
    define cs where "cs = getSignificantColCount m"
    have set: "{j. 0 \<le> j \<and> j < colCount m \<and> rows m ! j \<noteq> []} = sig_between m 0 (?n - 1)"
      using m(3) two by (auto simp: sig_between_def isSignificant_def)
    have cs: "cs = card (sig_between m 0 (?n - 1))"
      unfolding cs_def getSignificantColCount_def m(6) pivots_from_def set ..
    have "card (sig_between m 0 (?n - 1)) \<le> card {..<?n}"
      using two by (intro card_mono) (auto simp: sig_between_def)
    then have le: "cs \<le> ?n" using cs by simp
    have "sig_inv m ?n cs id 0 (?n - 1)" using two cs renames_id by (auto simp: sig_inv_def)
    from place_steps [OF D refl this le_refl] obtain f D1 l where
      s: "fold (place_step m) [0..<cs] (D, ?n - 1) = (D1, l)" "renamed_data f D D1" "data_ok D1" "sig_inv m ?n cs f cs l"
      by blast
    have r: "renamed_net f ?N (the_net D1)" "renames ?n f"
      using s(2) by (simp_all add: renamed_data_def renamed_net_def)
    have init: "marking_of (marking_initial (the_places D1)) \<circ> f = marking_of (marking_initial (the_places D))"
      by (rule renamed_marking [OF r(2)]) (use s(2) in \<open>simp add: renamed_data_def Let_def\<close>)
    have "determining (the_net D1) (marking_of (marking_initial (the_places D1))) cs"
      unfolding determining_def
    proof (intro allI impI, elim conjE)
      fix M M'
      let ?I = "marking_of (marking_initial (the_places D1))"
      assume M: "net_reach (the_net D1) ?I M" "net_reach (the_net D1) ?I M'" and agree: "\<forall>p < cs. M p = M' p"
      have M2: "net_reach ?N (?I \<circ> f) (M \<circ> f)" "net_reach ?N (?I \<circ> f) (M' \<circ> f)"
        by (rule renamed_reach [OF r(1) wf M(1)], rule renamed_reach [OF r(1) wf M(2)])
      have "\<forall>p < colCount m. isSignificant m p \<longrightarrow> (M \<circ> f) p = (M' \<circ> f) p"
        using agree sig_inv_end [OF s(4)] m(3) by simp
      from pivots_determine [OF m0(2,5) m(2,4,5) M2 this] have eq: "M \<circ> f = M' \<circ> f" .
      show "M = M'"
      proof
        fix p
        obtain q where "p = f q" using bij_is_surj [OF renamed_netD(1) [OF r(1)]] by (metis surjD)
        then show "M p = M' p" using fun_cong [OF eq, of q] by simp
      qed
    qed
    moreover have "setSignificantPlaces behind sz D = Inr (D1, cs, sum_list (take cs (place_cardbits (the_places D1))))"
      using two m0(1) m(1) s(1) by (simp add: setSignificantPlaces_def cs_def [symmetric] Let_def)
    ultimately show ?thesis using s(2,3) le by blast
  qed
qed

end
