(* ===== verification/SignificantProps.thy ===== *)
theory SignificantProps
  imports Significant EncoderProps PreprocessNet
begin

text \<open>
  \<open>Net::preprocess\<close> with the computation of the significant places: the bits per place, the swaps of
  \<open>setSignificantPlaces\<close> between the computation of the deltas and of the conflicts, and the search over
  packed markings that the result is meant for.
\<close>

section \<open>Net::preprocess\<close>

text \<open>What the symbol table has left: \<open>Marking::Current\<close> is a copy of \<open>Marking::Initial\<close>.\<close>

definition loaded_places :: "hash_t list \<Rightarrow> capacity_t list \<Rightarrow> capacity_t list \<Rightarrow> place_data" where
  "loaded_places H cap m0 =
     \<lparr>place_hash = H, place_capacity = cap, place_cardbits = map Capacity2Bits cap, marking_initial = m0,
      marking_current = Some m0\<rparr>"

record ready_data =
  ready_net :: net
  ready_trans :: transition_data
  ready_places :: place_data
  ready_state :: netstate
  CardSignificant :: nat
  SizeOfBitVector :: nat

text \<open>Steps 1 to 5 (without the conflicts), and the rest.  \<open>H\<close> are the random hash values of the places.\<close>

definition preprocess_places ::
  "arrayindex_t \<times> int \<Rightarrow> bool \<Rightarrow> hash_t list \<Rightarrow> capacity_t list \<Rightarrow> capacity_t list \<Rightarrow> net \<Rightarrow>
   (net_data \<times> nat \<times> nat) result" where
  "preprocess_places behind fullcopy H cap m0 N =
     (let (N1, T1) = preprocess_organizeDeltas H N;
          D = \<lparr>the_net = N1, the_trans = T1, the_places = loaded_places H cap m0\<rparr>;
          sz = sum_list (map Capacity2Bits cap)
      in if fullcopy then Inr (D, Card N1 PL, sz) else setSignificantPlaces behind sz D)"

definition preprocess_rest :: "hash_t \<Rightarrow> net_data \<times> nat \<times> nat \<Rightarrow> ready_data option" where
  "preprocess_rest h0 r =
     (let (D, cs, sz) = r
      in case preprocess_organizeConflictingTransitions (the_net D) (the_trans D) of
           None \<Rightarrow> None
         | Some T2 \<Rightarrow>
             let N2 = sortAllArcs (the_net D);
                 ns = initial_enabled N2 \<lparr>Current = the (marking_current (the_places D)), HashCurrent = h0, Enabled = [], CardEnabled = 0\<rparr>
             in Some \<lparr>ready_net = N2, ready_trans = T2, ready_places = the_places D, ready_state = ns,
                      CardSignificant = cs, SizeOfBitVector = sz\<rparr>)"

definition preprocess_all ::
  "arrayindex_t \<times> int \<Rightarrow> bool \<Rightarrow> hash_t list \<Rightarrow> capacity_t list \<Rightarrow> capacity_t list \<Rightarrow> net \<Rightarrow> ready_data option result" where
  "preprocess_all behind fullcopy H cap m0 N =
     and_then (preprocess_places behind fullcopy H cap m0 N) (\<lambda>r. Inr (preprocess_rest (HashInitial N H m0) r))"

section \<open>What a renaming keeps\<close>

lemma renamed_deltas:
  assumes r: "renamed_net f N N'" "renamed_arcs f (DeltaT T) (DeltaT T')" and wf: "wf_net N"
    and len: "\<And>d. length (DeltaT T d) = Card N TR" and ok: "deltas_ok N T"
  shows "deltas_ok N' T'"
  unfolding deltas_ok_def
proof (intro allI impI)
  fix t d
  assume "t < Card N' TR"
  then have t: "t < Card N TR" using renamed_netD(3) [OF r(1)] by simp
  have w: "weight N' d t (f p) = weight N d t p" for d p
    using renamed_weight [OF r(1)] wf t by (simp add: wf_net_def)
  have D: "DeltaT T' d ! t = map (apfst f) (DeltaT T d ! t)" using r(2) t len by (simp add: renamed_arcs_def)
  have o: "distinct (map fst (DeltaT T d ! t))"
    "weight_in (DeltaT T d ! t) p = weight N d t p - weight N (other_direction d) t p" for p
    using ok t by (simp_all add: deltas_ok_def)
  note inj = bij_is_inj [OF renamed_netD(1) [OF r(1)]]
  have "distinct (map f (map fst (DeltaT T d ! t)))" using o(1) inj_on_subset [OF inj subset_UNIV] by (simp only: distinct_map [of f])
  then have "distinct (map fst (DeltaT T' d ! t))" by (simp add: D comp_def)
  moreover have "weight_in (DeltaT T' d ! t) p = weight N' d t p - weight N' (other_direction d) t p" for p
  proof -
    obtain q where q: "p = f q" using bij_is_surj [OF renamed_netD(1) [OF r(1)]] by (metis surjD)
    show ?thesis by (simp add: q D w weight_in_rename [OF inj] o(2))
  qed
  ultimately show "distinct (map fst (DeltaT T' d ! t)) \<and>
      (\<forall>p. weight_in (DeltaT T' d ! t) p = weight N' d t p - weight N' (other_direction d) t p)" by blast
qed

lemma renamed_sum:
  assumes f: "renames n f"
  shows "(\<Sum>p<n. g (f p)) = (\<Sum>p<n. g p :: int)"
proof (rule sum.reindex_bij_betw)
  have "bij f" using f by (simp add: renames_def)
  then have "inj_on f {..<n}" using inj_on_subset [OF bij_is_inj subset_UNIV] by blast
  moreover have "f ` {..<n} = {..<n}"
  proof
    show "{..<n} \<subseteq> f ` {..<n}"
    proof
      fix p
      assume "p \<in> {..<n}"
      moreover obtain q where "p = f q" using f by (metis bij_pointE renames_def)
      ultimately show "p \<in> f ` {..<n}" using f by (auto simp: renames_def)
    qed
  qed (use f in \<open>auto simp: renames_def\<close>)
  ultimately show "bij_betw f {..<n} {..<n}" by (simp add: bij_betw_def)
qed

lemma renamed_hash:
  assumes r: "renames n f" "renamed_list n f H H'"
  shows "(\<Sum>p<n. H' ! p * x p) = (\<Sum>p<n. H ! p * (x (f p) :: int))"
  using renamed_sum [OF r(1), of "\<lambda>p. H' ! p * x p"] r(2) by (simp add: renamed_list_def)

lemma renamed_deltahash:
  assumes r: "renamed_net f N N'" "renamed_list (Card N PL) f H H'" "DeltaHash T' = DeltaHash T" and wf: "wf_net N"
    and ok: "deltahash_ok H N T"
  shows "deltahash_ok H' N' T'"
  unfolding deltahash_ok_def
proof (intro allI impI)
  fix t
  assume "t < Card N' TR"
  then have t: "t < Card N TR" using renamed_netD(3) [OF r(1)] by simp
  have w: "weight N' d t (f p) = weight N d t p" for d p
    using renamed_weight [OF r(1)] wf t by (simp add: wf_net_def)
  have "renames (Card N PL) f" using r(1) by (simp add: renamed_net_def)
  from renamed_hash [OF this r(2)]
  show "DeltaHash T' ! t mod SIZEOF_MARKINGTABLE =
      (\<Sum>p<Card N' PL. H' ! p * (int (weight N' POST t p) - int (weight N' PRE t p))) mod SIZEOF_MARKINGTABLE"
    using ok t by (simp add: deltahash_ok_def renamed_netD(3) [OF r(1)] r(3) w)
qed

lemma renamed_place_sorted:
  assumes r: "renamed_net f N N'" and s: "\<And>d p. p < Card N PL \<Longrightarrow> sorted (Arc N PL d p)" and p: "p < Card N' PL"
  shows "sorted (Arc N' PL d p)"
proof -
  obtain q where q: "q < Card N PL" "p = f q" using renamed_place [OF r] p renamed_netD(3) [OF r] by auto
  then have "Arc N' PL d p = Arc N PL d q" using renamed_netD(5) [OF r] by (simp add: Arc_def)
  then show ?thesis using s q(1) by simp
qed

lemma renamed_bounded:
  assumes r: "renamed_net f N N'" and wf: "wf_net N" and b: "bounded_net N (M0 \<circ> f)"
  shows "bounded_net N' M0"
  unfolding bounded_net_def
proof (intro allI impI, elim conjE)
  fix M p
  assume M: "net_reach N' M0 M" and p: "p < Card N' PL"
  obtain q where q: "q < Card N PL" "p = f q" using renamed_place [OF r] p renamed_netD(3) [OF r] by auto
  have "(M \<circ> f) q < 2 ^ 32" using b renamed_reach [OF r wf M] q(1) unfolding bounded_net_def by blast
  then show "M p < 2 ^ 32" using q(2) by simp
qed

lemma renamed_dead:
  assumes r: "renamed_net f N N'" and wf: "wf_net N"
  shows "(\<exists>M. net_reach N' M0 M \<and> dead_at N' M) \<longleftrightarrow> (\<exists>M. net_reach N (M0 \<circ> f) M \<and> dead_at N M)" (is "?l \<longleftrightarrow> ?r")
proof
  have d: "dead_at N' M \<longleftrightarrow> dead_at N (M \<circ> f)" for M
    using renamed_enabled(1) [OF r wf] renamed_netD(3) [OF r] by (simp add: dead_at_def)
  show ?r if ?l using that renamed_reach [OF r wf] d by blast
  have i: "M \<circ> f \<circ> inv f = M" "M \<circ> inv f \<circ> f = M" for M :: marking
    using renamed_netD(1) [OF r] bij_is_surj surj_iff bij_is_inj inv_o_cancel by (metis comp_assoc comp_id)+
  show ?l if ?r
  proof -
    obtain M where M: "net_reach N (M0 \<circ> f) M" "dead_at N M" using \<open>?r\<close> by blast
    have "net_reach N' M0 (M \<circ> inv f)" using renamed_reach_back [OF r wf M(1)] by (simp add: i)
    moreover have "dead_at N' (M \<circ> inv f)" using d M(2) by (simp add: i)
    ultimately show ?thesis by blast
  qed
qed

section \<open>preprocess\_all is correct\<close>

lemma preprocess_rest_ready:
  assumes wf: "wf_net (the_net D)" and srt: "\<And>d p. p < Card (the_net D) PL \<Longrightarrow> sorted (Arc (the_net D) PL d p)"
    and d: "deltas_ok (the_net D) (the_trans D)" "deltahash_ok H (the_net D) (the_trans D)"
    and m1: "marking_current (the_places D) = Some m1" "length m1 = Card (the_net D) PL"
    and h0: "h0 = marking_hash H (Card (the_net D) PL) (marking_of m1)" and b: "bounded_net (the_net D) (marking_of m1)"
  shows "\<exists>R. preprocess_rest h0 (D, cs, sz) = Some R \<and> search_ready (ready_net R) (ready_trans R) H (ready_state R) \<and>
    arcs_permuted (the_net D) (ready_net R) \<and> Current (ready_state R) = m1 \<and> ready_places R = the_places D \<and>
    CardSignificant R = cs \<and> SizeOfBitVector R = sz"
proof -
  let ?N = "the_net D"
  have ps: "place_sorted_net ?N" using wf srt by unfold_locales
  obtain T2 where 2: "preprocess_organizeConflictingTransitions ?N (the_trans D) = Some T2" "DeltaT T2 = DeltaT (the_trans D)"
    "DeltaHash T2 = DeltaHash (the_trans D)" "conflicts_ok ?N T2"
    using place_sorted_net.organizeConflicting_correct [OF ps] by blast
  have d2: "deltas_ok ?N T2" "deltahash_ok H ?N T2" using d 2 by (simp_all add: deltas_ok_def deltahash_ok_def)
  define N2 where "N2 = sortAllArcs ?N"
  have p: "arcs_permuted ?N N2" using sortAllArcs_permuted [OF wf] by (simp add: N2_def)
  let ?n0 = "\<lparr>Current = m1, HashCurrent = h0, Enabled = [], CardEnabled = 0\<rparr>"
  let ?ns = "initial_enabled N2 ?n0"
  have c: "Card N2 = Card ?N" by (rule arcs_permuted_Card [OF p])
  have e: "enabled_ok N2 ?ns" "Current ?ns = m1" using initial_enabled_exact [of ?n0 N2] m1(2) c by simp_all
  have "initial_state N2 H ?ns"
    using e h0 m1(2) c
    by (simp add: initial_state_def good_state_def hashed_state_def reachable_vec_def net_reach.reach_refl initial_enabled_Hash)
  then have "search_ready N2 T2 H ?ns"
    using arcs_permuted_wf [OF p wf] arcs_permuted_deltas [OF p wf] d2 arcs_permuted_conflicts [OF p wf 2(4)]
      e(2) b c arcs_permuted_reach [OF p wf]
    by (simp add: search_ready_def bounded_net_def)
  moreover have "preprocess_rest h0 (D, cs, sz) =
      Some \<lparr>ready_net = N2, ready_trans = T2, ready_places = the_places D, ready_state = ?ns, CardSignificant = cs, SizeOfBitVector = sz\<rparr>"
    using 2(1) m1(1) by (simp add: preprocess_rest_def N2_def Let_def)
  ultimately show ?thesis using p e(2) by auto
qed

text \<open>After loading and organising the deltas.\<close>

lemma organizeDeltas_data_ok:
  assumes wf: "wf_net N" and len: "length H = Card N PL" "length cap = Card N PL" "length m0 = Card N PL"
    and 1: "preprocess_organizeDeltas H N = (N1, T1)"
  shows "data_ok \<lparr>the_net = N1, the_trans = T1, the_places = loaded_places H cap m0\<rparr>"
proof -
  have N1: "N1 = sort_transition_arcs N" using organizeDeltas_fst [of H N] 1 by simp
  have p1: "arcs_permuted N N1" using sort_transition_arcs_permuted [OF wf] N1 by simp
  have wf1: "wf_net N1" by (rule arcs_permuted_wf [OF p1 wf])
  have c: "Card N1 = Card N" by (rule arcs_permuted_Card [OF p1])
  have lenT: "length (DeltaT T1 d) = Card N TR" for d
    using 1 wf by (cases d) (auto simp: preprocess_organizeDeltas_def Let_def wf_net_def sort_transition_arcs_def split_beta)
  have "arcs_known N1 (DeltaT T1)"
    unfolding arcs_known_def
  proof (intro allI impI, elim conjE)
    fix d t q
    assume t: "t < length (DeltaT T1 d)" and q: "q \<in> fst ` set (DeltaT T1 d ! t)"
    have t': "t < Card N TR" "t < Card N1 TR" using t lenT c by simp_all
    have "fst ` set (DeltaT T1 d ! t) \<subseteq> fst ` set (Arcs N1 TR d ! t)"
      using organizeDeltas_DeltaT(1,2) [OF wf t'(1), of H] merge_deltas_keys [of "Arcs N1 TR PRE ! t" "Arcs N1 TR POST ! t"] 1 N1
      by (cases d) simp_all
    then have q': "q \<in> set (Arc N1 TR d t)" using q by (auto simp: Arc_def)
    show "q < Card N1 PL \<and> t \<in> set (Arc N1 PL (other_direction d) q)"
      using wf_net_Arc_less [OF wf1 t'(2) q'] wf_net_Arc_dual [OF wf1 t'(2) q'] by simp
  qed
  then show ?thesis using wf1 len c by (simp add: data_ok_def loaded_places_def)
qed

definition loaded_ok :: "hash_t list \<Rightarrow> capacity_t list \<Rightarrow> capacity_t list \<Rightarrow> net \<Rightarrow> bool" where
  "loaded_ok H cap m0 N \<longleftrightarrow> wf_net N \<and> (\<forall>p < Card N PL. \<forall>d. sorted (Arc N PL d p)) \<and> hashes_ok N H \<and>
     length cap = Card N PL \<and> length m0 = Card N PL \<and> bounded_net N (marking_of m0)"

lemma preprocess_places_correct:
  assumes L: "loaded_ok H cap m0 N" and st: "no_stale N TR" and b: "Card N PL \<le> fst behind"
    and 1: "preprocess_organizeDeltas H N = (N1, T1)"
    and D: "D = \<lparr>the_net = N1, the_trans = T1, the_places = loaded_places H cap m0\<rparr>"
  shows "preprocess_places behind fullcopy H cap m0 N = Inl Overflow \<and> \<not> fullcopy \<or>
    (\<exists>D1 cs f. preprocess_places behind fullcopy H cap m0 N = Inr (D1, cs, sum_list (take cs (place_cardbits (the_places D1)))) \<and>
       renamed_data f D D1 \<and> data_ok D1 \<and> cs \<le> Card N PL \<and>
       significant_places (the_net D1) (marking_of (marking_initial (the_places D1))) cs)"
proof -
  have wf: "wf_net N" and len: "length H = Card N PL" "length cap = Card N PL" "length m0 = Card N PL"
    using L by (simp_all add: loaded_ok_def hashes_ok_def)
  have N1: "N1 = sort_transition_arcs N" using organizeDeltas_fst [of H N] 1 by simp
  have p1: "arcs_permuted N N1" using sort_transition_arcs_permuted [OF wf] N1 by simp
  have wf1: "wf_net N1" by (rule arcs_permuted_wf [OF p1 wf])
  have c: "Card N1 = Card N" by (rule arcs_permuted_Card [OF p1])
  have ok: "data_ok D" unfolding D by (rule organizeDeltas_data_ok [OF wf len 1])
  have id: "renamed_data id D D"
    using ok renames_id renamed_arcs_id renamed_current_map [of _ id id "marking_current (the_places D)", OF _]
    by (auto simp: renamed_data_def renamed_net_def data_ok_def Let_def renamed_list_id wf_net_def option.map_id0)
  have pp: "preprocess_places behind fullcopy H cap m0 N =
      (if fullcopy then Inr (D, Card N PL, sum_list (place_cardbits (the_places D)))
       else setSignificantPlaces behind (sum_list (place_cardbits (the_places D))) D)"
    by (simp add: preprocess_places_def 1 D c loaded_places_def)
  show ?thesis
  proof (cases "fullcopy \<or> Card N PL < 2")
    case True
    then have "preprocess_places behind fullcopy H cap m0 N = Inr (D, Card N PL, sum_list (take (Card N PL) (place_cardbits (the_places D))))"
      by (auto simp: pp setSignificantPlaces_def D c loaded_places_def len)
    moreover have "significant_places (the_net D) (marking_of (marking_initial (the_places D))) (Card N PL)"
      by (simp add: significant_places_def D c)
    ultimately show ?thesis using id ok by blast
  next
    case False
    have srt: "sorted_arcs (the_net D) TR"
      unfolding sorted_arcs_def
    proof (intro allI impI)
      fix t d
      assume "t < Card (the_net D) TR"
      then have t: "t < Card N TR" by (simp add: D c)
      have "Arcs N1 TR d ! t = sortArcs (Arcs N TR d ! t) 0 (length (Arcs N TR d ! t))"
        using Arcs_sort_transition_arcs [OF _ t] wf N1 by (simp add: wf_net_def)
      moreover have "sorted (map fst (sortArcs (Arcs N TR d ! t) 0 (length (Arcs N TR d ! t))))"
        using wf_net_distinct [OF wf t, of d] by (simp add: sortArcs_all Arc_def)
      ultimately show "sorted_wrt (<) (Arc (the_net D) TR d t)"
        using wf_net_distinct [OF wf1, of t TR d] t c by (simp add: strict_sorted_iff Arc_def D)
    qed
    have empty: "Arc N1 TR d t = [] \<longleftrightarrow> Arc N TR d t = []" if "t < Card N TR" for d t
      using arcs_permuted_Arc [OF p1 that, of d] by (metis set_empty)
    have stale: "no_stale (the_net D) TR"
      using st arcs_permuted_Arc [OF p1] empty c by (simp add: no_stale_def D)
    have n: "2 \<le> Card (the_net D) PL" "Card (the_net D) PL \<le> fst behind" "Card (the_net D) PL = Card N PL"
      using False b c by (simp_all add: D)
    have sp: "significant_places (the_net D1) M0 cs" if "determining (the_net D1) M0 cs" "cs \<le> Card N PL" "renamed_data f D D1" for D1 M0 cs f
    proof -
      have "Card (the_net D1) PL = Card N PL" using that(3) n(3) by (simp add: renamed_data_def renamed_net_def)
      then show ?thesis using that(1,2) unfolding determining_def significant_places_def by (metis (no_types))
    qed
    show ?thesis
      using setSignificantPlaces_correct [OF ok srt stale n(1,2), of "sum_list (place_cardbits (the_places D))"] False sp
      unfolding pp n(3) by fastforce
  qed
qed

text \<open>The renaming between the net as it was loaded and the net the searches work on.\<close>

definition corresponds :: "(arrayindex_t \<Rightarrow> arrayindex_t) \<Rightarrow> net \<Rightarrow> marking \<Rightarrow> net \<Rightarrow> marking \<Rightarrow> bool" where
  "corresponds f N M0 N' M0' \<longleftrightarrow> renames (Card N PL) f \<and> Card N' = Card N \<and> M0' \<circ> f = M0 \<and>
     (\<forall>M'. net_reach N' M0' M' \<longrightarrow> net_reach N M0 (M' \<circ> f)) \<and>
     (\<forall>M. net_reach N M0 M \<longrightarrow> (\<exists>M'. net_reach N' M0' M' \<and> M' \<circ> f = M)) \<and>
     (\<forall>t < Card N TR. \<forall>M'. (enabled_at N' M' t \<longleftrightarrow> enabled_at N (M' \<circ> f) t) \<and>
        fire_at N' t M' \<circ> f = fire_at N t (M' \<circ> f))"

lemma corresponds_renamed:
  assumes r: "renamed_net f N N'" and wf: "wf_net N"
  shows "corresponds f N (M0' \<circ> f) N' M0'"
proof -
  have i: "M \<circ> f \<circ> inv f = M" "M \<circ> inv f \<circ> f = M" for M :: marking
    using renamed_netD(1) [OF r] bij_is_surj surj_iff bij_is_inj inv_o_cancel by (metis comp_assoc comp_id)+
  have "\<exists>M'. net_reach N' M0' M' \<and> M' \<circ> f = M" if "net_reach N (M0' \<circ> f) M" for M
    using renamed_reach_back [OF r wf that] i by metis
  then show ?thesis
    using r renamed_reach [OF r wf] renamed_enabled [OF r wf] renamed_netD(3) [OF r]
    by (simp add: corresponds_def renamed_net_def)
qed

lemma corresponds_permuted:
  assumes c: "corresponds f N M0 N' M0'" and p: "arcs_permuted N' N''" and wf: "wf_net N'"
  shows "corresponds f N M0 N'' M0'"
proof -
  have "enabled_at N'' M t = enabled_at N' M t" "fire_at N'' t M = fire_at N' t M" if "t < Card N TR" for M t
    using arcs_permuted_weight [OF p wf] that c by (simp_all add: enabled_at_def fire_at_def corresponds_def)
  then show ?thesis
    using c arcs_permuted_reach [OF p wf] arcs_permuted_Card [OF p] by (simp add: corresponds_def)
qed

lemma corresponds_permuted_left:
  assumes c: "corresponds f N1 M0 N' M0'" and p: "arcs_permuted N N1" and wf: "wf_net N"
  shows "corresponds f N M0 N' M0'"
proof -
  have "enabled_at N1 M t = enabled_at N M t" "fire_at N1 t M = fire_at N t M" if "t < Card N TR" for M t
    using arcs_permuted_weight [OF p wf that] by (simp_all add: enabled_at_def fire_at_def)
  then show ?thesis
    using c arcs_permuted_reach [OF p wf] arcs_permuted_Card [OF p] by (simp add: corresponds_def)
qed

lemma significant_permuted:
  "significant_places N M0 cs \<Longrightarrow> arcs_permuted N N' \<Longrightarrow> wf_net N \<Longrightarrow> significant_places N' M0 cs"
  by (simp add: significant_places_def arcs_permuted_reach arcs_permuted_Card)

theorem preprocess_all_ready:
  assumes L: "loaded_ok H cap m0 N" and st: "no_stale N TR" and b: "Card N PL \<le> fst behind"
  shows "preprocess_all behind fullcopy H cap m0 N = Inl Overflow \<and> \<not> fullcopy \<or>
    (\<exists>R f. preprocess_all behind fullcopy H cap m0 N = Inr (Some R) \<and>
       search_ready (ready_net R) (ready_trans R) (place_hash (ready_places R)) (ready_state R) \<and>
       corresponds f N (marking_of m0) (ready_net R) (marking_of (Current (ready_state R))) \<and>
       significant_places (ready_net R) (marking_of (Current (ready_state R))) (CardSignificant R) \<and>
       SizeOfBitVector R = bit_sum (place_cardbits (ready_places R)) (CardSignificant R) \<and>
       renamed_list (Card N PL) f (map Capacity2Bits cap) (place_cardbits (ready_places R)))"
proof -
  have wf: "wf_net N" and H: "hashes_ok N H" and len: "length m0 = Card N PL"
    and srt: "\<And>p d. p < Card N PL \<Longrightarrow> sorted (Arc N PL d p)" and bd: "bounded_net N (marking_of m0)"
    using L by (simp_all add: loaded_ok_def)
  obtain N1 T1 where 1: "preprocess_organizeDeltas H N = (N1, T1)" by fastforce
  define D where "D = \<lparr>the_net = N1, the_trans = T1, the_places = loaded_places H cap m0\<rparr>"
  have N1: "N1 = sort_transition_arcs N" using organizeDeltas_fst [of H N] 1 by simp
  have p1: "arcs_permuted N N1" using sort_transition_arcs_permuted [OF wf] N1 by simp
  have wf1: "wf_net N1" by (rule arcs_permuted_wf [OF p1 wf])
  have c: "Card N1 = Card N" by (rule arcs_permuted_Card [OF p1])
  have N_D: "the_net D = N1" "the_trans D = T1" by (simp_all add: D_def)
  show ?thesis
  proof (cases "preprocess_places behind fullcopy H cap m0 N = Inl Overflow \<and> \<not> fullcopy")
    case True
    then have e: "preprocess_places behind fullcopy H cap m0 N = Inl Overflow" "\<not> fullcopy" by blast+
    have "preprocess_all behind fullcopy H cap m0 N = Inl Overflow" unfolding preprocess_all_def e(1) by simp
    then show ?thesis using e(2) by (intro disjI1 conjI)
  next
    case False
    then obtain D1 cs f where P: "preprocess_places behind fullcopy H cap m0 N = Inr (D1, cs, sum_list (take cs (place_cardbits (the_places D1))))"
      "renamed_data f D D1" "data_ok D1" "cs \<le> Card N PL"
      "significant_places (the_net D1) (marking_of (marking_initial (the_places D1))) cs"
      using preprocess_places_correct [OF L st b 1 D_def] by blast
    have r: "renamed_net f N1 (the_net D1)" "renamed_arcs f (DeltaT T1) (DeltaT (the_trans D1))"
      "DeltaHash (the_trans D1) = DeltaHash T1" "renamed_list (Card N PL) f H (place_hash (the_places D1))"
      "renamed_list (Card N PL) f (map Capacity2Bits cap) (place_cardbits (the_places D1))"
      "renamed_list (Card N PL) f m0 (marking_initial (the_places D1))"
      "rel_option (renamed_list (Card N PL) f) (Some m0) (marking_current (the_places D1))"
      using P(2) by (simp_all add: renamed_data_def Let_def D_def c loaded_places_def)
    have f: "renames (Card N PL) f" using r(1) c by (simp add: renamed_net_def)
    have c1: "Card (the_net D1) = Card N" using renamed_netD(3) [OF r(1)] c by simp
    obtain m1 where m1: "marking_current (the_places D1) = Some m1" "renamed_list (Card N PL) f m0 m1"
      using r(7) by (cases "marking_current (the_places D1)") auto
    have same: "m1 = marking_initial (the_places D1)"
    proof (rule nth_equalityI)
      show "length m1 = length (marking_initial (the_places D1))" using m1(2) r(6) by (simp add: renamed_list_def)
      fix p
      assume "p < length m1"
      then obtain q where "q < Card N PL" "p = f q"
        using renamed_place [OF r(1)] m1(2) c by (auto simp: renamed_list_def)
      then show "m1 ! p = marking_initial (the_places D1) ! p" using m1(2) r(6) by (simp add: renamed_list_def)
    qed
    have M0: "marking_of m1 \<circ> f = marking_of m0" by (rule renamed_marking [OF f m1(2)])
    have lenT: "length (DeltaT T1 d) = Card N1 TR" for d
      using 1 wf c by (cases d) (auto simp: preprocess_organizeDeltas_def Let_def wf_net_def sort_transition_arcs_def split_beta)
    have d: "deltas_ok N T1" "deltahash_ok H N T1"
      using organizeDeltas_deltas_ok [OF wf, of H] organizeDeltas_deltahash_ok [OF wf, of H] 1 by simp_all
    then have d1: "deltas_ok N1 T1" "deltahash_ok H N1 T1" using arcs_permuted_deltas [OF p1 wf] by simp_all
    have dl: "deltas_ok (the_net D1) (the_trans D1)" by (rule renamed_deltas [OF r(1,2) wf1 lenT d1(1)])
    have dh: "deltahash_ok (place_hash (the_places D1)) (the_net D1) (the_trans D1)"
      using renamed_deltahash [OF r(1) _ r(3) wf1 d1(2)] r(4) c by simp
    have wf2: "wf_net (the_net D1)" using P(3) by (simp add: data_ok_def)
    have hash: "HashInitial N H m0 = marking_hash (place_hash (the_places D1)) (Card (the_net D1) PL) (marking_of m1)"
      using renamed_hash [OF f r(4), of "\<lambda>p. int (marking_of m1 p)"] fun_cong [OF M0]
      by (simp add: HashInitial_eq [OF H len] marking_hash_def c1)
    have "bounded_net N1 (marking_of m1 \<circ> f)"
      using bd arcs_permuted_reach [OF p1 wf] c M0 by (simp add: bounded_net_def)
    then have bd2: "bounded_net (the_net D1) (marking_of m1)" by (rule renamed_bounded [OF r(1) wf1])
    have s1: "sorted (Arc N1 PL d p)" if "p < Card N1 PL" for d p
      using srt that c by (simp add: N1 sort_transition_arcs_place)
    have lm1: "length m1 = Card (the_net D1) PL" using m1(2) c1 by (simp add: renamed_list_def)
    obtain R where R: "preprocess_rest (HashInitial N H m0) (D1, cs, sum_list (take cs (place_cardbits (the_places D1)))) = Some R"
      "search_ready (ready_net R) (ready_trans R) (place_hash (the_places D1)) (ready_state R)"
      "arcs_permuted (the_net D1) (ready_net R)" "Current (ready_state R) = m1" "ready_places R = the_places D1"
      "CardSignificant R = cs" "SizeOfBitVector R = sum_list (take cs (place_cardbits (the_places D1)))"
      using preprocess_rest_ready [OF wf2 renamed_place_sorted [OF r(1) s1] dl dh m1(1) lm1 hash bd2] by blast
    have "corresponds f N (marking_of m0) (the_net D1) (marking_of m1)"
      using corresponds_renamed [OF r(1) wf1, of "marking_of m1"] corresponds_permuted_left [OF _ p1 wf] M0 by simp
    then have cr: "corresponds f N (marking_of m0) (ready_net R) (marking_of (Current (ready_state R)))"
      using corresponds_permuted [OF _ R(3) wf2] R(4) by simp
    have sp: "significant_places (ready_net R) (marking_of (Current (ready_state R))) (CardSignificant R)"
      using significant_permuted [OF P(5) R(3) wf2] R(4,6) same by simp
    have pa: "preprocess_all behind fullcopy H cap m0 N = Inr (Some R)"
      by (simp add: preprocess_all_def P(1) R(1))
    show ?thesis
      using pa R(2,5,6,7) cr sp r(5) unfolding bit_sum_def by (intro disjI2 exI [of _ R] exI [of _ f] conjI) simp_all
  qed
qed

section \<open>The bits suffice\<close>

lemma Capacity2Bits_bounds:
  "unat c < 2 ^ Capacity2Bits c" "c \<noteq> 0 \<Longrightarrow> 0 < Capacity2Bits c" "c \<noteq> 0 \<Longrightarrow> Capacity2Bits c \<le> 32"
proof -
  note b = capacity_loop_bounds [of 0 c]
  show "unat c < 2 ^ Capacity2Bits c" using b by (simp add: Capacity2Bits_def)
  assume "c \<noteq> 0"
  then have "0 < unat c" by (simp add: unat_gt_0)
  with b have c: "0 < Capacity2Bits c" "2 ^ (Capacity2Bits c - 1) \<le> unat c" by (simp_all add: Capacity2Bits_def)
  show "0 < Capacity2Bits c" by (rule c(1))
  have "2 ^ (Capacity2Bits c - 1) < (2 ^ 32 :: nat)" using le_less_trans [OF c(2) unsigned_less [where 'a = nat]] by simp
  then have "Capacity2Bits c - 1 < 32" by (rule power_less_imp_less_exp [rotated]) simp
  then show "Capacity2Bits c \<le> 32" by simp
qed

text \<open>What the encoder needs of the preprocessed data.\<close>

lemma capacity_bits:
  assumes c: "corresponds f N M0 N' M0'" and bits: "renamed_list (Card N PL) f (map Capacity2Bits cap) bits"
    and cap: "\<forall>M p. net_reach N M0 M \<and> p < Card N PL \<longrightarrow> M p \<le> unat (cap ! p)" "\<forall>c \<in> set cap. c \<noteq> 0"
    and cs: "cs \<le> Card N PL"
  shows "bit_setting bits cs" "net_reach N' M0' M \<Longrightarrow> q < cs \<Longrightarrow> M q < 2 ^ (bits ! q)"
proof -
  have f: "renames (Card N PL) f" using c by (simp add: corresponds_def)
  have place: "\<exists>p < Card N PL. q = f p" if "q < Card N PL" for q
    using f that by (metis bij_pointE renames_def)
  have len: "length cap = Card N PL" "length bits = Card N PL" using bits by (simp_all add: renamed_list_def)
  have at: "bits ! f p = Capacity2Bits (cap ! p)" if "p < Card N PL" for p
    using bits that len by (simp add: renamed_list_def)
  have "0 < bits ! q \<and> bits ! q \<le> 32" if "q < cs" for q
  proof -
    obtain p where p: "p < Card N PL" "q = f p" using place \<open>q < cs\<close> cs by (meson less_le_trans)
    have "cap ! p \<noteq> 0" using cap(2) p(1) len(1) by simp
    then show ?thesis using Capacity2Bits_bounds(2,3) at [OF p(1)] p(2) by simp
  qed
  then show "bit_setting bits cs" using cs len by (simp add: bit_setting_def)
  assume M: "net_reach N' M0' M" and q: "q < cs"
  obtain p where p: "p < Card N PL" "q = f p" using place q cs by (meson less_le_trans)
  have "net_reach N M0 (M \<circ> f)" using c M by (simp add: corresponds_def)
  then have "(M \<circ> f) p \<le> unat (cap ! p)" using cap(1) p(1) by blast
  then have "M q \<le> unat (cap ! p)" using p(2) by simp
  also have "\<dots> < 2 ^ Capacity2Bits (cap ! p)" by (rule Capacity2Bits_bounds(1))
  finally show "M q < 2 ^ (bits ! q)" using at [OF p(1)] p(2) by simp
qed

lemma corresponds_dead:
  assumes c: "corresponds f N M0 N' M0'"
  shows "(\<exists>M. net_reach N' M0' M \<and> dead_at N' M) \<longleftrightarrow> (\<exists>M. net_reach N M0 M \<and> dead_at N M)"
proof -
  have d: "dead_at N' M \<longleftrightarrow> dead_at N (M \<circ> f)" for M
    using c by (simp add: corresponds_def dead_at_def)
  show ?thesis using c d unfolding corresponds_def by metis
qed

section \<open>Sample nets\<close>

text \<open>A net in which the pivot is not the first place: \<open>t0\<close> needs \<open>p0\<close> and gives it back, and moves a token from
  \<open>p1\<close> to \<open>p2\<close>.\<close>

fun loop_arcs :: "node_t \<Rightarrow> direction_t \<Rightarrow> (arrayindex_t \<times> mult_t) list list" where
  "loop_arcs PL PRE = [[(0, 1)], [], [(0, 1)]]"
| "loop_arcs PL POST = [[(0, 1)], [(0, 1)], []]"
| "loop_arcs TR PRE = [[(0, 1), (1, 1)]]"
| "loop_arcs TR POST = [[(0, 1), (2, 1)]]"

definition loop_data :: net_data where
  "loop_data =
     \<lparr>the_net = \<lparr>Card = (\<lambda>ty. case ty of PL \<Rightarrow> 3 | TR \<Rightarrow> 1), Arcs = loop_arcs\<rparr>,
      the_trans = \<lparr>DeltaHash = [4], DeltaT = (\<lambda>d. case d of PRE \<Rightarrow> [[(1, 1)]] | POST \<Rightarrow> [[(2, 1)]]),
        Conflicting = [], BackConflicting = []\<rparr>,
      the_places = loaded_places [2, 3, 7] [1, 1, 1] [1, 1, 0]\<rparr>"

lemma loop_ok: "data_ok loop_data" "sorted_arcs (the_net loop_data) TR" "no_stale (the_net loop_data) TR"
  "Card (the_net loop_data) PL = 3"
proof -
  let ?N = "the_net loop_data"
  have len: "length (loop_arcs ty d) = Card ?N ty" for ty d by (cases ty; cases d) (simp_all add: loop_data_def)
  have arcs: "distinct (Arc ?N ty d n) \<and> (\<forall>(m, w) \<in> set (Arcs ?N ty d ! n). m < Card ?N (other_node ty) \<and> w \<noteq> 0 \<and>
      (n, w) \<in> set (Arcs ?N (other_node ty) (other_direction d) ! m))" if "n < Card ?N ty" for ty d n
    using that by (cases ty; cases d) (auto simp: loop_data_def Arc_def numeral_3_eq_3 less_Suc_eq)
  have "Arcs ?N = loop_arcs" by (simp add: loop_data_def)
  moreover have "m < Card ?N (other_node ty) \<and> w \<noteq> 0 \<and> (n, w) \<in> set (Arcs ?N (other_node ty) (other_direction d) ! m)"
    if "n < Card ?N ty" "(m, w) \<in> set (Arcs ?N ty d ! n)" for ty d n m w
    using arcs [OF that(1), THEN conjunct2, THEN bspec, OF that(2)] by simp
  moreover have "length (Arcs ?N ty d) = Card ?N ty" for ty d using len by (simp add: \<open>Arcs ?N = loop_arcs\<close>)
  moreover have "distinct (Arc ?N ty d n)" if "n < Card ?N ty" for ty d n using arcs [OF that] by blast
  ultimately have "wf_net ?N" unfolding wf_net_def by blast
  moreover have "arcs_known ?N (DeltaT (the_trans loop_data))"
    by (auto simp: arcs_known_def loop_data_def Arc_def split: direction_t.splits)
  moreover have "the_places loop_data = loaded_places [2, 3, 7] [1, 1, 1] [1, 1, 0]" "Card ?N PL = 3"
    by (simp_all add: loop_data_def)
  ultimately show "data_ok loop_data" by (simp add: data_ok_def loaded_places_def)
  show "sorted_arcs ?N TR" by (auto simp: sorted_arcs_def loop_data_def Arc_def) (case_tac d; simp)
  show "no_stale ?N TR" by (simp add: no_stale_def loop_data_def Arc_def)
  show "Card ?N PL = 3" by (simp add: loop_data_def)
qed
lemma ring_runs:
  "case preprocess_places (5, 0) False ring_hashes [1, 1] [1, 0] ring_net of Inl e \<Rightarrow> False
   | Inr r \<Rightarrow> fst (snd r) = 1 \<and> snd (snd r) = 1"
  by code_simp

lemma preprocess_all_counts:
  assumes "preprocess_places behind fullcopy H cap m0 N = Inr (D, cs, sz)"
  shows "preprocess_all behind fullcopy H cap m0 N \<noteq> Inl Overflow"
    "preprocess_all behind fullcopy H cap m0 N = Inr (Some R) \<Longrightarrow> CardSignificant R = cs \<and> SizeOfBitVector R = sz"
  using assms by (auto simp: preprocess_all_def preprocess_rest_def Let_def split: option.splits)

text \<open>A transition without pre places that produces on the first of two places.\<close>

fun source_arcs :: "node_t \<Rightarrow> direction_t \<Rightarrow> (arrayindex_t \<times> mult_t) list list" where
  "source_arcs PL PRE = [[(0, 1)], []]"
| "source_arcs PL POST = [[], []]"
| "source_arcs TR PRE = [[]]"
| "source_arcs TR POST = [[(0, 1)]]"

definition source_data :: net_data where
  "source_data =
     \<lparr>the_net = \<lparr>Card = (\<lambda>ty. case ty of PL \<Rightarrow> 2 | TR \<Rightarrow> 1), Arcs = source_arcs\<rparr>,
      the_trans = \<lparr>DeltaHash = [2], DeltaT = (\<lambda>d. case d of PRE \<Rightarrow> [[]] | POST \<Rightarrow> [[(0, 1)]]),
        Conflicting = [], BackConflicting = []\<rparr>,
      the_places = loaded_places [2, 3] [1, 1] [0, 0]\<rparr>"

lemma source_runs:
  "case setSignificantPlaces (5, 0) 2 source_data of Inl e \<Rightarrow> False | Inr (D1, cs, sz) \<Rightarrow> cs = 0 \<and> sz = 0"
  by code_simp

lemma setSignificantPlaces_none:
  "setSignificantPlaces behind sz D = Inr (D1, 0, sz1) \<Longrightarrow> 2 \<le> Card (the_net D) PL \<Longrightarrow> D1 = D"
  by (auto simp: setSignificantPlaces_def Let_def)

lemma ring_loaded:
  "loaded_ok ring_hashes [1, 1] [1, 0] ring_net" "no_stale ring_net TR"
  "\<forall>M p. net_reach ring_net (marking_of [1, 0]) M \<and> p < Card ring_net PL \<longrightarrow> M p \<le> unat ([1, 1 :: capacity_t] ! p)"
proof -
  show "loaded_ok ring_hashes [1, 1] [1, 0] ring_net"
    using ring_wf ring_place_sorted ring_frontend(2,3) by (simp add: loaded_ok_def)
  show "no_stale ring_net TR" by (simp add: no_stale_def Arc_def less_two)
  have "M p \<le> unat ([1, 1 :: capacity_t] ! p)" if "net_reach ring_net (marking_of [1, 0]) M" "p < 2" for M p
    using ring_reach [OF that(1)] that(2) by (auto simp: less_two)
  then show "\<forall>M p. net_reach ring_net (marking_of [1, 0]) M \<and> p < Card ring_net PL \<longrightarrow> M p \<le> unat ([1, 1 :: capacity_t] ! p)"
    by simp
qed

section \<open>Properties\<close>



text \<open>C33: \<open>swapPlaces\<close> exchanges the two places everywhere: in the arc lists of places and transitions, in the
  deltas, in the hash values, capacities, bit counts and markings; and keeps the net well-formed.\<close>

theorem swapPlaces_exchanges:
  assumes "data_ok D" "l < Card (the_net D) PL" "r < Card (the_net D) PL" "l \<noteq> r"
  shows "data_ok (swapPlaces l r D) \<and> renamed_data (swap_index l r) D (swapPlaces l r D) \<and>
    (\<forall>t < Card (the_net D) TR. \<forall>M. enabled_at (the_net (swapPlaces l r D)) M t \<longleftrightarrow>
       enabled_at (the_net D) (M \<circ> swap_index l r) t)"
proof -
  have s: "renamed_data (swap_index l r) D (swapPlaces l r D)" by (rule swapPlaces_renames [OF assms])
  then have "renamed_net (swap_index l r) (the_net D) (the_net (swapPlaces l r D))" by (simp add: renamed_data_def)
  then show ?thesis
    using s renamed_data_ok [OF s assms(1)] renamed_enabled(1) assms(1) unfolding data_ok_def by blast
qed

theorem swapPlaces_exchanges_witness: "data_ok (swapPlaces 0 1 loop_data)"
  using swapPlaces_exchanges [OF loop_ok(1), of 0 1] loop_ok(4) by simp

text \<open>C34: the entry of the first place is lost for a transition without pre places, because
  \<open>createTransitionEquation\<close> compares with a cell it has not written: the net that only produces on its first place gets
  no significant place at all, although it has more than one reachable marking.\<close>

theorem setSignificantPlaces_source_place:
  "setSignificantPlaces (5, 0) 2 source_data = Inr (source_data, 0, 0) \<and>
   (\<exists>M. net_reach (the_net source_data) (marking_of (marking_initial (the_places source_data))) M \<and> M 0 = 1) \<and>
   marking_of (marking_initial (the_places source_data)) 0 = 0"
proof -
  let ?N = "the_net source_data" and ?M0 = "marking_of (marking_initial (the_places source_data))"
  obtain D1 where D1: "setSignificantPlaces (5, 0) 2 source_data = Inr (D1, 0, 0)"
    using source_runs by (auto split: sum.splits)
  then have "D1 = source_data" by (rule setSignificantPlaces_none) (simp add: source_data_def)
  moreover have "net_reach ?N ?M0 (fire_at ?N 0 ?M0)"
    by (rule reach_step [OF reach_refl fire_step]) (simp_all add: enabled_at_def weight_def source_data_def)
  moreover have "fire_at ?N 0 ?M0 0 = 1" "?M0 0 = 0"
    by (simp_all add: fire_at_def weight_def source_data_def loaded_places_def marking_of_def)
  ultimately show ?thesis using D1 by blast
qed

end
