(* ===== verification/ParserProps.thy ===== *)
theory ParserProps
  imports NetParser SignificantProps
begin

text \<open>
  What the parser of net files makes of a derivation: the tables of places and transitions, and the net that is read off
  them.
\<close>

section \<open>Tables as maps\<close>

lemma fold_error_invariant:
  assumes "fold_error f xs s = Inr s'" "I [] s" "\<And>ys y s s'. I ys s \<Longrightarrow> f y s = Inr s' \<Longrightarrow> I (ys @ [y]) s'"
  shows "I xs s'"
proof -
  have "fold_error f xs s = Inr s' \<Longrightarrow> I ys s \<Longrightarrow> I (ys @ xs) s'" for ys s
  proof (induction xs arbitrary: ys s)
    case (Cons x xs)
    then obtain s1 where s1: "f x s = Inr s1" "fold_error f xs s1 = Inr s'" by (auto split: sum.splits)
    then show ?case using Cons.IH [OF s1(2) assms(3) [OF Cons.prems(2) s1(1)]] by simp
  qed simp
  then show ?thesis using assms(1,2) by fastforce
qed

lemmas insert_abs = hashed_names.insert_declared
  and update_abs = hashed_names.update_law
  and fold_update_abs = hashed_names.updates

section \<open>Places\<close>

definition declarations :: "(capacity_syntax \<times> string list) list \<Rightarrow> (string \<times> place_symbol) list" where
  "declarations pls = concat (map (\<lambda>(c, ks). map (\<lambda>k. (k, PlaceSymbol (the_capacity c))) ks) pls)"

lemma further_places_abs:
  assumes "fold_error (further_place cap) ks PT = Inr PT'" "table_ok PT" "map_of (entries PT) = map_of ds"
  shows "table_ok PT' \<and> map_of (entries PT') = map_of (ds @ map (\<lambda>k. (k, PlaceSymbol cap)) ks)"
proof (rule fold_error_invariant [OF assms(1), where I = "\<lambda>ks PT. table_ok PT \<and> map_of (entries PT) = map_of (ds @ map (\<lambda>k. (k, PlaceSymbol cap)) ks)"])
  fix ys y s s'
  assume i: "table_ok s \<and> map_of (entries s) = map_of (ds @ map (\<lambda>k. (k, PlaceSymbol cap)) ys)" and f: "further_place cap y s = Inr s'"
  obtain b T where t: "insert_symbol y (PlaceSymbol cap) s = (b, T)" by fastforce
  then have "T = s'" using f by (auto simp: further_place_def split: if_splits)
  then show "table_ok s' \<and> map_of (entries s') = map_of (ds @ map (\<lambda>k. (k, PlaceSymbol cap)) (ys @ [y]))"
    using insert_abs(1,2) [OF conjunct1 [OF i] conjunct2 [OF i] t] by (simp only: map_append list.map append_assoc)
qed (use assms in simp)

lemma placelist_abs:
  assumes "placelist (c, ks) PT = Inr PT'" "table_ok PT" "map_of (entries PT) = map_of ds"
  shows "table_ok PT' \<and> map_of (entries PT') = map_of (ds @ map (\<lambda>k. (k, PlaceSymbol (the_capacity c))) ks)"
proof (cases ks)
  case Nil
  then show ?thesis using assms by simp
next
  case (Cons k rest)
  obtain b T where t: "insert_symbol k (PlaceSymbol (the_capacity c)) PT = (b, T)" by fastforce
  have "fold_error (further_place (the_capacity c)) rest T = Inr PT'" using assms(1) Cons t by simp
  from further_places_abs [OF this insert_abs(1,2) [OF assms(2,3) t]] show ?thesis using Cons by simp
qed

lemma places_abs:
  assumes "fold_error placelist pls empty_table = Inr PT"
  shows "table_ok PT \<and> map_of (entries PT) = map_of (declarations pls)"
proof (rule fold_error_invariant [OF assms, where I = "\<lambda>pls PT. table_ok PT \<and> map_of (entries PT) = map_of (declarations pls)"])
  fix ys s s' and y :: "capacity_syntax \<times> string list"
  assume i: "table_ok s \<and> map_of (entries s) = map_of (declarations ys)" and f: "placelist y s = Inr s'"
  obtain c ks where y: "y = (c, ks)" by fastforce
  show "table_ok s' \<and> map_of (entries s') = map_of (declarations (ys @ [y]))"
    using placelist_abs [OF f [unfolded y] conjunct1 [OF i] conjunct2 [OF i]] y by (simp add: declarations_def)
qed (simp add: table_ok_empty declarations_def)

section \<open>Markings\<close>

definition tokens_of :: "nat option \<Rightarrow> capacity_t" where
  "tokens_of n = (case n of Some n \<Rightarrow> of_nat n | None \<Rightarrow> 1)"

definition marked :: "(string \<times> nat option) list \<Rightarrow> string \<Rightarrow> capacity_t" where
  "marked ms k = (\<Sum>(q, n)\<leftarrow>ms. if q = k then tokens_of n else 0)"

lemma markings_abs:
  assumes "fold_error marking_action ms PT = Inr PT'" "table_ok PT"
  shows "table_ok PT' \<and> (\<forall>k. map_of (entries PT') k = map_option (addInitialMarking (marked ms k)) (map_of (entries PT) k))"
proof (rule fold_error_invariant [OF assms(1), where I = "\<lambda>ms PT'. table_ok PT' \<and>
      (\<forall>k. map_of (entries PT') k = map_option (addInitialMarking (marked ms k)) (map_of (entries PT) k))"])
  fix ys s s' and y :: "string \<times> nat option"
  assume i: "table_ok s \<and> (\<forall>k. map_of (entries s) k = map_option (addInitialMarking (marked ys k)) (map_of (entries PT) k))"
    and f: "marking_action y s = Inr s'"
  have s': "s' = update_symbol (fst y) (addInitialMarking (tokens_of (snd y))) s"
    using f by (auto simp: marking_action_def tokens_of_def split: option.splits)
  note u = update_abs [OF conjunct1 [OF i], of "fst y" "addInitialMarking (tokens_of (snd y))", folded s']
  have "map_of (entries s') k = map_option (addInitialMarking (marked (ys @ [y]) k)) (map_of (entries PT) k)" for k
    using u(2) [of k] i
    by (cases "map_of (entries PT) k"; cases y) (auto simp: marked_def addInitialMarking_def add.assoc)
  then show "table_ok s' \<and> (\<forall>k. map_of (entries s') k = map_option (addInitialMarking (marked (ys @ [y]) k)) (map_of (entries PT) k))"
    using u(1) by blast
next
  have "addInitialMarking (marked [] k) = id" for k by (auto simp: marked_def addInitialMarking_def)
  then show "table_ok PT \<and> (\<forall>k. map_of (entries PT) k = map_option (addInitialMarking (marked [] k)) (map_of (entries PT) k))"
    using assms(2) by (simp add: option.map_id0)
qed

section \<open>Transitions\<close>

definition weights_of :: "(string \<times> nat option) list \<Rightarrow> (string \<times> mult_t) list" where
  "weights_of as = map (\<lambda>(q, n). (q, case n of Some n \<Rightarrow> of_nat n | None \<Rightarrow> 1)) as"

definition transition_of :: "transition_syntax \<Rightarrow> named_transition" where
  "transition_of x = \<lparr>nt_fairness = tsx_fairness x, nt_pre = arclist (weights_of (tsx_consume x)),
     nt_post = arclist (weights_of (tsx_produce x))\<rparr>"

lemma arclist_keys: "fst ` set (arclist as) = fst ` set as"
proof (induction as)
  case (Cons a as)
  have "arclist (a # as) = arclist_cons a (arclist as)" by (simp add: arclist_def)
  moreover have "fst ` set (addMultiplicity p i al) = fst ` set al" for p i and al :: "('a \<times> mult_t) list"
    by (metis addMultiplicity_keys list.set_map)
  ultimately show ?case using Cons by (auto simp: arclist_cons_def)
qed (simp add: arclist_def)

lemma arcs_abs:
  assumes "fold_error (arc_action PT) as [] = Inr arcs"
  shows "arcs = weights_of as \<and> (\<forall>a \<in> set as. lookup_symbol (fst a) PT \<noteq> None)"
proof (rule fold_error_invariant [OF assms, where I = "\<lambda>as arcs. arcs = weights_of as \<and> (\<forall>a \<in> set as. lookup_symbol (fst a) PT \<noteq> None)"])
  fix ys s s' and y :: "string \<times> nat option"
  assume i: "s = weights_of ys \<and> (\<forall>a \<in> set ys. lookup_symbol (fst a) PT \<noteq> None)" and f: "arc_action PT y s = Inr s'"
  have "lookup_symbol (fst y) PT \<noteq> None" "s' = s @ [(fst y, case snd y of Some n \<Rightarrow> of_nat n | None \<Rightarrow> 1)]"
    using f by (auto simp: arc_action_def split: option.splits)
  then show "s' = weights_of (ys @ [y]) \<and> (\<forall>a \<in> set (ys @ [y]). lookup_symbol (fst a) PT \<noteq> None)"
    using i by (cases y) (simp add: weights_of_def)
qed (simp add: weights_of_def)

lemma arclist_abs:
  assumes "arclist_action PT as = Inr r" "table_ok PT"
  shows "r = arclist (weights_of as)" "fst ` set r \<subseteq> dom (map_of (entries PT))"
proof -
  obtain arcs where arcs: "fold_error (arc_action PT) as [] = Inr arcs" "r = arclist arcs"
    using assms(1) by (auto simp: arclist_action_def split: sum.splits)
  note a = arcs_abs [OF arcs(1)]
  show "r = arclist (weights_of as)" using a arcs(2) by blast
  have "fst ` set (weights_of as) = fst ` set as" by (force simp: weights_of_def)
  then show "fst ` set r \<subseteq> dom (map_of (entries PT))"
    using a unfolding arcs(2) arclist_keys lookup_symbol_map [OF assms(2)] by auto
qed

text \<open>How many transitions have an arc from, respectively to, a place.\<close>

definition arc_count :: "(named_transition \<Rightarrow> (string \<times> mult_t) list) \<Rightarrow> named_transition list \<Rightarrow> string \<Rightarrow> nat" where
  "arc_count sel ts k = (\<Sum>t\<leftarrow>ts. length (filter (\<lambda>a. fst a = k) (sel t)))"

definition counted :: "named_transition list \<Rightarrow> string \<Rightarrow> place_symbol \<Rightarrow> place_symbol" where
  "counted ts k p = p\<lparr>ps_cardPost := ps_cardPost p + arc_count nt_pre ts k, ps_cardPre := ps_cardPre p + arc_count nt_post ts k\<rparr>"

lemma notify_powers:
  "(notifyPost ^^ n) p = p\<lparr>ps_cardPost := ps_cardPost p + n\<rparr>" "(notifyPre ^^ n) p = p\<lparr>ps_cardPre := ps_cardPre p + n\<rparr>"
  by (induction n) (simp_all add: notifyPost_def notifyPre_def)

lemma counted_snoc:
  "(notifyPre ^^ length (filter (\<lambda>a. fst a = k) (nt_post t))) ((notifyPost ^^ length (filter (\<lambda>a. fst a = k) (nt_pre t))) (counted ts k p)) =
   counted (ts @ [t]) k p"
  by (simp add: notify_powers counted_def arc_count_def)

text \<open>The tables while the transitions are read; \<open>m\<close> is the table of places before.\<close>

definition tables_abs :: "(string \<Rightarrow> place_symbol option) \<Rightarrow> transition_syntax list \<Rightarrow> parser_tables \<Rightarrow> bool" where
  "tables_abs m xs tables \<longleftrightarrow>
     table_ok (fst tables) \<and> table_ok (snd tables) \<and>
     (\<forall>k. map_of (entries (fst tables)) k = map_option (counted (map transition_of xs) k) (m k)) \<and>
     map_of (entries (snd tables)) = map_of (map (\<lambda>x. (tsx_name x, transition_of x)) xs) \<and>
     distinct (map tsx_name xs) \<and>
     (\<forall>x \<in> set xs. fst ` set (nt_pre (transition_of x)) \<union> fst ` set (nt_post (transition_of x)) \<subseteq> dom m)"

lemma tables_abs_step:
  assumes i: "tables_abs m xs (PT, TT)" and f: "transition_action x (PT, TT) = Inr (PT', TT')"
  shows "tables_abs m (xs @ [x]) (PT', TT')"
proof -
  have ok: "table_ok PT" "table_ok TT"
    and m: "\<And>k. map_of (entries PT) k = map_option (counted (map transition_of xs) k) (m k)"
    and t: "map_of (entries TT) = map_of (map (\<lambda>x. (tsx_name x, transition_of x)) xs)"
    and d: "distinct (map tsx_name xs)"
    and k: "\<forall>x \<in> set xs. fst ` set (nt_pre (transition_of x)) \<union> fst ` set (nt_post (transition_of x)) \<subseteq> dom m"
    using i by (simp_all add: tables_abs_def)
  obtain pr po where a: "arclist_action PT (tsx_consume x) = Inr pr" "arclist_action PT (tsx_produce x) = Inr po"
    using f by (auto simp: transition_action_def split: sum.splits)
  have dm: "dom (map_of (entries PT)) = dom m" using m by (auto simp: dom_def)
  note pr = arclist_abs [OF a(1) ok(1)] and po = arclist_abs [OF a(2) ok(1)]
  let ?PT1 = "fold (\<lambda>a. update_symbol (fst a) notifyPost) pr PT"
  let ?PT2 = "fold (\<lambda>a. update_symbol (fst a) notifyPre) po ?PT1"
  have tr: "TransitionSymbol (tsx_fairness x) pr po PT = (transition_of x, ?PT2)"
    by (simp add: TransitionSymbol_def transition_of_def pr(1) po(1))
  obtain b T where ins: "insert_symbol (tsx_name x) (transition_of x) TT = (b, T)" by fastforce
  have r: "b" "PT' = ?PT2" "TT' = T"
    using f a tr ins by (simp_all add: transition_action_def split: if_splits)
  note I = insert_abs [OF ok(2) t ins]
  note P1 = fold_update_abs [OF ok(1), where f = notifyPost and as = pr]
  note P2 = fold_update_abs [OF conjunct1 [OF P1], where f = notifyPre and as = po]
  have "map_of (entries PT') q = map_option (counted (map transition_of (xs @ [x])) q) (m q)" for q
  proof -
    have "map_of (entries PT') q =
        map_option ((notifyPre ^^ length (filter (\<lambda>a. fst a = q) po)) \<circ> (notifyPost ^^ length (filter (\<lambda>a. fst a = q) pr)) \<circ>
          counted (map transition_of xs) q) (m q)"
      using conjunct2 [OF P1, of q] conjunct2 [OF P2, of q] m r(2) by (simp add: option.map_comp comp_def)
    moreover have "(notifyPre ^^ length (filter (\<lambda>a. fst a = q) po)) \<circ> (notifyPost ^^ length (filter (\<lambda>a. fst a = q) pr)) \<circ>
        counted (map transition_of xs) q = counted (map transition_of (xs @ [x])) q"
      using counted_snoc [of q "transition_of x" "map transition_of xs"] pr(1) po(1)
      by (intro ext) (simp add: transition_of_def)
    ultimately show ?thesis by simp
  qed
  moreover have "tsx_name x \<notin> tsx_name ` set xs" using I(3) r(1) by (force simp: image_image)
  moreover have "fst ` set (nt_pre (transition_of x)) \<union> fst ` set (nt_post (transition_of x)) \<subseteq> dom m"
    using pr po dm by (simp add: transition_of_def)
  ultimately show ?thesis
    using I(1,2) conjunct1 [OF P2] r(2,3) d k by (simp add: tables_abs_def)
qed

lemma transitions_abs:
  assumes "fold_error transition_action xs (PT, empty_table) = Inr tables" "table_ok PT"
  shows "tables_abs (map_of (entries PT)) xs tables"
proof (rule fold_error_invariant [OF assms(1), where I = "tables_abs (map_of (entries PT))"])
  fix ys y and s s' :: parser_tables
  show "tables_abs (map_of (entries PT)) (ys @ [y]) s'" if "tables_abs (map_of (entries PT)) ys s" "transition_action y s = Inr s'"
    using tables_abs_step [of _ ys "fst s" "snd s" y "fst s'" "snd s'"] that by simp
next
  have "counted [] k = id" for k by (auto simp: counted_def arc_count_def)
  then show "tables_abs (map_of (entries PT)) [] (PT, empty_table)"
    using assms(2) table_ok_empty by (simp add: tables_abs_def option.map_id0)
qed

section \<open>The net of the tables\<close>

lemma position_nth: "distinct names \<Longrightarrow> i < length names \<Longrightarrow> position names (names ! i) = i"
  by (induction names arbitrary: i) (auto simp: nth_Cons split: nat.splits)

lemma position_less: "k \<in> set names \<Longrightarrow> position names k < length names \<and> names ! position names k = k"
  by (induction names) auto

lemma position_eq: "distinct names \<Longrightarrow> k \<in> set names \<Longrightarrow> i < length names \<Longrightarrow> position names k = i \<longleftrightarrow> k = names ! i"
  using position_nth position_less by metis

definition indexed :: "string list \<Rightarrow> (string \<times> mult_t) list \<Rightarrow> (arrayindex_t \<times> mult_t) list" where
  "indexed names as = map (\<lambda>(k, w). (position names k, w)) as"

lemma indexed_weight:
  assumes "distinct names" "fst ` set as \<subseteq> set names" "i < length names"
  shows "weight_in (indexed names as) i = weight_in as (names ! i)"
  using assms(2)
proof (induction as)
  case (Cons a as)
  obtain q w where a: "a = (q, w)" "q \<in> set names" using Cons.prems by (cases a) auto
  have "position names q = i \<longleftrightarrow> q = names ! i" by (rule position_eq [OF assms(1) a(2) assms(3)])
  then show ?case using Cons a(1) by (cases "q = names ! i") (auto simp: indexed_def)
qed (simp add: indexed_def)

lemma indexed_count:
  assumes "distinct names" "fst ` set as \<subseteq> set names" "i < length names"
  shows "length (filter (\<lambda>a. fst a = i) (indexed names as)) = length (filter (\<lambda>a. fst a = names ! i) as)"
  using assms(2)
proof (induction as)
  case (Cons a as)
  obtain q w where a: "a = (q, w)" "q \<in> set names" using Cons.prems by (cases a) auto
  have "position names q = i \<longleftrightarrow> q = names ! i" by (rule position_eq [OF assms(1) a(2) assms(3)])
  then show ?case using Cons a(1) by (cases "q = names ! i") (auto simp: indexed_def)
qed (simp add: indexed_def)

lemma indexed_distinct:
  assumes "distinct (map fst as)" "fst ` set as \<subseteq> set names"
  shows "distinct (map fst (indexed names as))"
proof -
  have "map fst (indexed names as) = map (position names) (map fst as)" by (simp add: indexed_def case_prod_unfold)
  moreover have "inj_on (position names) (set (map fst as))"
    using assms(2) position_less by (intro inj_onI) (metis list.set_map subsetD)
  ultimately show ?thesis using assms(1) by (simp only: distinct_map [of "position names" "map fst as"] simp_thms)
qed

lemma same_keys_mset:
  assumes "distinct (map fst xs)" "distinct (map fst ys)" "map_of xs = map_of ys"
  shows "mset xs = mset ys"
proof -
  have "(k, v) \<in> set xs \<longleftrightarrow> (k, v) \<in> set ys" for k v
    using map_of_eq_Some_iff [OF assms(1)] map_of_eq_Some_iff [OF assms(2)] assms(3) by metis
  then have "set xs = set ys" by auto
  then show ?thesis using assms(1,2) by (simp add: set_eq_iff_mset_eq_distinct distinct_map)
qed

lemma arc_count_perm: "mset ts = mset us \<Longrightarrow> arc_count sel ts k = arc_count sel us k"
  unfolding arc_count_def by (simp flip: sum_mset_sum_list)

definition arc_sum :: "(string \<times> nat option) list \<Rightarrow> string \<Rightarrow> mult_t" where
  "arc_sum as k = (\<Sum>(q, w)\<leftarrow>weights_of as. if q = k then w else 0)"

lemma arclist_arc_sum: "weight_in (arclist (weights_of as)) k = unat (arc_sum as k)"
  by (simp add: arclist_weight arc_sum_def)

lemma length_place_arcs_nth:
  assumes "i < n"
  shows "length (place_arcs sel n tss ! i) = (\<Sum>t\<leftarrow>tss. length (filter (\<lambda>a. fst a = i) (sel t)))"
proof -
  have "(\<Sum>(j, t)\<leftarrow>enumerate m tss. length (filter (\<lambda>a. fst a = i) (sel t))) = (\<Sum>t\<leftarrow>tss. length (filter (\<lambda>a. fst a = i) (sel t)))" for m
    by (induction tss arbitrary: m) simp_all
  then show ?thesis by (simp add: place_arcs_nth [OF assms] length_concat comp_def case_prod_unfold)
qed

text \<open>What the parser has read off a derivation.\<close>

lemma parser_abs:
  assumes "ParserPTNetLoLA x = Inr tables"
  shows "\<exists>m. tables_abs m (transitionlist x) tables \<and>
    (\<forall>k. m k = map_option (addInitialMarking (marked (markinglist x) k)) (map_of (declarations (placelists x)) k))"
proof -
  obtain PT PT1 where p: "fold_error placelist (placelists x) empty_table = Inr PT"
    "fold_error marking_action (markinglist x) PT = Inr PT1"
    "fold_error transition_action (transitionlist x) (PT1, empty_table) = Inr tables"
    using assms by (auto simp: ParserPTNetLoLA_def split: sum.splits)
  note a = places_abs [OF p(1)]
  note b = markings_abs [OF p(2) conjunct1 [OF a]]
  show ?thesis using transitions_abs [OF p(3) conjunct1 [OF b]] a b by (intro exI [of _ "map_of (entries PT1)"]) simp
qed

lemma declared_symbol: "map_of (declarations pls) k = Some p \<Longrightarrow> \<exists>cap. p = PlaceSymbol cap"
  by (drule map_of_SomeD) (auto simp: declarations_def)

text \<open>A transition of the net and its derivation.\<close>

definition built_from :: "net_syntax \<Rightarrow> parsed_net \<Rightarrow> bool" where
  "built_from x P \<longleftrightarrow>
     distinct (place_names P) \<and> set (place_names P) = fst ` set (declarations (placelists x)) \<and>
     distinct (transition_names P) \<and> set (transition_names P) = tsx_name ` set (transitionlist x) \<and>
     Card (pn_net P) PL = length (place_names P) \<and> Card (pn_net P) TR = length (transition_names P) \<and>
     (\<forall>i < length (place_names P).
        pn_initial P ! i = marked (markinglist x) (place_names P ! i) \<and>
        map_of (declarations (placelists x)) (place_names P ! i) = Some (PlaceSymbol (pn_capacity P ! i)) \<and>
        pn_cardPost P ! i = length (Arcs (pn_net P) PL POST ! i) \<and> pn_cardPre P ! i = length (Arcs (pn_net P) PL PRE ! i)) \<and>
     (\<forall>t \<in> set (transitionlist x). \<forall>j < length (transition_names P). transition_names P ! j = tsx_name t \<longrightarrow>
        pn_fairness P ! j = tsx_fairness t \<and>
        (\<forall>i < length (place_names P).
           weight (pn_net P) PRE j i = unat (arc_sum (tsx_consume t) (place_names P ! i)) \<and>
           weight (pn_net P) POST j i = unat (arc_sum (tsx_produce t) (place_names P ! i))))"

text \<open>The parts of the result, with the facts that \<open>tables_abs\<close> gives for them.\<close>

lemma tables_parts:
  assumes A: "tables_abs m xs tables" and small: "length (entries (fst tables)) < 2 ^ 32"
  defines "es \<equiv> entries (fst tables)" and "ts \<equiv> entries (snd tables)"
  defines "names \<equiv> map fst es"
  shows "tables2net tables = Some \<lparr>place_names = names, transition_names = map fst ts, pn_fairness = map (nt_fairness \<circ> snd) ts,
      pn_capacity = map (ps_capacity \<circ> snd) es, pn_initial = map (initialMarking \<circ> snd) es,
      pn_cardPost = map (ps_cardPost \<circ> snd) es, pn_cardPre = map (ps_cardPre \<circ> snd) es,
      pn_net = symboltable2net (length es) (map (indexed_transition names \<circ> snd) ts)\<rparr>"
    and "distinct names" "set names = dom m"
    and "i < length es \<Longrightarrow> \<exists>p. m (names ! i) = Some p \<and> snd (es ! i) = counted (map transition_of xs) (names ! i) p"
    and "distinct (map fst ts)" "set (map fst ts) = tsx_name ` set xs"
    and "mset (map snd ts) = mset (map transition_of xs)"
    and "x \<in> set xs \<Longrightarrow> j < length ts \<Longrightarrow> fst (ts ! j) = tsx_name x \<Longrightarrow> snd (ts ! j) = transition_of x"
proof -
  have ok: "table_ok (fst tables)" "table_ok (snd tables)"
    and m: "\<And>k. map_of es k = map_option (counted (map transition_of xs) k) (m k)"
    and t: "map_of ts = map_of (map (\<lambda>x. (tsx_name x, transition_of x)) xs)"
    and d: "distinct (map tsx_name xs)"
    using A by (simp_all add: tables_abs_def es_def ts_def)
  have "unat (st_card (fst tables)) = length es"
    using table_okD(2) [OF ok(1)] small by (simp add: es_def unat_of_nat take_bit_nat_eq_self)
  then show "tables2net tables = Some \<lparr>place_names = names, transition_names = map fst ts, pn_fairness = map (nt_fairness \<circ> snd) ts,
      pn_capacity = map (ps_capacity \<circ> snd) es, pn_initial = map (initialMarking \<circ> snd) es,
      pn_cardPost = map (ps_cardPost \<circ> snd) es, pn_cardPre = map (ps_cardPre \<circ> snd) es,
      pn_net = symboltable2net (length es) (map (indexed_transition names \<circ> snd) ts)\<rparr>"
    by (simp add: tables2net_def symbols_entries es_def ts_def names_def Let_def)
  show dn: "distinct names" unfolding names_def es_def by (rule table_ok_distinct [OF ok(1)])
  have "set names = dom (map_of es)" by (simp add: names_def keys_dom)
  then show "set names = dom m" using m by (auto simp: dom_def)
  show "\<exists>p. m (names ! i) = Some p \<and> snd (es ! i) = counted (map transition_of xs) (names ! i) p" if "i < length es"
  proof -
    have "map_of es (names ! i) = Some (snd (es ! i))"
      using dn that nth_mem [OF that] by (simp add: names_def)
    then show ?thesis using m [of "names ! i"] by auto
  qed
  show dt: "distinct (map fst ts)" unfolding ts_def by (rule table_ok_distinct [OF ok(2)])
  have ds: "distinct (map fst (map (\<lambda>x. (tsx_name x, transition_of x)) xs))" using d by (simp add: comp_def)
  have ms: "mset ts = mset (map (\<lambda>x. (tsx_name x, transition_of x)) xs)" by (rule same_keys_mset [OF dt ds t])
  have "set (map fst ts) = set (map fst (map (\<lambda>x. (tsx_name x, transition_of x)) xs))"
    by (metis ms mset_map set_mset_mset)
  then show "set (map fst ts) = tsx_name ` set xs" by (simp add: image_image)
  have "mset (map snd ts) = mset (map snd (map (\<lambda>x. (tsx_name x, transition_of x)) xs))" by (metis ms mset_map)
  then show "mset (map snd ts) = mset (map transition_of xs)" by (simp add: comp_def)
  show "snd (ts ! j) = transition_of x" if x: "x \<in> set xs" "j < length ts" "fst (ts ! j) = tsx_name x"
  proof -
    have "map_of ts (tsx_name x) = Some (snd (ts ! j))" using dt nth_mem [OF x(2)] x(3) by (metis map_of_is_SomeI prod.collapse)
    moreover have "map_of (map (\<lambda>x. (tsx_name x, transition_of x)) xs) (tsx_name x) = Some (transition_of x)"
      using ds x(1) by (intro map_of_is_SomeI) auto
    ultimately show ?thesis using t by simp
  qed
qed

lemma indexed_transition_arcs:
  "ts_pre (indexed_transition names t) = indexed names (nt_pre t)" "ts_post (indexed_transition names t) = indexed names (nt_post t)"
  by (simp_all add: indexed_transition_def indexed_def)

lemma parser_built:
  assumes parse: "ParserPTNetLoLA x = Inr tables" and small: "length (entries (fst tables)) < 2 ^ 32"
  shows "\<exists>P. tables2net tables = Some P \<and> built_from x P"
proof -
  let ?xs = "transitionlist x" and ?pls = "placelists x"
  obtain m where A: "tables_abs m ?xs tables"
    and m: "\<And>k. m k = map_option (addInitialMarking (marked (markinglist x) k)) (map_of (declarations ?pls) k)"
    using parser_abs [OF parse] by blast
  let ?es = "entries (fst tables)" and ?ts = "entries (snd tables)"
  let ?names = "map fst ?es" let ?tss = "map (indexed_transition ?names \<circ> snd) ?ts"
  let ?N = "symboltable2net (length ?es) ?tss"
  note T = tables_parts [OF A small]
  have keys: "fst ` set (nt_pre (transition_of t)) \<subseteq> set ?names" "fst ` set (nt_post (transition_of t)) \<subseteq> set ?names"
    if "t \<in> set ?xs" for t
    using A that T(3) unfolding tables_abs_def by blast+
  have tr: "\<exists>t \<in> set ?xs. u = transition_of t" if "u \<in> set (map snd ?ts)" for u
  proof -
    have "set (map snd ?ts) = set (map transition_of ?xs)" using T(7) by (metis set_mset_mset)
    then show ?thesis using that by auto
  qed
  obtain P where P: "tables2net tables = Some P" "place_names P = ?names" "transition_names P = map fst ?ts"
    "pn_fairness P = map (nt_fairness \<circ> snd) ?ts" "pn_capacity P = map (ps_capacity \<circ> snd) ?es"
    "pn_initial P = map (initialMarking \<circ> snd) ?es" "pn_cardPost P = map (ps_cardPost \<circ> snd) ?es"
    "pn_cardPre P = map (ps_cardPre \<circ> snd) ?es" "pn_net P = ?N"
    by (rule that [OF T(1)]) simp_all
  have places: "pn_initial P ! i = marked (markinglist x) (place_names P ! i) \<and>
      map_of (declarations ?pls) (place_names P ! i) = Some (PlaceSymbol (pn_capacity P ! i)) \<and>
      pn_cardPost P ! i = length (Arcs (pn_net P) PL POST ! i) \<and> pn_cardPre P ! i = length (Arcs (pn_net P) PL PRE ! i)"
    if "i < length (place_names P)" for i
  proof -
    have i: "i < length ?es" "i < length ?names" using that P(2) by simp_all
    obtain p where p: "m (?names ! i) = Some p" "snd (?es ! i) = counted (map transition_of ?xs) (?names ! i) p"
      using T(4) [OF i(1)] by blast
    have "\<exists>q. map_of (declarations ?pls) (?names ! i) = Some q \<and> addInitialMarking (marked (markinglist x) (?names ! i)) q = p"
      using trans [OF m [symmetric] p(1)] unfolding map_option_eq_Some .
    then obtain q where q: "map_of (declarations ?pls) (?names ! i) = Some q" "p = addInitialMarking (marked (markinglist x) (?names ! i)) q"
      by (elim exE conjE) simp
    obtain cap where cap: "q = PlaceSymbol cap" using declared_symbol [OF q(1)] by blast
    have val: "snd (?es ! i) = \<lparr>ps_capacity = cap, initialMarking = marked (markinglist x) (?names ! i),
        ps_cardPost = arc_count nt_pre (map transition_of ?xs) (?names ! i),
        ps_cardPre = arc_count nt_post (map transition_of ?xs) (?names ! i)\<rparr>"
      using p(2) q(2) cap by (simp add: counted_def addInitialMarking_def PlaceSymbol_def)
    have c: "length (place_arcs sel (length ?es) ?tss ! i) = arc_count nsel (map transition_of ?xs) (?names ! i)"
      if sel: "\<And>t. sel (indexed_transition ?names t) = indexed ?names (nsel t)"
        and k: "\<And>t. t \<in> set ?xs \<Longrightarrow> fst ` set (nsel (transition_of t)) \<subseteq> set ?names" for sel nsel
    proof -
      have one: "length (filter (\<lambda>a. fst a = i) (sel (indexed_transition ?names u))) = length (filter (\<lambda>a. fst a = ?names ! i) (nsel u))"
        if "u \<in> set (map snd ?ts)" for u
        using indexed_count [OF T(2) _ i(2), of "nsel u"] tr [OF that] k sel by auto
      have "length (place_arcs sel (length ?es) ?tss ! i) =
          (\<Sum>u\<leftarrow>map snd ?ts. length (filter (\<lambda>a. fst a = i) (sel (indexed_transition ?names u))))"
        using length_place_arcs_nth [OF i(1)] by (simp add: comp_def)
      also have "\<dots> = (\<Sum>u\<leftarrow>map snd ?ts. length (filter (\<lambda>a. fst a = ?names ! i) (nsel u)))"
        using one by (intro arg_cong [where f = sum_list] map_cong refl)
      also have "\<dots> = arc_count nsel (map transition_of ?xs) (?names ! i)"
        using arc_count_perm [OF T(7)] by (simp add: arc_count_def)
      finally show ?thesis .
    qed
    have "length (Arcs ?N PL POST ! i) = arc_count nt_pre (map transition_of ?xs) (?names ! i)"
      using c [of ts_pre nt_pre] indexed_transition_arcs(1) keys(1) by simp
    moreover have "length (Arcs ?N PL PRE ! i) = arc_count nt_post (map transition_of ?xs) (?names ! i)"
      using c [of ts_post nt_post] indexed_transition_arcs(2) keys(2) by simp
    ultimately show ?thesis using val q(1) cap i P by simp
  qed
  have transitions: "pn_fairness P ! j = tsx_fairness t \<and>
      (\<forall>i < length (place_names P). weight (pn_net P) PRE j i = unat (arc_sum (tsx_consume t) (place_names P ! i)) \<and>
         weight (pn_net P) POST j i = unat (arc_sum (tsx_produce t) (place_names P ! i)))"
    if t: "t \<in> set ?xs" "j < length (transition_names P)" "transition_names P ! j = tsx_name t" for t j
  proof -
    have j: "j < length ?ts" "fst (?ts ! j) = tsx_name t" using t(2,3) P(3) by simp_all
    have s: "snd (?ts ! j) = transition_of t" by (rule T(8) [OF t(1) j])
    have "weight ?N PRE j i = unat (arc_sum (tsx_consume t) (?names ! i)) \<and> weight ?N POST j i = unat (arc_sum (tsx_produce t) (?names ! i))"
      if i: "i < length ?names" for i
      using indexed_weight [OF T(2) keys(1) [OF t(1)] i] indexed_weight [OF T(2) keys(2) [OF t(1)] i] j(1) s
      by (simp add: weight_def indexed_transition_arcs transition_of_def arclist_arc_sum)
    then show ?thesis using j(1) s P by (simp add: transition_of_def)
  qed
  have "set (place_names P) = fst ` set (declarations ?pls)"
    using T(3) m P(2) by (auto simp: keys_dom dom_def)
  then show ?thesis
    using P T(2,5,6) places transitions unfolding built_from_def by (intro exI [of _ P]) simp
qed

section \<open>Which derivations are rejected\<close>

lemma fold_error_success:
  assumes "I [] s" and "\<And>ys y s s'. I ys s \<Longrightarrow> f y s = Inr s' \<Longrightarrow> I (ys @ [y]) s'"
    and ok: "\<And>ys y s. I ys s \<Longrightarrow> (\<exists>s'. f y s = Inr s') \<longleftrightarrow> C ys y"
  shows "(\<exists>s'. fold_error f xs s = Inr s') \<longleftrightarrow> (\<forall>i < length xs. C (take i xs) (xs ! i))"
proof -
  have "I ys s \<Longrightarrow> (\<exists>s'. fold_error f xs s = Inr s') \<longleftrightarrow> (\<forall>i < length xs. C (ys @ take i xs) (xs ! i))" for ys s
  proof (induction xs arbitrary: ys s)
    case (Cons x xs)
    show ?case
    proof (cases "f x s")
      case (Inl e)
      then have "\<not> C ys x" using ok [OF Cons.prems, of x] by auto
      then show ?thesis using Inl by (auto intro!: exI [of _ 0])
    next
      case (Inr s1)
      then have "C ys x" using ok [OF Cons.prems, of x] by auto
      then show ?thesis
        using Cons.IH [OF assms(2) [OF Cons.prems Inr]] Inr by (auto simp: less_Suc_eq_0_disj all_conj_distrib)
    qed
  qed simp
  then show ?thesis using assms(1) by fastforce
qed

text \<open>The first name of a place list is not compared with the lists before it.\<close>

definition list_fresh :: "(capacity_syntax \<times> string list) list \<Rightarrow> string list \<Rightarrow> bool" where
  "list_fresh pls ks \<longleftrightarrow> distinct ks \<and> set (tl ks) \<inter> fst ` set (declarations pls) = {}"

definition parse_ok :: "net_syntax \<Rightarrow> bool" where
  "parse_ok x \<longleftrightarrow>
     (\<forall>i < length (placelists x). list_fresh (take i (placelists x)) (snd (placelists x ! i))) \<and>
     fst ` set (markinglist x) \<subseteq> fst ` set (declarations (placelists x)) \<and>
     (\<forall>t \<in> set (transitionlist x). fst ` set (tsx_consume t) \<union> fst ` set (tsx_produce t) \<subseteq> fst ` set (declarations (placelists x))) \<and>
     distinct (map tsx_name (transitionlist x))"

lemma further_places_success:
  assumes "table_ok PT" "map_of (entries PT) = map_of ds"
  shows "(\<exists>PT'. fold_error (further_place cap) ks PT = Inr PT') \<longleftrightarrow> distinct ks \<and> set ks \<inter> fst ` set ds = {}"
proof -
  let ?I = "\<lambda>ys T. table_ok T \<and> map_of (entries T) = map_of (ds @ map (\<lambda>k. (k, PlaceSymbol cap)) ys)"
  have step: "?I (ys @ [y]) s'" if i: "?I ys s" and f: "further_place cap y s = Inr s'" for ys y s s'
  proof -
    have "fold_error (further_place cap) [y] s = Inr s'" using f by simp
    from further_places_abs [OF this conjunct1 [OF i] conjunct2 [OF i]] show ?thesis by simp
  qed
  have "(\<exists>s'. further_place cap y s = Inr s') \<longleftrightarrow> y \<notin> fst ` set ds \<union> set ys" if i: "?I ys s" for ys y s
  proof -
    obtain b T where t: "insert_symbol y (PlaceSymbol cap) s = (b, T)" by fastforce
    have "b \<longleftrightarrow> y \<notin> fst ` set (ds @ map (\<lambda>k. (k, PlaceSymbol cap)) ys)" by (rule insert_abs(3) [OF conjunct1 [OF i] conjunct2 [OF i] t])
    then show ?thesis using t by (auto simp: further_place_def image_Un image_image)
  qed
  from fold_error_success [where I = ?I and s = PT and xs = ks, OF _ step this] assms
  have "(\<exists>PT'. fold_error (further_place cap) ks PT = Inr PT') \<longleftrightarrow> (\<forall>i < length ks. ks ! i \<notin> fst ` set ds \<union> set (take i ks))"
    by simp
  also have "\<dots> \<longleftrightarrow> distinct ks \<and> set ks \<inter> fst ` set ds = {}"
  proof -
    have "distinct ks \<longleftrightarrow> (\<forall>i < length ks. ks ! i \<notin> set (take i ks))"
      by (induction ks rule: rev_induct) (auto simp: nth_append less_Suc_eq)
    then show ?thesis by (auto simp: in_set_conv_nth disjoint_iff)
  qed
  finally show ?thesis .
qed

lemma placelist_success:
  assumes "table_ok PT" "map_of (entries PT) = map_of (declarations pls)"
  shows "(\<exists>PT'. placelist (c, ks) PT = Inr PT') \<longleftrightarrow> list_fresh pls ks"
proof (cases ks)
  case Nil
  then show ?thesis by (simp add: list_fresh_def)
next
  case (Cons k rest)
  obtain b T where t: "insert_symbol k (PlaceSymbol (the_capacity c)) PT = (b, T)" by fastforce
  have "(\<exists>PT'. placelist (c, ks) PT = Inr PT') \<longleftrightarrow> (\<exists>PT'. fold_error (further_place (the_capacity c)) rest T = Inr PT')"
    using Cons t by simp
  also have "\<dots> \<longleftrightarrow> distinct rest \<and> set rest \<inter> fst ` set (declarations pls @ [(k, PlaceSymbol (the_capacity c))]) = {}"
    by (rule further_places_success [OF insert_abs(1,2) [OF assms t]])
  finally show ?thesis using Cons by (auto simp: list_fresh_def)
qed

lemma places_success:
  "(\<exists>PT. fold_error placelist pls empty_table = Inr PT) \<longleftrightarrow> (\<forall>i < length pls. list_fresh (take i pls) (snd (pls ! i)))"
proof (rule fold_error_success [where I = "\<lambda>pls PT. table_ok PT \<and> map_of (entries PT) = map_of (declarations pls)"])
  fix ys s s' and y :: "capacity_syntax \<times> string list"
  assume i: "table_ok s \<and> map_of (entries s) = map_of (declarations ys)"
  obtain c ks where y: "y = (c, ks)" by fastforce
  show "(\<exists>s'. placelist y s = Inr s') \<longleftrightarrow> list_fresh ys (snd y)"
    using placelist_success [OF conjunct1 [OF i] conjunct2 [OF i]] y by simp
  show "table_ok s' \<and> map_of (entries s') = map_of (declarations (ys @ [y]))" if f: "placelist y s = Inr s'"
    using placelist_abs [OF f [unfolded y] conjunct1 [OF i] conjunct2 [OF i]] y by (simp add: declarations_def)
qed (simp add: table_ok_empty declarations_def)

lemma markings_success:
  assumes "table_ok PT"
  shows "(\<exists>PT'. fold_error marking_action ms PT = Inr PT') \<longleftrightarrow> fst ` set ms \<subseteq> dom (map_of (entries PT))"
proof -
  let ?I = "\<lambda>ys T. table_ok T \<and> dom (map_of (entries T)) = dom (map_of (entries PT))"
  have step: "?I (ys @ [y]) s'" if i: "?I ys s" and f: "marking_action y s = Inr s'" for ys y s s'
  proof -
    have "fold_error marking_action [y] s = Inr s'" using f by simp
    from markings_abs [OF this conjunct1 [OF i]]
    have "table_ok s'" "\<forall>k. map_of (entries s') k = map_option (addInitialMarking (marked [y] k)) (map_of (entries s) k)" by blast+
    then show ?thesis using i by (auto simp: dom_def)
  qed
  have "(\<exists>s'. marking_action y s = Inr s') \<longleftrightarrow> fst y \<in> dom (map_of (entries PT))" if i: "?I ys s" for ys y s
    using i lookup_symbol_map [OF conjunct1 [OF i], of "fst y"]
    by (auto simp: marking_action_def domIff split: option.splits)
  from fold_error_success [where I = ?I and s = PT and xs = ms, OF _ step this] assms
  have "(\<exists>PT'. fold_error marking_action ms PT = Inr PT') \<longleftrightarrow> (\<forall>i < length ms. fst (ms ! i) \<in> dom (map_of (entries PT)))"
    by simp
  then show ?thesis by (simp only: image_subset_iff all_set_conv_all_nth)
qed

lemma arclist_success:
  assumes "table_ok PT"
  shows "(\<exists>r. arclist_action PT as = Inr r) \<longleftrightarrow> fst ` set as \<subseteq> dom (map_of (entries PT))"
proof -
  have "(\<exists>arcs. fold_error (arc_action PT) as [] = Inr arcs) \<longleftrightarrow> (\<forall>i < length as. fst (as ! i) \<in> dom (map_of (entries PT)))"
    by (rule fold_error_success [where I = "\<lambda>_ _. True"])
      (auto simp: arc_action_def lookup_symbol_map [OF assms] domIff split: option.splits)
  moreover have "(\<exists>r. arclist_action PT as = Inr r) \<longleftrightarrow> (\<exists>arcs. fold_error (arc_action PT) as [] = Inr arcs)"
    by (auto simp: arclist_action_def split: sum.splits)
  ultimately show ?thesis by (simp only: image_subset_iff all_set_conv_all_nth)
qed

lemma transition_success:
  assumes "tables_abs m xs (PT, TT)"
  shows "(\<exists>r. transition_action x (PT, TT) = Inr r) \<longleftrightarrow>
    fst ` set (tsx_consume x) \<union> fst ` set (tsx_produce x) \<subseteq> dom m \<and> tsx_name x \<notin> tsx_name ` set xs"
proof -
  have ok: "table_ok PT" "table_ok TT" and d: "dom (map_of (entries PT)) = dom m"
    and t: "map_of (entries TT) = map_of (map (\<lambda>x. (tsx_name x, transition_of x)) xs)"
    using assms by (auto simp: tables_abs_def dom_def)
  note arcs = arclist_success [OF ok(1), unfolded d]
  show ?thesis
  proof (cases "fst ` set (tsx_consume x) \<union> fst ` set (tsx_produce x) \<subseteq> dom m")
    case True
    then have "fst ` set (tsx_consume x) \<subseteq> dom m" "fst ` set (tsx_produce x) \<subseteq> dom m" by simp_all
    then have "\<exists>r. arclist_action PT (tsx_consume x) = Inr r" "\<exists>r. arclist_action PT (tsx_produce x) = Inr r"
      by (simp_all only: arcs)
    then obtain pr po where a: "arclist_action PT (tsx_consume x) = Inr pr" "arclist_action PT (tsx_produce x) = Inr po"
      by (elim exE)
    obtain u PT1 where u: "TransitionSymbol (tsx_fairness x) pr po PT = (u, PT1)" by fastforce
    obtain b T where ins: "insert_symbol (tsx_name x) u TT = (b, T)" by fastforce
    have b: "b \<longleftrightarrow> tsx_name x \<notin> tsx_name ` set xs" using insert_abs(3) [OF ok(2) t ins] by (simp add: image_image)
    have "transition_action x (PT, TT) = (if \<not> b then Inl (Transition_used_twice (tsx_name x)) else Inr (PT1, T))"
      using a u ins by (simp add: transition_action_def)
    then show ?thesis using True b by simp
  next
    case False
    then have "\<not> (\<exists>r. arclist_action PT (tsx_consume x) = Inr r) \<or> \<not> (\<exists>r. arclist_action PT (tsx_produce x) = Inr r)"
      by (simp only: arcs Un_subset_iff de_Morgan_conj)
    then show ?thesis using False by (auto simp: transition_action_def split: sum.splits)
  qed
qed

lemma transitions_success:
  assumes "table_ok PT"
  shows "(\<exists>tables. fold_error transition_action xs (PT, empty_table) = Inr tables) \<longleftrightarrow>
    (\<forall>t \<in> set xs. fst ` set (tsx_consume t) \<union> fst ` set (tsx_produce t) \<subseteq> dom (map_of (entries PT))) \<and> distinct (map tsx_name xs)"
proof -
  let ?m = "map_of (entries PT)"
  have start: "tables_abs ?m [] (PT, empty_table)"
    using transitions_abs [of "[]" PT "(PT, empty_table)"] assms by simp
  have step: "tables_abs ?m (ys @ [y]) s'" if "tables_abs ?m ys s" "transition_action y s = Inr s'" for ys y and s s' :: parser_tables
    using tables_abs_step [of _ ys "fst s" "snd s" y "fst s'" "snd s'"] that by simp
  have one: "(\<exists>s'. transition_action y s = Inr s') \<longleftrightarrow>
      fst ` set (tsx_consume y) \<union> fst ` set (tsx_produce y) \<subseteq> dom ?m \<and> tsx_name y \<notin> tsx_name ` set ys"
    if "tables_abs ?m ys s" for ys y and s :: parser_tables
    using transition_success [of _ ys "fst s" "snd s" y] that by simp
  have "(\<exists>tables. fold_error transition_action xs (PT, empty_table) = Inr tables) \<longleftrightarrow>
      (\<forall>i < length xs. fst ` set (tsx_consume (xs ! i)) \<union> fst ` set (tsx_produce (xs ! i)) \<subseteq> dom ?m \<and>
         tsx_name (xs ! i) \<notin> tsx_name ` set (take i xs))"
    by (rule fold_error_success [where I = "tables_abs ?m", OF start step one])
  moreover have "distinct (map tsx_name xs) \<longleftrightarrow> (\<forall>i < length xs. tsx_name (xs ! i) \<notin> tsx_name ` set (take i xs))"
    by (induction xs rule: rev_induct) (auto simp: nth_append less_Suc_eq)
  ultimately show ?thesis unfolding all_set_conv_all_nth by blast
qed

lemma parser_success: "(\<exists>tables. ParserPTNetLoLA x = Inr tables) \<longleftrightarrow> parse_ok x"
proof (cases "fold_error placelist (placelists x) empty_table")
  case (Inl e)
  then have "\<not> (\<forall>i < length (placelists x). list_fresh (take i (placelists x)) (snd (placelists x ! i)))"
    using places_success [of "placelists x"] by simp
  then show ?thesis using Inl by (auto simp: ParserPTNetLoLA_def parse_ok_def)
next
  case (Inr PT)
  note P = places_abs [OF Inr]
  have fresh: "\<forall>i < length (placelists x). list_fresh (take i (placelists x)) (snd (placelists x ! i))"
    using places_success [of "placelists x"] Inr by simp
  have d: "dom (map_of (entries PT)) = fst ` set (declarations (placelists x))" using P by (simp add: keys_dom)
  note M = markings_success [OF conjunct1 [OF P], of "markinglist x", unfolded d]
  show ?thesis
  proof (cases "fold_error marking_action (markinglist x) PT")
    case (Inl e)
    then show ?thesis using Inr M by (auto simp: ParserPTNetLoLA_def parse_ok_def)
  next
    case (Inr PT1)
    note A = markings_abs [OF this conjunct1 [OF P]]
    have "dom (map_of (entries PT1)) = fst ` set (declarations (placelists x))" using A d by (auto simp: dom_def)
    note T = transitions_success [OF conjunct1 [OF A], of "transitionlist x", unfolded this]
    show ?thesis
      using T M fresh \<open>fold_error placelist _ _ = _\<close> Inr by (simp add: ParserPTNetLoLA_def parse_ok_def)
  qed
qed

section \<open>Well-formed nets\<close>

text \<open>Multiplicities have 16 bits, so a sum may be zero; the grammar does not exclude that.\<close>

definition nonzero_weights :: "net_syntax \<Rightarrow> bool" where
  "nonzero_weights x \<longleftrightarrow>
     (\<forall>t \<in> set (transitionlist x). (\<forall>k \<in> fst ` set (tsx_consume t). arc_sum (tsx_consume t) k \<noteq> 0) \<and>
        (\<forall>k \<in> fst ` set (tsx_produce t). arc_sum (tsx_produce t) k \<noteq> 0))"

lemma weights_of_keys: "fst ` set (weights_of as) = fst ` set as"
  by (force simp: weights_of_def)

lemma indexed_arcs_ok:
  assumes "fst ` set (arclist (weights_of as)) \<subseteq> set names" "\<forall>k \<in> fst ` set as. arc_sum as k \<noteq> 0"
  shows "distinct (map fst (indexed names (arclist (weights_of as))))"
    and "(p, w) \<in> set (indexed names (arclist (weights_of as))) \<Longrightarrow> p < length names \<and> w \<noteq> 0"
proof -
  let ?as = "arclist (weights_of as)"
  show "distinct (map fst (indexed names ?as))" by (rule indexed_distinct [OF arclist_distinct assms(1)])
  assume "(p, w) \<in> set (indexed names ?as)"
  then obtain k where k: "(k, w) \<in> set ?as" "p = position names k" by (auto simp: indexed_def)
  have mem: "k \<in> fst ` set ?as" using k(1) by force
  then have "p < length names" using assms(1) position_less k(2) by blast
  moreover have "unat w = unat (arc_sum as k)"
    using weight_in_mem [OF arclist_distinct k(1)] arclist_arc_sum by simp
  moreover have "arc_sum as k \<noteq> 0" using mem assms(2) unfolding arclist_keys weights_of_keys by blast
  ultimately show "p < length names \<and> w \<noteq> 0" by (metis unat_eq_zero)
qed

lemma parser_wf:
  assumes parse: "ParserPTNetLoLA x = Inr tables" and small: "length (entries (fst tables)) < 2 ^ 32"
    and P: "tables2net tables = Some P" and nz: "nonzero_weights x"
  shows "wf_net (pn_net P)" "p < Card (pn_net P) PL \<Longrightarrow> sorted (Arc (pn_net P) PL d p)"
proof -
  obtain m where A: "tables_abs m (transitionlist x) tables" using parser_abs [OF parse] by blast
  note T = tables_parts [OF A small]
  let ?names = "map fst (entries (fst tables))" and ?ts = "entries (snd tables)"
  let ?tss = "map (indexed_transition ?names \<circ> snd) ?ts"
  have net: "pn_net P = symboltable2net (length (entries (fst tables))) ?tss" using T(1) P by auto
  have "symbols_ok (length (entries (fst tables))) ?tss"
    unfolding symbols_ok_def
  proof (intro ballI)
    fix u as
    assume u: "u \<in> set ?tss" and as: "as \<in> {ts_pre u, ts_post u}"
    have "set (map snd ?ts) = set (map transition_of (transitionlist x))" using T(7) by (metis set_mset_mset)
    moreover obtain v where v: "v \<in> set (map snd ?ts)" "u = indexed_transition ?names v" using u by auto
    ultimately have "v \<in> set (map transition_of (transitionlist x))" by (simp only:)
    then obtain t where "t \<in> set (transitionlist x)" "v = transition_of t" by auto
    then have t: "t \<in> set (transitionlist x)" "u = indexed_transition ?names (transition_of t)" using v(2) by simp_all
    have keys: "fst ` set (nt_pre (transition_of t)) \<subseteq> set ?names" "fst ` set (nt_post (transition_of t)) \<subseteq> set ?names"
      using A t(1) T(3) unfolding tables_abs_def by blast+
    have "\<forall>k \<in> fst ` set (tsx_consume t). arc_sum (tsx_consume t) k \<noteq> 0"
      "\<forall>k \<in> fst ` set (tsx_produce t). arc_sum (tsx_produce t) k \<noteq> 0"
      using nz t(1) unfolding nonzero_weights_def by blast+
    note ok = indexed_arcs_ok [OF keys(1) [unfolded transition_of_def named_transition.simps] this(1)]
      indexed_arcs_ok [OF keys(2) [unfolded transition_of_def named_transition.simps] this(2)]
    have "as = indexed ?names (arclist (weights_of (tsx_consume t))) \<or> as = indexed ?names (arclist (weights_of (tsx_produce t)))"
      using as t(2) by (auto simp: indexed_transition_arcs transition_of_def)
    then have "distinct (map fst as) \<and> (\<forall>p w. (p, w) \<in> set as \<longrightarrow> p < length ?names \<and> w \<noteq> 0)" using ok by blast
    then show "distinct (map fst as) \<and> (\<forall>(p, w) \<in> set as. p < length (entries (fst tables)) \<and> w \<noteq> 0)"
      by (auto simp del: map_map)
  qed
  note s = this
  show "wf_net (pn_net P)" unfolding net by (rule symboltable2net_wf [OF s])
  show "sorted (Arc (pn_net P) PL d p)" if "p < Card (pn_net P) PL"
    using symboltable2net_sorted [OF s, of p d] that unfolding net by (simp add: strict_sorted_iff)
qed

section \<open>Properties\<close>

text \<open>C37: a \<open>SymbolTable\<close> stands for a finite map: \<open>lookup\<close> reads it, \<open>insert\<close> adds a name that is not in it and tells
  whether it did, and the iteration visits every symbol once.\<close>

theorem SymbolTable_refines_map:
  assumes "table_ok T"
  shows "lookup_symbol k T = map_of (entries T) k \<and>
    table_ok (snd (insert_symbol k a T)) \<and> fst (insert_symbol k a T) = (lookup_symbol k T = None) \<and>
    map_of (entries (snd (insert_symbol k a T))) =
      (if lookup_symbol k T = None then (map_of (entries T))(k \<mapsto> a) else map_of (entries T)) \<and>
    symbols T = Some (entries T) \<and> distinct (map fst (entries T)) \<and> st_card T = of_nat (length (entries T))"
proof -
  obtain b T' where i: "insert_symbol k a T = (b, T')" by fastforce
  show ?thesis
    using hashed_names.insert_law [OF assms i] lookup_symbol_map [OF assms] symbols_entries table_ok_distinct [OF assms]
      table_okD(2) [OF assms] i by simp
qed

theorem SymbolTable_refines_map_witness:
  "lookup_symbol ''p'' (snd (insert_symbol ''p'' (2 :: nat) (snd (insert_symbol ''p'' 1 empty_table)))) = Some 1"
proof -
  note first = SymbolTable_refines_map [OF table_ok_empty, of "''p''" "1 :: nat"]
  let ?T = "snd (insert_symbol ''p'' (1 :: nat) empty_table)"
  have ok: "table_ok ?T" and m: "map_of (entries ?T) = [''p'' \<mapsto> 1]" using first by simp_all
  note second = SymbolTable_refines_map [OF ok, of "''p''" 2]
  let ?T2 = "snd (insert_symbol ''p'' (2 :: nat) ?T)"
  have ok2: "table_ok ?T2" and m2: "map_of (entries ?T2) = [''p'' \<mapsto> 1]" using second m by simp_all
  show ?thesis using lookup_symbol_map [OF ok2] m2 by simp
qed

text \<open>C38: the parser of net files rejects exactly the derivations with a name that is declared twice within the same place
  list or again after the first name of a later list, an unknown place, or a transition name used twice.  Otherwise the net has the declared
  places and transitions, initial markings and arc weights that are the sums of what was written (modulo the width of the
  words), the capacity of the first declaration of a place, and arc arrays of the size that was counted; and if no
  weight wraps around to zero, it is a net as preprocessing expects it.\<close>

theorem parser_builds_net:
  assumes "length (declarations (placelists x)) < 2 ^ 32"
  shows "case ParserPTNetLoLA x of
      Inl e \<Rightarrow> \<not> parse_ok x
    | Inr tables \<Rightarrow> parse_ok x \<and>
        (\<exists>P. tables2net tables = Some P \<and> built_from x P \<and>
          (\<forall>H. nonzero_weights x \<and> hashes_ok (pn_net P) H \<and> bounded_net (pn_net P) (marking_of (pn_initial P)) \<longrightarrow>
             loaded_ok H (pn_capacity P) (pn_initial P) (pn_net P)))"
proof (cases "ParserPTNetLoLA x")
  case (Inl e)
  then show ?thesis using parser_success [of x] by simp
next
  case (Inr tables)
  obtain m where A: "tables_abs m (transitionlist x) tables"
    and m: "\<And>k. m k = map_option (addInitialMarking (marked (markinglist x) k)) (map_of (declarations (placelists x)) k)"
    using parser_abs [OF Inr] by blast
  have d: "distinct (map fst (entries (fst tables)))" "dom (map_of (entries (fst tables))) = dom m"
    using A table_ok_distinct by (auto simp: tables_abs_def dom_def)
  have "dom m = fst ` set (declarations (placelists x))" using m by (auto simp: keys_dom dom_def)
  then have "set (map fst (entries (fst tables))) = set (map fst (declarations (placelists x)))" using d(2) by (simp add: keys_dom)
  then have "length (entries (fst tables)) = card (set (map fst (declarations (placelists x))))"
    using distinct_card [OF d(1)] by (metis length_map)
  then have small: "length (entries (fst tables)) < 2 ^ 32"
    using card_length [of "map fst (declarations (placelists x))"] assms by simp
  obtain P where P: "tables2net tables = Some P" "built_from x P" using parser_built [OF Inr small] by blast
  note wf = parser_wf [OF Inr small P(1)]
  have len: "length (pn_capacity P) = Card (pn_net P) PL" "length (pn_initial P) = Card (pn_net P) PL"
    using tables_parts(1) [OF A small] P(1) by auto
  show ?thesis using Inr parser_success [of x] P wf len by (auto simp: loaded_ok_def)
qed

text \<open>A place that is declared again as the first of a later list is not an error.\<close>

definition sample_syntax :: net_syntax where
  "sample_syntax =
     \<lparr>placelists = [(Safe None, [''a'']), (Unlimited, [''a'', ''b''])], markinglist = [(''a'', None)],
      transitionlist = [\<lparr>tsx_name = ''t'', tsx_fairness = NO_FAIRNESS, tsx_consume = [(''a'', None)],
          tsx_produce = [(''b'', Some 2), (''b'', None)]\<rparr>]\<rparr>"

theorem parser_builds_net_witness:
  "\<exists>tables P. ParserPTNetLoLA sample_syntax = Inr tables \<and> tables2net tables = Some P \<and> built_from sample_syntax P"
proof -
  have "length (declarations (placelists sample_syntax)) < 2 ^ 32" by (simp add: sample_syntax_def declarations_def)
  note r = parser_builds_net [OF this]
  have "parse_ok sample_syntax"
    by (auto simp: parse_ok_def sample_syntax_def declarations_def list_fresh_def less_Suc_eq numeral_2_eq_2)
  then show ?thesis using r by (auto split: sum.splits)
qed

end
