(* ===== verification/LossySearch.thy ===== *)
theory LossySearch
  imports DFS_Correct
begin

text \<open>
  The depth first search over a store that may take a new marking for a known one, as hash compaction and Bloom filters
  do.  The search still returns, and a marking it reports has the property and is reached by the path on the stack; only
  a negative answer is unreliable.
\<close>

text \<open>\<open>seen s\<close>: the markings that the store takes for known.  An insertion may add others than the one inserted.\<close>

locale lossy_store =
  fixes sai :: "netstate \<Rightarrow> 's \<Rightarrow> bool \<times> 's"
    and sinv :: "'s \<Rightarrow> bool" and seen :: "'s \<Rightarrow> capacity_t list set" and dom_ns :: "netstate \<Rightarrow> bool"
  assumes sai_lossy:
    "dom_ns ns \<Longrightarrow> sinv s \<Longrightarrow> sai ns s = (b, s') \<Longrightarrow>
     sinv s' \<and> (b \<longleftrightarrow> Current ns \<in> seen s) \<and> insert (Current ns) (seen s) \<subseteq> seen s'"

text \<open>An exact store is one.\<close>

sublocale store_contract \<subseteq> lossy_store sai sinv stored dom_ns
  using sai_correct by unfold_locales blast

locale lossy_search =
  walk_contract N T H M0 ops pstart pinv phi finv flok +
  lossy_store "searchAndInsert ops" sinv seen "hashed_state N H M0"
  for N :: net and T :: transition_data and H :: "hash_t list" and M0 :: marking
    and ops :: "('p, 's, 'f) search_ops"
    and pstart :: "'p \<Rightarrow> bool" and pinv :: "netstate \<Rightarrow> 'p \<Rightarrow> bool" and phi :: "capacity_t list \<Rightarrow> bool"
    and finv :: "'f \<Rightarrow> bool" and flok :: "capacity_t list \<Rightarrow> arrayindex_t set \<Rightarrow> bool"
    and sinv :: "'s \<Rightarrow> bool" and seen :: "'s \<Rightarrow> capacity_t list set"
begin

definition fires_ok :: "netstate \<Rightarrow> arrayindex_t list \<Rightarrow> bool" where
  "fires_ok ns l \<longleftrightarrow> (\<forall>t \<in> set l. t < Card N TR \<and> Enabled ns ! t)"

fun track :: "netstate \<Rightarrow> frame list \<Rightarrow> netstate \<Rightarrow> bool" where
  "track ns0 [] ns \<longleftrightarrow> ns = ns0"
| "track ns0 ((ms, e) # fs) ns \<longleftrightarrow>
     good ms \<and> entry_current e < length (entry_fl e) \<and> fires_ok ms (entry_fl e) \<and>
     ns = succ_state N T (entry_trans e) ms \<and> track ns0 fs ms"

definition lossy_inv :: "netstate \<Rightarrow> frame list \<Rightarrow> ('p, 's, 'f) search_state \<Rightarrow> bool" where
  "lossy_inv ns0 fs s \<longleftrightarrow>
     represents (prop_stack s) (map snd fs) \<and> track ns0 fs (cur_ns s) \<and>
     good (cur_ns s) \<and> sinv (store_data s) \<and> pinv (cur_ns s) (prop_data s) \<and> finv (fl_data s) \<and>
     currentEntry s \<le> length (currentFirelist s) \<and> fires_ok (cur_ns s) (currentFirelist s)"

lemma lossy_invD:
  assumes "lossy_inv ns0 fs s"
  shows "represents (prop_stack s) (map snd fs)" "track ns0 fs (cur_ns s)" "good (cur_ns s)" "sinv (store_data s)"
    "pinv (cur_ns s) (prop_data s)" "finv (fl_data s)" "currentEntry s \<le> length (currentFirelist s)"
    "fires_ok (cur_ns s) (currentFirelist s)"
  using assms unfolding lossy_inv_def by blast+

lemma fires_ok_nth: "fires_ok ns l \<Longrightarrow> k < length l \<Longrightarrow> l ! k < Card N TR \<and> Enabled ns ! (l ! k)"
  using nth_mem [of k l] by (auto simp: fires_ok_def simp del: nth_mem)

lemma track_path:
  "track ns0 fs ns \<Longrightarrow> good ns0 \<Longrightarrow>
   good ns \<and> firing_sequence N (marking_of (Current ns0)) (rev (map (entry_trans \<circ> snd) fs)) (marking_of (Current ns))"
proof (induction fs arbitrary: ns)
  case (Cons f fs)
  obtain ms e where f: "f = (ms, e)" by (cases f)
  have c: "good ms" "entry_current e < length (entry_fl e)" "fires_ok ms (entry_fl e)"
    "ns = succ_state N T (entry_trans e) ms" "track ns0 fs ms" using Cons.prems(1) f by auto
  have t: "entry_trans e < Card N TR" "Enabled ms ! entry_trans e"
    using fires_ok_nth [OF c(3,2)] by (simp_all add: entry_trans_def)
  have "marking_of (Current ns) = fire_at N (entry_trans e) (marking_of (Current ms))"
    using marking_succ [OF c(1) t] c(4) by (simp add: Current_succ_state)
  then show ?case
    using Cons.IH [OF c(5) Cons.prems(2)] good_succ [OF c(1) t] t good_enabled [OF c(1) t(1)] f c(4)
    by (auto simp: firing_sequence_append)
qed simp

definition found_path :: "netstate \<Rightarrow> ('p, 's, 'f) search_state \<Rightarrow> bool" where
  "found_path ns0 s \<longleftrightarrow> (\<exists>fs. represents (prop_stack s) (map snd fs) \<and> track ns0 fs (cur_ns s)) \<and> phi (Current (cur_ns s))"

definition unseen :: "'s \<Rightarrow> nat" where
  "unseen st = card ({m. reachable_vec N M0 m} - seen st)"

lemma reachable_finite: "finite {m. reachable_vec N M0 m}"
proof (rule finite_subset)
  show "{m. reachable_vec N M0 m} \<subseteq> {m. set m \<subseteq> UNIV \<and> length m = Card N PL}" by (auto simp: reachable_vec_def)
  show "finite {m :: capacity_t list. set m \<subseteq> UNIV \<and> length m = Card N PL}"
    by (rule finite_lists_length_eq) simp
qed

lemma unseen_mono: "seen s \<subseteq> seen s' \<Longrightarrow> unseen s' \<le> unseen s"
  unfolding unseen_def by (intro card_mono) (use reachable_finite in auto)

lemma unseen_less:
  assumes "seen s \<subseteq> seen s'" "m \<in> seen s'" "m \<notin> seen s" "reachable_vec N M0 m"
  shows "unseen s' < unseen s"
  unfolding unseen_def by (rule psubset_card_mono) (use reachable_finite assms in auto)

text \<open>One iteration: it ends the search, or the invariant holds again and there is less to do.\<close>

definition less_to_do ::
  "('p, 's, 'f) search_state \<Rightarrow> frame list \<Rightarrow> ('p, 's, 'f) search_state \<Rightarrow> frame list \<Rightarrow> bool" where
  "less_to_do s' fs' s fs \<longleftrightarrow>
     unseen (store_data s') < unseen (store_data s) \<or>
     unseen (store_data s') \<le> unseen (store_data s) \<and> currentEntry s' + stack_load fs' < currentEntry s + stack_load fs"

lemma lossy_forward:
  assumes inv: "lossy_inv ns0 fs s" and pos: "0 < currentEntry s"
  shows "(\<exists>s'. df_step N T ops s = Some (Some True, s') \<and> found_path ns0 s') \<or>
    (\<exists>s' fs'. df_step N T ops s = Some (None, s') \<and> lossy_inv ns0 fs' s' \<and> less_to_do s' fs' s fs)"
proof -
  note I = lossy_invD [OF inv]
  define t where t: "t = currentFirelist s ! (currentEntry s - 1)"
  have en: "t < Card N TR" "Enabled (cur_ns s) ! t"
    using fires_ok_nth [OF I(8), of "currentEntry s - 1"] I(7) pos by (simp_all add: t)
  let ?ns2 = "succ_state N T t (cur_ns s)"
  define pushed where pushed: "pushed = \<lparr>entry_fl = currentFirelist s, entry_current = currentEntry s - 1\<rparr>"
  obtain b st where sai: "searchAndInsert ops (fire T t (cur_ns s)) (store_data s) = (b, st)" by fastforce
  have st: "sinv st" "b \<longleftrightarrow> fire_vec T t (Current (cur_ns s)) \<in> seen (store_data s)"
    "fire_vec T t (Current (cur_ns s)) \<in> seen st" "seen (store_data s) \<subseteq> seen st"
    using sai_lossy [OF hashed_fire [OF I(3) en] I(4) sai] by (auto simp: Current_fire)
  show ?thesis
  proof (cases b)
    case True
    let ?s' = "s\<lparr>store_data := st, currentEntry := currentEntry s - 1\<rparr>"
    have "df_step N T ops s = Some (None, ?s')"
      unfolding df_step_def df_forward_def Let_def t [symmetric]
      using pos sai True good_unfire [OF I(3), of t] by simp
    moreover have "lossy_inv ns0 fs ?s'" using I st(1) unfolding lossy_inv_def by simp
    moreover have "less_to_do ?s' fs s fs" using pos unseen_mono [OF st(4)] by (simp add: less_to_do_def)
    ultimately show ?thesis by blast
  next
    case b: False
    have g2: "good ?ns2" by (rule good_succ [OF I(3) en])
    obtain v p where chk: "checkProperty ops ?ns2 t (prop_data s) = (v, p)" by fastforce
    have v: "v = phi (Current ?ns2)" "pinv ?ns2 p" using chk_correct [OF I(3,5) en refl g2 chk] by auto
    let ?fs = "(cur_ns s, pushed) # fs"
    have rep: "represents (push pushed (prop_stack s)) (map snd ?fs)" using I(1) chunked.rep_push by simp
    have track: "track ns0 ?fs ?ns2"
      using I(2,3,7,8) pos by (simp add: pushed entry_trans_def t)
    show ?thesis
    proof (cases v)
      case True
      let ?s' = "s\<lparr>store_data := st, currentEntry := currentEntry s - 1, cur_ns := ?ns2, prop_data := p,
        prop_value := v, prop_stack := push pushed (prop_stack s)\<rparr>"
      have "df_step N T ops s = Some (Some True, ?s')"
        unfolding df_step_def df_forward_def Let_def t [symmetric] succ_state_def [symmetric] pushed [symmetric]
        using pos sai b chk True by simp
      moreover have "found_path ns0 ?s'"
        unfolding found_path_def using rep track v(1) True by (intro conjI exI [of _ ?fs]) simp_all
      ultimately show ?thesis by blast
    next
      case False
      obtain fl fd where get: "getFirelist ops ?ns2 p (fl_data s) = (fl, fd)" by fastforce
      let ?s' = "s\<lparr>store_data := st, currentEntry := length fl, cur_ns := ?ns2, prop_data := p, fl_data := fd,
        prop_value := v, prop_stack := push pushed (prop_stack s), currentFirelist := fl\<rparr>"
      have "df_step N T ops s = Some (None, ?s')"
        unfolding df_step_def df_forward_def Let_def t [symmetric] succ_state_def [symmetric] pushed [symmetric]
        using pos sai b chk False get by simp
      moreover have "finv fd" "fires_ok ?ns2 fl"
        using get_correct [OF g2 v(2) _ I(6) get] v(1) False by (auto simp: fires_ok_def)
      then have "lossy_inv ns0 ?fs ?s'"
        unfolding lossy_inv_def using rep track g2 st(1) v(2) by simp
      moreover have "unseen st < unseen (store_data s)"
        using unseen_less [OF st(4,3)] st(2) b good_parts(3) [OF g2] by (simp add: Current_succ_state)
      then have "less_to_do ?s' ?fs s fs" by (simp add: less_to_do_def)
      ultimately show ?thesis by blast
    qed
  qed
qed

lemma lossy_backward:
  assumes inv: "lossy_inv ns0 ((ms, e) # fs) s" and z: "currentEntry s = 0"
  shows "\<exists>s'. df_step N T ops s = Some (None, s') \<and> lossy_inv ns0 fs s' \<and> less_to_do s' fs s ((ms, e) # fs)"
proof -
  note I = lossy_invD [OF inv]
  have rep: "represents (prop_stack s) (e # map snd fs)" using I(1) by simp
  have ch: "good ms" "entry_current e < length (entry_fl e)" "fires_ok ms (entry_fl e)"
    "cur_ns s = succ_state N T (entry_trans e) ms" "track ns0 fs ms" using I(2) by auto
  have t: "entry_trans e < Card N TR" "Enabled ms ! entry_trans e"
    using fires_ok_nth [OF ch(3,2)] by (simp_all add: entry_trans_def)
  have restored: "revertEnabled N T (entry_trans e) (backfire T (entry_trans e) (cur_ns s)) = ms"
    using good_back [OF ch(1) t] ch(4) by simp
  obtain v p where upd: "updateProperty ops ms (entry_trans e) (prop_data s) = (v, p)" by fastforce
  have p: "pinv ms p" using upd_correct [OF ch(1) t ch(4) I(3) I(5) upd] .
  let ?s' = "s\<lparr>currentEntry := entry_current e, currentFirelist := entry_fl e,
    prop_stack := pop (prop_stack s), cur_ns := ms, prop_data := p, prop_value := v\<rparr>"
  have "df_step N T ops s = Some (None, ?s')"
    using z chunked.rep_top [OF rep] represents_StackPointer [OF rep] restored upd
    by (simp add: df_step_def df_backward_def Let_def entry_trans_def)
  moreover have "lossy_inv ns0 fs ?s'"
    unfolding lossy_inv_def using I(4,6) chunked.rep_pop [OF rep] ch p by simp
  moreover have "less_to_do ?s' fs s ((ms, e) # fs)" using z by (simp add: less_to_do_def)
  ultimately show ?thesis by blast
qed

lemma lossy_loop_total:
  assumes "lossy_inv ns0 fs s"
  shows "\<exists>b s'. df_loop N T ops s = Some (b, s') \<and> (b \<longrightarrow> found_path ns0 s')"
  using assms
proof (induction "(unseen (store_data s), currentEntry s + stack_load fs)" arbitrary: s fs
    rule: wf_induct_rule [OF wf_lex_prod [OF wf_less_than wf_less_than]])
  case (1 s fs)
  have go: "\<exists>b s'. df_loop N T ops s = Some (b, s') \<and> (b \<longrightarrow> found_path ns0 s')"
    if "df_step N T ops s = Some (None, s1)" "lossy_inv ns0 fs1 s1" "less_to_do s1 fs1 s fs" for s1 fs1
  proof -
    have "((unseen (store_data s1), currentEntry s1 + stack_load fs1), unseen (store_data s), currentEntry s + stack_load fs)
        \<in> less_than <*lex*> less_than"
      using that(3) by (auto simp: less_to_do_def)
    from 1(1) [OF this that(2)] show ?thesis using that(1) by (subst df_loop.simps) simp
  qed
  show ?case
  proof (cases "0 < currentEntry s")
    case True
    from lossy_forward [OF 1(2) this] show ?thesis
    proof
      assume "\<exists>s'. df_step N T ops s = Some (Some True, s') \<and> found_path ns0 s'"
      then show ?thesis by (subst df_loop.simps) auto
    next
      assume "\<exists>s' fs'. df_step N T ops s = Some (None, s') \<and> lossy_inv ns0 fs' s' \<and> less_to_do s' fs' s fs"
      then show ?thesis using go by blast
    qed
  next
    case False
    show ?thesis
    proof (cases fs)
      case Nil
      then have "StackPointer (prop_stack s) = 0"
        using represents_StackPointer [OF lossy_invD(1) [OF 1(2)]] by simp
      then have "df_loop N T ops s = Some (False, s)"
        using False by (subst df_loop.simps) (simp add: df_step_def)
      then show ?thesis by blast
    next
      case (Cons f fs')
      obtain ms e where f: "f = (ms, e)" by (cases f)
      have inv: "lossy_inv ns0 ((ms, e) # fs') s" using 1(2) Cons f by simp
      have z: "currentEntry s = 0" using False by simp
      obtain s' where "df_step N T ops s = Some (None, s')" "lossy_inv ns0 fs' s'" "less_to_do s' fs' s ((ms, e) # fs')"
        using lossy_backward [OF inv z] by blast
      then show ?thesis using go [of s' fs'] Cons f by simp
    qed
  qed
qed

text \<open>\<open>depth_first\<close> returns; on true, the path leads to a marking with the property.\<close>

lemma lossy_depth_first:
  assumes "good ns" "pstart p" "sinv st" "finv f"
  shows "\<exists>b s. depth_first N T ops p ns st f = Some (b, s) \<and> (b \<longrightarrow> (\<exists>ts. property_path (prop_stack s) = Some ts \<and>
    firing_sequence N (marking_of (Current ns)) ts (marking_of (Current (cur_ns s))) \<and>
    reachable_vec N M0 (Current (cur_ns s)) \<and> phi (Current (cur_ns s))))"
proof -
  have "\<exists>b s. depth_first N T ops p ns st f = Some (b, s) \<and> (b \<longrightarrow> found_path ns s)"
  proof -
    obtain v p1 where init: "initProperty ops ns p = (v, p1)" by fastforce
    have v: "v = phi (Current ns)" "pinv ns p1" using init_correct [OF assms(1,2) init] by auto
    show ?thesis
    proof (cases v)
      case True
      have "found_path ns \<lparr>cur_ns = ns, prop_data = p1, prop_value = v, prop_stack = empty_stack,
          store_data = st, fl_data = f, currentFirelist = [], currentEntry = 0\<rparr>"
        unfolding found_path_def using True v represents_empty by (simp, intro exI [of _ "[]"], simp)
      then show ?thesis using init True by (auto simp: depth_first_def)
    next
      case False
      obtain b st1 where sai: "searchAndInsert ops ns st = (b, st1)" by fastforce
      obtain fl fd where get: "getFirelist ops ns p1 f = (fl, fd)" by fastforce
      have "hashed_state N H M0 ns" using assms(1) by (simp add: good_state_def)
      then have st1: "sinv st1" using sai_lossy [OF _ assms(3) sai] by blast
      have fl: "finv fd" "fires_ok ns fl"
        using get_correct [OF assms(1) v(2) _ assms(4) get] v(1) False by (auto simp: fires_ok_def)
      have "lossy_inv ns [] \<lparr>cur_ns = ns, prop_data = p1, prop_value = v, prop_stack = empty_stack,
          store_data = st1, fl_data = fd, currentFirelist = fl, currentEntry = length fl\<rparr>"
        unfolding lossy_inv_def using assms(1) st1 fl v(2) represents_empty by simp
      from lossy_loop_total [OF this] show ?thesis using init False sai get by (simp add: depth_first_def)
    qed
  qed
  then obtain b s where r: "depth_first N T ops p ns st f = Some (b, s)" "b \<longrightarrow> found_path ns s" by blast
  have "\<exists>ts. property_path (prop_stack s) = Some ts \<and>
      firing_sequence N (marking_of (Current ns)) ts (marking_of (Current (cur_ns s))) \<and>
      reachable_vec N M0 (Current (cur_ns s)) \<and> phi (Current (cur_ns s))" if h: b
  proof -
    obtain fs where fs: "represents (prop_stack s) (map snd fs)" "track ns fs (cur_ns s)" "phi (Current (cur_ns s))"
      using r(2) h unfolding found_path_def by blast
    show ?thesis
      using property_path_represents [OF fs(1)] track_path [OF fs(2) assms(1)] fs(3) good_parts(3) by (simp add: map_map)
  qed
  then show ?thesis using r(1) by blast
qed

end

text \<open>Every exact search is a lossy one.\<close>

sublocale search_contract \<subseteq> lossy: lossy_search N T H M0 ops pstart pinv phi finv flok sinv stored
  by (rule lossy_search.intro [OF walk_contract_axioms lossy_store_axioms])

end
