(* ===== verification/BloomStore.thy ===== *)
theory BloomStore
  imports LossySearch PackedStores
begin

text \<open>
  \<open>src/Stores/VectorStores/VBloomStore.inc\<close>: a Bloom filter as a store of markings.  It never takes a stored vector for a
  new one, so a search over it returns; it may take a new vector for a stored one.  The last section models the double
  checked locking of the store for several threads.
\<close>

section \<open>Hash functions\<close>

definition sdbm_word :: "vectordata_t \<Rightarrow> 32 word \<Rightarrow> 32 word" where
  "sdbm_word w hash = w + push_bit 6 hash + push_bit 16 hash - hash"

definition hash_sdbm :: "vectordata_t list \<Rightarrow> 32 word" where
  "hash_sdbm ws = fold sdbm_word ws 0"

definition fnv_prime :: "32 word" where
  "fnv_prime = 0x811C9DC5"

definition fnv_word :: "vectordata_t \<Rightarrow> 32 word \<Rightarrow> 32 word" where
  "fnv_word w hash = xor (hash * fnv_prime) w"

definition hash_fnv :: "vectordata_t list \<Rightarrow> 32 word" where
  "hash_fnv ws = fold fnv_word ws 0"

text \<open>The sum is one of 64 bit integers, the array holds 32 bit integers.\<close>

definition derived_hash :: "nat \<Rightarrow> 32 word \<Rightarrow> 32 word \<Rightarrow> nat \<Rightarrow> nat" where
  "derived_hash SIZE hash_0 hash_1 h = take_bit 32 (unat (ucast hash_0 + of_nat h * ucast hash_1 :: 64 word) mod SIZE)"

definition bloom_hashes :: "nat \<Rightarrow> nat \<Rightarrow> vectordata_t list \<Rightarrow> nat list" where
  "bloom_hashes SIZE hash_functions ws =
     (let hash_0 = hash_sdbm ws; hash_1 = hash_fnv ws
      in take_bit 32 (unat hash_0 mod SIZE) # take_bit 32 (unat hash_1 mod SIZE) #
         map (derived_hash SIZE hash_0 hash_1) [2..<hash_functions])"

lemma length_bloom_hashes: "2 \<le> hash_functions \<Longrightarrow> length (bloom_hashes SIZE hash_functions ws) = hash_functions"
  by (simp add: bloom_hashes_def Let_def)

lemma bloom_hashes_less: "0 < SIZE \<Longrightarrow> h \<in> set (bloom_hashes SIZE hash_functions ws) \<Longrightarrow> h < SIZE"
proof -
  assume "0 < SIZE"
  then have "take_bit 32 (x mod SIZE) < SIZE" for x :: nat
    using take_bit_nat_less_eq_self [of 32 "x mod SIZE"] mod_less_divisor [of SIZE x] by linarith
  then show "h \<in> set (bloom_hashes SIZE hash_functions ws) \<Longrightarrow> h < SIZE"
    by (auto simp: bloom_hashes_def Let_def derived_hash_def)
qed

section \<open>searchAndInsert\<close>

definition set_bits :: "nat list \<Rightarrow> bool list \<Rightarrow> bool list" where
  "set_bits hs bits = fold (\<lambda>h bits. bits[h := True]) hs bits"

fun bloom_loop :: "bool \<Rightarrow> nat list \<Rightarrow> bool list \<Rightarrow> bool \<times> bool list" where
  "bloom_loop noinsert [] bits = (True, bits)"
| "bloom_loop noinsert (h # hs) bits =
     (if \<not> bits ! h then (if noinsert then (False, bits) else (False, set_bits (h # hs) bits))
      else bloom_loop noinsert hs bits)"

text \<open>The first two hash values are written whatever the number of hash functions is: \<open>None\<close> is a write behind the array.\<close>

definition VBloom_searchAndInsert ::
  "nat \<Rightarrow> vectordata_t list \<Rightarrow> nat \<Rightarrow> bool \<Rightarrow> bool list \<Rightarrow> (bool \<times> bool list) option" where
  "VBloom_searchAndInsert hash_functions input bitlen noinsert bits =
     (if hash_functions < 2 then None
      else Some (bloom_loop noinsert
        (bloom_hashes (length bits) hash_functions (take (vector_length bitlen) input)) bits))"

definition known_bits :: "nat list \<Rightarrow> bool list \<Rightarrow> bool" where
  "known_bits hs bits \<longleftrightarrow> (\<forall>h \<in> set hs. bits ! h)"

lemma length_set_bits [simp]: "length (set_bits hs bits) = length bits"
  unfolding set_bits_def by (rule length_fold_pres) simp

lemma nth_set_bits: "h < length bits \<Longrightarrow> set_bits hs bits ! h \<longleftrightarrow> h \<in> set hs \<or> bits ! h"
proof (induction hs arbitrary: bits)
  case (Cons q hs)
  have "set_bits (q # hs) bits = set_bits hs (bits[q := True])" by (simp add: set_bits_def)
  moreover have "bits[q := True] ! h \<longleftrightarrow> q = h \<or> bits ! h" using Cons.prems by (cases "q = h") simp_all
  ultimately show ?case using Cons.IH [of "bits[q := True]"] Cons.prems by auto
qed (simp add: set_bits_def)

lemma bloom_loop_result:
  assumes "\<forall>h \<in> set hs. h < length bits"
  shows "fst (bloom_loop noinsert hs bits) = known_bits hs bits"
    "snd (bloom_loop noinsert hs bits) = (if noinsert then bits else set_bits hs bits)"
proof -
  have "fst (bloom_loop noinsert hs bits) = known_bits hs bits \<and>
      snd (bloom_loop noinsert hs bits) = (if noinsert then bits else set_bits hs bits)"
    using assms
  proof (induction hs)
    case (Cons h hs)
    have "bits[h := True] = bits" if "bits ! h" using Cons.prems that list_update_id [of bits h] by simp
    then have "bits ! h \<Longrightarrow> set_bits (h # hs) bits = set_bits hs bits" by (simp add: set_bits_def)
    then show ?case using Cons by (cases noinsert) (simp_all add: known_bits_def)
  qed (simp add: known_bits_def set_bits_def)
  then show "fst (bloom_loop noinsert hs bits) = known_bits hs bits"
    "snd (bloom_loop noinsert hs bits) = (if noinsert then bits else set_bits hs bits)" by blast+
qed

section \<open>The store of a search\<close>

definition bloom_store ::
  "nat \<Rightarrow> (netstate \<Rightarrow> (vectordata_t list \<times> nat) option) \<Rightarrow> netstate \<Rightarrow> bool list plugin_store \<Rightarrow>
   bool \<times> bool list plugin_store" where
  "bloom_store hash_functions encode =
     PluginStore_searchAndInsert (\<lambda>ns. case encode ns of Some r \<Rightarrow> r | None \<Rightarrow> ([], 0))
       (\<lambda>input bitlen hash noinsert bits.
          case VBloom_searchAndInsert hash_functions input bitlen noinsert bits of Some r \<Rightarrow> r | None \<Rightarrow> (False, bits))"

definition positions ::
  "nat \<Rightarrow> (netstate \<Rightarrow> (vectordata_t list \<times> nat) option) \<Rightarrow> netstate \<Rightarrow> bool list \<Rightarrow> nat list" where
  "positions hash_functions encode ns bits =
     (case encode ns of
        Some (input, bitlen) \<Rightarrow> bloom_hashes (length bits) hash_functions (take (vector_length bitlen) input)
      | None \<Rightarrow> [])"

text \<open>The encoder returns, and what it returns depends on the marking only.\<close>

definition reads_marking :: "net \<Rightarrow> marking \<Rightarrow> (netstate \<Rightarrow> (vectordata_t list \<times> nat) option) \<Rightarrow> bool" where
  "reads_marking N M0 encode \<longleftrightarrow>
     (\<forall>ns ns'. reachable_vec N M0 (Current ns) \<and> Current ns' = Current ns \<longrightarrow> encode ns \<noteq> None \<and> encode ns' = encode ns)"

definition bloom_seen ::
  "nat \<Rightarrow> (netstate \<Rightarrow> (vectordata_t list \<times> nat) option) \<Rightarrow> bool list plugin_store \<Rightarrow> capacity_t list set" where
  "bloom_seen hash_functions encode s =
     {m. \<exists>ns. Current ns = m \<and> known_bits (positions hash_functions encode ns (vectorStore s)) (vectorStore s)}"

definition bloom_ok ::
  "nat \<Rightarrow> net \<Rightarrow> marking \<Rightarrow> (netstate \<Rightarrow> (vectordata_t list \<times> nat) option) \<Rightarrow> bool list plugin_store \<Rightarrow> bool" where
  "bloom_ok hash_functions N M0 encode s \<longleftrightarrow> 2 \<le> hash_functions \<and> reads_marking N M0 encode \<and> vectorStore s \<noteq> []"

lemma positions_length: "length bits = length bits' \<Longrightarrow> positions k encode ns bits = positions k encode ns bits'"
  by (cases "encode ns") (auto simp: positions_def)

lemma positions_less: "bits \<noteq> [] \<Longrightarrow> h \<in> set (positions k encode ns bits) \<Longrightarrow> h < length bits"
  using bloom_hashes_less [of "length bits" h] by (auto simp: positions_def split: option.splits)

lemma bloom_store_eq:
  assumes "2 \<le> k" "encode ns \<noteq> None" "vectorStore s \<noteq> []"
  shows "fst (bloom_store k encode ns s) = known_bits (positions k encode ns (vectorStore s)) (vectorStore s)"
    "vectorStore (snd (bloom_store k encode ns s)) = set_bits (positions k encode ns (vectorStore s)) (vectorStore s)"
proof -
  obtain input bitlen where e: "encode ns = Some (input, bitlen)" using assms(2) by fastforce
  let ?hs = "positions k encode ns (vectorStore s)"
  have hs: "?hs = bloom_hashes (length (vectorStore s)) k (take (vector_length bitlen) input)"
    by (simp add: positions_def e)
  have "bloom_store k encode ns s =
      (let (ret, v) = bloom_loop False ?hs (vectorStore s)
       in (ret, s\<lparr>calls := calls s + 1, vectorStore := v, markings := (if ret then markings s else markings s + 1)\<rparr>))"
    using assms(1) by (simp add: bloom_store_def PluginStore_searchAndInsert_def e VBloom_searchAndInsert_def hs)
  moreover obtain ret v where l: "bloom_loop False ?hs (vectorStore s) = (ret, v)" by fastforce
  moreover have "ret = known_bits ?hs (vectorStore s)" "v = set_bits ?hs (vectorStore s)"
    using bloom_loop_result [of ?hs "vectorStore s" False] positions_less [OF assms(3)] l by auto
  ultimately show "fst (bloom_store k encode ns s) = known_bits ?hs (vectorStore s)"
    "vectorStore (snd (bloom_store k encode ns s)) = set_bits ?hs (vectorStore s)" by simp_all
qed

lemma bloom_store_lossy:
  assumes ok: "bloom_ok k N M0 encode s" and m: "reachable_vec N M0 (Current ns)" and r: "bloom_store k encode ns s = (b, s')"
  shows "bloom_ok k N M0 encode s' \<and> (b \<longleftrightarrow> Current ns \<in> bloom_seen k encode s) \<and>
    insert (Current ns) (bloom_seen k encode s) \<subseteq> bloom_seen k encode s'"
proof -
  let ?v = "vectorStore s" and ?hs = "\<lambda>ns. positions k encode ns (vectorStore s)"
  have o: "2 \<le> k" "reads_marking N M0 encode" "?v \<noteq> []" using ok by (auto simp: bloom_ok_def)
  have e: "encode ns \<noteq> None" using o(2) m unfolding reads_marking_def by blast
  have b: "b = known_bits (?hs ns) ?v" and v: "vectorStore s' = set_bits (?hs ns) ?v"
    using bloom_store_eq [of k encode ns s] o(1,3) e r by simp_all
  have same: "?hs ns' = ?hs ns" if "Current ns' = Current ns" for ns'
  proof -
    have "encode ns' = encode ns" using o(2) m that unfolding reads_marking_def by blast
    then show ?thesis by (simp add: positions_def)
  qed
  have hs': "positions k encode ns' (vectorStore s') = ?hs ns'" for ns' by (rule positions_length) (simp add: v)
  have "length (vectorStore s') = length ?v" by (simp add: v)
  then have "bloom_ok k N M0 encode s'" using o unfolding bloom_ok_def by fastforce
  moreover have "b \<longleftrightarrow> Current ns \<in> bloom_seen k encode s"
  proof
    assume "b"
    then show "Current ns \<in> bloom_seen k encode s" using b unfolding bloom_seen_def by blast
  next
    assume "Current ns \<in> bloom_seen k encode s"
    then obtain ns' where n: "Current ns' = Current ns" "known_bits (?hs ns') ?v" unfolding bloom_seen_def by auto
    show b unfolding b same [OF n(1), symmetric] by (rule n(2))
  qed
  moreover have "known_bits (?hs ns) (vectorStore s')"
    using positions_less [OF o(3)] by (simp add: known_bits_def v nth_set_bits)
  then have "Current ns \<in> bloom_seen k encode s'" unfolding bloom_seen_def hs' by blast
  moreover have "known_bits (?hs ns') (vectorStore s')" if "known_bits (?hs ns') ?v" for ns'
    using that positions_less [OF o(3)] by (auto simp: known_bits_def v nth_set_bits)
  then have "bloom_seen k encode s \<subseteq> bloom_seen k encode s'" unfolding bloom_seen_def hs' by blast
  ultimately show ?thesis by blast
qed

interpretation bloom_reach: lossy_store "bloom_store k encode" "bloom_ok k N M0 encode" "bloom_seen k encode"
    "hashed_state N H M0" for k encode N H M0
  by unfold_locales (rule bloom_store_lossy, simp_all add: hashed_state_def)

sublocale net_setting \<subseteq> dl_bloom: lossy_search N T H M0 "deadlock_ops (bloom_store k encode) N"
    "\<lambda>_. True" "\<lambda>_ _. True" "dead_vec N" "\<lambda>_. True" "all_enabled N" "bloom_ok k N M0 encode" "bloom_seen k encode"
    for k encode
  by (rule lossy_search.intro [OF dl_walk.walk_contract_axioms]; unfold deadlock_ops_simps) unfold_locales

section \<open>Without false positives\<close>

text \<open>Every reachable marking has a position that no other reachable marking has.\<close>

definition no_false_positive ::
  "nat \<Rightarrow> net \<Rightarrow> marking \<Rightarrow> (netstate \<Rightarrow> (vectordata_t list \<times> nat) option) \<Rightarrow> bool list \<Rightarrow> bool" where
  "no_false_positive k N M0 encode bits \<longleftrightarrow>
     (\<forall>ns. reachable_vec N M0 (Current ns) \<longrightarrow> (\<exists>h \<in> set (positions k encode ns bits).
        \<forall>ns'. reachable_vec N M0 (Current ns') \<and> h \<in> set (positions k encode ns' bits) \<longrightarrow> Current ns' = Current ns))"

definition bloom_contents ::
  "nat \<Rightarrow> net \<Rightarrow> marking \<Rightarrow> (netstate \<Rightarrow> (vectordata_t list \<times> nat) option) \<Rightarrow> bool list plugin_store \<Rightarrow> capacity_t list set" where
  "bloom_contents k N M0 encode s = {m \<in> bloom_seen k encode s. reachable_vec N M0 m}"

definition bloom_exact ::
  "nat \<Rightarrow> net \<Rightarrow> marking \<Rightarrow> (netstate \<Rightarrow> (vectordata_t list \<times> nat) option) \<Rightarrow> bool list plugin_store \<Rightarrow> bool" where
  "bloom_exact k N M0 encode s \<longleftrightarrow>
     bloom_ok k N M0 encode s \<and> no_false_positive k N M0 encode (vectorStore s) \<and>
     (\<forall>h < length (vectorStore s). vectorStore s ! h \<longrightarrow>
        (\<exists>ns. Current ns \<in> bloom_contents k N M0 encode s \<and> h \<in> set (positions k encode ns (vectorStore s))))"

lemma bloom_store_exact:
  assumes ex: "bloom_exact k N M0 encode s" and m: "reachable_vec N M0 (Current ns)" and r: "bloom_store k encode ns s = (b, s')"
  shows "bloom_exact k N M0 encode s' \<and> (b \<longleftrightarrow> Current ns \<in> bloom_contents k N M0 encode s) \<and>
    bloom_contents k N M0 encode s' = insert (Current ns) (bloom_contents k N M0 encode s)"
proof -
  let ?v = "vectorStore s" and ?hs = "\<lambda>ns. positions k encode ns (vectorStore s)"
  have ok: "bloom_ok k N M0 encode s" and nfp: "no_false_positive k N M0 encode ?v"
    and cov: "\<And>h. h < length ?v \<Longrightarrow> ?v ! h \<Longrightarrow> \<exists>ns. Current ns \<in> bloom_contents k N M0 encode s \<and> h \<in> set (?hs ns)"
    using ex unfolding bloom_exact_def by blast+
  note L = bloom_store_lossy [OF ok m r]
  have o: "2 \<le> k" "encode ns \<noteq> None" "?v \<noteq> []" using ok m unfolding bloom_ok_def reads_marking_def by blast+
  have v: "vectorStore s' = set_bits (?hs ns) ?v" using bloom_store_eq(2) [of k encode ns s] o r by simp
  have hs': "positions k encode ns' (vectorStore s') = ?hs ns'" for ns' by (rule positions_length) (simp add: v)
  have "Current ns' \<in> insert (Current ns) (bloom_contents k N M0 encode s)"
    if n: "reachable_vec N M0 (Current ns')" "known_bits (?hs ns') (vectorStore s')" for ns'
  proof -
    obtain h where h: "h \<in> set (?hs ns')"
      "\<And>q. reachable_vec N M0 (Current q) \<Longrightarrow> h \<in> set (?hs q) \<Longrightarrow> Current q = Current ns'"
      using nfp n(1) unfolding no_false_positive_def by blast
    have l: "h < length ?v" by (rule positions_less [OF o(3) h(1)])
    have "vectorStore s' ! h" using n(2) h(1) unfolding known_bits_def by blast
    then consider "h \<in> set (?hs ns)" | "?v ! h" using nth_set_bits [OF l] v by auto
    then show ?thesis
    proof cases
      case 1
      then show ?thesis using h(2) [OF m] by simp
    next
      case 2
      obtain q where q: "Current q \<in> bloom_contents k N M0 encode s" "h \<in> set (?hs q)" using cov [OF l 2] by blast
      then have "Current q = Current ns'" using h(2) unfolding bloom_contents_def by blast
      then show ?thesis using q(1) by simp
    qed
  qed
  then have sub: "bloom_contents k N M0 encode s' \<subseteq> insert (Current ns) (bloom_contents k N M0 encode s)"
    unfolding bloom_contents_def bloom_seen_def hs' by blast
  then have eq: "bloom_contents k N M0 encode s' = insert (Current ns) (bloom_contents k N M0 encode s)"
    using L m unfolding bloom_contents_def by blast
  have "\<exists>q. Current q \<in> bloom_contents k N M0 encode s' \<and> h \<in> set (?hs q)" if h: "h < length ?v" "vectorStore s' ! h" for h
  proof -
    consider "h \<in> set (?hs ns)" | "?v ! h" using nth_set_bits [OF h(1)] h(2) v by auto
    then show ?thesis using cov [OF h(1)] eq by cases blast+
  qed
  then have "bloom_exact k N M0 encode s'"
    using L nfp unfolding bloom_exact_def no_false_positive_def hs' by (simp add: v)
  then show ?thesis using L m eq unfolding bloom_contents_def by blast
qed

interpretation bloom_exactly: store_contract "bloom_store k encode" "bloom_exact k N M0 encode" "bloom_contents k N M0 encode"
    "hashed_state N H M0" for k encode N H M0
  by unfold_locales (rule bloom_store_exact, simp_all add: hashed_state_def)

sublocale net_setting \<subseteq> dl_bloom_exact: search_contract N T H M0 "deadlock_ops (bloom_store k encode) N"
    "\<lambda>_. True" "\<lambda>_ _. True" "dead_vec N" "\<lambda>_. True" "all_enabled N" "bloom_exact k N M0 encode" "bloom_contents k N M0 encode"
    for k encode
  by (rule search_contract.intro [OF dl_walk.walk_contract_axioms]; unfold deadlock_ops_simps) unfold_locales

lemma known_nothing: "2 \<le> k \<Longrightarrow> 0 < SIZE \<Longrightarrow> encode ns \<noteq> None \<Longrightarrow>
    \<not> known_bits (positions k encode ns (replicate SIZE False)) (replicate SIZE False)"
proof -
  assume "2 \<le> k" "0 < SIZE" "encode ns \<noteq> None"
  then have "length (positions k encode ns (replicate SIZE False)) = k"
    using length_bloom_hashes by (auto simp: positions_def)
  then obtain h hs where "positions k encode ns (replicate SIZE False) = h # hs"
    using \<open>2 \<le> k\<close> by (cases "positions k encode ns (replicate SIZE False)") auto
  moreover have "h < SIZE" using positions_less [of "replicate SIZE False" h k encode ns] \<open>0 < SIZE\<close> calculation by simp
  ultimately show ?thesis by (simp add: known_bits_def)
qed

context net_setting
begin

lemmas bloom_sound = dl_bloom.lossy_depth_first
  and bloom_decides = dl_bloom_exact.depth_first_decides
    [OF _ _ _ _ _ _ all_enabled_preserving [of "dead_vec N" "dead_at N", OF dead_vec_at] dead_vec_at]

lemma bloom_exact_start:
  assumes "2 \<le> k" "reads_marking N M0 encode" "0 < SIZE" "no_false_positive k N M0 encode (replicate SIZE False)"
  shows "bloom_exact k N M0 encode (empty_plugin (replicate SIZE False))"
    "bloom_contents k N M0 encode (empty_plugin (replicate SIZE False)) = {}"
proof -
  have "encode ns \<noteq> None" if "reachable_vec N M0 (Current ns)" for ns
    using assms(2) that unfolding reads_marking_def by blast
  then show "bloom_contents k N M0 encode (empty_plugin (replicate SIZE False)) = {}"
    using known_nothing [OF assms(1,3)] unfolding bloom_contents_def bloom_seen_def empty_plugin_def by auto
  show "bloom_exact k N M0 encode (empty_plugin (replicate SIZE False))"
    using assms by (simp add: bloom_exact_def bloom_ok_def empty_plugin_def)
qed

end

end
