(* ===== verification/BloomThreads.thy ===== *)
theory BloomThreads
  imports BloomStore
begin

text \<open>
  \<open>VBloomStore::searchAndInsert\<close> with several threads.  The bits are read without the mutex; a thread that finds an unset
  bit locks the mutex, reads the bit again, and sets this and the following bits one by one while the other threads go on
  reading.
\<close>

section \<open>Steps of the threads\<close>

text \<open>Every state has the positions of the call and those that are still to be looked at or written.\<close>

datatype bloom_thread =
    Check "nat list" "nat list"
  | Lock "nat list" "nat list"
  | Writing "nat list" "nat list"
  | Answered "nat list" bool

definition mutex_free :: "bloom_thread list \<Rightarrow> bool" where
  "mutex_free ths \<longleftrightarrow> (\<forall>P r. Writing P r \<notin> set ths)"

inductive bloom_step :: "bool list \<times> bloom_thread list \<Rightarrow> bool list \<times> bloom_thread list \<Rightarrow> bool" where
  look_set: "i < length ths \<Longrightarrow> ths ! i = Check P (h # r) \<Longrightarrow> bits ! h \<Longrightarrow>
     bloom_step (bits, ths) (bits, ths[i := Check P r])"
| look_unset: "i < length ths \<Longrightarrow> ths ! i = Check P (h # r) \<Longrightarrow> \<not> bits ! h \<Longrightarrow>
     bloom_step (bits, ths) (bits, ths[i := Lock P (h # r)])"
| look_end: "i < length ths \<Longrightarrow> ths ! i = Check P [] \<Longrightarrow>
     bloom_step (bits, ths) (bits, ths[i := Answered P True])"
| lock_set: "i < length ths \<Longrightarrow> ths ! i = Lock P (h # r) \<Longrightarrow> mutex_free ths \<Longrightarrow> bits ! h \<Longrightarrow>
     bloom_step (bits, ths) (bits, ths[i := Check P r])"
| lock_unset: "i < length ths \<Longrightarrow> ths ! i = Lock P (h # r) \<Longrightarrow> mutex_free ths \<Longrightarrow> \<not> bits ! h \<Longrightarrow>
     bloom_step (bits, ths) (bits, ths[i := Writing P (h # r)])"
| write_bit: "i < length ths \<Longrightarrow> ths ! i = Writing P (h # r) \<Longrightarrow>
     bloom_step (bits, ths) (bits[h := True], ths[i := Writing P r])"
| unlock: "i < length ths \<Longrightarrow> ths ! i = Writing P [] \<Longrightarrow>
     bloom_step (bits, ths) (bits, ths[i := Answered P False])"

fun thread_positions :: "bloom_thread \<Rightarrow> nat list" where
  "thread_positions (Check P r) = P"
| "thread_positions (Lock P r) = P"
| "thread_positions (Writing P r) = P"
| "thread_positions (Answered P b) = P"

fun remaining :: "bloom_thread \<Rightarrow> nat list" where
  "remaining (Check P r) = r"
| "remaining (Lock P r) = r"
| "remaining (Writing P r) = r"
| "remaining (Answered P b) = []"

text \<open>The calls that have decided to report their vector as new.\<close>

fun claimed :: "bloom_thread \<Rightarrow> bool" where
  "claimed (Writing P r) = True"
| "claimed (Answered P b) = (\<not> b)"
| "claimed th = False"

fun waits_properly :: "bloom_thread \<Rightarrow> bool" where
  "waits_properly (Lock P r) = (r \<noteq> [])"
| "waits_properly th = True"

section \<open>Invariant\<close>

definition thread_ok :: "bool list \<Rightarrow> bloom_thread \<Rightarrow> bool" where
  "thread_ok bits th \<longleftrightarrow> waits_properly th \<and> (\<forall>h \<in> set (thread_positions th). h < length bits) \<and>
     (\<exists>pre. thread_positions th = pre @ remaining th \<and> known_bits pre bits)"

definition bloom_inv :: "bool list \<Rightarrow> bool list \<times> bloom_thread list \<Rightarrow> bool" where
  "bloom_inv bits0 c \<longleftrightarrow>
     length (fst c) = length bits0 \<and> (\<forall>h < length bits0. bits0 ! h \<longrightarrow> fst c ! h) \<and>
     (\<forall>i < length (snd c). thread_ok (fst c) (snd c ! i)) \<and>
     (\<forall>i < length (snd c). \<forall>j < length (snd c). claimed (snd c ! i) \<and> claimed (snd c ! j) \<and>
        thread_positions (snd c ! i) = thread_positions (snd c ! j) \<longrightarrow> i = j) \<and>
     (\<forall>i < length (snd c). claimed (snd c ! i) \<longrightarrow> \<not> known_bits (thread_positions (snd c ! i)) bits0) \<and>
     (\<forall>h < length bits0. fst c ! h \<longrightarrow>
        bits0 ! h \<or> (\<exists>i < length (snd c). claimed (snd c ! i) \<and> h \<in> set (thread_positions (snd c ! i))))"

lemma bloom_invD:
  assumes "bloom_inv bits0 (bits, ths)"
  shows "length bits = length bits0" "h < length bits0 \<Longrightarrow> bits0 ! h \<Longrightarrow> bits ! h"
    and "i < length ths \<Longrightarrow> thread_ok bits (ths ! i)"
    and "i < length ths \<Longrightarrow> j < length ths \<Longrightarrow> claimed (ths ! i) \<Longrightarrow> claimed (ths ! j) \<Longrightarrow>
      thread_positions (ths ! i) = thread_positions (ths ! j) \<Longrightarrow> i = j"
    and "i < length ths \<Longrightarrow> claimed (ths ! i) \<Longrightarrow> \<not> known_bits (thread_positions (ths ! i)) bits0"
    and "h < length bits0 \<Longrightarrow> bits ! h \<Longrightarrow>
      bits0 ! h \<or> (\<exists>i < length ths. claimed (ths ! i) \<and> h \<in> set (thread_positions (ths ! i)))"
  using assms unfolding bloom_inv_def fst_conv snd_conv by blast+

lemma thread_ok_mono:
  assumes "thread_ok bits th" "length bits' = length bits" "\<forall>h < length bits. bits ! h \<longrightarrow> bits' ! h"
  shows "thread_ok bits' th"
proof -
  obtain pre where p: "thread_positions th = pre @ remaining th" "known_bits pre bits"
    using assms(1) unfolding thread_ok_def by blast
  have "h < length bits" if "h \<in> set pre" for h
  proof -
    have "h \<in> set (thread_positions th)" using that p(1) by simp
    then show ?thesis using assms(1) unfolding thread_ok_def by blast
  qed
  then have "known_bits pre bits'" using p(2) assms(3) unfolding known_bits_def by blast
  then show ?thesis using assms(1,2) p(1) unfolding thread_ok_def by metis
qed

text \<open>A step of one thread that keeps its part of the invariant keeps the whole.\<close>

lemma bloom_inv_update:
  assumes inv: "bloom_inv bits0 (bits, ths)" and i: "i < length ths"
    and pos: "thread_positions th = thread_positions (ths ! i)" and ok: "thread_ok bits' th"
    and bits: "length bits' = length bits" "\<forall>h < length bits. bits ! h \<longrightarrow> bits' ! h"
      "\<forall>h < length bits. bits' ! h \<longrightarrow> bits ! h \<or> claimed th \<and> h \<in> set (thread_positions th)"
    and keeps: "claimed (ths ! i) \<longrightarrow> claimed th"
    and new: "claimed th \<longrightarrow> claimed (ths ! i) \<or> \<not> known_bits (thread_positions th) bits0 \<and>
      (\<forall>j < length ths. claimed (ths ! j) \<longrightarrow> thread_positions (ths ! j) \<noteq> thread_positions th)"
  shows "bloom_inv bits0 (bits', ths[i := th])"
  unfolding bloom_inv_def fst_conv snd_conv length_list_update
proof (intro conjI allI impI)
  note I = bloom_invD [OF inv]
  show "length bits' = length bits0" using bits(1) I(1) by simp
  show "bits' ! h" if "h < length bits0" "bits0 ! h" for h using bits(2) I(1,2) that by simp
  show "thread_ok bits' (ths[i := th] ! j)" if "j < length ths" for j
    using that ok thread_ok_mono [OF I(3) bits(1,2)] by (cases "j = i") simp_all
  have cl: "claimed (ths ! j) \<or> j = i \<and> claimed th" if "j < length ths" "claimed (ths[i := th] ! j)" for j
    using that by (cases "j = i") simp_all
  have pj: "thread_positions (ths[i := th] ! j) = thread_positions (ths ! j)" if "j < length ths" for j
    using that pos by (cases "j = i") simp_all
  show "j = k" if jk: "j < length ths" "k < length ths" "claimed (ths[i := th] ! j) \<and> claimed (ths[i := th] ! k) \<and>
      thread_positions (ths[i := th] ! j) = thread_positions (ths[i := th] ! k)" for j k
  proof (cases "claimed (ths ! i) \<or> \<not> claimed th")
    case True
    then have "claimed (ths ! j)" "claimed (ths ! k)" using cl jk by blast+
    then show ?thesis using I(4) jk pj by metis
  next
    case False
    then have n: "claimed th" "\<forall>q < length ths. claimed (ths ! q) \<longrightarrow> thread_positions (ths ! q) \<noteq> thread_positions th"
      using new by blast+
    have "thread_positions (ths ! j) = thread_positions (ths ! k)" using jk pj by simp
    then show ?thesis using cl [of j] cl [of k] jk I(4) n pos by metis
  qed
  show "\<not> known_bits (thread_positions (ths[i := th] ! j)) bits0" if "j < length ths" "claimed (ths[i := th] ! j)" for j
    using that cl [of j] pj [of j] I(5) new pos by metis
  show "bits0 ! h \<or> (\<exists>j < length ths. claimed (ths[i := th] ! j) \<and> h \<in> set (thread_positions (ths[i := th] ! j)))"
    if h: "h < length bits0" "bits' ! h" for h
  proof -
    consider "bits ! h" | "claimed th" "h \<in> set (thread_positions th)" using bits(3) h I(1) by auto
    then show ?thesis
    proof cases
      case 1
      then consider "bits0 ! h" | j where "j < length ths" "claimed (ths ! j)" "h \<in> set (thread_positions (ths ! j))"
        using I(6) [OF h(1)] by blast
      then show ?thesis
      proof cases
        case (2 j)
        then have "claimed (ths[i := th] ! j)" using keeps by (cases "j = i") simp_all
        then show ?thesis using 2 pj by metis
      qed simp
    next
      case 2
      then show ?thesis using i by (intro disjI2 exI [of _ i]) simp
    qed
  qed
qed

text \<open>Going on to the next position, once the bit of the current one is set.\<close>

lemma thread_ok_next:
  assumes "thread_ok bits th" "remaining th = h # r" "bits ! h"
    and "thread_positions th' = thread_positions th" "remaining th' = r" "waits_properly th'"
  shows "thread_ok bits th'"
proof -
  obtain pre where p: "thread_positions th = pre @ h # r" "known_bits pre bits"
    using assms(1,2) unfolding thread_ok_def by auto
  have "known_bits (pre @ [h]) bits" using p(2) assms(3) by (simp add: known_bits_def)
  moreover have "thread_positions th' = (pre @ [h]) @ remaining th'" using p(1) assms(4,5) by simp
  moreover have "\<forall>h \<in> set (thread_positions th'). h < length bits" using assms(1,4) unfolding thread_ok_def by simp
  ultimately show ?thesis using assms(6) unfolding thread_ok_def by blast
qed

lemma thread_ok_same:
  assumes "thread_ok bits th" "thread_positions th' = thread_positions th" "remaining th' = remaining th" "waits_properly th'"
  shows "thread_ok bits th'"
  using assms unfolding thread_ok_def by simp

lemma thread_ok_position: "thread_ok bits th \<Longrightarrow> remaining th = h # r \<Longrightarrow> h \<in> set (thread_positions th) \<and> h < length bits"
  unfolding thread_ok_def by auto

lemma answered_known: "thread_ok bits (Answered P b) \<Longrightarrow> known_bits P bits"
  by (simp add: thread_ok_def)

lemma bloom_inv_step:
  assumes "bloom_step c d" "bloom_inv bits0 c"
  shows "bloom_inv bits0 d"
  using assms
proof (induction rule: bloom_step.induct)
  case (look_set i ths P h r bits)
  note ok = bloom_invD(3) [OF look_set(4,1)]
  have "thread_ok bits (Check P r)" by (rule thread_ok_next [OF ok, of h]) (simp_all add: look_set(2,3))
  then show ?case by (intro bloom_inv_update [OF look_set(4,1)]) (simp_all add: look_set(2))
next
  case (look_unset i ths P h r bits)
  note ok = bloom_invD(3) [OF look_unset(4,1)]
  have "thread_ok bits (Lock P (h # r))" by (rule thread_ok_same [OF ok]) (simp_all add: look_unset(2))
  then show ?case by (intro bloom_inv_update [OF look_unset(4,1)]) (simp_all add: look_unset(2))
next
  case (look_end i ths P bits)
  note ok = bloom_invD(3) [OF look_end(3,1)]
  have "thread_ok bits (Answered P True)" by (rule thread_ok_same [OF ok]) (simp_all add: look_end(2))
  then show ?case by (intro bloom_inv_update [OF look_end(3,1)]) (simp_all add: look_end(2))
next
  case (lock_set i ths P h r bits)
  note ok = bloom_invD(3) [OF lock_set(5,1)]
  have "thread_ok bits (Check P r)" by (rule thread_ok_next [OF ok, of h]) (simp_all add: lock_set(2,4))
  then show ?case by (intro bloom_inv_update [OF lock_set(5,1)]) (simp_all add: lock_set(2))
next
  case (lock_unset i ths P h r bits)
  note I = bloom_invD [OF lock_unset(5)] and ok = bloom_invD(3) [OF lock_unset(5,1)]
  have "thread_ok bits (Writing P (h # r))" by (rule thread_ok_same [OF ok]) (simp_all add: lock_unset(2))
  moreover have h: "h \<in> set P" "h < length bits0" using thread_ok_position [OF ok] lock_unset(2) I(1) by auto
  then have "\<not> known_bits P bits0" using I(2) lock_unset(4) unfolding known_bits_def by blast
  moreover have "thread_positions (ths ! j) \<noteq> P" if j: "j < length ths" "claimed (ths ! j)" for j
  proof (cases "ths ! j")
    case (Writing Q q)
    then show ?thesis using lock_unset(3) nth_mem [OF j(1)] unfolding mutex_free_def by metis
  next
    case (Answered Q b)
    then have "known_bits Q bits" using I(3) [OF j(1)] answered_known by simp
    then show ?thesis using Answered h(1) lock_unset(4) unfolding known_bits_def by auto
  qed (use j(2) in simp_all)
  ultimately show ?case by (intro bloom_inv_update [OF lock_unset(5,1)]) (simp_all add: lock_unset(2))
next
  case (write_bit i ths P h r bits)
  note ok = bloom_invD(3) [OF write_bit(3,1)]
  have h: "h \<in> set P" "h < length bits" using thread_ok_position [OF ok] write_bit(2) by auto
  have mono: "\<forall>q < length bits. bits ! q \<longrightarrow> bits[h := True] ! q" using h(2) by (auto simp: nth_list_update)
  have "thread_ok (bits[h := True]) (ths ! i)" by (rule thread_ok_mono [OF ok _ mono]) simp
  then have "thread_ok (bits[h := True]) (Writing P r)"
    by (rule thread_ok_next [of _ _ h]) (simp_all add: write_bit(2) h(2))
  then show ?case using mono h
    by (intro bloom_inv_update [OF write_bit(3,1)]) (auto simp: write_bit(2) nth_list_update)
next
  case (unlock i ths P bits)
  note ok = bloom_invD(3) [OF unlock(3,1)]
  have "thread_ok bits (Answered P False)" by (rule thread_ok_same [OF ok]) (simp_all add: unlock(2))
  then show ?case by (intro bloom_inv_update [OF unlock(3,1)]) (simp_all add: unlock(2))
qed

section \<open>Termination and progress\<close>

fun thread_load :: "bloom_thread \<Rightarrow> nat" where
  "thread_load (Check P r) = 4 * length r + 1"
| "thread_load (Lock P r) = 4 * length r"
| "thread_load (Writing P r) = 2 * length r + 1"
| "thread_load (Answered P b) = 0"

definition threads_load :: "bloom_thread list \<Rightarrow> nat" where
  "threads_load ths = (\<Sum>th\<leftarrow>ths. thread_load th)"

lemma threads_load_update:
  "i < length ths \<Longrightarrow> thread_load th < thread_load (ths ! i) \<Longrightarrow> threads_load (ths[i := th]) < threads_load ths"
  unfolding threads_load_def by (induction ths arbitrary: i) (auto simp: nth_Cons split: nat.splits)

lemma threads_load_step: "bloom_step c d \<Longrightarrow> threads_load (snd d) < threads_load (snd c)"
  by (induction rule: bloom_step.induct) (simp_all add: threads_load_update)

lemma bloom_positions_step: "bloom_step c d \<Longrightarrow> map thread_positions (snd d) = map thread_positions (snd c)"
  by (induction rule: bloom_step.induct) (simp_all add: map_update list_update_same_conv)

definition all_answered :: "bloom_thread list \<Rightarrow> bool" where
  "all_answered ths \<longleftrightarrow> (\<forall>th \<in> set ths. \<exists>P b. th = Answered P b)"

text \<open>A writer can always go on, and if there is none, nobody waits for the mutex in vain.\<close>

lemma writer_steps: "i < length ths \<Longrightarrow> ths ! i = Writing P r \<Longrightarrow> \<exists>d. bloom_step (bits, ths) d"
  using bloom_step.write_bit bloom_step.unlock by (cases r) blast+

lemma free_steps:
  assumes "i < length ths" "\<not> (\<exists>P b. ths ! i = Answered P b)" "thread_ok bits (ths ! i)" "mutex_free ths"
  shows "\<exists>d. bloom_step (bits, ths) d"
proof (cases "ths ! i")
  case (Check P r)
  then show ?thesis
    using assms(1) bloom_step.look_set bloom_step.look_unset bloom_step.look_end by (cases r) blast+
next
  case (Lock P r)
  then obtain h q where "r = h # q" using assms(3) by (cases r) (auto simp: thread_ok_def)
  then show ?thesis using Lock assms(1,4) bloom_step.lock_set bloom_step.lock_unset by blast
next
  case (Writing P r)
  then show ?thesis using writer_steps assms(1) by blast
qed (use assms(2) in blast)

lemma bloom_progress:
  assumes inv: "bloom_inv bits0 (bits, ths)" and "\<not> all_answered ths"
  shows "\<exists>d. bloom_step (bits, ths) d"
proof -
  obtain th where th: "th \<in> set ths" "\<not> (\<exists>P b. th = Answered P b)"
    using assms(2) unfolding all_answered_def by blast
  obtain i where i: "i < length ths" "ths ! i = th" using th(1) by (meson in_set_conv_nth)
  show ?thesis
  proof (cases "mutex_free ths")
    case True
    then show ?thesis using free_steps [OF i(1) _ bloom_invD(3) [OF inv i(1)]] i(2) th(2) by blast
  next
    case False
    then obtain P r where "Writing P r \<in> set ths" unfolding mutex_free_def by blast
    then obtain j where "j < length ths" "ths ! j = Writing P r" by (meson in_set_conv_nth)
    then show ?thesis by (rule writer_steps)
  qed
qed

lemma bloom_run:
  assumes "(bloom_step ^^ n) c d" "bloom_inv bits0 c"
  shows "bloom_inv bits0 d" "n + threads_load (snd d) \<le> threads_load (snd c)"
    "map thread_positions (snd d) = map thread_positions (snd c)"
proof -
  have "bloom_inv bits0 d \<and> n + threads_load (snd d) \<le> threads_load (snd c) \<and>
      map thread_positions (snd d) = map thread_positions (snd c)"
    using assms
  proof (induction n arbitrary: d)
    case (Suc n)
    obtain e where e: "(bloom_step ^^ n) c e" "bloom_step e d" using Suc.prems(1) by (auto elim: relpowp_Suc_E)
    note IH = Suc.IH [OF e(1) Suc.prems(2)]
    show ?case
      using IH bloom_inv_step [OF e(2)] threads_load_step [OF e(2)] bloom_positions_step [OF e(2)] by simp
  qed simp
  then show "bloom_inv bits0 d" "n + threads_load (snd d) \<le> threads_load (snd c)"
    "map thread_positions (snd d) = map thread_positions (snd c)" by blast+
qed

definition bloom_start :: "nat list list \<Rightarrow> bloom_thread list" where
  "bloom_start Ps = map (\<lambda>P. Check P P) Ps"

lemma bloom_inv_start:
  assumes "\<forall>P \<in> set Ps. \<forall>h \<in> set P. h < length bits"
  shows "bloom_inv bits (bits, bloom_start Ps)"
  using assms [unfolded all_set_conv_all_nth [of Ps]]
  by (simp add: bloom_inv_def bloom_start_def thread_ok_def known_bits_def)

lemma bloom_start_simps:
  "map thread_positions (bloom_start Ps) = Ps" "threads_load (bloom_start Ps) = (\<Sum>P\<leftarrow>Ps. 4 * length P + 1)"
  by (simp_all add: bloom_start_def threads_load_def comp_def)

lemma filter_at_most_one:
  assumes "\<And>i j. i < length xs \<Longrightarrow> j < length xs \<Longrightarrow> Q (xs ! i) \<Longrightarrow> Q (xs ! j) \<Longrightarrow> i = j"
  shows "length (filter Q xs) \<le> 1"
proof -
  have "card {i. i < length xs \<and> Q (xs ! i)} \<le> Suc 0" using assms by (subst card_le_Suc0_iff_eq) auto
  then show ?thesis by (simp add: length_filter_conv_card)
qed

end
