(* ===== verification/BloomProps.thy ===== *)
theory BloomProps
  imports BloomThreads SearchProps
begin

text \<open>
  The properties of the Bloom filter: the deadlock search over it, and its calls from several threads.
\<close>

section \<open>Encoders\<close>


lemma simple_reads_marking:
  assumes "\<And>m. reachable_vec N M0 m \<Longrightarrow> cs \<le> length m \<and> (\<forall>c \<in> set (take cs m). unat c + 2 < 2 ^ 32)"
  shows "reads_marking N M0 (SimpleCompressedEncoder_encodeNetState cs)"
proof -
  have "SimpleCompressedEncoder_encodeNetState cs ns \<noteq> None" if "reachable_vec N M0 (Current ns)" for ns
    using SimpleCompressedEncoder_correct [of cs ns] assms [OF that] by auto
  then show ?thesis by (simp add: reads_marking_def SimpleCompressedEncoder_encodeNetState_def)
qed

section \<open>Properties\<close>



text \<open>C40: when calls of \<open>VBloomStore::searchAndInsert\<close> by several threads run interleaved, every run is finite and no thread
  waits for ever; of the calls with the same positions at most one reports a new vector, and none does if all their bits were set
  before; in the end the bits that have been set are those of the calls that reported a new vector, and all calls are known.\<close>

theorem bloom_threads_insert_once:
  assumes "\<forall>P \<in> set Ps. \<forall>h \<in> set P. h < length bits0"
    and "(bloom_step ^^ n) (bits0, bloom_start Ps) (bits, ths)"
  shows "n \<le> (\<Sum>P\<leftarrow>Ps. 4 * length P + 1) \<and> map thread_positions ths = Ps \<and>
    (\<not> all_answered ths \<longrightarrow> (\<exists>d. bloom_step (bits, ths) d)) \<and>
    (\<forall>P. length (filter (\<lambda>th. th = Answered P False) ths) \<le> 1) \<and>
    (\<forall>P. Answered P False \<in> set ths \<longrightarrow> \<not> known_bits P bits0) \<and>
    (all_answered ths \<longrightarrow> (\<forall>P \<in> set Ps. known_bits P bits) \<and>
       (\<forall>h < length bits0. bits ! h \<longleftrightarrow> bits0 ! h \<or> (\<exists>P. Answered P False \<in> set ths \<and> h \<in> set P)))"
proof -
  note run = bloom_run [OF assms(2) bloom_inv_start [OF assms(1)], unfolded snd_conv bloom_start_simps]
  note I = bloom_invD [OF run(1)]
  have one: "length (filter (\<lambda>th. th = Answered P False) ths) \<le> 1" for P
    by (rule filter_at_most_one) (rule I(4), simp_all)
  have new: "\<not> known_bits P bits0" if "Answered P False \<in> set ths" for P
    using that I(5) by (metis claimed.simps(2) in_set_conv_nth thread_positions.simps(4))
  have known: "known_bits P bits" if fin: "all_answered ths" and P: "P \<in> set Ps" for P
  proof -
    obtain i where i: "i < length ths" "thread_positions (ths ! i) = P"
      using P run(3) by (metis in_set_conv_nth length_map nth_map)
    then obtain Q b where "ths ! i = Answered Q b" using fin nth_mem unfolding all_answered_def by blast
    then show ?thesis using answered_known [of bits Q b] I(3) [OF i(1)] i(2) by simp
  qed
  have "bits ! h \<longleftrightarrow> bits0 ! h \<or> (\<exists>P. Answered P False \<in> set ths \<and> h \<in> set P)"
    if fin: "all_answered ths" and h: "h < length bits0" for h
  proof
    assume "bits ! h"
    then consider "bits0 ! h" | i where "i < length ths" "claimed (ths ! i)" "h \<in> set (thread_positions (ths ! i))"
      using I(6) [OF h] by blast
    then show "bits0 ! h \<or> (\<exists>P. Answered P False \<in> set ths \<and> h \<in> set P)"
    proof cases
      case (2 i)
      then obtain Q b where q: "ths ! i = Answered Q b" using fin nth_mem unfolding all_answered_def by blast
      then have "Answered Q False \<in> set ths" "h \<in> set Q" using 2 nth_mem [OF 2(1)] by auto
      then show ?thesis by blast
    qed simp
  next
    assume "bits0 ! h \<or> (\<exists>P. Answered P False \<in> set ths \<and> h \<in> set P)"
    moreover have "P \<in> set Ps" if "Answered P False \<in> set ths" for P
      using that run(3) by (metis imageI list.set_map thread_positions.simps(4))
    ultimately show "bits ! h" using I(2) [OF h] known [OF fin] unfolding known_bits_def by blast
  qed
  then show ?thesis using run(2,3) one new known bloom_progress [OF run(1)] by auto
qed

theorem bloom_threads_insert_once_witness:
  "\<exists>d. bloom_step ([True, False], [Check [0] [0], Check [1] [1]]) d"
proof -
  have "\<forall>P \<in> set [[0], [1 :: nat]]. \<forall>h \<in> set P. h < length [True, False]" by simp
  from bloom_threads_insert_once [OF this, of 0 "[True, False]" "bloom_start [[0], [1]]"]
  show ?thesis by (simp add: bloom_start_def all_answered_def)
qed

end
