(* ===== verification/PrefixTree.thy ===== *)
theory PrefixTree
  imports Encoders "HOL-Library.Sublist"
begin

text \<open>
  \<open>src/Stores/VectorStores/PrefixTreeStore.inc\<close>: a set of bit strings as a tree of binary decisions.  The
  words are compared and copied as in the code, aligned or unaligned to the input; the tree is shown to
  represent a set, provided that no string that is looked up is a proper prefix of another.
\<close>

section \<open>The decision tree\<close>

text \<open>\<open>nextold\<close> links the decisions on one vector: they form a list.  A vector that is \<open>NULL\<close> (its
  string ends with the differing bit) is empty.  Payloads have size 0, as in \<open>PrefixTreeStore<void>\<close>.\<close>

datatype decision = Decision (decision_bit: nat) (decision_vector: "vectordata_t list") (nextnew: "decision list")

text \<open>\<open>firstvector\<close> and \<open>branch\<close>.\<close>

type_synonym prefix_tree = "vectordata_t list option \<times> decision list"

text \<open>The fixed data of a call: the input words and its length in bits.\<close>

definition max_input_index :: "nat \<Rightarrow> nat" where
  "max_input_index bitlen = (bitlen - 1) div VECTOR_WIDTH"

definition max_input_numbits :: "nat \<Rightarrow> nat" where
  "max_input_numbits bitlen = (if bitlen mod VECTOR_WIDTH = 0 then VECTOR_WIDTH else bitlen mod VECTOR_WIDTH)"

section \<open>Finding the first difference\<close>

text \<open>A cursor: input word, its bits to go, vector word, its bits to go.\<close>

type_synonym cursor = "nat \<times> nat \<times> nat \<times> nat"

text \<open>The binary search in one pair of words.\<close>

definition segment :: "vectordata_t \<Rightarrow> nat \<Rightarrow> nat \<Rightarrow> vectordata_t" where
  "segment w bitstogo n = drop_bit (VECTOR_WIDTH - n) (push_bit (VECTOR_WIDTH - bitstogo) w)"

definition cap_compare :: "nat \<Rightarrow> nat \<Rightarrow> nat" where
  "cap_compare c bitstogo = (if bitstogo < c then bitstogo div 2 else c)"

function locate :: "vectordata_t \<Rightarrow> vectordata_t \<Rightarrow> nat \<Rightarrow> nat \<Rightarrow> nat \<Rightarrow> nat \<times> nat" where
  "locate iw vw c ibt vbt =
     (if c = 0 then (ibt, vbt)
      else if segment iw ibt c = segment vw vbt c
      then locate iw vw (cap_compare (cap_compare c (ibt - c)) (vbt - c)) (ibt - c) (vbt - c)
      else locate iw vw (c div 2) ibt vbt)"
  by pat_completeness auto
termination
  by (relation "measure (\<lambda>(iw, vw, c, ibt, vbt). ibt + c)") (auto simp: cap_compare_def)

declare locate.simps [simp del]

text \<open>The comparison of an input that is not aligned with the vector; \<open>vectorlen\<close> counts the words.  The
  result is the cursor at the words that differ, with the first number of bits to compare.\<close>

fun unaligned ::
  "vectordata_t list \<Rightarrow> vectordata_t list \<Rightarrow> nat \<Rightarrow> nat \<Rightarrow> nat \<Rightarrow> nat \<Rightarrow> nat \<Rightarrow> (nat \<times> cursor) option" where
  "unaligned ins v maxi ibt 0 i k = None"
| "unaligned ins v maxi ibt (Suc vectorlen) i k =
     (if push_bit (VECTOR_WIDTH - ibt) (ins ! i) =
         push_bit (VECTOR_WIDTH - ibt) (drop_bit (VECTOR_WIDTH - ibt) (v ! k))
      then if i + 1 \<le> maxi
           then if push_bit ibt (drop_bit ibt (ins ! (i + 1))) = push_bit ibt (v ! k)
                then if vectorlen \<noteq> 0 then unaligned ins v maxi ibt vectorlen (i + 1) (k + 1) else None
                else Some ((VECTOR_WIDTH - ibt) div 2, i + 1, VECTOR_WIDTH, k, VECTOR_WIDTH - ibt)
           else None
      else Some (ibt div 2, i, ibt, k, VECTOR_WIDTH))"

text \<open>The aligned comparison: \<open>memcmp\<close> of \<open>vectorlen\<close> words, then a loop over the equal ones.\<close>

definition aligned ::
  "vectordata_t list \<Rightarrow> vectordata_t list \<Rightarrow> nat \<Rightarrow> nat \<Rightarrow> (nat \<times> cursor) option" where
  "aligned ins v vectorlen i =
     (if take vectorlen (drop i ins) = take vectorlen v then None
      else (let n = length (takeWhile (\<lambda>(a, b). a = b) (zip (drop i ins) v))
            in Some (VECTOR_WIDTH div 2, i + n, VECTOR_WIDTH, n, VECTOR_WIDTH)))"

definition find_difference ::
  "vectordata_t list \<Rightarrow> nat \<Rightarrow> vectordata_t list \<Rightarrow> nat \<Rightarrow> nat \<Rightarrow> nat \<Rightarrow> cursor option" where
  "find_difference ins bitlen v position i ibt =
     (let vectorlen = (bitlen - position + (VECTOR_WIDTH - 1)) div VECTOR_WIDTH
      in case (if ibt = VECTOR_WIDTH then aligned ins v vectorlen i
               else unaligned ins v (max_input_index bitlen) ibt vectorlen i 0) of
           None \<Rightarrow> None
         | Some (c, i1, ibt1, k, vbt1) \<Rightarrow>
             (let (ibt2, vbt2) = locate (ins ! i1) (v ! k) c ibt1 vbt1 in Some (i1, ibt2, k, vbt2)))"

section \<open>searchAndInsert\<close>

text \<open>The rest of the input as a new vector.\<close>

fun copy_unaligned :: "vectordata_t list \<Rightarrow> nat \<Rightarrow> nat \<Rightarrow> nat \<Rightarrow> nat \<Rightarrow> vectordata_t list" where
  "copy_unaligned ins maxi ibt 0 i = []"
| "copy_unaligned ins maxi ibt (Suc n) i =
     (let w = push_bit (VECTOR_WIDTH - ibt) (ins ! i)
      in if maxi < i + 1 then w # replicate n 0
         else (w OR drop_bit ibt (ins ! (i + 1))) # copy_unaligned ins maxi ibt n (i + 1))"

definition new_vector :: "vectordata_t list \<Rightarrow> nat \<Rightarrow> nat \<Rightarrow> nat \<Rightarrow> nat \<Rightarrow> vectordata_t list" where
  "new_vector ins bitlen position i ibt =
     (let n = (bitlen - position + (VECTOR_WIDTH - 1)) div VECTOR_WIDTH
      in if ibt = VECTOR_WIDTH then take n (drop i ins) else copy_unaligned ins (max_input_index bitlen) ibt n i)"

text \<open>Behind the differing bit: the next input word when the current one is used up.\<close>

definition next_input :: "nat \<Rightarrow> nat \<Rightarrow> nat \<times> nat" where
  "next_input i ibt = (if ibt = 0 then (i + 1, VECTOR_WIDTH) else (i, ibt))"

definition inserted_vector :: "vectordata_t list \<Rightarrow> nat \<Rightarrow> nat \<Rightarrow> nat \<Rightarrow> nat \<Rightarrow> vectordata_t list" where
  "inserted_vector ins bitlen position i ibt =
     (if i = max_input_index bitlen \<and> ibt + max_input_numbits bitlen = VECTOR_WIDTH then []
      else (let (i1, ibt1) = next_input i ibt in new_vector ins bitlen position i1 ibt1))"

lemma size_dropWhile_decision:
  "dropWhile P ds = Decision b v ds' # rest \<Longrightarrow> size_list size ds' < size_list size ds"
  by (induction ds) (auto split: if_splits)

text \<open>The walk through the tree; the result is the return value and the new list of decisions.\<close>

function (sequential) tree_walk ::
  "vectordata_t list \<Rightarrow> nat \<Rightarrow> bool \<Rightarrow> vectordata_t list \<Rightarrow> decision list \<Rightarrow> nat \<Rightarrow> nat \<Rightarrow> nat \<Rightarrow> bool \<times> decision list" where
  "tree_walk ins bitlen noinsert v ds position i ibt =
     (case find_difference ins bitlen v position i ibt of
        None \<Rightarrow> (True, ds)
      | Some (i1, ibt1, k, vbt1) \<Rightarrow>
          (let b = position + k * VECTOR_WIDTH + (VECTOR_WIDTH - vbt1);
               early = takeWhile (\<lambda>d. decision_bit d < b) ds
           in case dropWhile (\<lambda>d. decision_bit d < b) ds of
                Decision b' v' ds' # rest \<Rightarrow>
                  if b' = b
                  then if i1 = max_input_index bitlen \<and> ibt1 - 1 + max_input_numbits bitlen \<le> VECTOR_WIDTH then (True, ds)
                       else (let (i2, ibt2) = next_input i1 (ibt1 - 1);
                                 (r, ds1) = tree_walk ins bitlen noinsert v' ds' (b + 1) i2 ibt2
                             in (r, early @ Decision b' v' ds1 # rest))
                  else if noinsert then (False, ds)
                  else (False, early @ Decision b (inserted_vector ins bitlen (b + 1) i1 (ibt1 - 1)) [] # Decision b' v' ds' # rest)
              | [] \<Rightarrow>
                  if noinsert then (False, ds)
                  else (False, early @ [Decision b (inserted_vector ins bitlen (b + 1) i1 (ibt1 - 1)) []])))"
  by pat_completeness auto

termination
  by (relation "measure (\<lambda>(ins, bitlen, noinsert, v, ds, position, i, ibt). size_list size ds)")
    (auto dest: size_dropWhile_decision)

declare tree_walk.simps [simp del]

definition PrefixTree_searchAndInsert ::
  "vectordata_t list \<Rightarrow> nat \<Rightarrow> bool \<Rightarrow> prefix_tree \<Rightarrow> bool \<times> prefix_tree" where
  "PrefixTree_searchAndInsert ins bitlen noinsert st =
     (case fst st of
        None \<Rightarrow> if noinsert then (False, st) else (False, Some (new_vector ins bitlen 0 0 VECTOR_WIDTH), snd st)
      | Some v \<Rightarrow>
          (let (r, ds) = tree_walk ins bitlen noinsert v (snd st) 0 0 VECTOR_WIDTH in (r, Some v, ds)))"

section \<open>Bits under a cursor\<close>

definition bit_at :: "bool list \<Rightarrow> nat \<Rightarrow> bool" where
  "bit_at bs p \<longleftrightarrow> p < length bs \<and> bs ! p"

lemma word_at:
  assumes s: "stream ws bs" and i: "i < length ws" and go: "j < go" "go \<le> 32"
  shows "bit (ws ! i) (go - 1 - j) \<longleftrightarrow> bit_at bs (32 * i + (32 - go) + j)"
proof -
  let ?n = "go - 1 - j"
  have n: "?n < 32" using go by simp
  have p: "32 * i + (31 - ?n) = 32 * i + (32 - go) + j" using go by simp
  have "32 * i + (31 - ?n) < 32 * length ws" using i by linarith
  then have "stream_bit ws (32 * i + (31 - ?n)) \<longleftrightarrow> bit_at bs (32 * i + (31 - ?n))"
    using s by (simp add: stream_def bit_at_def)
  then show ?thesis using bit_position [OF n, of i] unfolding stream_bit_def p by simp
qed

lemma segment_eq:
  assumes c: "c \<le> a" "a \<le> 32" "c \<le> b" "b \<le> 32"
  shows "segment u a c = segment w b c \<longleftrightarrow> (\<forall>j < c. bit u (a - 1 - j) = bit w (b - 1 - j))"
proof -
  have seg: "bit (segment w b c) n \<longleftrightarrow> n < c \<and> bit w (b - 1 - (c - 1 - n))" if "c \<le> b" "b \<le> 32" for w b n
  proof (cases "n < c")
    case True
    then have "b - 1 - (c - 1 - n) = b - c + n" "n + (32 - c) - (32 - b) = b - c + n" using that by auto
    then show ?thesis using True that by (auto simp: segment_def VECTOR_WIDTH_def bit_simps)
  qed (use that in \<open>auto simp: segment_def VECTOR_WIDTH_def bit_simps\<close>)
  show ?thesis
  proof
    assume e: "segment u a c = segment w b c"
    show "\<forall>j < c. bit u (a - 1 - j) = bit w (b - 1 - j)"
    proof (intro allI impI)
      fix j
      assume j: "j < c"
      then have "c - 1 - (c - 1 - j) = j" "c - 1 - j < c" by auto
      then show "bit u (a - 1 - j) = bit w (b - 1 - j)"
        using seg [OF c(1,2), of u "c - 1 - j"] seg [OF c(3,4), of w "c - 1 - j"] e by simp
    qed
  next
    assume e: "\<forall>j < c. bit u (a - 1 - j) = bit w (b - 1 - j)"
    have "bit u (a - 1 - (c - 1 - n)) = bit w (b - 1 - (c - 1 - n))" if "n < c" for n
      by (rule e [rule_format]) (use that in simp)
    then show "segment u a c = segment w b c"
      by (intro bit_word_eqI) (use seg [OF c(1,2)] seg [OF c(3,4)] in blast)
  qed
qed

lemma locate_step:
  "locate iw vw 0 ibt vbt = (ibt, vbt)"
  "c \<noteq> 0 \<Longrightarrow> segment iw ibt c = segment vw vbt c \<Longrightarrow>
   locate iw vw c ibt vbt = locate iw vw (cap_compare (cap_compare c (ibt - c)) (vbt - c)) (ibt - c) (vbt - c)"
  "c \<noteq> 0 \<Longrightarrow> segment iw ibt c \<noteq> segment vw vbt c \<Longrightarrow> locate iw vw c ibt vbt = locate iw vw (c div 2) ibt vbt"
  by (subst locate.simps, simp)+

lemma locate_correct:
  assumes "\<forall>j < \<delta>. bit iw (ibt - 1 - j) = bit vw (vbt - 1 - j)" "bit iw (ibt - 1 - \<delta>) \<noteq> bit vw (vbt - 1 - \<delta>)"
    and "\<delta> \<le> 2 * c" "\<delta> < ibt" "\<delta> < vbt" "ibt \<le> 32" "vbt \<le> 32" "c \<le> ibt" "c \<le> vbt"
  shows "locate iw vw c ibt vbt = (ibt - \<delta>, vbt - \<delta>)"
  using assms
proof (induction iw vw c ibt vbt arbitrary: \<delta> rule: locate.induct)
  case (1 iw vw c ibt vbt)
  show ?case
  proof (cases "c = 0")
    case True
    then show ?thesis using "1.prems"(3) by (simp add: locate_step(1))
  next
    case False
    have e: "segment iw ibt c = segment vw vbt c \<longleftrightarrow> (\<forall>j < c. bit iw (ibt - 1 - j) = bit vw (vbt - 1 - j))"
      by (rule segment_eq) (use "1.prems" in auto)
    show ?thesis
    proof (cases "segment iw ibt c = segment vw vbt c")
      case True
      have d: "c \<le> \<delta>" using True e "1.prems"(2) by (meson not_le)
      let ?c1 = "cap_compare c (ibt - c)" let ?c2 = "cap_compare ?c1 (vbt - c)"
      have c2: "\<delta> - c \<le> 2 * ?c2" "?c2 \<le> ibt - c" "?c2 \<le> vbt - c"
        using d "1.prems"(3,4,5) by (auto simp: cap_compare_def)
      have "locate iw vw ?c2 (ibt - c) (vbt - c) = (ibt - c - (\<delta> - c), vbt - c - (\<delta> - c))"
      proof (rule "1.IH"(1) [OF False True])
        show "\<forall>j < \<delta> - c. bit iw (ibt - c - 1 - j) = bit vw (vbt - c - 1 - j)"
          using "1.prems"(1) by (metis add.commute diff_commute diff_diff_left less_diff_conv)
        show "bit iw (ibt - c - 1 - (\<delta> - c)) \<noteq> bit vw (vbt - c - 1 - (\<delta> - c))"
          using "1.prems"(2) d by (simp add: diff_diff_left)
        show "\<delta> - c < ibt - c" "\<delta> - c < vbt - c" "ibt - c \<le> 32" "vbt - c \<le> 32"
          using d "1.prems"(4-7) by linarith+
      qed (fact c2)+
      then show ?thesis unfolding locate_step(2) [OF False True] using d by simp
    next
      case n: False
      then obtain j where j: "j < c" "bit iw (ibt - 1 - j) \<noteq> bit vw (vbt - 1 - j)" using e by blast
      have "\<not> j < \<delta>" using "1.prems"(1) j(2) by blast
      then have "\<delta> < c" using j(1) by simp
      then have "locate iw vw (c div 2) ibt vbt = (ibt - \<delta>, vbt - \<delta>)"
        using "1.prems" by (intro "1.IH"(2) [OF False n]) auto
      then show ?thesis unfolding locate_step(3) [OF False n] .
    qed
  qed
qed

section \<open>The first difference\<close>

text \<open>A vector of a node: the bits behind a position, in as few words as possible.\<close>

definition packs :: "vectordata_t list \<Rightarrow> bool list \<Rightarrow> bool" where
  "packs v bs \<longleftrightarrow> stream v bs \<and> length v = vector_length (length bs)"

text \<open>The strings \<open>x\<close> and \<open>s\<close> first differ at \<open>D\<close>.\<close>

definition first_diff :: "bool list \<Rightarrow> bool list \<Rightarrow> nat \<Rightarrow> bool" where
  "first_diff x s D \<longleftrightarrow> D < length x \<and> D < length s \<and> take D x = take D s \<and> x ! D \<noteq> s ! D"

lemma first_diff_bits:
  assumes "first_diff x s D"
  shows "p < D \<Longrightarrow> bit_at x p = bit_at s p" "bit_at x D \<noteq> bit_at s D"
proof -
  show "bit_at x D \<noteq> bit_at s D" using assms by (simp add: first_diff_def bit_at_def)
  assume p: "p < D"
  then have "take D x ! p = take D s ! p" using assms by (simp add: first_diff_def)
  then show "bit_at x p = bit_at s p" using p assms by (simp add: first_diff_def bit_at_def)
qed

text \<open>The cursor points to bit \<open>p\<close> of the input, and of the string of which the vector holds the bits from
  \<open>pos\<close> on.\<close>

definition cursor_at :: "nat \<Rightarrow> nat \<Rightarrow> cursor \<Rightarrow> bool" where
  "cursor_at pos p c \<longleftrightarrow> (case c of (i, ibt, k, vbt) \<Rightarrow>
     0 < ibt \<and> ibt \<le> 32 \<and> 0 < vbt \<and> vbt \<le> 32 \<and> 32 * i + (32 - ibt) = p \<and> pos + 32 * k + (32 - vbt) = p)"

definition located :: "bool list \<Rightarrow> bool list \<Rightarrow> nat \<Rightarrow> nat \<Rightarrow> nat \<times> cursor \<Rightarrow> bool" where
  "located x s pos D r \<longleftrightarrow> (case r of (c, i, ibt, k, vbt) \<Rightarrow>
     (\<exists>p. cursor_at pos p (i, ibt, k, vbt) \<and> p \<le> D \<and> D - p < ibt \<and> D - p < vbt \<and> D - p \<le> 2 * c \<and> c \<le> ibt \<and> c \<le> vbt))"

text \<open>The data of a comparison.\<close>

definition comparing :: "vectordata_t list \<Rightarrow> bool list \<Rightarrow> vectordata_t list \<Rightarrow> bool list \<Rightarrow> nat \<Rightarrow> bool" where
  "comparing ins x v s pos \<longleftrightarrow> encodes (ins, length x) x \<and> pos \<le> length s \<and> packs v (drop pos s) \<and> pos < length x"

lemma input_bit:
  assumes c: "encodes (ins, length x) x" and p: "32 * i + (32 - ibt) < length x" "j < ibt" "ibt \<le> 32"
  shows "bit (ins ! i) (ibt - 1 - j) = bit_at x (32 * i + (32 - ibt) + j)"
proof -
  let ?n = "vector_length (length x)"
  have s: "stream (take ?n ins) x" "?n \<le> length ins" using c by (simp_all add: encodes_def)
  have i: "i < ?n" using p(1) vector_length_bounds(1) [of "length x"] by linarith
  have "bit (take ?n ins ! i) (ibt - 1 - j) = bit_at x (32 * i + (32 - ibt) + j)"
    by (rule word_at [OF s(1)]) (use i s(2) p in auto)
  then show ?thesis using i by simp
qed

lemma comparing_input:
  "comparing ins x v s pos \<Longrightarrow> 32 * i + (32 - ibt) < length x \<Longrightarrow> j < ibt \<Longrightarrow> ibt \<le> 32 \<Longrightarrow>
   bit (ins ! i) (ibt - 1 - j) = bit_at x (32 * i + (32 - ibt) + j)"
  using input_bit by (simp add: comparing_def)

lemma comparing_vector:
  assumes c: "comparing ins x v s pos" and p: "pos + 32 * k + (32 - vbt) < length s" "j < vbt" "vbt \<le> 32"
  shows "bit (v ! k) (vbt - 1 - j) = bit_at s (pos + 32 * k + (32 - vbt) + j)" "k < length v"
proof -
  have v: "stream v (drop pos s)" "length v = vector_length (length s - pos)" using c by (simp_all add: comparing_def packs_def)
  show k: "k < length v" using v(2) p(1) vector_length_bounds(1) [of "length s - pos"] by linarith
  have "bit (v ! k) (vbt - 1 - j) = bit_at (drop pos s) (32 * k + (32 - vbt) + j)"
    by (rule word_at [OF v(1) k]) (use p in auto)
  then show "bit (v ! k) (vbt - 1 - j) = bit_at s (pos + 32 * k + (32 - vbt) + j)"
    using c by (auto simp: bit_at_def comparing_def less_diff_conv add.commute add.left_commute)
qed

lemma locate_diff:
  assumes c: "comparing ins x v s pos" and d: "first_diff x s D" and r: "located x s pos D (c, i, ibt, k, vbt)"
  shows "\<exists>ibt1 vbt1. locate (ins ! i) (v ! k) c ibt vbt = (ibt1, vbt1) \<and> cursor_at pos D (i, ibt1, k, vbt1)"
proof -
  obtain p where p: "cursor_at pos p (i, ibt, k, vbt)" "p \<le> D" "D - p < ibt" "D - p < vbt" "D - p \<le> 2 * c" "c \<le> ibt" "c \<le> vbt"
    using r unfolding located_def by blast
  have q: "0 < ibt" "ibt \<le> 32" "0 < vbt" "vbt \<le> 32" "32 * i + (32 - ibt) = p" "pos + 32 * k + (32 - vbt) = p"
    using p(1) by (simp_all add: cursor_at_def)
  have len: "p < length x" "p < length s" using d p(2) by (auto simp: first_diff_def)
  have in_bit: "bit (ins ! i) (ibt - 1 - j) = bit_at x (p + j)" if "j < ibt" for j
    using comparing_input [OF c _ that q(2), of i] q(5) len(1) by simp
  have v_bit: "bit (v ! k) (vbt - 1 - j) = bit_at s (p + j)" if "j < vbt" for j
    using comparing_vector(1) [OF c _ that q(4), of k] q(6) len(2) by simp
  have "locate (ins ! i) (v ! k) c ibt vbt = (ibt - (D - p), vbt - (D - p))"
  proof (rule locate_correct)
    show "\<forall>j < D - p. bit (ins ! i) (ibt - 1 - j) = bit (v ! k) (vbt - 1 - j)"
      using in_bit v_bit p(3,4) first_diff_bits(1) [OF d] by auto
    show "bit (ins ! i) (ibt - 1 - (D - p)) \<noteq> bit (v ! k) (vbt - 1 - (D - p))"
      using in_bit [OF p(3)] v_bit [OF p(4)] first_diff_bits(2) [OF d] p(2) by simp
  qed (use p q in auto)
  moreover have "cursor_at pos D (i, ibt - (D - p), k, vbt - (D - p))"
    using p(2,3,4) q by (auto simp: cursor_at_def)
  ultimately show ?thesis by blast
qed

lemma head_eq:
  assumes "0 < n" "n \<le> 32"
  shows "push_bit (32 - n) u = push_bit (32 - n) (drop_bit (32 - n) w) \<longleftrightarrow>
    (\<forall>j < n. bit (u :: 32 word) (n - 1 - j) = bit w (31 - j))"
proof
  assume e: "push_bit (32 - n) u = push_bit (32 - n) (drop_bit (32 - n) w)"
  show "\<forall>j < n. bit u (n - 1 - j) = bit w (31 - j)"
  proof (intro allI impI)
    fix j
    assume j: "j < n"
    have "bit (push_bit (32 - n) u) (31 - j) = bit (push_bit (32 - n) (drop_bit (32 - n) w)) (31 - j)" using e by simp
    moreover have "32 - n \<le> 31 - j" "31 - j < 32" "31 - j - (32 - n) = n - 1 - j" "32 - n + (n - 1 - j) = 31 - j"
      using j assms by auto
    ultimately show "bit u (n - 1 - j) = bit w (31 - j)" by (simp add: bit_simps)
  qed
next
  assume e: "\<forall>j < n. bit u (n - 1 - j) = bit w (31 - j)"
  have "bit u (m - (32 - n)) = bit w m" if "32 - n \<le> m" "m < 32" for m
  proof -
    have "bit u (n - 1 - (31 - m)) = bit w (31 - (31 - m))" by (rule e [rule_format]) (use that assms in simp)
    moreover have "n - 1 - (31 - m) = m - (32 - n)" "31 - (31 - m) = m" using that assms by auto
    ultimately show ?thesis by simp
  qed
  then show "push_bit (32 - n) u = push_bit (32 - n) (drop_bit (32 - n) w)"
    by (intro bit_word_eqI) (auto simp: bit_simps)
qed

lemma tail_eq:
  assumes "0 < n" "n < 32"
  shows "push_bit n (drop_bit n u) = push_bit n w \<longleftrightarrow> (\<forall>j < 32 - n. bit (u :: 32 word) (31 - j) = bit w (32 - n - 1 - j))"
  using head_eq [of "32 - n" w u] assms by (auto simp: eq_commute)

lemma unaligned_step:
  assumes c: "comparing ins x v s pos" and a: "0 < ibt" "ibt < 32" and p: "pos + 32 * k = 32 * i + (32 - ibt)"
    and len: "pos + 32 * k < length x" "pos + 32 * k < length s"
  shows "push_bit (32 - ibt) (ins ! i) = push_bit (32 - ibt) (drop_bit (32 - ibt) (v ! k)) \<longleftrightarrow>
      (\<forall>j < ibt. bit_at x (pos + 32 * k + j) = bit_at s (pos + 32 * k + j))"
    and "pos + 32 * k + ibt < length x \<Longrightarrow>
      push_bit ibt (drop_bit ibt (ins ! (i + 1))) = push_bit ibt (v ! k) \<longleftrightarrow>
      (\<forall>j < 32 - ibt. bit_at x (pos + 32 * k + ibt + j) = bit_at s (pos + 32 * k + ibt + j))"
proof -
  have v: "bit (v ! k) (31 - j) = bit_at s (pos + 32 * k + j)" if "j < 32" for j
    using comparing_vector(1) [OF c _ that, of k] len(2) by simp
  have u: "bit (ins ! i) (ibt - 1 - j) = bit_at x (pos + 32 * k + j)" if "j < ibt" for j
    using comparing_input [OF c _ that, of i] len(1) p a(2) by simp
  show "push_bit (32 - ibt) (ins ! i) = push_bit (32 - ibt) (drop_bit (32 - ibt) (v ! k)) \<longleftrightarrow>
      (\<forall>j < ibt. bit_at x (pos + 32 * k + j) = bit_at s (pos + 32 * k + j))"
    unfolding head_eq [OF a(1) less_imp_le [OF a(2)]] using u v a(2) by auto
  assume l: "pos + 32 * k + ibt < length x"
  have q: "32 * (i + 1) = pos + 32 * k + ibt" using p a by simp
  have u1: "bit (ins ! (i + 1)) (31 - j) = bit_at x (pos + 32 * k + ibt + j)" if "j < 32" for j
    using comparing_input [OF c _ that, of "i + 1"] l q by simp
  have w: "bit (v ! k) (32 - ibt - 1 - j) = bit_at s (pos + 32 * k + ibt + j)" if "j < 32 - ibt" for j
  proof -
    have "31 - (ibt + j) = 32 - ibt - 1 - j" by simp
    then show ?thesis using v [of "ibt + j"] that by (simp add: add.assoc)
  qed
  show "push_bit ibt (drop_bit ibt (ins ! (i + 1))) = push_bit ibt (v ! k) \<longleftrightarrow>
      (\<forall>j < 32 - ibt. bit_at x (pos + 32 * k + ibt + j) = bit_at s (pos + 32 * k + ibt + j))"
    unfolding tail_eq [OF a] using u1 w by auto
qed

lemma max_input:
  assumes "0 < n"
  shows "i \<le> max_input_index n \<longleftrightarrow> 32 * i < n"
proof -
  have "i \<le> (n - 1) div 32 \<longleftrightarrow> i * 32 \<le> n - 1" by (simp add: less_eq_div_iff_mult_less_eq)
  then show ?thesis using assms by (auto simp: max_input_index_def VECTOR_WIDTH_def)
qed

lemma unaligned_same:
  assumes c: "comparing ins x v x pos" and a: "0 < ibt" "ibt < 32"
    and p: "pos + 32 * k = 32 * i + (32 - ibt)" "pos + 32 * k < length x" "pos + 32 * (k + n) < length x + 32"
  shows "unaligned ins v (max_input_index (length x)) ibt n i k = None"
  using p
proof (induction n arbitrary: i k)
  case (Suc n)
  note st = unaligned_step [OF c a Suc.prems(1) Suc.prems(2) Suc.prems(2)]
  have "0 < length x" using Suc.prems(2) by linarith
  from max_input [OF this, of "i + 1"]
  have l: "i + 1 \<le> max_input_index (length x) \<longleftrightarrow> pos + 32 * k + ibt < length x"
    using Suc.prems(1) a by (simp add: add.commute)
  have w: "VECTOR_WIDTH = 32" by (simp add: VECTOR_WIDTH_def)
  have "unaligned ins v (max_input_index (length x)) ibt n (i + 1) (k + 1) = None" if "n \<noteq> 0"
    by (rule Suc.IH) (use that Suc.prems in auto)
  then show ?case using st l unfolding unaligned.simps w by simp
qed simp

lemma unaligned_diff:
  assumes c: "comparing ins x v s pos" and a: "0 < ibt" "ibt < 32" and d: "first_diff x s D"
    and p: "pos + 32 * k = 32 * i + (32 - ibt)" "pos + 32 * k \<le> D" "length x \<le> pos + 32 * (k + n)"
  shows "\<exists>r. unaligned ins v (max_input_index (length x)) ibt n i k = Some r \<and> located x s pos D r"
  using p
proof (induction n arbitrary: i k)
  case 0
  then show ?case using d by (auto simp: first_diff_def)
next
  case (Suc n)
  let ?P = "pos + 32 * k"
  have D: "D < length x" "D < length s" using d by (auto simp: first_diff_def)
  have len: "?P < length x" "?P < length s" using D Suc.prems(2) by linarith+
  note st = unaligned_step [OF c a Suc.prems(1) len]
  have w: "VECTOR_WIDTH = 32" by (simp add: VECTOR_WIDTH_def)
  have same: "bit_at x (?P + j) = bit_at s (?P + j)" if "?P + j < D" for j
    by (rule first_diff_bits(1) [OF d that])
  have differ: "bit_at x (?P + (D - ?P)) \<noteq> bit_at s (?P + (D - ?P))"
    using first_diff_bits(2) [OF d] Suc.prems(2) by simp
  show ?case
  proof (cases "D - ?P < ibt")
    case True
    then have "unaligned ins v (max_input_index (length x)) ibt (Suc n) i k = Some (ibt div 2, i, ibt, k, 32)"
      using st(1) differ unfolding unaligned.simps w by auto
    moreover have "located x s pos D (ibt div 2, i, ibt, k, 32)"
      unfolding located_def cursor_at_def prod.case
      by (rule exI [of _ ?P]) (use True a Suc.prems in auto)
    ultimately show ?thesis by blast
  next
    case False
    then have 1: "push_bit (32 - ibt) (ins ! i) = push_bit (32 - ibt) (drop_bit (32 - ibt) (v ! k))"
      using st(1) same by simp
    have l: "?P + ibt < length x" using False D Suc.prems(2) by linarith
    then have "0 < length x" by linarith
    from max_input [OF this, of "i + 1"] have mx: "i + 1 \<le> max_input_index (length x)" using l Suc.prems(1) a by (simp add: add.commute)
    show ?thesis
    proof (cases "D - ?P < 32")
      case True
      have "D - ?P - ibt < 32 - ibt" "?P + ibt + (D - ?P - ibt) = ?P + (D - ?P)" using False True a by auto
      then have "push_bit ibt (drop_bit ibt (ins ! (i + 1))) \<noteq> push_bit ibt (v ! k)"
        using st(2) [OF l] differ by metis
      then have "unaligned ins v (max_input_index (length x)) ibt (Suc n) i k = Some ((32 - ibt) div 2, i + 1, 32, k, 32 - ibt)"
        using 1 mx unfolding unaligned.simps w by simp
      moreover have "located x s pos D ((32 - ibt) div 2, i + 1, 32, k, 32 - ibt)"
        unfolding located_def cursor_at_def prod.case
        by (rule exI [of _ "?P + ibt"]) (use True False a Suc.prems in auto)
      ultimately show ?thesis by blast
    next
      case far: False
      then have "\<forall>j < 32 - ibt. bit_at x (?P + ibt + j) = bit_at s (?P + ibt + j)"
        using first_diff_bits(1) [OF d] Suc.prems(2) by auto
      then have 2: "push_bit ibt (drop_bit ibt (ins ! (i + 1))) = push_bit ibt (v ! k)" using st(2) [OF l] by simp
      have n: "n \<noteq> 0" using far D(1) Suc.prems(2,3) by (cases n) auto
      have "\<exists>r. unaligned ins v (max_input_index (length x)) ibt n (i + 1) (k + 1) = Some r \<and> located x s pos D r"
        by (rule Suc.IH) (use far Suc.prems in auto)
      then show ?thesis using 1 2 n mx unfolding unaligned.simps w by simp
    qed
  qed
qed

text \<open>The aligned comparison.\<close>

lemma aligned_words:
  assumes c: "comparing ins x v s pos" and p: "pos = 32 * i"
    and len: "pos + 32 * k < length x" "pos + 32 * k < length s"
  shows "ins ! (i + k) = v ! k \<longleftrightarrow> (\<forall>j < 32. bit_at x (pos + 32 * k + j) = bit_at s (pos + 32 * k + j))"
proof -
  have u: "bit (ins ! (i + k)) (31 - j) = bit_at x (pos + 32 * k + j)" if "j < 32" for j
    using comparing_input [OF c _ that, of "i + k"] len(1) p by (simp add: algebra_simps)
  have v: "bit (v ! k) (31 - j) = bit_at s (pos + 32 * k + j)" if "j < 32" for j
    using comparing_vector(1) [OF c _ that, of k] len(2) by simp
  show ?thesis using head_eq [of 32 "ins ! (i + k)" "v ! k"] u v by simp
qed

lemma vector_length_shift:
  assumes "32 * i \<le> n"
  shows "vector_length n = i + vector_length (n - 32 * i)"
proof -
  obtain m where n: "n = 32 * i + m" using assms le_Suc_ex by blast
  have "(32 * i + m + 31) div 32 = i + (m + 31) div 32" using div_mult_self1 [of 32 "m + 31" i] by (simp add: add.commute add.left_commute)
  then show ?thesis by (simp add: n vector_length_def VECTOR_WIDTH_def)
qed

lemma aligned_same:
  assumes c: "comparing ins x v x pos" and p: "pos = 32 * i"
  shows "aligned ins v (vector_length (length x - pos)) i = None"
proof -
  let ?n = "vector_length (length x - pos)"
  have len: "i + ?n \<le> length ins" "length v = ?n"
    using c vector_length_shift [of i "length x"] p by (auto simp: comparing_def encodes_def packs_def)
  have "take ?n (drop i ins) = take ?n v"
  proof (rule nth_equalityI)
    fix k
    assume "k < length (take ?n (drop i ins))"
    then have k: "k < ?n" by simp
    then have "pos + 32 * k < length x" using vector_length_bounds(2) [of "length x - pos"] by linarith
    then have "ins ! (i + k) = v ! k" using aligned_words [OF c p] by simp
    then show "take ?n (drop i ins) ! k = take ?n v ! k" using k len by simp
  qed (use len in simp)
  then show ?thesis by (simp add: aligned_def)
qed

lemma aligned_diff:
  assumes c: "comparing ins x v s pos" and d: "first_diff x s D" and p: "pos = 32 * i" "pos \<le> D"
  shows "\<exists>r. aligned ins v (vector_length (length x - pos)) i = Some r \<and> located x s pos D r"
proof -
  let ?n = "vector_length (length x - pos)" and ?k = "(D - pos) div 32"
  have D: "D < length x" "D < length s" using d by (auto simp: first_diff_def)
  have len: "i + ?n \<le> length ins" "length v = vector_length (length s - pos)"
    using c vector_length_shift [of i "length x"] p by (auto simp: comparing_def encodes_def packs_def)
  have kp: "pos + 32 * ?k \<le> D" "D < pos + 32 * ?k + 32" using p(2) by presburger+
  have eq: "ins ! (i + k) = v ! k" if "k < ?k" for k
  proof -
    have "pos + 32 * k + 32 \<le> D" using that kp(1) by linarith
    then show ?thesis using aligned_words [OF c p(1), of k] D first_diff_bits(1) [OF d] by auto
  qed
  have ne: "ins ! (i + ?k) \<noteq> v ! ?k"
  proof -
    have "bit_at x (pos + 32 * ?k + (D - (pos + 32 * ?k))) \<noteq> bit_at s (pos + 32 * ?k + (D - (pos + 32 * ?k)))"
      using first_diff_bits(2) [OF d] kp(1) by simp
    moreover have "D - (pos + 32 * ?k) < 32" using kp(2) by simp
    ultimately show ?thesis using aligned_words [OF c p(1), of ?k] kp(1) D by auto
  qed
  have k: "?k < ?n" "?k < length v"
    using D kp(1) vector_length_bounds(1) [of "length x - pos"] vector_length_bounds(1) [of "length s - pos"] len(2) by linarith+
  have "take ?n (drop i ins) ! ?k \<noteq> take ?n v ! ?k" using ne k len by simp
  then have neq: "take ?n (drop i ins) \<noteq> take ?n v" by metis
  have tw: "length (takeWhile (\<lambda>(a, b). a = b) (zip (drop i ins) v)) = ?k"
  proof -
    have "?k < length ins - i" using k(1) len(1) by linarith
    then have room: "?k < length (zip (drop i ins) v)" using k(2) by simp
    have "takeWhile (\<lambda>(a, b). a = b) (zip (drop i ins) v) = take ?k (zip (drop i ins) v)"
      using room eq ne len k by (intro takeWhile_eq_take_P_nth) auto
    then show ?thesis using room by simp
  qed
  have "aligned ins v ?n i = Some (16, i + ?k, 32, ?k, 32)"
    using neq tw by (simp add: aligned_def VECTOR_WIDTH_def Let_def)
  moreover have "located x s pos D (16, i + ?k, 32, ?k, 32)"
    unfolding located_def cursor_at_def prod.case
    by (rule exI [of _ "pos + 32 * ?k"]) (use kp p in auto)
  ultimately show ?thesis by blast
qed

theorem find_difference_correct:
  assumes c: "comparing ins x v s pos" and p: "32 * i + (32 - ibt) = pos" "0 < ibt" "ibt \<le> 32"
  shows "x = s \<Longrightarrow> find_difference ins (length x) v pos i ibt = None"
    and "first_diff x s D \<Longrightarrow> pos \<le> D \<Longrightarrow>
      \<exists>i1 ibt1 k vbt1. find_difference ins (length x) v pos i ibt = Some (i1, ibt1, k, vbt1) \<and> cursor_at pos D (i1, ibt1, k, vbt1)"
proof -
  let ?n = "vector_length (length x - pos)"
  let ?r = "if ibt = VECTOR_WIDTH then aligned ins v ?n i else unaligned ins v (max_input_index (length x)) ibt ?n i 0"
  have w: "VECTOR_WIDTH = 32" by (simp add: VECTOR_WIDTH_def)
  have r: "find_difference ins (length x) v pos i ibt =
      (case ?r of None \<Rightarrow> None
       | Some (c, i1, ibt1, k, vbt1) \<Rightarrow> (let (ibt2, vbt2) = locate (ins ! i1) (v ! k) c ibt1 vbt1 in Some (i1, ibt2, k, vbt2)))"
    unfolding find_difference_def Let_def vector_length_def ..
  have pos: "pos < length x" using c by (simp add: comparing_def)
  have n: "length x \<le> pos + 32 * ?n" "pos + 32 * ?n < length x + 32"
    using vector_length_bounds [of "length x - pos"] pos by linarith+
  show "find_difference ins (length x) v pos i ibt = None" if x: "x = s"
  proof -
    have c': "comparing ins x v x pos" using c x by simp
    have "?r = None"
      using aligned_same [OF c', of i] unaligned_same [OF c' p(2), of 0 i ?n] p pos n(2) by (auto simp: w)
    then show ?thesis unfolding r by simp
  qed
  assume d: "first_diff x s D" "pos \<le> D"
  have "\<exists>r. ?r = Some r \<and> located x s pos D r"
    using aligned_diff [OF c d(1), of i] unaligned_diff [OF c p(2) _ d(1), of 0 i ?n] p d(2) n(1) by (auto simp: w)
  then obtain c1 i1 ibt1 k vbt1 where l: "?r = Some (c1, i1, ibt1, k, vbt1)" "located x s pos D (c1, i1, ibt1, k, vbt1)"
    by auto
  obtain ibt2 vbt2 where "locate (ins ! i1) (v ! k) c1 ibt1 vbt1 = (ibt2, vbt2)" "cursor_at pos D (i1, ibt2, k, vbt2)"
    using locate_diff [OF c d(1) l(2)] by blast
  then show "\<exists>i1 ibt1 k vbt1. find_difference ins (length x) v pos i ibt = Some (i1, ibt1, k, vbt1) \<and>
      cursor_at pos D (i1, ibt1, k, vbt1)"
    unfolding r l(1) by simp
qed

section \<open>New vectors\<close>

lemma packsI:
  assumes "length v = vector_length (length bs)"
    and "\<And>k m. k < length v \<Longrightarrow> m < 32 \<Longrightarrow> bit (v ! k) (31 - m) \<longleftrightarrow> bit_at bs (32 * k + m)"
  shows "packs v bs"
proof -
  have "stream_bit v j \<longleftrightarrow> bit_at bs j" if "j < 32 * length v" for j
  proof -
    have k: "j div 32 < length v" using that by (simp add: less_mult_imp_div_less mult.commute)
    show ?thesis using assms(2) [OF k, of "j mod 32"] by (simp add: stream_bit_def)
  qed
  then show ?thesis
    using assms(1) vector_length_bounds(1) [of "length bs"] by (simp add: packs_def stream_def bit_at_def)
qed

lemma copy_unaligned_bits:
  assumes e: "encodes (ins, length x) x" and a: "0 < a" "a < 32"
    and p: "p = 32 * i + (32 - a)" "p + 32 * n < length x + 32"
  shows "length (copy_unaligned ins (max_input_index (length x)) a n i) = n \<and>
    (\<forall>k < n. \<forall>m < 32. bit (copy_unaligned ins (max_input_index (length x)) a n i ! k) (31 - m) \<longleftrightarrow> bit_at x (p + 32 * k + m))"
  using p
proof (induction n arbitrary: i p)
  case (Suc n)
  let ?w = "push_bit (32 - a) (ins ! i)"
  have "p + 32 * n < length x" using Suc.prems(2) by simp
  then have len: "p < length x" "0 < length x" by linarith+
  have mx: "i + 1 \<le> max_input_index (length x) \<longleftrightarrow> 32 * (i + 1) < length x" by (rule max_input [OF len(2)])
  have high: "bit ?w (31 - m) \<longleftrightarrow> bit_at x (p + m)" if "m < a" for m
  proof -
    have "32 - a \<le> 31 - m" "31 - m < 32" "31 - m - (32 - a) = a - 1 - m" using that a by auto
    then show ?thesis using input_bit [OF e _ that, of i] len(1) Suc.prems(1) a by (simp add: bit_simps)
  qed
  have low: "\<not> bit ?w (31 - m)" if "a \<le> m" "m < 32" for m using that a by (auto simp: bit_simps)
  have far: "p + m \<ge> 32 * (i + 1)" if "a \<le> m" for m using that Suc.prems(1) a by simp
  show ?case
  proof (cases "i + 1 \<le> max_input_index (length x)")
    case False
    then have "\<not> bit_at x (p + m)" if "a \<le> m" for m using mx far [OF that] by (simp add: bit_at_def)
    then have "bit ?w (31 - m) \<longleftrightarrow> bit_at x (p + m)" if "m < 32" for m
      using high low that by (cases "m < a") auto
    moreover have "\<not> bit_at x (p + 32 * Suc k + m)" for k m
    proof -
      have "32 * i \<le> p" using Suc.prems(1) by simp
      then have "32 * (i + 1) \<le> p + 32 * Suc k + m" by simp
      then show ?thesis using False mx by (simp add: bit_at_def)
    qed
    ultimately show ?thesis using False by (auto simp: VECTOR_WIDTH_def nth_Cons split: nat.splits)
  next
    case True
    let ?u = "?w OR drop_bit a (ins ! (i + 1))"
    have "bit (drop_bit a (ins ! (i + 1))) (31 - m) \<longleftrightarrow> bit_at x (p + m)" if "a \<le> m" "m < 32" for m
    proof -
      have q: "31 - m + a = 31 - (m - a)" "32 * (i + 1) + (m - a) = p + m" using that a Suc.prems(1) by auto
      have "bit (ins ! (i + 1)) (31 - (m - a)) \<longleftrightarrow> bit_at x (32 * (i + 1) + (m - a))"
        using input_bit [OF e, of "i + 1" 32 "m - a"] mx True that by simp
      then show ?thesis using q by (simp add: bit_simps add.commute)
    qed
    moreover have "\<not> bit (drop_bit a (ins ! (i + 1))) (31 - m)" if "m < a" for m
    proof -
      have "32 \<le> a + (31 - m)" using that a by simp
      then have "\<not> bit (ins ! (i + 1)) (a + (31 - m))" using bit_imp_le_length [of "ins ! (i + 1)" "a + (31 - m)"] by auto
      then show ?thesis by (simp add: bit_drop_bit_eq)
    qed
    ultimately have u: "bit ?u (31 - m) \<longleftrightarrow> bit_at x (p + m)" if "m < 32" for m
      using high low that by (cases "m < a") (auto simp: bit_or_iff)
    have ih: "length (copy_unaligned ins (max_input_index (length x)) a n (i + 1)) = n \<and>
        (\<forall>k < n. \<forall>m < 32. bit (copy_unaligned ins (max_input_index (length x)) a n (i + 1) ! k) (31 - m) \<longleftrightarrow>
           bit_at x (p + 32 + 32 * k + m))"
      by (rule Suc.IH) (use Suc.prems in auto)
    have "bit ((?u # copy_unaligned ins (max_input_index (length x)) a n (i + 1)) ! k) (31 - m) \<longleftrightarrow> bit_at x (p + 32 * k + m)"
      if "k < Suc n" "m < 32" for k m
      using that ih u by (cases k) (auto simp: add.assoc)
    then show ?thesis using True ih by (simp add: VECTOR_WIDTH_def Let_def)
  qed
qed simp

lemma new_vector_packs:
  assumes e: "encodes (ins, length x) x" and p: "p = 32 * i + (32 - a)" "0 < a" "a \<le> 32" "p < length x"
  shows "packs (new_vector ins (length x) p i a) (drop p x)"
proof -
  let ?n = "vector_length (length x - p)"
  have n: "p + 32 * ?n < length x + 32" using vector_length_bounds(2) [of "length x - p"] p(4) by linarith
  have v: "new_vector ins (length x) p i a =
      (if a = 32 then take ?n (drop i ins) else copy_unaligned ins (max_input_index (length x)) a ?n i)"
    by (simp add: new_vector_def vector_length_def VECTOR_WIDTH_def)
  have db: "bit_at (drop p x) j = bit_at x (p + j)" for j by (auto simp: bit_at_def less_diff_conv add.commute)
  show ?thesis
  proof (cases "a = 32")
    case True
    have "i + ?n \<le> length ins" using e vector_length_shift [of i "length x"] p True by (simp add: encodes_def)
    moreover have "bit (ins ! (i + k)) (31 - m) \<longleftrightarrow> bit_at x (p + 32 * k + m)" if "k < ?n" "m < 32" for k m
    proof -
      have "p + 32 * k < length x" using that(1) n by linarith
      then show ?thesis using input_bit [OF e _ that(2), of "i + k"] p(1) True by (simp add: algebra_simps)
    qed
    ultimately show ?thesis unfolding v using True by (intro packsI) (auto simp: db add.assoc)
  next
    case False
    then have "a < 32" using p(3) by simp
    from copy_unaligned_bits [OF e p(2) this p(1) n] show ?thesis
      unfolding v using False by (intro packsI) (auto simp: db add.assoc)
  qed
qed

section \<open>Trees represent sets of bit strings\<close>

text \<open>\<open>subtree pos s v ds S\<close>: all strings of \<open>S\<close> agree up to \<open>pos\<close>, the vector holds the rest of \<open>s\<close>, and a
  decision at bit \<open>b\<close> holds strings that first differ from \<open>s\<close> at \<open>b\<close>.\<close>

inductive subtree ::
  "nat \<Rightarrow> bool list \<Rightarrow> vectordata_t list \<Rightarrow> decision list \<Rightarrow> bool list set \<Rightarrow> bool" where
  subtree: "pos \<le> length s \<Longrightarrow> packs v (drop pos s) \<Longrightarrow> sorted_wrt (<) (map decision_bit ds) \<Longrightarrow>
    list_all2 (\<lambda>d S'. \<exists>s'. pos \<le> decision_bit d \<and> first_diff s s' (decision_bit d) \<and>
      subtree (decision_bit d + 1) s' (decision_vector d) (nextnew d) S') ds Ss \<Longrightarrow>
    subtree pos s v ds (insert s (\<Union>(set Ss)))"

inductive_cases subtreeE: "subtree pos s v ds S"

definition branch_of :: "nat \<Rightarrow> bool list \<Rightarrow> decision \<Rightarrow> bool list set \<Rightarrow> bool" where
  "branch_of pos s d S \<longleftrightarrow> (\<exists>s'. pos \<le> decision_bit d \<and> first_diff s s' (decision_bit d) \<and>
     subtree (decision_bit d + 1) s' (decision_vector d) (nextnew d) S)"

lemma subtree_iff:
  "subtree pos s v ds S \<longleftrightarrow> pos \<le> length s \<and> packs v (drop pos s) \<and> sorted_wrt (<) (map decision_bit ds) \<and>
     (\<exists>Ss. list_all2 (branch_of pos s) ds Ss \<and> S = insert s (\<Union>(set Ss)))"
  unfolding branch_of_def by (auto elim: subtreeE intro: subtree.intros)

lemma subtree_prefix: "subtree pos s v ds S \<Longrightarrow> x \<in> S \<Longrightarrow> take pos x = take pos s"
proof (induction pos s v ds S arbitrary: x rule: subtree.induct)
  case (subtree pos s v ds Ss)
  show ?case
  proof (cases "x = s")
    case False
    then obtain S' where S': "S' \<in> set Ss" "x \<in> S'" using subtree.prems by auto
    then obtain k where k: "k < length ds" "S' = Ss ! k" using subtree(4) by (auto simp: in_set_conv_nth list_all2_conv_all_nth)
    let ?b = "decision_bit (ds ! k)"
    obtain s' where s': "pos \<le> ?b" "first_diff s s' ?b" "\<forall>x. x \<in> S' \<longrightarrow> take (?b + 1) x = take (?b + 1) s'"
      using list_all2_nthD [OF subtree(4) k(1)] k(2) by blast
    have "take pos x = take pos (take (?b + 1) x)" using s'(1) by simp
    also have "\<dots> = take pos (take (?b + 1) s')" using s'(3) S'(2) by simp
    also have "\<dots> = take pos (take ?b s')" using s'(1) by simp
    also have "\<dots> = take pos (take ?b s)" using s'(2) by (simp add: first_diff_def)
    finally show ?thesis using s'(1) by simp
  qed simp
qed

lemma subtree_self: "subtree pos s v ds S \<Longrightarrow> s \<in> S"
  by (auto simp: subtree_iff)

text \<open>All strings below a decision agree with \<open>s\<close> up to its bit and differ there.\<close>

lemma branch_of_diff:
  assumes b: "branch_of pos s d S" and x: "x \<in> S"
  shows "take (decision_bit d) x = take (decision_bit d) s" "decision_bit d < length x \<Longrightarrow> x ! decision_bit d \<noteq> s ! decision_bit d"
proof -
  let ?b = "decision_bit d"
  obtain s' where s': "first_diff s s' ?b" "subtree (?b + 1) s' (decision_vector d) (nextnew d) S"
    using b by (auto simp: branch_of_def)
  have t: "take (?b + 1) x = take (?b + 1) s'" by (rule subtree_prefix [OF s'(2) x])
  have "take ?b x = take ?b (take (?b + 1) x)" by simp
  also have "\<dots> = take ?b s'" unfolding t by simp
  finally show "take ?b x = take ?b s" using s'(1) by (simp add: first_diff_def)
  assume "?b < length x"
  then have "x ! ?b = take (?b + 1) x ! ?b" by simp
  also have "\<dots> = s' ! ?b" unfolding t by simp
  finally show "x ! ?b \<noteq> s ! ?b" using s'(1) by (simp add: first_diff_def)
qed

text \<open>So a string that first differs from \<open>s\<close> at \<open>D\<close> can only be below a decision at \<open>D\<close>.\<close>

lemma branch_of_bit:
  assumes b: "branch_of pos s d S" and x: "x \<in> S" and d: "first_diff x s D"
  shows "decision_bit d = D"
proof (rule ccontr)
  assume "decision_bit d \<noteq> D"
  then consider "decision_bit d < D" | "D < decision_bit d" by linarith
  then show False
  proof cases
    case 1
    then have "take D x ! decision_bit d = take D s ! decision_bit d" using d by (simp add: first_diff_def)
    then show ?thesis using branch_of_diff(2) [OF b x] d 1 by (simp add: first_diff_def)
  next
    case 2
    have "take (decision_bit d) x ! D = take (decision_bit d) s ! D" using branch_of_diff(1) [OF b x] by simp
    then show ?thesis using 2 d by (simp add: first_diff_def)
  qed
qed

text \<open>Two strings of which none is a prefix of the other differ somewhere.\<close>

lemma first_diff_exists:
  assumes "\<not> prefix x s" "\<not> prefix s x"
  shows "\<exists>D. first_diff x s D"
proof -
  obtain ps b c xs ys where e: "b \<noteq> c" "x = ps @ b # xs" "s = ps @ c # ys"
    using parallel_decomp [of x s] assms by (auto simp: parallel_def)
  then have "first_diff x s (length ps)" by (simp add: first_diff_def nth_append)
  then show ?thesis by blast
qed

lemma first_diff_unique: "first_diff x s D \<Longrightarrow> first_diff x s E \<Longrightarrow> D = E"
proof (rule ccontr)
  assume d: "first_diff x s D" "first_diff x s E" and "D \<noteq> E"
  then consider "D < E" | "E < D" by linarith
  then show False
  proof cases
    case 1
    then show ?thesis using first_diff_bits(1) [OF d(2) 1] first_diff_bits(2) [OF d(1)] by simp
  next
    case 2
    then show ?thesis using first_diff_bits(1) [OF d(1) 2] first_diff_bits(2) [OF d(2)] by simp
  qed
qed

lemma first_diff_sym: "first_diff x s D \<longleftrightarrow> first_diff s x D"
  by (auto simp: first_diff_def)

definition prefix_free :: "bool list set \<Rightarrow> bool" where
  "prefix_free D \<longleftrightarrow> (\<forall>x \<in> D. \<forall>y \<in> D. prefix x y \<longrightarrow> x = y)"

section \<open>The walk\<close>

lemma tree_walk_None:
  "find_difference ins bitlen v pos i ibt = None \<Longrightarrow> tree_walk ins bitlen noinsert v ds pos i ibt = (True, ds)"
  by (subst tree_walk.simps) simp

lemma tree_walk_found:
  assumes "find_difference ins bitlen v pos i ibt = Some (i1, ibt1, k, vbt1)" "pos + k * 32 + (32 - vbt1) = b"
    and "dropWhile (\<lambda>d. decision_bit d < b) ds = Decision b v' ds' # rest"
  shows "tree_walk ins bitlen noinsert v ds pos i ibt =
    (if i1 = max_input_index bitlen \<and> ibt1 - 1 + max_input_numbits bitlen \<le> 32 then (True, ds)
     else (let (i2, ibt2) = next_input i1 (ibt1 - 1); (r, ds1) = tree_walk ins bitlen noinsert v' ds' (b + 1) i2 ibt2
           in (r, takeWhile (\<lambda>d. decision_bit d < b) ds @ Decision b v' ds1 # rest)))"
  using assms(1) by (subst tree_walk.simps) (simp add: assms(2,3) VECTOR_WIDTH_def)

lemma tree_walk_new:
  assumes "find_difference ins bitlen v pos i ibt = Some (i1, ibt1, k, vbt1)" "pos + k * 32 + (32 - vbt1) = b"
    and "\<And>d rest. dropWhile (\<lambda>d. decision_bit d < b) ds = d # rest \<Longrightarrow> decision_bit d \<noteq> b"
  shows "tree_walk ins bitlen noinsert v ds pos i ibt =
    (if noinsert then (False, ds)
     else (False, takeWhile (\<lambda>d. decision_bit d < b) ds @
             Decision b (inserted_vector ins bitlen (b + 1) i1 (ibt1 - 1)) [] # dropWhile (\<lambda>d. decision_bit d < b) ds))"
proof (cases "dropWhile (\<lambda>d. decision_bit d < b) ds")
  case Nil
  then show ?thesis
    using assms(1)
    by (subst tree_walk.simps) (simp add: assms(2) VECTOR_WIDTH_def Let_def Nil del: dropWhile_eq_Nil_conv)
next
  case (Cons d rest)
  obtain b' v' ds' where d: "d = Decision b' v' ds'" by (cases d)
  then show ?thesis
    using assms(1) assms(3) [OF Cons] Cons by (subst tree_walk.simps) (simp add: assms(2) VECTOR_WIDTH_def Let_def)
qed

lemma last_bit:
  assumes "32 * i + (32 - ibt) = b" "0 < ibt" "ibt \<le> 32" "b < n"
  shows "i = max_input_index n \<and> ibt - 1 + max_input_numbits n \<le> 32 \<longleftrightarrow> b + 1 = n"
    "i = max_input_index n \<and> ibt - 1 + max_input_numbits n = 32 \<longleftrightarrow> b + 1 = n"
proof -
  let ?m = "max_input_index n" and ?r = "max_input_numbits n"
  have n: "n = 32 * ?m + ?r" "0 < ?r" "?r \<le> 32"
  proof -
    obtain q r where q: "n - 1 = 32 * q + r" "r < 32" using that [of "(n - 1) div 32" "(n - 1) mod 32"] by simp
    have m: "?m = q" using q by (simp add: max_input_index_def VECTOR_WIDTH_def)
    have n1: "n = 32 * q + (r + 1)" using q(1) assms(4) by simp
    have "?r = r + 1"
    proof (cases "r + 1 = 32")
      case True
      then have "n mod 32 = 0" unfolding n1 by simp
      then show ?thesis using True by (simp add: max_input_numbits_def VECTOR_WIDTH_def)
    next
      case False
      then have "n mod 32 = r + 1" using q(2) unfolding n1 by simp
      then show ?thesis by (simp add: max_input_numbits_def VECTOR_WIDTH_def)
    qed
    then show "n = 32 * ?m + ?r" "0 < ?r" "?r \<le> 32" using m n1 q(2) by auto
  qed
  obtain a where a: "ibt = a + 1" using assms(2) by (cases ibt) auto
  have b: "b + a = 32 * i + 31" using assms(1,3) a by simp
  have "i = ?m" if "b + 1 = n"
  proof (rule ccontr)
    assume "i \<noteq> ?m"
    then consider "i + 1 \<le> ?m" | "?m + 1 \<le> i" by linarith
    then show False
    proof cases
      case 1
      then have "32 * i + 32 \<le> 32 * ?m" by linarith
      then show ?thesis using that b n a by linarith
    next
      case 2
      then have "32 * ?m + 32 \<le> 32 * i" by linarith
      then show ?thesis using that b n a assms(3) by linarith
    qed
  qed
  moreover have "ibt - 1 + ?r \<le> 32 \<longleftrightarrow> b + 1 = n" "ibt - 1 + ?r = 32 \<longleftrightarrow> b + 1 = n" if "i = ?m"
    using that n b a assms(4) by (simp_all, linarith+)
  ultimately show "i = ?m \<and> ibt - 1 + ?r \<le> 32 \<longleftrightarrow> b + 1 = n" "i = ?m \<and> ibt - 1 + ?r = 32 \<longleftrightarrow> b + 1 = n" by blast+
qed

lemma next_input_cursor:
  assumes "32 * i + (32 - ibt) = b" "0 < ibt" "ibt \<le> 32" "next_input i (ibt - 1) = (i2, ibt2)"
  shows "32 * i2 + (32 - ibt2) = b + 1" "0 < ibt2" "ibt2 \<le> 32"
  using assms by (auto simp: next_input_def VECTOR_WIDTH_def split: if_splits)

lemma inserted_packs:
  assumes e: "encodes (ins, length x) x" and b: "32 * i + (32 - ibt) = b" "0 < ibt" "ibt \<le> 32" "b < length x"
  shows "packs (inserted_vector ins (length x) (b + 1) i (ibt - 1)) (drop (b + 1) x)"
proof (cases "b + 1 = length x")
  case True
  then have "inserted_vector ins (length x) (b + 1) i (ibt - 1) = []"
    using last_bit(2) [OF b] by (simp add: inserted_vector_def VECTOR_WIDTH_def)
  then show ?thesis using True by (simp add: packs_def stream_def vector_length_def VECTOR_WIDTH_def)
next
  case False
  obtain i2 ibt2 where n: "next_input i (ibt - 1) = (i2, ibt2)" by fastforce
  have "inserted_vector ins (length x) (b + 1) i (ibt - 1) = new_vector ins (length x) (b + 1) i2 ibt2"
    using last_bit(2) [OF b] False n by (auto simp: inserted_vector_def VECTOR_WIDTH_def)
  moreover have "b + 1 < length x" using False b(4) by simp
  ultimately show ?thesis
    using new_vector_packs [OF e next_input_cursor(1) [OF b(1-3) n, symmetric] next_input_cursor(2,3) [OF b(1-3) n]] by simp
qed

text \<open>Replacing or adding one decision.\<close>

lemma list_split_at:
  assumes "list_all2 R ds Ss"
  shows "list_all2 R (takeWhile P ds) (take (length (takeWhile P ds)) Ss)"
    "list_all2 R (dropWhile P ds) (drop (length (takeWhile P ds)) Ss)"
    "set Ss = set (take (length (takeWhile P ds)) Ss) \<union> set (drop (length (takeWhile P ds)) Ss)"
proof -
  let ?k = "length (takeWhile P ds)"
  have "list_all2 R (take ?k ds) (take ?k Ss)" "list_all2 R (drop ?k ds) (drop ?k Ss)"
    using assms by (simp_all add: list_all2_takeI list_all2_dropI)
  then show "list_all2 R (takeWhile P ds) (take ?k Ss)" "list_all2 R (dropWhile P ds) (drop ?k Ss)"
    by (simp_all add: takeWhile_eq_take [symmetric] dropWhile_eq_drop [symmetric])
  show "set Ss = set (take ?k Ss) \<union> set (drop ?k Ss)" by (metis append_take_drop_id set_append)
qed

lemma sorted_split:
  fixes ds :: "decision list"
  assumes "sorted_wrt (<) (map decision_bit ds)"
  shows "sorted_wrt (<) (map decision_bit (takeWhile (\<lambda>d. decision_bit d < b) ds))"
    "sorted_wrt (<) (map decision_bit (dropWhile (\<lambda>d. decision_bit d < b) ds))"
    "\<forall>d \<in> set (dropWhile (\<lambda>d. decision_bit d < b) ds). b \<le> decision_bit d"
proof -
  let ?e = "takeWhile (\<lambda>d. decision_bit d < b) ds" and ?r = "dropWhile (\<lambda>d. decision_bit d < b) ds"
  have "sorted_wrt (<) (map decision_bit ?e @ map decision_bit ?r)" using assms by (simp flip: map_append)
  then show "sorted_wrt (<) (map decision_bit ?e)" and r: "sorted_wrt (<) (map decision_bit ?r)"
    by (simp_all add: sorted_wrt_append)
  show "\<forall>d \<in> set ?r. b \<le> decision_bit d"
  proof (cases ?r)
    case (Cons d rest)
    then have "b \<le> decision_bit d" using hd_dropWhile [of "\<lambda>d. decision_bit d < b" ds] by simp
    then show ?thesis using r Cons by auto
  qed (simp del: dropWhile_eq_Nil_conv)
qed

lemma subtree_insert:
  assumes t: "list_all2 (branch_of pos s) early Se" "list_all2 (branch_of pos s) rest Sr"
    and srt: "sorted_wrt (<) (map decision_bit early)" "sorted_wrt (<) (map decision_bit rest)"
    and b: "\<forall>d \<in> set early. decision_bit d < b" "\<forall>d \<in> set rest. b < decision_bit d"
    and d: "decision_bit d = b" "branch_of pos s d Sd" and s: "pos \<le> length s" "packs v (drop pos s)"
  shows "subtree pos s v (early @ d # rest) (insert s (\<Union>(set Se) \<union> Sd \<union> \<Union>(set Sr)))"
proof -
  have "list_all2 (branch_of pos s) (early @ d # rest) (Se @ Sd # Sr)"
    using t d(2) by (simp add: list_all2_appendI)
  moreover have "decision_bit a < decision_bit c" if "a \<in> set early" "c \<in> set rest" for a c
    using b(1) [rule_format, OF that(1)] b(2) [rule_format, OF that(2)] by simp
  then have "sorted_wrt (<) (map decision_bit (early @ d # rest))"
    using srt b d(1) by (simp add: sorted_wrt_append)
  moreover have "insert s (\<Union>(set Se) \<union> Sd \<union> \<Union>(set Sr)) = insert s (\<Union>(set (Se @ Sd # Sr)))" by auto
  ultimately show ?thesis using s unfolding subtree_iff by blast
qed

lemma first_diff_pos:
  assumes "first_diff x s D" "take pos x = take pos s"
  shows "pos \<le> D"
proof (rule ccontr)
  assume "\<not> pos \<le> D"
  then have "take pos x ! D = x ! D" "take pos s ! D = s ! D" by simp_all
  then show False using assms by (simp add: first_diff_def)
qed

theorem tree_walk_correct:
  assumes D: "prefix_free U" "x \<in> U" and e: "encodes (ins, length x) x"
    and t: "subtree pos s v ds S" "S \<subseteq> U" and x: "take pos x = take pos s" "pos < length x"
    and c: "32 * i + (32 - ibt) = pos" "0 < ibt" "ibt \<le> 32"
  shows "\<exists>ds'. tree_walk ins (length x) noinsert v ds pos i ibt = (x \<in> S, ds') \<and>
    subtree pos s v ds' (if noinsert then S else insert x S)"
  using t x c
proof (induction "size_list size ds" arbitrary: s S v ds pos i ibt rule: less_induct)
  case less
  note t = less.prems(1,2) and x = less.prems(3,4) and c = less.prems(5-7)
  obtain Ss where Ss: "list_all2 (branch_of pos s) ds Ss" "S = insert s (\<Union>(set Ss))"
    and node: "pos \<le> length s" "packs v (drop pos s)" "sorted_wrt (<) (map decision_bit ds)"
    using t(1) unfolding subtree_iff by blast
  have cmp: "comparing ins x v s pos" using e node(1,2) x(2) by (simp add: comparing_def)
  note find = find_difference_correct [OF cmp c]
  have sU: "s \<in> U" using t(2) Ss(2) by blast
  show ?case
  proof (cases "x = s")
    case True
    then have "tree_walk ins (length x) noinsert v ds pos i ibt = (True, ds)" by (intro tree_walk_None find(1))
    moreover have "x \<in> S" using True Ss(2) by simp
    ultimately show ?thesis using t(1) by (auto simp: insert_absorb)
  next
    case False
    then have "\<not> prefix x s" "\<not> prefix s x" using D sU unfolding prefix_free_def by blast+
    then obtain b where b: "first_diff x s b" using first_diff_exists by blast
    have pb: "pos \<le> b" by (rule first_diff_pos [OF b x(1)])
    have bx: "b < length x" using b by (simp add: first_diff_def)
    obtain i1 ibt1 k vbt1 where f: "find_difference ins (length x) v pos i ibt = Some (i1, ibt1, k, vbt1)"
      "cursor_at pos b (i1, ibt1, k, vbt1)"
      using find(2) [OF b pb] by blast
    have cur: "32 * i1 + (32 - ibt1) = b" "0 < ibt1" "ibt1 \<le> 32" "pos + k * 32 + (32 - vbt1) = b"
      using f(2) by (simp_all add: cursor_at_def mult.commute)
    let ?early = "takeWhile (\<lambda>d. decision_bit d < b) ds" and ?rest = "dropWhile (\<lambda>d. decision_bit d < b) ds"
    let ?Se = "take (length ?early) Ss" and ?Sr = "drop (length ?early) Ss"
    note sp = list_split_at [OF Ss(1), of "\<lambda>d. decision_bit d < b"]
    note so = sorted_split [OF node(3), of b]
    have S: "S = insert s (\<Union>(set ?Se) \<union> \<Union>(set ?Sr))" using Ss(2) sp(3) by auto
    have early: "\<forall>d \<in> set ?early. decision_bit d < b" by (auto dest: set_takeWhileD)
    have out: "x \<notin> \<Union>(set T)" if "list_all2 (branch_of pos s) es T" "\<forall>d \<in> set es. decision_bit d \<noteq> b" for es T
    proof
      assume "x \<in> \<Union>(set T)"
      then obtain j where j: "j < length T" "x \<in> T ! j" by (auto simp: in_set_conv_nth)
      then have "branch_of pos s (es ! j) (T ! j)" "j < length es"
        using that(1) by (auto simp: list_all2_conv_all_nth)
      then have "decision_bit (es ! j) = b" using branch_of_bit [OF _ j(2) b] by blast
      then show False using that(2) \<open>j < length es\<close> by simp
    qed
    have xe: "x \<notin> \<Union>(set ?Se)" using out [OF sp(1)] early by auto
    show ?thesis
    proof (cases "\<exists>d rest. ?rest = d # rest \<and> decision_bit d = b")
      case new: False
      have "b < decision_bit d" if "d \<in> set ?rest" for d
      proof (cases ?rest)
        case (Cons d0 rest0)
        then have d0: "b < decision_bit d0" using new so(3) by (metis le_neq_implies_less list.set_intros(1))
        show ?thesis
        proof (cases "d = d0")
          case False
          then have "d \<in> set rest0" using that Cons by simp
          then show ?thesis using so(2) d0 Cons by auto
        qed (use d0 in simp)
      qed (use that in \<open>simp del: dropWhile_eq_Nil_conv\<close>)
      then have late: "\<forall>d \<in> set ?rest. b < decision_bit d" by blast
      have "x \<notin> \<Union>(set ?Sr)" using out [OF sp(2)] late by auto
      then have xS: "x \<notin> S" using xe S False by auto
      let ?d = "Decision b (inserted_vector ins (length x) (b + 1) i1 (ibt1 - 1)) []"
      have "subtree (b + 1) x (decision_vector ?d) (nextnew ?d) {x}"
        unfolding subtree_iff using inserted_packs [OF e cur(1-3) bx] bx by auto
      then have "branch_of pos s ?d {x}"
        using pb b first_diff_sym [of x s b] unfolding branch_of_def by (intro exI [of _ x]) simp
      then have "subtree pos s v (?early @ ?d # ?rest) (insert s (\<Union>(set ?Se) \<union> {x} \<union> \<Union>(set ?Sr)))"
        by (intro subtree_insert [OF sp(1,2) so(1,2) early late _ _ node(1,2)]) simp_all
      moreover have "insert s (\<Union>(set ?Se) \<union> {x} \<union> \<Union>(set ?Sr)) = insert x S" using S by auto
      moreover have "tree_walk ins (length x) noinsert v ds pos i ibt =
          (if noinsert then (False, ds) else (False, ?early @ ?d # ?rest))"
        by (rule tree_walk_new [OF f(1) cur(4)]) (use new in blast)
      ultimately show ?thesis using xS t(1) by auto
    next
      case found: True
      then obtain d rest where r: "?rest = d # rest" "decision_bit d = b" by blast
      obtain v' ds1 where d: "d = Decision b v' ds1" using r(2) by (cases d) auto
      obtain Sd Sr where Sr: "?Sr = Sd # Sr" "branch_of pos s d Sd" "list_all2 (branch_of pos s) rest Sr"
        using sp(2) r(1) by (auto simp: list_all2_Cons1)
      have late: "\<forall>d \<in> set rest. b < decision_bit d" using so(2) r by auto
      have srest: "sorted_wrt (<) (map decision_bit rest)" using so(2) r(1) by simp
      have SS: "S = insert s (\<Union>(set ?Se) \<union> Sd \<union> \<Union>(set Sr))" using S Sr(1) by auto
      have "x \<notin> \<Union>(set Sr)" using out [OF Sr(3)] late by auto
      then have xS: "x \<in> S \<longleftrightarrow> x \<in> Sd" using xe SS False by auto
      obtain s' where s': "first_diff s s' b" "subtree (b + 1) s' v' ds1 Sd"
        using Sr(2) by (auto simp: branch_of_def d)
      have "take b x = take b s'" "x ! b = s' ! b" "b < length s'"
        using b s'(1) by (auto simp: first_diff_def)
      then have pre: "take (b + 1) x = take (b + 1) s'" using bx by (simp add: take_Suc_conv_app_nth)
      have SdU: "Sd \<subseteq> U" using SS t(2) by blast
      have walk: "tree_walk ins (length x) noinsert v ds pos i ibt =
          (if i1 = max_input_index (length x) \<and> ibt1 - 1 + max_input_numbits (length x) \<le> 32 then (True, ds)
           else (let (i2, ibt2) = next_input i1 (ibt1 - 1);
                     (r, ds2) = tree_walk ins (length x) noinsert v' ds1 (b + 1) i2 ibt2
                 in (r, ?early @ Decision b v' ds2 # rest)))"
        by (rule tree_walk_found [OF f(1) cur(4)]) (use r(1) d in simp)
      show ?thesis
      proof (cases "b + 1 = length x")
        case True
        then have "prefix x s'" using pre by (metis take_all take_is_prefix order_refl)
        then have "x = s'" using D SdU subtree_self [OF s'(2)] unfolding prefix_free_def by blast
        then have "x \<in> Sd" using subtree_self [OF s'(2)] by simp
        then show ?thesis using walk last_bit(1) [OF cur(1-3) bx] True xS t(1) by (auto simp: insert_absorb)
      next
        case more: False
        obtain i2 ibt2 where n: "next_input i1 (ibt1 - 1) = (i2, ibt2)" by fastforce
        note nc = next_input_cursor [OF cur(1-3) n]
        have sz: "size_list size ds1 < size_list size ds"
          using size_dropWhile_decision [of "\<lambda>d. decision_bit d < b" ds b v' ds1 rest] r(1) d by simp
        obtain ds2 where ih: "tree_walk ins (length x) noinsert v' ds1 (b + 1) i2 ibt2 = (x \<in> Sd, ds2)"
          "subtree (b + 1) s' v' ds2 (if noinsert then Sd else insert x Sd)"
          using less.hyps [OF sz s'(2) SdU pre _ nc] more bx by auto
        let ?d = "Decision b v' ds2" and ?Sd = "if noinsert then Sd else insert x Sd"
        have "branch_of pos s ?d ?Sd"
          using pb s'(1) ih(2) unfolding branch_of_def by (intro exI [of _ s']) simp
        then have "subtree pos s v (?early @ ?d # rest) (insert s (\<Union>(set ?Se) \<union> ?Sd \<union> \<Union>(set Sr)))"
          by (intro subtree_insert [OF sp(1) Sr(3) so(1) srest early late _ _ node(1,2)]) simp_all
        moreover have "insert s (\<Union>(set ?Se) \<union> ?Sd \<union> \<Union>(set Sr)) = (if noinsert then S else insert x S)"
          using SS by auto
        moreover have "tree_walk ins (length x) noinsert v ds pos i ibt = (x \<in> S, ?early @ ?d # rest)"
        proof -
          have nl: "\<not> (i1 = max_input_index (length x) \<and> ibt1 - 1 + max_input_numbits (length x) \<le> 32)"
            using last_bit(1) [OF cur(1-3) bx] more by blast
          show ?thesis unfolding walk if_not_P [OF nl] Let_def n prod.case ih(1) using xS by simp
        qed
        ultimately show ?thesis by simp
      qed
    qed
  qed
qed

section \<open>The store represents a set\<close>

fun tree_set :: "prefix_tree \<Rightarrow> bool list set \<Rightarrow> bool" where
  "tree_set (None, ds) S \<longleftrightarrow> ds = [] \<and> S = {}"
| "tree_set (Some v, ds) S \<longleftrightarrow> (\<exists>s. subtree 0 s v ds S)"

lemma PrefixTree_searchAndInsert_correct:
  assumes "prefix_free U" "x \<in> U" "encodes (ins, length x) x" "tree_set st S" "S \<subseteq> U"
  shows "\<exists>st'. PrefixTree_searchAndInsert ins (length x) noinsert st = (x \<in> S, st') \<and>
    tree_set st' (if noinsert then S else insert x S)"
proof -
  obtain fv ds where st: "st = (fv, ds)" by fastforce
  show ?thesis
  proof (cases "x = []")
    case True
    then have U: "y = []" if "y \<in> U" for y using assms(1,2) that unfolding prefix_free_def by (metis Nil_prefix)
    have nv: "new_vector ins 0 0 0 32 = []" by (simp add: new_vector_def VECTOR_WIDTH_def)
    show ?thesis
    proof (cases fv)
      case None
      have "packs [] (drop 0 x)" using True by (simp add: packs_def stream_def vector_length_def VECTOR_WIDTH_def)
      then have "subtree 0 x [] [] {x}" unfolding subtree_iff by simp
      then show ?thesis using None assms(4) st True nv by (auto simp: PrefixTree_searchAndInsert_def VECTOR_WIDTH_def)
    next
      case (Some v)
      then obtain s where s: "subtree 0 s v ds S" using assms(4) st by auto
      then have "[] \<in> S" using subtree_self [OF s] U assms(5) by blast
      moreover have "find_difference ins 0 v 0 0 32 = None" by (simp add: find_difference_def aligned_def VECTOR_WIDTH_def)
      then have "tree_walk ins 0 noinsert v ds 0 0 32 = (True, ds)" by (rule tree_walk_None)
      ultimately show ?thesis
        using s True by (auto simp: PrefixTree_searchAndInsert_def st Some VECTOR_WIDTH_def insert_absorb)
    qed
  next
    case False
    then have ne: "0 < length x" by simp
    show ?thesis
  proof (cases fv)
    case None
    then have e: "ds = []" "S = {}" using assms(4) st by simp_all
    have "packs (new_vector ins (length x) 0 0 32) (drop 0 x)"
      by (rule new_vector_packs [OF assms(3)]) (use ne in simp_all)
    then have "subtree 0 x (new_vector ins (length x) 0 0 32) [] {x}" unfolding subtree_iff by simp
    then show ?thesis using e None by (auto simp: PrefixTree_searchAndInsert_def st VECTOR_WIDTH_def)
  next
    case (Some v)
    then obtain s where s: "subtree 0 s v ds S" using assms(4) st by auto
    obtain ds' where w: "tree_walk ins (length x) noinsert v ds 0 0 32 = (x \<in> S, ds')"
      "subtree 0 s v ds' (if noinsert then S else insert x S)"
      using tree_walk_correct [OF assms(1-3) s assms(5) _ ne, of 0 32 noinsert] by auto
    have "PrefixTree_searchAndInsert ins (length x) noinsert st = (x \<in> S, Some v, ds')"
      by (simp add: PrefixTree_searchAndInsert_def st Some VECTOR_WIDTH_def w(1))
    then show ?thesis using w(2) by auto
  qed
  qed
qed

end
