(* ===== verification/PrefixStores.thy ===== *)
theory PrefixStores
  imports PrefixTree PackedStores StubbornProps
begin

text \<open>
  \<open>PluginStore\<close> over a \<open>HashingWrapperStore\<close> of \<open>PrefixTreeStore\<close>s, the store LoLA uses by default, with any
  encoder whose bit strings are not prefixes of each other: it meets the store contract of the searches.
\<close>

section \<open>One bucket\<close>

definition bucket_ok :: "bool list set \<Rightarrow> prefix_tree \<Rightarrow> bool" where
  "bucket_ok U st \<longleftrightarrow> (\<exists>S \<subseteq> U. tree_set st S)"

definition bucket_strings :: "bool list set \<Rightarrow> prefix_tree \<Rightarrow> bool list set" where
  "bucket_strings U st = {x \<in> U. \<exists>S \<subseteq> U. tree_set st S \<and> x \<in> S}"

lemma empty_bucket [simp]: "bucket_ok U (None, [])" "bucket_strings U (None, []) = {}"
  by (auto simp: bucket_ok_def bucket_strings_def)

lemma bucket_strings_eq:
  assumes "prefix_free U" "\<forall>x \<in> U. \<exists>ins. encodes (ins, length x) x" "tree_set st S" "S \<subseteq> U"
  shows "bucket_strings U st = S"
proof -
  have "x \<in> S \<longleftrightarrow> x \<in> S'" if "x \<in> U" "tree_set st S'" "S' \<subseteq> U" for x S'
  proof -
    obtain ins where e: "encodes (ins, length x) x" using assms(2) \<open>x \<in> U\<close> by blast
    show ?thesis
      using PrefixTree_searchAndInsert_correct [OF assms(1) that(1) e assms(3,4), of True]
        PrefixTree_searchAndInsert_correct [OF assms(1) that(1) e that(2,3), of True] by auto
  qed
  then show ?thesis using assms(3,4) unfolding bucket_strings_def by blast
qed

lemma bucket_search:
  assumes U: "prefix_free U" "\<forall>x \<in> U. \<exists>ins. encodes (ins, length x) x" and x: "x \<in> U" "encodes (ins, length x) x"
    and st: "bucket_ok U st" and r: "PrefixTree_searchAndInsert ins (length x) False st = (b, st')"
  shows "b \<longleftrightarrow> x \<in> bucket_strings U st" "bucket_ok U st'" "bucket_strings U st' = insert x (bucket_strings U st)"
proof -
  obtain S where S: "tree_set st S" "S \<subseteq> U" using st by (auto simp: bucket_ok_def)
  have w: "b = (x \<in> S)" "tree_set st' (insert x S)"
    using PrefixTree_searchAndInsert_correct [OF U(1) x S, of False] r by auto
  have U': "insert x S \<subseteq> U" using S(2) x(1) by blast
  note e = bucket_strings_eq [OF U S] and e' = bucket_strings_eq [OF U w(2) U']
  show "b \<longleftrightarrow> x \<in> bucket_strings U st" "bucket_strings U st' = insert x (bucket_strings U st)"
    using w(1) e e' by simp_all
  show "bucket_ok U st'" using w(2) U' unfolding bucket_ok_def by blast
qed

section \<open>The store\<close>

definition hashed_prefix_store ::
  "(netstate \<Rightarrow> (vectordata_t list \<times> nat) option) \<Rightarrow> netstate \<Rightarrow> prefix_tree list plugin_store \<Rightarrow>
   bool \<times> prefix_tree list plugin_store" where
  "hashed_prefix_store encode = PluginStore_searchAndInsert (\<lambda>ns. case encode ns of Some r \<Rightarrow> r | None \<Rightarrow> ([], 0))
     (Hashing_searchAndInsert PrefixTree_searchAndInsert)"

definition empty_prefix_store :: "prefix_tree list plugin_store" where
  "empty_prefix_store = empty_plugin (replicate (nat SIZEOF_MARKINGTABLE) (None, []))"

text \<open>The encoder writes prefix free strings for the reachable markings.\<close>

definition prefix_encoding ::
  "net \<Rightarrow> marking \<Rightarrow> (netstate \<Rightarrow> (vectordata_t list \<times> nat) option) \<Rightarrow> (capacity_t list \<Rightarrow> bool list) \<Rightarrow> bool" where
  "prefix_encoding N M0 encode code \<longleftrightarrow>
     (\<forall>ns. reachable_vec N M0 (Current ns) \<longrightarrow> (\<exists>r. encode ns = Some r \<and> encodes r (code (Current ns)))) \<and>
     (\<forall>m m'. reachable_vec N M0 m \<and> reachable_vec N M0 m' \<and> prefix (code m) (code m') \<longrightarrow> m = m')"

definition codes :: "net \<Rightarrow> marking \<Rightarrow> (capacity_t list \<Rightarrow> bool list) \<Rightarrow> bool list set" where
  "codes N M0 code = code ` {m. reachable_vec N M0 m}"

definition bucket_index :: "net \<Rightarrow> hash_t list \<Rightarrow> capacity_t list \<Rightarrow> nat" where
  "bucket_index N H m = nat (marking_hash H (Card N PL) (marking_of m))"

definition prefix_store_ok ::
  "net \<Rightarrow> marking \<Rightarrow> (netstate \<Rightarrow> (vectordata_t list \<times> nat) option) \<Rightarrow> (capacity_t list \<Rightarrow> bool list) \<Rightarrow>
   prefix_tree list plugin_store \<Rightarrow> bool" where
  "prefix_store_ok N M0 encode code s \<longleftrightarrow> prefix_encoding N M0 encode code \<and>
     length (vectorStore s) = nat SIZEOF_MARKINGTABLE \<and> (\<forall>b \<in> set (vectorStore s). bucket_ok (codes N M0 code) b)"

definition prefix_contents ::
  "net \<Rightarrow> hash_t list \<Rightarrow> marking \<Rightarrow> (capacity_t list \<Rightarrow> bool list) \<Rightarrow> prefix_tree list plugin_store \<Rightarrow> capacity_t list set" where
  "prefix_contents N H M0 code s =
     {m. reachable_vec N M0 m \<and> code m \<in> bucket_strings (codes N M0 code) (vectorStore s ! bucket_index N H m)}"

lemma bucket_index_less: "bucket_index N H m < nat SIZEOF_MARKINGTABLE"
  by (simp add: bucket_index_def marking_hash_def SIZEOF_MARKINGTABLE_def nat_less_iff)

lemma codes_ok:
  assumes "prefix_encoding N M0 encode code"
  shows "prefix_free (codes N M0 code)" "\<forall>x \<in> codes N M0 code. \<exists>ins. encodes (ins, length x) x"
proof -
  have p: "m = m'" if "reachable_vec N M0 m" "reachable_vec N M0 m'" "prefix (code m) (code m')" for m m'
    using assms that by (simp add: prefix_encoding_def)
  show "prefix_free (codes N M0 code)"
    unfolding prefix_free_def
  proof (intro ballI impI)
    fix x y
    assume "x \<in> codes N M0 code" "y \<in> codes N M0 code" "prefix x y"
    then show "x = y" using p by (auto simp: codes_def)
  qed
  have "\<exists>ins. encodes (ins, length (code m)) (code m)" if rm: "reachable_vec N M0 m" for m
  proof -
    let ?ns = "\<lparr>Current = m, HashCurrent = 0, Enabled = [], CardEnabled = 0\<rparr>"
    have "\<forall>ns. reachable_vec N M0 (Current ns) \<longrightarrow> (\<exists>r. encode ns = Some r \<and> encodes r (code (Current ns)))"
      using assms by (simp add: prefix_encoding_def)
    from spec [OF this, of ?ns] obtain r where "encodes r (code m)" using rm by auto
    then show ?thesis by (intro exI [of _ "fst r"]) (auto simp: encodes_def)
  qed
  then show "\<forall>x \<in> codes N M0 code. \<exists>ins. encodes (ins, length x) x" by (auto simp: codes_def)
qed

lemma code_inj:
  "prefix_encoding N M0 encode code \<Longrightarrow> reachable_vec N M0 m \<Longrightarrow> reachable_vec N M0 m' \<Longrightarrow> code m = code m' \<Longrightarrow> m = m'"
  unfolding prefix_encoding_def by (metis prefix_order.order_refl)

lemma hashed_prefix_store_correct:
  assumes h: "hashed_state N H M0 ns" and ok: "prefix_store_ok N M0 encode code s"
    and r: "hashed_prefix_store encode ns s = (b, s')"
  shows "prefix_store_ok N M0 encode code s'" "b \<longleftrightarrow> Current ns \<in> prefix_contents N H M0 code s"
    "prefix_contents N H M0 code s' = insert (Current ns) (prefix_contents N H M0 code s)"
proof -
  let ?U = "codes N M0 code" and ?m = "Current ns" and ?i = "bucket_index N H (Current ns)"
  have e: "prefix_encoding N M0 encode code" and len: "length (vectorStore s) = nat SIZEOF_MARKINGTABLE"
    and bk: "\<forall>b \<in> set (vectorStore s). bucket_ok ?U b"
    using ok by (simp_all add: prefix_store_ok_def)
  have m: "reachable_vec N M0 ?m" and hash: "nat (HashCurrent ns) = ?i"
    using h by (simp_all add: hashed_state_def bucket_index_def)
  obtain q where q: "encode ns = Some q" "encodes q (code ?m)" using e m by (auto simp: prefix_encoding_def)
  have q2: "q = (fst q, length (code ?m))" using q(2) by (cases q) (simp add: encodes_def)
  then have en: "encodes (fst q, length (code ?m)) (code ?m)" using q(2) by simp
  have i: "?i < length (vectorStore s)" using bucket_index_less len by simp
  obtain b1 st where st: "PrefixTree_searchAndInsert (fst q) (length (code ?m)) False (vectorStore s ! ?i) = (b1, st)"
    by (cases "PrefixTree_searchAndInsert (fst q) (length (code ?m)) False (vectorStore s ! ?i)") blast
  have xU: "code ?m \<in> ?U" using m by (simp add: codes_def)
  have bi: "bucket_ok ?U (vectorStore s ! ?i)" using bk i by simp
  note w = bucket_search [OF codes_ok [OF e] xU en bi st]
  have eq: "b = b1" "vectorStore s' = (vectorStore s)[?i := st]"
  proof -
    have "Hashing_searchAndInsert PrefixTree_searchAndInsert (fst q) (length (code ?m)) (HashCurrent ns) False (vectorStore s) =
        (b1, (vectorStore s)[?i := st])"
      by (simp add: Hashing_searchAndInsert_def hash st)
    then show "b = b1" "vectorStore s' = (vectorStore s)[?i := st]"
      using r q(1) q2 by (auto simp: hashed_prefix_store_def PluginStore_searchAndInsert_def Let_def split: prod.splits)
  qed
  show "prefix_store_ok N M0 encode code s'"
    using e len bk w(2) by (auto simp: prefix_store_ok_def eq(2) dest: set_update_subset_insert [THEN subsetD])
  show "b \<longleftrightarrow> ?m \<in> prefix_contents N H M0 code s" using w(1) m eq(1) by (simp add: prefix_contents_def)
  show "prefix_contents N H M0 code s' = insert ?m (prefix_contents N H M0 code s)"
  proof (rule set_eqI)
    fix m'
    show "m' \<in> prefix_contents N H M0 code s' \<longleftrightarrow> m' \<in> insert ?m (prefix_contents N H M0 code s)"
    proof (cases "reachable_vec N M0 m'")
      case True
      have "code m' = code ?m \<longleftrightarrow> m' = ?m" using code_inj [OF e True m] by blast
      then show ?thesis
        using True i w(3) by (cases "bucket_index N H m' = ?i") (auto simp: prefix_contents_def eq(2))
    next
      case False
      then show ?thesis using m by (auto simp: prefix_contents_def)
    qed
  qed
qed

interpretation hashed_prefix: store_contract "hashed_prefix_store encode" "prefix_store_ok N M0 encode code"
    "prefix_contents N H M0 code" "hashed_state N H M0" for encode code N H M0
  by unfold_locales (intro conjI; rule hashed_prefix_store_correct)

lemma empty_prefix_store_ok:
  "prefix_encoding N M0 encode code \<Longrightarrow> prefix_store_ok N M0 encode code empty_prefix_store"
  "prefix_contents N H M0 code empty_prefix_store = {}"
  using bucket_index_less by (auto simp: prefix_store_ok_def empty_prefix_store_def empty_plugin_def prefix_contents_def)

section \<open>The searches over it\<close>

sublocale net_setting \<subseteq> dl_prefix: search_contract N T H M0 "deadlock_ops (hashed_prefix_store encode) N"
    "\<lambda>_. True" "\<lambda>_ _. True" "dead_vec N" "\<lambda>_. True" "all_enabled N" "prefix_store_ok N M0 encode code"
    "prefix_contents N H M0 code" for encode code
  by (rule search_contract.intro [OF dl_walk.walk_contract_axioms]; unfold deadlock_ops_simps) unfold_locales

sublocale net_setting \<subseteq> st_dl_prefix: search_contract N T H M0
    "stubborn_deadlock_ops (hashed_prefix_store encode) N T pr sg"
    "\<lambda>_. True" "\<lambda>_ _. True" "dead_vec N" "dl_finv N T H M0 pr sg" "deadlock_stubborn N" "prefix_store_ok N M0 encode code"
    "prefix_contents N H M0 code" for pr sg encode code
  by (rule search_contract.intro [OF st_dl_walk.walk_contract_axioms]; unfold stubborn_ops_simps) unfold_locales

sublocale net_setting \<subseteq> st_sp_prefix: search_contract N T H M0
    "stubborn_predicate_ops P (hashed_prefix_store encode) N T pr sg junk"
    "sp_pstart N T H M0 P h0" "sp_pinv N T H M0 P h0" "\<lambda>m. sp_holds N h0 m (predicate P)"
    "sp_finv N T M0 h0 pr sg" "stubborn_for N (\<lambda>M. sp_holds N h0 (vec_of N M) (predicate P))"
    "prefix_store_ok N M0 encode code" "prefix_contents N H M0 code"
  for P pr sg junk h0 encode code
  by (rule search_contract.intro [OF st_sp_walk.walk_contract_axioms]; unfold stubborn_ops_simps) unfold_locales

context net_setting
begin

lemmas prefix_decides = dl_prefix.depth_first_decides [OF _ _ _ _ _ _ all_enabled_preserving [of "dead_vec N" "dead_at N", OF dead_vec_at] dead_vec_at]
  and st_prefix_decides = st_dl_prefix.depth_first_decides [OF _ _ _ _ _ _ deadlock_stubborn_preserving dead_vec_at]
  and st_sp_prefix_decides = st_sp_prefix.depth_first_decides [OF _ _ _ _ _ _ stubborn_for_preserving sp_vec]

end

end
