(* ===== verification/PrefixProps.thy ===== *)
theory PrefixProps
  imports PrefixStores SignificantProps
begin

text \<open>
  The encoders write prefix free strings, the properties of \<open>PrefixTreeStore\<close>, and the deadlock check as a
  whole: preprocessing, stubborn sets, packed markings in hashed prefix trees.
\<close>

section \<open>Encoders that write prefix free strings\<close>

context encoder_contract
begin

lemma prefix_encoding_reachable:
  assumes "\<And>m. reachable_vec N M0 m \<Longrightarrow> dom_m m"
    and "\<And>m m'. reachable_vec N M0 m \<Longrightarrow> reachable_vec N M0 m' \<Longrightarrow> prefix (code m) (code m') \<Longrightarrow> code m = code m'"
  shows "prefix_encoding N M0 encode code"
  unfolding prefix_encoding_def
proof (intro conjI allI impI, goal_cases)
  case (1 ns)
  then show ?case using encode_correct assms(1) by blast
next
  case (2 m m')
  then have "code m = code m'" using assms(2) by blast
  then have "padded_eq (code m) (code m')" by (auto simp: padded_eq_def)
  then show ?case using 2 assms(1) code_inj by blast
qed

end


lemma simple_prefix_encoding:
  assumes "significant_places N M0 cs" "\<forall>M q. net_reach N M0 M \<and> q < cs \<longrightarrow> M q + 2 < 2 ^ 32"
  shows "prefix_encoding N M0 (SimpleCompressedEncoder_encodeNetState cs) (\<lambda>m. concat (map place_code (take cs m)))"
proof (rule simple.prefix_encoding_reachable)
  have small: "\<forall>v \<in> set (take cs m). unat v + 2 < 2 ^ 32" if m: "reachable_vec N M0 m" for m
  proof -
    have "unat (m ! q) + 2 < 2 ^ 32" if "q < cs" for q
      using reachable_vec_bound [OF m, of q "2 ^ 32 - 2"] assms that by (auto simp: significant_places_def)
    then show ?thesis by (auto simp: in_set_conv_nth)
  qed
  show "simple_dom cs {m. reachable_vec N M0 m} m" if "reachable_vec N M0 m" for m
    using that small significant_places_vec [OF assms(1)] by (auto simp: simple_dom_def)
  show "concat (map place_code (take cs m)) = concat (map place_code (take cs m'))"
    if r: "reachable_vec N M0 m" "reachable_vec N M0 m'"
      and p: "prefix (concat (map place_code (take cs m))) (concat (map place_code (take cs m')))" for m m'
  proof -
    have l: "length (take cs m) = length (take cs m')" using r by (simp add: reachable_vec_def)
    have s: "\<forall>v \<in> set (take cs m) \<union> set (take cs m'). unat v + 2 < 2 ^ 32" using small r by blast
    obtain ys where "concat (map place_code (take cs m)) @ ys = concat (map place_code (take cs m')) @ []"
      using p by (auto simp: prefix_def)
    from place_codes_inj [OF l s this] show ?thesis by simp
  qed
qed

section \<open>The reduced search over prefix trees\<close>




section \<open>Properties\<close>

text \<open>C10: \<open>PrefixTreeStore::searchAndInsert\<close> works as a set of bit strings, as long as no string that it
  is called with is a proper prefix of another: it finds exactly the strings that were inserted, and
  inserting a string adds this string and nothing else.\<close>

theorem PrefixTreeStore_refines_set:
  assumes "prefix_free U" "x \<in> U" "encodes (ins, length x) x" "tree_set st S" "S \<subseteq> U"
  shows "tree_set (None, []) {} \<and>
    (\<exists>st'. PrefixTree_searchAndInsert ins (length x) noinsert st = (x \<in> S, st') \<and>
       tree_set st' (if noinsert then S else insert x S))"
  using PrefixTree_searchAndInsert_correct [OF assms] by simp

definition words32 :: "bool list set" where
  "words32 = {x. length x = 32}"

lemma words32: "prefix_free words32" "bits_msb 32 w \<in> words32" "encodes ([w], 32) (bits_msb 32 w)"
  "tree_set (Some [w], []) {bits_msb 32 w}"
proof -
  show "prefix_free words32" by (auto simp: prefix_free_def words32_def prefix_def)
  show "bits_msb 32 w \<in> words32" by (simp add: words32_def)
  have s: "stream [w] (bits_msb 32 w)" using stream_words [of "[w]" 0] by simp
  have v: "vector_length 32 = 1" using vector_length_mult [of 1] by (simp add: VECTOR_WIDTH_def)
  show "encodes ([w], 32) (bits_msb 32 w)" using s v by (simp add: encodes_def)
  have "subtree 0 (bits_msb 32 w) [w] [] {bits_msb 32 w}" using s v by (simp add: subtree_iff packs_def)
  then show "tree_set (Some [w], []) {bits_msb 32 w}" by auto
qed

theorem PrefixTreeStore_refines_set_witness:
  "\<exists>st'. PrefixTree_searchAndInsert [5] 32 False (Some [7], []) = (False, st') \<and>
     tree_set st' {bits_msb 32 5, bits_msb 32 7}"
proof -
  have "bits_msb 32 5 ! 30 \<noteq> bits_msb 32 7 ! 30" by simp
  then have "bits_msb 32 5 \<noteq> bits_msb 32 7" by metis
  then show ?thesis
    using PrefixTreeStore_refines_set [OF words32(1,2) _ words32(4), of "[5]" 5 7 False] words32(2,3) by auto
qed



end
