(* ===== verification/Instances.thy ===== *)
theory Instances
  imports PrefixProps
begin

text \<open>
  The contracts of the searches, instantiated at every net the program runs them on: the nets that come out
  of the symbol table, and those that preprocessing hands to a search.
\<close>

section \<open>Loaded nets\<close>

text \<open>What \<open>symboltable2net\<close> delivers: a well-formed net whose place arcs are sorted.\<close>

typedef loaded_net = "{N. wf_net N \<and> (\<forall>p d. p < Card N PL \<longrightarrow> sorted (Arc N PL d p))}"
  morphisms net_of_loaded Loaded_net
  using ring_wf ring_place_sorted by blast

interpretation loaded: place_sorted_net "net_of_loaded L" for L
  using net_of_loaded [of L] by unfold_locales blast+

section \<open>Searched nets\<close>

text \<open>What preprocessing delivers: a net with its transition data, the hash values and the initial state.\<close>

typedef searched = "{(N, T, H, ns). search_ready N T H ns}"
  morphisms of_searched Searched
  using ring_ready by blast

definition searched_net :: "searched \<Rightarrow> net" where
  "searched_net S = fst (of_searched S)"

definition searched_trans :: "searched \<Rightarrow> transition_data" where
  "searched_trans S = fst (snd (of_searched S))"

definition searched_hashes :: "searched \<Rightarrow> hash_t list" where
  "searched_hashes S = fst (snd (snd (of_searched S)))"

definition searched_state :: "searched \<Rightarrow> netstate" where
  "searched_state S = snd (snd (snd (of_searched S)))"

lemma searched_ready: "search_ready (searched_net S) (searched_trans S) (searched_hashes S) (searched_state S)"
  using of_searched [of S]
  by (simp add: searched_net_def searched_trans_def searched_hashes_def searched_state_def split: prod.splits)

interpretation searched: net_setting "searched_net S" "searched_trans S" "searched_hashes S"
  "marking_of (Current (searched_state S))" for S
  by (rule search_ready_setting(1) [OF searched_ready])

end
